(* ===== verification/Prelude.thy ===== *)
theory Prelude
  imports Main "HOL-Library.Word"
begin

text \<open>
  Shared vocabulary of the development: the names of the machine integer types,
  NUL-terminated C strings as character lists, and the generic facts about words,
  lists and options that several components use.

  Conventions.
  \<^item> \<open>uint8_t\<close>, \<open>uint16_t\<close>, \<open>uint32_t\<close> and \<open>uint64_t\<close> are \<open>byte\<close>, \<open>u16\<close>, \<open>u32\<close> and
    \<open>u64\<close>, so arithmetic wraps exactly where the C code's does.
  \<^item> A C string is the list of its characters up to (not including) the terminator;
    \<open>cchar s i\<close> is what \<open>s[i]\<close> reads, the terminator included.
  \<^item> A cast that narrows is \<open>ucast\<close>, which keeps the low bits.
\<close>

unbundle bit_operations_syntax

type_synonym byte = "8 word"
type_synonym u16 = "16 word"
type_synonym u32 = "32 word"
type_synonym u64 = "64 word"

named_theorems const_defs "definitions of the numeric constants of the source"
named_theorems safe_ops "preservation lemmas of the components' invariants"

section \<open>C strings\<close>

abbreviation NUL :: char where "NUL \<equiv> CHR 0x00"

definition cchar :: "string \<Rightarrow> nat \<Rightarrow> char" where
  "cchar s i = (if i < length s then s ! i else NUL)"

definition cstr :: "string \<Rightarrow> string" where
  "cstr s = takeWhile (\<lambda>c. c \<noteq> NUL) s"

abbreviation code_of :: "char \<Rightarrow> nat" where "code_of c \<equiv> of_char c"

lemma cchar_simps [simp]:
  "cchar [] i = NUL"
  "cchar (c # s) 0 = c"
  "cchar (c # s) (Suc i) = cchar s i"
  by (simp_all add: cchar_def)

lemma cchar_1 [simp]: "cchar (c # s) 1 = cchar s 0"
  by (simp add: cchar_def)

lemma cchar_beyond [simp]: "length s \<le> i \<Longrightarrow> cchar s i = NUL"
  by (simp add: cchar_def)

lemma cchar_drop [simp]: "cchar (drop n s) i = cchar s (n + i)"
  by (auto simp: cchar_def)

lemma cstr_Nil [simp]: "cstr [] = []"
  by (simp add: cstr_def)

lemma cstr_no_NUL [simp]: "NUL \<notin> set (cstr s)"
  by (auto simp: cstr_def dest: set_takeWhileD)

lemma cstr_id: "NUL \<notin> set s \<Longrightarrow> cstr s = s"
  by (induction s) (auto simp: cstr_def)

section \<open>Words\<close>

lemma unat_less_2p: "unat (x :: 'a::len word) < 2 ^ LENGTH('a)"
  by (rule unsigned_less)

lemma word_size_bounds [simp]:
  "unat (x :: byte) < 256" "unat (y :: u16) < 65536" "unat (z :: u32) < 4294967296"
  "unat (w :: u64) < 18446744073709551616"
  using unat_less_2p [of x] unat_less_2p [of y] unat_less_2p [of z] unat_less_2p [of w]
  by simp_all

lemma unat_ucast_up:
  "LENGTH('a) \<le> LENGTH('b) \<Longrightarrow> unat (ucast (x :: 'a::len word) :: 'b::len word) = unat x"
  by (simp add: unsigned_ucast_eq take_bit_nat_eq_self_iff order_less_le_trans [OF unsigned_less])

lemma unat_ucast_down:
  "unat (ucast (x :: 'a::len word) :: 'b::len word) = unat x mod 2 ^ LENGTH('b)"
  by (simp add: unsigned_ucast_eq take_bit_eq_mod)

lemma unat_byte_to_u32 [simp]: "unat (ucast (x :: byte) :: u32) = unat x"
  by (simp add: unat_ucast_up)

lemma unat_u16_to_u32 [simp]: "unat (ucast (x :: u16) :: u32) = unat x"
  by (simp add: unat_ucast_up)

lemma unat_u32_to_u64 [simp]: "unat (ucast (x :: u32) :: u64) = unat x"
  by (simp add: unat_ucast_up)

lemma unat_byte_to_u16 [simp]: "unat (ucast (x :: byte) :: u16) = unat x"
  by (simp add: unat_ucast_up)

lemma unat_add_no_wrap:
  "unat (a :: 'a::len word) + unat b < 2 ^ LENGTH('a) \<Longrightarrow> unat (a + b) = unat a + unat b"
  by (simp add: unat_word_ariths)

lemma unat_mult_no_wrap:
  "unat (a :: 'a::len word) * unat b < 2 ^ LENGTH('a) \<Longrightarrow> unat (a * b) = unat a * unat b"
  by (simp add: unat_word_ariths)

lemma unat_sub_no_wrap:
  "unat b \<le> unat (a :: 'a::len word) \<Longrightarrow> unat (a - b) = unat a - unat b"
  by (simp add: unat_sub word_le_nat_alt)

lemma ucast_add_down:
  assumes "LENGTH('b) \<le> LENGTH('a)"
  shows "(ucast (a + b :: 'a::len word) :: 'b::len word) = ucast a + ucast b"
proof -
  have "(2::nat) ^ LENGTH('b) dvd 2 ^ LENGTH('a)" using assms by (rule le_imp_power_dvd)
  then show ?thesis
    by (simp add: word_unat_eq_iff unat_ucast_down unat_word_ariths mod_add_eq mod_mod_cancel)
qed

lemma ucast_ucast_up:
  assumes "LENGTH('a) \<le> LENGTH('b)"
  shows "(ucast (ucast (a :: 'a::len word) :: 'b::len word) :: 'a word) = a"
  using assms unat_less_2p [of a]
  by (simp only: word_unat_eq_iff unat_ucast_down [where 'b = 'a] unat_ucast_up [where 'b = 'b]
      mod_less)

lemma unat_and_mask: "unat (x AND mask n) = unat x mod 2 ^ n"
proof -
  have "unat (x AND mask n) = unat (take_bit n x)" by (simp only: take_bit_eq_mask)
  also have "\<dots> = take_bit n (unat x)" by (rule unsigned_take_bit_eq)
  finally show ?thesis by (simp add: take_bit_eq_mod)
qed

lemma unat_and_255: "unat (x AND 0xFF) = unat x mod 256"
  using unat_and_mask [of x 8] by (simp add: mask_eq_exp_minus_1)

lemma byte_and_FF [simp]: "0xFF AND (b :: byte) = b" "b AND 0xFF = b"
proof -
  have ff: "(0xFF :: byte) = - 1" by simp
  show "0xFF AND b = b" "b AND 0xFF = b" unfolding ff by (rule and.left_neutral and.right_neutral)+
qed

lemma xor_eq_0_word: "(a :: 'a::len word) XOR b = 0 \<longleftrightarrow> a = b"
  by (auto simp: bit_eq_iff bit_xor_iff)

lemma xor_cancel_right: "(a :: 'a::len word) XOR c = b XOR c \<longleftrightarrow> a = b"
  by (auto simp: bit_eq_iff bit_xor_iff)

lemma xor_cancel_left: "c XOR (a :: 'a::len word) = c XOR b \<longleftrightarrow> a = b"
  by (auto simp: bit_eq_iff bit_xor_iff)

lemma or_push_bit_unat:
  assumes "unat (a :: 'a::len word) < 2 ^ n" "unat a + 2 ^ n * unat b < 2 ^ LENGTH('a)" "n < LENGTH('a)"
  shows "unat (a OR push_bit n b) = unat a + 2 ^ n * unat b"
proof -
  have "take_bit n a = a"
    using assms(1) by (simp add: word_unat_eq_iff unsigned_take_bit_eq take_bit_nat_eq_self_iff)
  moreover have "take_bit n a AND push_bit n b = 0"
    by (rule bit_eqI) (auto simp: bit_simps)
  ultimately have "a AND push_bit n b = 0" by simp
  then have "a OR push_bit n b = a + push_bit n b" by (rule disjunctive_add_eq_or [symmetric])
  moreover have "unat (push_bit n b) = 2 ^ n * unat b"
  proof -
    have "unat (of_nat (2 ^ n) :: 'a word) = 2 ^ n"
      by (simp only: unat_of_nat) (use assms(3) in simp)
    then have "unat (2 ^ n :: 'a word) = 2 ^ n" by simp
    then show ?thesis
      using assms(2) by (simp only: push_bit_eq_mult) (subst unat_mult_no_wrap, simp_all add: mult.commute)
  qed
  ultimately show ?thesis using assms(2) by (simp add: unat_add_no_wrap)
qed

lemma unat_le4:
  "unat (ucast (b0 :: byte) OR push_bit 8 (ucast (b1 :: byte)) OR push_bit 16 (ucast (b2 :: byte))
     OR push_bit 24 (ucast (b3 :: byte)) :: u32)
   = unat b0 + 256 * unat b1 + 65536 * unat b2 + 16777216 * unat b3"
proof -
  note b = word_size_bounds(1) [of b0] word_size_bounds(1) [of b1] word_size_bounds(1) [of b2]
    word_size_bounds(1) [of b3]
  have 1: "unat (ucast b0 OR push_bit 8 (ucast b1) :: u32) = unat b0 + 256 * unat b1"
    using b by (subst or_push_bit_unat) (simp_all del: word_size_bounds)
  have 2: "unat ((ucast b0 OR push_bit 8 (ucast b1)) OR push_bit 16 (ucast b2) :: u32)
      = unat b0 + 256 * unat b1 + 65536 * unat b2"
    using b 1 by (subst or_push_bit_unat) (simp_all del: word_size_bounds)
  have "unat (((ucast b0 OR push_bit 8 (ucast b1)) OR push_bit 16 (ucast b2))
      OR push_bit 24 (ucast b3) :: u32)
      = unat b0 + 256 * unat b1 + 65536 * unat b2 + 16777216 * unat b3"
    using b 2 by (subst or_push_bit_unat) (simp_all del: word_size_bounds)
  then show ?thesis by (simp only: or.assoc)
qed

lemma and_not_one_odd: "odd (unat e) \<Longrightarrow> e AND NOT 1 = e - 1" for e :: u32
proof -
  assume "odd (unat e)"
  then have "e AND 1 = 1"
    by (simp add: word_unat_eq_iff unat_and_mask [of e 1, simplified] odd_iff_mod_2_eq_one)
  moreover have "(e AND NOT 1) + (e AND 1) = e"
    by (subst disjunctive_add_eq_or) (rule bit_word_eqI; auto simp: bit_simps)+
  ultimately show ?thesis by (metis add_diff_cancel_right')
qed

lemma unat_and_1: "unat (x AND 1) = unat x mod 2" for x :: "'a::len word"
  using unat_and_mask [of x 1] by simp

text \<open>The product of two 32-bit values never wraps in 64 bits.\<close>

lemma unat_mult_u32_u64:
  "unat (ucast (a :: u32) * ucast (b :: u32) :: u64) = unat a * unat b"
proof -
  have "unat a * unat b \<le> 4294967295 * 4294967295"
    using word_size_bounds(3) [of a] word_size_bounds(3) [of b] by (intro mult_le_mono) linarith+
  then show ?thesis
    by (subst unat_mult_no_wrap) simp_all
qed

section \<open>Lists\<close>

lemma sum_list_list_update:
  "i < length xs \<Longrightarrow> sum_list (xs[i := x]) = sum_list xs + (x - xs ! i :: 'a::ab_group_add)"
proof (induction xs arbitrary: i)
  case (Cons a xs)
  then show ?case by (cases i) (simp_all add: algebra_simps)
qed simp

lemma nth_append_right [simp]: "n = length xs \<Longrightarrow> (xs @ y # ys) ! n = y"
  by simp

end
