(* ===== verification/Pwm_Pair.thy ===== *)
theory Pwm_Pair
  imports Prelude
begin

text \<open>
  \<open>src/src/pwm_pair.h\<close>: what the A and B outputs of a FlexPWM submodule mean.
  Modes, submodules, dead times in nanoseconds and in DTCNT cycles keep the widths of the
  source. The lemmas show the dead time handed to the register is representable (never
  the wrapped value) and that no request, however corrupt, reaches a complementary mode on a
  submodule that cannot run it.
\<close>

section \<open>Modes and limits\<close>

definition PairIndependent :: byte where [const_defs]: "PairIndependent = 0"
definition PairHalfBridge :: byte where [const_defs]: "PairHalfBridge = 1"
definition PairDifferential :: byte where [const_defs]: "PairDifferential = 2"
definition PairModeCount :: byte where [const_defs]: "PairModeCount = 3"

definition MaxDeadTimeCycles :: u16 where [const_defs]: "MaxDeadTimeCycles = 2047"
definition MinHalfBridgeDeadTimeNs :: u16 where [const_defs]: "MinHalfBridgeDeadTimeNs = 150"
definition PwmBusClockHz :: u32 where [const_defs]: "PwmBusClockHz = 150000000"

definition pairDeadTimeCycles :: "u32 \<Rightarrow> u32 \<Rightarrow> u16" where
  "pairDeadTimeCycles ns busHz =
     (if (ucast ns :: u64) * ucast busHz div 1000000000 > ucast MaxDeadTimeCycles
      then MaxDeadTimeCycles
      else ucast ((ucast ns :: u64) * ucast busHz div 1000000000))"

definition pairMaxDeadTimeNs :: "u32 \<Rightarrow> u32" where
  "pairMaxDeadTimeNs busHz =
     ucast ((ucast MaxDeadTimeCycles :: u64) * 1000000000 div ucast busHz)"

section \<open>Mode predicates\<close>

definition pairIsComplementary :: "byte \<Rightarrow> bool" where
  "pairIsComplementary mode \<longleftrightarrow> mode = PairHalfBridge \<or> mode = PairDifferential"

definition pairUsesDeadTime :: "byte \<Rightarrow> bool" where
  "pairUsesDeadTime mode \<longleftrightarrow> mode = PairHalfBridge"

definition pairDeadTimeNs :: "byte \<Rightarrow> u32 \<Rightarrow> u32" where
  "pairDeadTimeNs mode configuredNs =
     (if \<not> pairUsesDeadTime mode then 0
      else if configuredNs < ucast MinHalfBridgeDeadTimeNs then ucast MinHalfBridgeDeadTimeNs
      else if configuredNs > pairMaxDeadTimeNs PwmBusClockHz then pairMaxDeadTimeNs PwmBusClockHz
      else configuredNs)"

section \<open>Hardware facts\<close>

definition PairSm13 :: byte where [const_defs]: "PairSm13 = 0"
definition PairSm20 :: byte where [const_defs]: "PairSm20 = 1"
definition PairSm21 :: byte where [const_defs]: "PairSm21 = 2"
definition PairSm22 :: byte where [const_defs]: "PairSm22 = 3"
definition PairSm23 :: byte where [const_defs]: "PairSm23 = 4"
definition PairSm31 :: byte where [const_defs]: "PairSm31 = 5"
definition PairSm40 :: byte where [const_defs]: "PairSm40 = 6"
definition PairSm41 :: byte where [const_defs]: "PairSm41 = 7"
definition PairSm42 :: byte where [const_defs]: "PairSm42 = 8"
definition PairSubmoduleCount :: byte where [const_defs]: "PairSubmoduleCount = 9"

definition pairHasChannelB :: "byte \<Rightarrow> bool" where
  "pairHasChannelB submodule \<longleftrightarrow>
     \<not> (submodule = PairSm21 \<or> submodule = PairSm40 \<or> submodule = PairSm41)"

definition pairAllowsComplementary :: "byte \<Rightarrow> bool" where
  "pairAllowsComplementary submodule \<longleftrightarrow> pairHasChannelB submodule \<and> submodule \<noteq> PairSm42"

section \<open>Validation\<close>

definition pairModeSanitised :: "byte \<Rightarrow> byte \<Rightarrow> byte" where
  "pairModeSanitised requested submodule =
     (if requested \<ge> PairModeCount then PairIndependent
      else if pairIsComplementary requested \<and> \<not> pairAllowsComplementary submodule
      then PairIndependent
      else requested)"

definition pairModeValid :: "byte \<Rightarrow> byte \<Rightarrow> bool" where
  "pairModeValid requested submodule \<longleftrightarrow> pairModeSanitised requested submodule = requested"

definition pairModeSanitisedForScheme :: "byte \<Rightarrow> byte \<Rightarrow> bool \<Rightarrow> byte" where
  "pairModeSanitisedForScheme requested submodule schemeNeedsInversion =
     (if schemeNeedsInversion \<and> pairIsComplementary (pairModeSanitised requested submodule)
      then PairIndependent
      else pairModeSanitised requested submodule)"

lemmas pair_mode_defs =
  pairModeSanitised_def pairModeValid_def pairModeSanitisedForScheme_def
  pairIsComplementary_def pairAllowsComplementary_def pairHasChannelB_def pairUsesDeadTime_def

section \<open>Dead time\<close>

lemma pairDeadTimeCycles_unat:
  "unat (pairDeadTimeCycles ns hz) = min 2047 (unat ns * unat hz div 1000000000)"
proof -
  let ?q = "(ucast ns :: u64) * ucast hz div 1000000000"
  have q: "unat ?q = unat ns * unat hz div 1000000000"
    by (simp add: unat_div unat_mult_u32_u64)
  have le: "?q > ucast MaxDeadTimeCycles \<longleftrightarrow> 2047 < unat ns * unat hz div 1000000000"
    by (simp add: word_less_nat_alt q const_defs)
  show ?thesis
  proof (cases "2047 < unat ns * unat hz div 1000000000")
    case True
    then show ?thesis by (simp add: pairDeadTimeCycles_def le) (simp add: const_defs)
  next
    case False
    then show ?thesis
      by (simp add: pairDeadTimeCycles_def le unat_ucast_down q)
  qed
qed

lemma pairMaxDeadTimeNs_bus: "pairMaxDeadTimeNs PwmBusClockHz = 13646"
  by (simp add: pairMaxDeadTimeNs_def const_defs)

lemma pairDeadTimeNs_range:
  "pairUsesDeadTime mode \<Longrightarrow>
     unat (pairDeadTimeNs mode c) = max 150 (min 13646 (unat c))"
  by (auto simp: pairDeadTimeNs_def pairMaxDeadTimeNs_bus MinHalfBridgeDeadTimeNs_def
      word_less_nat_alt)

text \<open>Whatever dead time is configured, a half-bridge leg gets a DTCNT value between the
  floor (22 cycles, the 150 ns of \<open>MinHalfBridgeDeadTimeNs\<close> at 150 MHz) and the 11-bit limit of
  the register, equal to the cycle count of the clamped nanosecond value without any
  truncation to the field; every other mode gets zero.\<close>

theorem dead_time_register_safe:
  "unat (pairDeadTimeCycles (pairDeadTimeNs mode c) PwmBusClockHz) =
     (if mode = PairHalfBridge
      then max 150 (min 13646 (unat c)) * 150000000 div 1000000000 else 0)
   \<and> unat (pairDeadTimeCycles (pairDeadTimeNs mode c) PwmBusClockHz) < 2 ^ 11
   \<and> (mode = PairHalfBridge \<longleftrightarrow>
       22 \<le> unat (pairDeadTimeCycles (pairDeadTimeNs mode c) PwmBusClockHz))"
proof (cases "mode = PairHalfBridge")
  case True
  define m where "m = max 150 (min 13646 (unat c))"
  have m: "150 \<le> m" "m \<le> 13646" by (auto simp: m_def)
  have "unat (pairDeadTimeNs mode c) = m"
    using True by (simp add: pairDeadTimeNs_range pairUsesDeadTime_def m_def)
  then have "unat (pairDeadTimeCycles (pairDeadTimeNs mode c) PwmBusClockHz)
      = min 2047 (m * 150000000 div 1000000000)"
    by (simp add: pairDeadTimeCycles_unat) (simp add: const_defs)
  moreover have "m * 150000000 div 1000000000 \<le> 2046" "22 \<le> m * 150000000 div 1000000000"
    using m by linarith+
  ultimately show ?thesis using True by (simp add: m_def)
next
  case False
  then show ?thesis
    by (simp add: pairDeadTimeCycles_unat pairDeadTimeNs_def pairUsesDeadTime_def)
qed

section \<open>Sanitising\<close>

lemma pairModeSanitised_range: "pairModeSanitised r s < PairModeCount"
  by (auto simp: pairModeSanitised_def const_defs not_le)

lemma pairModeSanitised_idem [simp]:
  "pairModeSanitised (pairModeSanitised r s) s = pairModeSanitised r s"
  by (auto simp: pair_mode_defs const_defs)

text \<open>Sanitising is total and safe: the mode that results is a fixed point of sanitising,
  one of the three modes, never complementary on a submodule without a B pin or on Sm42 or under
  a scheme that inverts polarity; and it changes a request only where the request was
  invalid or the scheme forbids it, always to the independent mode.\<close>

theorem sanitised_mode_safe:
  "let m = pairModeSanitisedForScheme requested submodule flip in
     pairModeValid m submodule
   \<and> m \<in> {PairIndependent, PairHalfBridge, PairDifferential}
   \<and> \<not> (pairIsComplementary m \<and> (flip \<or> \<not> pairHasChannelB submodule \<or> submodule = PairSm42))
   \<and> (m = requested \<or> m = PairIndependent)
   \<and> (m = requested) = (pairModeValid requested submodule
                        \<and> \<not> (flip \<and> pairIsComplementary requested))"
proof -
  have r: "requested = 0 \<or> requested = 1 \<or> requested = 2 \<or> 3 \<le> requested"
    by unat_arith
  then show ?thesis
    by (elim disjE) (auto simp: Let_def pair_mode_defs const_defs)
qed

end
