(* ===== verification/Hex_Parse.thy ===== *)
theory Hex_Parse
  imports Prelude
begin

text \<open>
  \<open>src/src/hex_parse.h\<close>: the Intel HEX line parser. The parser state is a record of the
  source's fields; a line is a C string; the out parameters \<open>addr\<close>, \<open>data\<close> and \<open>count\<close>,
  which the code fills only when it returns \<open>HexData\<close>, are the arguments of that constructor
  (\<open>count\<close> is the length of the data). A printer of records, which the firmware does not have,
  states what an accepted line means.
\<close>

datatype HexResult =
    HexOk
  | HexData u32 "byte list"
  | HexEof
  | HexErrFormat
  | HexErrChecksum
  | HexErrAfterEof

record HexParser =
  extAddr :: u32
  startAddr :: u32
  startSeen :: bool
  hexEofSeen :: bool

definition hexParserInit :: HexParser where
  "hexParserInit = \<lparr>extAddr = 0, startAddr = 0, startSeen = False, hexEofSeen = False\<rparr>"

definition hexNibble :: "char \<Rightarrow> int" where
  "hexNibble c =
     (let v = int (of_char c) in
      if 48 \<le> v \<and> v \<le> 57 then v - 48
      else if 65 \<le> v \<and> v \<le> 70 then v - 65 + 10
      else if 97 \<le> v \<and> v \<le> 102 then v - 97 + 10
      else - 1)"

definition hexByteAt :: "string \<Rightarrow> int" where
  "hexByteAt s =
     (let hi = hexNibble (cchar s 0) in
      if hi < 0 then - 1
      else let lo = hexNibble (cchar s 1) in
        if lo < 0 then - 1 else push_bit 4 hi OR lo)"

definition hexIsBlank :: "char \<Rightarrow> bool" where
  "hexIsBlank c \<longleftrightarrow> c = CHR '' '' \<or> c = CHR 0x09 \<or> c = CHR 0x0D \<or> c = CHR 0x0A"

definition hexSkipBlank :: "string \<Rightarrow> string" where
  "hexSkipBlank s = dropWhile hexIsBlank s"

text \<open>The loop that reads the byte pairs of a record; \<open>None\<close> is its early return on a short line
  or a bad digit.\<close>

fun hexReadPairs :: "nat \<Rightarrow> string \<Rightarrow> byte list option" where
  "hexReadPairs 0 s = Some []"
| "hexReadPairs (Suc n) s =
     (let b = hexByteAt s in
      if b < 0 then None
      else map_option (\<lambda>bs. word_of_int b # bs) (hexReadPairs n (drop 2 s)))"

definition hexSum :: "byte list \<Rightarrow> u32" where
  "hexSum bs = foldl (\<lambda>s b. s + ucast b) 0 bs"

text \<open>The final switch on the record type, over the bytes of a checked record.\<close>

definition hexDispatch :: "HexParser \<Rightarrow> nat \<Rightarrow> byte list \<Rightarrow> HexResult \<times> HexParser" where
  "hexDispatch p len bs =
     (let offset = (push_bit 8 (ucast (bs ! 1)) OR ucast (bs ! 2) :: u16);
          type = bs ! 3;
          payload = drop 4 bs in
      if type = 0x00 then (HexData (extAddr p OR ucast offset) (take len payload), p)
      else if type = 0x01 then
        (if len \<noteq> 0 then (HexErrFormat, p) else (HexEof, p\<lparr>hexEofSeen := True\<rparr>))
      else if type = 0x04 then
        (if len \<noteq> 2 then (HexErrFormat, p)
         else (HexOk, p\<lparr>extAddr := push_bit 24 (ucast (payload ! 0)) OR
                                  push_bit 16 (ucast (payload ! 1))\<rparr>))
      else if type = 0x05 then
        (if len \<noteq> 4 then (HexErrFormat, p)
         else (HexOk, p\<lparr>startAddr := push_bit 24 (ucast (payload ! 0)) OR
                                    push_bit 16 (ucast (payload ! 1)) OR
                                    push_bit 8 (ucast (payload ! 2)) OR ucast (payload ! 3),
                        startSeen := True\<rparr>))
      else if type = 0x02 \<or> type = 0x03 then (HexOk, p)
      else (HexErrFormat, p))"

definition hexParseLine :: "HexParser \<Rightarrow> string \<Rightarrow> HexResult \<times> HexParser" where
  "hexParseLine p line0 =
     (let line = hexSkipBlank line0 in
      if line = [] then (HexOk, p)
      else if cchar line 0 \<noteq> CHR '':'' then (HexErrFormat, p)
      else if hexEofSeen p then (HexErrAfterEof, p)
      else
        let body = drop 1 line;
            len = hexByteAt body in
        if len < 0 then (HexErrFormat, p)
        else
          let pairs = 5 + nat len in
          case hexReadPairs pairs body of
            None \<Rightarrow> (HexErrFormat, p)
          | Some bs \<Rightarrow>
              if hexSkipBlank (drop (2 * pairs) body) \<noteq> [] then (HexErrFormat, p)
              else if hexSum bs AND 0xFF \<noteq> 0 then (HexErrChecksum, p)
              else hexDispatch p (nat len) bs)"

section \<open>Record printer\<close>

definition hexDigit :: "nat \<Rightarrow> char" where
  "hexDigit n = (if n < 10 then char_of (48 + n) else char_of (55 + n))"

definition hexPrintByte :: "byte \<Rightarrow> string" where
  "hexPrintByte b = [hexDigit (unat b div 16), hexDigit (unat b mod 16)]"

definition hexPrintBytes :: "byte list \<Rightarrow> string" where
  "hexPrintBytes bs = concat (map hexPrintByte bs)"

definition hexChecksum :: "byte list \<Rightarrow> byte" where
  "hexChecksum bs = - sum_list bs"

definition hexRecordBytes :: "u16 \<Rightarrow> byte \<Rightarrow> byte list \<Rightarrow> byte list" where
  "hexRecordBytes off type data =
     (let body = [of_nat (length data), ucast (drop_bit 8 off), ucast off, type] @ data in
      body @ [hexChecksum body])"

definition hexPrintRecord :: "u16 \<Rightarrow> byte \<Rightarrow> byte list \<Rightarrow> string" where
  "hexPrintRecord off type data = CHR '':'' # hexPrintBytes (hexRecordBytes off type data)"

section \<open>Digits and bytes\<close>

lemma hexNibble_range: "- 1 \<le> hexNibble c \<and> hexNibble c \<le> 15"
  by (simp add: hexNibble_def Let_def)

lemma hexNibble_digit: "n < 16 \<Longrightarrow> hexNibble (hexDigit n) = int n"
  by (auto simp: hexNibble_def hexDigit_def Let_def)

lemma hexNibble_NUL [simp]: "hexNibble NUL = - 1"
  by (simp add: hexNibble_def)

lemma hexByte_or:
  assumes "0 \<le> lo" "lo < 16"
  shows "push_bit 4 hi OR lo = hi * 16 + (lo :: int)"
proof -
  have lo: "lo = take_bit 4 lo"
    using assms by (simp add: take_bit_int_eq_self)
  have "push_bit 4 hi AND take_bit 4 lo = 0"
    by (rule bit_eqI) (auto simp: bit_simps)
  then show ?thesis
    using disjunctive_add_eq_or [of "push_bit 4 hi" lo] lo by (simp add: push_bit_eq_mult)
qed

lemma hexByteAt_print: "hexByteAt (hexPrintByte b @ s) = uint b"
proof -
  have "unat b div 16 < 16" by (simp add: less_mult_imp_div_less)
  moreover have "\<not> uint b div 16 < 0" "\<not> uint b mod 16 < 0"
    by (simp_all add: not_less pos_imp_zdiv_nonneg_iff)
  ultimately show ?thesis
    by (simp add: hexByteAt_def hexPrintByte_def hexNibble_digit hexByte_or Let_def
        of_nat_div of_nat_mod)
qed

lemma hexReadPairs_print:
  "hexReadPairs (length bs) (hexPrintBytes bs @ s) = Some bs"
proof (induction bs)
  case (Cons b bs)
  have "drop 2 (hexPrintBytes (b # bs) @ s) = hexPrintBytes bs @ s"
    by (simp add: hexPrintBytes_def hexPrintByte_def)
  moreover have "hexByteAt (hexPrintBytes (b # bs) @ s) = uint b"
    using hexByteAt_print [of b "hexPrintBytes bs @ s"] by (simp add: hexPrintBytes_def)
  ultimately show ?case using Cons.IH by (simp add: Let_def not_less)
qed simp

lemma hexPrintBytes_length [simp]: "length (hexPrintBytes bs) = 2 * length bs"
  by (induction bs) (simp_all add: hexPrintBytes_def hexPrintByte_def)

lemma hexReadPairs_length: "hexReadPairs n s = Some bs \<Longrightarrow> length bs = n"
  by (induction n arbitrary: s bs) (auto simp: Let_def split: if_splits)

lemma hexSkipBlank_all: "\<forall>c\<in>set ws. hexIsBlank c \<Longrightarrow> hexSkipBlank (ws @ s) = hexSkipBlank s"
  by (simp add: hexSkipBlank_def dropWhile_append2)

lemma hexSkipBlank_colon [simp]: "hexSkipBlank (CHR '':'' # s) = CHR '':'' # s"
  by (simp add: hexSkipBlank_def hexIsBlank_def)

section \<open>Accepted lines\<close>

text \<open>A line that holds a printed byte sequence whose first byte is its length: the parser
  reads exactly those bytes, checks their sum and dispatches on the type.\<close>

lemma hexParseLine_print:
  assumes "\<forall>c\<in>set pre. hexIsBlank c" "\<forall>c\<in>set post. hexIsBlank c"
    and "length bs = 5 + unat (hd bs)" "\<not> hexEofSeen p"
  shows "hexParseLine p (pre @ CHR '':'' # hexPrintBytes bs @ post) =
    (if hexSum bs AND 0xFF \<noteq> 0 then (HexErrChecksum, p)
     else hexDispatch p (unat (hd bs)) bs)"
proof -
  have "bs \<noteq> []" using assms(3) by auto
  then have len: "hexByteAt (hexPrintBytes bs @ post) = uint (hd bs)"
    using hexByteAt_print [of "hd bs" "hexPrintBytes (tl bs) @ post"]
    by (cases bs) (simp_all add: hexPrintBytes_def)
  have n: "5 + unat (hd bs) = length bs" using assms(3) by simp
  have "hexSkipBlank post = []"
    using hexSkipBlank_all [OF assms(2), of "[]"] by (simp add: hexSkipBlank_def)
  then show ?thesis
    using assms(4) unfolding hexParseLine_def hexSkipBlank_all [OF assms(1)]
    by (simp add: Let_def len not_less n hexReadPairs_print)
qed

lemma hexSum_foldl: "foldl (\<lambda>s b. s + ucast b) a bs = a + sum_list (map ucast bs)"
  for a :: u32
  by (induction bs arbitrary: a) (simp_all add: add.assoc)

lemma hexSum_low: "ucast (hexSum bs) = (sum_list bs :: byte)"
proof -
  have "ucast (sum_list (map ucast bs) :: u32) = (sum_list bs :: byte)"
    by (induction bs) (simp_all add: ucast_add_down ucast_ucast_up)
  then show ?thesis by (simp add: hexSum_def hexSum_foldl)
qed

lemma hexSum_check: "hexSum bs AND 0xFF = 0 \<longleftrightarrow> sum_list bs = 0"
proof -
  have "hexSum bs AND 0xFF = 0 \<longleftrightarrow> (ucast (hexSum bs) :: byte) = 0"
    by (simp add: word_unat_eq_iff unat_and_255 unat_ucast_down)
  then show ?thesis by (simp add: hexSum_low)
qed

section \<open>Properties\<close>

lemma hexRecordBytes_sum [simp]: "sum_list (hexRecordBytes off type data) = 0"
  by (simp add: hexRecordBytes_def hexChecksum_def Let_def)

lemma hexRecordBytes_length:
  "length data \<le> 255 \<Longrightarrow>
     length (hexRecordBytes off type data) = 5 + unat (hd (hexRecordBytes off type data))"
  by (simp add: hexRecordBytes_def Let_def unat_of_nat take_bit_nat_eq_self_iff)

lemma hexRecordBytes_len_byte:
  "length data \<le> 255 \<Longrightarrow> unat (hd (hexRecordBytes off type data)) = length data"
  by (simp add: hexRecordBytes_def Let_def unat_of_nat take_bit_nat_eq_self_iff)

lemma u16_split:
  "push_bit 8 (ucast (ucast (drop_bit 8 off) :: byte)) OR ucast (ucast off :: byte) = (off :: u16)"
  by (rule bit_word_eqI) (auto simp: bit_simps)

text \<open>A data record printed in the Intel HEX format, with any blanks around it, is parsed to
  exactly its payload at the extended address combined with its 16-bit offset, and leaves
  the parser's state as it was.\<close>

theorem hex_data_round_trip:
  assumes "\<forall>c\<in>set pre. hexIsBlank c" "\<forall>c\<in>set post. hexIsBlank c"
    and "length data \<le> 255" "\<not> hexEofSeen p"
  shows "hexParseLine p (pre @ hexPrintRecord off 0 data @ post)
           = (HexData (extAddr p OR ucast off) data, p)"
proof -
  have "hexDispatch p (length data) (hexRecordBytes off 0 data)
      = (HexData (extAddr p OR ucast off) data, p)"
    by (simp add: hexDispatch_def hexRecordBytes_def Let_def u16_split)
  then show ?thesis
    using hexParseLine_print [OF assms(1,2) hexRecordBytes_length [OF assms(3), of off 0] assms(4)]
    by (simp add: hexPrintRecord_def hexSum_check hexRecordBytes_len_byte [OF assms(3)])
qed

lemma hex_data_round_trip_witness:
  "hexParseLine hexParserInit ('' '' @ hexPrintRecord 0x1234 0 [0xAB, 7] @ [CHR 0x0D])
     = (HexData 0x1234 [0xAB, 7], hexParserInit)"
  using hex_data_round_trip [of "'' ''" "[CHR 0x0D]" "[0xAB, 7]" hexParserInit "0x1234"]
  by (simp add: hexIsBlank_def hexParserInit_def)

text \<open>The checksum detects every corruption of a single byte of a record (address, type,
  data or checksum): the corrupted line is refused with the checksum error and
  nothing of the state changes.\<close>

theorem hex_single_byte_corruption_detected:
  assumes "length data \<le> 255" "\<not> hexEofSeen p"
    and "0 < i" "i < length (hexRecordBytes off type data)"
    and "x \<noteq> hexRecordBytes off type data ! i"
  shows "hexParseLine p (CHR '':'' # hexPrintBytes ((hexRecordBytes off type data)[i := x]))
           = (HexErrChecksum, p)"
proof -
  let ?r = "hexRecordBytes off type data"
  have "sum_list (?r[i := x]) = x - ?r ! i"
    using assms(4) by (simp add: sum_list_list_update)
  then have "sum_list (?r[i := x]) \<noteq> 0" using assms(5) by simp
  moreover have hd: "hd (?r[i := x]) = hd ?r"
    using assms(3) by (cases i; cases ?r) simp_all
  ultimately show ?thesis
    using hexParseLine_print [of "[]" "[]" "?r[i := x]" p] assms(2)
      hexRecordBytes_length [OF assms(1)]
    by (simp add: hexSum_check)
qed

lemma hex_single_byte_corruption_detected_witness:
  "hexParseLine hexParserInit (CHR '':'' # hexPrintBytes ((hexRecordBytes 0x10 0 [1, 2])[4 := 9]))
     = (HexErrChecksum, hexParserInit)"
  by (rule hex_single_byte_corruption_detected)
    (simp_all add: hexParserInit_def hexRecordBytes_def hexChecksum_def Let_def)

text \<open>The high half of an address comes from type-04 records only, so its low 16 bits stay clear
  and a record's offset never carries into it.\<close>

definition hexAddrInv :: "HexParser \<Rightarrow> bool" where
  "hexAddrInv p \<longleftrightarrow> extAddr p AND 0xFFFF = 0"

lemma hexReadPairs_byteAt: "hexReadPairs (5 + n) s = Some bs \<Longrightarrow> length (take n (drop 4 bs)) = n"
  by (drule hexReadPairs_length) simp

lemma hexByteAt_upper: "nat (hexByteAt s) \<le> 255"
proof -
  define hi lo where "hi = hexNibble (cchar s 0)" and "lo = hexNibble (cchar s (Suc 0))"
  have "hi \<le> 15" "lo \<le> 15"
    using hexNibble_range by (simp_all add: hi_def lo_def)
  then show ?thesis
    by (auto simp: hexByteAt_def Let_def hexByte_or simp flip: hi_def lo_def)
qed

lemma ext_addr_low_clear:
  "(push_bit 24 (ucast (a :: byte)) OR push_bit 16 (ucast (b :: byte))) AND 0xFFFF = (0 :: u32)"
proof -
  have "(push_bit 24 (ucast a) OR push_bit 16 (ucast b)) AND mask 16 = (0 :: u32)"
    by (rule bit_word_eqI) (auto simp: bit_simps)
  then show ?thesis by (simp add: mask_eq_exp_minus_1)
qed

lemma hexDispatch_frame:
  assumes "hexDispatch p len bs = (r, p')" "\<not> hexEofSeen p"
  shows "hexEofSeen p' = (r = HexEof)"
    and "r \<noteq> HexOk \<Longrightarrow> extAddr p' = extAddr p \<and> startAddr p' = startAddr p"
    and "r \<noteq> HexOk \<Longrightarrow> r \<noteq> HexEof \<Longrightarrow> p' = p"
    and "r = HexData a d \<Longrightarrow> d = take len (drop 4 bs) \<and>
           a = extAddr p OR ucast (push_bit 8 (ucast (bs ! 1)) OR ucast (bs ! 2) :: u16)"
    and "hexAddrInv p \<Longrightarrow> hexAddrInv p'"
    and "r \<noteq> HexErrAfterEof"
  using assms
  by (auto simp: hexDispatch_def Let_def hexAddrInv_def ext_addr_low_clear split: if_splits)

lemma hexParseLine_cases:
  assumes "hexParseLine p line = (r, p')"
  obtains (same) "p' = p" "r \<in> {HexOk, HexErrFormat, HexErrChecksum}"
  | (after_eof) "p' = p" "r = HexErrAfterEof" "hexEofSeen p"
  | (dispatch) n bs where "hexDispatch p n bs = (r, p')" "\<not> hexEofSeen p" "n \<le> 255"
      "length bs = 5 + n" "sum_list bs = 0"
proof -
  define body where "body = drop 1 (hexSkipBlank line)"
  define n where "n = nat (hexByteAt body)"
  have n: "n \<le> 255" by (simp add: n_def hexByteAt_upper)
  have eq: "(if hexSkipBlank line = [] then (HexOk, p)
      else if cchar (hexSkipBlank line) 0 \<noteq> CHR '':'' then (HexErrFormat, p)
      else if hexEofSeen p then (HexErrAfterEof, p)
      else if hexByteAt body < 0 then (HexErrFormat, p)
      else case hexReadPairs (5 + n) body of None \<Rightarrow> (HexErrFormat, p)
        | Some bs \<Rightarrow> if hexSkipBlank (drop (2 * (5 + n)) body) \<noteq> [] then (HexErrFormat, p)
            else if hexSum bs AND 0xFF \<noteq> 0 then (HexErrChecksum, p)
            else hexDispatch p n bs) = (r, p')"
    using assms by (simp only: hexParseLine_def Let_def n_def body_def)
  show ?thesis
  proof (cases "hexReadPairs (5 + n) body")
    case None
    then show ?thesis using eq same after_eof by (simp split: if_splits)
  next
    case (Some bs)
    have "p' = p \<and> r \<in> {HexOk, HexErrFormat, HexErrChecksum}
        \<or> p' = p \<and> r = HexErrAfterEof \<and> hexEofSeen p
        \<or> hexDispatch p n bs = (r, p') \<and> \<not> hexEofSeen p \<and> sum_list bs = 0"
      using eq by (auto simp: Some hexSum_check split: if_splits)
    then show ?thesis
      using same after_eof dispatch n hexReadPairs_length [OF Some] by blast
  qed
qed

text \<open>What a line can do to the parser. Only an accepted type-04 or type-05 record (result
  \<open>HexOk\<close>) or the end-of-file record changes the state; the end-of-file flag is set by
  exactly the end-of-file record and never cleared; once it is set no line is accepted that is not
  blank; a data record carries at most 255 bytes and an address that agrees with the
  extended address in its high 16 bits.\<close>

theorem hex_state_frame:
  assumes "hexParseLine p line = (r, p')" "hexAddrInv p"
  shows "hexEofSeen p' = (hexEofSeen p \<or> r = HexEof)
    \<and> hexAddrInv p'
    \<and> (r \<noteq> HexOk \<and> r \<noteq> HexEof \<longrightarrow> p' = p)
    \<and> (hexEofSeen p \<longrightarrow> p' = p \<and> r \<in> {HexOk, HexErrFormat, HexErrChecksum, HexErrAfterEof})
    \<and> (\<forall>a d. r = HexData a d \<longrightarrow>
         length d \<le> 255 \<and> drop_bit 16 a = drop_bit 16 (extAddr p))"
  using assms(1)
proof (cases rule: hexParseLine_cases)
  case (dispatch n bs)
  have hi: "drop_bit 16 (ucast w :: u32) = 0" for w :: u16
    by (rule bit_word_eqI) (auto simp: bit_simps dest: bit_imp_le_length)
  show ?thesis
    using hexDispatch_frame [OF dispatch(1,2)] dispatch(2,3,4) assms(2) by (auto simp: hi drop_bit_or)
qed (use assms(2) in auto)

lemma hex_state_frame_witness:
  "hexAddrInv hexParserInit \<and> hexParseLine hexParserInit '':00000001FF''
     = (HexEof, hexParserInit\<lparr>hexEofSeen := True\<rparr>)
   \<and> hexEofSeen (hexParserInit\<lparr>hexEofSeen := True\<rparr>)"
proof -
  have p: "hexParseLine hexParserInit '':00000001FF''
      = (HexEof, hexParserInit\<lparr>hexEofSeen := True\<rparr>)" by code_simp
  have i: "hexAddrInv hexParserInit" by (simp add: hexAddrInv_def hexParserInit_def)
  show ?thesis using hex_state_frame [OF p i] p i by simp
qed

end
