(* ===== verification/Ota_Crc.thy ===== *)
theory Ota_Crc
  imports Prelude
begin

text \<open>
  \<open>src/src/ota_crc.h\<close>: the table-free CRC-32 that guards the staged firmware image. The inner
  eight-step loop is \<open>crcBit\<close> iterated, the outer loop a fold over the bytes. The register update
  is linear over exclusive or and injective, which gives the detection of every error burst of
  at most four bytes.
\<close>

definition crcBit :: "u32 \<Rightarrow> u32" where
  "crcBit crc = drop_bit 1 crc XOR (0xEDB88320 AND (NOT (crc AND 1) + 1))"

definition crcByte :: "u32 \<Rightarrow> byte \<Rightarrow> u32" where
  "crcByte crc b = (crcBit ^^ 8) (crc XOR ucast b)"

definition otaCrc32Update :: "u32 \<Rightarrow> byte list \<Rightarrow> u32" where
  "otaCrc32Update crc data = foldl crcByte crc data"

definition otaCrc32 :: "byte list \<Rightarrow> u32" where
  "otaCrc32 data = otaCrc32Update 0xFFFFFFFF data XOR 0xFFFFFFFF"

section \<open>Feeding in pieces\<close>

lemma otaCrc32Update_Nil [simp]: "otaCrc32Update crc [] = crc"
  by (simp add: otaCrc32Update_def)

lemma otaCrc32Update_Cons [simp]:
  "otaCrc32Update crc (b # bs) = otaCrc32Update (crcByte crc b) bs"
  by (simp add: otaCrc32Update_def)

lemma otaCrc32Update_append:
  "otaCrc32Update crc (xs @ ys) = otaCrc32Update (otaCrc32Update crc xs) ys"
  by (simp add: otaCrc32Update_def)

section \<open>The register step is linear and injective\<close>

lemma crcBit_even: "\<not> bit c 0 \<Longrightarrow> crcBit c = drop_bit 1 c"
proof -
  assume "\<not> bit c 0"
  then have "c AND 1 = 0" by (simp add: and_one_eq bit_0 even_iff_mod_2_eq_zero)
  then show ?thesis by (simp add: crcBit_def)
qed

lemma crcBit_odd: "bit c 0 \<Longrightarrow> crcBit c = drop_bit 1 c XOR 0xEDB88320"
proof -
  assume "bit c 0"
  then have "c AND 1 = 1" by (simp add: and_one_eq bit_0 odd_iff_mod_2_eq_one)
  then show ?thesis by (simp add: crcBit_def)
qed

lemma crcBit_cases: "crcBit c = drop_bit 1 c XOR (if bit c 0 then 0xEDB88320 else 0)"
  by (simp add: crcBit_even crcBit_odd)

lemma crcBit_xor: "crcBit (a XOR b) = crcBit a XOR crcBit b"
  by (simp add: crcBit_cases bit_xor_iff drop_bit_xor ac_simps)

lemma crcBit_eq_0: "crcBit c = 0 \<Longrightarrow> c = 0"
proof -
  assume z: "crcBit c = 0"
  have "bit (crcBit c) 31 \<longleftrightarrow> bit c 0"
    using bit_imp_le_length [of c 32]
    by (auto simp: crcBit_cases bit_xor_iff bit_drop_bit_eq bit_numeral_word_iff)
  with z have "\<not> bit c 0" by simp
  with z have "drop_bit 1 c = 0" by (simp add: crcBit_even)
  then have "\<not> bit (drop_bit 1 c) n" for n by simp
  then have "\<not> bit c (Suc n)" for n by (simp only: bit_drop_bit_eq comp_apply plus_1_eq_Suc) simp
  with \<open>\<not> bit c 0\<close> have "\<not> bit c n" for n by (cases n) simp_all
  then show "c = 0" by (simp add: bit_eq_iff)
qed

lemma crcBits_xor: "(crcBit ^^ n) (a XOR b) = (crcBit ^^ n) a XOR (crcBit ^^ n) b"
  by (induction n) (simp_all add: crcBit_xor)

lemma crcBits_eq_0: "(crcBit ^^ n) c = 0 \<Longrightarrow> c = 0"
  by (induction n) (auto dest: crcBit_eq_0)

lemma crcBits_inj: "(crcBit ^^ n) a = (crcBit ^^ n) b \<Longrightarrow> a = b"
proof -
  assume "(crcBit ^^ n) a = (crcBit ^^ n) b"
  then have "(crcBit ^^ n) (a XOR b) = 0" by (simp add: crcBits_xor)
  then have "a XOR b = 0" by (rule crcBits_eq_0)
  then show "a = b" by (simp add: xor_eq_0_word)
qed

lemma crcByte_inj: "crcByte a x = crcByte b x \<Longrightarrow> a = b"
  unfolding crcByte_def by (drule crcBits_inj) (simp add: xor_cancel_right)

lemma otaCrc32Update_inj: "otaCrc32Update a bs = otaCrc32Update b bs \<Longrightarrow> a = b"
  by (induction bs arbitrary: a b) (auto dest: crcByte_inj)

section \<open>Bursts\<close>

lemma crcBit_shift_byte:
  assumes "n < 24"
  shows "crcBit (push_bit (Suc n) (ucast (b :: byte))) = push_bit n (ucast b)"
proof -
  have "\<not> bit (push_bit (Suc n) (ucast b) :: u32) 0" by (simp only: bit_push_bit_iff) simp
  moreover have "drop_bit 1 (push_bit (Suc n) (ucast b) :: u32) = push_bit n (ucast b)"
    using assms by (intro bit_word_eqI) (auto simp: bit_simps simp del: push_bit_Suc dest: bit_imp_le_length)
  ultimately show ?thesis by (simp add: crcBit_even)
qed

lemma crcBits_shift_byte:
  "n \<le> 24 \<Longrightarrow> (crcBit ^^ n) (push_bit n (ucast (b :: byte))) = ucast b"
proof (induction n)
  case (Suc n)
  then show ?case
    by (simp add: funpow_Suc_right crcBit_shift_byte del: funpow.simps push_bit_Suc)
qed simp

lemma crcBits_absorb:
  "n \<le> 24 \<Longrightarrow> (crcBit ^^ n) x XOR ucast (b :: byte) = (crcBit ^^ n) (x XOR push_bit n (ucast b))"
  by (simp add: crcBits_xor crcBits_shift_byte)

lemma crcBits_8: "(crcBit ^^ 8) ((crcBit ^^ n) x) = (crcBit ^^ (n + 8)) x"
  by (metis add.commute comp_apply funpow_add)

definition le32 :: "byte \<Rightarrow> byte \<Rightarrow> byte \<Rightarrow> byte \<Rightarrow> u32" where
  "le32 b0 b1 b2 b3 =
     ucast b0 XOR push_bit 8 (ucast b1) XOR push_bit 16 (ucast b2) XOR push_bit 24 (ucast b3)"

lemma otaCrc32Update_four:
  "otaCrc32Update crc [b0, b1, b2, b3] = (crcBit ^^ 32) (crc XOR le32 b0 b1 b2 b3)"
  by (simp add: crcByte_def crcBits_absorb crcBits_8 le32_def xor.assoc del: funpow.simps)

lemma le32_bits:
  "bit (le32 b0 b1 b2 b3) n \<longleftrightarrow>
     (if n < 8 then bit b0 n else if n < 16 then bit b1 (n - 8)
      else if n < 24 then bit b2 (n - 16) else bit b3 (n - 24))"
  by (auto simp: le32_def bit_simps dest: bit_imp_le_length)

lemma le32_inj:
  assumes "le32 a0 a1 a2 a3 = le32 b0 b1 b2 b3"
  shows "a0 = b0 \<and> a1 = b1 \<and> a2 = b2 \<and> a3 = b3"
proof -
  have eq: "bit (le32 a0 a1 a2 a3) n = bit (le32 b0 b1 b2 b3) n" for n
    using assms by simp
  have "bit a0 n = bit b0 n" if "n < 8" for n using eq [of n] that by (simp add: le32_bits)
  moreover have "bit a1 n = bit b1 n" if "n < 8" for n
    using eq [of "n + 8"] that by (simp add: le32_bits)
  moreover have "bit a2 n = bit b2 n" if "n < 8" for n
    using eq [of "n + 16"] that by (simp add: le32_bits)
  moreover have "bit a3 n = bit b3 n" if "n < 8" for n
    using eq [of "n + 24"] that by (simp add: le32_bits)
  ultimately show ?thesis by (auto intro: bit_word_eqI)
qed

text \<open>Two images of the same content except for at most four consecutive bytes have different
  CRCs: whatever the prefix and the suffix, a burst of up to 32 bits on a byte boundary
  never passes the read-back check.\<close>

theorem crc_detects_four_byte_burst:
  assumes "length xs = 4" "length ys = 4" "xs \<noteq> ys"
  shows "otaCrc32 (pre @ xs @ post) \<noteq> otaCrc32 (pre @ ys @ post)"
proof
  assume eq: "otaCrc32 (pre @ xs @ post) = otaCrc32 (pre @ ys @ post)"
  let ?c = "otaCrc32Update 0xFFFFFFFF pre"
  have "otaCrc32Update 0xFFFFFFFF (pre @ xs @ post) = otaCrc32Update 0xFFFFFFFF (pre @ ys @ post)"
    using eq by (simp add: otaCrc32_def xor_cancel_right)
  then have four: "otaCrc32Update ?c xs = otaCrc32Update ?c ys"
    by (auto simp: otaCrc32Update_append dest: otaCrc32Update_inj)
  obtain a0 a1 a2 a3 where xs: "xs = [a0, a1, a2, a3]"
    using assms(1) by (auto simp: length_Suc_conv numeral_eq_Suc)
  obtain b0 b1 b2 b3 where ys: "ys = [b0, b1, b2, b3]"
    using assms(2) by (auto simp: length_Suc_conv numeral_eq_Suc)
  have "le32 a0 a1 a2 a3 = le32 b0 b1 b2 b3"
    using four unfolding xs ys otaCrc32Update_four
    by (auto dest!: crcBits_inj simp: xor_cancel_left)
  then show False using le32_inj assms(3) xs ys by blast
qed

lemma crc_detects_four_byte_burst_witness:
  "otaCrc32 ([1] @ [2, 3, 4, 5] @ [6]) \<noteq> otaCrc32 ([1] @ [2, 3, 4, 9] @ [6])"
  by (rule crc_detects_four_byte_burst) simp_all

end
