(* ===== verification/Ota_Ingest.thy ===== *)
theory Ota_Ingest
  imports Hex_Parse Ota_Crc
begin

text \<open>
  \<open>src/src/ota_ingest.h\<close>: the streaming ingest of an OTA image. \<open>OtaIngest\<close> has the source's
  fields; of the line buffer the model keeps the \<open>lineLen\<close> characters written since the last
  newline, which are all the code reads. Flash is a map from addresses to bytes, and the two
  callbacks of \<open>OtaFlashOps\<close> act on it. The locale \<open>staging_flash\<close> states their contract (the
  comments of the source): an erase of an aligned sector inside the buffer sets it to
  0xFF, a write of at most 255 bytes inside the buffer clears bits; its client lemmas carry the
  ingest invariant through every operation.
\<close>

type_synonym flash = "u32 \<Rightarrow> byte"

definition OtaFlashBase :: u32 where [const_defs]: "OtaFlashBase = 0x60000000"
definition OtaBufferBase :: u32 where [const_defs]: "OtaBufferBase = 0x60400000"
definition OtaImageMax :: u32 where [const_defs]: "OtaImageMax = 0x003C0000"
definition OtaSectorSize :: u32 where [const_defs]: "OtaSectorSize = 4096"
definition OtaSectorCount :: u32 where [const_defs]: "OtaSectorCount = OtaImageMax div OtaSectorSize"

record OtaFlashOps =
  eraseSector :: "u32 \<Rightarrow> flash \<Rightarrow> flash"
  writeFlash :: "u32 \<Rightarrow> byte list \<Rightarrow> flash \<Rightarrow> flash"

record OtaIngest =
  ingHex :: HexParser
  minAddr :: u32
  maxAddr :: u32
  nextAddr :: u32
  haveData :: bool
  bytesWritten :: u64
  ingCrc :: u32
  lineCount :: u32
  lineBuf :: string
  erasedMap :: "byte list"
  ingError :: "string option"
  ingEofSeen :: bool

definition otaIngestInit :: OtaIngest where
  "otaIngestInit = \<lparr>ingHex = hexParserInit, minAddr = 0xFFFFFFFF, maxAddr = 0, nextAddr = 0,
     haveData = False, bytesWritten = 0, ingCrc = 0xFFFFFFFF, lineCount = 0, lineBuf = [],
     erasedMap = replicate (unat ((OtaSectorCount + 7) div 8)) 0, ingError = None,
     ingEofSeen = False\<rparr>"

definition otaIngestCrc :: "OtaIngest \<Rightarrow> u32" where
  "otaIngestCrc s = ingCrc s XOR 0xFFFFFFFF"

definition otaSectorErased :: "OtaIngest \<Rightarrow> u32 \<Rightarrow> bool" where
  "otaSectorErased s sector \<longleftrightarrow>
     drop_bit (unat (sector AND 7)) (erasedMap s ! unat (drop_bit 3 sector)) AND 1 \<noteq> 0"

definition otaMarkErased :: "OtaIngest \<Rightarrow> u32 \<Rightarrow> OtaIngest" where
  "otaMarkErased s sector =
     (let i = unat (drop_bit 3 sector) in
      s\<lparr>erasedMap := (erasedMap s)[i := erasedMap s ! i OR push_bit (unat (sector AND 7)) 1]\<rparr>)"

text \<open>The erase-on-demand loop of \<open>otaHandleData\<close>.\<close>

function otaEraseLoop ::
  "OtaFlashOps \<Rightarrow> u32 \<Rightarrow> u32 \<Rightarrow> OtaIngest \<times> flash \<Rightarrow> OtaIngest \<times> flash" where
  "otaEraseLoop ops sec lastSec (s, f) =
     (if sec \<le> lastSec \<and> sec < OtaSectorCount then
        otaEraseLoop ops (sec + 1) lastSec
          (if \<not> otaSectorErased s sec
           then (otaMarkErased s sec, eraseSector ops (OtaBufferBase + sec * OtaSectorSize) f)
           else (s, f))
      else (s, f))"
  by pat_completeness auto

termination
proof (relation "measure (\<lambda>(ops, sec, lastSec, st). 960 - unat sec)")
  fix ops :: OtaFlashOps and sec lastSec :: u32 and s :: OtaIngest and f :: flash
  assume "sec \<le> lastSec \<and> sec < OtaSectorCount"
  then have lt: "unat sec < 960" by (simp add: const_defs word_less_nat_alt)
  then have "unat (sec + 1) = unat sec + 1" by (subst unat_add_no_wrap) simp_all
  with lt show "((ops, sec + 1, lastSec,
         if \<not> otaSectorErased s sec
         then (otaMarkErased s sec, eraseSector ops (OtaBufferBase + sec * OtaSectorSize) f)
         else (s, f)), ops, sec, lastSec, s, f)
       \<in> measure (\<lambda>(ops, sec, lastSec, st). 960 - unat sec)" by simp
qed simp

declare otaEraseLoop.simps [simp del]

definition otaHandleData ::
  "OtaIngest \<Rightarrow> OtaFlashOps \<Rightarrow> u32 \<Rightarrow> byte list \<Rightarrow> flash \<Rightarrow> bool \<times> OtaIngest \<times> flash" where
  "otaHandleData s ops addr data f =
     (let count = of_nat (length data) :: u32 in
      if count = 0 then (True, s, f)
      else if addr < OtaFlashBase
      then (False, s\<lparr>ingError := Some ''record below flash base''\<rparr>, f)
      else let off = addr - OtaFlashBase in
      if off \<ge> OtaImageMax \<or> count > OtaImageMax - off
      then (False, s\<lparr>ingError := Some ''image exceeds the staging buffer''\<rparr>, f)
      else if haveData s \<and> addr \<noteq> nextAddr s
      then (False, s\<lparr>ingError := Some ''non-contiguous data record''\<rparr>, f)
      else
        let s1 = (if haveData s then s else s\<lparr>haveData := True, minAddr := addr\<rparr>);
            lastSec = (off + count - 1) div OtaSectorSize;
            (s2, f2) = otaEraseLoop ops (off div OtaSectorSize) lastSec (s1, f);
            f3 = writeFlash ops (OtaBufferBase + off) data f2;
            s3 = s2\<lparr>ingCrc := otaCrc32Update (ingCrc s2) data, nextAddr := addr + count\<rparr>;
            s4 = (if addr + count - 1 > maxAddr s3
                  then s3\<lparr>maxAddr := addr + count - 1\<rparr> else s3)
        in (True, s4\<lparr>bytesWritten := bytesWritten s4 + ucast count\<rparr>, f3))"

definition otaFeedByte ::
  "OtaIngest \<Rightarrow> char \<Rightarrow> OtaFlashOps \<Rightarrow> flash \<Rightarrow> bool \<times> OtaIngest \<times> flash" where
  "otaFeedByte s c ops f =
     (if ingError s \<noteq> None then (False, s, f)
      else if c \<noteq> CHR 0x0A then
        (if length (lineBuf s) < 600 - 1 then (True, s\<lparr>lineBuf := lineBuf s @ [c]\<rparr>, f)
         else (False, s\<lparr>ingError := Some ''hex line too long''\<rparr>, f))
      else
        let (r, hex') = hexParseLine (ingHex s) (cstr (lineBuf s));
            s = s\<lparr>ingHex := hex', lineBuf := [], lineCount := lineCount s + 1\<rparr> in
        case r of
          HexOk \<Rightarrow> (True, s, f)
        | HexData addr data \<Rightarrow> otaHandleData s ops addr data f
        | HexEof \<Rightarrow> (True, s\<lparr>ingEofSeen := True\<rparr>, f)
        | HexErrChecksum \<Rightarrow> (False, s\<lparr>ingError := Some ''hex checksum mismatch''\<rparr>, f)
        | HexErrAfterEof \<Rightarrow> (False, s\<lparr>ingError := Some ''data after end-of-file record''\<rparr>, f)
        | HexErrFormat \<Rightarrow> (False, s\<lparr>ingError := Some ''malformed hex record''\<rparr>, f))"

definition otaIngestFinish ::
  "OtaIngest \<Rightarrow> OtaFlashOps \<Rightarrow> flash \<Rightarrow> bool \<times> OtaIngest \<times> flash" where
  "otaIngestFinish s ops f =
     (if ingError s \<noteq> None then (False, s, f)
      else
        let (ok, s, f) = (if length (lineBuf s) > 0 then otaFeedByte s (CHR 0x0A) ops f
                          else (True, s, f)) in
        if \<not> ok then (False, s, f)
        else if \<not> ingEofSeen s
        then (False, s\<lparr>ingError := Some ''truncated upload (no end-of-file record)''\<rparr>, f)
        else if bytesWritten s = 0
        then (False, s\<lparr>ingError := Some ''no data records''\<rparr>, f)
        else (True, s, f))"

text \<open>The caller's loop over a body: it stops at the first byte that is refused.\<close>

fun otaFeedAll ::
  "OtaFlashOps \<Rightarrow> string \<Rightarrow> OtaIngest \<Rightarrow> flash \<Rightarrow> bool \<times> OtaIngest \<times> flash" where
  "otaFeedAll ops [] s f = (True, s, f)"
| "otaFeedAll ops (c # cs) s f =
     (case otaFeedByte s c ops f of
        (True, s', f') \<Rightarrow> otaFeedAll ops cs s' f'
      | (False, s', f') \<Rightarrow> (False, s', f'))"

section \<open>Addresses and the erased bitmap\<close>

definition inBuffer :: "u32 \<Rightarrow> nat \<Rightarrow> bool" where
  "inBuffer a n \<longleftrightarrow> unat OtaBufferBase \<le> unat a \<and> unat a + n \<le> unat OtaBufferBase + unat OtaImageMax"

definition stage :: "flash \<Rightarrow> nat \<Rightarrow> byte" where
  "stage f k = f (OtaBufferBase + of_nat k)"

definition erasedAt :: "OtaIngest \<Rightarrow> nat \<Rightarrow> bool" where
  "erasedAt s k \<longleftrightarrow> bit (erasedMap s ! (k div 8)) (k mod 8)"

lemma ota_unat_consts [simp]:
  "unat OtaFlashBase = 0x60000000" "unat OtaBufferBase = 0x60400000" "unat OtaImageMax = 3932160"
  "unat OtaSectorCount = 960" "unat OtaSectorSize = 4096"
  by (simp_all add: const_defs)

lemma stage_addr: "k < 3932160 \<Longrightarrow> unat (OtaBufferBase + of_nat k) = 0x60400000 + k"
  by (subst unat_add_no_wrap) (simp_all add: unat_of_nat)

lemma unat_and_7: "unat (x AND 7) = unat x mod 8" for x :: u32
  using unat_and_mask [of x 3] by (simp add: mask_eq_exp_minus_1)

lemma unat_drop_3: "unat (drop_bit 3 x) = unat x div 8" for x :: u32
  by (simp add: drop_bit_eq_div unat_div)

lemma and_one_ne_0: "drop_bit n x AND 1 \<noteq> 0 \<longleftrightarrow> bit x n" for x :: byte
  by (simp add: and_one_eq bit_iff_odd_drop_bit flip: odd_iff_mod_2_eq_one)

lemma otaSectorErased_iff: "otaSectorErased s sec \<longleftrightarrow> erasedAt s (unat sec)"
  by (simp add: otaSectorErased_def erasedAt_def unat_and_7 unat_drop_3 and_one_ne_0)

lemma erasedAt_mark:
  assumes "length (erasedMap s) = 120" "unat sec < 960" "k < 960"
  shows "erasedAt (otaMarkErased s sec) k \<longleftrightarrow> k = unat sec \<or> erasedAt s k"
proof (cases "k div 8 = unat sec div 8")
  case True
  have lt: "unat sec div 8 < 120" using assms(2) by auto
  have "k = unat sec \<longleftrightarrow> k mod 8 = unat sec mod 8"
    using True by (metis div_mult_mod_eq)
  then show ?thesis
    using True lt assms(1)
    by (simp add: erasedAt_def otaMarkErased_def Let_def unat_and_7 unat_drop_3 bit_or_iff
        bit_exp_iff) (auto simp: possible_bit_def)
next
  case False
  then show ?thesis
    by (auto simp: erasedAt_def otaMarkErased_def Let_def unat_drop_3)
qed

lemma otaMarkErased_fields:
  "otaMarkErased s sec = s\<lparr>erasedMap := erasedMap (otaMarkErased s sec)\<rparr>"
  "length (erasedMap (otaMarkErased s sec)) = length (erasedMap s)"
  by (simp_all add: otaMarkErased_def Let_def)

lemma sector_addr:
  assumes "unat sec < 960"
  shows "unat (OtaBufferBase + sec * OtaSectorSize) = 0x60400000 + unat sec * 4096"
proof -
  have "unat (sec * OtaSectorSize) = unat sec * 4096"
    using assms by (subst unat_mult_no_wrap) simp_all
  then show ?thesis using assms by (subst unat_add_no_wrap) simp_all
qed

section \<open>The contract of the flash callbacks\<close>

locale staging_flash =
  fixes ops :: OtaFlashOps
  assumes erase_law:
      "inBuffer a 4096 \<Longrightarrow> 4096 dvd unat a \<Longrightarrow>
         eraseSector ops a f x =
           (if unat a \<le> unat x \<and> unat x < unat a + 4096 then 0xFF else f x)"
    and write_law:
      "inBuffer a (length d) \<Longrightarrow> length d \<le> 255 \<Longrightarrow>
         writeFlash ops a d f x =
           (if unat a \<le> unat x \<and> unat x < unat a + length d
            then f x AND d ! (unat x - unat a) else f x)"
begin

lemma stage_erase:
  assumes "unat sec < 960" "k < 3932160"
  shows "stage (eraseSector ops (OtaBufferBase + sec * OtaSectorSize) f) k
           = (if k div 4096 = unat sec then 0xFF else stage f k)"
proof -
  let ?a = "OtaBufferBase + sec * OtaSectorSize"
  have a: "unat ?a = 0x60400000 + unat sec * 4096" by (rule sector_addr [OF assms(1)])
  have "inBuffer ?a 4096" using assms(1) by (simp add: inBuffer_def a)
  moreover have "4096 dvd unat ?a" unfolding a by (intro dvd_add dvd_triv_right) simp
  ultimately show ?thesis
    by (simp add: stage_def erase_law a stage_addr [OF assms(2)]) (auto simp: div_nat_eqI)
qed

lemma outside_erase:
  assumes "unat sec < 960" "\<not> inBuffer x 1"
  shows "eraseSector ops (OtaBufferBase + sec * OtaSectorSize) f x = f x"
proof -
  let ?a = "OtaBufferBase + sec * OtaSectorSize"
  have a: "unat ?a = 0x60400000 + unat sec * 4096" by (rule sector_addr [OF assms(1)])
  have "inBuffer ?a 4096" using assms(1) by (simp add: inBuffer_def a)
  moreover have "4096 dvd unat ?a" unfolding a by (intro dvd_add dvd_triv_right) simp
  ultimately show ?thesis
    using assms by (auto simp: erase_law a inBuffer_def)
qed

lemma stage_write:
  assumes "unat off + length d \<le> 3932160" "length d \<le> 255" "k < 3932160"
  shows "stage (writeFlash ops (OtaBufferBase + off) d f) k
           = (if unat off \<le> k \<and> k < unat off + length d
              then stage f k AND d ! (k - unat off) else stage f k)"
proof -
  have a: "unat (OtaBufferBase + off) = 0x60400000 + unat off"
    using assms(1) by (subst unat_add_no_wrap) simp_all
  then have "inBuffer (OtaBufferBase + off) (length d)" using assms(1) by (simp add: inBuffer_def)
  then show ?thesis
    using assms(2) by (simp add: stage_def write_law a stage_addr [OF assms(3)])
qed

lemma outside_write:
  assumes "unat off + length d \<le> 3932160" "length d \<le> 255" "\<not> inBuffer x 1"
  shows "writeFlash ops (OtaBufferBase + off) d f x = f x"
proof -
  have a: "unat (OtaBufferBase + off) = 0x60400000 + unat off"
    using assms(1) by (subst unat_add_no_wrap) simp_all
  then have "inBuffer (OtaBufferBase + off) (length d)" using assms(1) by (simp add: inBuffer_def)
  then show ?thesis
    using assms by (auto simp: write_law a inBuffer_def)
qed

lemma otaEraseLoop_spec:
  assumes "otaEraseLoop ops sec lastSec (s, f) = (s', f')"
    and "length (erasedMap s) = 120" "unat lastSec < 960"
  shows "s' = s\<lparr>erasedMap := erasedMap s'\<rparr> \<and> length (erasedMap s') = 120
    \<and> (\<forall>k < 960. erasedAt s' k \<longleftrightarrow> erasedAt s k \<or> unat sec \<le> k \<and> k \<le> unat lastSec)
    \<and> (\<forall>j < 3932160. stage f' j =
             (if unat sec \<le> j div 4096 \<and> j div 4096 \<le> unat lastSec \<and> \<not> erasedAt s (j div 4096)
              then 0xFF else stage f j))
    \<and> (\<forall>x. \<not> inBuffer x 1 \<longrightarrow> f' x = f x)"
  using assms
proof (induction "960 - unat sec" arbitrary: sec s f rule: less_induct)
  case less
  show ?case
  proof (cases "unat sec \<le> unat lastSec")
    case False
    then have "s' = s" "f' = f"
      using less.prems(1) by (simp_all add: otaEraseLoop.simps [of ops sec] word_le_nat_alt)
    then show ?thesis using less.prems(2) False by auto
  next
    case True
    then have lt: "unat sec < 960" using less.prems(3) by simp
    then have suc: "unat (sec + 1) = unat sec + 1" by (subst unat_add_no_wrap) simp_all
    define s1 where "s1 = (if otaSectorErased s sec then s else otaMarkErased s sec)"
    define f1 where "f1 = (if otaSectorErased s sec then f
      else eraseSector ops (OtaBufferBase + sec * OtaSectorSize) f)"
    have step: "otaEraseLoop ops (sec + 1) lastSec (s1, f1) = (s', f')"
      using less.prems(1) True lt
      by (simp add: otaEraseLoop.simps [of ops sec] word_le_nat_alt word_less_nat_alt s1_def f1_def
          split: if_splits)
    have s1: "s1 = s\<lparr>erasedMap := erasedMap s1\<rparr>" "length (erasedMap s1) = 120"
      using otaMarkErased_fields [of s sec] less.prems(2) by (auto simp: s1_def)
    have e1: "erasedAt s1 k \<longleftrightarrow> k = unat sec \<or> erasedAt s k" if "k < 960" for k
      using erasedAt_mark [OF less.prems(2) lt that]
      by (auto simp: s1_def otaSectorErased_iff)
    have f1: "stage f1 j = (if j div 4096 = unat sec \<and> \<not> erasedAt s (j div 4096) then 0xFF
        else stage f j)" if "j < 3932160" for j
      using stage_erase [OF lt that, of f] by (auto simp: f1_def otaSectorErased_iff)
    have o1: "f1 x = f x" if "\<not> inBuffer x 1" for x
      using outside_erase [OF lt that, of f] by (simp add: f1_def)
    have "960 - unat (sec + 1) < 960 - unat sec" using lt suc by simp
    from less.hyps [OF this step s1(2) less.prems(3)]
    have ih: "s' = s1\<lparr>erasedMap := erasedMap s'\<rparr>" "length (erasedMap s') = 120"
      "\<And>k. k < 960 \<Longrightarrow>
         erasedAt s' k \<longleftrightarrow> erasedAt s1 k \<or> unat (sec + 1) \<le> k \<and> k \<le> unat lastSec"
      "\<And>j. j < 3932160 \<Longrightarrow> stage f' j =
         (if unat (sec + 1) \<le> j div 4096 \<and> j div 4096 \<le> unat lastSec
             \<and> \<not> erasedAt s1 (j div 4096)
          then 0xFF else stage f1 j)"
      "\<And>x. \<not> inBuffer x 1 \<Longrightarrow> f' x = f1 x"
      by blast+
    have "s' = s\<lparr>erasedMap := erasedMap s'\<rparr>" using ih(1) s1(1)
      by (metis OtaIngest.surjective OtaIngest.update_convs(10))
    moreover have "erasedAt s' k \<longleftrightarrow> erasedAt s k \<or> unat sec \<le> k \<and> k \<le> unat lastSec"
      if "k < 960" for k
      using ih(3) [OF that] e1 [OF that] True suc by auto
    moreover have "stage f' j =
       (if unat sec \<le> j div 4096 \<and> j div 4096 \<le> unat lastSec \<and> \<not> erasedAt s (j div 4096)
        then 0xFF else stage f j)" if j: "j < 3932160" for j
    proof -
      have "j div 4096 < 960" using j by auto
      then show ?thesis using ih(4) [OF j] f1 [OF j] e1 True suc by auto
    qed
    ultimately show ?thesis using ih(2,5) o1 by simp
  qed
qed

end

section \<open>The ingest invariant\<close>

text \<open>\<open>img\<close> are the bytes of the data records accepted so far and \<open>f0\<close> the flash before the
  upload.\<close>

definition imgOffset :: "OtaIngest \<Rightarrow> nat" where
  "imgOffset s = unat (minAddr s) - unat OtaFlashBase"

definition ingInv :: "flash \<Rightarrow> byte list \<Rightarrow> OtaIngest \<Rightarrow> flash \<Rightarrow> bool" where
  "ingInv f0 img s f \<longleftrightarrow>
     length (erasedMap s) = 120
   \<and> (\<forall>x. \<not> inBuffer x 1 \<longrightarrow> f x = f0 x)
   \<and> haveData s = (img \<noteq> [])
   \<and> unat (bytesWritten s) = length img
   \<and> ingCrc s = otaCrc32Update 0xFFFFFFFF img
   \<and> (img \<noteq> [] \<longrightarrow>
        unat OtaFlashBase \<le> unat (minAddr s)
      \<and> imgOffset s + length img \<le> unat OtaImageMax
      \<and> unat (nextAddr s) = unat (minAddr s) + length img
      \<and> unat (maxAddr s) = unat (minAddr s) + length img - 1
      \<and> (\<forall>i < length img. stage f (imgOffset s + i) = img ! i)
      \<and> (\<forall>i < length img. erasedAt s ((imgOffset s + i) div 4096)))
   \<and> (img = [] \<longrightarrow> maxAddr s = 0)
   \<and> (\<forall>k < 3932160. erasedAt s (k div 4096)
        \<and> (img = [] \<or> k < imgOffset s \<or> imgOffset s + length img \<le> k) \<longrightarrow> stage f k = 0xFF)"

lemma ingInv_init: "ingInv f [] otaIngestInit f"
  by (simp add: ingInv_def otaIngestInit_def erasedAt_def const_defs nth_replicate)

section \<open>Bytes and streams\<close>

text \<open>What a stream of characters stands for: the payloads of its data records, in order, \<open>line\<close>
  being the characters of the current line so far.\<close>

fun streamBytes :: "HexParser \<Rightarrow> string \<Rightarrow> string \<Rightarrow> byte list" where
  "streamBytes p line [] = []"
| "streamBytes p line (c # cs) =
     (if c \<noteq> CHR 0x0A then streamBytes p (line @ [c]) cs
      else case hexParseLine p (cstr line) of
          (HexData a d, p') \<Rightarrow> d @ streamBytes p' [] cs
        | (_, p') \<Rightarrow> streamBytes p' [] cs)"

lemma hexParseLine_data_length: "hexParseLine p l = (HexData a d, p') \<Longrightarrow> length d \<le> 255"
proof (erule hexParseLine_cases)
  fix n bs
  assume "hexDispatch p n bs = (HexData a d, p')" "\<not> hexEofSeen p" "n \<le> 255"
  then show "length d \<le> 255"
    using hexDispatch_frame(4) [of p n bs "HexData a d" p' a d] by simp
qed simp_all

text \<open>The invariant reads neither the parser, the line buffer, the counters nor the error.\<close>

lemma ingInv_frame:
  assumes "erasedMap s' = erasedMap s" "haveData s' = haveData s" "minAddr s' = minAddr s"
    "maxAddr s' = maxAddr s" "nextAddr s' = nextAddr s" "bytesWritten s' = bytesWritten s"
    "ingCrc s' = ingCrc s"
  shows "ingInv f0 img s' f = ingInv f0 img s f"
  by (simp only: ingInv_def imgOffset_def erasedAt_def assms)

context staging_flash
begin

text \<open>The accepting branch, after the guards: the new bytes follow the image, in erased flash.\<close>

lemma otaHandleData_accept:
  assumes inv: "ingInv f0 img s f" and len: "length data \<le> 255" and ne: "data \<noteq> []"
    and contig: "haveData s \<longrightarrow> addr = nextAddr s"
    and addr: "unat addr = 0x60000000 + unat off" and fit: "unat off + length data \<le> 3932160"
    and next_addr: "unat (addr + of_nat (length data)) = unat addr + length data"
    and max_addr: "unat (addr + of_nat (length data) - 1) = unat addr + length data - 1"
    and lst: "unat lst = (unat off + length data - 1) div 4096"
    and s2: "s2 = s1\<lparr>erasedMap := erasedMap s2\<rparr>" "length (erasedMap s2) = 120"
    and e2: "\<And>k. k < 960 \<Longrightarrow>
           erasedAt s2 k \<longleftrightarrow> erasedAt s k \<or> unat off div 4096 \<le> k \<and> k \<le> unat lst"
    and f2: "\<And>j. j < 3932160 \<Longrightarrow> stage f2 j =
           (if unat off div 4096 \<le> j div 4096 \<and> j div 4096 \<le> unat lst \<and> \<not> erasedAt s (j div 4096)
            then 0xFF else stage f j)"
    and o2: "\<And>x. \<not> inBuffer x 1 \<Longrightarrow> f2 x = f x"
    and s1: "s1 = (if haveData s then s else s\<lparr>haveData := True, minAddr := addr\<rparr>)"
    and f': "f' = writeFlash ops (OtaBufferBase + off) data f2"
    and s': "s' = s2\<lparr>ingCrc := otaCrc32Update (ingCrc s2) data, nextAddr := addr + of_nat (length data),
             maxAddr := (if addr + of_nat (length data) - 1 > maxAddr s2
                         then addr + of_nat (length data) - 1 else maxAddr s2),
             bytesWritten := bytesWritten s2 + ucast (of_nat (length data) :: u32)\<rparr>"
  shows "ingInv f0 (img @ data) s' f' \<and> ingError s' = ingError s
           \<and> ingEofSeen s' = ingEofSeen s \<and> lineBuf s' = lineBuf s \<and> ingHex s' = ingHex s
           \<and> minAddr s' = (if img = [] then addr else minAddr s)
           \<and> (img \<noteq> [] \<longrightarrow> addr = nextAddr s)"
proof -
  let ?n = "length data" and ?o = "unat off"
  note iv = inv [unfolded ingInv_def]
  have hv: "haveData s \<longleftrightarrow> img \<noteq> []" using iv by blast
  have fields: "minAddr s' = (if img = [] then addr else minAddr s)" "haveData s'"
    "erasedMap s' = erasedMap s2" "ingCrc s' = otaCrc32Update (ingCrc s) data"
    "bytesWritten s' = bytesWritten s + ucast (of_nat ?n :: u32)"
    "nextAddr s' = addr + of_nat ?n"
    "maxAddr s' = (if addr + of_nat ?n - 1 > maxAddr s then addr + of_nat ?n - 1 else maxAddr s)"
    "ingError s' = ingError s" "ingEofSeen s' = ingEofSeen s" "lineBuf s' = lineBuf s"
    "ingHex s' = ingHex s"
    using s' s2(1) s1 hv by (cases s; cases s2; auto)+
  define b where "b = imgOffset s'"
  have b: "?o = b + length img"
  proof (cases "img = []")
    case True
    then show ?thesis using addr by (simp add: b_def imgOffset_def fields)
  next
    case False
    then have "unat addr = unat (minAddr s) + length img" "unat (minAddr s) \<ge> 0x60000000"
      using iv contig hv by auto
    then show ?thesis using False addr by (simp add: b_def imgOffset_def fields)
  qed
  have bs: "imgOffset s = b" if "img \<noteq> []" using that by (simp add: b_def imgOffset_def fields)
  have e': "erasedAt s' k = erasedAt s2 k" for k by (simp add: erasedAt_def fields)
  have st: "stage f' k = (if ?o \<le> k \<and> k < ?o + ?n then stage f2 k AND data ! (k - ?o) else stage f2 k)"
    if "k < 3932160" for k
    unfolding f' by (rule stage_write [OF fit len that])
  have sec_new: "?o div 4096 \<le> k div 4096 \<and> k div 4096 \<le> unat lst" if "?o \<le> k" "k < ?o + ?n" for k
    using that unfolding lst by (simp add: div_le_mono)
  have blank: "stage f2 k = 0xFF" if "?o \<le> k" "k < ?o + ?n" for k
  proof -
    have "k < 3932160" using that fit by simp
    moreover have "img = [] \<or> k < imgOffset s \<or> imgOffset s + length img \<le> k"
      using that(1) b bs by auto
    ultimately show ?thesis using f2 [of k] sec_new [OF that] iv by auto
  qed
  have old: "stage f' (b + i) = img ! i" "erasedAt s' ((b + i) div 4096)" if "i < length img" for i
  proof -
    have ne: "img \<noteq> []" using that by auto
    then have *: "stage f (b + i) = img ! i" "erasedAt s ((b + i) div 4096)"
      using iv that bs by auto
    have lt: "b + i < 3932160" "b + i < ?o" using fit b that by auto
    show "stage f' (b + i) = img ! i" using st [OF lt(1)] f2 [OF lt(1)] * lt(2) by simp
    have "(b + i) div 4096 < 960" using lt(1) by auto
    then show "erasedAt s' ((b + i) div 4096)" using e2 e' * by simp
  qed
  have new: "stage f' (b + length img + i) = data ! i" "erasedAt s' ((b + length img + i) div 4096)"
    if "i < ?n" for i
  proof -
    have lt: "?o + i < 3932160" using fit that by simp
    show "stage f' (b + length img + i) = data ! i"
      using st [OF lt] blank [of "?o + i"] that b by simp
    have "(?o + i) div 4096 < 960" using lt by auto
    then show "erasedAt s' ((b + length img + i) div 4096)"
      using e2 e' sec_new [of "?o + i"] that b by simp
  qed
  have img': "stage f' (b + i) = (img @ data) ! i" "erasedAt s' ((b + i) div 4096)"
    if "i < length (img @ data)" for i
    using that old [of i] new [of "i - length img"]
    by (cases "i < length img"; simp add: nth_append add.assoc)+
  have rest: "stage f' k = 0xFF"
    if "k < 3932160" "erasedAt s' (k div 4096)" "k < b \<or> b + length (img @ data) \<le> k" for k
  proof -
    have "k div 4096 < 960" using that(1) by auto
    then have "erasedAt s (k div 4096) \<or> ?o div 4096 \<le> k div 4096 \<and> k div 4096 \<le> unat lst"
      using that(2) e2 e' by simp
    moreover have "img = [] \<or> k < imgOffset s \<or> imgOffset s + length img \<le> k"
      using that(3) bs by auto
    ultimately have "stage f2 k = 0xFF" using f2 [OF that(1)] iv that(1) by auto
    moreover have "\<not> (?o \<le> k \<and> k < ?o + ?n)" using that(3) b by auto
    ultimately show ?thesis by (subst st [OF that(1)]) auto
  qed
  have "length img \<le> 3932160" using iv by (cases "img = []") auto
  then have bw: "unat (bytesWritten s') = length (img @ data)"
    using iv len by (simp add: fields, subst unat_add_no_wrap)
      (simp_all add: unat_of_nat)
  have mx: "unat (maxAddr s') = unat (minAddr s') + length (img @ data) - 1"
  proof -
    have n0: "0 < ?n" using ne by simp
    have "unat (maxAddr s) < unat (addr + of_nat ?n - 1)
        \<and> unat (minAddr s') + length (img @ data) - 1 = unat addr + ?n - 1"
    proof (cases "img = []")
      case True
      have "maxAddr s = 0" using iv True by blast
      then show ?thesis using max_addr addr n0 True fields(1) by simp
    next
      case False
      have "unat (maxAddr s) = unat (minAddr s) + length img - 1"
        "unat addr = unat (minAddr s) + length img"
        using iv contig hv False by auto
      moreover have "0 < length img" "unat (minAddr s') = unat (minAddr s)"
        using False fields(1) by simp_all
      ultimately show ?thesis using max_addr n0 unfolding length_append
        by (intro conjI) linarith+
    qed
    then show ?thesis using max_addr by (simp add: fields(7) word_less_nat_alt)
  qed
  have "f' x = f0 x" if "\<not> inBuffer x 1" for x
    using outside_write [OF fit len that, of f2] o2 [OF that] f' iv that by simp
  moreover have ge: "unat (minAddr s') \<ge> 0x60000000"
  proof (cases "img = []")
    case True
    then show ?thesis using addr fields(1) by simp
  next
    case False
    then show ?thesis using iv fields(1) by simp
  qed
  moreover have "unat (nextAddr s') = unat (minAddr s') + length (img @ data)"
  proof -
    have "unat (minAddr s') = 0x60000000 + b" using ge by (simp add: b_def imgOffset_def)
    then show ?thesis using next_addr addr b fields(6) by simp
  qed
  moreover have "b + length (img @ data) \<le> 3932160" using fit b by simp
  ultimately show ?thesis
    using s2(2) fields bw mx img' rest ne contig hv iv
    by (simp add: ingInv_def otaCrc32Update_append flip: b_def)
qed

lemma otaHandleData_inv:
  assumes inv: "ingInv f0 img s f" and len: "length data \<le> 255"
    and run: "otaHandleData s ops addr data f = (ok, s', f')"
  shows "if ok then ingInv f0 (img @ data) s' f' \<and> ingError s' = ingError s
           \<and> ingEofSeen s' = ingEofSeen s \<and> lineBuf s' = lineBuf s \<and> ingHex s' = ingHex s
           \<and> (data \<noteq> [] \<longrightarrow> minAddr s' = (if img = [] then addr else minAddr s)
                \<and> (img \<noteq> [] \<longrightarrow> addr = nextAddr s))
         else f' = f \<and> (\<exists>e. s' = s\<lparr>ingError := Some e\<rparr>)"
proof -
  let ?n = "length data"
  have cnt: "unat (of_nat ?n :: u32) = ?n" using len by (simp add: unat_of_nat)
  have c0: "(of_nat ?n :: u32) = 0 \<longleftrightarrow> data = []"
    using cnt by (metis length_0_conv unat_0 unat_eq_zero)
  show ?thesis
  proof (cases "data = []")
    case True
    then show ?thesis using run inv by (simp add: otaHandleData_def)
  next
    case False
    note ne = False
    show ?thesis
    proof (cases ok)
      case False
      then show ?thesis using run ne c0
        by (auto simp: otaHandleData_def Let_def split: if_splits prod.splits)
    next
      case True
      define off where "off = addr - OtaFlashBase"
      define s1 where "s1 = (if haveData s then s else s\<lparr>haveData := True, minAddr := addr\<rparr>)"
      define lst where "lst = (off + of_nat ?n - 1) div OtaSectorSize"
      obtain s2 f2 where loop: "otaEraseLoop ops (off div OtaSectorSize) lst (s1, f) = (s2, f2)"
        by fastforce
      have g: "\<not> addr < OtaFlashBase" "\<not> off \<ge> OtaImageMax"
        "\<not> of_nat ?n > OtaImageMax - off" "haveData s \<longrightarrow> addr = nextAddr s"
        using run True ne c0 by (auto simp: otaHandleData_def Let_def off_def split: if_splits)
      have res: "f' = writeFlash ops (OtaBufferBase + off) data f2"
        "s' = s2\<lparr>ingCrc := otaCrc32Update (ingCrc s2) data, nextAddr := addr + of_nat ?n,
             maxAddr := (if addr + of_nat ?n - 1 > maxAddr s2 then addr + of_nat ?n - 1 else maxAddr s2),
             bytesWritten := bytesWritten s2 + ucast (of_nat ?n :: u32)\<rparr>"
        using run True ne c0 g loop
        by (auto simp: otaHandleData_def Let_def off_def s1_def lst_def split: if_splits prod.splits)
      have ge: "unat addr \<ge> 0x60000000" using g(1) by (simp add: word_less_nat_alt)
      then have off: "unat off = unat addr - 0x60000000"
        by (simp add: off_def unat_sub_no_wrap)
      have o_lt: "unat off < 3932160" using g(2) by (simp add: word_le_nat_alt not_le)
      then have "unat (OtaImageMax - off) = 3932160 - unat off" by (subst unat_sub_no_wrap) simp_all
      then have fit: "unat off + ?n \<le> 3932160"
        using g(3) cnt o_lt by (simp add: word_less_nat_alt)
      have addr: "unat addr = 0x60000000 + unat off" using off ge by simp
      have n0: "0 < ?n" using ne by simp
      have next_addr: "unat (addr + of_nat ?n) = unat addr + ?n"
        using addr fit cnt by (subst unat_add_no_wrap) simp_all
      then have max_addr: "unat (addr + of_nat ?n - 1) = unat addr + ?n - 1"
        using n0 addr by (subst unat_sub_no_wrap) simp_all
      have "unat (off + of_nat ?n) = unat off + ?n"
        using fit cnt by (subst unat_add_no_wrap) simp_all
      then have "unat (off + of_nat ?n - 1) = unat off + ?n - 1"
        using n0 by (subst unat_sub_no_wrap) (auto simp: Suc_le_eq)
      then have lst: "unat lst = (unat off + ?n - 1) div 4096" by (simp add: lst_def unat_div)
      then have last_lt: "unat lst < 960" using fit n0 by auto
      have sec: "unat (off div OtaSectorSize) = unat off div 4096" by (simp add: unat_div)
      have s1: "length (erasedMap s1) = 120" "\<And>k. erasedAt s1 k = erasedAt s k"
        using inv by (simp_all add: s1_def ingInv_def erasedAt_def)
      from otaEraseLoop_spec [OF loop s1(1) last_lt]
      have l: "s2 = s1\<lparr>erasedMap := erasedMap s2\<rparr>" "length (erasedMap s2) = 120"
        "\<And>k. k < 960 \<Longrightarrow>
           erasedAt s2 k \<longleftrightarrow> erasedAt s k \<or> unat off div 4096 \<le> k \<and> k \<le> unat lst"
        "\<And>j. j < 3932160 \<Longrightarrow> stage f2 j =
           (if unat off div 4096 \<le> j div 4096 \<and> j div 4096 \<le> unat lst \<and> \<not> erasedAt s (j div 4096)
            then 0xFF else stage f j)"
        "\<And>x. \<not> inBuffer x 1 \<Longrightarrow> f2 x = f x"
        by (auto simp: sec s1(2))
      show ?thesis
        using otaHandleData_accept [OF inv len ne g(4) addr fit next_addr max_addr lst l s1_def res] True
        by simp
    qed
  qed
qed
lemma otaFeedByte_inv:
  assumes inv: "ingInv f0 img s f" and run: "otaFeedByte s c ops f = (ok, s', f')"
  shows "\<exists>img'. ingInv f0 img' s' f'
    \<and> (ok \<longrightarrow> ingError s' = None \<and>
         img' @ streamBytes (ingHex s') (lineBuf s') cs = img @ streamBytes (ingHex s) (lineBuf s) (c # cs))
    \<and> (\<not> ok \<longrightarrow> ingError s' \<noteq> None)"
proof -
  have upd: "ingInv f0 img (s\<lparr>ingError := e\<rparr>) f" "ingInv f0 img (s\<lparr>lineBuf := l\<rparr>) f"
    "ingInv f0 img (s\<lparr>ingHex := h, lineBuf := [], lineCount := n\<rparr>) f"
    "ingInv f0 img (s\<lparr>ingHex := h, lineBuf := [], lineCount := n, ingEofSeen := b\<rparr>) f"
    "ingInv f0 img (s\<lparr>ingHex := h, lineBuf := [], lineCount := n, ingError := e\<rparr>) f"
    for e l h n b
    by (rule iffD2 [OF ingInv_frame inv]; simp)+
  consider (err) "ingError s \<noteq> None" | (char) "ingError s = None" "c \<noteq> CHR 0x0A"
    | (line) "ingError s = None" "c = CHR 0x0A" by blast
  then show ?thesis
  proof cases
    case err
    then show ?thesis using run inv by (auto simp: otaFeedByte_def)
  next
    case char
    then show ?thesis using run upd(1,2)
      by (auto simp: otaFeedByte_def split: if_splits intro!: exI [of _ img])
  next
    case line
    obtain r h where p: "hexParseLine (ingHex s) (cstr (lineBuf s)) = (r, h)" by fastforce
    let ?s = "s\<lparr>ingHex := h, lineBuf := [], lineCount := lineCount s + 1\<rparr>"
    show ?thesis
    proof (cases r)
      case (HexData a d)
      have hd: "otaHandleData ?s ops a d f = (ok, s', f')"
        using run line p HexData by (simp add: otaFeedByte_def)
      have "length d \<le> 255" using hexParseLine_data_length p HexData by blast
      from otaHandleData_inv [OF upd(3) this hd]
      show ?thesis using line p HexData upd(5)
        by (cases ok) (auto intro!: exI [of _ "img @ d"] exI [of _ img])
    qed (use run line p upd in \<open>auto simp: otaFeedByte_def split: if_splits intro!: exI [of _ img]\<close>)
  qed
qed

end

context staging_flash
begin

lemma otaFeedAll_inv:
  assumes "ingInv f0 img s f" "ingError s = None" "otaFeedAll ops cs s f = (ok, s', f')"
  shows "\<exists>img'. ingInv f0 img' s' f'
    \<and> (ok \<longrightarrow> ingError s' = None \<and> img' @ streamBytes (ingHex s') (lineBuf s') rest
                 = img @ streamBytes (ingHex s) (lineBuf s) (cs @ rest))
    \<and> (\<not> ok \<longrightarrow> ingError s' \<noteq> None)"
  using assms
proof (induction cs arbitrary: s f img)
  case Nil
  then show ?case by auto
next
  case (Cons c cs)
  obtain ok1 s1 f1 where fb: "otaFeedByte s c ops f = (ok1, s1, f1)" by (metis prod_cases3)
  from otaFeedByte_inv [OF Cons.prems(1) fb, of "cs @ rest"]
  obtain img1 where i1: "ingInv f0 img1 s1 f1"
    "ok1 \<Longrightarrow> ingError s1 = None \<and> img1 @ streamBytes (ingHex s1) (lineBuf s1) (cs @ rest)
       = img @ streamBytes (ingHex s) (lineBuf s) (c # cs @ rest)"
    "\<not> ok1 \<Longrightarrow> ingError s1 \<noteq> None" by auto
  show ?case
  proof (cases ok1)
    case True
    then show ?thesis
      using Cons.IH [OF i1(1), of] i1(2) Cons.prems(3) fb by auto
  next
    case False
    then show ?thesis using Cons.prems(3) fb i1 by auto
  qed
qed

lemma otaIngestFinish_inv:
  assumes "ingInv f0 img s f" "otaIngestFinish s ops f = (ok, s', f')"
  shows "\<exists>img'. ingInv f0 img' s' f'
    \<and> (ok \<longrightarrow> ingError s' = None \<and> ingEofSeen s' \<and> img' \<noteq> []
         \<and> img' = img @ streamBytes (ingHex s) (lineBuf s) [CHR 0x0A])
    \<and> (\<not> ok \<longrightarrow> ingError s' \<noteq> None)"
proof (cases "ingError s = None")
  case False
  then show ?thesis using assms by (auto simp: otaIngestFinish_def)
next
  case True
  define run where "run = (if length (lineBuf s) > 0 then otaFeedByte s (CHR 0x0A) ops f else (True, s, f))"
  obtain ok1 s1 f1 where r: "run = (ok1, s1, f1)" by (metis prod_cases3)
  have i1: "\<exists>img1. ingInv f0 img1 s1 f1
    \<and> (ok1 \<longrightarrow> ingError s1 = None \<and> img1 = img @ streamBytes (ingHex s) (lineBuf s) [CHR 0x0A])
    \<and> (\<not> ok1 \<longrightarrow> ingError s1 \<noteq> None)"
  proof (cases "lineBuf s = []")
    case True
    then show ?thesis
      using r assms(1) \<open>ingError s = None\<close>
      by (auto simp: run_def hexParseLine_def hexSkipBlank_def intro!: exI [of _ img])
  next
    case False
    then have "otaFeedByte s (CHR 0x0A) ops f = (ok1, s1, f1)" using r by (simp add: run_def)
    from otaFeedByte_inv [OF assms(1) this, of "[]"] show ?thesis by auto
  qed
  then obtain img1 where img1: "ingInv f0 img1 s1 f1"
    "ok1 \<Longrightarrow> ingError s1 = None \<and> img1 = img @ streamBytes (ingHex s) (lineBuf s) [CHR 0x0A]"
    "\<not> ok1 \<Longrightarrow> ingError s1 \<noteq> None" by blast
  have e: "ingInv f0 img1 (s1\<lparr>ingError := e\<rparr>) f1" for e
    by (rule iffD2 [OF ingInv_frame img1(1)]; simp)
  have bw: "bytesWritten s1 = 0 \<longleftrightarrow> img1 = []"
    using img1(1) by (auto simp: ingInv_def unat_eq_zero)
  have "otaIngestFinish s ops f =
    (if \<not> ok1 then (False, s1, f1)
     else if \<not> ingEofSeen s1
     then (False, s1\<lparr>ingError := Some ''truncated upload (no end-of-file record)''\<rparr>, f1)
     else if bytesWritten s1 = 0 then (False, s1\<lparr>ingError := Some ''no data records''\<rparr>, f1)
     else (True, s1, f1))"
    using True r by (simp add: otaIngestFinish_def run_def)
  then show ?thesis
    using assms(2) img1 e bw by (auto split: if_splits)
qed

text \<open>The whole upload: body then end of stream.\<close>

lemma ingest_run_inv:
  assumes "otaFeedAll ops body otaIngestInit f0 = (ok1, s1, f1)"
    and "otaIngestFinish s1 ops f1 = (ok, s, f)"
  shows "\<exists>img. ingInv f0 img s f \<and> (ok1 \<and> ok \<longrightarrow> ingError s = None \<and> ingEofSeen s \<and> img \<noteq> []
           \<and> img = streamBytes hexParserInit [] (body @ [CHR 0x0A]))
         \<and> (\<not> (ok1 \<and> ok) \<longrightarrow> ingError s \<noteq> None)"
proof -
  have "ingError otaIngestInit = None" by (simp add: otaIngestInit_def)
  from otaFeedAll_inv [OF ingInv_init this assms(1), of "[CHR 0x0A]"]
  obtain img1 where i: "ingInv f0 img1 s1 f1"
    "ok1 \<Longrightarrow> img1 @ streamBytes (ingHex s1) (lineBuf s1) [CHR 0x0A] =
       streamBytes hexParserInit [] (body @ [CHR 0x0A])"
    "\<not> ok1 \<Longrightarrow> ingError s1 \<noteq> None"
    by (auto simp: otaIngestInit_def)
  show ?thesis
  proof (cases ok1)
    case True
    with otaIngestFinish_inv [OF i(1) assms(2)] i(2) show ?thesis by auto
  next
    case False
    with i(3) assms(2) have "ok = False" "s = s1" "f = f1"
      by (auto simp: otaIngestFinish_def)
    then show ?thesis using i False by auto
  qed
qed

end

section \<open>Every dense image is accepted\<close>

text \<open>A printed image: each chunk as a type-04 record and a data record, then end of file.\<close>

definition hexLine :: "u16 \<Rightarrow> byte \<Rightarrow> byte list \<Rightarrow> string" where
  "hexLine off type data = hexPrintRecord off type data @ [CHR 0x0A]"

fun hexPrintImage :: "u32 \<Rightarrow> byte list list \<Rightarrow> string" where
  "hexPrintImage a [] = hexLine 0 1 []"
| "hexPrintImage a (d # ds) =
     hexLine 0 4 [ucast (drop_bit 24 a), ucast (drop_bit 16 a)] @ hexLine (ucast a) 0 d
       @ hexPrintImage (a + of_nat (length d)) ds"

lemma hexDigit_plain: "n < 16 \<Longrightarrow> hexDigit n \<noteq> NUL \<and> hexDigit n \<noteq> CHR 0x0A"
  using hexNibble_digit [of n] by (auto simp: hexNibble_def)

lemma hexPrintBytes_plain: "c \<in> set (hexPrintBytes bs) \<Longrightarrow> c \<noteq> NUL \<and> c \<noteq> CHR 0x0A"
proof -
  have "unat b div 16 < 16" for b :: byte by (simp add: less_mult_imp_div_less)
  then show "c \<in> set (hexPrintBytes bs) \<Longrightarrow> c \<noteq> NUL \<and> c \<noteq> CHR 0x0A"
    by (auto simp: hexPrintBytes_def hexPrintByte_def hexDigit_plain)
qed

lemma hexPrintRecord_plain: "c \<in> set (hexPrintRecord off type data) \<Longrightarrow> c \<noteq> NUL \<and> c \<noteq> CHR 0x0A"
  using hexPrintBytes_plain by (auto simp: hexPrintRecord_def)

lemma hexPrintRecord_length: "length (hexPrintRecord off type data) = 11 + 2 * length data"
  by (simp add: hexPrintRecord_def hexRecordBytes_def Let_def)

lemma hexPrintRecord_cstr [simp]: "cstr (hexPrintRecord off type data) = hexPrintRecord off type data"
  using hexPrintRecord_plain by (intro cstr_id) blast

lemma otaFeedAll_fill:
  assumes "ingError s = None" "length (lineBuf s) + length l \<le> 599" "CHR 0x0A \<notin> set l"
  shows "otaFeedAll ops (l @ cs) s f = otaFeedAll ops cs (s\<lparr>lineBuf := lineBuf s @ l\<rparr>) f"
  using assms
proof (induction l arbitrary: s)
  case (Cons c l)
  then have "c \<noteq> CHR 0x0A" by auto
  with Cons show ?case by (simp add: otaFeedByte_def)
qed simp

lemma otaFeedAll_record:
  assumes "ingError s = None" "lineBuf s = []" "length data \<le> 255"
  shows "otaFeedAll ops (hexLine off type data @ cs) s f =
    (case otaFeedByte (s\<lparr>lineBuf := hexPrintRecord off type data\<rparr>) (CHR 0x0A) ops f of
        (True, s', f') \<Rightarrow> otaFeedAll ops cs s' f'
      | (False, s', f') \<Rightarrow> (False, s', f'))"
  using otaFeedAll_fill [of s "hexPrintRecord off type data" ops "CHR 0x0A # cs" f] assms
    hexPrintRecord_plain
  by (force simp: hexLine_def hexPrintRecord_length)

lemma hexParse_printed:
  assumes "length data \<le> 255" "\<not> hexEofSeen p"
  shows "hexParseLine p (hexPrintRecord off type data)
           = hexDispatch p (length data) (hexRecordBytes off type data)"
  using hexParseLine_print [of "[]" "[]" _ p, OF _ _ hexRecordBytes_length [OF assms(1), of off type] assms(2)]
  by (simp add: hexPrintRecord_def hexSum_check hexRecordBytes_len_byte [OF assms(1)])

lemma ext_addr_join:
  "(push_bit 24 (ucast (ucast (drop_bit 24 a) :: byte)) OR push_bit 16 (ucast (ucast (drop_bit 16 a) :: byte)))
     OR ucast (ucast a :: u16) = (a :: u32)"
proof (rule bit_word_eqI, goal_cases)
  case (1 n)
  then show ?case
    by (cases "n < 16"; cases "n < 24") (auto simp: bit_simps)
qed

lemma feed_ext_addr:
  assumes "ingError s = None" "lineBuf s = []" "\<not> hexEofSeen (ingHex s)"
  shows "otaFeedAll ops (hexLine 0 4 [x, y] @ cs) s f =
    otaFeedAll ops cs (s\<lparr>ingHex := (ingHex s)\<lparr>extAddr := push_bit 24 (ucast x) OR push_bit 16 (ucast y)\<rparr>,
       lineBuf := [], lineCount := lineCount s + 1\<rparr>) f"
  using assms
  by (simp add: otaFeedAll_record otaFeedByte_def hexParse_printed)
    (simp add: hexDispatch_def hexRecordBytes_def Let_def)

lemma feed_data:
  assumes "ingError s = None" "lineBuf s = []" "\<not> hexEofSeen (ingHex s)" "length d \<le> 255"
  shows "otaFeedAll ops (hexLine off 0 d @ cs) s f =
    (case otaHandleData (s\<lparr>lineBuf := [], lineCount := lineCount s + 1\<rparr>) ops (extAddr (ingHex s) OR ucast off) d f of
        (True, s', f') \<Rightarrow> otaFeedAll ops cs s' f'
      | (False, s', f') \<Rightarrow> (False, s', f'))"
proof -
  have "hexParseLine (ingHex s) (hexPrintRecord off 0 d)
      = (HexData (extAddr (ingHex s) OR ucast off) d, ingHex s)"
    using assms
    by (simp add: hexParse_printed) (simp add: hexDispatch_def hexRecordBytes_def Let_def u16_split)
  then show ?thesis
    using assms by (simp add: otaFeedAll_record otaFeedByte_def)
qed

lemma feed_eof:
  assumes "ingError s = None" "lineBuf s = []" "\<not> hexEofSeen (ingHex s)"
  shows "otaFeedAll ops (hexLine 0 1 []) s f =
    (True, s\<lparr>ingHex := (ingHex s)\<lparr>hexEofSeen := True\<rparr>, lineBuf := [], lineCount := lineCount s + 1,
       ingEofSeen := True\<rparr>, f)"
  using assms otaFeedAll_record [OF assms(1,2), of "[]" ops 0 1 "[]" f]
  by (simp add: otaFeedByte_def hexParse_printed)
    (simp add: hexDispatch_def hexRecordBytes_def Let_def)

lemma otaHandleData_accepts:
  assumes "d \<noteq> []" "length d \<le> 255" "unat addr = 0x60000000 + k" "k + length d \<le> 3932160"
    and "haveData s \<longrightarrow> addr = nextAddr s"
  shows "fst (otaHandleData s ops addr d f)"
proof -
  have cnt: "unat (of_nat (length d) :: u32) = length d" using assms(2) by (simp add: unat_of_nat)
  have off: "unat (addr - OtaFlashBase) = k" using assms(3) by (simp add: unat_sub_no_wrap)
  have "0 < length d" using assms(1) by simp
  then have "k < 3932160" using assms(4) by linarith
  then have "unat (OtaImageMax - (addr - OtaFlashBase)) = 3932160 - k"
    using off by (simp add: unat_sub_no_wrap)
  then show ?thesis
    using assms cnt off \<open>k < 3932160\<close>
    by (auto simp: otaHandleData_def Let_def word_less_nat_alt word_le_nat_alt split: prod.splits)
qed

context staging_flash
begin

lemma feed_printed_image:
  assumes "ingInv f0 img s f" "ingError s = None" "lineBuf s = []" "\<not> hexEofSeen (ingHex s)"
    and "\<forall>d\<in>set ds. d \<noteq> [] \<and> length d \<le> 255"
    and "unat a = 0x60000000 + k" "k + length (concat ds) \<le> 3932160"
    and "img \<noteq> [] \<longrightarrow> nextAddr s = a"
  shows "\<exists>s' f'. otaFeedAll ops (hexPrintImage a ds) s f = (True, s', f')
    \<and> ingInv f0 (img @ concat ds) s' f' \<and> ingError s' = None \<and> lineBuf s' = [] \<and> ingEofSeen s'
    \<and> minAddr s' = (if img = [] \<and> ds \<noteq> [] then a else minAddr s)"
  using assms
proof (induction ds arbitrary: a k s f img)
  case Nil
  let ?s = "s\<lparr>ingHex := (ingHex s)\<lparr>hexEofSeen := True\<rparr>, lineBuf := [],
       lineCount := lineCount s + 1, ingEofSeen := True\<rparr>"
  have "ingInv f0 img ?s f" by (rule iffD2 [OF ingInv_frame Nil.prems(1)]; simp)
  then show ?case using Nil.prems(2-4) by (simp add: feed_eof)
next
  case (Cons d ds)
  let ?s1 = "s\<lparr>ingHex := (ingHex s)\<lparr>extAddr := push_bit 24 (ucast (ucast (drop_bit 24 a) :: byte))
       OR push_bit 16 (ucast (ucast (drop_bit 16 a) :: byte))\<rparr>, lineBuf := [], lineCount := lineCount s + 1\<rparr>"
  let ?s2 = "?s1\<lparr>lineBuf := [], lineCount := lineCount ?s1 + 1\<rparr>"
  have d: "d \<noteq> []" "length d \<le> 255" using Cons.prems(5) by auto
  have inv2: "ingInv f0 img ?s2 f" by (rule iffD2 [OF ingInv_frame Cons.prems(1)]; simp)
  have hv: "haveData s \<longleftrightarrow> img \<noteq> []" using Cons.prems(1) by (simp add: ingInv_def)
  obtain ok s3 f3 where hd: "otaHandleData ?s2 ops a d f = (ok, s3, f3)" by (metis prod_cases3)
  have ok: ok
    using otaHandleData_accepts [OF d Cons.prems(6), of ?s2 ops f] Cons.prems(7,8) hd hv by simp
  from otaHandleData_inv [OF inv2 d(2) hd] ok
  have s3: "ingInv f0 (img @ d) s3 f3" "ingError s3 = None" "lineBuf s3 = []"
    "\<not> hexEofSeen (ingHex s3)" "minAddr s3 = (if img = [] then a else minAddr s)"
    using Cons.prems(2-4) d by auto
  have len: "unat (of_nat (length d) :: u32) = length d" using d(2) by (simp add: unat_of_nat)
  have next_a: "unat (a + of_nat (length d)) = 0x60000000 + (k + length d)"
    using Cons.prems(6,7) len by (subst unat_add_no_wrap) simp_all
  have nxt: "nextAddr s3 = a + of_nat (length d)"
  proof -
    have "(of_nat (length d) :: u32) \<noteq> 0" using len d(1) by (metis length_0_conv unat_0)
    then show ?thesis
      using hd ok d by (auto simp: otaHandleData_def Let_def split: if_splits prod.splits)
  qed
  have feed: "otaFeedAll ops (hexPrintImage a (d # ds)) s f
      = otaFeedAll ops (hexPrintImage (a + of_nat (length d)) ds) s3 f3"
    using Cons.prems(2-4) hd ok d by (simp add: feed_ext_addr feed_data ext_addr_join)
  from Cons.IH [OF s3(1-4) _ next_a _ , of] Cons.prems(5,7) nxt s3(5) d
  show ?case unfolding feed by (auto simp: add.assoc)
qed

lemma ingest_printed_image:
  assumes "\<forall>d\<in>set ds. d \<noteq> [] \<and> length d \<le> 255" "ds \<noteq> []"
    and "length (concat ds) \<le> unat OtaImageMax"
  shows "\<exists>s f. otaFeedAll ops (hexPrintImage OtaFlashBase ds) otaIngestInit f0 = (True, s, f)
    \<and> otaIngestFinish s ops f = (True, s, f) \<and> ingInv f0 (concat ds) s f
    \<and> minAddr s = OtaFlashBase"
proof -
  have i: "ingError otaIngestInit = None" "lineBuf otaIngestInit = []"
    "\<not> hexEofSeen (ingHex otaIngestInit)"
    by (simp_all add: otaIngestInit_def hexParserInit_def)
  obtain s f where s: "otaFeedAll ops (hexPrintImage OtaFlashBase ds) otaIngestInit f0 = (True, s, f)"
    "ingInv f0 (concat ds) s f" "ingError s = None" "lineBuf s = []" "ingEofSeen s"
    "minAddr s = OtaFlashBase"
    using feed_printed_image [OF ingInv_init i assms(1), of OtaFlashBase 0 f0] assms(2,3) by auto
  have "concat ds \<noteq> []" using assms(1,2) by (cases ds) auto
  then have "bytesWritten s \<noteq> 0" using s(2) by (auto simp: ingInv_def)
  then show ?thesis using s by (auto simp: otaIngestFinish_def)
qed

end

section \<open>A reference flash\<close>

text \<open>NOR flash as the callbacks' comments document it, backed by memory.\<close>

definition norErase :: "u32 \<Rightarrow> flash \<Rightarrow> flash" where
  "norErase a f = (\<lambda>x. if unat a \<le> unat x \<and> unat x < unat a + 4096 then 0xFF else f x)"

definition norProgram :: "u32 \<Rightarrow> byte list \<Rightarrow> flash \<Rightarrow> flash" where
  "norProgram a d f = (\<lambda>x. if unat a \<le> unat x \<and> unat x < unat a + length d
                            then f x AND d ! (unat x - unat a) else f x)"

definition norFlashOps :: OtaFlashOps where
  "norFlashOps = \<lparr>eraseSector = norErase, writeFlash = norProgram\<rparr>"

interpretation nor: staging_flash norFlashOps
  by unfold_locales (simp_all add: norFlashOps_def norErase_def norProgram_def)

lemma nor_two_bytes:
  "\<exists>s f. otaFeedAll norFlashOps (hexPrintImage OtaFlashBase [[1, 2]]) otaIngestInit (\<lambda>_. 0) = (True, s, f)
    \<and> otaIngestFinish s norFlashOps f = (True, s, f)"
  using nor.ingest_printed_image [of "[[1, 2]]" "\<lambda>_. 0"] by auto

section \<open>Properties\<close>

text \<open>C15: an accepted upload has staged exactly the image that the hex stream describes: the
  concatenation of its data records, at the buffer offset of its first address, inside
  the staging buffer, dense, with the reported bounds, byte count and CRC being those of the image,
  and with the end-of-file record seen.\<close>

theorem accepted_upload_is_staged:
  assumes "staging_flash ops"
    and "otaFeedAll ops body otaIngestInit f0 = (True, s1, f1)"
    and "otaIngestFinish s1 ops f1 = (True, s, f)"
  shows "let img = streamBytes hexParserInit [] (body @ [CHR 0x0A]);
             off = unat (minAddr s) - unat OtaFlashBase in
    img \<noteq> [] \<and> ingEofSeen s \<and> ingError s = None
    \<and> unat OtaFlashBase \<le> unat (minAddr s)
    \<and> unat (maxAddr s) = unat (minAddr s) + length img - 1
    \<and> off + length img \<le> unat OtaImageMax
    \<and> unat (bytesWritten s) = length img
    \<and> otaIngestCrc s = otaCrc32 img
    \<and> map (\<lambda>i. f (OtaBufferBase + of_nat (off + i))) [0..<length img] = img"
proof -
  obtain img where inv: "ingInv f0 img s f" and ok: "ingError s = None" "ingEofSeen s" "img \<noteq> []"
    and img: "img = streamBytes hexParserInit [] (body @ [CHR 0x0A])"
    using staging_flash.ingest_run_inv [OF assms] by auto
  have "map (\<lambda>i. f (OtaBufferBase + of_nat (imgOffset s + i))) [0..<length img] = img"
    using inv ok(3) by (auto simp: ingInv_def stage_def intro!: nth_equalityI)
  then show ?thesis
    using inv ok unfolding img [symmetric] Let_def imgOffset_def [symmetric]
    by (simp add: ingInv_def otaIngestCrc_def otaCrc32_def)
qed

lemma accepted_upload_is_staged_witness:
  "\<exists>s f. otaFeedAll norFlashOps (hexPrintImage OtaFlashBase [[1, 2]]) otaIngestInit (\<lambda>_. 0) = (True, s, f)
    \<and> ingError s = None
    \<and> otaIngestCrc s = otaCrc32 (streamBytes hexParserInit [] (hexPrintImage OtaFlashBase [[1, 2]] @ [CHR 0x0A]))"
proof -
  obtain s f where r: "otaFeedAll norFlashOps (hexPrintImage OtaFlashBase [[1, 2]]) otaIngestInit (\<lambda>_. 0) = (True, s, f)"
    "otaIngestFinish s norFlashOps f = (True, s, f)" using nor_two_bytes by blast
  show ?thesis
    using accepted_upload_is_staged [OF nor.staging_flash_axioms r] r(1) unfolding Let_def by blast
qed

text \<open>C34: no upload, accepted or refused at any point, writes or erases a byte outside the staging
  buffer: the running firmware and the EEPROM reserve keep their content, and a refused one
  always reports an error.\<close>

theorem upload_confined_to_buffer:
  assumes "staging_flash ops"
    and "otaFeedAll ops body otaIngestInit f0 = (ok1, s1, f1)"
    and "otaIngestFinish s1 ops f1 = (ok, s, f)"
  shows "(\<forall>x. unat x < unat OtaBufferBase \<or> unat OtaBufferBase + unat OtaImageMax \<le> unat x
            \<longrightarrow> f x = f0 x)
       \<and> (\<not> (ok1 \<and> ok)) = (ingError s \<noteq> None)"
  using staging_flash.ingest_run_inv [OF assms] by (auto simp: ingInv_def inBuffer_def)

lemma upload_confined_to_buffer_witness:
  "\<exists>s f. otaFeedAll norFlashOps (hexPrintImage OtaFlashBase [[1, 2]]) otaIngestInit (\<lambda>_. 0) = (True, s, f)
    \<and> f 0x60000000 = 0 \<and> ingError s = None"
proof -
  obtain s f where r: "otaFeedAll norFlashOps (hexPrintImage OtaFlashBase [[1, 2]]) otaIngestInit (\<lambda>_. 0) = (True, s, f)"
    "otaIngestFinish s norFlashOps f = (True, s, f)" using nor_two_bytes by blast
  show ?thesis
    using upload_confined_to_buffer [OF nor.staging_flash_axioms r] r(1) by simp
qed

text \<open>The ingest refuses nothing it should take: the hex file of any non-empty image that fits
  the buffer, cut into records of 1 to 255 bytes in ascending order from the flash base, is
  accepted, and the staged bytes and the CRC are the image's.\<close>

theorem dense_image_is_accepted:
  assumes "staging_flash ops"
    and "\<forall>d\<in>set ds. d \<noteq> [] \<and> length d \<le> 255" "ds \<noteq> []"
    and "length (concat ds) \<le> unat OtaImageMax"
  shows "\<exists>s f. otaFeedAll ops (hexPrintImage OtaFlashBase ds) otaIngestInit f0 = (True, s, f)
    \<and> otaIngestFinish s ops f = (True, s, f)
    \<and> minAddr s = OtaFlashBase
    \<and> unat (bytesWritten s) = length (concat ds)
    \<and> otaIngestCrc s = otaCrc32 (concat ds)
    \<and> map (\<lambda>i. f (OtaBufferBase + of_nat i)) [0..<length (concat ds)] = concat ds"
proof -
  obtain s f where r: "otaFeedAll ops (hexPrintImage OtaFlashBase ds) otaIngestInit f0 = (True, s, f)"
    "otaIngestFinish s ops f = (True, s, f)" "ingInv f0 (concat ds) s f" "minAddr s = OtaFlashBase"
    using staging_flash.ingest_printed_image [OF assms] by blast
  have ne: "concat ds \<noteq> []" using assms(2,3) by (cases ds) auto
  have "imgOffset s = 0" using r(4) by (simp add: imgOffset_def)
  with r(3) ne have "\<forall>i < length (concat ds). f (OtaBufferBase + of_nat i) = concat ds ! i"
    by (simp add: ingInv_def stage_def)
  then have "map (\<lambda>i. f (OtaBufferBase + of_nat i)) [0..<length (concat ds)] = concat ds"
    by (auto intro!: nth_equalityI)
  moreover have "unat (bytesWritten s) = length (concat ds)" "otaIngestCrc s = otaCrc32 (concat ds)"
    using r(3) by (simp_all add: ingInv_def otaIngestCrc_def otaCrc32_def)
  ultimately show ?thesis using r by blast
qed

lemma dense_image_is_accepted_witness:
  "\<exists>s f. otaFeedAll norFlashOps (hexPrintImage OtaFlashBase [[0xFC], [7, 9]]) otaIngestInit (\<lambda>_. 0)
      = (True, s, f) \<and> unat (bytesWritten s) = 3"
  using dense_image_is_accepted [OF nor.staging_flash_axioms, of "[[0xFC], [7, 9]]" "\<lambda>_. 0"] by auto

end
