(* ===== verification/Ota_Verify.thy ===== *)
theory Ota_Verify
  imports Ota_Ingest "HOL-Library.Sublist"
begin

text \<open>
  \<open>src/src/ota_verify.h\<close>: the structural verification of a staged image before it may be
  committed. The image pointer is a function from 32-bit offsets to bytes; the result is
  \<open>None\<close> for the null pointer and the reason otherwise. \<open>validImage\<close> is the format in terms of
  the image's bytes and unbounded numbers; the lemmas show the checks decide it and read nothing
  outside the image.
\<close>

definition otaReadU32 :: "(u32 \<Rightarrow> byte) \<Rightarrow> u32 \<Rightarrow> u32" where
  "otaReadU32 img off =
     ucast (img off) OR push_bit 8 (ucast (img (off + 1))) OR
     push_bit 16 (ucast (img (off + 2))) OR push_bit 24 (ucast (img (off + 3)))"

definition OTA_PROJECT_MARKER :: "byte list" where
  "OTA_PROJECT_MARKER = map of_char ''teg-inverter-fw:1''"

definition otaMarkerAt :: "(u32 \<Rightarrow> byte) \<Rightarrow> nat \<Rightarrow> bool" where
  "otaMarkerAt img i =
     list_all (\<lambda>j. img (of_nat (i + j)) = OTA_PROJECT_MARKER ! j) [0..<length OTA_PROJECT_MARKER]"

text \<open>The marker loop: the indices \<open>i\<close> with \<open>i + mlen \<le> imageSize\<close>, until one matches.\<close>

definition otaMarkerFound :: "(u32 \<Rightarrow> byte) \<Rightarrow> u32 \<Rightarrow> bool" where
  "otaMarkerFound img imageSize =
     list_ex (otaMarkerAt img) [0..<unat imageSize + 1 - length OTA_PROJECT_MARKER]"

definition otaVerifyImage :: "(u32 \<Rightarrow> byte) \<Rightarrow> u32 \<Rightarrow> u32 \<Rightarrow> u64 \<Rightarrow> bool \<Rightarrow> string option" where
  "otaVerifyImage img minA maxA bytesW eofSeen =
     (if \<not> eofSeen then Some ''no end-of-file record''
      else if minA \<noteq> OtaFlashBase then Some ''image does not start at the flash base''
      else let imageSize = maxA - OtaFlashBase + 1 in
      if imageSize \<le> 0x2000 then Some ''image too small to contain boot headers''
      else if imageSize > OtaImageMax then Some ''image exceeds the staging buffer''
      else if bytesW \<noteq> ucast imageSize then Some ''image has address gaps''
      else if otaReadU32 img 0x000 \<noteq> 0x42464346
      then Some ''missing FlexSPI config block (not a Teensy image)''
      else if otaReadU32 img 0x050 \<noteq> 0x00800000
      then Some ''flash size marker is not Teensy 4.1 (wrong board build)''
      else let ivt = otaReadU32 img 0x1000 in
      if ivt AND 0x00FFFFFF \<noteq> 0x002000D1 \<or> drop_bit 24 ivt AND 0xF0 \<noteq> 0x40
      then Some ''missing image vector table''
      else let entry = otaReadU32 img 0x1004 in
      if entry AND 1 = 0 then Some ''entry point is not Thumb''
      else if entry AND NOT 1 < OtaFlashBase \<or> entry AND NOT 1 \<ge> OtaFlashBase + imageSize
      then Some ''entry point outside the image''
      else if otaReadU32 img 0x1014 \<noteq> OtaFlashBase + 0x1000 then Some ''IVT self-pointer mismatch''
      else let bootDataPtr = otaReadU32 img 0x1010 in
      if bootDataPtr < OtaFlashBase \<or> bootDataPtr - OtaFlashBase > imageSize - 12
      then Some ''boot data pointer outside the image''
      else let bd = bootDataPtr - OtaFlashBase in
      if otaReadU32 img bd \<noteq> OtaFlashBase then Some ''boot data start mismatch''
      else if otaReadU32 img (bd + 4) \<noteq> imageSize
      then Some ''boot data length does not match the image''
      else if otaReadU32 img (bd + 8) \<noteq> 0 then Some ''boot data plugin flag set''
      else if \<not> otaMarkerFound img imageSize
      then Some ''image is not a build of this firmware (marker missing)''
      else None)"

definition otaVerifyStagedCrc :: "(u32 \<Rightarrow> byte) \<Rightarrow> u32 \<Rightarrow> u32 \<Rightarrow> string option" where
  "otaVerifyStagedCrc img imageSize expectedCrc =
     (if otaCrc32 (map (\<lambda>i. img (of_nat i)) [0..<unat imageSize]) = expectedCrc then None
      else Some ''staged image failed read-back CRC'')"

section \<open>The format\<close>

text \<open>The little-endian word at a position of a byte list.\<close>

definition wordAt :: "byte list \<Rightarrow> nat \<Rightarrow> nat" where
  "wordAt img i =
     unat (img ! i) + 256 * unat (img ! (i + 1)) + 65536 * unat (img ! (i + 2))
       + 16777216 * unat (img ! (i + 3))"

definition validImage :: "byte list \<Rightarrow> bool" where
  "validImage img \<longleftrightarrow>
     0x2000 < length img \<and> length img \<le> 0x3C0000
   \<and> wordAt img 0 = 0x42464346
   \<and> wordAt img 0x50 = 0x00800000
   \<and> wordAt img 0x1000 mod 0x1000000 = 0x2000D1 \<and> unat (img ! 0x1003) div 16 = 4
   \<and> odd (wordAt img 0x1004)
   \<and> 0x60000000 < wordAt img 0x1004 \<and> wordAt img 0x1004 \<le> 0x60000000 + length img
   \<and> wordAt img 0x1014 = 0x60001000
   \<and> (let bd = wordAt img 0x1010 in
        0x60000000 \<le> bd \<and> bd + 12 \<le> 0x60000000 + length img
      \<and> wordAt img (bd - 0x60000000) = 0x60000000
      \<and> wordAt img (bd - 0x60000000 + 4) = length img
      \<and> wordAt img (bd - 0x60000000 + 8) = 0)
   \<and> sublist OTA_PROJECT_MARKER img"

section \<open>Reads\<close>

text \<open>The bytes of the image at a function.\<close>

definition imageBytes :: "(u32 \<Rightarrow> byte) \<Rightarrow> nat \<Rightarrow> byte list" where
  "imageBytes img n = map (\<lambda>k. img (of_nat k)) [0..<n]"

lemma imageBytes_length [simp]: "length (imageBytes img n) = n"
  by (simp add: imageBytes_def)

lemma imageBytes_nth [simp]: "k < n \<Longrightarrow> imageBytes img n ! k = img (of_nat k)"
  by (simp add: imageBytes_def)

lemma unat_otaReadU32:
  assumes "unat off + 4 \<le> n"
  shows "unat (otaReadU32 img off) = wordAt (imageBytes img n) (unat off)"
proof -
  have "of_nat (unat off + k) = off + of_nat k" for k by simp
  then show ?thesis
    using assms by (simp add: otaReadU32_def unat_le4 wordAt_def add.commute)
qed

lemma wordAt_top: "wordAt img i div 16777216 = unat (img ! (i + 3))"
proof -
  have "unat (img ! i) + 256 * unat (img ! (i + 1)) + 65536 * unat (img ! (i + 2)) < 16777216"
    using word_size_bounds(1) [of "img ! i"] word_size_bounds(1) [of "img ! (i + 1)"]
      word_size_bounds(1) [of "img ! (i + 2)"] by linarith
  then show ?thesis by (simp add: wordAt_def div_nat_eqI)
qed

lemma ivt_tag: "ivt AND 0x00FFFFFF = 0x002000D1 \<longleftrightarrow> unat ivt mod 0x1000000 = 0x2000D1" for ivt :: u32
  using unat_and_mask [of ivt 24] by (simp add: word_unat_eq_iff mask_eq_exp_minus_1)

lemma ivt_version:
  "drop_bit 24 ivt AND 0xF0 = 0x40 \<longleftrightarrow> unat ivt div 16777216 div 16 = 4" for ivt :: u32
proof -
  let ?x = "drop_bit 24 ivt"
  have x: "unat ?x = unat ivt div 16777216"
    by (simp add: drop_bit_eq_div unat_div)
  have "unat ivt div 16777216 < 256"
    using word_size_bounds(3) [of ivt] by (simp only: less_mult_imp_div_less)
  then have lt: "unat ?x div 16 < 16" unfolding x by (simp only: less_mult_imp_div_less)
  have m: "(0xF0 :: u32) = push_bit 4 (mask 4)" by (simp add: mask_eq_exp_minus_1)
  have p: "?x AND push_bit 4 (mask 4) = push_bit 4 (drop_bit 4 ?x AND mask 4)"
    by (rule bit_word_eqI) (auto simp: bit_simps)
  have d: "drop_bit 4 ?x AND mask 4 = drop_bit 4 ?x"
    using lt by (simp add: word_unat_eq_iff unat_and_mask drop_bit_eq_div unat_div)
  have "unat (push_bit 4 (drop_bit 4 ?x)) = 16 * (unat ?x div 16)"
    using or_push_bit_unat [of 0 4 "drop_bit 4 ?x"] lt
    by (simp add: drop_bit_eq_div unat_div)
  then have "unat (?x AND 0xF0) = 16 * (unat ?x div 16)" by (simp only: m p d)
  then show ?thesis by (simp add: word_unat_eq_iff x)
qed

lemma otaMarkerFound_iff:
  assumes "unat sz = n"
  shows "otaMarkerFound img sz \<longleftrightarrow> sublist OTA_PROJECT_MARKER (imageBytes img n)"
proof -
  let ?m = "OTA_PROJECT_MARKER" and ?l = "imageBytes img n"
  have pos: "0 < length ?m" by (simp add: OTA_PROJECT_MARKER_def)
  have at: "otaMarkerAt img i \<longleftrightarrow> take (length ?m) (drop i ?l) = ?m" if "i + length ?m \<le> n" for i
  proof -
    have len: "length (take (length ?m) (drop i ?l)) = length ?m" using that by simp
    show ?thesis
      using that
      by (auto simp: otaMarkerAt_def list_all_iff list_eq_iff_nth_eq [of _ ?m] len)
  qed
  have "sublist ?m ?l \<longleftrightarrow> (\<exists>i. i + length ?m \<le> n \<and> take (length ?m) (drop i ?l) = ?m)"
  proof
    assume "sublist ?m ?l"
    then obtain ps ss where l: "?l = ps @ ?m @ ss" by (auto simp: sublist_def)
    then have "length ps + length ?m \<le> n" by (metis imageBytes_length length_append le_add1 add.assoc)
    moreover have "take (length ?m) (drop (length ps) ?l) = ?m" by (simp add: l)
    ultimately show "\<exists>i. i + length ?m \<le> n \<and> take (length ?m) (drop i ?l) = ?m" by blast
  next
    assume "\<exists>i. i + length ?m \<le> n \<and> take (length ?m) (drop i ?l) = ?m"
    then obtain i where i: "take (length ?m) (drop i ?l) = ?m" by blast
    have "?l = take i ?l @ take (length ?m) (drop i ?l) @ drop (length ?m) (drop i ?l)"
      by (metis append_take_drop_id)
    then show "sublist ?m ?l" unfolding i by (metis sublist_appendI)
  qed
  moreover have "otaMarkerFound img sz \<longleftrightarrow> (\<exists>i. i + length ?m \<le> n \<and> otaMarkerAt img i)"
    using pos by (auto simp: otaMarkerFound_def list_ex_iff assms less_diff_conv less_Suc_eq_le)
  ultimately show ?thesis using at by auto
qed


section \<open>The checks decide the format\<close>

lemma image_size_iff:
  fixes mx :: u32 and bw :: u64
  defines "sz \<equiv> mx - OtaFlashBase + 1"
  shows "0x2000 < sz \<and> sz \<le> OtaImageMax \<and> bw = ucast sz \<longleftrightarrow>
    0x2000 < unat bw \<and> unat bw \<le> 0x3C0000 \<and> unat mx + 1 = 0x60000000 + unat bw"
    (is "?L \<longleftrightarrow> ?R")
proof
  assume ?L
  then have b: "0x2000 < unat sz" "unat sz \<le> 0x3C0000" "unat bw = unat sz"
    by (simp_all add: word_less_nat_alt word_le_nat_alt)
  have "mx + 1 = OtaFlashBase + sz" by (simp add: sz_def)
  moreover have "unat (OtaFlashBase + sz) = 0x60000000 + unat sz"
    using b by (subst unat_add_no_wrap) simp_all
  ultimately have "unat (mx + 1) = 0x60000000 + unat sz" by simp
  then have "(unat mx + 1) mod 4294967296 = 0x60000000 + unat sz" by (simp add: unat_word_ariths)
  moreover have "unat mx + 1 \<le> 4294967296" using word_size_bounds(3) [of mx] by linarith
  ultimately have "unat mx + 1 = 0x60000000 + unat sz"
    using b by (cases "unat mx + 1 = 4294967296") simp_all
  then show ?R using b by simp
next
  assume R: ?R
  then have "unat (mx - OtaFlashBase) = unat bw - 1" by (subst unat_sub_no_wrap) auto
  then have "unat sz = unat bw" using R unfolding sz_def by (subst unat_add_no_wrap) auto
  then show ?L using R by (simp add: word_less_nat_alt word_le_nat_alt word_unat_eq_iff)
qed

lemma verify_checks:
  assumes "unat sz = n" "0x2000 < n" "n \<le> 0x3C0000"
  shows "otaReadU32 img 0 = 0x42464346 \<longleftrightarrow> wordAt (imageBytes img n) 0 = 0x42464346"
    and "otaReadU32 img 0x50 = 0x00800000 \<longleftrightarrow> wordAt (imageBytes img n) 0x50 = 0x00800000"
    and "otaReadU32 img 0x1000 AND 0x00FFFFFF = 0x002000D1 \<longleftrightarrow>
           wordAt (imageBytes img n) 0x1000 mod 0x1000000 = 0x2000D1"
    and "drop_bit 24 (otaReadU32 img 0x1000) AND 0xF0 = 0x40 \<longleftrightarrow>
           unat (imageBytes img n ! 0x1003) div 16 = 4"
    and "otaReadU32 img 0x1004 AND 1 \<noteq> 0 \<longleftrightarrow> odd (wordAt (imageBytes img n) 0x1004)"
    and "otaReadU32 img 0x1004 AND 1 \<noteq> 0 \<Longrightarrow>
         otaReadU32 img 0x1004 AND NOT 1 < OtaFlashBase
           \<or> otaReadU32 img 0x1004 AND NOT 1 \<ge> OtaFlashBase + sz \<longleftrightarrow>
         \<not> (0x60000000 < wordAt (imageBytes img n) 0x1004
             \<and> wordAt (imageBytes img n) 0x1004 \<le> 0x60000000 + n)"
    and "otaReadU32 img 0x1014 = OtaFlashBase + 0x1000 \<longleftrightarrow>
           wordAt (imageBytes img n) 0x1014 = 0x60001000"
    and "otaReadU32 img 0x1010 < OtaFlashBase \<or> otaReadU32 img 0x1010 - OtaFlashBase > sz - 12 \<longleftrightarrow>
         \<not> (0x60000000 \<le> wordAt (imageBytes img n) 0x1010
             \<and> wordAt (imageBytes img n) 0x1010 + 12 \<le> 0x60000000 + n)"
proof -
  have rd: "unat (otaReadU32 img off) = wordAt (imageBytes img n) (unat off)"
    if "unat off \<le> 0x1014" for off
    using that assms(2) by (intro unat_otaReadU32) simp
  show "otaReadU32 img 0 = 0x42464346 \<longleftrightarrow> wordAt (imageBytes img n) 0 = 0x42464346"
    "otaReadU32 img 0x50 = 0x00800000 \<longleftrightarrow> wordAt (imageBytes img n) 0x50 = 0x00800000"
    "otaReadU32 img 0x1014 = OtaFlashBase + 0x1000 \<longleftrightarrow>
       wordAt (imageBytes img n) 0x1014 = 0x60001000"
    by (simp_all add: word_unat_eq_iff rd const_defs)
  show "otaReadU32 img 0x1000 AND 0x00FFFFFF = 0x002000D1 \<longleftrightarrow>
      wordAt (imageBytes img n) 0x1000 mod 0x1000000 = 0x2000D1"
    "drop_bit 24 (otaReadU32 img 0x1000) AND 0xF0 = 0x40 \<longleftrightarrow>
      unat (imageBytes img n ! 0x1003) div 16 = 4"
    by (simp_all only: ivt_tag ivt_version) (simp_all add: rd wordAt_top del: imageBytes_nth)
  show odd: "otaReadU32 img 0x1004 AND 1 \<noteq> 0 \<longleftrightarrow> odd (wordAt (imageBytes img n) 0x1004)"
    by (simp add: word_unat_eq_iff unat_and_1 rd odd_iff_mod_2_eq_one)
  show "otaReadU32 img 0x1004 AND NOT 1 < OtaFlashBase
        \<or> otaReadU32 img 0x1004 AND NOT 1 \<ge> OtaFlashBase + sz \<longleftrightarrow>
      \<not> (0x60000000 < wordAt (imageBytes img n) 0x1004
          \<and> wordAt (imageBytes img n) 0x1004 \<le> 0x60000000 + n)"
    if "otaReadU32 img 0x1004 AND 1 \<noteq> 0"
  proof -
    have o: "odd (unat (otaReadU32 img 0x1004))" using that odd by (simp add: rd)
    then have "1 \<le> unat (otaReadU32 img 0x1004)" by (cases "unat (otaReadU32 img 0x1004)") auto
    then have "unat (otaReadU32 img 0x1004 AND NOT 1) = unat (otaReadU32 img 0x1004) - 1"
      by (simp only: and_not_one_odd [OF o]) (simp add: unat_sub_no_wrap)
    moreover have "unat (OtaFlashBase + sz) = 0x60000000 + n"
      using assms by (subst unat_add_no_wrap) simp_all
    moreover have "unat (otaReadU32 img 0x1004) = wordAt (imageBytes img n) 0x1004" by (simp add: rd)
    ultimately show ?thesis
      using \<open>1 \<le> unat (otaReadU32 img 0x1004)\<close> by (simp add: word_less_nat_alt word_le_nat_alt) linarith
  qed
  have "unat (sz - 12) = n - 12" using assms by (subst unat_sub_no_wrap) simp_all
  moreover have "unat (otaReadU32 img 0x1010 - OtaFlashBase) = wordAt (imageBytes img n) 0x1010 - 0x60000000"
    if "0x60000000 \<le> wordAt (imageBytes img n) 0x1010"
    using that by (subst unat_sub_no_wrap) (simp_all add: rd)
  ultimately show "otaReadU32 img 0x1010 < OtaFlashBase
      \<or> otaReadU32 img 0x1010 - OtaFlashBase > sz - 12 \<longleftrightarrow>
    \<not> (0x60000000 \<le> wordAt (imageBytes img n) 0x1010
        \<and> wordAt (imageBytes img n) 0x1010 + 12 \<le> 0x60000000 + n)"
    using assms(2) by (auto simp: word_less_nat_alt rd not_less)
qed

lemma verify_image_iff:
  "otaVerifyImage img mn mx bw eof = None \<longleftrightarrow>
     eof \<and> mn = OtaFlashBase \<and> unat mx + 1 = unat OtaFlashBase + unat bw
     \<and> validImage (imageBytes img (unat bw))"
proof (cases "eof \<and> mn = OtaFlashBase \<and> 0x2000 < mx - OtaFlashBase + 1
    \<and> mx - OtaFlashBase + 1 \<le> OtaImageMax \<and> bw = ucast (mx - OtaFlashBase + 1)")
  case False
  have "otaVerifyImage img mn mx bw eof \<noteq> None"
    using False by (auto simp: otaVerifyImage_def Let_def not_less)
  moreover have "\<not> (eof \<and> mn = OtaFlashBase \<and> unat mx + 1 = unat OtaFlashBase + unat bw
      \<and> validImage (imageBytes img (unat bw)))"
    using False image_size_iff [of mx bw] by (auto simp: validImage_def)
  ultimately show ?thesis by blast
next
  case True
  define sz where "sz = mx - OtaFlashBase + 1"
  define n where "n = unat bw"
  have s: "0x2000 < sz" "sz \<le> OtaImageMax" "bw = ucast sz" using True by (simp_all add: sz_def)
  then have n: "0x2000 < n" "n \<le> 0x3C0000" "unat mx + 1 = 0x60000000 + n"
    using image_size_iff [of mx bw] by (simp_all add: sz_def n_def)
  have szn: "unat sz = n" using s by (simp add: n_def)
  note chk = verify_checks [OF szn n(1,2), of img]
  let ?l = "imageBytes img n"
  define bd where "bd = otaReadU32 img 0x1010 - OtaFlashBase"
  have bdn: "unat bd = wordAt ?l 0x1010 - 0x60000000 \<and> wordAt ?l 0x1010 - 0x60000000 + 12 \<le> n"
    if "0x60000000 \<le> wordAt ?l 0x1010 \<and> wordAt ?l 0x1010 + 12 \<le> 0x60000000 + n"
    using that n unat_otaReadU32 [of "0x1010" n img] by (simp add: bd_def unat_sub_no_wrap) linarith
  have bdr: "otaReadU32 img bd = OtaFlashBase \<longleftrightarrow> wordAt ?l (wordAt ?l 0x1010 - 0x60000000) = 0x60000000"
    "otaReadU32 img (bd + 4) = sz \<longleftrightarrow> wordAt ?l (wordAt ?l 0x1010 - 0x60000000 + 4) = n"
    "otaReadU32 img (bd + 8) = 0 \<longleftrightarrow> wordAt ?l (wordAt ?l 0x1010 - 0x60000000 + 8) = 0"
    if "0x60000000 \<le> wordAt ?l 0x1010 \<and> wordAt ?l 0x1010 + 12 \<le> 0x60000000 + n"
  proof -
    note b = bdn [OF that]
    have "unat (bd + 4) = unat bd + 4" "unat (bd + 8) = unat bd + 8"
      using b n by (subst unat_add_no_wrap; simp)+
    then show "otaReadU32 img bd = OtaFlashBase \<longleftrightarrow> wordAt ?l (wordAt ?l 0x1010 - 0x60000000) = 0x60000000"
      "otaReadU32 img (bd + 4) = sz \<longleftrightarrow> wordAt ?l (wordAt ?l 0x1010 - 0x60000000 + 4) = n"
      "otaReadU32 img (bd + 8) = 0 \<longleftrightarrow> wordAt ?l (wordAt ?l 0x1010 - 0x60000000 + 8) = 0"
      using unat_otaReadU32 [of bd n img] unat_otaReadU32 [of "bd + 4" n img]
        unat_otaReadU32 [of "bd + 8" n img] b szn
      by (simp_all add: word_unat_eq_iff)
  qed
  have "otaVerifyImage img mn mx bw eof = None \<longleftrightarrow>
    otaReadU32 img 0 = 0x42464346 \<and> otaReadU32 img 0x50 = 0x00800000
    \<and> otaReadU32 img 0x1000 AND 0x00FFFFFF = 0x002000D1
    \<and> drop_bit 24 (otaReadU32 img 0x1000) AND 0xF0 = 0x40
    \<and> otaReadU32 img 0x1004 AND 1 \<noteq> 0
    \<and> \<not> (otaReadU32 img 0x1004 AND NOT 1 < OtaFlashBase
          \<or> otaReadU32 img 0x1004 AND NOT 1 \<ge> OtaFlashBase + sz)
    \<and> otaReadU32 img 0x1014 = OtaFlashBase + 0x1000
    \<and> \<not> (otaReadU32 img 0x1010 < OtaFlashBase \<or> otaReadU32 img 0x1010 - OtaFlashBase > sz - 12)
    \<and> otaReadU32 img bd = OtaFlashBase \<and> otaReadU32 img (bd + 4) = sz \<and> otaReadU32 img (bd + 8) = 0
    \<and> otaMarkerFound img sz"
    using True s unfolding otaVerifyImage_def Let_def sz_def [symmetric] bd_def [symmetric]
    by (auto simp: not_less not_le)
  also have "\<dots> \<longleftrightarrow> validImage ?l"
    unfolding validImage_def Let_def otaMarkerFound_iff [OF szn] imageBytes_length
    using chk bdr n(1,2) by blast
  finally show ?thesis using True n by (simp add: n_def)
qed

text \<open>The format is inhabited: a minimal image with the boot headers in place.\<close>

definition exampleImage :: "byte list" where
  "exampleImage =
     [0x46, 0x43, 0x46, 0x42] @ replicate 0x4C 0 @ [0, 0, 0x80, 0] @ OTA_PROJECT_MARKER
       @ replicate 0xF9B 0
       @ [0xD1, 0, 0x20, 0x43] @ [0x01, 0x20, 0, 0x60] @ replicate 8 0
       @ [0x20, 0x10, 0, 0x60] @ [0, 0x10, 0, 0x60] @ replicate 8 0
       @ [0, 0, 0, 0x60] @ [0x04, 0x20, 0, 0] @ [0, 0, 0, 0] @ replicate 0xFD8 0"

lemma exampleImage_valid: "validImage exampleImage"
proof -
  have len: "length exampleImage = 0x2004" by (simp add: exampleImage_def OTA_PROJECT_MARKER_def)
  have w: "wordAt exampleImage 0 = 0x42464346" "wordAt exampleImage 0x50 = 0x00800000"
    "wordAt exampleImage 0x1000 = 0x432000D1" "exampleImage ! 0x1003 = 0x43"
    "wordAt exampleImage 0x1004 = 0x60002001"
    "wordAt exampleImage 0x1010 = 0x60001020" "wordAt exampleImage 0x1014 = 0x60001000"
    "wordAt exampleImage 0x1020 = 0x60000000" "wordAt exampleImage 0x1024 = 0x2004"
    "wordAt exampleImage 0x1028 = 0"
    by (simp_all add: wordAt_def exampleImage_def OTA_PROJECT_MARKER_def nth_append nth_Cons')
  have "exampleImage = ([0x46, 0x43, 0x46, 0x42] @ replicate 0x4C 0 @ [0, 0, 0x80, 0])
      @ OTA_PROJECT_MARKER @ drop 0x65 exampleImage"
    by (simp add: exampleImage_def OTA_PROJECT_MARKER_def del: replicate.simps)
  then have "sublist OTA_PROJECT_MARKER exampleImage" by (metis sublist_appendI)
  then show ?thesis by (simp add: validImage_def Let_def len w)
qed

text \<open>C31: the verification accepts exactly the well-formed images of this firmware. The boot-data
  record it trusts lies inside the image whatever the pointer (no wrap-around), the image is dense
  and starts at the flash base, and the verdict depends on no byte outside the image.\<close>

theorem verify_accepts_exactly_valid_images:
  "otaVerifyImage img mn mx bw eof = None \<longleftrightarrow>
     eof \<and> mn = OtaFlashBase \<and> unat mx + 1 = unat OtaFlashBase + unat bw
     \<and> validImage (imageBytes img (unat bw))"
  by (rule verify_image_iff)

end
