(* ===== verification/Flash_Ota.thy ===== *)
theory Flash_Ota
  imports Ota_Verify
begin

text \<open>
  \<open>src/src/flash_ota.cpp\<close>: the flash primitives of the update and the copy-down of a verified
  image. The Teensy core's \<open>eepromemu_flash_write\<close> and \<open>eepromemu_flash_erase_sector\<close> and the
  memory-mapped reads are parameters (\<open>FlashPrims\<close>), over a device state of any type, so that a
  primitive may fail silently and differently each time. \<open>flash_device\<close> says only that a
  primitive leaves alone what it is not aimed at; \<open>working_flash\<close> adds that it does its job (a
  program of one page, an erase of one sector). Watchdog kicks and interrupt masking are register
  writes and are left out; the chip reset that ends a successful commit is the result
  \<open>ResetChip\<close>. Loop counters are natural numbers: every bound of the loops is at most
  \<open>OtaImageMax\<close> plus a sector, far below the wrap-around of the source's unsigned counters.
\<close>

record 'd FlashPrims =
  fpRead :: "'d \<Rightarrow> u32 \<Rightarrow> byte"
  fpErase :: "u32 \<Rightarrow> 'd \<Rightarrow> 'd"
  fpWrite :: "u32 \<Rightarrow> byte list \<Rightarrow> 'd \<Rightarrow> 'd"

definition otaFlashEraseSectorHW :: "'d FlashPrims \<Rightarrow> u32 \<Rightarrow> 'd \<Rightarrow> 'd" where
  "otaFlashEraseSectorHW P addr d = fpErase P addr d"

definition pageSpace :: "u32 \<Rightarrow> nat" where
  "pageSpace addr = unat (256 - (addr AND 255))"

lemma pageSpace_eq: "pageSpace addr = 256 - unat addr mod 256"
  by (simp add: pageSpace_def unat_sub_no_wrap unat_and_255)

lemma pageSpace_pos: "0 < pageSpace addr"
  by (simp add: pageSpace_eq)

function otaFlashWriteHW :: "'d FlashPrims \<Rightarrow> u32 \<Rightarrow> byte list \<Rightarrow> 'd \<Rightarrow> 'd" where
  "otaFlashWriteHW P addr data d =
     (if data = [] then d
      else let n = min (length data) (pageSpace addr) in
        otaFlashWriteHW P (addr + of_nat n) (drop n data) (fpWrite P addr (take n data) d))"
  by pat_completeness auto
termination
  by (relation "measure (\<lambda>(P, addr, data, d). length data)") (auto simp: pageSpace_pos)

declare otaFlashWriteHW.simps [simp del]

definition sectorNotErased :: "'d FlashPrims \<Rightarrow> u32 \<Rightarrow> 'd \<Rightarrow> bool" where
  "sectorNotErased P addr d =
     list_ex (\<lambda>i. otaReadU32 (fpRead P d) (addr + of_nat (4 * i)) \<noteq> 0xFFFFFFFF)
       [0..<unat OtaSectorSize div 4]"

text \<open>The values of a loop counter that starts at 0, steps by \<open>k\<close> and stays below \<open>n\<close>.\<close>

definition steps :: "nat \<Rightarrow> nat \<Rightarrow> nat list" where
  "steps k n = map (\<lambda>i. k * i) [0..<(n + k - 1) div k]"

definition readRange :: "'d FlashPrims \<Rightarrow> u32 \<Rightarrow> nat \<Rightarrow> 'd \<Rightarrow> byte list" where
  "readRange P addr n d = map (\<lambda>i. fpRead P d (addr + of_nat i)) [0..<n]"

definition flashCrc :: "'d FlashPrims \<Rightarrow> u32 \<Rightarrow> nat \<Rightarrow> 'd \<Rightarrow> u32" where
  "flashCrc P addr len d =
     fold (\<lambda>off crc. otaCrc32Update crc
              (readRange P (addr + of_nat off) (min (len - off) 256) d))
       (steps 256 len) 0xFFFFFFFF XOR 0xFFFFFFFF"

section \<open>Commit\<close>

definition copyPage :: "'d FlashPrims \<Rightarrow> nat \<Rightarrow> nat \<Rightarrow> nat \<Rightarrow> 'd \<Rightarrow> 'd" where
  "copyPage P off secLen p d =
     fpWrite P (OtaFlashBase + of_nat (off + p))
       (readRange P (OtaBufferBase + of_nat (off + p)) (min (secLen - p) 256) d) d"

definition copySector :: "'d FlashPrims \<Rightarrow> nat \<Rightarrow> nat \<Rightarrow> 'd \<Rightarrow> 'd" where
  "copySector P imageSize off d =
     (let dst = OtaFlashBase + of_nat off;
          d1 = (if sectorNotErased P dst d then fpErase P dst d else d);
          secLen = min (imageSize - off) (unat OtaSectorSize)
      in fold (copyPage P off secLen) (steps 256 secLen) d1)"

definition copyImage :: "'d FlashPrims \<Rightarrow> nat \<Rightarrow> 'd \<Rightarrow> 'd" where
  "copyImage P imageSize d = fold (copySector P imageSize) (steps (unat OtaSectorSize) imageSize) d"

definition wipeImage :: "'d FlashPrims \<Rightarrow> nat \<Rightarrow> 'd \<Rightarrow> 'd" where
  "wipeImage P imageSize d =
     fold (\<lambda>off. fpErase P (OtaFlashBase + of_nat off)) (steps (unat OtaSectorSize) imageSize) d"

text \<open>The attempts that are left, the current one included; the wipe is skipped after the last.\<close>

fun commitAttempts :: "'d FlashPrims \<Rightarrow> nat \<Rightarrow> u32 \<Rightarrow> nat \<Rightarrow> 'd \<Rightarrow> bool \<times> 'd" where
  "commitAttempts P imageSize expectedCrc 0 d = (False, d)"
| "commitAttempts P imageSize expectedCrc (Suc k) d =
     (let d1 = copyImage P imageSize d in
      if flashCrc P OtaFlashBase imageSize d1 = expectedCrc then (True, d1)
      else commitAttempts P imageSize expectedCrc k
             (if k > 0 then wipeImage P imageSize d1 else d1))"

definition MaxAttempts :: nat where "MaxAttempts = 3"

definition EepromBase :: u32 where [const_defs]: "EepromBase = 0x607C0000"

definition wipeStart :: "u32 \<Rightarrow> u32" where
  "wipeStart imageSize =
     (OtaFlashBase + imageSize + OtaSectorSize - 1) AND NOT (OtaSectorSize - 1)"

definition wipeAbove :: "'d FlashPrims \<Rightarrow> u32 \<Rightarrow> 'd \<Rightarrow> 'd" where
  "wipeAbove P imageSize d =
     fold (\<lambda>i d. let a = wipeStart imageSize + of_nat i in
                  if sectorNotErased P a d then fpErase P a d else d)
       (steps (unat OtaSectorSize) (unat EepromBase - unat (wipeStart imageSize))) d"

datatype CommitOutcome = CommitFailed | ResetChip

definition otaFlashCommit :: "'d FlashPrims \<Rightarrow> u32 \<Rightarrow> u32 \<Rightarrow> 'd \<Rightarrow> CommitOutcome \<times> 'd" where
  "otaFlashCommit P imageSize expectedCrc d =
     (let (copied, d1) = commitAttempts P (unat imageSize) expectedCrc MaxAttempts d in
      if \<not> copied then (CommitFailed, d1)
      else (ResetChip, wipeAbove P imageSize d1))"

section \<open>Loop counters\<close>

lemma steps_count: "0 < k \<Longrightarrow> i < (n + k - 1) div k \<longleftrightarrow> k * i < n" for k :: nat
  using less_eq_div_iff_mult_less_eq [of k "Suc i" "n + k - 1"] by (auto simp: mult.commute)

text \<open>Induction along a counted loop.\<close>

lemma fold_steps:
  assumes "0 < k" "Q 0 d" "\<And>i d. k * i < n \<Longrightarrow> Q i d \<Longrightarrow> Q (Suc i) (g (k * i) d)"
  shows "Q ((n + k - 1) div k) (fold g (steps k n) d)"
proof -
  have "m \<le> (n + k - 1) div k \<Longrightarrow> Q m (fold g (map (\<lambda>i. k * i) [0..<m]) d)" for m
  proof (induction m)
    case (Suc m)
    then have "k * m < n" using steps_count [OF assms(1), of m n] by simp
    with Suc show ?case using assms(3) by simp
  qed (simp add: assms(2))
  then show ?thesis by (simp add: steps_def)
qed

lemma steps_end: "0 < k \<Longrightarrow> n \<le> k * ((n + k - 1) div k)" for k :: nat
  using steps_count [of k "(n + k - 1) div k" n] by linarith

lemma readRange_length [simp]: "length (readRange P a n d) = n"
  by (simp add: readRange_def)

lemma readRange_nth [simp]: "i < n \<Longrightarrow> readRange P a n d ! i = fpRead P d (a + of_nat i)"
  by (simp add: readRange_def)

lemma readRange_append:
  "m \<le> n \<Longrightarrow> readRange P a n d = readRange P a m d @ readRange P (a + of_nat m) (n - m) d"
proof -
  assume "m \<le> n"
  have "of_nat m + of_nat (i - m) = (of_nat i :: u32)" if "m \<le> i" for i
    using that by (metis le_add_diff_inverse of_nat_add)
  then show ?thesis
    using \<open>m \<le> n\<close> by (intro nth_equalityI) (auto simp: nth_append add.assoc)
qed

text \<open>The chunked CRC is the CRC of the range.\<close>

lemma flashCrc_eq: "flashCrc P a len d = otaCrc32 (readRange P a len d)"
proof -
  let ?c = "\<lambda>i crc. crc = otaCrc32Update 0xFFFFFFFF (readRange P a (min len (256 * i)) d)"
  have "?c ((len + 256 - 1) div 256)
    (fold (\<lambda>off crc. otaCrc32Update crc (readRange P (a + of_nat off) (min (len - off) 256) d))
      (steps 256 len) 0xFFFFFFFF)"
  proof (rule fold_steps)
    fix i crc
    assume i: "256 * i < len" and "?c i crc"
    moreover have "readRange P a (min len (256 * Suc i)) d
        = readRange P a (256 * i) d @ readRange P (a + of_nat (256 * i)) (min (len - 256 * i) 256) d"
      using i by (subst readRange_append [of "256 * i"]) (auto simp: min_def)
    ultimately show "?c (Suc i) (otaCrc32Update crc
        (readRange P (a + of_nat (256 * i)) (min (len - 256 * i) 256) d))"
      by (simp only: otaCrc32Update_append) (simp add: min_def)
  qed (simp_all add: readRange_def)
  moreover have "min len (256 * ((len + 256 - 1) div 256)) = len"
    using steps_end [of 256 len] by simp
  ultimately show ?thesis by (simp add: flashCrc_def otaCrc32_def)
qed

lemma word_ff_iff: "unat (otaReadU32 img off) = 0xFFFFFFFF \<longleftrightarrow>
    img off = 0xFF \<and> img (off + 1) = 0xFF \<and> img (off + 2) = 0xFF \<and> img (off + 3) = 0xFF"
proof -
  have b: "unat (img off) \<le> 255" "unat (img (off + 1)) \<le> 255" "unat (img (off + 2)) \<le> 255"
    "unat (img (off + 3)) \<le> 255"
    using word_size_bounds(1) [of "img off"] word_size_bounds(1) [of "img (off + 1)"]
      word_size_bounds(1) [of "img (off + 2)"] word_size_bounds(1) [of "img (off + 3)"] by linarith+
  have ff: "(x :: byte) = 0xFF \<longleftrightarrow> unat x = 255" for x by (simp add: word_unat_eq_iff)
  show ?thesis
    unfolding otaReadU32_def unat_le4 ff using b by linarith
qed

lemma sectorNotErased_iff:
  "\<not> sectorNotErased P a d \<longleftrightarrow> (\<forall>i < 4096. fpRead P d (a + of_nat i) = 0xFF)"
proof -
  have eq: "(otaReadU32 img off \<noteq> 0xFFFFFFFF) = (\<not> (img off = 0xFF \<and> img (off + 1) = 0xFF
      \<and> img (off + 2) = 0xFF \<and> img (off + 3) = 0xFF))" for img off
    unfolding word_ff_iff [symmetric] by (simp add: word_unat_eq_iff)
  have split: "(\<forall>i < 4096. Q i) \<longleftrightarrow> (\<forall>j < 1024. Q (4 * j) \<and> Q (4 * j + 1) \<and> Q (4 * j + 2) \<and> Q (4 * j + 3))"
    for Q :: "nat \<Rightarrow> bool"
  proof
    assume Q: "\<forall>j < 1024. Q (4 * j) \<and> Q (4 * j + 1) \<and> Q (4 * j + 2) \<and> Q (4 * j + 3)"
    show "\<forall>i < 4096. Q i"
    proof (intro allI impI)
      fix i :: nat
      assume "i < 4096"
      then have "i div 4 < 1024" by auto
      moreover have "i = 4 * (i div 4) \<or> i = 4 * (i div 4) + 1 \<or> i = 4 * (i div 4) + 2
          \<or> i = 4 * (i div 4) + 3" by arith
      ultimately show "Q i" using Q by metis
    qed
  qed auto
  show ?thesis
    unfolding split by (auto simp: sectorNotErased_def list_ex_iff eq ac_simps)
qed

section \<open>What the primitives leave alone\<close>

definition sameOutside :: "'d FlashPrims \<Rightarrow> nat \<Rightarrow> nat \<Rightarrow> 'd \<Rightarrow> 'd \<Rightarrow> bool" where
  "sameOutside P lo hi d d' \<longleftrightarrow>
     (\<forall>x. unat x < lo \<or> hi \<le> unat x \<longrightarrow> fpRead P d' x = fpRead P d x)"

lemma sameOutside_refl [simp]: "sameOutside P lo hi d d"
  by (simp add: sameOutside_def)

lemma sameOutside_trans:
  "sameOutside P lo hi d d1 \<Longrightarrow> sameOutside P lo hi d1 d2 \<Longrightarrow> sameOutside P lo hi d d2"
  by (simp add: sameOutside_def)

lemma sameOutside_mono:
  "sameOutside P lo hi d d1 \<Longrightarrow> lo' \<le> lo \<Longrightarrow> hi \<le> hi' \<Longrightarrow> sameOutside P lo' hi' d d1"
  by (auto simp: sameOutside_def)

lemma sameOutside_readRange:
  "sameOutside P lo hi d d' \<Longrightarrow> (\<And>i. i < n \<Longrightarrow> unat (a + of_nat i) < lo \<or> hi \<le> unat (a + of_nat i))
     \<Longrightarrow> readRange P a n d' = readRange P a n d"
  unfolding readRange_def sameOutside_def
  by (rule map_cong [OF refl]) (metis atLeastLessThan_iff set_upt)

lemma dst_addr: "i < 0x400000 \<Longrightarrow> unat (OtaFlashBase + of_nat i) = 0x60000000 + i"
  by (subst unat_add_no_wrap) (simp_all add: unat_of_nat)

lemma src_addr: "i < 0x400000 \<Longrightarrow> unat (OtaBufferBase + of_nat i) = 0x60400000 + i"
  by (subst unat_add_no_wrap) (simp_all add: unat_of_nat)

text \<open>The end of the last sector an image of this size occupies.\<close>

definition sectorTop :: "nat \<Rightarrow> nat" where
  "sectorTop n = 4096 * ((n + 4095) div 4096)"

lemma sectorTop_ge: "n \<le> sectorTop n"
  using steps_end [of 4096 n] by (simp add: sectorTop_def)

lemma sectorTop_le: "n \<le> 0x3C0000 \<Longrightarrow> sectorTop n \<le> 0x3C0000"
  using div_le_mono [of "n + 4095" "0x3C0000 + 4095" 4096] by (simp add: sectorTop_def)

lemma sectorTop_step: "4096 * i < n \<Longrightarrow> 4096 * i + 4096 \<le> sectorTop n"
proof -
  assume "4096 * i < n"
  then have "Suc i \<le> (n + 4095) div 4096" using steps_count [of 4096 i n] by simp
  then have "4096 * Suc i \<le> 4096 * ((n + 4095) div 4096)" by (rule mult_le_mono2)
  then show ?thesis by (simp add: sectorTop_def)
qed

locale flash_device =
  fixes P :: "'d FlashPrims"
  assumes erase_frame:
      "4096 dvd unat a \<Longrightarrow> unat x < unat a \<or> unat a + 4096 \<le> unat x \<Longrightarrow>
         fpRead P (fpErase P a d) x = fpRead P d x"
    and write_frame:
      "unat a mod 256 + length pg \<le> 256 \<Longrightarrow> unat x < unat a \<or> unat a + length pg \<le> unat x \<Longrightarrow>
         fpRead P (fpWrite P a pg d) x = fpRead P d x"
begin

lemma erase_same:
  assumes "4096 dvd unat a" "lo \<le> unat a" "unat a + 4096 \<le> hi"
  shows "sameOutside P lo hi d (fpErase P a d)"
  using assms erase_frame by (auto simp: sameOutside_def)

lemma write_same:
  assumes "unat a mod 256 + length pg \<le> 256" "lo \<le> unat a" "unat a + length pg \<le> hi"
  shows "sameOutside P lo hi d (fpWrite P a pg d)"
  using assms write_frame by (auto simp: sameOutside_def)

lemma copyPage_same:
  assumes "4096 * k + 4096 \<le> 0x3C0000" "256 * j < secLen" "secLen \<le> 4096"
  shows "sameOutside P (0x60000000 + 4096 * k) (0x60000000 + 4096 * k + 4096) d
           (copyPage P (4096 * k) secLen (256 * j) d)"
proof -
  have a: "unat (OtaFlashBase + of_nat (4096 * k + 256 * j)) = 0x60000000 + (4096 * k + 256 * j)"
    using assms by (intro dst_addr) simp
  have "0x60000000 + (4096 * k + 256 * j) = 256 * (0x600000 + 16 * k + j)" by simp
  then have m: "(0x60000000 + (4096 * k + 256 * j)) mod 256 = 0" by (metis mod_mult_self1_is_0)
  show ?thesis
    unfolding copyPage_def by (rule write_same; unfold a m; use assms in simp)
qed

lemma sector_aligned:
  assumes "4096 * k + 4096 \<le> 0x3C0000"
  shows "unat (OtaFlashBase + of_nat (4096 * k)) = 0x60000000 + 4096 * k"
    and "4096 dvd unat (OtaFlashBase + of_nat (4096 * k))"
proof -
  show "unat (OtaFlashBase + of_nat (4096 * k)) = 0x60000000 + 4096 * k"
    using assms by (intro dst_addr) simp
  moreover have "0x60000000 + 4096 * k = 4096 * (0x60000 + k)" by simp
  ultimately show "4096 dvd unat (OtaFlashBase + of_nat (4096 * k))" by (metis dvd_triv_left)
qed

lemma copySector_same:
  assumes "4096 * k + 4096 \<le> 0x3C0000"
  shows "sameOutside P (0x60000000 + 4096 * k) (0x60000000 + 4096 * k + 4096) d
           (copySector P n (4096 * k) d)"
proof -
  let ?same = "sameOutside P (0x60000000 + 4096 * k) (0x60000000 + 4096 * k + 4096)"
  define secLen where "secLen = min (n - 4096 * k) 4096"
  define d1 where "d1 = (if sectorNotErased P (OtaFlashBase + of_nat (4096 * k)) d
    then fpErase P (OtaFlashBase + of_nat (4096 * k)) d else d)"
  have "?same d (fold (copyPage P (4096 * k) secLen) (steps 256 secLen) d1)"
  proof (rule fold_steps [where Q = "\<lambda>i. ?same d"])
    show "?same d d1"
      using sector_aligned [OF assms] by (auto simp: d1_def intro!: erase_same)
    show "?same d (copyPage P (4096 * k) secLen (256 * i) d')"
      if "256 * i < secLen" "?same d d'" for i d'
      using copyPage_same [OF assms that(1)] that(2) by (auto simp: secLen_def intro: sameOutside_trans)
  qed simp
  then show ?thesis unfolding copySector_def Let_def ota_unat_consts secLen_def d1_def .
qed

lemma copyImage_same:
  assumes "n \<le> 0x3C0000"
  shows "sameOutside P 0x60000000 (0x60000000 + sectorTop n) d (copyImage P n d)"
  unfolding copyImage_def ota_unat_consts
proof (rule fold_steps [where Q = "\<lambda>i. sameOutside P 0x60000000 (0x60000000 + sectorTop n) d"])
  fix i d'
  assume i: "4096 * i < n" and same: "sameOutside P 0x60000000 (0x60000000 + sectorTop n) d d'"
  have "4096 * i + 4096 \<le> sectorTop n" by (rule sectorTop_step [OF i])
  with sectorTop_le [OF assms] copySector_same [of i d' n]
  show "sameOutside P 0x60000000 (0x60000000 + sectorTop n) d (copySector P n (4096 * i) d')"
    by (intro sameOutside_trans [OF same]) (auto intro: sameOutside_mono)
qed simp_all

lemma wipeImage_same:
  assumes "n \<le> 0x3C0000"
  shows "sameOutside P 0x60000000 (0x60000000 + sectorTop n) d (wipeImage P n d)"
  unfolding wipeImage_def ota_unat_consts
proof (rule fold_steps [where Q = "\<lambda>i. sameOutside P 0x60000000 (0x60000000 + sectorTop n) d"])
  fix i d'
  assume i: "4096 * i < n" and same: "sameOutside P 0x60000000 (0x60000000 + sectorTop n) d d'"
  have le: "4096 * i + 4096 \<le> sectorTop n" by (rule sectorTop_step [OF i])
  with sectorTop_le [OF assms] have "4096 * i + 4096 \<le> 0x3C0000" by linarith
  from sector_aligned [OF this] le
  show "sameOutside P 0x60000000 (0x60000000 + sectorTop n) d
      (fpErase P (OtaFlashBase + of_nat (4096 * i)) d')"
    by (intro sameOutside_trans [OF same] erase_same) auto
qed simp_all

text \<open>All attempts together: what they leave alone, and what their verdict means. After the last
  failed attempt the copied image is still in place: it is not wiped.\<close>

lemma commitAttempts_spec:
  assumes "n \<le> 0x3C0000" "commitAttempts P n crc k d = (ok, d')"
  shows "sameOutside P 0x60000000 (0x60000000 + sectorTop n) d d'
    \<and> (ok \<longrightarrow> otaCrc32 (readRange P OtaFlashBase n d') = crc)
    \<and> (\<not> ok \<and> 0 < k \<longrightarrow> otaCrc32 (readRange P OtaFlashBase n d') \<noteq> crc
         \<and> (\<exists>d0. d' = copyImage P n d0))"
  using assms(2)
proof (induction k arbitrary: d)
  case (Suc k)
  let ?same = "sameOutside P 0x60000000 (0x60000000 + sectorTop n)"
  define d1 where "d1 = copyImage P n d"
  define d2 where "d2 = (if k > 0 then wipeImage P n d1 else d1)"
  have s1: "?same d d1" unfolding d1_def by (rule copyImage_same [OF assms(1)])
  have s2: "?same d d2"
    using sameOutside_trans [OF s1 wipeImage_same [OF assms(1)]] s1 by (simp add: d2_def)
  have run: "commitAttempts P n crc (Suc k) d =
      (if flashCrc P OtaFlashBase n d1 = crc then (True, d1) else commitAttempts P n crc k d2)"
    by (simp add: d1_def d2_def Let_def)
  show ?case
  proof (cases "flashCrc P OtaFlashBase n d1 = crc")
    case True
    then have "ok" "d' = d1" using run Suc.prems by auto
    then show ?thesis using s1 True by (simp add: flashCrc_eq)
  next
    case False
    then have rest: "commitAttempts P n crc k d2 = (ok, d')" using run Suc.prems by simp
    note ih = Suc.IH [OF rest]
    have "?same d d'" using sameOutside_trans [OF s2] ih by blast
    moreover have "d' = d1 \<and> \<not> ok" if "k = 0" using rest that by (simp add: d2_def)
    ultimately show ?thesis using ih False by (cases "k = 0") (auto simp: flashCrc_eq d1_def)
  qed
qed simp

end

section \<open>The wipe above the image\<close>

lemma unat_and_not_mask: "unat (x AND NOT (mask n)) = unat x - unat x mod 2 ^ n" for x :: u32
proof -
  have "(x AND NOT (mask n)) + (x AND mask n) = x"
    by (subst disjunctive_add_eq_or) (rule bit_word_eqI; auto simp: bit_simps)+
  then have "x AND NOT (mask n) = x - (x AND mask n)" by (metis add_diff_cancel_right')
  then show ?thesis by (simp add: unat_sub_no_wrap unat_and_mask)
qed

lemma unat_wipeStart:
  assumes "unat sz \<le> 0x3C0000"
  shows "unat (wipeStart sz) = 0x60000000 + sectorTop (unat sz)"
proof -
  have e: "OtaFlashBase + sz + OtaSectorSize - 1 = OtaFlashBase + of_nat (unat sz + 4095)"
    by (simp add: OtaSectorSize_def)
  have "unat (OtaFlashBase + of_nat (unat sz + 4095)) = 0x60000000 + (unat sz + 4095)"
    using assms by (intro dst_addr) simp
  moreover have "OtaSectorSize - 1 = mask 12" by (simp add: OtaSectorSize_def mask_eq_exp_minus_1)
  ultimately have "unat (wipeStart sz) = 0x60000000 + (unat sz + 4095) - (0x60000000 + (unat sz + 4095)) mod 4096"
    unfolding wipeStart_def e by (simp only: unat_and_not_mask) simp
  also have "0x60000000 + (unat sz + 4095) = (unat sz + 4095) + 4096 * 0x60000" by simp
  finally show ?thesis
    by (simp only: mod_mult_self2) (simp add: sectorTop_def minus_mod_eq_mult_div [symmetric])
qed

lemma wipeAbove_loop:
  assumes "unat sz \<le> 0x3C0000" "4096 * i < unat EepromBase - unat (wipeStart sz)"
  shows "unat (wipeStart sz + of_nat (4096 * i)) = unat (wipeStart sz) + 4096 * i"
    and "4096 dvd unat (wipeStart sz + of_nat (4096 * i))"
    and "unat (wipeStart sz) + 4096 * i + 4096 \<le> unat EepromBase"
proof -
  have e: "unat EepromBase = 4096 * 0x607C0" by (simp add: EepromBase_def)
  have w: "unat (wipeStart sz) = 4096 * (0x60000 + (unat sz + 4095) div 4096)"
    by (simp add: unat_wipeStart [OF assms(1)] sectorTop_def)
  have "unat (of_nat (4096 * i) :: u32) = 4096 * i"
    using assms(2) e by (simp add: unat_of_nat del: of_nat_mult)
  then show a: "unat (wipeStart sz + of_nat (4096 * i)) = unat (wipeStart sz) + 4096 * i"
    using assms(2) e by (subst unat_add_no_wrap) simp_all
  show "4096 dvd unat (wipeStart sz + of_nat (4096 * i))"
    unfolding a w by (intro dvd_add dvd_triv_left)
  have "4096 * i < 4096 * (0x607C0 - (0x60000 + (unat sz + 4095) div 4096))"
    using assms(2) unfolding e w by (simp only: diff_mult_distrib2)
  then have "0x60000 + (unat sz + 4095) div 4096 + i + 1 \<le> 0x607C0" by simp
  then have "4096 * (0x60000 + (unat sz + 4095) div 4096 + i + 1) \<le> 4096 * 0x607C0"
    by (rule mult_le_mono2)
  then show "unat (wipeStart sz) + 4096 * i + 4096 \<le> unat EepromBase"
    unfolding e w by (simp only: distrib_left mult_1_right)
qed

context flash_device
begin

lemma wipeAbove_same:
  assumes "unat sz \<le> 0x3C0000"
  shows "sameOutside P (0x60000000 + sectorTop (unat sz)) (unat EepromBase) d (wipeAbove P sz d)"
  unfolding wipeAbove_def ota_unat_consts
proof (rule fold_steps [where Q = "\<lambda>i. sameOutside P (0x60000000 + sectorTop (unat sz)) (unat EepromBase) d"])
  fix i d'
  assume i: "4096 * i < unat EepromBase - unat (wipeStart sz)"
    and same: "sameOutside P (0x60000000 + sectorTop (unat sz)) (unat EepromBase) d d'"
  note a = wipeAbove_loop [OF assms i]
  have "sameOutside P (0x60000000 + sectorTop (unat sz)) (unat EepromBase) d'
      (fpErase P (wipeStart sz + of_nat (4096 * i)) d')"
    using a unat_wipeStart [OF assms] by (intro erase_same) linarith+
  then show "sameOutside P (0x60000000 + sectorTop (unat sz)) (unat EepromBase) d
      (let a = wipeStart sz + of_nat (4096 * i) in if sectorNotErased P a d' then fpErase P a d' else d')"
    using same by (auto simp: Let_def intro: sameOutside_trans)
qed simp_all

end

section \<open>Primitives that work\<close>

locale working_flash = flash_device +
  assumes erase_works:
      "4096 dvd unat a \<Longrightarrow> unat a \<le> unat x \<and> unat x < unat a + 4096 \<Longrightarrow>
         fpRead P (fpErase P a d) x = 0xFF"
    and write_works:
      "unat a mod 256 + length pg \<le> 256 \<Longrightarrow> unat a \<le> unat x \<and> unat x < unat a + length pg \<Longrightarrow>
         fpRead P (fpWrite P a pg d) x = fpRead P d x AND pg ! (unat x - unat a)"
begin

lemma ensure_erased:
  assumes "4096 dvd unat a" "unat a + 4096 \<le> 0x100000000" "i < 4096"
  shows "fpRead P (if sectorNotErased P a d then fpErase P a d else d) (a + of_nat i) = 0xFF"
proof (cases "sectorNotErased P a d")
  case True
  have "unat (a + of_nat i) = unat a + i"
    using assms by (subst unat_add_no_wrap) (simp_all add: unat_of_nat)
  then show ?thesis using True assms by (simp add: erase_works)
next
  case False
  then show ?thesis using sectorNotErased_iff [of P a d] assms(3) by auto
qed

lemma copySector_works:
  assumes "4096 * k + 4096 \<le> 0x3C0000" "i < min (n - 4096 * k) 4096"
  shows "fpRead P (copySector P n (4096 * k) d) (OtaFlashBase + of_nat (4096 * k + i))
           = fpRead P d (OtaBufferBase + of_nat (4096 * k + i))"
proof -
  let ?lo = "0x60000000 + 4096 * k"
  define secLen where "secLen = min (n - 4096 * k) 4096"
  define a where "a = OtaFlashBase + of_nat (4096 * k)"
  define d1 where "d1 = (if sectorNotErased P a d then fpErase P a d else d)"
  define Q where "Q m d' \<longleftrightarrow> sameOutside P ?lo (?lo + 4096) d d' \<and>
    (\<forall>i < 4096. fpRead P d' (a + of_nat i) =
       (if i < min secLen (256 * m) then fpRead P d (OtaBufferBase + of_nat (4096 * k + i)) else 0xFF))"
    for m d'
  note al = sector_aligned [OF assms(1), folded a_def]
  have at: "unat (a + of_nat i) = ?lo + i" if "i < 4096" for i
  proof -
    have e: "a + of_nat i = OtaFlashBase + of_nat (4096 * k + i)" by (simp add: a_def add.assoc)
    have "4096 * k + i < 0x400000" using assms(1) that by simp
    from dst_addr [OF this] show ?thesis unfolding e by simp
  qed
  have "Q ((secLen + 256 - 1) div 256) (fold (copyPage P (4096 * k) secLen) (steps 256 secLen) d1)"
  proof (rule fold_steps [of 256 Q])
    have "sameOutside P ?lo (?lo + 4096) d d1"
      using al by (auto simp: d1_def intro!: erase_same)
    moreover have "fpRead P d1 (a + of_nat i) = 0xFF" if "i < 4096" for i
      unfolding d1_def by (rule ensure_erased) (use al assms(1) that in auto)
    ultimately show "Q 0 d1" by (simp add: Q_def)
    fix m d'
    assume m: "256 * m < secLen" and q: "Q m d'"
    define w where "w = min (secLen - 256 * m) 256"
    define pg where "pg = readRange P (OtaBufferBase + of_nat (4096 * k + 256 * m)) w d'"
    have le: "secLen \<le> 4096" by (simp add: secLen_def)
    have w: "0 < w" "256 * m + w \<le> 4096" "w \<le> 256" using m le by (auto simp: w_def)
    have pa: "unat (a + of_nat (256 * m)) = ?lo + 256 * m"
      using at [of "256 * m"] m le by (simp del: of_nat_mult)
    have "?lo + 256 * m = 256 * (0x600000 + 16 * k + m)" by simp
    then have fits: "unat (a + of_nat (256 * m)) mod 256 + length pg \<le> 256"
      unfolding pa using w by (metis add_0 mod_mult_self1_is_0 pg_def readRange_length)
    have pgi: "pg ! i = fpRead P d (OtaBufferBase + of_nat (4096 * k + (256 * m + i)))"
      if "i < w" for i
    proof -
      have lt: "4096 * k + (256 * m + i) < 0x400000" using that w assms(1) by linarith
      have "pg ! i = fpRead P d' (OtaBufferBase + of_nat (4096 * k + (256 * m + i)))"
        using that by (simp add: pg_def ac_simps)
      also have "\<dots> = fpRead P d (OtaBufferBase + of_nat (4096 * k + (256 * m + i)))"
        using q src_addr [OF lt] assms(1) by (simp add: Q_def sameOutside_def del: of_nat_add of_nat_mult)
      finally show ?thesis .
    qed
    have cp: "copyPage P (4096 * k) secLen (256 * m) d' = fpWrite P (a + of_nat (256 * m)) pg d'"
      by (simp add: copyPage_def a_def pg_def w_def add.assoc)
    have "sameOutside P ?lo (?lo + 4096) d (copyPage P (4096 * k) secLen (256 * m) d')"
      using copyPage_same [OF assms(1) m le] q by (auto simp: Q_def intro: sameOutside_trans)
    moreover have "fpRead P (fpWrite P (a + of_nat (256 * m)) pg d') (a + of_nat i) =
       (if i < min secLen (256 * Suc m) then fpRead P d (OtaBufferBase + of_nat (4096 * k + i)) else 0xFF)"
      if i: "i < 4096" for i
    proof (cases "256 * m \<le> i \<and> i < 256 * m + w")
      case True
      have "fpRead P (fpWrite P (a + of_nat (256 * m)) pg d') (a + of_nat i)
          = fpRead P d' (a + of_nat i) AND pg ! (i - 256 * m)"
        using write_works [OF fits, of "a + of_nat i" d'] True at [OF i] pa
        by (simp add: pg_def del: of_nat_mult)
      moreover have "fpRead P d' (a + of_nat i) = 0xFF" using q i True by (simp add: Q_def)
      moreover have lt: "i - 256 * m < w" "256 * m + (i - 256 * m) = i" using True by linarith+
      moreover have "i < min secLen (256 * Suc m)" using True by (auto simp: w_def)
      ultimately show ?thesis using pgi [OF lt(1)] by simp
    next
      case False
      then have "fpRead P (fpWrite P (a + of_nat (256 * m)) pg d') (a + of_nat i) = fpRead P d' (a + of_nat i)"
        using write_frame [OF fits, of "a + of_nat i" d'] at [OF i] pa
        by (auto simp: pg_def simp del: of_nat_mult)
      moreover have "i < min secLen (256 * Suc m) \<longleftrightarrow> i < min secLen (256 * m)"
        using False m by (auto simp: w_def)
      ultimately show ?thesis using q i by (simp add: Q_def)
    qed
    ultimately show "Q (Suc m) (copyPage P (4096 * k) secLen (256 * m) d')" by (simp add: Q_def cp)
  qed simp
  then have "Q ((secLen + 256 - 1) div 256) (copySector P n (4096 * k) d)"
    unfolding copySector_def Let_def ota_unat_consts secLen_def d1_def a_def .
  moreover have "i < min secLen (256 * ((secLen + 256 - 1) div 256))"
    using assms(2) steps_end [of 256 secLen] by (simp add: secLen_def)
  ultimately have "fpRead P (copySector P n (4096 * k) d) (a + of_nat i)
      = fpRead P d (OtaBufferBase + of_nat (4096 * k + i))"
    using assms(2) by (simp add: Q_def)
  then show ?thesis by (simp add: a_def add.assoc)
qed

lemma copyImage_works:
  assumes "n \<le> 0x3C0000" "i < n"
  shows "fpRead P (copyImage P n d) (OtaFlashBase + of_nat i) = fpRead P d (OtaBufferBase + of_nat i)"
proof -
  define Q where "Q m d' \<longleftrightarrow> sameOutside P 0x60000000 (0x60000000 + sectorTop n) d d' \<and>
    (\<forall>i < min n (4096 * m).
       fpRead P d' (OtaFlashBase + of_nat i) = fpRead P d (OtaBufferBase + of_nat i))" for m d'
  have "Q ((n + 4096 - 1) div 4096) (fold (copySector P n) (steps 4096 n) d)"
  proof (rule fold_steps [of 4096 Q])
    show "Q 0 d" by (simp add: Q_def)
    fix m d'
    assume m: "4096 * m < n" and q: "Q m d'"
    have top: "4096 * m + 4096 \<le> sectorTop n" by (rule sectorTop_step [OF m])
    with sectorTop_le [OF assms(1)] have le: "4096 * m + 4096 \<le> 0x3C0000" by linarith
    have same: "sameOutside P (0x60000000 + 4096 * m) (0x60000000 + 4096 * m + 4096) d'
        (copySector P n (4096 * m) d')" by (rule copySector_same [OF le])
    have "fpRead P (copySector P n (4096 * m) d') (OtaFlashBase + of_nat i)
        = fpRead P d (OtaBufferBase + of_nat i)" if i: "i < min n (4096 * Suc m)" for i
    proof -
      have lt: "i < 0x400000" using i assms(1) by simp
      show ?thesis
      proof (cases "i < 4096 * m")
        case True
        then have "fpRead P (copySector P n (4096 * m) d') (OtaFlashBase + of_nat i)
            = fpRead P d' (OtaFlashBase + of_nat i)"
          using same dst_addr [OF lt] by (simp add: sameOutside_def)
        then show ?thesis using q i True by (simp add: Q_def)
      next
        case False
        define j where "j = i - 4096 * m"
        have ij: "i = 4096 * m + j" using False by (simp add: j_def)
        have "j < min (n - 4096 * m) 4096" using i ij by auto
        from copySector_works [OF le this, of d']
        have "fpRead P (copySector P n (4096 * m) d') (OtaFlashBase + of_nat i)
            = fpRead P d' (OtaBufferBase + of_nat i)" unfolding ij .
        also have "\<dots> = fpRead P d (OtaBufferBase + of_nat i)"
          using q src_addr [OF lt] sectorTop_le [OF assms(1)] by (simp add: Q_def sameOutside_def)
        finally show ?thesis .
      qed
    qed
    moreover have "sameOutside P 0x60000000 (0x60000000 + sectorTop n) d (copySector P n (4096 * m) d')"
    proof (rule sameOutside_trans)
      show "sameOutside P 0x60000000 (0x60000000 + sectorTop n) d d'" using q by (simp add: Q_def)
      show "sameOutside P 0x60000000 (0x60000000 + sectorTop n) d' (copySector P n (4096 * m) d')"
        by (rule sameOutside_mono [OF same]) (use top in simp_all)
    qed
    ultimately show "Q (Suc m) (copySector P n (4096 * m) d')" by (simp add: Q_def)
  qed simp
  moreover have "i < min n (4096 * ((n + 4096 - 1) div 4096))"
    using assms(2) steps_end [of 4096 n] by simp
  ultimately show ?thesis by (simp add: Q_def copyImage_def)
qed

lemma commitAttempts_works:
  assumes "n \<le> 0x3C0000" "otaCrc32 (readRange P OtaBufferBase n d) = crc"
  shows "commitAttempts P n crc (Suc k) d = (True, copyImage P n d)"
proof -
  have "readRange P OtaFlashBase n (copyImage P n d) = readRange P OtaBufferBase n d"
    using copyImage_works [OF assms(1)] by (simp add: readRange_def)
  then show ?thesis using assms(2) by (simp add: Let_def flashCrc_eq)
qed

lemma wipeAbove_works:
  assumes "unat sz \<le> 0x3C0000"
    and "0x60000000 + sectorTop (unat sz) \<le> unat x" "unat x < unat EepromBase"
  shows "fpRead P (wipeAbove P sz d) x = 0xFF"
proof -
  let ?w = "unat (wipeStart sz)"
  define Q where "Q m d' \<longleftrightarrow> (\<forall>x. ?w \<le> unat x \<and> unat x < ?w + 4096 * m \<longrightarrow> fpRead P d' x = 0xFF)"
    for m d'
  have "Q ((unat EepromBase - ?w + 4096 - 1) div 4096) (wipeAbove P sz d)"
    unfolding wipeAbove_def ota_unat_consts
  proof (rule fold_steps [of 4096 Q])
    fix m d'
    assume m: "4096 * m < unat EepromBase - ?w" and q: "Q m d'"
    define a where "a = wipeStart sz + of_nat (4096 * m)"
    define d2 where "d2 = (if sectorNotErased P a d' then fpErase P a d' else d')"
    note l = wipeAbove_loop [OF assms(1) m, folded a_def]
    have top: "unat a + 4096 \<le> 0x100000000" using l(1,3) by (simp add: EepromBase_def)
    have same: "sameOutside P (unat a) (unat a + 4096) d' d2"
      using l by (auto simp: d2_def intro!: erase_same)
    have "fpRead P d2 x = 0xFF" if x: "?w \<le> unat x" "unat x < ?w + 4096 * Suc m" for x
    proof (cases "unat x < ?w + 4096 * m")
      case True
      then show ?thesis using same q x l(1) by (simp add: sameOutside_def Q_def)
    next
      case False
      define j where "j = unat x - unat a"
      have j: "j < 4096" "unat x = unat a + j" using False x l(1) by (auto simp: j_def)
      have "unat (a + of_nat j) = unat a + j"
        using j(1) top by (subst unat_add_no_wrap) (simp_all add: unat_of_nat)
      then have "x = a + of_nat j" using j(2) by (simp add: word_unat_eq_iff)
      then show ?thesis using ensure_erased [OF l(2) top j(1), of d'] by (simp add: d2_def)
    qed
    then have "Q (Suc m) d2" by (simp add: Q_def)
    then show "Q (Suc m) (let a = wipeStart sz + of_nat (4096 * m) in
        if sectorNotErased P a d' then fpErase P a d' else d')"
      unfolding d2_def a_def Let_def .
  qed (auto simp: Q_def)
  moreover have "unat EepromBase - ?w \<le> 4096 * ((unat EepromBase - ?w + 4096 - 1) div 4096)"
    by (rule steps_end) simp
  ultimately show ?thesis
    using assms unat_wipeStart [OF assms(1)] by (auto simp: Q_def)
qed

end

section \<open>The hardware as the ingest's flash\<close>

text \<open>A memory-mapped flash: reading is looking at the address.\<close>

locale mapped_flash = working_flash P for P :: "flash FlashPrims" +
  assumes read_mapped: "fpRead P d = d"
begin

text \<open>Splitting at the page boundaries programs the whole range.\<close>

lemma otaFlashWriteHW_works:
  assumes "unat a + length data \<le> 0x100000000"
  shows "otaFlashWriteHW P a data d x =
       (if unat a \<le> unat x \<and> unat x < unat a + length data
        then d x AND data ! (unat x - unat a) else d x)"
  using assms
proof (induction "length data" arbitrary: a data d rule: less_induct)
  case less
  define n where "n = min (length data) (pageSpace a)"
  define d1 where "d1 = fpWrite P a (take n data) d"
  show ?case
  proof (cases "data = []")
    case True
    then show ?thesis by (auto simp: otaFlashWriteHW.simps)
  next
    case False
    have n: "0 < n" "n \<le> length data" using False pageSpace_pos by (simp_all add: n_def)
    have rec: "otaFlashWriteHW P a data d = otaFlashWriteHW P (a + of_nat n) (drop n data) d1"
      using False by (subst otaFlashWriteHW.simps) (simp add: Let_def n_def d1_def)
    have fits: "unat a mod 256 + length (take n data) \<le> 256"
    proof -
      have "unat a mod 256 < 256" by simp
      then show ?thesis by (simp add: n_def pageSpace_eq)
    qed
    have d1: "d1 x = (if unat a \<le> unat x \<and> unat x < unat a + n
        then d x AND data ! (unat x - unat a) else d x)"
      using write_works [OF fits, of x d] write_frame [OF fits, of x d] n(2)
      by (auto simp: d1_def read_mapped min_def)
    show ?thesis
    proof (cases "n = length data")
      case True
      then show ?thesis using d1 by (simp add: rec otaFlashWriteHW.simps [of P _ "[]"])
    next
      case False
      then have lt: "n < length data" using n(2) by simp
      then have a: "unat (a + of_nat n) = unat a + n"
        using less.prems by (subst unat_add_no_wrap) (simp_all add: unat_of_nat)
      have ih: "otaFlashWriteHW P (a + of_nat n) (drop n data) d1 x =
         (if unat a + n \<le> unat x \<and> unat x < unat a + n + length (drop n data)
          then d1 x AND drop n data ! (unat x - (unat a + n)) else d1 x)"
        using less.hyps [of "drop n data" "a + of_nat n" d1] n lt less.prems a by simp
      consider "unat x < unat a + n" | "unat a + n \<le> unat x" by linarith
      then show ?thesis
      proof cases
        case 1
        then show ?thesis using lt by (simp add: rec ih d1)
      next
        case 2
        then show ?thesis using lt by (simp add: rec ih d1 add.commute)
      qed
    qed
  qed
qed

end

definition hwOps :: "flash FlashPrims \<Rightarrow> OtaFlashOps" where
  "hwOps P = \<lparr>eraseSector = otaFlashEraseSectorHW P, writeFlash = otaFlashWriteHW P\<rparr>"

context mapped_flash
begin

lemma hwOps_staging: "staging_flash (hwOps P)"
proof unfold_locales
  show "eraseSector (hwOps P) a f x = (if unat a \<le> unat x \<and> unat x < unat a + 4096 then 0xFF else f x)"
    if "inBuffer a 4096" "4096 dvd unat a" for a f x
    using erase_works [OF that(2), of x f] erase_frame [OF that(2), of x f]
    by (auto simp: hwOps_def otaFlashEraseSectorHW_def read_mapped)
  show "writeFlash (hwOps P) a d f x =
      (if unat a \<le> unat x \<and> unat x < unat a + length d then f x AND d ! (unat x - unat a) else f x)"
    if "inBuffer a (length d)" "length d \<le> 255" for a d f x
    using that by (subst otaFlashWriteHW_works [symmetric]) (auto simp: hwOps_def inBuffer_def)
qed

end

sublocale mapped_flash \<subseteq> staging_flash "hwOps P"
  by (rule hwOps_staging)

text \<open>The reference flash as the primitives' device.\<close>

definition norPrims :: "flash FlashPrims" where
  "norPrims = \<lparr>fpRead = (\<lambda>d. d), fpErase = norErase, fpWrite = norProgram\<rparr>"

interpretation norHW: mapped_flash norPrims
  by unfold_locales (auto simp: norPrims_def norErase_def norProgram_def)

lemma commit_installs:
  assumes "working_flash P" "unat sz \<le> unat OtaImageMax"
    and "otaCrc32 (readRange P OtaBufferBase (unat sz) d) = crc"
  shows "\<exists>d'. otaFlashCommit P sz crc d = (ResetChip, d')
    \<and> readRange P OtaFlashBase (unat sz) d' = readRange P OtaBufferBase (unat sz) d
    \<and> (\<forall>x. unat OtaFlashBase + sectorTop (unat sz) \<le> unat x \<and> unat x < unat EepromBase
           \<longrightarrow> fpRead P d' x = 0xFF)
    \<and> (\<forall>x. unat EepromBase \<le> unat x \<longrightarrow> fpRead P d' x = fpRead P d x)"
proof -
  have n: "unat sz \<le> 0x3C0000" using assms(2) by simp
  have dev: "flash_device P" using assms(1) by (simp add: working_flash_def)
  define d1 where "d1 = copyImage P (unat sz) d"
  define d' where "d' = wipeAbove P sz d1"
  have "commitAttempts P (unat sz) crc (Suc 2) d = (True, d1)"
    unfolding d1_def by (rule working_flash.commitAttempts_works [OF assms(1) n assms(3)])
  then have run: "otaFlashCommit P sz crc d = (ResetChip, d')"
    by (simp add: otaFlashCommit_def MaxAttempts_def d'_def numeral_3_eq_3)
  have same: "sameOutside P (0x60000000 + sectorTop (unat sz)) (unat EepromBase) d1 d'"
    unfolding d'_def by (rule flash_device.wipeAbove_same [OF dev n])
  have "readRange P OtaFlashBase (unat sz) d' = readRange P OtaFlashBase (unat sz) d1"
  proof (rule sameOutside_readRange [OF same])
    fix i
    assume "i < unat sz"
    then show "unat (OtaFlashBase + of_nat i) < 0x60000000 + sectorTop (unat sz)
        \<or> unat EepromBase \<le> unat (OtaFlashBase + of_nat i)"
      using dst_addr [of i] n sectorTop_ge [of "unat sz"] by simp
  qed
  also have "\<dots> = readRange P OtaBufferBase (unat sz) d"
    using working_flash.copyImage_works [OF assms(1) n] by (simp add: readRange_def d1_def)
  finally have copy: "readRange P OtaFlashBase (unat sz) d' = readRange P OtaBufferBase (unat sz) d" .
  have "fpRead P d' x = fpRead P d x" if "unat EepromBase \<le> unat x" for x
    using same flash_device.copyImage_same [OF dev n, of d] sectorTop_le [OF n] that
    by (auto simp: sameOutside_def d1_def EepromBase_def)
  moreover have "fpRead P d' x = 0xFF"
    if "unat OtaFlashBase + sectorTop (unat sz) \<le> unat x" "unat x < unat EepromBase" for x
    unfolding d'_def by (rule working_flash.wipeAbove_works [OF assms(1) n]) (use that in simp_all)
  ultimately show ?thesis using run copy by blast
qed

section \<open>Properties\<close>

text \<open>C11: the copy-down never ends in a blank or foreign image it calls good, whatever the flash
  primitives fail to do (as long as they touch only what they are aimed at). If the commit resets
  the chip, the base image has the CRC of the image that was verified. If it gives up, it has not
  reset, the staged image and everything else above the image's sectors are as they were, and
  the last attempt's copy is left in place, not wiped.\<close>

theorem commit_resets_only_into_verified_image:
  assumes "flash_device P" "unat sz \<le> unat OtaImageMax"
    and "otaFlashCommit P sz crc d = (outcome, d')"
  shows "(outcome = ResetChip \<longrightarrow> otaCrc32 (readRange P OtaFlashBase (unat sz) d') = crc)
    \<and> (outcome = CommitFailed \<longrightarrow>
         otaCrc32 (readRange P OtaFlashBase (unat sz) d') \<noteq> crc
       \<and> (\<exists>d0. d' = copyImage P (unat sz) d0)
       \<and> (\<forall>x. unat OtaFlashBase + sectorTop (unat sz) \<le> unat x \<longrightarrow> fpRead P d' x = fpRead P d x))
    \<and> (\<forall>x. unat x < unat OtaFlashBase \<or> unat EepromBase \<le> unat x \<longrightarrow> fpRead P d' x = fpRead P d x)"
proof -
  have n: "unat sz \<le> 0x3C0000" using assms(2) by simp
  obtain ok d1 where run: "commitAttempts P (unat sz) crc 3 d = (ok, d1)" by fastforce
  note at = flash_device.commitAttempts_spec [OF assms(1) n run]
  have top: "0x60000000 + sectorTop (unat sz) \<le> 0x603C0000" using sectorTop_le [OF n] by simp
  show ?thesis
  proof (cases ok)
    case True
    have out: "outcome = ResetChip" "d' = wipeAbove P sz d1"
      using assms(3) run True by (simp_all add: otaFlashCommit_def MaxAttempts_def)
    have same: "sameOutside P (0x60000000 + sectorTop (unat sz)) (unat EepromBase) d1 d'"
      unfolding out by (rule flash_device.wipeAbove_same [OF assms(1) n])
    have "readRange P OtaFlashBase (unat sz) d' = readRange P OtaFlashBase (unat sz) d1"
    proof (rule sameOutside_readRange [OF same])
      fix i
      assume "i < unat sz"
      then show "unat (OtaFlashBase + of_nat i) < 0x60000000 + sectorTop (unat sz)
          \<or> unat EepromBase \<le> unat (OtaFlashBase + of_nat i)"
        using dst_addr [of i] n sectorTop_ge [of "unat sz"] by simp
    qed
    then have "otaCrc32 (readRange P OtaFlashBase (unat sz) d') = crc" using at True by simp
    moreover have "fpRead P d' x = fpRead P d x"
      if "unat x < unat OtaFlashBase \<or> unat EepromBase \<le> unat x" for x
      using same conjunct1 [OF at] that top by (auto simp: sameOutside_def EepromBase_def)
    ultimately show ?thesis using out(1) by blast
  next
    case False
    then have out: "outcome = CommitFailed" "d' = d1"
      using assms(3) run by (simp_all add: otaFlashCommit_def MaxAttempts_def)
    show ?thesis
      using at False top unfolding out by (auto simp: sameOutside_def EepromBase_def)
  qed
qed

text \<open>A flash whose program and erase operations do nothing: every operation fails silently.\<close>

definition stuckPrims :: "flash FlashPrims" where
  "stuckPrims = \<lparr>fpRead = (\<lambda>d. d), fpErase = (\<lambda>a d. d), fpWrite = (\<lambda>a pg d. d)\<rparr>"

lemma stuck_device: "flash_device stuckPrims"
  by unfold_locales (simp_all add: stuckPrims_def)

lemma stuck_fold: "fold (copySector stuckPrims n) xs d = d"
proof -
  have p: "fold (copyPage stuckPrims off l) ys d = d" for off l ys
    by (induction ys) (simp_all add: copyPage_def stuckPrims_def)
  then have "copySector stuckPrims n off d = d" for off
    by (simp add: copySector_def Let_def) (simp add: stuckPrims_def)
  then show ?thesis by (induction xs) simp_all
qed

lemma commit_resets_only_into_verified_image_witness:
  "fst (otaFlashCommit stuckPrims 1 0 (\<lambda>_. 7)) = CommitFailed
   \<and> otaCrc32 (readRange stuckPrims OtaFlashBase (unat (1 :: u32))
        (snd (otaFlashCommit stuckPrims 1 0 (\<lambda>_. 7)))) \<noteq> 0"
proof -
  have "fold (\<lambda>off. fpErase stuckPrims (OtaFlashBase + of_nat off)) xs d = d" for xs d
    by (induction xs) (simp_all add: stuckPrims_def)
  then have wipe: "wipeImage stuckPrims n d = d" for n d by (simp add: wipeImage_def)
  have "otaCrc32 [7] \<noteq> 0" by code_simp
  then have "flashCrc stuckPrims OtaFlashBase 1 (\<lambda>_. 7) \<noteq> 0"
    by (simp add: flashCrc_eq readRange_def stuckPrims_def)
  then have r: "otaFlashCommit stuckPrims 1 0 (\<lambda>_. 7) = (CommitFailed, \<lambda>_. 7)"
    by (simp add: otaFlashCommit_def MaxAttempts_def numeral_3_eq_3 Let_def copyImage_def stuck_fold wipe)
  show ?thesis
    using commit_resets_only_into_verified_image [OF stuck_device _ r] by (simp add: r)
qed

text \<open>With primitives that do their job, the commit of a staged image whose read-back CRC is
  the expected one always succeeds: the base image becomes a byte-for-byte copy of the staged one,
  everything from the image's last sector up to the EEPROM reserve is blank, the reserve is
  untouched, and the chip is reset.\<close>

theorem commit_installs_staged_image:
  assumes "working_flash P" "unat sz \<le> unat OtaImageMax"
    and "otaCrc32 (readRange P OtaBufferBase (unat sz) d) = crc"
  shows "\<exists>d'. otaFlashCommit P sz crc d = (ResetChip, d')
    \<and> readRange P OtaFlashBase (unat sz) d' = readRange P OtaBufferBase (unat sz) d
    \<and> (\<forall>x. unat OtaFlashBase + sectorTop (unat sz) \<le> unat x \<and> unat x < unat EepromBase
           \<longrightarrow> fpRead P d' x = 0xFF)
    \<and> (\<forall>x. unat EepromBase \<le> unat x \<longrightarrow> fpRead P d' x = fpRead P d x)"
  using assms by (rule commit_installs)

lemma commit_installs_staged_image_witness:
  "\<exists>d'. otaFlashCommit norPrims 3 (otaCrc32 [5, 5, 5]) (\<lambda>_. 5) = (ResetChip, d')
    \<and> readRange norPrims OtaFlashBase (unat (3 :: u32)) d' = [5, 5, 5]"
proof -
  have r: "readRange norPrims OtaBufferBase (unat (3 :: u32)) (\<lambda>_. 5) = [5, 5, 5]"
    by (simp add: readRange_def norPrims_def upt_conv_Cons)
  have "otaCrc32 (readRange norPrims OtaBufferBase (unat (3 :: u32)) (\<lambda>_. 5)) = otaCrc32 [5, 5, 5]"
    by (simp only: r)
  from commit_installs_staged_image [OF norHW.working_flash_axioms _ this] show ?thesis
    unfolding r by auto
qed

end
