(* ===== verification/Ota.thy ===== *)
theory Ota
  imports Flash_Ota
begin

text \<open>
  \<open>src/src/ota.cpp\<close>: the two-phase update. \<open>OtaState\<close> holds the file's static variables, plus
  \<open>safeState\<close>, set when \<open>enterOtaSafeState\<close> has run (the outputs are masked until a reboot).
  The request body arrives as a list of read results with the time of each; the body having
  stopped for good (the end of the list) ends in the stall timeout. Logging and the progress
  callback are left out. One pass of \<open>loop()\<close> (\<open>otaPass\<close>) handles at most one request and then
  runs \<open>otaLoopTask\<close>, as \<open>src/src/main.cpp\<close> orders them.
\<close>

record OtaState =
  ing :: OtaIngest
  otaActive :: bool
  otaVerified :: bool
  verifiedSize :: u32
  verifiedCrc :: u32
  otaLastErr :: string
  commitPending :: bool
  rebootPending :: bool
  safeState :: bool

definition otaBoot :: OtaState where
  "otaBoot = \<lparr>ing = otaIngestInit, otaActive = False, otaVerified = False, verifiedSize = 0,
     verifiedCrc = 0, otaLastErr = '''', commitPending = False, rebootPending = False,
     safeState = False\<rparr>"

definition otaReleaseEnabled :: bool where "otaReleaseEnabled = True"

definition otaImageSize :: "OtaState \<Rightarrow> u32" where
  "otaImageSize st =
     (if otaVerified st then verifiedSize st
      else if maxAddr (ing st) \<ge> minAddr (ing st) \<and> bytesWritten (ing st) > 0
      then maxAddr (ing st) - OtaFlashBase + 1 else 0)"

datatype ReadEvent = ReadByte u32 char | ReadIdle u32

definition stallError :: string where
  "stallError = ''upload stalled before Content-Length bytes arrived''"

fun otaReadLoop :: "OtaFlashOps \<Rightarrow> u32 \<Rightarrow> ReadEvent list \<Rightarrow> u32 \<Rightarrow> u32 \<Rightarrow> OtaIngest \<Rightarrow> flash
    \<Rightarrow> bool \<times> OtaIngest \<times> flash" where
  "otaReadLoop ops expected [] received lastMs s f =
     (if received < expected then (False, s\<lparr>ingError := Some stallError\<rparr>, f) else (True, s, f))"
| "otaReadLoop ops expected (ReadIdle now # es) received lastMs s f =
     (if received < expected then
        if now - lastMs > 5000 then (False, s\<lparr>ingError := Some stallError\<rparr>, f)
        else otaReadLoop ops expected es received lastMs s f
      else (True, s, f))"
| "otaReadLoop ops expected (ReadByte now c # es) received lastMs s f =
     (if received < expected then
        case otaFeedByte s c ops f of
          (True, s', f') \<Rightarrow> otaReadLoop ops expected es (received + 1) now s' f'
        | (False, s', f') \<Rightarrow> (False, s', f')
      else (True, s, f))"

definition stagedImage :: "flash FlashPrims \<Rightarrow> flash \<Rightarrow> u32 \<Rightarrow> byte" where
  "stagedImage P f off = fpRead P f (OtaBufferBase + off)"

text \<open>Receiving the body, the read-back checks on the staged image, and the whole handler.\<close>

definition otaReceive :: "OtaFlashOps \<Rightarrow> u32 \<Rightarrow> u32 \<Rightarrow> ReadEvent list \<Rightarrow> flash
    \<Rightarrow> bool \<times> OtaIngest \<times> flash" where
  "otaReceive ops expectedBytes now es f =
     (let (streamOk, s1, f1) = otaReadLoop ops expectedBytes es 0 now otaIngestInit f
      in if streamOk then otaIngestFinish s1 ops f1 else (False, s1, f1))"

definition otaStagedSize :: "OtaIngest \<Rightarrow> u32" where
  "otaStagedSize s = maxAddr s - OtaFlashBase + 1"

definition otaStagedVerdict :: "(u32 \<Rightarrow> byte) \<Rightarrow> OtaIngest \<Rightarrow> string option" where
  "otaStagedVerdict staged s =
     (case otaVerifyImage staged (minAddr s) (maxAddr s) (bytesWritten s) (ingEofSeen s) of
        None \<Rightarrow> otaVerifyStagedCrc staged (otaStagedSize s) (otaIngestCrc s)
      | Some e \<Rightarrow> Some e)"

definition otaIngestStream :: "flash FlashPrims \<Rightarrow> u32 \<Rightarrow> u32 \<Rightarrow> ReadEvent list \<Rightarrow> OtaState \<Rightarrow> flash
    \<Rightarrow> bool \<times> OtaState \<times> flash" where
  "otaIngestStream P expectedBytes now es st f =
     (if \<not> otaReleaseEnabled
      then (False, st\<lparr>otaLastErr := ''OTA disabled in production build''\<rparr>, f)
      else if expectedBytes = 0
      then (False, st\<lparr>otaLastErr := ''Content-Length required''\<rparr>, f)
      else
        let st = (if \<not> otaActive st then st\<lparr>safeState := True, otaActive := True\<rparr> else st);
            st = st\<lparr>otaVerified := False\<rparr>;
            (ok, s, f) = otaReceive (hwOps P) expectedBytes now es f;
            v = (if ok then otaStagedVerdict (stagedImage P f) s else None);
            s' = (if v \<noteq> None then s\<lparr>ingError := v\<rparr> else s);
            ok' = (ok \<and> v = None);
            st = (if ok' then st\<lparr>otaVerified := True, verifiedSize := otaStagedSize s,
                                 verifiedCrc := otaIngestCrc s\<rparr> else st)
        in (ok', st\<lparr>ing := s', otaLastErr := (case ingError s' of Some e \<Rightarrow> e | None \<Rightarrow> '''')\<rparr>, f))"

definition otaRequestCommit :: "u32 \<Rightarrow> OtaState \<Rightarrow> bool \<times> OtaState" where
  "otaRequestCommit confirmSize st =
     (if \<not> otaReleaseEnabled \<or> \<not> otaVerified st \<or> confirmSize \<noteq> verifiedSize st then (False, st)
      else (True, st\<lparr>commitPending := True\<rparr>))"

definition otaRequestAbort :: "flash FlashPrims \<Rightarrow> OtaState \<times> flash \<Rightarrow> OtaState \<times> flash" where
  "otaRequestAbort P = (\<lambda>(st, f).
     if \<not> otaReleaseEnabled \<or> \<not> otaActive st then (st, f)
     else (st\<lparr>otaVerified := False, rebootPending := True\<rparr>, otaFlashEraseSectorHW P OtaBufferBase f))"

datatype LoopResult = Continues | Resets

definition otaLoopTask :: "flash FlashPrims \<Rightarrow> OtaState \<times> flash \<Rightarrow> LoopResult \<times> OtaState \<times> flash" where
  "otaLoopTask P = (\<lambda>(st, f).
     let (r, st1, f1) =
       (if commitPending st then
          let st = st\<lparr>commitPending := False\<rparr> in
          case otaFlashCommit P (verifiedSize st) (verifiedCrc st) f of
            (ResetChip, f') \<Rightarrow> (Resets, st, f')
          | (CommitFailed, f') \<Rightarrow>
              (Continues, st\<lparr>otaLastErr := ''commit read-back failed; do not reboot''\<rparr>, f')
        else (Continues, st, f))
     in if r = Resets then (Resets, st1, f1)
        else if rebootPending st1 then (Resets, st1\<lparr>rebootPending := False\<rparr>, f1)
        else (Continues, st1, f1))"

section \<open>Passes of the main loop\<close>

datatype OtaRequest =
    NoRequest
  | PostOta u32 u32 "ReadEvent list"
  | PostCommit u32
  | PostAbort

fun otaHandle :: "flash FlashPrims \<Rightarrow> OtaRequest \<Rightarrow> OtaState \<times> flash \<Rightarrow> OtaState \<times> flash" where
  "otaHandle P NoRequest x = x"
| "otaHandle P (PostOta expectedBytes now es) (st, f) = snd (otaIngestStream P expectedBytes now es st f)"
| "otaHandle P (PostCommit confirmSize) (st, f) = (snd (otaRequestCommit confirmSize st), f)"
| "otaHandle P PostAbort x = otaRequestAbort P x"

definition otaPass :: "flash FlashPrims \<Rightarrow> OtaRequest \<Rightarrow> OtaState \<times> flash
    \<Rightarrow> LoopResult \<times> OtaState \<times> flash" where
  "otaPass P req x = otaLoopTask P (otaHandle P req x)"

text \<open>The states between two passes, until a reset.\<close>

inductive otaReach :: "flash FlashPrims \<Rightarrow> OtaState \<times> flash \<Rightarrow> bool" for P where
  boot: "otaReach P (otaBoot, f)"
| pass: "otaReach P x \<Longrightarrow> otaPass P req x = (Continues, x') \<Longrightarrow> otaReach P x'"

section \<open>The invariant\<close>

text \<open>A verified image is in the staging buffer, well-formed and with the recorded CRC, and the
  outputs are masked; nothing is pending between passes.\<close>

definition otaInv :: "flash FlashPrims \<Rightarrow> OtaState \<times> flash \<Rightarrow> bool" where
  "otaInv P = (\<lambda>(st, f).
     \<not> commitPending st \<and> \<not> rebootPending st
   \<and> (otaActive st \<longrightarrow> safeState st)
   \<and> (otaVerified st \<longrightarrow> otaActive st
        \<and> validImage (readRange P OtaBufferBase (unat (verifiedSize st)) f)
        \<and> otaCrc32 (readRange P OtaBufferBase (unat (verifiedSize st)) f) = verifiedCrc st))"

lemma imageBytes_staged: "imageBytes (stagedImage P f) n = readRange P OtaBufferBase n f"
  by (simp add: imageBytes_def stagedImage_def readRange_def)

lemma otaInv_boot: "otaInv P (otaBoot, f)"
  by (simp add: otaInv_def otaBoot_def)

lemma otaStagedVerdict_None:
  assumes "otaStagedVerdict (stagedImage P f) s = None"
  shows "validImage (readRange P OtaBufferBase (unat (otaStagedSize s)) f)"
    and "otaCrc32 (readRange P OtaBufferBase (unat (otaStagedSize s)) f) = otaIngestCrc s"
proof -
  let ?n = "unat (bytesWritten s)"
  have ver: "otaVerifyImage (stagedImage P f) (minAddr s) (maxAddr s) (bytesWritten s) (ingEofSeen s) = None"
    and crc: "otaVerifyStagedCrc (stagedImage P f) (otaStagedSize s) (otaIngestCrc s) = None"
    using assms by (auto simp: otaStagedVerdict_def split: option.splits)
  have acc: "validImage (imageBytes (stagedImage P f) ?n)" "unat (maxAddr s) + 1 = 0x60000000 + ?n"
    using ver unfolding verify_image_iff by simp_all
  then have "0x2000 < ?n" "?n \<le> 0x3C0000" by (simp_all add: validImage_def)
  then have sz: "unat (otaStagedSize s) = ?n"
    using acc(2) image_size_iff [of "maxAddr s" "bytesWritten s"] by (simp add: otaStagedSize_def)
  show "validImage (readRange P OtaBufferBase (unat (otaStagedSize s)) f)"
    using acc(1) by (simp add: sz imageBytes_staged)
  have "otaCrc32 (imageBytes (stagedImage P f) (unat (otaStagedSize s))) = otaIngestCrc s"
    using crc by (simp add: otaVerifyStagedCrc_def imageBytes_def split: if_splits)
  then show "otaCrc32 (readRange P OtaBufferBase (unat (otaStagedSize s)) f) = otaIngestCrc s"
    by (simp add: imageBytes_staged)
qed

lemma otaIngestStream_inv [safe_ops]:
  assumes "otaInv P (st, f)" "otaIngestStream P n now es st f = (ok, st', f')"
  shows "otaInv P (st', f') \<and> (n \<noteq> 0 \<longrightarrow> safeState st' \<and> otaVerified st' = ok)"
proof (cases "n = 0")
  case True
  then have "st' = st\<lparr>otaLastErr := ''Content-Length required''\<rparr>" "f' = f"
    using assms(2) by (simp_all add: otaIngestStream_def otaReleaseEnabled_def)
  then show ?thesis using assms(1) True by (simp add: otaInv_def)
next
  case False
  define st1 where "st1 = (if \<not> otaActive st then st\<lparr>safeState := True, otaActive := True\<rparr> else st)
    \<lparr>otaVerified := False\<rparr>"
  have base: "\<not> commitPending st1" "\<not> rebootPending st1" "safeState st1" "otaActive st1" "\<not> otaVerified st1"
    using assms(1) by (auto simp: otaInv_def st1_def)
  obtain rok s f2 where r: "otaReceive (hwOps P) n now es f = (rok, s, f2)" by (metis prod_cases3)
  define v where "v = (if rok then otaStagedVerdict (stagedImage P f2) s else None)"
  define i where "i = (if v \<noteq> None then s\<lparr>ingError := v\<rparr> else s)"
  define e where "e = (case ingError i of Some e \<Rightarrow> e | None \<Rightarrow> '''')"
  have out: "ok = (rok \<and> v = None)" "f' = f2" and st':
    "st' = (if rok \<and> v = None then st1\<lparr>otaVerified := True, verifiedSize := otaStagedSize s,
            verifiedCrc := otaIngestCrc s\<rparr> else st1)\<lparr>ing := i, otaLastErr := e\<rparr>"
    using assms(2) False
    unfolding otaIngestStream_def Let_def r prod.case st1_def [symmetric] v_def [symmetric]
      i_def [symmetric] e_def [symmetric]
    by (auto simp: otaReleaseEnabled_def)
  show ?thesis
  proof (cases "rok \<and> v = None")
    case False
    then show ?thesis using base out st' by (auto simp: otaInv_def)
  next
    case True
    then have "otaStagedVerdict (stagedImage P f2) s = None" by (auto simp: v_def)
    from otaStagedVerdict_None [OF this] base True out st' show ?thesis
      by (auto simp: otaInv_def)
  qed
qed

lemma otaRequestCommit_cases:
  "otaRequestCommit n st = (if otaVerified st \<and> n = verifiedSize st
     then (True, st\<lparr>commitPending := True\<rparr>) else (False, st))"
  by (simp add: otaRequestCommit_def otaReleaseEnabled_def)

lemma staged_unchanged:
  assumes "n \<le> 0x3C0000"
    and "\<And>x. 0x603C0000 \<le> unat x \<Longrightarrow> fpRead P f' x = fpRead P f x"
  shows "readRange P OtaBufferBase n f' = readRange P OtaBufferBase n f"
proof -
  have "fpRead P f' (OtaBufferBase + of_nat i) = fpRead P f (OtaBufferBase + of_nat i)" if "i < n" for i
  proof -
    have "unat (OtaBufferBase + of_nat i) = 0x60400000 + i" using that assms(1) by (intro src_addr) simp
    then show ?thesis by (intro assms(2)) simp
  qed
  then show ?thesis by (simp add: readRange_def)
qed

text \<open>A failed commit keeps the invariant: the staged image survives it.\<close>

lemma otaInv_failed_commit:
  assumes "flash_device P" "otaInv P (st, f)" "otaVerified st"
    and "otaFlashCommit P (verifiedSize st) (verifiedCrc st) f = (CommitFailed, f')"
  shows "otaInv P (st\<lparr>otaLastErr := e\<rparr>, f')"
proof -
  let ?n = "unat (verifiedSize st)"
  have n: "?n \<le> 0x3C0000" using assms(2,3) by (auto simp: otaInv_def validImage_def)
  obtain ok d1 where run: "commitAttempts P ?n (verifiedCrc st) 3 f = (ok, d1)" by fastforce
  then have "\<not> ok" "f' = d1" using assms(4) by (auto simp: otaFlashCommit_def MaxAttempts_def split: if_splits)
  moreover have "sameOutside P 0x60000000 (0x60000000 + sectorTop ?n) f d1"
    using flash_device.commitAttempts_spec [OF assms(1) n run] by blast
  ultimately have "fpRead P f' x = fpRead P f x" if "0x603C0000 \<le> unat x" for x
    using that sectorTop_le [OF n] by (simp add: sameOutside_def)
  from staged_unchanged [OF n this] show ?thesis using assms(2) by (simp add: otaInv_def)
qed

lemma otaPass_inv [safe_ops]:
  assumes "flash_device P" "otaInv P x" "otaPass P req x = (Continues, x')"
  shows "otaInv P x'"
proof -
  obtain st f where x: "x = (st, f)" by (cases x)
  have idle: "\<not> commitPending st" "\<not> rebootPending st" using assms(2) by (simp_all add: x otaInv_def)
  have stay: "otaLoopTask P (st', f') = (Continues, st', f')"
    if "\<not> commitPending st'" "\<not> rebootPending st'" for st' f'
    using that by (simp add: otaLoopTask_def)
  show ?thesis
  proof (cases req)
    case NoRequest
    then show ?thesis using assms(2,3) stay [OF idle] by (simp add: x otaPass_def)
  next
    case (PostOta n now es)
    obtain ok st' f' where r: "otaIngestStream P n now es st f = (ok, st', f')" by (metis prod_cases3)
    have inv: "otaInv P (st', f')" using otaIngestStream_inv [OF assms(2)[unfolded x] r] by blast
    then have "otaLoopTask P (st', f') = (Continues, st', f')" by (intro stay) (simp_all add: otaInv_def)
    then show ?thesis using assms(3) inv PostOta r by (simp add: x otaPass_def)
  next
    case (PostCommit n)
    show ?thesis
    proof (cases "otaVerified st \<and> n = verifiedSize st")
      case False
      then show ?thesis using assms(2,3) stay [OF idle] PostCommit
        by (auto simp: x otaPass_def otaRequestCommit_cases split: if_splits)
    next
      case True
      obtain r f' where c: "otaFlashCommit P (verifiedSize st) (verifiedCrc st) f = (r, f')" by fastforce
      have st0: "st\<lparr>commitPending := False\<rparr> = st" using idle(1) by (cases st) simp
      have r: "r = CommitFailed" and x': "x' = (st\<lparr>otaLastErr := ''commit read-back failed; do not reboot''\<rparr>, f')"
        using assms(3) PostCommit True c idle st0
        by (auto simp: x otaPass_def otaRequestCommit_cases otaLoopTask_def split: CommitOutcome.splits)
      show ?thesis unfolding x'
        by (rule otaInv_failed_commit [OF assms(1) assms(2)[unfolded x]]) (use True c r in simp_all)
    qed
  next
    case PostAbort
    show ?thesis
    proof (cases "otaActive st")
      case False
      then show ?thesis using assms(2,3) stay [OF idle] PostAbort
        by (simp add: x otaPass_def otaRequestAbort_def)
    next
      case True
      then show ?thesis using assms(3) PostAbort idle
        by (simp add: x otaPass_def otaRequestAbort_def otaLoopTask_def otaReleaseEnabled_def)
    qed
  qed
qed

lemma otaReach_inv: "flash_device P \<Longrightarrow> otaReach P x \<Longrightarrow> otaInv P x"
  by (rotate_tac, induction rule: otaReach.induct) (auto intro: otaInv_boot otaPass_inv)

section \<open>A whole update\<close>

lemma otaReadLoop_bytes:
  assumes "unat expected = unat received + length tcs"
  shows "otaReadLoop ops expected (map (\<lambda>(t, c). ReadByte t c) tcs) received lastMs s f
           = otaFeedAll ops (map snd tcs) s f"
  using assms
proof (induction tcs arbitrary: received lastMs s f)
  case Nil
  then show ?case by (simp add: word_less_nat_alt)
next
  case (Cons tc tcs)
  obtain t c where tc: "tc = (t, c)" by (cases tc)
  have lt: "received < expected" using Cons.prems by (simp add: word_less_nat_alt)
  have "unat (received + 1) = unat received + 1"
    using Cons.prems word_size_bounds(3) [of expected]
    by (subst unat_add_no_wrap) (simp_all del: word_size_bounds)
  then have "unat expected = unat (received + 1) + length tcs" using Cons.prems by simp
  note ih = Cons.IH [OF this]
  show ?case by (auto simp: tc lt ih split: prod.splits bool.splits)
qed

lemma stagedVerdict_accepts:
  assumes "ingInv f0 img s f" "fpRead P f = f" "minAddr s = OtaFlashBase" "ingEofSeen s" "validImage img"
  shows "otaStagedVerdict (stagedImage P f) s = None" and "unat (otaStagedSize s) = length img"
    and "readRange P OtaBufferBase (length img) f = img"
proof -
  have len: "0x2000 < length img" "length img \<le> 0x3C0000" using assms(5) by (simp_all add: validImage_def)
  then have ne: "img \<noteq> []" by auto
  have off: "imgOffset s = 0" by (simp add: imgOffset_def assms(3))
  have inv: "unat (bytesWritten s) = length img" "ingCrc s = otaCrc32Update 0xFFFFFFFF img"
    "unat (maxAddr s) = unat (minAddr s) + length img - 1" "\<forall>i < length img. stage f i = img ! i"
    using assms(1) ne off by (auto simp: ingInv_def)
  show rd: "readRange P OtaBufferBase (length img) f = img"
    using inv(4) by (intro nth_equalityI) (simp_all add: stage_def assms(2))
  have mx: "unat (maxAddr s) + 1 = 0x60000000 + length img" using inv(3) len by (simp add: assms(3))
  then show sz: "unat (otaStagedSize s) = length img"
    using image_size_iff [of "maxAddr s" "bytesWritten s"] inv(1) len by (simp add: otaStagedSize_def)
  have "otaVerifyImage (stagedImage P f) (minAddr s) (maxAddr s) (bytesWritten s) (ingEofSeen s) = None"
    unfolding verify_image_iff imageBytes_staged using inv(1) mx assms(3-5) rd by simp
  moreover have "otaVerifyStagedCrc (stagedImage P f) (otaStagedSize s) (otaIngestCrc s) = None"
    using rd inv(2) unfolding otaVerifyStagedCrc_def sz imageBytes_def [symmetric] imageBytes_staged
    by (simp add: otaIngestCrc_def otaCrc32_def)
  ultimately show "otaStagedVerdict (stagedImage P f) s = None" by (simp add: otaStagedVerdict_def)
qed

lemma upload_verifies:
  assumes "mapped_flash P" "\<forall>d\<in>set ds. d \<noteq> [] \<and> length d \<le> 255" "validImage (concat ds)"
    and "map snd tcs = hexPrintImage OtaFlashBase ds" "length tcs < 2 ^ 32"
  shows "\<exists>st' f'. otaIngestStream P (of_nat (length tcs)) now (map (\<lambda>(t, c). ReadByte t c) tcs) st f
      = (True, st', f') \<and> otaVerified st' \<and> unat (verifiedSize st') = length (concat ds)
    \<and> safeState st' = (safeState st \<or> \<not> otaActive st)
    \<and> commitPending st' = commitPending st \<and> rebootPending st' = rebootPending st
    \<and> readRange P OtaBufferBase (length (concat ds)) f' = concat ds"
proof -
  have sf: "staging_flash (hwOps P)" using assms(1) by (rule mapped_flash.hwOps_staging)
  have ne: "ds \<noteq> []" "length (concat ds) \<le> unat OtaImageMax" using assms(3) by (auto simp: validImage_def)
  obtain s f1 where feed: "otaFeedAll (hwOps P) (hexPrintImage OtaFlashBase ds) otaIngestInit f = (True, s, f1)"
    and fin: "otaIngestFinish s (hwOps P) f1 = (True, s, f1)"
    and inv: "ingInv f (concat ds) s f1" and mn: "minAddr s = OtaFlashBase"
    using staging_flash.ingest_printed_image [OF sf assms(2) ne] by blast
  have eof: "ingEofSeen s" using fin by (auto simp: otaIngestFinish_def Let_def split: if_splits prod.splits)
  have err: "ingError s = None" using fin by (auto simp: otaIngestFinish_def split: if_splits)
  have tcs: "tcs \<noteq> []" using assms(4) ne(1) by (cases ds) (auto simp: hexLine_def)
  have cnt: "unat (of_nat (length tcs) :: u32) = length tcs" using assms(5) by (simp add: unat_of_nat)
  then have nz: "(of_nat (length tcs) :: u32) \<noteq> 0" using tcs by (metis length_0_conv unat_0)
  have rx: "otaReceive (hwOps P) (of_nat (length tcs)) now (map (\<lambda>(t, c). ReadByte t c) tcs) f = (True, s, f1)"
    using otaReadLoop_bytes [of "of_nat (length tcs)" 0 tcs] cnt feed fin assms(4)
    by (simp add: otaReceive_def)
  note ok = stagedVerdict_accepts [OF inv mapped_flash.read_mapped [OF assms(1)] mn eof assms(3)]
  show ?thesis
    using ok err nz
    unfolding otaIngestStream_def rx Let_def prod.case by (auto simp: otaReleaseEnabled_def)
qed

lemma update_run:
  assumes "mapped_flash P" "otaReach P (st, f)"
    and "\<forall>d\<in>set ds. d \<noteq> [] \<and> length d \<le> 255" "validImage (concat ds)"
    and "map snd tcs = hexPrintImage OtaFlashBase ds" "length tcs < 2 ^ 32"
  shows "\<exists>x1 st2 f2.
      otaPass P (PostOta (of_nat (length tcs)) now (map (\<lambda>(t, c). ReadByte t c) tcs)) (st, f)
        = (Continues, x1)
    \<and> otaPass P (PostCommit (of_nat (length (concat ds)))) x1 = (Resets, st2, f2)
    \<and> readRange P OtaFlashBase (length (concat ds)) f2 = concat ds"
proof -
  have wf: "working_flash P" using assms(1) by (simp add: mapped_flash_def)
  have inv: "otaInv P (st, f)"
    using otaReach_inv assms(2) wf by (simp add: working_flash_def)
  then have idle: "\<not> commitPending st" "\<not> rebootPending st" by (simp_all add: otaInv_def)
  obtain st1 f1 where up: "otaIngestStream P (of_nat (length tcs)) now (map (\<lambda>(t, c). ReadByte t c) tcs) st f
      = (True, st1, f1)" "otaVerified st1" "unat (verifiedSize st1) = length (concat ds)"
    "commitPending st1 = commitPending st" "rebootPending st1 = rebootPending st"
    "readRange P OtaBufferBase (length (concat ds)) f1 = concat ds"
    using upload_verifies [OF assms(1,3-6), of now st f] by blast
  have p1: "otaPass P (PostOta (of_nat (length tcs)) now (map (\<lambda>(t, c). ReadByte t c) tcs)) (st, f)
      = (Continues, st1, f1)"
    using up idle by (simp add: otaPass_def otaLoopTask_def)
  have n: "length (concat ds) \<le> 0x3C0000" using assms(4) by (simp add: validImage_def)
  have sz: "verifiedSize st1 = of_nat (length (concat ds))"
    using up(3) n by (simp add: word_unat_eq_iff unat_of_nat)
  have inv1: "otaInv P (st1, f1)" using otaIngestStream_inv [OF inv up(1)] by blast
  then have crc: "otaCrc32 (readRange P OtaBufferBase (unat (verifiedSize st1)) f1) = verifiedCrc st1"
    using up(2) by (simp add: otaInv_def)
  have le: "unat (verifiedSize st1) \<le> unat OtaImageMax" using up(3) n by simp
  obtain d' where c: "otaFlashCommit P (verifiedSize st1) (verifiedCrc st1) f1 = (ResetChip, d')"
    "readRange P OtaFlashBase (unat (verifiedSize st1)) d' = readRange P OtaBufferBase (unat (verifiedSize st1)) f1"
    using commit_installs [OF wf le crc] by blast
  have "otaPass P (PostCommit (of_nat (length (concat ds)))) (st1, f1)
      = (Resets, st1\<lparr>commitPending := False\<rparr>, d')"
    using up(2) sz c(1) by (simp add: otaPass_def otaRequestCommit_cases otaLoopTask_def)
  then show ?thesis using p1 c(2) up(3,6) by fastforce
qed

text \<open>The example image, cut into records, as an upload.\<close>

fun chunks :: "nat \<Rightarrow> 'a list \<Rightarrow> 'a list list" where
  "chunks 0 xs = []"
| "chunks (Suc n) xs = (if xs = [] then [] else take 255 xs # chunks n (drop 255 xs))"

lemma chunks_concat: "length xs \<le> 255 * n \<Longrightarrow> concat (chunks n xs) = xs"
  by (induction n arbitrary: xs) auto

lemma chunks_size: "d \<in> set (chunks n xs) \<Longrightarrow> d \<noteq> [] \<and> length d \<le> 255"
  by (induction n arbitrary: xs) (auto split: if_splits)

lemma hexPrintImage_length:
  "(\<And>d. d \<in> set ds \<Longrightarrow> d \<noteq> []) \<Longrightarrow> length (hexPrintImage a ds) \<le> 30 * length (concat ds) + 12"
proof (induction ds arbitrary: a)
  case Nil
  then show ?case by (simp add: hexLine_def hexPrintRecord_length)
next
  case (Cons d ds)
  then have "length (hexPrintImage (a + of_nat (length d)) ds) \<le> 30 * length (concat ds) + 12" by simp
  moreover have "0 < length d" using Cons.prems by simp
  ultimately show ?case by (simp add: hexLine_def hexPrintRecord_length del: length_greater_0_conv)
qed

definition exampleUpload :: "(u32 \<times> char) list" where
  "exampleUpload = map (\<lambda>c. (0, c)) (hexPrintImage OtaFlashBase (chunks 33 exampleImage))"

lemma exampleImage_length: "length exampleImage = 0x2004"
  by (simp add: exampleImage_def OTA_PROJECT_MARKER_def)

lemma example_upload:
  "\<forall>d\<in>set (chunks 33 exampleImage). d \<noteq> [] \<and> length d \<le> 255"
  "concat (chunks 33 exampleImage) = exampleImage"
  "map snd exampleUpload = hexPrintImage OtaFlashBase (chunks 33 exampleImage)"
  "length exampleUpload < 2 ^ 32"
proof -
  show c: "concat (chunks 33 exampleImage) = exampleImage"
    by (rule chunks_concat) (simp add: exampleImage_length)
  show d: "\<forall>d\<in>set (chunks 33 exampleImage). d \<noteq> [] \<and> length d \<le> 255"
    using chunks_size by blast
  show "map snd exampleUpload = hexPrintImage OtaFlashBase (chunks 33 exampleImage)"
    by (simp add: exampleUpload_def comp_def)
  have "length exampleUpload \<le> 30 * length (concat (chunks 33 exampleImage)) + 12"
    unfolding exampleUpload_def length_map by (rule hexPrintImage_length) (use d in blast)
  then show "length exampleUpload < 2 ^ 32" by (simp add: c exampleImage_length)
qed

definition exampleRequest :: OtaRequest where
  "exampleRequest = PostOta (of_nat (length exampleUpload)) 0 (map (\<lambda>(t, c). ReadByte t c) exampleUpload)"

section \<open>Properties\<close>

text \<open>C1: what may end up as the running firmware. Between passes no commit is pending, so a commit
  happens only in the pass of a request that echoes the verified size. If that pass resets
  the chip, then on working flash the base image is a well-formed image of this firmware, byte for
  byte the one that was staged and verified, and the outputs have been masked all along.\<close>

theorem commit_boots_only_a_verified_image:
  assumes "mapped_flash P" "otaReach P (st, f)"
    and "otaPass P req (st, f) = (Resets, st', f')"
  shows "(\<exists>n. req = PostCommit n \<and> otaVerified st \<and> n = verifiedSize st \<and> safeState st
            \<and> validImage (readRange P OtaFlashBase (unat n) f')
            \<and> readRange P OtaFlashBase (unat n) f' = readRange P OtaBufferBase (unat n) f
            \<and> otaCrc32 (readRange P OtaFlashBase (unat n) f') = verifiedCrc st)
       \<or> req = PostAbort \<and> otaActive st \<and> \<not> otaVerified st'
            \<and> (\<forall>x. unat x < unat OtaBufferBase \<longrightarrow> f' x = f x)"
proof -
  have wf: "working_flash P" using assms(1) by (simp add: mapped_flash_def)
  have dev: "flash_device P" using wf by (simp add: working_flash_def)
  have inv: "otaInv P (st, f)" by (rule otaReach_inv [OF dev assms(2)])
  have idle: "\<not> commitPending st" "\<not> rebootPending st" using inv by (simp_all add: otaInv_def)
  show ?thesis
  proof (cases req)
    case NoRequest
    then show ?thesis using assms(3) idle by (simp add: otaPass_def otaLoopTask_def)
  next
    case (PostOta n now es)
    obtain ok st1 f1 where r: "otaIngestStream P n now es st f = (ok, st1, f1)" by (metis prod_cases3)
    have "\<not> commitPending st1" "\<not> rebootPending st1"
      using otaIngestStream_inv [OF inv r] by (simp_all add: otaInv_def)
    then show ?thesis using assms(3) PostOta r by (simp add: otaPass_def otaLoopTask_def)
  next
    case (PostCommit n)
    have v: "otaVerified st" "n = verifiedSize st"
      using assms(3) PostCommit idle
      by (auto simp: otaPass_def otaRequestCommit_cases otaLoopTask_def split: if_splits)
    have sz: "unat n \<le> unat OtaImageMax" using inv v by (simp add: otaInv_def validImage_def)
    have crc: "otaCrc32 (readRange P OtaBufferBase (unat n) f) = verifiedCrc st"
      and val: "validImage (readRange P OtaBufferBase (unat n) f)" and safe: "safeState st"
      using inv v by (simp_all add: otaInv_def)
    have n: "unat n \<le> 0x3C0000" using sz by simp
    obtain d' where c: "otaFlashCommit P n (verifiedCrc st) f = (ResetChip, d')"
      and copy: "readRange P OtaFlashBase (unat n) d' = readRange P OtaBufferBase (unat n) f"
      using commit_installs [OF wf sz crc] by blast
    have "f' = d'"
      using assms(3) PostCommit v c idle
      by (auto simp: otaPass_def otaRequestCommit_cases otaLoopTask_def)
    then show ?thesis using PostCommit v val copy crc safe by simp
  next
    case PostAbort
    have act: "otaActive st"
      using assms(3) PostAbort idle
      by (auto simp: otaPass_def otaRequestAbort_def otaLoopTask_def split: if_splits)
    have f': "f' = fpErase P OtaBufferBase f" and "\<not> otaVerified st'"
      using assms(3) PostAbort idle act
      by (auto simp: otaPass_def otaRequestAbort_def otaLoopTask_def otaReleaseEnabled_def
          otaFlashEraseSectorHW_def)
    moreover have "f' x = f x" if "unat x < unat OtaBufferBase" for x
    proof -
      have "4096 dvd unat OtaBufferBase" by simp
      then have "fpRead P f' x = fpRead P f x"
        unfolding f' by (rule flash_device.erase_frame [OF dev]) (use that in blast)
      then show ?thesis by (simp add: mapped_flash.read_mapped [OF assms(1)])
    qed
    ultimately show ?thesis using PostAbort act by blast
  qed
qed

lemma commit_boots_only_a_verified_image_witness:
  "\<exists>st f st' f'. otaReach norPrims (st, f) \<and> otaVerified st
    \<and> otaPass norPrims (PostCommit 0x2004) (st, f) = (Resets, st', f')
    \<and> validImage (readRange norPrims OtaFlashBase (unat (0x2004 :: u32)) f')"
proof -
  have valid: "validImage (concat (chunks 33 exampleImage))"
    by (simp add: example_upload exampleImage_valid)
  obtain st f st' f' where
    up: "otaPass norPrims exampleRequest (otaBoot, \<lambda>_. 0) = (Continues, st, f)"
    and c: "otaPass norPrims (PostCommit 0x2004) (st, f) = (Resets, st', f')"
    using update_run [OF norHW.mapped_flash_axioms otaReach.boot example_upload(1) valid
        example_upload(3,4), of 0 "\<lambda>_. 0"]
    by (auto simp: exampleRequest_def example_upload(2) exampleImage_length)
  have reach: "otaReach norPrims (st, f)" by (rule otaReach.pass [OF otaReach.boot up])
  show ?thesis
    using commit_boots_only_a_verified_image [OF norHW.mapped_flash_axioms reach c] reach c by auto
qed



end
