(* ===== verification/Event_Log.thy ===== *)
theory Event_Log
  imports Prelude
begin

text \<open>
  \<open>src/src/event_log.h\<close> and \<open>src/src/event_log.cpp\<close>: the timestamped event ring, the clock that
  stamps it, and the calendar formatting; and the window of the \<open>/api/log\<close> handler of
  \<open>src/src/web_handlers.cpp\<close>. The ring is a list of 128 entries, sequence numbers and counters are
  32-bit. An abstract log, the list of everything ever recorded, states what the readers get.
\<close>

definition EventLogCapacity :: nat where [const_defs]: "EventLogCapacity = 128"
definition EventTextMax :: nat where [const_defs]: "EventTextMax = 96"

definition EventInfo :: byte where [const_defs]: "EventInfo = 0"
definition EventWarn :: byte where [const_defs]: "EventWarn = 1"
definition EventError :: byte where [const_defs]: "EventError = 2"

record EventEntry =
  eeSeq :: u32
  eeEpoch :: u32
  eeUptimeMs :: u32
  eeLevel :: byte
  eeText :: string

definition emptyEntry :: EventEntry where
  "emptyEntry = \<lparr>eeSeq = 0, eeEpoch = 0, eeUptimeMs = 0, eeLevel = EventInfo, eeText = []\<rparr>"

record EventLog =
  entries :: "EventEntry list"
  nextSeq :: u32
  written :: u32

definition eventLogClear :: EventLog where
  "eventLogClear = \<lparr>entries = replicate EventLogCapacity emptyEntry, nextSeq = 1, written = 0\<rparr>"

text \<open>The copy loop of \<open>eventLogAdd\<close>: at most 95 characters, up to the terminator, control bytes
  replaced by blanks.\<close>

definition eventText :: "string option \<Rightarrow> string" where
  "eventText text =
     (case text of None \<Rightarrow> []
      | Some t \<Rightarrow> map (\<lambda>c. if 0x20 \<le> code_of c \<and> code_of c < 0x7F then c else CHR '' '')
                   (take (EventTextMax - 1) (cstr t)))"

definition eventLogAdd :: "EventLog \<Rightarrow> byte \<Rightarrow> string option \<Rightarrow> u32 \<Rightarrow> u32 \<Rightarrow> EventLog" where
  "eventLogAdd log level text epoch uptimeMs =
     log\<lparr>entries := (entries log)[unat (written log) mod EventLogCapacity :=
            \<lparr>eeSeq = nextSeq log, eeEpoch = epoch, eeUptimeMs = uptimeMs, eeLevel = level,
             eeText = eventText text\<rparr>],
         nextSeq := nextSeq log + 1,
         written := written log + 1\<rparr>"

definition eventLogOldestSeq :: "EventLog \<Rightarrow> u32" where
  "eventLogOldestSeq log =
     (if written log \<le> of_nat EventLogCapacity then 1
      else written log - of_nat EventLogCapacity + 1)"

definition eventLogFrom :: "EventLog \<Rightarrow> u32 \<Rightarrow> u32" where
  "eventLogFrom log since =
     (let oldest = eventLogOldestSeq log in if since + 1 > oldest then since + 1 else oldest)"

definition eventLogCountSince :: "EventLog \<Rightarrow> u32 \<Rightarrow> u32" where
  "eventLogCountSince log since =
     (let newest = nextSeq log - 1 in
      if newest = 0 \<or> since \<ge> newest then 0 else newest - eventLogFrom log since + 1)"

definition eventLogAt :: "EventLog \<Rightarrow> u32 \<Rightarrow> u32 \<Rightarrow> EventEntry option" where
  "eventLogAt log since i =
     (if i \<ge> eventLogCountSince log since then None
      else let s = eventLogFrom log since + i in
        Some (entries log ! (unat (s - 1) mod EventLogCapacity)))"

definition eventLogGapSince :: "EventLog \<Rightarrow> u32 \<Rightarrow> bool" where
  "eventLogGapSince log since \<longleftrightarrow> since < eventLogOldestSeq log - 1"

definition eventLogNewestSeq :: "EventLog \<Rightarrow> u32" where
  "eventLogNewestSeq log = nextSeq log - 1"

definition eventLevelName :: "byte \<Rightarrow> string" where
  "eventLevelName level =
     (if level = EventWarn then ''warn'' else if level = EventError then ''error'' else ''info'')"

text \<open>The window of the log handler: at most 64 entries, the newest ones, with the gap flag.
  The loop stops at the first entry it cannot fetch.\<close>

definition MaxPerResponse :: u32 where [const_defs]: "MaxPerResponse = 64"

fun fetchEvents :: "EventLog \<Rightarrow> u32 \<Rightarrow> nat list \<Rightarrow> EventEntry list" where
  "fetchEvents log since [] = []"
| "fetchEvents log since (i # is) =
     (case eventLogAt log since (of_nat i) of None \<Rightarrow> []
      | Some e \<Rightarrow> e # fetchEvents log since is)"

definition api_log :: "EventLog \<Rightarrow> u32 \<Rightarrow> EventEntry list \<times> bool \<times> u32" where
  "api_log log since0 =
     (let newest = eventLogNewestSeq log;
          n0 = eventLogCountSince log since0;
          skipped0 = eventLogGapSince log since0;
          (since, n, skipped) =
            (if n0 > MaxPerResponse then (newest - MaxPerResponse, MaxPerResponse, True)
             else (since0, n0, skipped0))
      in (fetchEvents log since [0..<unat n], skipped, newest))"

section \<open>The log as a list\<close>

type_synonym LogCall = "byte \<times> string option \<times> u32 \<times> u32"

definition logAll :: "LogCall list \<Rightarrow> EventLog" where
  "logAll calls = foldl (\<lambda>log (lv, t, ep, up). eventLogAdd log lv t ep up) eventLogClear calls"

definition history :: "LogCall list \<Rightarrow> EventEntry list" where
  "history calls = map (\<lambda>(i, lv, t, ep, up).
     \<lparr>eeSeq = of_nat i + 1, eeEpoch = ep, eeUptimeMs = up, eeLevel = lv, eeText = eventText t\<rparr>)
     (enumerate 0 calls)"

definition logInv :: "EventLog \<Rightarrow> EventEntry list \<Rightarrow> bool" where
  "logInv log h \<longleftrightarrow>
     length (entries log) = EventLogCapacity
   \<and> written log = of_nat (length h) \<and> nextSeq log = of_nat (length h) + 1
   \<and> (\<forall>k < length h. length h \<le> k + EventLogCapacity \<longrightarrow>
        entries log ! (k mod EventLogCapacity) = h ! k)"

lemma length_history [simp]: "length (history calls) = length calls"
  by (simp add: history_def)

lemma history_snoc:
  "history (calls @ [(lv, t, ep, up)]) = history calls @
     [\<lparr>eeSeq = of_nat (length calls) + 1, eeEpoch = ep, eeUptimeMs = up, eeLevel = lv,
       eeText = eventText t\<rparr>]"
  by (simp add: history_def enumerate_append_eq)

lemma logInv_clear: "logInv eventLogClear []"
  by (simp add: logInv_def eventLogClear_def)

lemma logInv_add [safe_ops]:
  assumes "logInv log h" "length h < 2 ^ 32"
    and "e = \<lparr>eeSeq = of_nat (length h) + 1, eeEpoch = ep, eeUptimeMs = up, eeLevel = lv,
              eeText = eventText t\<rparr>"
  shows "logInv (eventLogAdd log lv t ep up) (h @ [e])"
proof -
  have w: "unat (written log) = length h"
    using assms(1,2) by (simp add: logInv_def unat_of_nat)
  have "entries (eventLogAdd log lv t ep up) ! (k mod EventLogCapacity) = (h @ [e]) ! k"
    if k: "k < length (h @ [e])" "length (h @ [e]) \<le> k + EventLogCapacity" for k
  proof (cases "k = length h")
    case True
    then show ?thesis
      using assms(1,3) w by (simp add: eventLogAdd_def logInv_def EventLogCapacity_def)
  next
    case False
    then have lt: "k < length h" using k(1) by simp
    have "k mod EventLogCapacity \<noteq> length h mod EventLogCapacity"
    proof
      assume "k mod EventLogCapacity = length h mod EventLogCapacity"
      then have "EventLogCapacity dvd length h - k"
        using lt by (metis mod_eq_dvd_iff_nat less_imp_le)
      then show False using lt k(2) by (auto dest: dvd_imp_le)
    qed
    then show ?thesis
      using assms(1) w lt k(2) by (simp add: eventLogAdd_def logInv_def nth_append)
  qed
  then show ?thesis using assms(1) by (simp add: logInv_def eventLogAdd_def)
qed

lemma logInv_all: "length calls < 2 ^ 32 \<Longrightarrow> logInv (logAll calls) (history calls)"
proof (induction calls rule: rev_induct)
  case Nil
  then show ?case by (simp add: logAll_def history_def logInv_clear)
next
  case (snoc c calls)
  obtain lv t ep up where c: "c = (lv, t, ep, up)" by (cases c)
  have "logInv (logAll calls) (history calls)" using snoc by simp
  then show ?case
    using logInv_add [OF _ _ refl, of "logAll calls" "history calls" lv t ep up] snoc.prems
    by (simp add: c history_snoc) (simp add: logAll_def)
qed

lemma logInv_counters:
  assumes "logInv log h" "length h < 2 ^ 32 - 1"
  shows "unat (written log) = length h" and "unat (nextSeq log - 1) = length h"
    and "unat (eventLogOldestSeq log) = length h - EventLogCapacity + 1"
    and "unat (eventLogNewestSeq log) = length h"
proof -
  have w: "unat (written log) = length h" and n: "unat (nextSeq log - 1) = length h"
    using assms by (simp_all add: logInv_def unat_of_nat)
  show "unat (written log) = length h" "unat (nextSeq log - 1) = length h" by fact+
  then show "unat (eventLogNewestSeq log) = length h" by (simp add: eventLogNewestSeq_def)
  show "unat (eventLogOldestSeq log) = length h - EventLogCapacity + 1"
  proof (cases "length h \<le> 128")
    case True
    then show ?thesis using w by (simp add: eventLogOldestSeq_def word_le_nat_alt EventLogCapacity_def)
  next
    case False
    then have "unat (written log - 128) = length h - 128" using w by (subst unat_sub_no_wrap) simp_all
    then have "unat (written log - 128 + 1) = length h - 128 + 1"
      using assms(2) by (subst unat_add_no_wrap) simp_all
    then show ?thesis using False w
      by (simp add: eventLogOldestSeq_def word_le_nat_alt EventLogCapacity_def)
  qed
qed

text \<open>The first entry a reader at cursor \<open>since\<close> can still get, as a position in the history.\<close>

lemma eventLogFrom_eq:
  assumes "logInv log h" "length h < 2 ^ 32 - 1" "unat since < length h"
  shows "unat (eventLogFrom log since) = max (unat since) (length h - EventLogCapacity) + 1"
    and "unat (eventLogCountSince log since)
           = length h - max (unat since) (length h - EventLogCapacity)"
proof -
  note c = logInv_counters [OF assms(1,2)]
  have s1: "unat (since + 1) = unat since + 1"
    using assms(2,3) by (subst unat_add_no_wrap) simp_all
  show from_eq: "unat (eventLogFrom log since) = max (unat since) (length h - EventLogCapacity) + 1"
    using c(3) s1 by (auto simp: eventLogFrom_def Let_def word_less_nat_alt)
  have le: "max (unat since) (length h - EventLogCapacity) + 1 \<le> length h"
    using assms(3) by (simp add: EventLogCapacity_def)
  have "unat (nextSeq log - 1 - eventLogFrom log since)
      = length h - (max (unat since) (length h - EventLogCapacity) + 1)"
    using c(2) from_eq le by (subst unat_sub_no_wrap) simp_all
  then have "unat (nextSeq log - 1 - eventLogFrom log since + 1)
      = length h - max (unat since) (length h - EventLogCapacity)"
    using le assms(2) by (subst unat_add_no_wrap) (simp, unfold unat_1, linarith)+
  moreover have "nextSeq log - 1 \<noteq> 0 \<and> \<not> since \<ge> nextSeq log - 1"
    using c(2) assms(3) by (auto simp: word_le_nat_alt word_unat_eq_iff)
  ultimately show "unat (eventLogCountSince log since)
      = length h - max (unat since) (length h - EventLogCapacity)"
    by (simp add: eventLogCountSince_def Let_def)
qed

lemma eventLogCountSince_zero:
  assumes "logInv log h" "length h < 2 ^ 32 - 1" "length h \<le> unat since"
  shows "eventLogCountSince log since = 0"
  using logInv_counters(2) [OF assms(1,2)] assms(3)
  by (simp add: eventLogCountSince_def Let_def word_le_nat_alt)

lemma eventLogAt_eq:
  assumes "logInv log h" "length h < 2 ^ 32 - 1" "unat since < length h"
    and "i < length h - max (unat since) (length h - EventLogCapacity)"
  shows "eventLogAt log since (of_nat i) = Some (h ! (max (unat since) (length h - EventLogCapacity) + i))"
proof -
  let ?m = "max (unat since) (length h - EventLogCapacity)"
  note f = eventLogFrom_eq [OF assms(1-3)]
  have ui: "unat (of_nat i :: u32) = i" using assms(2,4) by (simp add: unat_of_nat)
  have "unat (eventLogFrom log since + of_nat i) = ?m + 1 + i"
    using f(1) ui assms(2,4) by (subst unat_add_no_wrap) simp_all
  then have "unat (eventLogFrom log since + of_nat i - 1) = ?m + i"
    by (subst unat_sub_no_wrap) simp_all
  moreover have "entries log ! ((?m + i) mod EventLogCapacity) = h ! (?m + i)"
    using assms(1,4) by (simp add: logInv_def)
  moreover have "\<not> of_nat i \<ge> eventLogCountSince log since"
    using f(2) ui assms(4) by (simp add: word_le_nat_alt)
  ultimately show ?thesis by (simp add: eventLogAt_def Let_def)
qed

lemma fetchEvents_eq:
  assumes "logInv log h" "length h < 2 ^ 32 - 1" "unat since < length h"
    and "n \<le> length h - max (unat since) (length h - EventLogCapacity)"
  shows "fetchEvents log since [m..<n]
    = map (\<lambda>i. h ! (max (unat since) (length h - EventLogCapacity) + i)) [m..<n]"
proof (induction "n - m" arbitrary: m)
  case (Suc k)
  then have "m < n" "k = n - Suc m" by simp_all
  with Suc show ?case
    using eventLogAt_eq [OF assms(1-3), of m] assms(4) by (simp add: upt_conv_Cons)
qed simp

section \<open>Calendar\<close>

record CivilTime =
  ctYear :: int
  ctMonth :: int
  ctDay :: int
  ctHour :: int
  ctMinute :: int
  ctSecond :: int

text \<open>The steps of \<open>civil_from_days\<close>: year of the era, and month and day of a day of the
  March-based year. All values are non-negative and below \<open>2 ^ 32\<close>, so integers stand for both
  the signed and the unsigned ones.\<close>

definition yearOfEra :: "int \<Rightarrow> int" where
  "yearOfEra doe = (doe - doe div 1460 + doe div 36524 - doe div 146096) div 365"

definition monthDay :: "int \<Rightarrow> int \<times> int" where
  "monthDay doy =
     (let mp = (5 * doy + 2) div 153;
          day = doy - (153 * mp + 2) div 5 + 1
      in (if mp < 10 then mp + 3 else mp - 9, day))"

definition civilDate :: "int \<Rightarrow> int \<times> int \<times> int" where
  "civilDate daysPart =
     (let z = daysPart + 719468;
          era = (if z \<ge> 0 then z else z - 146096) div 146097;
          doe = z - era * 146097;
          yoe = yearOfEra doe;
          y = yoe + era * 400;
          doy = doe - (365 * yoe + yoe div 4 - yoe div 100);
          (month, day) = monthDay doy
      in (if month \<le> 2 then y + 1 else y, month, day))"

definition civilFromEpoch :: "u32 \<Rightarrow> CivilTime" where
  "civilFromEpoch epoch =
     (let rem1 = uint epoch mod 86400;
          rem2 = rem1 mod 3600;
          (year, month, day) = civilDate (uint epoch div 86400)
      in \<lparr>ctYear = year, ctMonth = month, ctDay = day,
          ctHour = rem1 div 3600, ctMinute = rem2 div 60, ctSecond = rem2 mod 60\<rparr>)"

definition digit :: "int \<Rightarrow> char" where "digit v = char_of (48 + nat (v mod 10))"

definition two :: "int \<Rightarrow> string" where "two v = [digit (v div 10), digit v]"

text \<open>The result is \<open>None\<close> when the buffer is too small, the text written otherwise.\<close>

definition formatIso8601 :: "nat \<Rightarrow> u32 \<Rightarrow> string option" where
  "formatIso8601 bufSize epoch =
     (if bufSize < 21 then None
      else if epoch = 0 then Some []
      else let t = civilFromEpoch epoch; y = ctYear t in
        Some ([digit (y div 1000), digit (y div 100), digit (y div 10), digit y] @ ''-'' @
              two (ctMonth t) @ ''-'' @ two (ctDay t) @ ''T'' @ two (ctHour t) @ '':'' @
              two (ctMinute t) @ '':'' @ two (ctSecond t) @ ''Z''))"

section \<open>Clock\<close>

record Clock =
  clockValid :: bool
  ntpSynced :: bool
  baseEpoch :: u32
  baseMillis :: u32

definition MinPlausibleEpoch :: u32 where [const_defs]: "MinPlausibleEpoch = 1704067200"

definition clockBoot :: Clock where
  "clockBoot = \<lparr>clockValid = False, ntpSynced = False, baseEpoch = 0, baseMillis = 0\<rparr>"

text \<open>\<open>eventLogBegin\<close>: the log, the clock and the boot identity, from the RTC, the cycle counter
  and the time.\<close>

definition eventLogBegin :: "u32 \<Rightarrow> u32 \<Rightarrow> u32 \<Rightarrow> EventLog \<times> Clock \<times> u32" where
  "eventLogBegin rtc cyccnt now =
     (let b = rtc XOR cyccnt XOR 0x5A5A5A5A;
          bootId = (if b = 0 then 1 else b);
          clk = (if rtc \<ge> MinPlausibleEpoch
                 then clockBoot\<lparr>baseEpoch := rtc, baseMillis := now, clockValid := True\<rparr>
                 else clockBoot)
      in (eventLogClear, clk, bootId))"

definition eventNowEpoch :: "Clock \<Rightarrow> u32 \<Rightarrow> u32" where
  "eventNowEpoch clk now =
     (if \<not> clockValid clk then 0 else baseEpoch clk + (now - baseMillis clk) div 1000)"

definition eventLogRecord :: "EventLog \<Rightarrow> Clock \<Rightarrow> u32 \<Rightarrow> byte \<Rightarrow> string option \<Rightarrow> EventLog" where
  "eventLogRecord log clk now level text = eventLogAdd log level text (eventNowEpoch clk now) now"

text \<open>\<open>eventClockSynced\<close>: the log, the clock and, when it is written, the new RTC value.\<close>

definition eventClockSynced :: "EventLog \<Rightarrow> Clock \<Rightarrow> u32 \<Rightarrow> u32 \<Rightarrow> u32 \<Rightarrow> EventLog \<times> Clock \<times> u32 option" where
  "eventClockSynced log clk epoch rtc now =
     (if epoch < MinPlausibleEpoch then (log, clk, None)
      else
        let firstSync = (\<not> ntpSynced clk);
            clk' = \<lparr>clockValid = True, ntpSynced = True, baseEpoch = epoch, baseMillis = now\<rparr>;
            drift = sint (epoch - rtc);
            rtc' = (if drift > 2 \<or> drift < - 2 then Some epoch else None);
            log' = (if firstSync
                    then eventLogRecord log clk' now EventInfo (Some ''Clock synchronized from NTP'')
                    else log)
        in (log', clk', rtc'))"

definition clockInv :: "Clock \<Rightarrow> bool" where
  "clockInv clk \<longleftrightarrow> (clockValid clk \<longrightarrow> baseEpoch clk \<ge> MinPlausibleEpoch) \<and> (ntpSynced clk \<longrightarrow> clockValid clk)"

lemma clockInv_begin [safe_ops]: "clockInv (fst (snd (eventLogBegin rtc cyc now)))"
  by (simp add: eventLogBegin_def clockInv_def Let_def clockBoot_def)

lemma clockInv_synced [safe_ops]:
  "clockInv clk \<Longrightarrow> clockInv (fst (snd (eventClockSynced log clk epoch rtc now)))"
  by (simp add: eventClockSynced_def clockInv_def Let_def not_less)

section \<open>The calendar is the calendar\<close>

definition leapYear :: "int \<Rightarrow> bool" where
  "leapYear y \<longleftrightarrow> 4 dvd y \<and> (\<not> 100 dvd y \<or> 400 dvd y)"

definition monthLength :: "int \<Rightarrow> int \<Rightarrow> int" where
  "monthLength y m = (if m = 2 then (if leapYear y then 29 else 28)
                      else if m \<in> {4, 6, 9, 11} then 30 else 31)"

fun nextDate :: "int \<times> int \<times> int \<Rightarrow> int \<times> int \<times> int" where
  "nextDate (y, m, d) =
     (if d < monthLength y m then (y, m, d + 1)
      else if m < 12 then (y, m + 1, 1) else (y + 1, 1, 1))"

text \<open>The date of a day, as the code computes it.\<close>

definition dateOfDay :: "int \<Rightarrow> int \<times> int \<times> int" where
  "dateOfDay days =
     (let z = days + 719468; era = z div 146097; doe = z mod 146097; yoe = yearOfEra doe;
          (m, d) = monthDay (doe - (365 * yoe + yoe div 4 - yoe div 100));
          y = yoe + era * 400
      in (if m \<le> 2 then y + 1 else y, m, d))"

lemma civilDate_eq: "0 \<le> days \<Longrightarrow> civilDate days = dateOfDay days"
  unfolding civilDate_def dateOfDay_def Let_def by (simp only: minus_div_mult_eq_mod if_P)

lemma civilFromEpoch_fields:
  "(ctYear (civilFromEpoch e), ctMonth (civilFromEpoch e), ctDay (civilFromEpoch e))
     = dateOfDay (uint e div 86400)"
  "ctHour (civilFromEpoch e) = uint e mod 86400 div 3600"
  "ctMinute (civilFromEpoch e) = uint e mod 86400 mod 3600 div 60"
  "ctSecond (civilFromEpoch e) = uint e mod 86400 mod 3600 mod 60"
proof -
  have "0 \<le> uint e div 86400" by (simp add: pos_imp_zdiv_nonneg_iff)
  then have "civilDate (uint e div 86400) = dateOfDay (uint e div 86400)" by (rule civilDate_eq)
  then show "(ctYear (civilFromEpoch e), ctMonth (civilFromEpoch e), ctDay (civilFromEpoch e))
     = dateOfDay (uint e div 86400)"
    "ctHour (civilFromEpoch e) = uint e mod 86400 div 3600"
    "ctMinute (civilFromEpoch e) = uint e mod 86400 mod 3600 div 60"
    "ctSecond (civilFromEpoch e) = uint e mod 86400 mod 3600 mod 60"
    by (simp_all add: civilFromEpoch_def Let_def split: prod.splits)
qed

text \<open>The first day of each year of an era, and its length.\<close>

definition startY :: "int \<Rightarrow> int" where "startY y = 365 * y + y div 4 - y div 100"

definition yearLen :: "int \<Rightarrow> int" where
  "yearLen y = (if y = 399 then 366 else startY (y + 1) - startY y)"

lemma years_check:
  "list_all (\<lambda>y. yearOfEra (startY y) = y \<and> yearOfEra (startY y + yearLen y - 1) = y
      \<and> (yearLen y = 366 \<longleftrightarrow> 4 dvd y + 1 \<and> (\<not> 100 dvd y + 1 \<or> y + 1 = 400))
      \<and> (yearLen y = 365 \<or> yearLen y = 366)) [0..399]"
  by code_simp

lemma months_check:
  "list_all (\<lambda>doy. case monthDay doy of (m, d) \<Rightarrow>
      monthDay (doy + 1) =
        (if d < (if m = 2 then 29 else if m \<in> {4, 6, 9, 11} then 30 else 31) then (m, d + 1)
         else (if m < 12 then m + 1 else 1, 1))
      \<and> (m = 2 \<longrightarrow> doy = 336 + d) \<and> 1 \<le> m \<and> m \<le> 12) [0..364]"
  by code_simp

lemma year_facts:
  assumes "0 \<le> y" "y < 400"
  shows "yearOfEra (startY y) = y" "yearOfEra (startY y + yearLen y - 1) = y"
    "yearLen y = 366 \<longleftrightarrow> 4 dvd y + 1 \<and> (\<not> 100 dvd y + 1 \<or> y + 1 = 400)"
    "yearLen y = 365 \<or> yearLen y = 366"
  using years_check assms by (auto simp: list_all_iff)

lemma month_facts:
  assumes "0 \<le> doy" "doy < 365" "monthDay doy = (m, d)"
  shows "monthDay (doy + 1) =
      (if d < (if m = 2 then 29 else if m \<in> {4, 6, 9, 11} then 30 else 31) then (m, d + 1)
       else (if m < 12 then m + 1 else 1, 1))"
    and "m = 2 \<Longrightarrow> doy = 336 + d" and "1 \<le> m" "m \<le> 12"
proof -
  have "doy \<in> set [0..364]" using assms(1,2) by simp
  with months_check have "case monthDay doy of (m, d) \<Rightarrow>
      monthDay (doy + 1) =
        (if d < (if m = 2 then 29 else if m \<in> {4, 6, 9, 11} then 30 else 31) then (m, d + 1)
         else (if m < 12 then m + 1 else 1, 1))
      \<and> (m = 2 \<longrightarrow> doy = 336 + d) \<and> 1 \<le> m \<and> m \<le> 12"
    unfolding list_all_iff by (rule bspec)
  then show "monthDay (doy + 1) =
      (if d < (if m = 2 then 29 else if m \<in> {4, 6, 9, 11} then 30 else 31) then (m, d + 1)
       else (if m < 12 then m + 1 else 1, 1))"
    "m = 2 \<Longrightarrow> doy = 336 + d" "1 \<le> m" "m \<le> 12"
    unfolding assms(3) prod.case by blast+
qed

lemma yearOfEra_mono:
  assumes "0 \<le> a" "a \<le> b"
  shows "yearOfEra a \<le> yearOfEra b"
proof -
  have step: "yearOfEra x \<le> yearOfEra (x + 1)" if "0 \<le> x" for x
  proof -
    have d: "n div 146096 = n div 36524 div 4" for n :: int
      using zdiv_zmult2_eq [of 4 n 36524] by simp
    have "(x + 1) div 1460 \<le> x div 1460 + 1" by linarith
    moreover have "x div 36524 \<le> (x + 1) div 36524" "(x + 1) div 36524 \<le> x div 36524 + 1" by linarith+
    then have "(x + 1) div 146096 - x div 146096 \<le> (x + 1) div 36524 - x div 36524"
      unfolding d by linarith
    ultimately have "x - x div 1460 + x div 36524 - x div 146096
        \<le> x + 1 - (x + 1) div 1460 + (x + 1) div 36524 - (x + 1) div 146096" by linarith
    then show ?thesis unfolding yearOfEra_def by (rule zdiv_mono1) simp
  qed
  have "0 \<le> (n :: nat) \<Longrightarrow> yearOfEra a \<le> yearOfEra (a + int n)" for n
  proof (induction n)
    case (Suc n)
    then show ?case using step [of "a + int n"] assms(1) by (simp add: add.assoc add.commute [of 1])
  qed simp
  from this [of "nat (b - a)"] show ?thesis using assms by simp
qed

text \<open>Each day of an era lies in exactly one year, the one the code computes.\<close>

lemma startY_Suc: "0 \<le> y \<Longrightarrow> y < 399 \<Longrightarrow> startY (y + 1) = startY y + yearLen y"
  by (simp add: yearLen_def)

lemma startY_0 [simp]: "startY 0 = 0" and startY_399: "startY 399 + yearLen 399 = 146097"
  by (simp_all add: startY_def yearLen_def)

lemma year_of_day:
  assumes "0 \<le> doe" "doe < 146097"
  shows "\<exists>y. 0 \<le> y \<and> y < 400 \<and> startY y \<le> doe \<and> doe < startY y + yearLen y"
proof -
  have "n < 400 \<Longrightarrow> doe < startY (int n) + yearLen (int n) \<Longrightarrow>
      \<exists>y. 0 \<le> y \<and> y < 400 \<and> startY y \<le> doe \<and> doe < startY y + yearLen y" for n :: nat
  proof (induction n)
    case 0
    then show ?case using assms(1) by (intro exI [of _ 0]) simp
  next
    case (Suc n)
    show ?case
    proof (cases "startY (int (Suc n)) \<le> doe")
      case True
      then show ?thesis using Suc.prems by (intro exI [of _ "int (Suc n)"]) simp
    next
      case False
      then have "doe < startY (int n) + yearLen (int n)"
        using startY_Suc [of "int n"] Suc.prems(1) by (simp add: add.commute)
      then show ?thesis using Suc by simp
    qed
  qed
  from this [of 399] show ?thesis using assms(2) startY_399 by simp
qed

lemma yearOfEra_eq:
  assumes "0 \<le> y" "y < 400" "startY y \<le> doe" "doe < startY y + yearLen y"
  shows "yearOfEra doe = y"
proof -
  have "0 \<le> startY y" using assms(1) unfolding startY_def by linarith
  then have "yearOfEra (startY y) \<le> yearOfEra doe" "yearOfEra doe \<le> yearOfEra (startY y + yearLen y - 1)"
    using assms(3,4) by (intro yearOfEra_mono; linarith)+
  then show ?thesis using year_facts(1,2) [OF assms(1,2)] by linarith
qed

lemma dateOfDay_eq:
  assumes "days + 719468 = 146097 * era + (startY y + doy)" "0 \<le> y" "y < 400" "0 \<le> doy" "doy < yearLen y"
  shows "dateOfDay days = (case monthDay doy of (m, d) \<Rightarrow>
           (if m \<le> 2 then y + 400 * era + 1 else y + 400 * era, m, d))"
proof -
  have s: "0 \<le> startY y" using assms(2) unfolding startY_def by linarith
  have e: "startY y + yearLen y \<le> 146097"
  proof (cases "y = 399")
    case True
    then show ?thesis using startY_399 by simp
  next
    case False
    then have "startY y + yearLen y = startY (y + 1)" using startY_Suc assms(2,3) by simp
    also have "\<dots> \<le> 146097"
    proof -
      have "365 * (y + 1) + a - b \<le> 146097" if "a \<le> 100" "0 \<le> b" "y \<le> 398" for a b :: int
        using that by simp
      moreover have "(y + 1) div 4 \<le> 100" "0 \<le> (y + 1) div 100" using assms(2,3) by linarith+
      moreover have "y \<le> 398" using assms(3) False by simp
      ultimately show ?thesis unfolding startY_def by blast
    qed
    finally show ?thesis .
  qed
  have r: "0 \<le> startY y + doy" "startY y + doy < 146097" using s e assms(4,5) by linarith+
  have e0: "(days + 719468) div 146097 = era" and e1: "(days + 719468) mod 146097 = startY y + doy"
    unfolding assms(1) using r by (simp_all add: div_pos_pos_trivial mod_pos_pos_trivial)
  have e2: "yearOfEra (startY y + doy) = y" by (rule yearOfEra_eq) (use assms in simp_all)
  have e3: "startY y + doy - (365 * y + y div 4 - y div 100) = doy" by (simp add: startY_def)
  show ?thesis
    unfolding dateOfDay_def Let_def e0 e1 e2 e3 by (simp only: mult.commute [of era 400])
qed

lemma leapYear_shift: "leapYear (y + 400 * era) = leapYear y"
proof -
  have "k dvd y + 400 * era \<longleftrightarrow> k dvd y" if "k dvd 400" for k :: int
    using that by (simp add: dvd_add_left_iff)
  from this [of 4] this [of 100] this [of 400] show ?thesis by (simp add: leapYear_def)
qed

lemma yearLen_leap:
  assumes "0 \<le> y" "y < 400"
  shows "yearLen y = 366 \<longleftrightarrow> leapYear (y + 400 * era + 1)"
proof -
  have "leapYear (y + 400 * era + 1) = leapYear (y + 1)"
    using leapYear_shift [of "y + 1" era] by (simp add: algebra_simps)
  moreover have "400 dvd y + 1 \<longleftrightarrow> y + 1 = 400"
    using assms by (auto dest: zdvd_imp_le)
  ultimately show ?thesis using year_facts(3) [OF assms] by (auto simp: leapYear_def)
qed

lemma monthDay_ends: "monthDay 0 = (3, 1)" "monthDay 364 = (2, 28)" "monthDay 365 = (2, 29)"
  by (simp_all add: monthDay_def)

text \<open>The code's date advances as the calendar does.\<close>

lemma dateOfDay_step:
  assumes "0 \<le> days"
  shows "dateOfDay (days + 1) = nextDate (dateOfDay days)"
proof -
  define era where "era = (days + 719468) div 146097"
  define doe where "doe = (days + 719468) mod 146097"
  have z: "days + 719468 = 146097 * era + doe" by (simp add: era_def doe_def)
  have "0 \<le> doe" "doe < 146097" by (simp_all add: doe_def)
  then obtain y where y: "0 \<le> y" "y < 400" "startY y \<le> doe" "doe < startY y + yearLen y"
    using year_of_day by blast
  define doy where "doy = doe - startY y"
  have doy: "0 \<le> doy" "doy < yearLen y" "doe = startY y + doy" using y by (simp_all add: doy_def)
  obtain m d where md: "monthDay doy = (m, d)" by fastforce
  have cur: "dateOfDay days = (if m \<le> 2 then y + 400 * era + 1 else y + 400 * era, m, d)"
    using dateOfDay_eq [OF z[unfolded doy(3)] y(1,2) doy(1,2)] md by simp
  note len = year_facts(4) [OF y(1,2)] and leap = yearLen_leap [OF y(1,2), of era]
  show ?thesis
  proof (cases "doy + 1 < yearLen y")
    case True
    then have lt: "doy < 365" using len by auto
    note mf = month_facts [OF doy(1) lt md]
    have "(days + 1) + 719468 = 146097 * era + (startY y + (doy + 1))" using z doy(3) by simp
    from dateOfDay_eq [OF this y(1,2)] True doy(1)
    have nxt: "dateOfDay (days + 1) = (case monthDay (doy + 1) of (m, d) \<Rightarrow>
        (if m \<le> 2 then y + 400 * era + 1 else y + 400 * era, m, d))" by simp
    have feb: "d < 28 \<or> d = 28 \<and> leapYear (y + 400 * era + 1)" if "m = 2"
      using mf(2) [OF that] True lt len leap by auto
    show ?thesis
      unfolding nxt cur mf(1) using mf(3,4) feb by (auto simp: monthLength_def)
  next
    case False
    then have last: "doy = yearLen y - 1" using doy(2) by simp
    have fin: "nextDate (dateOfDay days) = (y + 400 * era + 1, 3, 1)"
      using len leap md unfolding last cur by (auto simp: monthDay_ends monthLength_def)
    show ?thesis
    proof (cases "y = 399")
      case True
      have "(days + 1) + 719468 = 146097 * (era + 1) + (startY 0 + 0)"
        using z doy(3) last True startY_399 by simp
      from dateOfDay_eq [OF this] have "dateOfDay (days + 1) = (400 * (era + 1), 3, 1)"
        using year_facts(4) [of 0] by (auto simp: monthDay_ends)
      then show ?thesis using fin True by simp
    next
      case False
      have "(days + 1) + 719468 = 146097 * era + (startY (y + 1) + 0)"
        using z doy(3) last startY_Suc y(1,2) False by simp
      from dateOfDay_eq [OF this] have "dateOfDay (days + 1) = (y + 1 + 400 * era, 3, 1)"
        using year_facts(4) [of "y + 1"] y(1,2) False by (auto simp: monthDay_ends)
      then show ?thesis using fin by simp
    qed
  qed
qed

definition validDate :: "int \<times> int \<times> int \<Rightarrow> bool" where
  "validDate = (\<lambda>(y, m, d). 1 \<le> m \<and> m \<le> 12 \<and> 1 \<le> d \<and> d \<le> monthLength y m)"

lemma nextDate_valid: "validDate x \<Longrightarrow> validDate (nextDate x)"
  by (cases x) (auto simp: validDate_def monthLength_def)

lemma dateOfDay_0: "dateOfDay 0 = (1970, 1, 1)"
  by code_simp

lemma dateOfDay_valid: "validDate (dateOfDay (int n))"
proof (induction n)
  case 0
  show ?case by (simp add: dateOfDay_0 validDate_def monthLength_def)
next
  case (Suc n)
  then show ?case using dateOfDay_step [of "int n"] nextDate_valid by (simp add: add.commute)
qed

lemma nextDate_year: "fst (nextDate x) = fst x \<or> fst (nextDate x) = fst x + 1"
  by (cases x) simp

lemma dateOfDay_year:
  assumes "0 \<le> days" "days < 100000"
  shows "0 \<le> fst (dateOfDay days) \<and> fst (dateOfDay days) < 10000"
proof -
  have yr: "fst (dateOfDay days) = yearOfEra ((days + 719468) mod 146097) + (days + 719468) div 146097 * 400
      \<or> fst (dateOfDay days) = yearOfEra ((days + 719468) mod 146097) + (days + 719468) div 146097 * 400 + 1"
    by (simp add: dateOfDay_def Let_def split: prod.splits)
  have "0 \<le> (days + 719468) mod 146097" "(days + 719468) mod 146097 < 146097" by simp_all
  then obtain y where y: "0 \<le> y" "y < 400" "yearOfEra ((days + 719468) mod 146097) = y"
    using year_of_day [of "(days + 719468) mod 146097"] yearOfEra_eq by blast
  have "0 \<le> (days + 719468) div 146097" "(days + 719468) div 146097 \<le> 5" using assms by linarith+
  then show ?thesis using yr y by auto
qed

text \<open>Reading the fields of a formatted time back.\<close>

definition charValue :: "char \<Rightarrow> int" where "charValue c = int (code_of c) - 48"

definition fieldOf :: "string \<Rightarrow> nat \<Rightarrow> nat \<Rightarrow> int" where
  "fieldOf s i n = foldl (\<lambda>a c. 10 * a + charValue c) 0 (take n (drop i s))"

lemma charValue_digit: "charValue (digit v) = v mod 10"
proof -
  have "0 \<le> v mod 10" "v mod 10 < 10" by simp_all
  then have "nat (v mod 10) < 10" by linarith
  then show ?thesis using \<open>0 \<le> v mod 10\<close> by (simp add: charValue_def digit_def)
qed

lemma two_value: "10 * (v div 10 mod 10) + v mod 10 = v" if "0 \<le> v" "v < 100" for v :: int
proof -
  have "0 \<le> v div 10" "v div 10 < 10" using that by linarith+
  then have "v div 10 mod 10 = v div 10" by simp
  then show ?thesis by simp
qed

lemma four_value:
  "10 * (10 * (10 * (v div 1000 mod 10) + v div 100 mod 10) + v div 10 mod 10) + v mod 10 = v"
  if "0 \<le> v" "v < 10000" for v :: int
proof -
  have "v div (10 * 10) = v div 10 div 10" "v div (100 * 10) = v div 100 div 10"
    by (rule zdiv_zmult2_eq; simp)+
  then have e: "v div 100 = v div 10 div 10" "v div 1000 = v div 10 div 10 div 10" by simp_all
  have "0 \<le> v div 1000" "v div 1000 < 10" using that by linarith+
  then have "v div 1000 mod 10 = v div 1000" by simp
  then show ?thesis unfolding e by simp
qed

lemma fieldOf_two: "take 2 (drop i s) = two v \<Longrightarrow> 0 \<le> v \<Longrightarrow> v < 100 \<Longrightarrow> fieldOf s i 2 = v"
  unfolding fieldOf_def two_def using two_value [of v] by (simp add: charValue_digit)

lemma fieldOf_four:
  "take 4 (drop i s) = [digit (v div 1000), digit (v div 100), digit (v div 10), digit v] \<Longrightarrow>
     0 \<le> v \<Longrightarrow> v < 10000 \<Longrightarrow> fieldOf s i 4 = v"
  unfolding fieldOf_def
  by (simp only: foldl.simps charValue_digit mult_zero_right add_0_left four_value)

lemma hms_split:
  assumes "0 \<le> r" "r < 86400"
  shows "0 \<le> r div 3600 \<and> r div 3600 < 24 \<and> 0 \<le> r mod 3600 div 60 \<and> r mod 3600 div 60 < 60
    \<and> 0 \<le> r mod 3600 mod 60 \<and> r mod 3600 mod 60 < 60
    \<and> r div 3600 * 3600 + r mod 3600 div 60 * 60 + r mod 3600 mod 60 = (r :: int)"
proof -
  have "0 \<le> r div 3600 \<and> r div 3600 < 24" using assms by (auto simp: pos_imp_zdiv_nonneg_iff)
  moreover have "0 \<le> q div 60 \<and> q div 60 < 60" if "0 \<le> q" "q < 3600" for q :: int
    using that by (auto simp: pos_imp_zdiv_nonneg_iff)
  then have "0 \<le> r mod 3600 div 60 \<and> r mod 3600 div 60 < 60" by simp
  moreover have "r div 3600 * 3600 + (r mod 3600 div 60 * 60 + r mod 3600 mod 60) = r"
    by (simp only: div_mult_mod_eq)
  ultimately show ?thesis by (simp add: add.assoc)
qed

section \<open>Properties\<close>

text \<open>C16: a client that polls the log loses nothing silently. Whatever was recorded, the handler
  returns the entries after its cursor in order, oldest first, each once, and the newest sequence
  number as the next cursor; if it could not return all of them (evicted, or more than
  64) it returns the newest ones and sets the gap flag, and it sets it only then.\<close>

theorem api_log_complete_or_gap:
  assumes "length calls < 2 ^ 32 - 1"
  shows "let h = history calls; (events, gap, newest) = api_log (logAll calls) since in
      unat newest = length h
    \<and> events = drop (max (unat since) (length h - min 64 (length events))) h
    \<and> length events = min 64 (length h - unat since)
    \<and> gap = (unat since + length events < length h)"
proof -
  let ?log = "logAll calls" and ?h = "history calls"
  have inv: "logInv ?log ?h" by (rule logInv_all) (use assms in simp)
  have len: "length ?h < 2 ^ 32 - 1" using assms by simp
  note c = logInv_counters [OF inv len]
  obtain events gap newest where api: "api_log ?log since = (events, gap, newest)" by (metis prod_cases3)
  have newest: "unat newest = length ?h" using api c(4) by (auto simp: api_log_def Let_def split: if_splits)
  have gap0: "eventLogGapSince ?log since \<longleftrightarrow> unat since < length ?h - 128"
  proof -
    have "unat (eventLogOldestSeq ?log - 1) = length ?h - 128"
      using c(3) by (subst unat_sub_no_wrap) (simp_all add: EventLogCapacity_def)
    then show ?thesis by (simp add: eventLogGapSince_def word_less_nat_alt)
  qed
  have drop_eq: "map (\<lambda>i. ?h ! (m + i)) [0..<length ?h - m] = drop m ?h" for m
    by (rule nth_equalityI) simp_all
  have "events = drop (max (unat since) (length ?h - min 64 (length events))) ?h
    \<and> length events = min 64 (length ?h - unat since)
    \<and> gap = (unat since + length events < length ?h)"
  proof (cases "unat since < length ?h")
    case False
    then have "eventLogCountSince ?log since = 0" using eventLogCountSince_zero [OF inv len] by simp
    then show ?thesis using api gap0 False by (auto simp: api_log_def Let_def const_defs)
  next
    case True
    note f = eventLogFrom_eq [OF inv len True]
    let ?n0 = "length ?h - max (unat since) (length ?h - 128)"
    have n0: "unat (eventLogCountSince ?log since) = ?n0" using f(2) by (simp add: EventLogCapacity_def)
    show ?thesis
    proof (cases "?n0 > 64")
      case big: True
      define since' where "since' = eventLogNewestSeq ?log - 64"
      have s': "unat since' = length ?h - 64"
        using c(4) big unfolding since'_def by (subst unat_sub_no_wrap) simp_all
      have "events = fetchEvents ?log since' [0..<64]" "gap"
        using api big n0 by (auto simp: api_log_def Let_def MaxPerResponse_def since'_def word_less_nat_alt)
      moreover have "unat since' < length ?h" "max (unat since') (length ?h - EventLogCapacity) = length ?h - 64"
        using s' big by (auto simp: EventLogCapacity_def)
      moreover have all: "length ?h - (length ?h - 64) = 64" using big by linarith
      ultimately have "events = map (\<lambda>i. ?h ! (length ?h - 64 + i)) [0..<length ?h - (length ?h - 64)]"
        using fetchEvents_eq [OF inv len, of since' 64 0] by (simp only: all order_refl)
      then have ev: "events = drop (length ?h - 64) ?h" unfolding drop_eq .
      then have l: "length events = 64" using big by simp
      have "unat since \<le> max (unat since) (length ?h - 128)" by simp
      then have lt: "unat since + 64 < length ?h" using big by linarith
      then have "max (unat since) (length ?h - 64) = length ?h - 64" by simp
      then show ?thesis using ev l \<open>gap\<close> lt by simp
    next
      case small: False
      have "\<not> eventLogCountSince ?log since > MaxPerResponse"
        using small n0 by (simp add: MaxPerResponse_def word_less_nat_alt)
      then have e: "events = fetchEvents ?log since [0..<?n0]" "gap = eventLogGapSince ?log since"
        using api n0 by (auto simp: api_log_def Let_def)
      have ge: "length ?h - 128 \<le> unat since" using small by (cases "length ?h \<le> 128") auto
      then have m: "max (unat since) (length ?h - EventLogCapacity) = unat since"
        by (simp add: EventLogCapacity_def)
      have "events = map (\<lambda>i. ?h ! (unat since + i)) [0..<length ?h - unat since]"
        using fetchEvents_eq [OF inv len True, of "?n0" 0] e(1) ge m
        by (simp add: EventLogCapacity_def)
      then have ev: "events = drop (unat since) ?h" using drop_eq by simp
      have "?n0 = length ?h - unat since" using ge by (simp add: max_def)
      with small have "length ?h - unat since \<le> 64" by simp
      then show ?thesis using ev e(2) gap0 ge by (auto simp: max_def min_def)
    qed
  qed
  then show ?thesis unfolding Let_def api prod.case using newest by blast
qed

lemma api_log_complete_or_gap_witness:
  "(case api_log (logAll [(0, Some ''a'', 5, 1), (1, None, 6, 2)]) 1 of
      (events, gap, newest) \<Rightarrow> length events = 1 \<and> \<not> gap \<and> unat newest = 2)"
  using api_log_complete_or_gap [of "[(0, Some ''a'', 5, 1), (1, None, 6, 2)]" 1]
  by (auto simp: Let_def)

text \<open>The time stamps are right for the whole 32-bit range. Day 0 is 1970-01-01, the date of the
  next day is the calendar's successor of the date (month lengths and leap years included),
  every date is valid, hours, minutes and seconds are those of the second of the day, and
  the formatted text reads back as these fields in the shape \<open>YYYY-MM-DDTHH:MM:SSZ\<close>.\<close>

theorem calendar_correct:
  assumes "epoch \<noteq> 0" "21 \<le> bufSize"
  shows "let t = civilFromEpoch epoch; date = (ctYear t, ctMonth t, ctDay t) in
      date = (nextDate ^^ (unat epoch div 86400)) (1970, 1, 1)
    \<and> validDate date
    \<and> ctHour t * 3600 + ctMinute t * 60 + ctSecond t = uint epoch mod 86400
    \<and> ctHour t < 24 \<and> ctMinute t < 60 \<and> ctSecond t < 60
    \<and> (\<exists>s. formatIso8601 bufSize epoch = Some s \<and> length s = 20
        \<and> (fieldOf s 0 4, fieldOf s 5 2, fieldOf s 8 2) = date
        \<and> fieldOf s 11 2 = ctHour t \<and> fieldOf s 14 2 = ctMinute t \<and> fieldOf s 17 2 = ctSecond t
        \<and> [s ! 4, s ! 7, s ! 10, s ! 13, s ! 16, s ! 19] = ''--T::Z'')"
proof -
  define t where "t = civilFromEpoch epoch"
  define days where "days = uint epoch div 86400"
  have d: "0 \<le> days" "days < 100000"
  proof -
    have "0 \<le> uint epoch" "uint epoch < 4294967296" using uint_lt2p [of epoch] by simp_all
    then show "0 \<le> days" "days < 100000" unfolding days_def by linarith+
  qed
  have dn: "days = int (unat epoch div 86400)" by (simp add: days_def of_nat_div)
  have date: "(ctYear t, ctMonth t, ctDay t) = dateOfDay days"
    unfolding t_def days_def by (rule civilFromEpoch_fields(1))
  have "dateOfDay (int n) = (nextDate ^^ n) (1970, 1, 1)" for n
  proof (induction n)
    case (Suc n)
    have e: "int (Suc n) = int n + 1" by simp
    show ?case unfolding e using dateOfDay_step [of "int n"] Suc by simp
  qed (simp add: dateOfDay_0)
  then have iter: "(ctYear t, ctMonth t, ctDay t) = (nextDate ^^ (unat epoch div 86400)) (1970, 1, 1)"
    unfolding date dn .
  have valid: "validDate (ctYear t, ctMonth t, ctDay t)" unfolding date dn by (rule dateOfDay_valid)
  have yr: "0 \<le> ctYear t" "ctYear t < 10000"
    using dateOfDay_year [OF d] unfolding date [symmetric] by simp_all
  have mon: "0 \<le> ctMonth t" "ctMonth t < 100" "0 \<le> ctDay t" "ctDay t < 100"
    using valid by (auto simp: validDate_def monthLength_def split: if_splits)
  have hms: "ctHour t = uint epoch mod 86400 div 3600"
    "ctMinute t = uint epoch mod 86400 mod 3600 div 60" "ctSecond t = uint epoch mod 86400 mod 3600 mod 60"
    unfolding t_def by (rule civilFromEpoch_fields)+
  have r: "0 \<le> uint epoch mod 86400" "uint epoch mod 86400 < 86400" by simp_all
  then have hms2: "0 \<le> ctHour t" "ctHour t < 24" "0 \<le> ctMinute t" "ctMinute t < 60"
    "0 \<le> ctSecond t" "ctSecond t < 60"
    "ctHour t * 3600 + ctMinute t * 60 + ctSecond t = uint epoch mod 86400"
    unfolding hms using hms_split [of "uint epoch mod 86400"] by blast+
  obtain s where s: "formatIso8601 bufSize epoch = Some s"
    "s = [digit (ctYear t div 1000), digit (ctYear t div 100), digit (ctYear t div 10), digit (ctYear t),
      CHR ''-'', digit (ctMonth t div 10), digit (ctMonth t), CHR ''-'', digit (ctDay t div 10),
      digit (ctDay t), CHR ''T'', digit (ctHour t div 10), digit (ctHour t), CHR '':'',
      digit (ctMinute t div 10), digit (ctMinute t), CHR '':'', digit (ctSecond t div 10),
      digit (ctSecond t), CHR ''Z'']"
    using assms by (simp add: formatIso8601_def Let_def two_def t_def)
  have "fieldOf s 0 4 = ctYear t" by (rule fieldOf_four) (simp add: s(2), use yr in simp_all)
  moreover have "fieldOf s 5 2 = ctMonth t" by (rule fieldOf_two) (simp add: s(2) two_def, use mon in simp_all)
  moreover have "fieldOf s 8 2 = ctDay t" by (rule fieldOf_two) (simp add: s(2) two_def, use mon in simp_all)
  moreover have "fieldOf s 11 2 = ctHour t" by (rule fieldOf_two) (simp add: s(2) two_def, use hms2 in simp_all)
  moreover have "fieldOf s 14 2 = ctMinute t" by (rule fieldOf_two) (simp add: s(2) two_def, use hms2 in simp_all)
  moreover have "fieldOf s 17 2 = ctSecond t" by (rule fieldOf_two) (simp add: s(2) two_def, use hms2 in simp_all)
  moreover have "length s = 20" "[s ! 4, s ! 7, s ! 10, s ! 13, s ! 16, s ! 19] = ''--T::Z''"
    by (simp_all add: s(2))
  ultimately show ?thesis
    using iter valid hms2 s(1) unfolding Let_def t_def [symmetric] by simp
qed

lemma calendar_correct_witness:
  "civilFromEpoch 951782400 = \<lparr>ctYear = 2000, ctMonth = 2, ctDay = 29, ctHour = 0, ctMinute = 0, ctSecond = 0\<rparr>
   \<and> formatIso8601 21 951782400 = Some ''2000-02-29T00:00:00Z''
   \<and> validDate (2000, 2, 29)"
proof -
  have c: "civilFromEpoch 951782400
      = \<lparr>ctYear = 2000, ctMonth = 2, ctDay = 29, ctHour = 0, ctMinute = 0, ctSecond = 0\<rparr>"
    by code_simp
  have f: "formatIso8601 21 951782400 = Some ''2000-02-29T00:00:00Z''"
    by code_simp
  have p: "(951782400 :: u32) \<noteq> 0" "(21 :: nat) \<le> 21" by simp_all
  note cal = calendar_correct [OF p, unfolded Let_def c]
  show ?thesis using c f conjunct1 [OF conjunct2 [OF cal]] by (simp only: simp_thms CivilTime.simps)
qed

end
