(* ===== verification/Stream_Ring.thy ===== *)
theory Stream_Ring
  imports Prelude
begin

text \<open>
  \<open>src/src/stream_ring.h\<close> and the streaming half of \<open>src/src/waveform.cpp\<close>: playback of a
  waveform too large for memory through two buffers that the PWM interrupt drains and the main
  loop refills from the SD card.

  The ring's operations are the header's, one definition each. The interrupt preempts the loop
  and never the reverse, so a call of \<open>next\<close> is one step, while a refill is many: \<open>playStep\<close>
  interleaves interrupt calls with claiming a buffer, every read of the SD loop (with the memory
  of the buffer in any state while it runs) and the publication. The lemmas show
  that the interrupt never reads a buffer being refilled, and that without an underrun the
  samples come out in the order of the file, repeated.
\<close>

section \<open>The ring\<close>

record StreamRing =
  published :: "nat \<Rightarrow> u32"
  active :: byte
  ridx :: u16
  lastSample :: u16
  underruns :: u32

definition RefillRequested :: u32 where [const_defs]: "RefillRequested = 0x10000"
definition Filling :: u32 where [const_defs]: "Filling = 0x20000"

definition ringReset :: StreamRing where
  "ringReset = \<lparr>published = (\<lambda>_. 0), active = 0, ridx = 0, lastSample = 0, underruns = 0\<rparr>"

definition storePublished :: "nat \<Rightarrow> u32 \<Rightarrow> StreamRing \<Rightarrow> StreamRing" where
  "storePublished k w r = r\<lparr>published := (published r)(k := w)\<rparr>"

definition casPublished :: "nat \<Rightarrow> u32 \<Rightarrow> u32 \<Rightarrow> StreamRing \<Rightarrow> bool \<times> StreamRing" where
  "casPublished k expected desired r =
     (if published r k = expected then (True, storePublished k desired r) else (False, r))"

definition validCount :: "StreamRing \<Rightarrow> nat \<Rightarrow> u16" where
  "validCount r k = ucast (published r k)"

definition refillNeeded :: "StreamRing \<Rightarrow> nat \<Rightarrow> bool" where
  "refillNeeded r k \<longleftrightarrow> published r k = RefillRequested"

definition beginRefill :: "nat \<Rightarrow> StreamRing \<Rightarrow> bool \<times> StreamRing" where
  "beginRefill k r = casPublished k RefillRequested Filling r"

definition markFilled :: "nat \<Rightarrow> u16 \<Rightarrow> StreamRing \<Rightarrow> StreamRing" where
  "markFilled k n r = storePublished k (ucast n) r"

text \<open>\<open>next\<close>: hand an exhausted buffer back; if the active one holds nothing, try the other and
  otherwise hold the last sample.\<close>

definition ringRetire :: "StreamRing \<Rightarrow> StreamRing" where
  "ringRetire r =
     (if validCount r (unat (active r)) \<noteq> 0 \<and> validCount r (unat (active r)) \<le> ridx r
      then (storePublished (unat (active r)) RefillRequested r)
             \<lparr>active := active r XOR 1, ridx := 0\<rparr>
      else r)"

definition ringEmit :: "(nat \<Rightarrow> u16 list) \<Rightarrow> StreamRing \<Rightarrow> u16 \<times> StreamRing" where
  "ringEmit bufs r =
     (let s = bufs (unat (active r)) ! unat (ridx r)
      in (s, r\<lparr>ridx := ridx r + 1, lastSample := s\<rparr>))"

definition ringStarved :: "(nat \<Rightarrow> u16 list) \<Rightarrow> StreamRing \<Rightarrow> u16 \<times> StreamRing" where
  "ringStarved bufs r =
     (let r = snd (casPublished (unat (active r)) 0 RefillRequested r);
          other = active r XOR 1
      in if validCount r (unat other) \<noteq> 0
         then ringEmit bufs (r\<lparr>active := other, ridx := 0\<rparr>)
         else let r = snd (casPublished (unat other) 0 RefillRequested r)
              in (lastSample r, r\<lparr>underruns := underruns r + 1\<rparr>))"

definition ringNext :: "(nat \<Rightarrow> u16 list) \<Rightarrow> StreamRing \<Rightarrow> u16 \<times> StreamRing" where
  "ringNext bufs r =
     (let r = ringRetire r
      in if validCount r (unat (active r)) = 0 then ringStarved bufs r else ringEmit bufs r)"

section \<open>Refilling from the SD card\<close>

definition StreamBufSamples :: u32 where [const_defs]: "StreamBufSamples = 16384"

record Player =
  ring :: StreamRing
  streamBufs :: "nat \<Rightarrow> u16 list"
  streamNextSample :: u32

text \<open>One turn of the refill loop for buffer \<open>k\<close> with \<open>tot\<close> samples in it: \<open>rd off n\<close> is what
  reading \<open>n\<close> samples at sample \<open>off\<close> of the open file returns, \<open>None\<close> a short read.\<close>

definition fillWant :: "u32 \<Rightarrow> u32 \<Rightarrow> Player \<Rightarrow> u32" where
  "fillWant storedCount tot p =
     (let remaining = storedCount - streamNextSample p; n = StreamBufSamples - tot
      in if n > remaining then remaining else n)"

definition fillGot :: "u32 \<Rightarrow> nat \<Rightarrow> u32 \<Rightarrow> u16 list \<Rightarrow> Player \<Rightarrow> u32 \<times> Player" where
  "fillGot storedCount k tot xs p =
     (let n = fillWant storedCount tot p; nxt = streamNextSample p + n
      in (tot + n,
          p\<lparr>streamBufs := (streamBufs p)(k :=
               take (unat tot) (streamBufs p k) @ xs @ drop (unat tot + unat n) (streamBufs p k)),
            streamNextSample := (if nxt \<ge> storedCount then 0 else nxt)\<rparr>))"

partial_function (option) fillLoop ::
    "u32 \<Rightarrow> (u32 \<Rightarrow> u32 \<Rightarrow> u16 list option) \<Rightarrow> nat \<Rightarrow> u32 \<Rightarrow> Player \<Rightarrow> (u32 \<times> Player) option" where
  "fillLoop storedCount rd k tot p =
     (if tot < StreamBufSamples
      then case rd (streamNextSample p) (fillWant storedCount tot p) of
             None \<Rightarrow> Some (tot, p)
           | Some xs \<Rightarrow> (case fillGot storedCount k tot xs p of
               (tot', p') \<Rightarrow> fillLoop storedCount rd k tot' p')
      else Some (tot, p))"

definition publishFill :: "nat \<Rightarrow> u32 \<Rightarrow> Player \<Rightarrow> Player" where
  "publishFill k tot p = p\<lparr>ring := markFilled k (ucast tot) (ring p)\<rparr>"

definition fillStreamBuffer ::
    "u32 \<Rightarrow> (u32 \<Rightarrow> u32 \<Rightarrow> u16 list option) \<Rightarrow> nat \<Rightarrow> Player \<Rightarrow> Player option" where
  "fillStreamBuffer storedCount rd k p =
     map_option (\<lambda>(tot, p'). publishFill k tot p') (fillLoop storedCount rd k 0 p)"

definition streamTaskTurn ::
    "u32 \<Rightarrow> (u32 \<Rightarrow> u32 \<Rightarrow> u16 list option) \<Rightarrow> nat \<Rightarrow> Player \<Rightarrow> Player option" where
  "streamTaskTurn storedCount rd k p =
     (case beginRefill k (ring p) of
        (True, r) \<Rightarrow> fillStreamBuffer storedCount rd k (p\<lparr>ring := r\<rparr>)
      | (False, _) \<Rightarrow> Some p)"

definition waveformStreamTask ::
    "bool \<Rightarrow> u32 \<Rightarrow> (u32 \<Rightarrow> u32 \<Rightarrow> u16 list option) \<Rightarrow> Player \<Rightarrow> Player option" where
  "waveformStreamTask streaming storedCount rd p =
     (if \<not> streaming then Some p
      else Option.bind (streamTaskTurn storedCount rd 0 p) (streamTaskTurn storedCount rd 1))"

definition waveformStreamNext :: "Player \<Rightarrow> u16 \<times> Player" where
  "waveformStreamNext p =
     (case ringNext (streamBufs p) (ring p) of (s, r) \<Rightarrow> (s, p\<lparr>ring := r\<rparr>))"

section \<open>Interleaving of the interrupt and the loop\<close>

text \<open>The program state with the loop's position (the buffer it owns and how much it holds), the
  samples the interrupt has played and whether it ever had to hold one.\<close>

record Play = Player +
  filler :: "(nat \<times> u32) option"
  played :: "u16 list"
  held :: bool

definition playPlayer :: "Play \<Rightarrow> Player" where
  "playPlayer s = \<lparr>ring = ring s, streamBufs = streamBufs s, streamNextSample = streamNextSample s\<rparr>"

definition withPlayer :: "Player \<Rightarrow> Play \<Rightarrow> Play" where
  "withPlayer p s = s\<lparr>ring := ring p, streamBufs := streamBufs p,
     streamNextSample := streamNextSample p\<rparr>"

text \<open>Activation of a stored waveform: reset, then both buffers filled before playback starts.\<close>

definition playStart :: "Player \<Rightarrow> Play" where
  "playStart p = \<lparr>ring = ring p, streamBufs = streamBufs p, streamNextSample = streamNextSample p,
     filler = None, played = [], held = False\<rparr>"

definition activateStreaming ::
    "u32 \<Rightarrow> (u32 \<Rightarrow> u32 \<Rightarrow> u16 list option) \<Rightarrow> (nat \<Rightarrow> u16 list) \<Rightarrow> Player option" where
  "activateStreaming storedCount rd bufs =
     Option.bind
       (fillStreamBuffer storedCount rd 0
          \<lparr>ring = ringReset, streamBufs = bufs, streamNextSample = 0\<rparr>)
       (fillStreamBuffer storedCount rd 1)"

inductive playStep :: "u16 list \<Rightarrow> Play \<Rightarrow> Play \<Rightarrow> bool" for wave where
  isr: "waveformStreamNext (playPlayer s) = (x, p) \<Longrightarrow>
    playStep wave s
      ((withPlayer p s)\<lparr>played := played s @ [x],
         held := held s \<or> underruns (ring p) \<noteq> underruns (ring s)\<rparr>)"
| claim: "filler s = None \<Longrightarrow> k < 2 \<Longrightarrow> beginRefill k (ring s) = (True, r) \<Longrightarrow>
    playStep wave s (s\<lparr>ring := r, filler := Some (k, 0)\<rparr>)"
| scribble: "filler s = Some (k, tot) \<Longrightarrow> tot < StreamBufSamples \<Longrightarrow>
    length junk = length (streamBufs s k) \<Longrightarrow>
    take (unat tot) junk = take (unat tot) (streamBufs s k) \<Longrightarrow>
    playStep wave s (s\<lparr>streamBufs := (streamBufs s)(k := junk)\<rparr>)"
| got: "filler s = Some (k, tot) \<Longrightarrow> tot < StreamBufSamples \<Longrightarrow>
    n = fillWant (of_nat (length wave)) tot (playPlayer s) \<Longrightarrow>
    fillGot (of_nat (length wave)) k tot
      (take (unat n) (drop (unat (streamNextSample s)) wave)) (playPlayer s) = (tot', p) \<Longrightarrow>
    playStep wave s ((withPlayer p s)\<lparr>filler := Some (k, tot')\<rparr>)"
| publish: "filler s = Some (k, tot) \<Longrightarrow>
    playStep wave s ((withPlayer (publishFill k tot (playPlayer s)) s)\<lparr>filler := None\<rparr>)"

inductive playReach :: "u16 list \<Rightarrow> (u32 \<Rightarrow> u32 \<Rightarrow> u16 list option) \<Rightarrow> Play \<Rightarrow> bool" for wave rd where
  start: "activateStreaming (of_nat (length wave)) rd bufs = Some p \<Longrightarrow>
    length (bufs 0) = unat StreamBufSamples \<Longrightarrow> length (bufs 1) = unat StreamBufSamples \<Longrightarrow>
    playReach wave rd (playStart p)"
| step: "playReach wave rd s \<Longrightarrow> playStep wave s s' \<Longrightarrow> playReach wave rd s'"

text \<open>The SD card's part: a read that is not short returns the file's samples.\<close>

definition reads_wave :: "u16 list \<Rightarrow> (u32 \<Rightarrow> u32 \<Rightarrow> u16 list option) \<Rightarrow> bool" where
  "reads_wave wave rd \<longleftrightarrow>
     (\<forall>off n xs. rd off n = Some xs \<longrightarrow> unat off + unat n \<le> length wave \<longrightarrow>
        xs = take (unat n) (drop (unat off) wave))"

definition sdServes :: "u16 list \<Rightarrow> u32 \<Rightarrow> u32 \<Rightarrow> u16 list option" where
  "sdServes wave off n = Some (take (unat n) (drop (unat off) wave))"

section \<open>The cases of one interrupt call\<close>

definition otherBuf :: "StreamRing \<Rightarrow> nat" where
  "otherBuf r = 1 - unat (active r)"

abbreviation valids :: "StreamRing \<Rightarrow> nat \<Rightarrow> nat" where
  "valids r k \<equiv> unat (validCount r k)"

definition requested :: "u32 \<Rightarrow> u32" where
  "requested w = (if w = 0 then RefillRequested else w)"

definition ringOk :: "StreamRing \<Rightarrow> bool" where
  "ringOk r \<longleftrightarrow> unat (active r) < 2 \<and> unat (ridx r) \<le> valids r (unat (active r))
     \<and> (\<forall>k<2. published r k \<in> {0, RefillRequested, Filling} \<or> unat (published r k) \<le> 16384)"

lemma unat_active_flip: "unat x < 2 \<Longrightarrow> unat (x XOR 1) = 1 - unat x" for x :: byte
proof -
  assume "unat x < 2"
  then have "x = 0 \<or> x = 1" by (auto simp: word_unat_eq_iff)
  then show ?thesis by auto
qed

lemma other_less [simp]: "unat (active r) < 2 \<Longrightarrow> otherBuf r < 2"
  and other_neq [simp]: "unat (active r) < 2 \<Longrightarrow> otherBuf r \<noteq> unat (active r)"
  unfolding otherBuf_def by arith+

lemma below_2_cases: "k < 2 \<Longrightarrow> unat (active r) < 2 \<Longrightarrow> k = unat (active r) \<or> k = otherBuf r"
  by (auto simp: otherBuf_def)

lemma valid_special [simp]:
  "(ucast RefillRequested :: u16) = 0" "(ucast Filling :: u16) = 0"
  "(ucast (requested w) :: u16) = ucast w"
  by (simp_all add: RefillRequested_def Filling_def requested_def)

lemma ringNext_playing:
  assumes "ringOk r" "ridx r < validCount r (unat (active r))"
  shows "ringNext bufs r =
      (bufs (unat (active r)) ! unat (ridx r),
       r\<lparr>ridx := ridx r + 1, lastSample := bufs (unat (active r)) ! unat (ridx r)\<rparr>)"
proof -
  have "ringRetire r = r" using assms(2) by (auto simp: ringRetire_def not_le)
  moreover have "validCount r (unat (active r)) \<noteq> 0" using assms(2) by auto
  ultimately show ?thesis by (simp add: ringNext_def ringEmit_def Let_def)
qed

lemma ringNext_flip:
  assumes "ringOk r" "ridx r = validCount r (unat (active r))" "validCount r (otherBuf r) \<noteq> 0"
  shows "ringNext bufs r =
      (bufs (otherBuf r) ! 0,
       r\<lparr>published := (published r)(unat (active r) :=
            if validCount r (unat (active r)) \<noteq> 0 then RefillRequested
            else requested (published r (unat (active r)))),
         active := active r XOR 1, ridx := 1, lastSample := bufs (otherBuf r) ! 0\<rparr>)"
proof -
  have a: "unat (active r) < 2" using assms(1) by (simp add: ringOk_def)
  note fl = unat_active_flip [OF a]
  have o: "1 - unat (active r) \<noteq> unat (active r)" "Suc 0 - unat (active r) \<noteq> unat (active r)"
    using a by arith+
  show ?thesis
  proof (cases "validCount r (unat (active r)) = 0")
    case False
    then have "ringRetire r = (storePublished (unat (active r)) RefillRequested r)
        \<lparr>active := active r XOR 1, ridx := 0\<rparr>"
      using assms(2) by (simp add: ringRetire_def)
    then show ?thesis
      using False assms(3) o
      by (simp add: ringNext_def ringEmit_def Let_def fl otherBuf_def validCount_def storePublished_def)
  next
    case True
    then have "ringRetire r = r" by (simp add: ringRetire_def)
    then show ?thesis
      using True assms(3) o
      by (auto simp: ringNext_def ringStarved_def ringEmit_def Let_def fl otherBuf_def validCount_def
          storePublished_def casPublished_def requested_def)
  qed
qed

lemma ringNext_underrun:
  assumes "ringOk r" "ridx r = validCount r (unat (active r))" "validCount r (otherBuf r) = 0"
  shows "ringNext bufs r =
      (lastSample r,
       r\<lparr>published := (published r)(unat (active r) :=
            (if validCount r (unat (active r)) \<noteq> 0 then RefillRequested
             else requested (published r (unat (active r)))),
            otherBuf r := requested (published r (otherBuf r))),
         active := (if validCount r (unat (active r)) \<noteq> 0 then active r XOR 1 else active r),
         ridx := 0, underruns := underruns r + 1\<rparr>)"
proof -
  have a: "unat (active r) < 2" using assms(1) by (simp add: ringOk_def)
  note fl = unat_active_flip [OF a]
  have o: "1 - unat (active r) \<noteq> unat (active r)" "Suc 0 - unat (active r) \<noteq> unat (active r)"
    using a by arith+
  have fl2: "unat ((active r XOR 1) XOR 1) = unat (active r)"
    using unat_active_flip [of "active r XOR 1"] a by (simp add: fl)
  show ?thesis
  proof (cases "validCount r (unat (active r)) = 0")
    case False
    then have "ringRetire r = (storePublished (unat (active r)) RefillRequested r)
        \<lparr>active := active r XOR 1, ridx := 0\<rparr>"
      using assms(2) by (simp add: ringRetire_def)
    then show ?thesis
      using False assms(3) o
      by (auto simp: ringNext_def ringStarved_def Let_def fl fl2 otherBuf_def validCount_def
          storePublished_def casPublished_def requested_def RefillRequested_def fun_upd_twist)
  next
    case True
    moreover have "ridx r = 0" using True assms(2) by simp
    moreover have "ringRetire r = r" using True by (simp add: ringRetire_def)
    ultimately show ?thesis
      using assms(3) o
      by (auto simp: ringNext_def ringStarved_def Let_def fl otherBuf_def validCount_def
          storePublished_def casPublished_def requested_def) (cases r, auto simp: fun_eq_iff)+
  qed
qed

lemma ringNext_cases:
  assumes "ringOk r"
  obtains (playing) "ridx r < validCount r (unat (active r))"
    | (flip) "ridx r = validCount r (unat (active r))" "validCount r (otherBuf r) \<noteq> 0"
    | (underrun) "ridx r = validCount r (unat (active r))" "validCount r (otherBuf r) = 0"
proof -
  have "ridx r \<le> validCount r (unat (active r))"
    using assms by (simp add: ringOk_def word_le_nat_alt)
  then show thesis using playing flip underrun by fastforce
qed

section \<open>The interrupt reads only what is published\<close>

definition playInv :: "Play \<Rightarrow> bool" where
  "playInv s \<longleftrightarrow> ringOk (ring s) \<and> (\<forall>k<2. length (streamBufs s k) = 16384)
     \<and> (\<forall>k<2. published (ring s) k = Filling \<longleftrightarrow> (\<exists>t. filler s = Some (k, t)))
     \<and> (\<forall>k t. filler s = Some (k, t) \<longrightarrow> k < 2 \<and> unat t \<le> 16384)"

lemma valids_published:
  assumes "ringOk r" "k < 2"
  shows "valids r k \<le> 16384"
    and "valids r k \<noteq> 0 \<Longrightarrow> unat (published r k) = valids r k"
proof -
  have "published r k \<in> {0, RefillRequested, Filling} \<or> unat (published r k) \<le> 16384"
    using assms by (simp add: ringOk_def)
  then show "valids r k \<le> 16384" "valids r k \<noteq> 0 \<Longrightarrow> unat (published r k) = valids r k"
    by (auto simp: validCount_def unat_ucast_down RefillRequested_def Filling_def)
qed

lemma ringOk_next:
  assumes ok: "ringOk r"
  shows "ringOk (snd (ringNext bufs r))
    \<and> (\<forall>k<2. published (snd (ringNext bufs r)) k = Filling \<longleftrightarrow> published r k = Filling)"
proof -
  have a: "unat (active r) < 2" using ok by (simp add: ringOk_def)
  note va = valids_published [OF ok a]
  have req: "requested w \<in> {0, RefillRequested, Filling} \<or> unat (requested w) \<le> 16384"
    if "w \<in> {0, RefillRequested, Filling} \<or> unat w \<le> 16384" for w
    using that by (auto simp: requested_def)
  have reqF: "requested w = Filling \<longleftrightarrow> w = Filling" for w
    by (auto simp: requested_def RefillRequested_def Filling_def)
  have nF: "RefillRequested \<noteq> Filling" by (simp add: RefillRequested_def Filling_def)
  have vF: "published r k \<noteq> Filling" if "validCount r k \<noteq> 0" for k
    using that by (auto simp: validCount_def)
  have pubs: "\<forall>k<2. published r k \<in> {0, RefillRequested, Filling} \<or> unat (published r k) \<le> 16384"
    using ok by (simp add: ringOk_def)
  from ok show ?thesis
  proof (cases rule: ringNext_cases)
    case playing
    then have "unat (ridx r) < valids r (unat (active r))" by (simp add: word_less_nat_alt)
    then have "unat (ridx r + 1) \<le> valids r (unat (active r))"
      using va(1) by (subst unat_add_no_wrap) simp_all
    then show ?thesis
      using ok by (simp add: ringNext_playing [OF ok playing] ringOk_def validCount_def)
  next
    case flip
    let ?r' = "snd (ringNext bufs r)"
    have p: "published ?r' k = (if k \<noteq> unat (active r) then published r k
        else if validCount r k \<noteq> 0 then RefillRequested else requested (published r k))"
      if "k < 2" for k
      by (simp add: ringNext_flip [OF ok flip])
    have act: "unat (active ?r') = otherBuf r" "ridx ?r' = 1"
      using a by (simp_all add: ringNext_flip [OF ok flip] unat_active_flip otherBuf_def)
    have "validCount ?r' (otherBuf r) = validCount r (otherBuf r)"
      using other_neq [OF a] by (simp add: validCount_def ringNext_flip [OF ok flip])
    moreover have "valids r (otherBuf r) \<noteq> 0" using flip(2) by (simp add: unat_eq_0)
    ultimately have "unat (ridx ?r') \<le> valids ?r' (unat (active ?r'))" by (simp add: act)
    moreover have "published ?r' k \<in> {0, RefillRequested, Filling} \<or> unat (published ?r' k) \<le> 16384"
      if "k < 2" for k
      using p [OF that] req [of "published r k"] pubs that by auto
    moreover have "published ?r' k = Filling \<longleftrightarrow> published r k = Filling" if "k < 2" for k
      using p [OF that] reqF nF vF by auto
    ultimately show ?thesis using a by (simp add: ringOk_def act)
  next
    case underrun
    let ?r' = "snd (ringNext bufs r)"
    have p: "published ?r' k = (if validCount r k \<noteq> 0 then RefillRequested else requested (published r k))"
      if "k < 2" for k
      using below_2_cases [OF that a] underrun(2) other_neq [OF a]
      by (auto simp: ringNext_underrun [OF ok underrun])
    have "unat (active ?r') < 2" "ridx ?r' = 0"
      using a by (auto simp: ringNext_underrun [OF ok underrun] unat_active_flip)
    moreover have "published ?r' k \<in> {0, RefillRequested, Filling} \<or> unat (published ?r' k) \<le> 16384"
      if "k < 2" for k
      using p [OF that] req [of "published r k"] pubs that by auto
    moreover have "published ?r' k = Filling \<longleftrightarrow> published r k = Filling" if "k < 2" for k
      using p [OF that] reqF nF vF by auto
    ultimately show ?thesis by (simp add: ringOk_def)
  qed
qed

lemma ringNext_depends:
  assumes ok: "ringOk r"
    and eq: "\<forall>k<2. take (valids r k) (bufs' k) = take (valids r k) (bufs k)"
    and len: "\<forall>k<2. length (bufs k) = 16384"
  shows "ringNext bufs' r = ringNext bufs r"
proof -
  have a: "unat (active r) < 2" using ok by (simp add: ringOk_def)
  have get: "bufs' k ! i = bufs k ! i" if "k < 2" "i < valids r k" for k i
    using eq that by (metis nth_take)
  from ok show ?thesis
  proof (cases rule: ringNext_cases)
    case playing
    then show ?thesis
      using get [OF a, of "unat (ridx r)"]
      by (simp add: ringNext_playing [OF ok playing] word_less_nat_alt)
  next
    case flip
    then have "0 < valids r (otherBuf r)" by (simp add: unat_gt_0)
    then show ?thesis
      using get [OF other_less [OF a], of 0] by (simp add: ringNext_flip [OF ok flip])
  next
    case underrun
    then show ?thesis by (simp add: ringNext_underrun [OF ok underrun])
  qed
qed

section \<open>One turn of the refill loop\<close>

definition streamSeg :: "u16 list \<Rightarrow> nat \<Rightarrow> nat \<Rightarrow> u16 list" where
  "streamSeg wave p n = map (\<lambda>i. wave ! (i mod length wave)) [p..<p + n]"

lemma streamSeg_0 [simp]: "streamSeg wave p 0 = []"
  and length_streamSeg [simp]: "length (streamSeg wave p n) = n"
  by (simp_all add: streamSeg_def)

lemma streamSeg_add: "streamSeg wave p (m + n) = streamSeg wave p m @ streamSeg wave (p + m) n"
  using upt_add_eq_append [of p "p + m" n]
  by (simp only: streamSeg_def map_append add.assoc le_add1 simp_thms)

lemma streamSeg_contiguous:
  assumes "p mod length wave + n \<le> length wave" "wave \<noteq> []"
  shows "streamSeg wave p n = take n (drop (p mod length wave) wave)"
proof (rule nth_equalityI)
  fix i assume "i < length (streamSeg wave p n)"
  then have i: "i < n" by simp
  have "(p + i) mod length wave = (p mod length wave + i) mod length wave"
    by (simp add: mod_add_left_eq)
  also have "\<dots> = p mod length wave + i" using i assms by simp
  finally show "streamSeg wave p n ! i = take n (drop (p mod length wave) wave) ! i"
    using i assms by (simp add: streamSeg_def)
qed (use assms in simp)

definition fillInv :: "u16 list \<Rightarrow> nat \<Rightarrow> nat \<Rightarrow> u32 \<Rightarrow> Player \<Rightarrow> bool" where
  "fillInv wave base k t p \<longleftrightarrow> unat t \<le> 16384 \<and> length (streamBufs p k) = 16384
     \<and> take (unat t) (streamBufs p k) = streamSeg wave base (unat t)
     \<and> unat (streamNextSample p) = (base + unat t) mod length wave"

definition fileOk :: "u16 list \<Rightarrow> bool" where
  "fileOk wave \<longleftrightarrow> wave \<noteq> [] \<and> length wave < 2 ^ 32"

lemma fillWant_unat:
  assumes "fileOk wave" "unat (streamNextSample p) < length wave" "unat t < 16384"
  shows "unat (fillWant (of_nat (length wave)) t p) =
    min (16384 - unat t) (length wave - unat (streamNextSample p))"
proof -
  have L: "unat (of_nat (length wave) :: u32) = length wave"
    using assms(1) by (simp add: fileOk_def unat_of_nat)
  have 1: "unat (of_nat (length wave) - streamNextSample p) = length wave - unat (streamNextSample p)"
    using assms(2) by (subst unat_sub_no_wrap) (simp_all add: L)
  have 2: "unat (StreamBufSamples - t) = 16384 - unat t"
    using assms(3) by (subst unat_sub_no_wrap) (simp_all add: StreamBufSamples_def)
  show ?thesis
    by (auto simp: fillWant_def Let_def word_less_nat_alt 1 2)
qed

lemma fillGot_inv:
  assumes ok: "fileOk wave" and inv: "fillInv wave base k t p" and t: "t < StreamBufSamples"
    and n: "n = fillWant (of_nat (length wave)) t p"
    and g: "fillGot (of_nat (length wave)) k t
        (take (unat n) (drop (unat (streamNextSample p)) wave)) p = (t', p')"
  shows "fillInv wave base k t' p' \<and> unat t < unat t' \<and> ring p' = ring p
    \<and> (\<forall>j. j \<noteq> k \<longrightarrow> streamBufs p' j = streamBufs p j)"
proof -
  have w: "wave \<noteq> []" using ok by (simp add: fileOk_def)
  have t16: "unat t < 16384" using t by (simp add: word_less_nat_alt StreamBufSamples_def)
  let ?o = "unat (streamNextSample p)"
  have o: "?o = (base + unat t) mod length wave" and len: "length (streamBufs p k) = 16384"
    and tk: "take (unat t) (streamBufs p k) = streamSeg wave base (unat t)"
    using inv by (simp_all add: fillInv_def)
  have ol: "?o < length wave" using w by (simp add: o)
  have nn: "unat n = min (16384 - unat t) (length wave - ?o)"
    unfolding n by (rule fillWant_unat [OF ok ol t16])
  have fit: "?o + unat n \<le> length wave" using nn ol by auto
  have L: "unat (of_nat (length wave) :: u32) = length wave"
    using ok by (simp add: fileOk_def unat_of_nat)
  have sum: "unat (streamNextSample p + n) = ?o + unat n"
    using fit ok by (intro unat_add_no_wrap) (simp add: fileOk_def)
  have tn: "unat (t + n) = unat t + unat n"
    using nn t16 by (intro unat_add_no_wrap) simp
  have xs: "take (unat n) (drop ?o wave) = streamSeg wave (base + unat t) (unat n)"
    using streamSeg_contiguous [of "base + unat t" wave "unat n"] fit w by (simp add: o)
  have t': "t' = t + n" and p': "p' = p\<lparr>streamBufs := (streamBufs p)(k :=
       take (unat t) (streamBufs p k) @ take (unat n) (drop ?o wave)
         @ drop (unat t + unat n) (streamBufs p k)),
      streamNextSample := (if streamNextSample p + n \<ge> of_nat (length wave) then 0
        else streamNextSample p + n)\<rparr>"
    using g by (simp_all add: fillGot_def Let_def flip: n)
  have "unat (streamNextSample p') = (base + unat t') mod length wave"
  proof -
    have m: "(base + unat t') mod length wave = (?o + unat n) mod length wave"
      by (simp add: t' tn o mod_add_left_eq add.assoc [symmetric])
    show ?thesis
    proof (cases "?o + unat n = length wave")
      case True
      then show ?thesis using m by (simp add: p' word_le_nat_alt sum L)
    next
      case False
      then have "?o + unat n < length wave" using fit by simp
      then show ?thesis using m by (simp add: p' word_le_nat_alt sum L)
    qed
  qed
  moreover have "take (unat t') (streamBufs p' k) = streamSeg wave base (unat t')"
    by (simp add: p' t' tn tk xs streamSeg_add)
  ultimately show ?thesis
    using nn t16 len ol by (auto simp: fillInv_def p' t' tn)
qed

lemma fillLoop_runs:
  assumes "fileOk wave" "reads_wave wave rd" "fillInv wave base k t p"
  shows "\<exists>t' p'. fillLoop (of_nat (length wave)) rd k t p = Some (t', p') \<and> fillInv wave base k t' p'
    \<and> ring p' = ring p \<and> (\<forall>j. j \<noteq> k \<longrightarrow> streamBufs p' j = streamBufs p j)
    \<and> ((\<forall>o1 n. rd o1 n \<noteq> None) \<longrightarrow> unat t' = 16384)"
  using assms(3)
proof (induction "16384 - unat t" arbitrary: t p rule: less_induct)
  case less
  let ?n = "fillWant (of_nat (length wave)) t p"
  show ?case
  proof (cases "t < StreamBufSamples")
    case False
    then have "unat t = 16384"
      using less(2) by (simp add: fillInv_def word_less_nat_alt StreamBufSamples_def)
    then show ?thesis using False less(2) by (subst fillLoop.simps) simp
  next
    case t: True
    show ?thesis
    proof (cases "rd (streamNextSample p) ?n")
      case None
      then have "\<not> (\<forall>o1 n. rd o1 n \<noteq> None)" by blast
      then show ?thesis using None t less(2) by (subst fillLoop.simps) (simp del: not_None_eq, blast)
    next
      case (Some xs)
      have t16: "unat t < 16384" using t by (simp add: word_less_nat_alt StreamBufSamples_def)
      have ol: "unat (streamNextSample p) < length wave"
        using less(2) assms(1) by (simp add: fillInv_def fileOk_def)
      have "unat (streamNextSample p) + unat ?n \<le> length wave"
        using fillWant_unat [OF assms(1) ol t16] ol by simp
      then have xs: "xs = take (unat ?n) (drop (unat (streamNextSample p)) wave)"
        using assms(2) Some by (auto simp: reads_wave_def)
      obtain t1 p1 where g: "fillGot (of_nat (length wave)) k t xs p = (t1, p1)"
        by (cases "fillGot (of_nat (length wave)) k t xs p")
      note gi = fillGot_inv [OF assms(1) less(2) t refl g [unfolded xs]]
      then have "unat t < unat t1" by blast
      then have "16384 - unat t1 < 16384 - unat t" using t16 by (rule diff_less_mono2)
      from less(1) [OF this] gi
      obtain t' p' where "fillLoop (of_nat (length wave)) rd k t1 p1 = Some (t', p')"
        "fillInv wave base k t' p'" "ring p' = ring p" "\<forall>j. j \<noteq> k \<longrightarrow> streamBufs p' j = streamBufs p j"
        "(\<forall>o1 n. rd o1 n \<noteq> None) \<longrightarrow> unat t' = 16384" by force
      then show ?thesis using t Some g by (subst fillLoop.simps) auto
    qed
  qed
qed

lemma markFilled_simps:
  assumes "unat t \<le> 16384"
  shows "published (markFilled k (ucast t) r) = (published r)(k := t)"
    and "validCount (markFilled k (ucast t) r) j = (if j = k then ucast t else validCount r j)"
    and "unat (ucast t :: u16) = unat t"
    and "active (markFilled k (ucast t) r) = active r" "ridx (markFilled k (ucast t) r) = ridx r"
    and "lastSample (markFilled k (ucast t) r) = lastSample r"
    and "underruns (markFilled k (ucast t) r) = underruns r"
proof -
  have u: "unat (ucast t :: u16) = unat t" using assms by (simp add: unat_ucast_down)
  then have e: "(ucast (ucast t :: u16) :: u32) = t" by (simp add: word_unat_eq_iff)
  show "unat (ucast t :: u16) = unat t" by (rule u)
  show "published (markFilled k (ucast t) r) = (published r)(k := t)"
    "validCount (markFilled k (ucast t) r) j = (if j = k then ucast t else validCount r j)"
    "active (markFilled k (ucast t) r) = active r" "ridx (markFilled k (ucast t) r) = ridx r"
    "lastSample (markFilled k (ucast t) r) = lastSample r"
    "underruns (markFilled k (ucast t) r) = underruns r"
    by (simp_all add: markFilled_def storePublished_def validCount_def e)
qed

lemma fillStreamBuffer_runs:
  assumes ok: "fileOk wave" and rd: "reads_wave wave rd"
    and nx: "unat (streamNextSample p) = base mod length wave" and len: "length (streamBufs p k) = 16384"
  shows "\<exists>t p'. fillStreamBuffer (of_nat (length wave)) rd k p = Some p'
    \<and> fillInv wave base k t p' \<and> ring p' = markFilled k (ucast t) (ring p)
    \<and> (\<forall>j. j \<noteq> k \<longrightarrow> streamBufs p' j = streamBufs p j)
    \<and> ((\<forall>o1 n. rd o1 n \<noteq> None) \<longrightarrow> unat t = 16384)"
proof -
  have "fillInv wave base k 0 p" by (simp add: fillInv_def nx len)
  from fillLoop_runs [OF ok rd this]
  obtain t p1 where l: "fillLoop (of_nat (length wave)) rd k 0 p = Some (t, p1)"
    and i: "fillInv wave base k t p1" and r: "ring p1 = ring p"
    and b: "\<forall>j. j \<noteq> k \<longrightarrow> streamBufs p1 j = streamBufs p j"
    and f: "(\<forall>o1 n. rd o1 n \<noteq> None) \<longrightarrow> unat t = 16384" by blast
  have "fillStreamBuffer (of_nat (length wave)) rd k p = Some (publishFill k t p1)"
    by (simp add: fillStreamBuffer_def l)
  moreover have "fillInv wave base k t (publishFill k t p1)"
    using i by (simp add: publishFill_def fillInv_def)
  moreover have "ring (publishFill k t p1) = markFilled k (ucast t) (ring p)"
    by (simp add: publishFill_def r)
  moreover have "streamBufs (publishFill k t p1) = streamBufs p1" by (simp add: publishFill_def)
  ultimately show ?thesis using b f by metis
qed

section \<open>The invariant of the interleaving\<close>

definition avail :: "Play \<Rightarrow> nat \<Rightarrow> u16 list" where
  "avail s k = take (valids (ring s) k) (streamBufs s k)"

definition playOrder :: "u16 list \<Rightarrow> nat \<Rightarrow> Play \<Rightarrow> bool" where
  "playOrder wave base s \<longleftrightarrow>
     (case filler s of None \<Rightarrow> unat (streamNextSample s) = base mod length wave
      | Some (k, t) \<Rightarrow> fillInv wave base k t (playPlayer s))
     \<and> (\<not> held s \<longrightarrow>
          played s @ drop (unat (ridx (ring s))) (avail s (unat (active (ring s))))
             @ avail s (otherBuf (ring s)) = streamSeg wave 0 base
          \<and> (valids (ring s) (unat (active (ring s))) = 0 \<longrightarrow>
                published (ring s) (unat (active (ring s))) = 0))"

lemma play_start:
  assumes ok: "fileOk wave" and rd: "reads_wave wave rd"
    and len: "length (bufs 0) = 16384" "length (bufs 1) = 16384"
  shows "\<exists>p b. activateStreaming (of_nat (length wave)) rd bufs = Some p
    \<and> playInv (playStart p) \<and> playOrder wave b (playStart p)
    \<and> ((\<forall>o1 n. rd o1 n \<noteq> None) \<longrightarrow> valids (ring p) 0 = 16384 \<and> valids (ring p) 1 = 16384)"
proof -
  let ?p0 = "\<lparr>ring = ringReset, streamBufs = bufs, streamNextSample = 0\<rparr>"
  have "unat (streamNextSample ?p0) = 0 mod length wave" by simp
  from fillStreamBuffer_runs [OF ok rd this, of 0] len obtain t0 p1 where
    f0: "fillStreamBuffer (of_nat (length wave)) rd 0 ?p0 = Some p1"
    and i0: "fillInv wave 0 0 t0 p1" and r0: "ring p1 = markFilled 0 (ucast t0) ringReset"
    and b0: "streamBufs p1 1 = bufs 1" and full0: "(\<forall>o1 n. rd o1 n \<noteq> None) \<longrightarrow> unat t0 = 16384"
    by force
  have nx: "unat (streamNextSample p1) = unat t0 mod length wave" using i0 by (simp add: fillInv_def)
  from fillStreamBuffer_runs [OF ok rd nx, of 1] len b0 obtain t1 p2 where
    f1: "fillStreamBuffer (of_nat (length wave)) rd 1 p1 = Some p2"
    and i1: "fillInv wave (unat t0) 1 t1 p2" and r1: "ring p2 = markFilled 1 (ucast t1) (ring p1)"
    and b1: "streamBufs p2 0 = streamBufs p1 0"
    and full1: "(\<forall>o1 n. rd o1 n \<noteq> None) \<longrightarrow> unat t1 = 16384"
    by force
  have t: "unat t0 \<le> 16384" "unat t1 \<le> 16384" using i0 i1 by (simp_all add: fillInv_def)
  have small: "t \<noteq> Filling" if "unat t \<le> 16384" for t using that by (auto simp: Filling_def)
  have u: "unat (ucast t0 :: u16) = unat t0" "unat (ucast t1 :: u16) = unat t1"
    using t by (auto intro: markFilled_simps(3))
  have ring2: "published (ring p2) 0 = t0" "published (ring p2) 1 = t1"
    "valids (ring p2) 0 = unat t0" "valids (ring p2) 1 = unat t1" "active (ring p2) = 0"
    "ridx (ring p2) = 0" "published (ring p2) (Suc 0) = t1" "valids (ring p2) (Suc 0) = unat t1"
    using t u by (simp_all add: r0 r1 markFilled_simps ringReset_def)
  have "activateStreaming (of_nat (length wave)) rd bufs = Some p2"
    by (simp add: activateStreaming_def f0 f1 [simplified])
  moreover have "playInv (playStart p2)"
    using i0 i1 b1 t small [OF t(1)] small [OF t(2)]
    by (auto simp: playInv_def playStart_def ringOk_def ring2 fillInv_def less_2_cases_iff)
  moreover have "playOrder wave (unat t0 + unat t1) (playStart p2)"
    using i0 i1 b1 by (simp add: playOrder_def playStart_def avail_def ring2 fillInv_def otherBuf_def
      streamSeg_add unat_eq_0)
  ultimately show ?thesis using full0 full1
    by (intro exI [of _ p2] exI [of _ "unat t0 + unat t1"]) (simp add: ring2(3,4,8))
qed

lemma player_simps [simp]:
  "ring (playPlayer s) = ring s" "streamBufs (playPlayer s) = streamBufs s"
  "streamNextSample (playPlayer s) = streamNextSample s"
  "ring (withPlayer p s) = ring p" "streamBufs (withPlayer p s) = streamBufs p"
  "streamNextSample (withPlayer p s) = streamNextSample p"
  "filler (withPlayer p s) = filler s" "played (withPlayer p s) = played s"
  "held (withPlayer p s) = held s"
  by (simp_all add: playPlayer_def withPlayer_def)

lemma ring_ahead:
  assumes "playInv s"
  shows "unat (active (ring s)) < 2" "unat (ridx (ring s)) \<le> valids (ring s) (unat (active (ring s)))"
    and "k < 2 \<Longrightarrow> length (avail s k) = valids (ring s) k"
  using assms valids_published(1) [of "ring s" k] by (auto simp: playInv_def ringOk_def avail_def)

lemma playOrder_isr:
  assumes inv: "playInv s" and ord: "playOrder wave base s"
    and nx: "ringNext (streamBufs s) (ring s) = (x, r)"
  shows "playOrder wave base (s\<lparr>ring := r, played := played s @ [x],
      held := held s \<or> underruns r \<noteq> underruns (ring s)\<rparr>)" (is "playOrder wave base ?s'")
proof -
  have ok: "ringOk (ring s)" using inv by (simp add: playInv_def)
  let ?r = "ring s" let ?a = "unat (active ?r)"
  note a = ring_ahead(1) [OF inv]
  have o: "otherBuf ?r < 2" "otherBuf ?r \<noteq> ?a" using a by simp_all
  have fin: "playOrder wave base ?s'"
    if "\<not> held ?s' \<Longrightarrow> played ?s' @ drop (unat (ridx r)) (avail ?s' (unat (active r)))
             @ avail ?s' (otherBuf r) = streamSeg wave 0 base
          \<and> (valids r (unat (active r)) = 0 \<longrightarrow> published r (unat (active r)) = 0)"
    using ord that
    by (cases "filler s") (auto simp: playOrder_def playPlayer_def fillInv_def)
  show ?thesis
  proof (cases "held s")
    case True
    then show ?thesis by (intro fin) simp
  next
    case False
    then have seq: "played s @ drop (unat (ridx ?r)) (avail s ?a) @ avail s (otherBuf ?r)
        = streamSeg wave 0 base"
      using ord by (simp add: playOrder_def)
    from ok show ?thesis
    proof (cases rule: ringNext_cases)
      case playing
      have lt: "unat (ridx ?r) < valids ?r ?a" using playing by (simp add: word_less_nat_alt)
      then have lt': "unat (ridx ?r) < length (avail s ?a)" by (simp add: ring_ahead [OF inv])
      then have "drop (unat (ridx ?r)) (avail s ?a)
          = streamBufs s ?a ! unat (ridx ?r) # drop (Suc (unat (ridx ?r))) (avail s ?a)"
        using lt by (simp add: Cons_nth_drop_Suc [symmetric] avail_def)
      moreover have "unat (ridx ?r + 1) = Suc (unat (ridx ?r))"
        using lt valids_published(1) [OF ok a] by (subst unat_add_no_wrap) simp_all
      ultimately show ?thesis
        using seq nx ord False
        by (intro fin) (auto simp: ringNext_playing [OF ok playing] avail_def otherBuf_def
            validCount_def playOrder_def)
    next
      case flip
      have "avail s ?a = take (unat (ridx ?r)) (streamBufs s ?a)" by (simp add: avail_def flip(1))
      then have "drop (unat (ridx ?r)) (avail s ?a) = []" by simp
      moreover have "0 < valids ?r (otherBuf ?r)" using flip(2) by (simp add: unat_gt_0)
      then have "0 < length (avail s (otherBuf ?r))" using o(1) by (simp add: ring_ahead(3) [OF inv])
      then have "avail s (otherBuf ?r) = streamBufs s (otherBuf ?r) ! 0 # drop 1 (avail s (otherBuf ?r))"
        by (cases "avail s (otherBuf ?r)") (auto simp: avail_def dest: arg_cong [where f = "\<lambda>l. l ! 0"])
      ultimately have seq': "played s @ [streamBufs s (otherBuf ?r) ! 0] @ drop 1 (avail s (otherBuf ?r))
          = streamSeg wave 0 base"
        using seq by simp
      have act: "unat (active r) = otherBuf ?r" "ridx r = 1" "x = streamBufs s (otherBuf ?r) ! 0"
        "validCount r (otherBuf ?r) = validCount ?r (otherBuf ?r)" "otherBuf r = ?a"
        "validCount r ?a = 0"
        using nx a o by (auto simp: ringNext_flip [OF ok flip] unat_active_flip otherBuf_def
            validCount_def)
      have av: "avail (s\<lparr>ring := r, played := pl, held := h\<rparr>) (otherBuf ?r) = avail s (otherBuf ?r)"
        "avail (s\<lparr>ring := r, played := pl, held := h\<rparr>) ?a = []" for pl h
        by (simp_all add: avail_def act)
      show ?thesis
        using seq' flip(2) by (intro fin) (simp add: act av unat_eq_0)
    next
      case underrun
      have "underruns r \<noteq> underruns ?r" using nx by (auto simp: ringNext_underrun [OF ok underrun])
      then show ?thesis by (intro fin) simp
    qed
  qed
qed

lemma playInv_isr:
  assumes "playInv s" "ringNext (streamBufs s) (ring s) = (x, r)"
  shows "playInv (s\<lparr>ring := r, played := pl, held := h\<rparr>)"
  using ringOk_next [of "ring s" "streamBufs s"] assms by (auto simp: playInv_def)

lemma playStep_invs:
  assumes step: "playStep wave s s'" and ok: "fileOk wave"
    and inv: "playInv s" and ord: "playOrder wave base s"
  shows "playInv s' \<and> (\<exists>base'. playOrder wave base' s')"
  using step
proof cases
  case (isr x p)
  then obtain r where r: "ringNext (streamBufs s) (ring s) = (x, r)" and p: "p = (playPlayer s)\<lparr>ring := r\<rparr>"
    by (auto simp: waveformStreamNext_def split: prod.splits)
  have "s' = s\<lparr>ring := r, played := played s @ [x], held := held s \<or> underruns r \<noteq> underruns (ring s)\<rparr>"
    using isr(1) by (simp add: p withPlayer_def playPlayer_def)
  then show ?thesis using playInv_isr [OF inv r] playOrder_isr [OF inv ord r] by blast
next
  case (claim k r)
  have pk: "published (ring s) k = RefillRequested" and r: "r = storePublished k Filling (ring s)"
    using claim(4) by (auto simp: beginRefill_def casPublished_def split: if_splits)
  have v: "validCount r j = validCount (ring s) j" for j
    by (auto simp: r storePublished_def validCount_def pk)
  have ne: "RefillRequested \<noteq> Filling" "RefillRequested \<noteq> 0"
    by (simp_all add: RefillRequested_def Filling_def)
  have same: "active r = active (ring s)" "ridx r = ridx (ring s)" "otherBuf r = otherBuf (ring s)"
    by (simp_all add: r storePublished_def otherBuf_def)
  have "playInv s'"
    using inv claim(2,3) ne pk
    by (auto simp: claim(1) playInv_def ringOk_def same v) (auto simp: r storePublished_def split: if_splits)
  moreover have "playOrder wave base s'"
  proof -
    have av: "avail (s\<lparr>ring := r, filler := f\<rparr>) j = avail s j" for j f by (simp add: avail_def v)
    have len: "length (streamBufs s k) = 16384" using inv claim(3) by (simp add: playInv_def)
    have pub: "published r (unat (active (ring s))) = 0"
      if "published (ring s) (unat (active (ring s))) = 0"
      using that pk ne by (auto simp: r storePublished_def)
    show ?thesis
      using ord claim(2) len pub
      by (auto simp: claim(1) playOrder_def same av v fillInv_def)
  qed
  ultimately show ?thesis by blast
next
  case (scribble k t junk)
  have k: "k < 2" "published (ring s) k = Filling" and t: "unat t \<le> 16384"
    using inv scribble(2) by (auto simp: playInv_def)
  have v: "valids (ring s) k = 0" using k by (simp add: validCount_def)
  have "playInv s'" using inv scribble by (auto simp: playInv_def)
  moreover have "avail s' j = avail s j" for j using v by (auto simp: avail_def scribble(1))
  then have "playOrder wave base s'"
    using ord scribble(2,4,5) by (auto simp: playOrder_def fillInv_def scribble(1))
  ultimately show ?thesis by blast
next
  case (got k t n t' p)
  have fi: "fillInv wave base k t (playPlayer s)" using ord got(2) by (simp add: playOrder_def)
  have k: "k < 2" "published (ring s) k = Filling" using inv got(2) by (auto simp: playInv_def)
  have v: "valids (ring s) k = 0" using k by (simp add: validCount_def)
  note g = fillGot_inv [OF ok fi got(3,4), unfolded player_simps, OF got(5) [unfolded player_simps]]
  have bufs: "streamBufs p j = streamBufs s j" if "j \<noteq> k" for j using g that by simp
  have "playInv s'"
    using inv g got(2) by (auto simp: got(1) playInv_def fillInv_def bufs)
  moreover have "avail s' j = avail s j" for j
    using v g bufs [of j] by (cases "j = k") (auto simp: avail_def got(1))
  then have "playOrder wave base s'"
    using ord g by (auto simp: playOrder_def got(1) fillInv_def)
  ultimately show ?thesis by blast
next
  case (publish k t)
  have fi: "fillInv wave base k t (playPlayer s)" using ord publish(2) by (simp add: playOrder_def)
  have k: "k < 2" "published (ring s) k = Filling" using inv publish(2) by (auto simp: playInv_def)
  have t: "unat t \<le> 16384" using fi by (simp add: fillInv_def)
  note m = markFilled_simps [OF t]
  have nF: "t \<noteq> Filling" using t by (auto simp: Filling_def)
  have v: "validCount (ring s) k = 0" using k by (simp add: validCount_def)
  have s': "s' = s\<lparr>ring := markFilled k (ucast t) (ring s), filler := None\<rparr>"
    by (simp add: publish(1) publishFill_def withPlayer_def playPlayer_def)
  note a = ring_ahead(1) [OF inv]
  have ridx: "ridx (ring s) = 0" if "k = unat (active (ring s))"
    using ring_ahead(2) [OF inv] v that by (simp add: unat_eq_0)
  have "playInv s'"
    using inv publish(2) t nF ridx by (auto simp: s' playInv_def ringOk_def m)
  moreover have "playOrder wave (base + unat t) s'"
  proof -
    have nx: "unat (streamNextSample s) = (base + unat t) mod length wave" using fi by (simp add: fillInv_def)
    have "k = otherBuf (ring s)" if "\<not> held s"
    proof (rule ccontr)
      assume "k \<noteq> otherBuf (ring s)"
      then have "k = unat (active (ring s))" using below_2_cases [OF k(1) a] by simp
      then have "published (ring s) k = 0" using ord that v by (simp add: playOrder_def)
      then show False using k(2) by (simp add: Filling_def)
    qed
    moreover have "avail s' k = streamSeg wave base (unat t)"
      using fi by (simp add: avail_def s' m fillInv_def)
    moreover have "avail s' j = avail s j" if "j \<noteq> k" for j using that by (simp add: avail_def s' m)
    moreover have "avail s k = []" by (simp add: avail_def v)
    moreover have "otherBuf (ring s') = otherBuf (ring s)" by (simp add: otherBuf_def s' m)
    ultimately show ?thesis
      using ord nx other_neq [OF a]
      by (auto simp: playOrder_def s' m streamSeg_add)
  qed
  ultimately show ?thesis by blast
qed

lemma playReach_invs:
  assumes "playReach wave rd s" "fileOk wave" "reads_wave wave rd"
  shows "playInv s \<and> (\<exists>base. playOrder wave base s)"
  using assms(1)
proof induction
  case (start bufs p)
  then show ?case
    using play_start [OF assms(2,3), of bufs] by (auto simp: StreamBufSamples_def)
next
  case (step s s')
  then show ?case using playStep_invs [OF step(2) assms(2)] by blast
qed

section \<open>Properties\<close>

definition countingWave :: "u16 list" where
  "countingWave = map of_nat [0..<20000]"

lemma countingWave_ok: "fileOk countingWave" "reads_wave countingWave (sdServes countingWave)"
  by (simp_all add: fileOk_def countingWave_def reads_wave_def sdServes_def)

lemma countingWave_nth: "i < 20000 \<Longrightarrow> countingWave ! i = of_nat i" "length countingWave = 20000"
  by (simp_all add: countingWave_def)

lemma sdServes_total: "\<forall>o1 n. sdServes wave o1 n \<noteq> None"
  by (simp add: sdServes_def)

text \<open>The state after playback of \<open>countingWave\<close> has begun.\<close>

lemma counting_start:
  "\<exists>s. playReach countingWave (sdServes countingWave) s \<and> \<not> held s \<and> played s = []
     \<and> filler s = None \<and> valids (ring s) 0 = 16384 \<and> valids (ring s) 1 = 16384"
proof -
  let ?bufs = "\<lambda>_ :: nat. replicate 16384 (0 :: u16)"
  obtain p where p: "activateStreaming (of_nat (length countingWave)) (sdServes countingWave) ?bufs = Some p"
    "valids (ring p) 0 = 16384" "valids (ring p) 1 = 16384"
    using play_start [OF countingWave_ok, of ?bufs] sdServes_total by force
  have "playReach countingWave (sdServes countingWave) (playStart p)"
    by (rule playReach.start [OF p(1)]) (simp_all add: StreamBufSamples_def)
  then show ?thesis using p(2,3) by (intro exI [of _ "playStart p"]) (simp add: playStart_def)
qed

text \<open>C35: at any moment of playback the interrupt reads only the published samples: what it
  returns and how it changes the ring do not depend on anything else in the two buffers, in
  particular not on the buffer the loop is refilling, whose ownership it leaves alone.\<close>

theorem isr_reads_only_published:
  assumes "playReach wave rd s" "fileOk wave" "reads_wave wave rd"
    and "\<forall>k<2. take (valids (ring s) k) (bufs' k) = take (valids (ring s) k) (streamBufs s k)"
  shows "ringNext bufs' (ring s) = ringNext (streamBufs s) (ring s)
    \<and> (\<forall>k t. filler s = Some (k, t) \<longrightarrow>
         valids (ring s) k = 0 \<and> published (snd (ringNext bufs' (ring s))) k = Filling)"
proof -
  have inv: "playInv s" using playReach_invs [OF assms(1-3)] by blast
  then have ok: "ringOk (ring s)" and len: "\<forall>k<2. length (streamBufs s k) = 16384"
    by (simp_all add: playInv_def)
  have "valids (ring s) k = 0 \<and> published (snd (ringNext bufs' (ring s))) k = Filling"
    if "filler s = Some (k, t)" for k t
    using inv that ringOk_next [OF ok, of bufs'] by (auto simp: playInv_def validCount_def)
  then show ?thesis using ringNext_depends [OF ok assms(4) len] by blast
qed

lemma isr_reads_only_published_witness:
  "\<exists>s. playReach countingWave (sdServes countingWave) s
     \<and> ringNext (\<lambda>k. streamBufs s k @ [7]) (ring s) = ringNext (streamBufs s) (ring s)"
proof -
  obtain s where s: "playReach countingWave (sdServes countingWave) s" using counting_start by blast
  have "playInv s" using playReach_invs [OF s countingWave_ok] by blast
  then have "\<forall>k<2. take (valids (ring s) k) (streamBufs s k @ [7]) = take (valids (ring s) k) (streamBufs s k)"
    using valids_published(1) [of "ring s"] by (auto simp: playInv_def)
  from isr_reads_only_published [OF s countingWave_ok this] show ?thesis using s by blast
qed

text \<open>C9: as long as the interrupt never had to hold a sample, what it has played is the stored
  waveform from its first sample, repeated without a gap, whatever the interleaving of
  interrupt and refills and however often the SD card falls short.\<close>

theorem playback_in_order:
  assumes "playReach wave rd s" "fileOk wave" "reads_wave wave rd" "\<not> held s"
  shows "played s = map (\<lambda>i. wave ! (i mod length wave)) [0..<length (played s)]"
proof -
  obtain base where "playOrder wave base s" using playReach_invs [OF assms(1-3)] by blast
  then obtain rest where e: "played s @ rest = streamSeg wave 0 base"
    using assms(4) by (auto simp: playOrder_def)
  then have "length (played s) + length rest = base" by (metis length_append length_streamSeg)
  then have le: "length (played s) \<le> base" by simp
  have "take (length (played s)) (streamSeg wave 0 base) = played s" by (simp flip: e)
  moreover from le have
    "take (length (played s)) (streamSeg wave 0 base) = streamSeg wave 0 (length (played s))"
    by (simp add: streamSeg_def take_map)
  ultimately show ?thesis by (simp add: streamSeg_def)
qed

lemma playback_in_order_witness:
  "\<exists>s. playReach countingWave (sdServes countingWave) s \<and> played s = [0]"
proof -
  obtain s where s: "playReach countingWave (sdServes countingWave) s" "\<not> held s" "played s = []"
    "valids (ring s) 0 = 16384" "valids (ring s) 1 = 16384" using counting_start by blast
  obtain x r where n: "ringNext (streamBufs s) (ring s) = (x, r)" by (cases "ringNext (streamBufs s) (ring s)")
  let ?s = "s\<lparr>ring := r, played := [x], held := underruns r \<noteq> underruns (ring s)\<rparr>"
  have "playStep countingWave s ?s"
    using playStep.isr [of s x "(playPlayer s)\<lparr>ring := r\<rparr>"] n s(2,3)
    by (simp add: waveformStreamNext_def withPlayer_def playPlayer_def)
  then have reach: "playReach countingWave (sdServes countingWave) ?s" using s(1) by (rule playReach.step [rotated])
  have ok: "ringOk (ring s)" using playReach_invs [OF s(1) countingWave_ok] by (simp add: playInv_def)
  then have "unat (active (ring s)) < 2" by (simp add: ringOk_def)
  then have "valids (ring s) (otherBuf (ring s)) = 16384"
    using s(4,5) other_less [of "ring s"] by (auto simp: less_2_cases_iff)
  then have "validCount (ring s) (otherBuf (ring s)) \<noteq> 0" by auto
  with ok have "underruns r = underruns (ring s)"
    by (cases rule: ringNext_cases) (use n in \<open>auto simp: ringNext_playing [OF ok] ringNext_flip [OF ok]\<close>)
  then have "played ?s = map (\<lambda>i. countingWave ! (i mod length countingWave)) [0..<length (played ?s)]"
    by (intro playback_in_order [OF reach countingWave_ok]) simp
  then have "x = 0" by (simp add: countingWave_nth)
  then show ?thesis using reach by auto
qed

text \<open>A refill always returns, whatever the SD card does, having published the next samples
  of the waveform (the buffer full when no read falls short, fewer otherwise) and advanced the
  file position by as many, wrapping at the end of the file.\<close>

theorem refill_terminates:
  assumes "fileOk wave" "reads_wave wave rd" "unat (streamNextSample p) < length wave"
    and "length (streamBufs p k) = 16384"
  shows "\<exists>p'. fillStreamBuffer (of_nat (length wave)) rd k p = Some p'
    \<and> (let n = valids (ring p') k; from_pos = unat (streamNextSample p) in
        take n (streamBufs p' k) = map (\<lambda>i. wave ! (i mod length wave)) [from_pos..<from_pos + n]
      \<and> unat (streamNextSample p') = (from_pos + n) mod length wave
      \<and> ((\<forall>o1 n. rd o1 n \<noteq> None) \<longrightarrow> n = 16384))"
proof -
  have "unat (streamNextSample p) = unat (streamNextSample p) mod length wave" using assms(3) by simp
  from fillStreamBuffer_runs [OF assms(1,2) this assms(4)] obtain t p' where
    f: "fillStreamBuffer (of_nat (length wave)) rd k p = Some p'"
      "fillInv wave (unat (streamNextSample p)) k t p'" "ring p' = markFilled k (ucast t) (ring p)"
      "(\<forall>o1 n. rd o1 n \<noteq> None) \<longrightarrow> unat t = 16384" by blast
  have "unat t \<le> 16384" using f(2) by (simp add: fillInv_def)
  then have "valids (ring p') k = unat t" by (simp add: f(3) markFilled_simps)
  then show ?thesis using f by (intro exI [of _ p']) (simp add: fillInv_def streamSeg_def)
qed

lemma refill_terminates_witness:
  "\<exists>p'. fillStreamBuffer (of_nat (length countingWave)) (\<lambda>_ _. None) 0
      \<lparr>ring = ringReset, streamBufs = (\<lambda>_. replicate 16384 0), streamNextSample = 5\<rparr> = Some p'
    \<and> unat (streamNextSample p') = (5 + valids (ring p') 0) mod 20000"
  using refill_terminates [of countingWave "\<lambda>_ _. None"
      "\<lparr>ring = ringReset, streamBufs = (\<lambda>_. replicate 16384 0), streamNextSample = 5\<rparr>" 0]
  by (auto simp: countingWave_ok countingWave_nth reads_wave_def Let_def)

text \<open>The order is lost after an underrun that left buffer 1 active and both buffers
  requested: when the loop refills both before the next interrupt, it fills buffer 0 first but
  the interrupt continues in buffer 1, so a whole buffer of the waveform is played late.\<close>

theorem refill_after_underrun_swaps:
  assumes "fileOk wave" "reads_wave wave rd" "\<forall>o1 n. rd o1 n \<noteq> None"
    and "unat (streamNextSample p) < length wave" "\<forall>k<2. length (streamBufs p k) = 16384"
    and "active (ring p) = 1" "ridx (ring p) = 0"
    and "refillNeeded (ring p) 0" "refillNeeded (ring p) 1"
  shows "\<exists>p'. waveformStreamTask True (of_nat (length wave)) rd p = Some p'
    \<and> fst (waveformStreamNext p') = wave ! ((unat (streamNextSample p) + 16384) mod length wave)"
proof -
  let ?b = "unat (streamNextSample p)"
  let ?p0 = "p\<lparr>ring := storePublished 0 Filling (ring p)\<rparr>"
  have nx: "unat (streamNextSample ?p0) = ?b mod length wave" using assms(4) by simp
  obtain t0 p1 where f0: "fillStreamBuffer (of_nat (length wave)) rd 0 ?p0 = Some p1"
    "fillInv wave ?b 0 t0 p1" "ring p1 = markFilled 0 (ucast t0) (ring ?p0)"
    "streamBufs p1 1 = streamBufs p 1" "unat t0 = 16384"
    using fillStreamBuffer_runs [OF assms(1,2) nx, of 0] assms(3,5) by force
  have r1: "published (ring p1) 1 = RefillRequested" "active (ring p1) = 1" "ridx (ring p1) = 0"
    using assms(6,7,9) f0(5) by (simp_all add: f0(3) markFilled_simps refillNeeded_def storePublished_def)
  let ?p1 = "p1\<lparr>ring := storePublished 1 Filling (ring p1)\<rparr>"
  have nx1: "unat (streamNextSample ?p1) = (?b + 16384) mod length wave"
    using f0(2,5) by (simp add: fillInv_def)
  obtain t1 p2 where f1: "fillStreamBuffer (of_nat (length wave)) rd 1 ?p1 = Some p2"
    "fillInv wave (?b + 16384) 1 t1 p2" "ring p2 = markFilled 1 (ucast t1) (ring ?p1)"
    "unat t1 = 16384"
    using fillStreamBuffer_runs [OF assms(1,2) nx1, of 1] assms(3,5) f0(4) by force
  have task: "waveformStreamTask True (of_nat (length wave)) rd p = Some p2"
    using assms(8) r1(1) f0(1) f1(1)
    by (simp add: waveformStreamTask_def streamTaskTurn_def beginRefill_def casPublished_def refillNeeded_def)
  have v: "validCount (ring p2) 1 = ucast t1" "active (ring p2) = 1" "ridx (ring p2) = 0"
    "unat (ucast t1 :: u16) = 16384"
    using r1 f1(4) by (simp_all add: f1(3) markFilled_simps storePublished_def)
  then have nz: "(ucast t1 :: u16) \<noteq> 0" by auto
  have "take 16384 (streamBufs p2 1) ! 0 = streamSeg wave (?b + 16384) 16384 ! 0"
    using f1(2,4) by (simp add: fillInv_def)
  then have "streamBufs p2 1 ! 0 = wave ! ((?b + 16384) mod length wave)"
    by (simp add: streamSeg_def del: upt_Suc)
  then have "fst (waveformStreamNext p2) = wave ! ((?b + 16384) mod length wave)"
    using v nz by (simp add: waveformStreamNext_def ringNext_def ringRetire_def ringEmit_def Let_def)
  then show ?thesis using task by blast
qed

lemma refill_after_underrun_swaps_witness:
  "\<exists>p'. waveformStreamTask True (of_nat (length countingWave)) (sdServes countingWave)
      \<lparr>ring = ringReset\<lparr>published := (\<lambda>_. RefillRequested), active := 1\<rparr>,
       streamBufs = (\<lambda>_. replicate 16384 0), streamNextSample = 0\<rparr> = Some p'
    \<and> fst (waveformStreamNext p') = 16384"
  using refill_after_underrun_swaps [OF countingWave_ok sdServes_total, of
      "\<lparr>ring = ringReset\<lparr>published := (\<lambda>_. RefillRequested), active := 1\<rparr>,
       streamBufs = (\<lambda>_. replicate 16384 0), streamNextSample = 0\<rparr>"]
  by (simp add: countingWave_nth ringReset_def refillNeeded_def)

end
