(* ===== verification/Scope.thy ===== *)
theory Scope
  imports Prelude
begin

text \<open>
  \<open>src/src/scope_math.h\<close> and \<open>src/src/capture_math.h\<close>: the trigger state machine of the
  scope, fed one sample per carrier period, and the statistics over the capture ring (mean,
  and the min/max envelope behind the waveform display). The ring memory is a function from
  index to sample; every index the code forms is shown to lie inside it.
\<close>

section \<open>The trigger\<close>

definition ScopeIdle :: byte where [const_defs]: "ScopeIdle = 0"
definition ScopeArmed :: byte where [const_defs]: "ScopeArmed = 1"
definition ScopeTriggered :: byte where [const_defs]: "ScopeTriggered = 2"
definition ScopeComplete :: byte where [const_defs]: "ScopeComplete = 3"

lemma scope_state_distinct [simp]:
  "ScopeIdle \<noteq> ScopeArmed" "ScopeIdle \<noteq> ScopeTriggered" "ScopeIdle \<noteq> ScopeComplete"
  "ScopeArmed \<noteq> ScopeIdle" "ScopeArmed \<noteq> ScopeTriggered" "ScopeArmed \<noteq> ScopeComplete"
  "ScopeTriggered \<noteq> ScopeIdle" "ScopeTriggered \<noteq> ScopeArmed" "ScopeTriggered \<noteq> ScopeComplete"
  "ScopeComplete \<noteq> ScopeIdle" "ScopeComplete \<noteq> ScopeArmed" "ScopeComplete \<noteq> ScopeTriggered"
  by (simp_all add: const_defs)

record ScopeMachine =
  scopeState :: byte
  level :: u16
  fallingEdge :: bool
  primed :: bool
  postTotal :: u32
  postRemaining :: u32

definition scopeInit :: ScopeMachine where
  "scopeInit = \<lparr>scopeState = ScopeIdle, level = 2048, fallingEdge = False, primed = False,
     postTotal = 0, postRemaining = 0\<rparr>"

definition scopeArm :: "u16 \<Rightarrow> bool \<Rightarrow> u32 \<Rightarrow> ScopeMachine \<Rightarrow> ScopeMachine" where
  "scopeArm levelCounts falling postSamples m =
     m\<lparr>level := levelCounts, fallingEdge := falling, primed := False,
       postTotal := postSamples, postRemaining := 0, scopeState := ScopeArmed\<rparr>"

definition scopeDisarm :: "ScopeMachine \<Rightarrow> ScopeMachine" where
  "scopeDisarm m = m\<lparr>scopeState := ScopeIdle, primed := False\<rparr>"

definition preSide :: "ScopeMachine \<Rightarrow> u16 \<Rightarrow> bool" where
  "preSide m sample = (let below = sample < level m in if fallingEdge m then \<not> below else below)"

definition scopeStep :: "ScopeMachine \<Rightarrow> u16 \<Rightarrow> bool \<times> ScopeMachine" where
  "scopeStep m sample =
     (if scopeState m = ScopeArmed then
        if preSide m sample then (False, m\<lparr>primed := True\<rparr>)
        else if primed m then
          let m = m\<lparr>scopeState := ScopeTriggered, postRemaining := postTotal m\<rparr>
          in if postRemaining m = 0 then (True, m\<lparr>scopeState := ScopeComplete\<rparr>) else (False, m)
        else (False, m)
      else if scopeState m = ScopeTriggered then
        let m = m\<lparr>postRemaining := postRemaining m - 1\<rparr>
        in if postRemaining m = 0 then (True, m\<lparr>scopeState := ScopeComplete\<rparr>) else (False, m)
      else (False, m))"

definition scopeTrigOffset :: "bool \<Rightarrow> u32 \<Rightarrow> u32 \<Rightarrow> u32" where
  "scopeTrigOffset triggered postSamples count =
     (if \<not> triggered \<or> count = 0 \<or> postSamples \<ge> count then 0xFFFFFFFF
      else count - 1 - postSamples)"

definition scopeLevelCounts :: "u32 \<Rightarrow> u16" where
  "scopeLevelCounts millivolts =
     (let mv = (if millivolts > 3300 then 3300 else millivolts)
      in ucast ((mv * 4095 + 1650) div 3300))"

text \<open>The freeze signals of a run of samples.\<close>

primrec scopeRun :: "ScopeMachine \<Rightarrow> u16 list \<Rightarrow> bool list" where
  "scopeRun m [] = []"
| "scopeRun m (x # xs) = (case scopeStep m x of (f, m') \<Rightarrow> f # scopeRun m' xs)"

subsection \<open>When the capture freezes\<close>

text \<open>The trigger sample of an armed machine: the first one past the level with an earlier sample
  on the other side of it.\<close>

definition isTrigger :: "ScopeMachine \<Rightarrow> u16 list \<Rightarrow> nat \<Rightarrow> bool" where
  "isTrigger m xs j \<longleftrightarrow> j < length xs \<and> \<not> preSide m (xs ! j) \<and> (primed m \<or> (\<exists>i<j. preSide m (xs ! i)))
     \<and> (\<forall>j'<j. preSide m (xs ! j') \<or> \<not> (primed m \<or> (\<exists>i<j'. preSide m (xs ! i))))"

lemma length_scopeRun [simp]: "length (scopeRun m xs) = length xs"
  by (induction xs arbitrary: m) (auto split: prod.split)

lemma scopeRun_stopped:
  "scopeState m \<noteq> ScopeArmed \<Longrightarrow> scopeState m \<noteq> ScopeTriggered \<Longrightarrow>
    scopeRun m xs = replicate (length xs) False"
  by (induction xs) (simp_all add: scopeStep_def)

lemma scopeRun_triggered:
  "scopeState m = ScopeTriggered \<Longrightarrow> postRemaining m \<noteq> 0 \<Longrightarrow> i < length xs \<Longrightarrow>
    scopeRun m xs ! i \<longleftrightarrow> Suc i = unat (postRemaining m)"
proof (induction xs arbitrary: m i)
  case (Cons x xs)
  show ?case
  proof (cases "postRemaining m = 1")
    case True
    then show ?thesis
      using Cons.prems by (cases i) (simp_all add: scopeStep_def scopeRun_stopped)
  next
    case False
    then have nz: "postRemaining m - 1 \<noteq> 0" by (metis eq_iff_diff_eq_0)
    have u: "unat (postRemaining m) = Suc (unat (postRemaining m - 1))"
      using Cons.prems(2) by (simp add: unat_minus_one unat_gt_0 unat_eq_0)
    show ?thesis
    proof (cases i)
      case 0
      then show ?thesis using Cons.prems nz u by (simp add: scopeStep_def unat_eq_0)
    next
      case (Suc k)
      then show ?thesis
        using Cons.prems nz u Cons.IH [of "m\<lparr>postRemaining := postRemaining m - 1\<rparr>" k]
        by (simp add: scopeStep_def)
    qed
  qed
qed simp

lemma preSide_update [simp]:
  "preSide (m\<lparr>primed := p\<rparr>) x = preSide m x"
  by (simp add: preSide_def)

lemma isTrigger_0: "isTrigger m (x # xs) 0 \<longleftrightarrow> primed m \<and> \<not> preSide m x"
  by (auto simp: isTrigger_def)

lemma isTrigger_Suc:
  "isTrigger m (x # xs) (Suc j) \<longleftrightarrow>
     \<not> (primed m \<and> \<not> preSide m x) \<and> isTrigger (m\<lparr>primed := primed m \<or> preSide m x\<rparr>) xs j"
proof -
  have ex: "(\<exists>i<Suc n. preSide m ((x # xs) ! i)) \<longleftrightarrow> preSide m x \<or> (\<exists>i<n. preSide m (xs ! i))" for n
    by (auto simp: less_Suc_eq_0_disj)
  have all: "(\<forall>j'<Suc j. P j') \<longleftrightarrow> P 0 \<and> (\<forall>j'<j. P (Suc j'))" for P
    by (auto simp: less_Suc_eq_0_disj)
  show ?thesis unfolding isTrigger_def all ex by auto
qed

lemma isTrigger_Cons:
  "(\<exists>j. isTrigger m (x # xs) j \<and> i = j + n) \<longleftrightarrow>
     (if primed m \<and> \<not> preSide m x then i = n
      else \<exists>j. isTrigger (m\<lparr>primed := primed m \<or> preSide m x\<rparr>) xs j \<and> i = Suc j + n)"
proof -
  have "(\<exists>j. P j) \<longleftrightarrow> P 0 \<or> (\<exists>j. P (Suc j))" for P :: "nat \<Rightarrow> bool"
    by (metis not0_implies_Suc)
  from this [of "\<lambda>j. isTrigger m (x # xs) j \<and> i = j + n"] show ?thesis
    by (auto simp: isTrigger_0 isTrigger_Suc)
qed

lemma scopeRun_armed:
  "scopeState m = ScopeArmed \<Longrightarrow> i < length xs \<Longrightarrow>
    scopeRun m xs ! i \<longleftrightarrow> (\<exists>j. isTrigger m xs j \<and> i = j + unat (postTotal m))"
proof (induction xs arbitrary: m i)
  case (Cons x xs)
  consider (prime) "preSide m x" | (idle) "\<not> preSide m x" "\<not> primed m"
    | (fire) "\<not> preSide m x" "primed m" by blast
  then show ?case
  proof cases
    case prime
    show ?thesis
      using Cons.prems prime Cons.IH [of "m\<lparr>primed := True\<rparr>"]
      by (cases i) (auto simp: scopeStep_def isTrigger_Cons isTrigger_0)
  next
    case idle
    then have "m\<lparr>primed := False\<rparr> = m" by (cases m) simp
    then have m: "isTrigger (m\<lparr>primed := False\<rparr>) = isTrigger m" by (rule arg_cong)
    show ?thesis
      using Cons.prems idle Cons.IH [of m]
      by (cases i) (auto simp: scopeStep_def isTrigger_Cons isTrigger_0 m)
  next
    case fire
    let ?m = "m\<lparr>scopeState := ScopeTriggered, postRemaining := postTotal m\<rparr>"
    show ?thesis
    proof (cases "postTotal m = 0")
      case True
      then show ?thesis
        using Cons.prems fire by (cases i) (simp_all add: scopeStep_def isTrigger_0 isTrigger_Suc isTrigger_Cons scopeRun_stopped)
    next
      case False
      then show ?thesis
        using Cons.prems fire scopeRun_triggered [of ?m _ xs]
        by (cases i) (simp_all add: scopeStep_def isTrigger_Cons unat_eq_0)
    qed
  qed
qed simp

section \<open>Statistics over the ring\<close>

primrec meanLoop :: "(nat \<Rightarrow> u16) \<Rightarrow> u32 \<Rightarrow> u32 \<Rightarrow> nat \<Rightarrow> u64 \<Rightarrow> u64" where
  "meanLoop ring ringSize idx 0 acc = acc"
| "meanLoop ring ringSize idx (Suc n) acc =
     (let idx = (if idx = 0 then ringSize else idx) - 1
      in meanLoop ring ringSize idx n (acc + ucast (ring (unat idx))))"

definition ringMean :: "(nat \<Rightarrow> u16) \<Rightarrow> u32 \<Rightarrow> u32 \<Rightarrow> u32 \<Rightarrow> u32" where
  "ringMean ring ringSize head n =
     (if n = 0 \<or> ringSize = 0 then 0
      else let n = (if n > ringSize then ringSize else n)
           in ucast (meanLoop ring ringSize head (unat n) 0 div ucast n))"

definition binEdge :: "u32 \<Rightarrow> u32 \<Rightarrow> u32 \<Rightarrow> u32" where
  "binEdge b count bins = ucast ((ucast b :: u64) * ucast count div ucast bins)"

definition binEnd :: "u32 \<Rightarrow> u32 \<Rightarrow> u32 \<Rightarrow> u32" where
  "binEnd b count bins =
     (let to = binEdge (b + 1) count bins; fr = binEdge b count bins
      in if to \<le> fr then fr + 1 else to)"

definition decimateStart :: "u32 \<Rightarrow> u32 \<Rightarrow> u32 \<Rightarrow> u32" where
  "decimateStart ringSize head count = (head + ringSize - (count mod ringSize)) mod ringSize"

primrec envLoop :: "(nat \<Rightarrow> u16) \<Rightarrow> u32 \<Rightarrow> u32 \<Rightarrow> u32 \<Rightarrow> nat \<Rightarrow> u16 \<times> u16 \<Rightarrow> u16 \<times> u16" where
  "envLoop ring ringSize start i 0 mm = mm"
| "envLoop ring ringSize start i (Suc n) mm =
     (let v = ring (unat ((start + i) mod ringSize));
          mn = (if v < fst mm then v else fst mm);
          mx = (if v > snd mm then v else snd mm)
      in envLoop ring ringSize start (i + 1) n (mn, mx))"

definition decimateBin :: "(nat \<Rightarrow> u16) \<Rightarrow> u32 \<Rightarrow> u32 \<Rightarrow> u32 \<Rightarrow> u32 \<Rightarrow> u32 \<Rightarrow> u16 \<times> u16" where
  "decimateBin ring ringSize start count bins b =
     (let fr = binEdge b count bins; to = binEnd b count bins
      in envLoop ring ringSize start fr (unat to - unat fr) (0xFFFF, 0))"

definition ringDecimate :: "(nat \<Rightarrow> u16) \<Rightarrow> u32 \<Rightarrow> u32 \<Rightarrow> u32 \<Rightarrow> u32 \<Rightarrow> (u16 \<times> u16) list" where
  "ringDecimate ring ringSize head count bins =
     (if bins = 0 \<or> count = 0 \<or> ringSize = 0 then []
      else let count = (if count > ringSize then ringSize else count);
               start = decimateStart ringSize head count
           in map (\<lambda>b. decimateBin ring ringSize start count bins (of_nat b)) [0..<unat bins])"

subsection \<open>The bins partition the window\<close>

lemma binEdge_unat:
  assumes "unat b \<le> unat bins" "bins \<noteq> 0"
  shows "unat (binEdge b count bins) = unat b * unat count div unat bins"
proof -
  have "0 < unat bins" using assms(2) by (simp add: unat_gt_0)
  then have "unat b * unat count div unat bins \<le> unat count"
    using assms(1) by (metis div_le_mono mult_le_mono1 nonzero_mult_div_cancel_left less_numeral_extra(3))
  then have "unat b * unat count div unat bins < 2 ^ 32"
    by (rule order_le_less_trans) simp
  then show ?thesis
    by (simp add: binEdge_def unat_ucast_down unat_div unat_mult_u32_u64)
qed

lemma bin_facts:
  assumes "i < unat bins" "0 < N" "unat count = N"
  shows "unat (binEdge (of_nat i) count bins) = i * N div unat bins"
    and "unat (binEnd (of_nat i) count bins) =
           max (Suc i * N div unat bins) (Suc (i * N div unat bins))"
    and "i * N div unat bins < N" "unat (binEnd (of_nat i) count bins) \<le> N"
proof -
  let ?b = "of_nat i :: u32"
  have nz: "bins \<noteq> 0" using assms(1) by auto
  have ib: "i < 2 ^ 32" using assms(1) by (rule less_trans) simp
  have b: "unat ?b = i" using ib by (simp add: unat_of_nat)
  have b1: "unat (?b + 1) = Suc i"
    using order_le_less_trans [OF Suc_leI [OF assms(1)] unat_less_2p [of bins]] b
    by (subst unat_add_no_wrap) simp_all
  show f: "unat (binEdge ?b count bins) = i * N div unat bins"
    using assms nz b by (subst binEdge_unat) simp_all
  have t: "unat (binEdge (?b + 1) count bins) = Suc i * N div unat bins"
    using assms nz b1 by (subst binEdge_unat) simp_all
  show lt: "i * N div unat bins < N"
    using assms by (simp add: less_mult_imp_div_less mult.commute)
  have le: "Suc i * N div unat bins \<le> N"
    using assms(1) by (metis Suc_leI div_le_mono div_mult_self_is_m gr_zeroI mult.commute
        mult_le_mono2 not_less0)
  have "unat (binEdge ?b count bins + 1) = Suc (i * N div unat bins)"
    using lt assms(3) word_size_bounds(3) [of count] f by (subst unat_add_no_wrap) simp_all
  then show e: "unat (binEnd ?b count bins) = max (Suc i * N div unat bins) (Suc (i * N div unat bins))"
    using f t by (auto simp: binEnd_def Let_def word_le_nat_alt)
  show "unat (binEnd ?b count bins) \<le> N" using lt le by (simp add: e)
qed

lemma bin_cover:
  assumes "j < N" "0 < (B :: nat)"
  shows "\<exists>i<B. i * N div B \<le> j \<and> j < max (Suc i * N div B) (Suc (i * N div B))"
proof -
  let ?P = "\<lambda>i. i < B \<and> i * N div B \<le> j"
  have P0: "?P 0" using assms by simp
  let ?i = "Greatest ?P"
  have g: "?P ?i" using P0 by (rule GreatestI_nat [where b = B]) simp
  have n: "\<not> ?P (Suc ?i)"
    using Greatest_le_nat [of ?P "Suc ?i" B] by (metis Suc_n_not_le_n less_or_eq_imp_le)
  have "j < Suc ?i * N div B"
  proof (cases "Suc ?i < B")
    case True
    then show ?thesis using n by auto
  next
    case False
    then have "Suc ?i = B" using g by simp
    then show ?thesis using assms by simp
  qed
  then show ?thesis using g by (intro exI [of _ ?i]) (simp add: less_max_iff_disj)
qed

lemma envLoop_bounds:
  assumes "envLoop ring sz start i n (mn0, mx0) = (mn, mx)" "unat i + n < 2 ^ 32"
  shows "mn \<le> mn0 \<and> mx0 \<le> mx
    \<and> (\<forall>k<n. mn \<le> ring (unat ((start + (i + of_nat k)) mod sz))
            \<and> ring (unat ((start + (i + of_nat k)) mod sz)) \<le> mx)
    \<and> (mn = mn0 \<or> (\<exists>k<n. mn = ring (unat ((start + (i + of_nat k)) mod sz))))
    \<and> (mx = mx0 \<or> (\<exists>k<n. mx = ring (unat ((start + (i + of_nat k)) mod sz))))"
  using assms
proof (induction n arbitrary: i mn0 mx0)
  case (Suc n)
  let ?g = "\<lambda>i k. ring (unat ((start + (i + of_nat k)) mod sz))"
  let ?v = "ring (unat ((start + i) mod sz))"
  have g: "?g (i + 1) k = ?g i (Suc k)" for k by (simp add: algebra_simps)
  have u: "unat (i + 1) = Suc (unat i)" using Suc.prems(2) by (subst unat_add_no_wrap) simp_all
  have ih: "mn \<le> (if ?v < mn0 then ?v else mn0) \<and> (if ?v > mx0 then ?v else mx0) \<le> mx
    \<and> (\<forall>k<n. mn \<le> ?g i (Suc k) \<and> ?g i (Suc k) \<le> mx)
    \<and> (mn = (if ?v < mn0 then ?v else mn0) \<or> (\<exists>k<n. mn = ?g i (Suc k)))
    \<and> (mx = (if ?v > mx0 then ?v else mx0) \<or> (\<exists>k<n. mx = ?g i (Suc k)))"
  proof -
    have a: "envLoop ring sz start (i + 1) n
        (if ?v < mn0 then ?v else mn0, if ?v > mx0 then ?v else mx0) = (mn, mx)"
      using Suc.prems(1) by (simp only: envLoop.simps Let_def fst_conv snd_conv)
    have b: "unat (i + 1) + n < 2 ^ 32" using Suc.prems(2) u by simp
    show ?thesis by (rule Suc.IH [OF a b, unfolded g])
  qed
  have all: "(\<forall>k<Suc n. P k) \<longleftrightarrow> P 0 \<and> (\<forall>k<n. P (Suc k))"
    and ex: "(\<exists>k<Suc n. P k) \<longleftrightarrow> P 0 \<or> (\<exists>k<n. P (Suc k))" for P :: "nat \<Rightarrow> bool"
    by (auto simp: less_Suc_eq_0_disj)
  have v0: "?g i 0 = ?v" by simp
  show ?case using ih unfolding all ex v0 by (auto split: if_splits)
qed simp

subsection \<open>Envelope and mean of the newest samples\<close>

text \<open>The \<open>i\<close>-th of the \<open>N\<close> newest samples of a ring whose next write goes to \<open>head\<close>, oldest
  first.\<close>

definition newest :: "(nat \<Rightarrow> u16) \<Rightarrow> nat \<Rightarrow> nat \<Rightarrow> nat \<Rightarrow> nat \<Rightarrow> u16" where
  "newest ring sz head N i = ring ((head + sz - N + i) mod sz)"

lemma decimate_index:
  assumes "unat head < unat sz" "unat sz \<le> 2 ^ 31" "unat count = N" "N \<le> unat sz" "i < N"
  shows "unat ((decimateStart sz head count + of_nat i) mod sz) = (unat head + unat sz - N + i) mod unat sz"
proof -
  have i: "unat (of_nat i :: u32) = i" using assms by (simp add: unat_of_nat)
  have hs: "unat (head + sz) = unat head + unat sz"
    using assms by (subst unat_add_no_wrap) simp_all
  have cm: "unat (count mod sz) = N mod unat sz" by (simp add: unat_mod assms(3))
  have le: "N mod unat sz \<le> unat head + unat sz"
    using assms by (metis le_add2 le_trans mod_less_eq_dividend)
  have sub: "unat (head + sz - count mod sz) = unat head + unat sz - N mod unat sz"
    using le by (subst unat_sub_no_wrap) (simp_all only: hs cm)
  have eq: "(unat head + unat sz - N mod unat sz) mod unat sz = (unat head + unat sz - N) mod unat sz"
  proof (cases "N = unat sz")
    case False
    then have "N mod unat sz = N" using assms(4) by simp
    then show ?thesis by simp
  qed simp
  have st: "unat (decimateStart sz head count) = (unat head + unat sz - N) mod unat sz"
    by (simp add: decimateStart_def unat_mod sub eq)
  have "0 < unat sz" using assms(1) by linarith
  then have "(unat head + unat sz - N) mod unat sz < unat sz" by simp
  moreover have "unat sz \<le> 2147483648" using assms(2) by simp
  ultimately have "(unat head + unat sz - N) mod unat sz + i < 4294967296" using assms(4,5) by linarith
  then have "unat (decimateStart sz head count + of_nat i)
      = (unat head + unat sz - N) mod unat sz + i"
    using assms i by (subst unat_add_no_wrap) (simp_all add: st)
  then show ?thesis by (simp add: unat_mod mod_add_left_eq)
qed

lemma decimateBin_spec:
  assumes "unat head < unat sz" "unat sz \<le> 2 ^ 31" "unat count = N" "N \<le> unat sz" "0 < N"
    and "b < unat bins"
  defines "fr \<equiv> b * N div unat bins" and "to \<equiv> unat (binEnd (of_nat b) count bins)"
  shows "\<forall>i. fr \<le> i \<and> i < to \<longrightarrow>
      fst (decimateBin ring sz (decimateStart sz head count) count bins (of_nat b)) \<le> newest ring (unat sz) (unat head) N i
    \<and> newest ring (unat sz) (unat head) N i \<le> snd (decimateBin ring sz (decimateStart sz head count) count bins (of_nat b))"
    and "\<exists>i. fr \<le> i \<and> i < to
      \<and> fst (decimateBin ring sz (decimateStart sz head count) count bins (of_nat b)) = newest ring (unat sz) (unat head) N i"
    and "\<exists>i. fr \<le> i \<and> i < to
      \<and> snd (decimateBin ring sz (decimateStart sz head count) count bins (of_nat b)) = newest ring (unat sz) (unat head) N i"
proof -
  let ?start = "decimateStart sz head count"
  let ?e = "binEdge (of_nat b) count bins"
  obtain mn mx where d: "decimateBin ring sz ?start count bins (of_nat b) = (mn, mx)"
    by (cases "decimateBin ring sz ?start count bins (of_nat b)")
  have e: "unat ?e = fr" unfolding fr_def using assms by (intro bin_facts(1))
  have toN: "to \<le> N" unfolding to_def using assms by (intro bin_facts(4))
  have lt: "fr < to" unfolding fr_def to_def using assms by (subst bin_facts(2) [of _ _ N]) simp_all
  have l: "envLoop ring sz ?start ?e (to - fr) (0xFFFF, 0) = (mn, mx)"
    using d by (simp add: decimateBin_def Let_def e flip: to_def)
  have g: "ring (unat ((?start + (?e + of_nat k)) mod sz)) = newest ring (unat sz) (unat head) N (fr + k)"
    if "k < to - fr" for k
  proof -
    have "?e + of_nat k = of_nat (fr + k)" by (simp flip: e)
    then show ?thesis
      using that toN assms by (simp only: newest_def decimate_index less_diff_conv2)
  qed
  have b: "unat ?e + (to - fr) < 2 ^ 32"
    using lt toN assms(2,4) by (simp add: e)
  note env = envLoop_bounds [OF l b]
  have all: "mn \<le> newest ring (unat sz) (unat head) N i \<and> newest ring (unat sz) (unat head) N i \<le> mx"
    if "fr \<le> i" "i < to" for i
  proof -
    have k: "i - fr < to - fr" using that by (rule diff_less_mono [rotated])
    then have "mn \<le> ring (unat ((?start + (?e + of_nat (i - fr))) mod sz))
        \<and> ring (unat ((?start + (?e + of_nat (i - fr))) mod sz)) \<le> mx"
      using env by blast
    then show ?thesis using that(1) unfolding g [OF k] by simp
  qed
  have mn: "\<exists>i. fr \<le> i \<and> i < to \<and> mn = newest ring (unat sz) (unat head) N i"
  proof (cases "mn = 0xFFFF")
    case True
    have ff: "(0xFFFF :: u16) = - 1" by simp
    have "newest ring (unat sz) (unat head) N fr \<le> mn" unfolding True ff by (rule word_n1_ge)
    then have "newest ring (unat sz) (unat head) N fr = mn"
      using all [of fr] lt by (simp add: order_antisym)
    then show ?thesis using lt by (metis order_refl)
  next
    case False
    then obtain k where "k < to - fr" "mn = ring (unat ((?start + (?e + of_nat k)) mod sz))"
      using env by blast
    then show ?thesis using g [of k] by (intro exI [of _ "fr + k"]) auto
  qed
  have mx: "\<exists>i. fr \<le> i \<and> i < to \<and> mx = newest ring (unat sz) (unat head) N i"
  proof (cases "mx = 0")
    case True
    then have "newest ring (unat sz) (unat head) N fr = mx" using all [of fr] lt by simp
    then show ?thesis using lt by (metis order_refl)
  next
    case False
    then obtain k where "k < to - fr" "mx = ring (unat ((?start + (?e + of_nat k)) mod sz))"
      using env by blast
    then show ?thesis using g [of k] by (intro exI [of _ "fr + k"]) auto
  qed
  show "\<forall>i. fr \<le> i \<and> i < to \<longrightarrow>
      fst (decimateBin ring sz ?start count bins (of_nat b)) \<le> newest ring (unat sz) (unat head) N i
    \<and> newest ring (unat sz) (unat head) N i \<le> snd (decimateBin ring sz ?start count bins (of_nat b))"
    "\<exists>i. fr \<le> i \<and> i < to
      \<and> fst (decimateBin ring sz ?start count bins (of_nat b)) = newest ring (unat sz) (unat head) N i"
    "\<exists>i. fr \<le> i \<and> i < to
      \<and> snd (decimateBin ring sz ?start count bins (of_nat b)) = newest ring (unat sz) (unat head) N i"
    using all mn mx by (simp_all add: d)
qed

section \<open>Properties\<close>

text \<open>An armed scope asks for the capture to freeze exactly once, on the sample that comes the
  requested number of samples after the trigger: the first sample past the level that has an
  earlier sample on the other side of it (so a signal already past the level does not trigger);
  without a trigger, or with too few samples after it, never.\<close>

theorem scope_freezes_once:
  assumes "i < length xs"
  shows "scopeRun (scopeArm lvl falling postSamples m) xs ! i \<longleftrightarrow>
    (\<exists>j. i = j + unat postSamples
       \<and> preSide (scopeArm lvl falling postSamples m) (xs ! j) = False
       \<and> (\<exists>k<j. preSide (scopeArm lvl falling postSamples m) (xs ! k))
       \<and> (\<forall>j'<j. preSide (scopeArm lvl falling postSamples m) (xs ! j')
            \<or> (\<forall>k<j'. \<not> preSide (scopeArm lvl falling postSamples m) (xs ! k))))"
proof -
  let ?m = "scopeArm lvl falling postSamples m"
  have "scopeState ?m = ScopeArmed" "postTotal ?m = postSamples" "\<not> primed ?m"
    by (simp_all add: scopeArm_def)
  then show ?thesis
    using scopeRun_armed [of ?m i xs] assms by (auto simp: isTrigger_def)
qed

lemma scope_freezes_once_witness:
  "scopeRun (scopeArm 100 False 1 scopeInit) [90, 150, 7] ! 2"
proof -
  have "\<exists>j. 2 = j + unat (1 :: u32)
       \<and> preSide (scopeArm 100 False 1 scopeInit) ([90, 150, 7] ! j) = False
       \<and> (\<exists>k<j. preSide (scopeArm 100 False 1 scopeInit) ([90, 150, 7] ! k))
       \<and> (\<forall>j'<j. preSide (scopeArm 100 False 1 scopeInit) ([90, 150, 7] ! j')
            \<or> (\<forall>k<j'. \<not> preSide (scopeArm 100 False 1 scopeInit) ([90, 150, 7] ! k)))"
    by (intro exI [of _ 1]) (auto simp: preSide_def scopeArm_def)
  then show ?thesis
    using scope_freezes_once [of 2 "[90, 150, 7]" 100 False 1 scopeInit] by simp
qed

text \<open>Decimation keeps the envelope: the result has one minimum and maximum per bin, each
  bound is a sample of the window of the newest samples, and every sample of that window lies
  between the bounds of some bin; no sample outside the window or the ring is read.\<close>

theorem decimate_envelope:
  fixes ring :: "nat \<Rightarrow> u16"
  assumes "unat head < unat sz" "unat sz \<le> 2 ^ 31" "count \<noteq> 0" "bins \<noteq> 0"
  defines "N \<equiv> min (unat count) (unat sz)" and "env \<equiv> ringDecimate ring sz head count bins"
  shows "length env = unat bins
    \<and> (\<forall>b<unat bins. \<exists>i<N. \<exists>i'<N. fst (env ! b) = newest ring (unat sz) (unat head) N i
         \<and> snd (env ! b) = newest ring (unat sz) (unat head) N i')
    \<and> (\<forall>i<N. \<exists>b<unat bins. fst (env ! b) \<le> newest ring (unat sz) (unat head) N i
         \<and> newest ring (unat sz) (unat head) N i \<le> snd (env ! b))"
proof -
  let ?c = "if count > sz then sz else count"
  have c: "unat ?c = N" by (simp add: N_def word_less_nat_alt)
  have sz: "sz \<noteq> 0" using assms(1) by auto
  have N: "0 < N" "N \<le> unat sz" using assms(3) sz by (simp_all add: N_def unat_gt_0)
  have B: "0 < unat bins" using assms(4) by (simp add: unat_gt_0)
  have env: "env = map (\<lambda>b. decimateBin ring sz (decimateStart sz head ?c) ?c bins (of_nat b)) [0..<unat bins]"
    using assms(3,4) sz by (simp add: env_def ringDecimate_def Let_def)
  note spec = decimateBin_spec [OF assms(1,2) c N(2,1), of _ bins ring]
  have nth: "env ! b = decimateBin ring sz (decimateStart sz head ?c) ?c bins (of_nat b)"
    if "b < unat bins" for b
    using that by (simp add: env)
  have "\<exists>i<N. \<exists>i'<N. fst (env ! b) = newest ring (unat sz) (unat head) N i
      \<and> snd (env ! b) = newest ring (unat sz) (unat head) N i'" if b: "b < unat bins" for b
    using spec(2,3) [OF b] bin_facts(4) [OF b N(1) c] unfolding nth [OF b] by (metis less_le_trans)
  moreover have "\<exists>b<unat bins. fst (env ! b) \<le> newest ring (unat sz) (unat head) N i
      \<and> newest ring (unat sz) (unat head) N i \<le> snd (env ! b)" if i: "i < N" for i
  proof -
    obtain b where b: "b < unat bins" and "b * N div unat bins \<le> i"
      "i < max (Suc b * N div unat bins) (Suc (b * N div unat bins))"
      using bin_cover [OF i B] by blast
    then have "i < unat (binEnd (of_nat b) ?c bins)" by (simp only: bin_facts(2) [OF b N(1) c])
    then show ?thesis using spec(1) [OF b] b nth [OF b] \<open>b * N div unat bins \<le> i\<close> by metis
  qed
  moreover have "length env = unat bins" by (simp add: env)
  ultimately show ?thesis by blast
qed

lemma decimate_envelope_witness:
  "\<exists>b<2. fst (ringDecimate (\<lambda>i. of_nat (10 * i)) 4 1 3 2 ! b) \<le> newest (\<lambda>i. of_nat (10 * i)) 4 1 3 2
     \<and> newest (\<lambda>i. of_nat (10 * i)) 4 1 3 2 \<le> snd (ringDecimate (\<lambda>i. of_nat (10 * i)) 4 1 3 2 ! b)"
  using decimate_envelope [of 1 4 3 2 "\<lambda>i. of_nat (10 * i)"] by simp

end
