(* ===== verification/Config_Types.thy ===== *)
theory Config_Types
  imports Pwm_Pair
begin

text \<open>
  The configuration of the firmware: the structures of \<open>src/src/config_json.h\<close> as records with
  the widths and the compiled defaults of the source, and the semantic comparison of
  \<open>src/src/config_compare.h\<close>, which decides which part of the hardware a new configuration
  re-initialises. A \<open>char\<close> array is the string up to its terminator. Field names carry a section
  prefix where two structures share one (\<open>fbEnabled\<close> is \<open>Feedback.Enabled\<close>); signed fields are
  words read with \<open>sint\<close>.
\<close>

definition DefaultPwmFrequencyHz :: u32 where [const_defs]: "DefaultPwmFrequencyHz = 1000"
definition DefaultModulationCarrierHz :: u32 where [const_defs]: "DefaultModulationCarrierHz = 20000"
definition MinRepresentablePwmFrequencyHz :: u32 where [const_defs]: "MinRepresentablePwmFrequencyHz = 18"
definition MaxPwmFrequencyHz :: u32 where [const_defs]: "MaxPwmFrequencyHz = 1000000"
definition MaxModulationCarrierHz :: u32 where [const_defs]: "MaxModulationCarrierHz = 200000"

section \<open>Outputs\<close>

record ChannelConfig =
  DutyCycle :: u16

record SubmoduleConfig =
  Pair :: byte
  DeadTime :: u16
  PwmFrequency :: u32
  ChannelA :: ChannelConfig
  ChannelB :: ChannelConfig

definition defaultSubmodule :: "u32 \<Rightarrow> SubmoduleConfig" where
  "defaultSubmodule hz = \<lparr>Pair = PairIndependent, DeadTime = MinHalfBridgeDeadTimeNs,
     PwmFrequency = hz, ChannelA = \<lparr>DutyCycle = 0\<rparr>, ChannelB = \<lparr>DutyCycle = 0\<rparr>\<rparr>"

record Module1Config =
  Sm13 :: SubmoduleConfig

record Module2Config =
  UseSpwm :: bool
  SpwmCarrierFrequency :: u32
  SpwmModulationFrequency :: u32
  ModulationScheme :: byte
  ModulationIndexMilli :: u16
  ModulationCells :: byte
  CarrierDisposition :: byte
  DeadTimeCompensation :: bool
  SoftStartMs :: u16
  ReferenceWaveform :: byte
  DpwmVariant :: byte
  DpwmClampAngleDeg :: byte
  CarrierDitherMode :: byte
  CarrierDitherPercent :: byte
  NearestLevelModulation :: bool
  WaveformSampleStep :: bool
  Sm20 :: SubmoduleConfig
  Sm21 :: SubmoduleConfig
  Sm22 :: SubmoduleConfig
  Sm23 :: SubmoduleConfig

record Module3Config =
  Sm31 :: SubmoduleConfig

record Module4Config =
  Sm40 :: SubmoduleConfig
  Sm41 :: SubmoduleConfig
  Sm42 :: SubmoduleConfig

record PwmConfig =
  Tm1 :: Module1Config
  Tm2 :: Module2Config
  Tm3 :: Module3Config
  Tm4 :: Module4Config
  PrintRegs :: bool
  SyncPwm :: bool
  Verbose :: bool

definition defaultModule2 :: Module2Config where
  "defaultModule2 = \<lparr>UseSpwm = False, SpwmCarrierFrequency = DefaultModulationCarrierHz,
     SpwmModulationFrequency = 50, ModulationScheme = 1, ModulationIndexMilli = 1000,
     ModulationCells = 2, CarrierDisposition = 0, DeadTimeCompensation = False, SoftStartMs = 0,
     ReferenceWaveform = 0, DpwmVariant = 0, DpwmClampAngleDeg = 0, CarrierDitherMode = 0,
     CarrierDitherPercent = 0, NearestLevelModulation = False, WaveformSampleStep = False,
     Sm20 = defaultSubmodule DefaultModulationCarrierHz,
     Sm21 = defaultSubmodule DefaultModulationCarrierHz,
     Sm22 = defaultSubmodule DefaultModulationCarrierHz,
     Sm23 = defaultSubmodule DefaultModulationCarrierHz\<rparr>"

definition defaultPwm :: PwmConfig where
  "defaultPwm = (let s = defaultSubmodule DefaultPwmFrequencyHz
     in \<lparr>Tm1 = \<lparr>Sm13 = s\<rparr>, Tm2 = defaultModule2, Tm3 = \<lparr>Sm31 = s\<rparr>,
         Tm4 = \<lparr>Sm40 = s, Sm41 = s, Sm42 = s\<rparr>, PrintRegs = False, SyncPwm = False, Verbose = False\<rparr>)"

section \<open>The other sections\<close>

record AsymmetricInductionConfig =
  aiIsEnabled :: bool
  PreShiftNanos :: u32
  PostShiftNanos :: u32

definition defaultAsymmetricInduction :: AsymmetricInductionConfig where
  "defaultAsymmetricInduction = \<lparr>aiIsEnabled = False, PreShiftNanos = 250, PostShiftNanos = 500\<rparr>"

record FeedbackConfig =
  fbEnabled :: bool
  fbAnalogPin :: byte
  SetpointMillivolts :: u32
  FullScaleMillivolts :: u32
  KpMilli :: u16
  KiMilli :: u16
  LoopHz :: u16

definition defaultFeedback :: FeedbackConfig where
  "defaultFeedback = \<lparr>fbEnabled = False, fbAnalogPin = 41, SetpointMillivolts = 0, FullScaleMillivolts = 3300,
     KpMilli = 200, KiMilli = 2000, LoopHz = 250\<rparr>"

record FaultProtectionConfig =
  fpEnabled :: bool
  fpPin :: byte
  ActiveHigh :: bool

definition defaultFaultProtection :: FaultProtectionConfig where
  "defaultFaultProtection = \<lparr>fpEnabled = False, fpPin = 32, ActiveHigh = True\<rparr>"

record CurrentLimitConfig =
  clEnabled :: bool
  clPin :: byte
  ThresholdMillivolts :: u16
  CycleByCycle :: bool
  FilterCount :: byte
  FilterPeriod :: byte

definition defaultCurrentLimit :: CurrentLimitConfig where
  "defaultCurrentLimit = \<lparr>clEnabled = False, clPin = 40, ThresholdMillivolts = 2475, CycleByCycle = False,
     FilterCount = 0, FilterPeriod = 0\<rparr>"

record InfluxConfig =
  ixHost :: string
  ixPort :: u16
  ixOrg :: string
  ixBucket :: string
  ixToken :: string
  ixIntervalSeconds :: u16

definition defaultInflux :: InfluxConfig where
  "defaultInflux = \<lparr>ixHost = '''', ixPort = 8086, ixOrg = '''', ixBucket = '''', ixToken = '''',
     ixIntervalSeconds = 10\<rparr>"

record MqttConfig =
  mqEnabled :: bool
  mqHost :: string
  mqPort :: u16
  mqUsername :: string
  mqPassword :: string
  BaseTopic :: string
  DiscoveryPrefix :: string
  DiscoveryEnabled :: bool
  mqIntervalSeconds :: u16

definition defaultMqtt :: MqttConfig where
  "defaultMqtt = \<lparr>mqEnabled = False, mqHost = '''', mqPort = 1883, mqUsername = '''', mqPassword = '''',
     BaseTopic = ''teg'', DiscoveryPrefix = ''homeassistant'', DiscoveryEnabled = True,
     mqIntervalSeconds = 10\<rparr>"

record MtpConfig =
  mtEnabled :: bool

definition defaultMtp :: MtpConfig where
  "defaultMtp = \<lparr>mtEnabled = False\<rparr>"

record SecurityConfig =
  WritePin :: string

definition defaultSecurity :: SecurityConfig where
  "defaultSecurity = \<lparr>WritePin = ''''\<rparr>"

record CaptureSettings =
  caEnabled :: bool

definition defaultCapture :: CaptureSettings where
  "defaultCapture = \<lparr>caEnabled = False\<rparr>"

record MeterConfig =
  meEnabled :: bool
  meCurrentPin :: byte
  VoltageZeroMillivolts :: u16
  CurrentZeroMillivolts :: u16
  CurrentMilliampPerVolt :: u32
  VoltageRatioMilli :: u32

definition defaultMeter :: MeterConfig where
  "defaultMeter = \<lparr>meEnabled = False, meCurrentPin = 40, VoltageZeroMillivolts = 1650,
     CurrentZeroMillivolts = 1650, CurrentMilliampPerVolt = 10000, VoltageRatioMilli = 1000\<rparr>"

record PllConfig =
  plEnabled :: bool
  PhaseOffsetCentiDeg :: u16
  MinHz :: u16
  MaxHz :: u16
  BandwidthDeciHz :: u16
  ZeroMillivolts :: u16
  MinLevelMillivolts :: u16

definition defaultPll :: PllConfig where
  "defaultPll = \<lparr>plEnabled = False, PhaseOffsetCentiDeg = 0, MinHz = 45, MaxHz = 55, BandwidthDeciHz = 200,
     ZeroMillivolts = 1650, MinLevelMillivolts = 100\<rparr>"

record MpptConfig =
  mpEnabled :: bool
  mpIntervalMs :: u16
  StepMilli :: u16
  MinStepMilli :: u16
  MinIndexMilli :: u16
  MaxIndexMilli :: u16
  DeadbandMw :: u16
  RestartDeltaMw :: u32

definition defaultMppt :: MpptConfig where
  "defaultMppt = \<lparr>mpEnabled = False, mpIntervalMs = 3000, StepMilli = 20, MinStepMilli = 5,
     MinIndexMilli = 50, MaxIndexMilli = 1000, DeadbandMw = 10, RestartDeltaMw = 1000\<rparr>"

record ThermalConfig =
  thEnabled :: bool
  OneWirePin :: byte
  DerateStartC :: byte
  DerateEndC :: byte

definition defaultThermal :: ThermalConfig where
  "defaultThermal = \<lparr>thEnabled = False, OneWirePin = 21, DerateStartC = 70, DerateEndC = 90\<rparr>"

record PowerMonConfig =
  pmEnabled :: bool
  pmAddress :: byte
  ShuntMicroOhm :: u32
  CurrentLsbMicroAmp :: u16
  AlertMilliAmp :: u16
  pmIntervalMs :: u16
  PgEfusePin :: byte
  PgBuckPin :: byte
  AlertPin :: byte
  ImonPin :: byte
  ImonRimonOhm :: u16

definition defaultPowerMon :: PowerMonConfig where
  "defaultPowerMon = \<lparr>pmEnabled = False, pmAddress = 0x40, ShuntMicroOhm = 10000, CurrentLsbMicroAmp = 50,
     AlertMilliAmp = 1500, pmIntervalMs = 250, PgEfusePin = 14, PgBuckPin = 15, AlertPin = 20,
     ImonPin = 255, ImonRimonOhm = 4530\<rparr>"

record MainConfig =
  Pwm :: PwmConfig
  AsymmetricInduction :: AsymmetricInductionConfig
  Feedback :: FeedbackConfig
  FaultProtection :: FaultProtectionConfig
  CurrentLimit :: CurrentLimitConfig
  Influx :: InfluxConfig
  Mqtt :: MqttConfig
  Mtp :: MtpConfig
  Security :: SecurityConfig
  Capture :: CaptureSettings
  Meter :: MeterConfig
  Pll :: PllConfig
  Mppt :: MpptConfig
  Thermal :: ThermalConfig
  PowerMon :: PowerMonConfig

definition defaultConfig :: MainConfig where
  "defaultConfig = \<lparr>Pwm = defaultPwm, AsymmetricInduction = defaultAsymmetricInduction,
     Feedback = defaultFeedback, FaultProtection = defaultFaultProtection,
     CurrentLimit = defaultCurrentLimit, Influx = defaultInflux, Mqtt = defaultMqtt,
     Mtp = defaultMtp, Security = defaultSecurity, Capture = defaultCapture,
     Meter = defaultMeter, Pll = defaultPll, Mppt = defaultMppt, Thermal = defaultThermal,
     PowerMon = defaultPowerMon\<rparr>"

section \<open>Semantic comparison\<close>

definition configStringsEqual :: "nat \<Rightarrow> string \<Rightarrow> string \<Rightarrow> bool" where
  "configStringsEqual n left right \<longleftrightarrow> take n (cstr left) = take n (cstr right)"

definition equalSubmodule :: "SubmoduleConfig \<Rightarrow> SubmoduleConfig \<Rightarrow> bool" where
  "equalSubmodule l r \<longleftrightarrow> Pair l = Pair r \<and> DeadTime l = DeadTime r \<and> PwmFrequency l = PwmFrequency r
     \<and> DutyCycle (ChannelA l) = DutyCycle (ChannelA r) \<and> DutyCycle (ChannelB l) = DutyCycle (ChannelB r)"

definition equalModule2 :: "Module2Config \<Rightarrow> Module2Config \<Rightarrow> bool" where
  "equalModule2 l r \<longleftrightarrow>
     UseSpwm l = UseSpwm r \<and> SpwmCarrierFrequency l = SpwmCarrierFrequency r
     \<and> SpwmModulationFrequency l = SpwmModulationFrequency r
     \<and> ModulationScheme l = ModulationScheme r
     \<and> ModulationIndexMilli l = ModulationIndexMilli r
     \<and> ModulationCells l = ModulationCells r
     \<and> CarrierDisposition l = CarrierDisposition r
     \<and> DeadTimeCompensation l = DeadTimeCompensation r
     \<and> SoftStartMs l = SoftStartMs r \<and> ReferenceWaveform l = ReferenceWaveform r
     \<and> DpwmVariant l = DpwmVariant r \<and> DpwmClampAngleDeg l = DpwmClampAngleDeg r
     \<and> CarrierDitherMode l = CarrierDitherMode r
     \<and> CarrierDitherPercent l = CarrierDitherPercent r
     \<and> NearestLevelModulation l = NearestLevelModulation r
     \<and> WaveformSampleStep l = WaveformSampleStep r
     \<and> equalSubmodule (Sm20 l) (Sm20 r) \<and> equalSubmodule (Sm21 l) (Sm21 r)
     \<and> equalSubmodule (Sm22 l) (Sm22 r) \<and> equalSubmodule (Sm23 l) (Sm23 r)"

definition equalModule4 :: "Module4Config \<Rightarrow> Module4Config \<Rightarrow> bool" where
  "equalModule4 l r \<longleftrightarrow> equalSubmodule (Sm40 l) (Sm40 r) \<and> equalSubmodule (Sm41 l) (Sm41 r)
     \<and> equalSubmodule (Sm42 l) (Sm42 r)"

definition equalPwm :: "PwmConfig \<Rightarrow> PwmConfig \<Rightarrow> bool" where
  "equalPwm l r \<longleftrightarrow> equalSubmodule (Sm13 (Tm1 l)) (Sm13 (Tm1 r)) \<and> equalModule2 (Tm2 l) (Tm2 r)
     \<and> equalSubmodule (Sm31 (Tm3 l)) (Sm31 (Tm3 r)) \<and> equalModule4 (Tm4 l) (Tm4 r)
     \<and> PrintRegs l = PrintRegs r \<and> SyncPwm l = SyncPwm r \<and> Verbose l = Verbose r"

definition equalAsymmetricInduction :: "AsymmetricInductionConfig \<Rightarrow> AsymmetricInductionConfig \<Rightarrow> bool" where
  "equalAsymmetricInduction l r \<longleftrightarrow>
     aiIsEnabled l = aiIsEnabled r \<and> PreShiftNanos l = PreShiftNanos r
     \<and> PostShiftNanos l = PostShiftNanos r"

definition equalFeedback :: "FeedbackConfig \<Rightarrow> FeedbackConfig \<Rightarrow> bool" where
  "equalFeedback l r \<longleftrightarrow>
     fbEnabled l = fbEnabled r \<and> fbAnalogPin l = fbAnalogPin r
     \<and> SetpointMillivolts l = SetpointMillivolts r
     \<and> FullScaleMillivolts l = FullScaleMillivolts r \<and> KpMilli l = KpMilli r
     \<and> KiMilli l = KiMilli r \<and> LoopHz l = LoopHz r"

definition equalFaultProtection :: "FaultProtectionConfig \<Rightarrow> FaultProtectionConfig \<Rightarrow> bool" where
  "equalFaultProtection l r \<longleftrightarrow>
     fpEnabled l = fpEnabled r \<and> fpPin l = fpPin r \<and> ActiveHigh l = ActiveHigh r"

definition equalCurrentLimit :: "CurrentLimitConfig \<Rightarrow> CurrentLimitConfig \<Rightarrow> bool" where
  "equalCurrentLimit l r \<longleftrightarrow>
     clEnabled l = clEnabled r \<and> clPin l = clPin r
     \<and> ThresholdMillivolts l = ThresholdMillivolts r
     \<and> CycleByCycle l = CycleByCycle r \<and> FilterCount l = FilterCount r
     \<and> FilterPeriod l = FilterPeriod r"

definition equalMqtt :: "MqttConfig \<Rightarrow> MqttConfig \<Rightarrow> bool" where
  "equalMqtt l r \<longleftrightarrow>
     mqEnabled l = mqEnabled r \<and> configStringsEqual 40 (mqHost l) (mqHost r)
     \<and> mqPort l = mqPort r \<and> configStringsEqual 32 (mqUsername l) (mqUsername r)
     \<and> configStringsEqual 64 (mqPassword l) (mqPassword r)
     \<and> configStringsEqual 24 (BaseTopic l) (BaseTopic r)
     \<and> configStringsEqual 16 (DiscoveryPrefix l) (DiscoveryPrefix r)
     \<and> DiscoveryEnabled l = DiscoveryEnabled r
     \<and> mqIntervalSeconds l = mqIntervalSeconds r"

definition equalPll :: "PllConfig \<Rightarrow> PllConfig \<Rightarrow> bool" where
  "equalPll l r \<longleftrightarrow>
     plEnabled l = plEnabled r \<and> PhaseOffsetCentiDeg l = PhaseOffsetCentiDeg r
     \<and> MinHz l = MinHz r \<and> MaxHz l = MaxHz r
     \<and> BandwidthDeciHz l = BandwidthDeciHz r \<and> ZeroMillivolts l = ZeroMillivolts r
     \<and> MinLevelMillivolts l = MinLevelMillivolts r"

definition equalMppt :: "MpptConfig \<Rightarrow> MpptConfig \<Rightarrow> bool" where
  "equalMppt l r \<longleftrightarrow>
     mpEnabled l = mpEnabled r \<and> mpIntervalMs l = mpIntervalMs r
     \<and> StepMilli l = StepMilli r \<and> MinStepMilli l = MinStepMilli r
     \<and> MinIndexMilli l = MinIndexMilli r \<and> MaxIndexMilli l = MaxIndexMilli r
     \<and> DeadbandMw l = DeadbandMw r \<and> RestartDeltaMw l = RestartDeltaMw r"

definition equalPowerMon :: "PowerMonConfig \<Rightarrow> PowerMonConfig \<Rightarrow> bool" where
  "equalPowerMon l r \<longleftrightarrow>
     pmEnabled l = pmEnabled r \<and> pmAddress l = pmAddress r
     \<and> ShuntMicroOhm l = ShuntMicroOhm r
     \<and> CurrentLsbMicroAmp l = CurrentLsbMicroAmp r
     \<and> AlertMilliAmp l = AlertMilliAmp r \<and> pmIntervalMs l = pmIntervalMs r
     \<and> PgEfusePin l = PgEfusePin r \<and> PgBuckPin l = PgBuckPin r
     \<and> AlertPin l = AlertPin r \<and> ImonPin l = ImonPin r
     \<and> ImonRimonOhm l = ImonRimonOhm r"

end
