(* ===== verification/Capture.thy ===== *)
theory Capture
  imports Scope Config_Types
begin

text \<open>
  \<open>src/src/capture.cpp\<close>: carrier-synchronous capture. The PWM interrupt calls
  \<open>captureTick\<close>, which stores a voltage sample in a ring of \<open>2\<^sup>2\<^sup>0\<close> samples, pairs it with a
  current sample when metering is on, feeds the scope trigger and freezes the ring on a fault;
  the main loop drains the ring through a cursor, takes the idle meter bank and arms the scope.
  A call of the interrupt or of a loop-side function is one step of \<open>capStep\<close>.

  The ADC library is a parameter: which module can read which pin, and for each tick whether the
  conversions are complete and what they hold. The float conversion of a sensor's zero point to
  counts is a parameter too. The lemmas show what the ring holds, that a cursor reads the
  samples without loss or repetition, and that no meter sum is lost between the banks.
\<close>

definition CaptureRingSamples :: u32 where [const_defs]: "CaptureRingSamples = 0x100000"
definition CurrentRingSamples :: u32 where [const_defs]: "CurrentRingSamples = 0x80000"

record MeterBank =
  sumP :: u64
  sumVsq :: u64
  sumIsq :: u64
  bankCount :: u32

definition meterBankZero :: MeterBank where
  "meterBankZero = \<lparr>sumP = 0, sumVsq = 0, sumIsq = 0, bankCount = 0\<rparr>"

record CaptureState =
  captureRing :: "nat \<Rightarrow> u16"
  currentRing :: "nat \<Rightarrow> u16"
  adcModule :: "nat option"
  activePin :: byte
  currentModule :: "nat option"
  activeCurrentPin :: byte
  vHead :: u32
  vTotal :: u32
  vEnabled :: bool
  vFrozen :: bool
  vLatest :: u16
  vVoltageMisses :: u32
  vCurrentMisses :: u32
  vMeterEnabled :: bool
  vCurrentHead :: u32
  zeroV :: u32
  zeroI :: u32
  meterBanks :: "nat \<Rightarrow> MeterBank"
  vMeterBank :: byte
  scopeM :: ScopeMachine
  vScopeEnabled :: bool
  vScopeSourceCurrent :: bool
  vScopeTrigSample :: u32

text \<open>The library: \<open>startSingleRead\<close> on module 0 or 1 (whether it can read the pin).\<close>

record AdcLibrary =
  startSingleRead :: "nat \<Rightarrow> byte \<Rightarrow> bool"

section \<open>Configuration\<close>

text \<open>The sensor bias in counts. The code computes \<open>mv * 4095 / 3300\<close> in single precision and rounds;
  up to 3300 mV, all that a validated configuration holds, the product is exact and the quotient is
  never closer than 1/220 to a rounding boundary, so this integer rounding is its value.\<close>

definition meterZeroCounts :: "u16 \<Rightarrow> u32" where
  "meterZeroCounts zeroMillivolts = (ucast zeroMillivolts * 4095 + 1650) div 3300"

definition pickModule :: "AdcLibrary \<Rightarrow> byte \<Rightarrow> nat option" where
  "pickModule L pin =
     (if startSingleRead L 0 pin then Some 0 else if startSingleRead L 1 pin then Some 1 else None)"

definition configureMeter :: "AdcLibrary \<Rightarrow> MainConfig \<Rightarrow> nat \<Rightarrow> CaptureState \<Rightarrow> CaptureState" where
  "configureMeter L cfg m c =
     (let c = c\<lparr>vMeterEnabled := False\<rparr>
      in if meEnabled (Meter cfg) then
           let other = (if m = 0 then 1 else 0)
           in if startSingleRead L other (meCurrentPin (Meter cfg))
              then c\<lparr>currentModule := Some other, activeCurrentPin := meCurrentPin (Meter cfg),
                     zeroV := meterZeroCounts (VoltageZeroMillivolts (Meter cfg)),
                     zeroI := meterZeroCounts (CurrentZeroMillivolts (Meter cfg)),
                     meterBanks := (\<lambda>b. if b < 2 then meterBankZero else meterBanks c b),
                     vCurrentHead := 0, vMeterEnabled := True\<rparr>
              else c\<lparr>currentModule := None\<rparr>
         else c)"

definition captureConfigure :: "AdcLibrary \<Rightarrow> bool \<Rightarrow> MainConfig \<Rightarrow> CaptureState \<Rightarrow> CaptureState" where
  "captureConfigure L psram cfg c =
     (let c = c\<lparr>vEnabled := False, vScopeEnabled := False, scopeM := scopeDisarm (scopeM c)\<rparr>
      in if \<not> caEnabled (Capture cfg) \<or> \<not> psram then c
         else let pin = fbAnalogPin (Feedback cfg);
                  fresh = (pin \<noteq> activePin c \<or> adcModule c = None);
                  m = (if fresh then pickModule L pin else adcModule c);
                  c = c\<lparr>adcModule := m\<rparr>
         in case m of
              None \<Rightarrow> c
            | Some m \<Rightarrow>
                (configureMeter L cfg m (c\<lparr>activePin := pin\<rparr>))
                  \<lparr>vHead := 0, vTotal := 0, vVoltageMisses := 0, vCurrentMisses := 0,
                   vFrozen := False, vEnabled := True\<rparr>)"

section \<open>The interrupt\<close>

record TickInput =
  vFaultTripped :: bool
  vComplete :: bool
  vSample :: u16
  iComplete :: bool
  iSample :: u16

definition feedScope :: "u16 \<Rightarrow> CaptureState \<Rightarrow> CaptureState" where
  "feedScope x c =
     (let before = scopeState (scopeM c)
      in case scopeStep (scopeM c) x of (freeze, m) \<Rightarrow>
           let c = c\<lparr>scopeM := m\<rparr>;
               c = (if before = ScopeArmed \<and> scopeState m \<noteq> ScopeArmed
                    then c\<lparr>vScopeTrigSample := vTotal c\<rparr> else c)
           in if freeze then c\<lparr>vFrozen := True\<rparr> else c)"

definition storeVoltage :: "u16 \<Rightarrow> CaptureState \<Rightarrow> CaptureState" where
  "storeVoltage v c =
     c\<lparr>vLatest := v, captureRing := (captureRing c)(unat (vHead c) := v),
       vHead := (vHead c + 1) AND (CaptureRingSamples - 1), vTotal := vTotal c + 1\<rparr>"

definition storeCurrent :: "u16 \<Rightarrow> CaptureState \<Rightarrow> CaptureState" where
  "storeCurrent i c =
     c\<lparr>currentRing := (currentRing c)(unat (vCurrentHead c) := i),
       vCurrentHead := (vCurrentHead c + 1) AND (CurrentRingSamples - 1)\<rparr>"

definition meterAdd :: "u32 \<Rightarrow> u32 \<Rightarrow> MeterBank \<Rightarrow> MeterBank" where
  "meterAdd vs is' b =
     b\<lparr>sumP := sumP b + scast vs * scast is', sumVsq := sumVsq b + scast vs * scast vs,
       sumIsq := sumIsq b + scast is' * scast is', bankCount := bankCount b + 1\<rparr>"

definition accumulate :: "u16 \<Rightarrow> u16 \<Rightarrow> CaptureState \<Rightarrow> CaptureState" where
  "accumulate v i c =
     (let vs = ucast v - zeroV c; is' = ucast i - zeroI c; k = unat (vMeterBank c)
      in c\<lparr>meterBanks := (meterBanks c)(k := meterAdd vs is' (meterBanks c k))\<rparr>)"

definition tickSample :: "TickInput \<Rightarrow> CaptureState \<Rightarrow> CaptureState" where
  "tickSample t c =
     (let c = storeVoltage (vSample t) c;
          c = (if vScopeEnabled c \<and> \<not> vScopeSourceCurrent c \<and> scopeState (scopeM c) \<noteq> ScopeComplete
               then feedScope (vSample t) c else c)
      in if vMeterEnabled c then
           let c = accumulate (vSample t) (iSample t) (storeCurrent (iSample t) c)
           in if vScopeEnabled c \<and> vScopeSourceCurrent c \<and> scopeState (scopeM c) \<noteq> ScopeComplete
              then feedScope (iSample t) c else c
         else c)"

definition captureTick :: "TickInput \<Rightarrow> CaptureState \<Rightarrow> CaptureState" where
  "captureTick t c =
     (if \<not> vEnabled c \<or> adcModule c = None then c
      else let c = (if vFaultTripped t then c\<lparr>vFrozen := True\<rparr> else c)
           in if vFrozen c then c
              else if \<not> vComplete t then c\<lparr>vVoltageMisses := vVoltageMisses c + 1\<rparr>
              else if vMeterEnabled c \<and> \<not> iComplete t
              then c\<lparr>vCurrentMisses := vCurrentMisses c + 1\<rparr>
              else tickSample t c)"

section \<open>The loop side\<close>

definition captureAvailable :: "CaptureState \<Rightarrow> u32" where
  "captureAvailable c = (if vTotal c < CaptureRingSamples then vTotal c else CaptureRingSamples)"

definition captureMeanRaw :: "u32 \<Rightarrow> CaptureState \<Rightarrow> u32" where
  "captureMeanRaw n c =
     (let available = captureAvailable c
      in if available = 0 then 0
         else ringMean (captureRing c) CaptureRingSamples (vHead c) (if n < available then n else available))"

primrec copyRing :: "(nat \<Rightarrow> u16) \<Rightarrow> u32 \<Rightarrow> u32 \<Rightarrow> nat \<Rightarrow> u16 list" where
  "copyRing ring sz idx 0 = []"
| "copyRing ring sz idx (Suc n) = ring (unat idx) # copyRing ring sz ((idx + 1) AND (sz - 1)) n"

definition captureCopyRecent :: "u32 \<Rightarrow> CaptureState \<Rightarrow> u16 list" where
  "captureCopyRecent n c =
     (if n > captureAvailable c then []
      else copyRing (captureRing c) CaptureRingSamples
        ((vHead c + CaptureRingSamples - (n mod CaptureRingSamples)) AND (CaptureRingSamples - 1)) (unat n))"

definition OverrunMargin :: u32 where [const_defs]: "OverrunMargin = 4096"

text \<open>\<open>captureReadSince\<close>: the samples copied and the advanced cursor.\<close>

definition captureReadSince :: "u32 \<Rightarrow> u32 \<Rightarrow> CaptureState \<Rightarrow> u16 list \<times> u32" where
  "captureReadSince cursorTotal maxN c =
     (let total' = vTotal c; lag = total' - cursorTotal
      in if lag > 0x80000000 then ([], total')
         else let over = lag > CaptureRingSamples - OverrunMargin;
                  cursorTotal = (if over then total' - (CaptureRingSamples - OverrunMargin) else cursorTotal);
                  lag = (if over then CaptureRingSamples - OverrunMargin else lag);
                  n = (if lag < maxN then lag else maxN)
              in if n = 0 then ([], cursorTotal)
                 else (copyRing (captureRing c) CaptureRingSamples
                         (cursorTotal AND (CaptureRingSamples - 1)) (unat n), cursorTotal + n))"

definition captureDecimate :: "u32 \<Rightarrow> u32 \<Rightarrow> CaptureState \<Rightarrow> u32 \<times> (u16 \<times> u16) list" where
  "captureDecimate count bins c =
     (let available = captureAvailable c; count = (if count > available then available else count)
      in if count = 0 then (0, [])
         else (count, ringDecimate (captureRing c) CaptureRingSamples (vHead c) count bins))"

definition captureRawAvailable :: "bool \<Rightarrow> CaptureState \<Rightarrow> u32" where
  "captureRawAvailable currentChannel c =
     (if currentChannel \<and> \<not> vMeterEnabled c then 0
      else let ring = (if currentChannel then CurrentRingSamples else CaptureRingSamples)
           in if vTotal c < ring then vTotal c else ring)"

definition captureDecimateCurrent :: "u32 \<Rightarrow> u32 \<Rightarrow> CaptureState \<Rightarrow> u32 \<times> (u16 \<times> u16) list" where
  "captureDecimateCurrent count bins c =
     (if \<not> vMeterEnabled c then (0, [])
      else let available = (if vTotal c < CurrentRingSamples then vTotal c else CurrentRingSamples);
               count = (if count > available then available else count)
           in if count = 0 then (0, [])
              else (count, ringDecimate (currentRing c) CurrentRingSamples (vCurrentHead c) count bins))"

definition captureRawCopy :: "bool \<Rightarrow> u32 \<Rightarrow> u32 \<Rightarrow> u32 \<Rightarrow> CaptureState \<Rightarrow> u16 list" where
  "captureRawCopy currentChannel windowN offset n c =
     (let ring = (if currentChannel then currentRing c else captureRing c);
          sz = (if currentChannel then CurrentRingSamples else CaptureRingSamples);
          head = (if currentChannel then vCurrentHead c else vHead c);
          idx = (head + sz - (windowN mod sz) + offset) AND (sz - 1)
      in copyRing ring sz idx (unat n))"

definition captureMeterActive :: "CaptureState \<Rightarrow> bool" where
  "captureMeterActive c \<longleftrightarrow> vEnabled c \<and> vMeterEnabled c \<and> \<not> vFrozen c"

definition captureMeterFlip :: "CaptureState \<Rightarrow> CaptureState" where
  "captureMeterFlip c = c\<lparr>vMeterBank := vMeterBank c XOR 1\<rparr>"

definition captureMeterIdleBank :: "CaptureState \<Rightarrow> byte" where
  "captureMeterIdleBank c = vMeterBank c XOR 1"

definition captureMeterTake :: "byte \<Rightarrow> CaptureState \<Rightarrow> MeterBank \<times> CaptureState" where
  "captureMeterTake bank c =
     (meterBanks c (unat bank), c\<lparr>meterBanks := (meterBanks c)(unat bank := meterBankZero)\<rparr>)"

definition captureScopeArm :: "bool \<Rightarrow> u16 \<Rightarrow> bool \<Rightarrow> u32 \<Rightarrow> CaptureState \<Rightarrow> bool \<times> CaptureState" where
  "captureScopeArm currentSource levelCounts falling postSamples c =
     (if \<not> vEnabled c \<or> (currentSource \<and> \<not> vMeterEnabled c) then (False, c)
      else (True, c\<lparr>vScopeSourceCurrent := currentSource, vScopeTrigSample := 0,
              scopeM := scopeArm levelCounts falling postSamples (scopeM c),
              vFrozen := False, vScopeEnabled := True\<rparr>))"

definition captureScopeRelease :: "CaptureState \<Rightarrow> CaptureState" where
  "captureScopeRelease c =
     c\<lparr>vScopeEnabled := False, scopeM := scopeDisarm (scopeM c), vFrozen := False\<rparr>"

definition captureScopeState :: "CaptureState \<Rightarrow> byte" where
  "captureScopeState c = (if vScopeEnabled c then scopeState (scopeM c) else ScopeIdle)"

section \<open>Runs of the interrupt and the loop\<close>

definition captureBoot :: CaptureState where
  "captureBoot = \<lparr>captureRing = (\<lambda>_. 0), currentRing = (\<lambda>_. 0), adcModule = None, activePin = 255,
     currentModule = None, activeCurrentPin = 255, vHead = 0, vTotal = 0, vEnabled = False,
     vFrozen = False, vLatest = 0, vVoltageMisses = 0, vCurrentMisses = 0, vMeterEnabled = False,
     vCurrentHead = 0, zeroV = 2048, zeroI = 2048, meterBanks = (\<lambda>_. meterBankZero), vMeterBank = 0,
     scopeM = scopeInit, vScopeEnabled = False, vScopeSourceCurrent = False, vScopeTrigSample = 0\<rparr>"

text \<open>\<open>capReach L h p tk c\<close>: the program can be in state \<open>c\<close> with the voltage samples \<open>h\<close> and the
  pairs \<open>p\<close> stored, and the meter banks \<open>tk\<close> taken, since the configuration that last started
  the capture (or its metering).\<close>

definition tookSample :: "TickInput \<Rightarrow> CaptureState \<Rightarrow> bool" where
  "tookSample t c \<longleftrightarrow> vEnabled c \<and> adcModule c \<noteq> None \<and> \<not> vFaultTripped t \<and> \<not> vFrozen c
     \<and> vComplete t \<and> (vMeterEnabled c \<longrightarrow> iComplete t)"

inductive capReach ::
    "AdcLibrary \<Rightarrow> u16 list \<Rightarrow> (u16 \<times> u16) list \<Rightarrow> MeterBank list \<Rightarrow> CaptureState \<Rightarrow> bool" for L where
  boot: "capReach L [] [] [] captureBoot"
| configure: "capReach L h p tk c \<Longrightarrow> c' = captureConfigure L psram cfg c \<Longrightarrow>
    capReach L (if vEnabled c' then [] else h)
      (if vEnabled c' \<and> vMeterEnabled c' then [] else p)
      (if vEnabled c' \<and> vMeterEnabled c' then [] else tk) c'"
| tick: "capReach L h p tk c \<Longrightarrow>
    capReach L (if tookSample t c then h @ [vSample t] else h)
      (if tookSample t c \<and> vMeterEnabled c then p @ [(vSample t, iSample t)] else p) tk
      (captureTick t c)"
| flip: "capReach L h p tk c \<Longrightarrow> capReach L h p tk (captureMeterFlip c)"
| take: "capReach L h p tk c \<Longrightarrow> captureMeterTake (captureMeterIdleBank c) c = (b, c') \<Longrightarrow>
    capReach L h p (tk @ [b]) c'"
| arm: "capReach L h p tk c \<Longrightarrow>
    capReach L h p tk (snd (captureScopeArm cur lvl falling post c))"
| release: "capReach L h p tk c \<Longrightarrow> capReach L h p tk (captureScopeRelease c)"

section \<open>What the ring holds\<close>

definition ringHolds :: "u16 list \<Rightarrow> CaptureState \<Rightarrow> bool" where
  "ringHolds h c \<longleftrightarrow> unat (vHead c) = length h mod 2 ^ 20 \<and> vTotal c = of_nat (length h)
     \<and> (\<forall>j<length h. length h \<le> j + 2 ^ 20 \<longrightarrow> captureRing c (j mod 2 ^ 20) = h ! j)"

lemma ring_masks:
  "CaptureRingSamples - 1 = mask 20" "CurrentRingSamples - 1 = mask 19"
  by (simp_all add: CaptureRingSamples_def CurrentRingSamples_def mask_eq_exp_minus_1)

lemma unat_and_ring: "unat (x AND (CaptureRingSamples - 1)) = unat x mod 2 ^ 20"
  by (simp only: ring_masks unat_and_mask)

lemma unat_succ_ring:
  "unat ((x + 1) AND (CaptureRingSamples - 1)) = Suc (unat x) mod 2 ^ 20"
proof -
  have "(2::nat) ^ 20 dvd 2 ^ 32" by (simp add: le_imp_power_dvd)
  then show ?thesis
    unfolding unat_and_ring by (simp add: unat_word_ariths mod_mod_cancel)
qed

lemma feedScope_frame [simp]:
  "captureRing (feedScope x c) = captureRing c" "currentRing (feedScope x c) = currentRing c"
  "vHead (feedScope x c) = vHead c" "vTotal (feedScope x c) = vTotal c"
  "vMeterEnabled (feedScope x c) = vMeterEnabled c" "vEnabled (feedScope x c) = vEnabled c"
  "meterBanks (feedScope x c) = meterBanks c" "vMeterBank (feedScope x c) = vMeterBank c"
  "zeroV (feedScope x c) = zeroV c" "zeroI (feedScope x c) = zeroI c"
  "adcModule (feedScope x c) = adcModule c"
  by (simp_all add: feedScope_def Let_def split: prod.split)

lemma store_frame [simp]:
  "captureRing (storeCurrent i c) = captureRing c" "vHead (storeCurrent i c) = vHead c"
  "vTotal (storeCurrent i c) = vTotal c" "meterBanks (storeCurrent i c) = meterBanks c"
  "vMeterBank (storeCurrent i c) = vMeterBank c" "zeroV (storeCurrent i c) = zeroV c"
  "zeroI (storeCurrent i c) = zeroI c"
  "captureRing (accumulate v i c) = captureRing c" "vHead (accumulate v i c) = vHead c"
  "vTotal (accumulate v i c) = vTotal c" "vMeterBank (accumulate v i c) = vMeterBank c"
  "zeroV (accumulate v i c) = zeroV c" "zeroI (accumulate v i c) = zeroI c"
  "vMeterEnabled (storeVoltage v c) = vMeterEnabled c" "meterBanks (storeVoltage v c) = meterBanks c"
  "vMeterBank (storeVoltage v c) = vMeterBank c" "zeroV (storeVoltage v c) = zeroV c"
  "zeroI (storeVoltage v c) = zeroI c"
  by (simp_all add: storeCurrent_def accumulate_def storeVoltage_def Let_def)

lemma tickSample_frame:
  "captureRing (tickSample t c) = captureRing (storeVoltage (vSample t) c)"
  "vHead (tickSample t c) = vHead (storeVoltage (vSample t) c)"
  "vTotal (tickSample t c) = vTotal (storeVoltage (vSample t) c)"
  "vMeterBank (tickSample t c) = vMeterBank c" "zeroV (tickSample t c) = zeroV c"
  "zeroI (tickSample t c) = zeroI c"
  "meterBanks (tickSample t c) =
     (if vMeterEnabled c then (meterBanks c)(unat (vMeterBank c) :=
        meterAdd (ucast (vSample t) - zeroV c) (ucast (iSample t) - zeroI c)
          (meterBanks c (unat (vMeterBank c)))) else meterBanks c)"
  by (simp_all add: tickSample_def Let_def) (simp_all add: accumulate_def Let_def)

lemma captureTick_frame:
  "captureRing (captureTick t c) = (if tookSample t c then captureRing (tickSample t c) else captureRing c)"
  "vHead (captureTick t c) = (if tookSample t c then vHead (tickSample t c) else vHead c)"
  "vTotal (captureTick t c) = (if tookSample t c then vTotal (tickSample t c) else vTotal c)"
  "vMeterBank (captureTick t c) = vMeterBank c" "zeroV (captureTick t c) = zeroV c"
  "zeroI (captureTick t c) = zeroI c"
  "meterBanks (captureTick t c) = (if tookSample t c then meterBanks (tickSample t c) else meterBanks c)"
  by (auto simp: captureTick_def tookSample_def Let_def tickSample_frame)

lemma configure_frame:
  "vEnabled (captureConfigure L psram cfg c) \<Longrightarrow> vTotal (captureConfigure L psram cfg c) = 0
     \<and> vHead (captureConfigure L psram cfg c) = 0"
  "\<not> vEnabled (captureConfigure L psram cfg c) \<Longrightarrow>
     vTotal (captureConfigure L psram cfg c) = vTotal c \<and> vHead (captureConfigure L psram cfg c) = vHead c
     \<and> captureRing (captureConfigure L psram cfg c) = captureRing c
     \<and> meterBanks (captureConfigure L psram cfg c) = meterBanks c
     \<and> zeroV (captureConfigure L psram cfg c) = zeroV c \<and> zeroI (captureConfigure L psram cfg c) = zeroI c"
  "vMeterBank (captureConfigure L psram cfg c) = vMeterBank c"
  "vEnabled (captureConfigure L psram cfg c) \<Longrightarrow>
     (if vMeterEnabled (captureConfigure L psram cfg c)
      then \<forall>b<2. meterBanks (captureConfigure L psram cfg c) b = meterBankZero
      else meterBanks (captureConfigure L psram cfg c) = meterBanks c
        \<and> zeroV (captureConfigure L psram cfg c) = zeroV c
        \<and> zeroI (captureConfigure L psram cfg c) = zeroI c)"
  by (auto simp: captureConfigure_def configureMeter_def Let_def split: option.splits if_splits)

lemma ringHolds_store:
  assumes "ringHolds h c"
  shows "ringHolds (h @ [v]) (storeVoltage v c)"
proof -
  have hd: "unat (vHead c) = length h mod 2 ^ 20" and tot: "vTotal c = of_nat (length h)"
    and r: "\<And>j. j < length h \<Longrightarrow> length h \<le> j + 2 ^ 20 \<Longrightarrow> captureRing c (j mod 2 ^ 20) = h ! j"
    using assms by (auto simp: ringHolds_def)
  have "captureRing (storeVoltage v c) (j mod 2 ^ 20) = (h @ [v]) ! j"
    if "j < Suc (length h)" "Suc (length h) \<le> j + 2 ^ 20" for j
  proof (cases "j = length h")
    case True
    then show ?thesis by (simp add: storeVoltage_def hd)
  next
    case False
    then have j: "j < length h" using that by simp
    have "j mod 2 ^ 20 \<noteq> length h mod 2 ^ 20"
    proof
      assume "j mod 2 ^ 20 = length h mod 2 ^ 20"
      then have "(2::nat) ^ 20 dvd length h - j" using j by (metis mod_eq_dvd_iff_nat less_imp_le)
      then have "2 ^ 20 \<le> length h - j" using j by (intro dvd_imp_le) simp_all
      then show False using that(2) j by simp
    qed
    then show ?thesis using r [OF j] that j by (simp add: storeVoltage_def hd nth_append)
  qed
  moreover have "unat (vHead (storeVoltage v c)) = length (h @ [v]) mod 2 ^ 20"
  proof -
    have "vHead (storeVoltage v c) = (vHead c + 1) AND (CaptureRingSamples - 1)"
      by (simp add: storeVoltage_def)
    then have "unat (vHead (storeVoltage v c)) = Suc (length h mod 2 ^ 20) mod 2 ^ 20"
      using unat_succ_ring [of "vHead c"] hd by metis
    then show ?thesis by (simp add: mod_Suc_eq)
  qed
  ultimately show ?thesis
    by (auto simp: ringHolds_def) (simp add: storeVoltage_def tot)
qed

lemma capReach_ring:
  assumes "capReach L h p tk c" shows "ringHolds h c"
  using assms
proof induction
  case (configure h p tk c c' psram cfg)
  then show ?case using configure_frame(1,2) [of L psram cfg c] by (auto simp: ringHolds_def)
next
  case (tick h p tk c t)
  then show ?case
    using ringHolds_store [OF tick.IH, of "vSample t"]
    by (auto simp: ringHolds_def captureTick_frame tickSample_frame)
qed (auto simp: ringHolds_def captureBoot_def captureMeterFlip_def captureMeterTake_def
    captureScopeArm_def captureScopeRelease_def)

section \<open>Reading through a cursor\<close>

lemma unat_if_less: "unat (if a < b then a else b) = min (unat a) (unat b)" for a :: "'a::len word"
  by (simp add: word_less_nat_alt)

lemma copyRing_map:
  "unat idx < 2 ^ 20 \<Longrightarrow>
    copyRing ring CaptureRingSamples idx n = map (\<lambda>i. ring ((unat idx + i) mod 2 ^ 20)) [0..<n]"
proof (induction n arbitrary: idx)
  case (Suc n)
  let ?i = "(idx + 1) AND (CaptureRingSamples - 1)"
  have u: "unat ?i = Suc (unat idx) mod 2 ^ 20" by (rule unat_succ_ring)
  have "copyRing ring CaptureRingSamples ?i n = map (\<lambda>i. ring ((unat ?i + i) mod 2 ^ 20)) [0..<n]"
    by (rule Suc.IH) (simp add: u)
  moreover have "(unat ?i + i) mod 2 ^ 20 = (unat idx + Suc i) mod 2 ^ 20" for i
    by (simp only: u mod_add_left_eq) simp
  ultimately have "copyRing ring CaptureRingSamples idx (Suc n)
      = ring (unat idx) # map (\<lambda>i. ring ((unat idx + Suc i) mod 2 ^ 20)) [0..<n]"
    by simp
  also have "\<dots> = map (\<lambda>i. ring ((unat idx + i) mod 2 ^ 20)) [0..<Suc n]"
    using Suc.prems by (simp only: map_upt_Suc) simp
  finally show ?case .
qed simp

lemma copy_held:
  assumes h: "ringHolds h c" and w: "m + n \<le> length h" "length h \<le> m + 2 ^ 20"
  shows "copyRing (captureRing c) CaptureRingSamples (of_nat m AND (CaptureRingSamples - 1)) n
    = take n (drop m h)"
proof (rule nth_equalityI)
  let ?idx = "of_nat m AND (CaptureRingSamples - 1) :: u32"
  have "(2::nat) ^ 20 dvd 2 ^ 32" by (simp add: le_imp_power_dvd)
  then have u: "unat ?idx = m mod 2 ^ 20"
    unfolding unat_and_ring by (simp add: unat_of_nat mod_mod_cancel)
  then have lt: "unat ?idx < 2 ^ 20" by simp
  note map = copyRing_map [OF lt, of "captureRing c" n]
  show "length (copyRing (captureRing c) CaptureRingSamples ?idx n) = length (take n (drop m h))"
    using w(1) by (simp add: map)
  fix i assume "i < length (copyRing (captureRing c) CaptureRingSamples ?idx n)"
  then have i: "i < n" by (simp add: map)
  have "copyRing (captureRing c) CaptureRingSamples ?idx n ! i = captureRing c ((m + i) mod 2 ^ 20)"
    using i by (simp add: map u mod_add_left_eq)
  also have "\<dots> = h ! (m + i)" using h i w by (simp add: ringHolds_def)
  finally show "copyRing (captureRing c) CaptureRingSamples ?idx n ! i = take n (drop m h) ! i"
    using i w(1) by simp
qed

text \<open>C12: reading since a cursor is lossless: from a cursor that stands at the \<open>m\<close>-th sample, the
  call returns the next samples in order (as many as asked for, or all there are) and moves the
  cursor past them; a reader that fell more than the safe part of the ring behind continues at
  the oldest sample the interrupt cannot be overwriting.\<close>

theorem read_since_lossless:
  fixes maxN :: u32
  assumes "capReach L h p tk c" "m \<le> length h" "length h - m \<le> 2 ^ 31"
  defines "oldest \<equiv> max m (length h - (2 ^ 20 - 4096))"
  defines "n \<equiv> min (length h - oldest) (unat maxN)"
  shows "captureReadSince (of_nat m) maxN c = (take n (drop oldest h), of_nat (oldest + n))"
proof -
  have h: "ringHolds h c" using assms(1) by (rule capReach_ring)
  let ?lag = "vTotal c - of_nat m"
  have "vTotal c = of_nat m + of_nat (length h - m)"
    using h assms(2) by (simp add: ringHolds_def flip: of_nat_add)
  then have "?lag = of_nat (length h - m)" by simp
  then have lag: "unat ?lag = length h - m" using assms(3) by (simp add: unat_of_nat)
  have safe: "unat (CaptureRingSamples - OverrunMargin) = 2 ^ 20 - 4096"
    by (simp add: CaptureRingSamples_def OverrunMargin_def)
  have nover: "\<not> ?lag > 0x80000000" using assms(3) by (simp add: word_less_nat_alt lag)
  let ?over = "?lag > CaptureRingSamples - OverrunMargin"
  have over: "?over \<longleftrightarrow> length h - m > 2 ^ 20 - 4096" by (simp add: word_less_nat_alt lag safe)
  let ?cur = "if ?over then vTotal c - (CaptureRingSamples - OverrunMargin) else of_nat m"
  let ?l = "if ?over then CaptureRingSamples - OverrunMargin else ?lag"
  have cur: "?cur = of_nat oldest"
  proof (cases ?over)
    case True
    then have le: "2 ^ 20 - 4096 \<le> length h" "oldest = length h - (2 ^ 20 - 4096)"
      using over assms(2) by (auto simp: oldest_def)
    have "CaptureRingSamples - OverrunMargin = (of_nat (2 ^ 20 - 4096) :: u32)"
      by (simp add: CaptureRingSamples_def OverrunMargin_def)
    then show ?thesis using True h le by (simp add: ringHolds_def of_nat_diff)
  next
    case False
    then show ?thesis using over assms(2) by (auto simp: oldest_def)
  qed
  have l: "unat ?l = length h - oldest"
    using over assms(2) by (auto simp: oldest_def lag safe)
  let ?n = "if ?l < maxN then ?l else maxN"
  have "unat ?n = min (unat ?l) (unat maxN)" by (rule unat_if_less)
  then have n: "unat ?n = n" by (simp only: n_def l)
  have cp: "copyRing (captureRing c) CaptureRingSamples (?cur AND (CaptureRingSamples - 1)) (unat ?n)
      = take n (drop oldest h)"
    unfolding cur n by (rule copy_held [OF h]) (use assms(2) in \<open>auto simp: n_def oldest_def\<close>)
  have r: "captureReadSince (of_nat m) maxN c = (if ?n = 0 then ([], ?cur)
      else (copyRing (captureRing c) CaptureRingSamples (?cur AND (CaptureRingSamples - 1)) (unat ?n), ?cur + ?n))"
    unfolding captureReadSince_def Let_def if_not_P [OF nover] ..
  have "(of_nat (unat x) :: u32) = x" for x by simp
  from this [of ?n] have nn: "?n = of_nat n" by (simp only: n)
  show ?thesis
    unfolding r cp unfolding cur nn using n nn by (auto simp: unat_eq_0)
qed

section \<open>Metering\<close>

definition bankTotal :: "MeterBank list \<Rightarrow> MeterBank" where
  "bankTotal bs = \<lparr>sumP = sum_list (map sumP bs), sumVsq = sum_list (map sumVsq bs),
     sumIsq = sum_list (map sumIsq bs), bankCount = sum_list (map bankCount bs)\<rparr>"

text \<open>What the pairs of samples add up to with the zero points \<open>zV\<close> and \<open>zI\<close>.\<close>

definition metered :: "u32 \<Rightarrow> u32 \<Rightarrow> (u16 \<times> u16) list \<Rightarrow> MeterBank" where
  "metered zV zI p =
     (let dv = (\<lambda>(v, i). scast (ucast v - zV :: u32) :: u64); di = (\<lambda>(v, i). scast (ucast i - zI :: u32) :: u64)
      in \<lparr>sumP = (\<Sum>x\<leftarrow>p. dv x * di x), sumVsq = (\<Sum>x\<leftarrow>p. dv x * dv x),
          sumIsq = (\<Sum>x\<leftarrow>p. di x * di x), bankCount = of_nat (length p)\<rparr>)"

definition meterOk :: "(u16 \<times> u16) list \<Rightarrow> MeterBank list \<Rightarrow> CaptureState \<Rightarrow> bool" where
  "meterOk p tk c \<longleftrightarrow> unat (vMeterBank c) < 2
     \<and> bankTotal (tk @ [meterBanks c 0, meterBanks c 1]) = metered (zeroV c) (zeroI c) p"

lemma bankTotal_add:
  "bankTotal (tk @ [meterAdd dv di a, b]) =
     meterAdd dv di (bankTotal (tk @ [a, b]))"
  "bankTotal (tk @ [a, meterAdd dv di b]) =
     meterAdd dv di (bankTotal (tk @ [a, b]))"
  by (simp_all add: bankTotal_def meterAdd_def)

lemma bankTotal_take:
  "bankTotal (tk @ [b, a, meterBankZero]) = bankTotal (tk @ [a, b])"
  "bankTotal (tk @ [a, meterBankZero, b]) = bankTotal (tk @ [a, b])"
  by (simp_all add: bankTotal_def meterBankZero_def add.commute)

lemma metered_snoc:
  "metered zV zI (p @ [(v, i)]) = meterAdd (ucast v - zV) (ucast i - zI) (metered zV zI p)"
  by (simp add: metered_def meterAdd_def Let_def)

lemma bank_cases: "unat (b :: byte) < 2 \<Longrightarrow> b = 0 \<or> b = 1"
  by (auto simp: word_unat_eq_iff)

lemma meterOk_cong:
  assumes "meterOk p tk c" "vMeterBank c' = vMeterBank c" "meterBanks c' = meterBanks c"
    "zeroV c' = zeroV c" "zeroI c' = zeroI c"
  shows "meterOk p tk c'"
  using assms by (simp add: meterOk_def)

lemma capReach_meter:
  assumes "capReach L h p tk c" shows "meterOk p tk c"
  using assms
proof induction
  case boot
  then show ?case by (simp add: meterOk_def captureBoot_def bankTotal_def metered_def meterBankZero_def)
next
  case (configure h p tk c c' psram cfg)
  let ?c = "captureConfigure L psram cfg c"
  show ?case
  proof (cases "vEnabled ?c \<and> vMeterEnabled ?c")
    case True
    then have "meterBanks ?c 0 = meterBankZero" "meterBanks ?c 1 = meterBankZero"
      using configure_frame(4) [of L psram cfg c] by auto
    then show ?thesis
      using True configure.IH configure.hyps configure_frame(3) [of L psram cfg c]
      by (simp add: meterOk_def bankTotal_def metered_def meterBankZero_def)
  next
    case False
    then have "meterOk p tk ?c"
      using configure_frame(2,3,4) [of L psram cfg c]
      by (intro meterOk_cong [OF configure.IH]) (auto split: if_splits)
    then show ?thesis using False configure.hyps by auto
  qed
next
  case (tick h p tk c t)
  show ?case
  proof (cases "tookSample t c \<and> vMeterEnabled c")
    case True
    have eq: "bankTotal (tk @ [meterBanks c 0, meterBanks c 1]) = metered (zeroV c) (zeroI c) p"
      and b: "unat (vMeterBank c) < 2"
      using tick.IH by (simp_all add: meterOk_def)
    let ?dv = "ucast (vSample t) - zeroV c" and ?di = "ucast (iSample t) - zeroI c"
    have mb: "meterBanks (captureTick t c) = (meterBanks c)(unat (vMeterBank c) :=
        meterAdd ?dv ?di (meterBanks c (unat (vMeterBank c))))"
      using True by (simp only: captureTick_frame tickSample_frame if_True)
    have "bankTotal (tk @ [meterBanks (captureTick t c) 0, meterBanks (captureTick t c) 1])
        = meterAdd ?dv ?di (bankTotal (tk @ [meterBanks c 0, meterBanks c 1]))"
      using bank_cases [OF b] unfolding mb by (elim disjE) (simp_all add: bankTotal_add)
    then show ?thesis
      using b True eq by (simp add: meterOk_def captureTick_frame metered_snoc)
  next
    case False
    then have "meterOk p tk (captureTick t c)"
      by (intro meterOk_cong [OF tick.IH]) (auto simp: captureTick_frame tickSample_frame)
    then show ?thesis using False by auto
  qed
next
  case (flip h p tk c)
  then show ?case
    using bank_cases [of "vMeterBank c"] by (auto simp: meterOk_def captureMeterFlip_def)
next
  case (take h p tk c b c')
  have bk: "unat (vMeterBank c) < 2" using take.IH by (simp add: meterOk_def)
  show ?case
    using take.IH take.hyps(2) bank_cases [OF bk]
    by (auto simp: meterOk_def captureMeterTake_def captureMeterIdleBank_def bankTotal_take)
next
  case (arm h p tk c cur lvl falling post)
  then show ?case by (auto simp: meterOk_def captureScopeArm_def)
next
  case (release h p tk c)
  then show ?case by (simp add: meterOk_def captureScopeRelease_def)
qed

text \<open>C33: no meter sum is lost or counted twice: at any moment, the banks taken so far and the
  two banks together hold exactly the sums over the sample pairs stored since metering started,
  whatever the interleaving of the interrupt with flips, takes and scope commands; and taking
  the idle bank never touches the bank the interrupt writes.\<close>

theorem meter_banks_conserve:
  assumes "capReach L h p tk c" "captureMeterTake (captureMeterIdleBank c) c = (b, c')"
  shows "bankTotal (tk @ [b] @ [meterBanks c' 0, meterBanks c' 1]) = metered (zeroV c) (zeroI c) p
    \<and> meterBanks c' (unat (vMeterBank c)) = meterBanks c (unat (vMeterBank c))"
proof -
  have "capReach L h p (tk @ [b]) c'" using assms by (rule capReach.take)
  moreover have "zeroV c' = zeroV c" "zeroI c' = zeroI c"
    using assms(2) by (auto simp: captureMeterTake_def)
  moreover have "unat (vMeterBank c) < 2" using capReach_meter [OF assms(1)] by (simp add: meterOk_def)
  then have "unat (captureMeterIdleBank c) \<noteq> unat (vMeterBank c)"
    using bank_cases [of "vMeterBank c"] by (auto simp: captureMeterIdleBank_def)
  then have "meterBanks c' (unat (vMeterBank c)) = meterBanks c (unat (vMeterBank c))"
    using assms(2) by (auto simp: captureMeterTake_def)
  ultimately show ?thesis using capReach_meter [of L h p "tk @ [b]" c'] by (simp add: meterOk_def)
qed

section \<open>A run of two ticks\<close>

definition exampleAdc :: AdcLibrary where
  "exampleAdc = \<lparr>startSingleRead = (\<lambda>m pin. True)\<rparr>"

definition exampleConfig :: MainConfig where
  "exampleConfig = defaultConfig\<lparr>Capture := \<lparr>caEnabled = True\<rparr>,
     Feedback := (defaultFeedback\<lparr>fbAnalogPin := 14\<rparr>), Meter := (defaultMeter\<lparr>meEnabled := True\<rparr>)\<rparr>"

definition exampleTick :: "u16 \<Rightarrow> u16 \<Rightarrow> TickInput" where
  "exampleTick v i = \<lparr>vFaultTripped = False, vComplete = True, vSample = v, iComplete = True, iSample = i\<rparr>"

definition exampleCapture :: CaptureState where
  "exampleCapture = captureMeterFlip (captureTick (exampleTick 3000 2100)
     (captureTick (exampleTick 2000 2050) (captureConfigure exampleAdc True exampleConfig captureBoot)))"

lemma exampleCapture_reach:
  "capReach exampleAdc [2000, 3000] [(2000, 2050), (3000, 2100)] [] exampleCapture"
proof -
  let ?c0 = "captureConfigure exampleAdc True exampleConfig captureBoot"
  let ?c1 = "captureTick (exampleTick 2000 2050) ?c0"
  note simps = tookSample_def captureConfigure_def configureMeter_def pickModule_def Let_def exampleAdc_def
    exampleConfig_def defaultConfig_def defaultFeedback_def defaultMeter_def captureBoot_def exampleTick_def
  have 0: "capReach exampleAdc [] [] [] ?c0"
    using capReach.configure [OF capReach.boot [of exampleAdc] refl, of True exampleConfig]
    by (simp add: simps)
  have t0: "tookSample (exampleTick 2000 2050) ?c0" "vMeterEnabled ?c0" by (simp_all add: simps)
  have f: "vFrozen ?c1 = vFrozen ?c0" "vEnabled ?c1 = vEnabled ?c0" "adcModule ?c1 = adcModule ?c0"
    "vMeterEnabled ?c1 = vMeterEnabled ?c0"
    by (simp_all add: simps captureTick_def tickSample_def storeVoltage_def storeCurrent_def
        accumulate_def)
  have t1: "tookSample (exampleTick 3000 2100) ?c1" "vMeterEnabled ?c1"
    unfolding tookSample_def f by (simp_all add: simps)
  have 1: "capReach exampleAdc [2000] [(2000, 2050)] [] ?c1"
    using capReach.tick [OF 0, of "exampleTick 2000 2050"] t0 by (simp add: exampleTick_def)
  have "capReach exampleAdc [2000, 3000] [(2000, 2050), (3000, 2100)] []
      (captureTick (exampleTick 3000 2100) ?c1)"
    using capReach.tick [OF 1, of "exampleTick 3000 2100"] t1 by (simp add: exampleTick_def)
  then show ?thesis unfolding exampleCapture_def by (rule capReach.flip)
qed

lemma read_since_lossless_witness:
  "captureReadSince 1 512 exampleCapture = ([3000], 2)"
  using read_since_lossless [OF exampleCapture_reach, of 1 512] by simp

lemma meter_banks_conserve_witness:
  "\<exists>b c'. captureMeterTake (captureMeterIdleBank exampleCapture) exampleCapture = (b, c')
     \<and> bankTotal [b, meterBanks c' 0, meterBanks c' 1]
       = metered (zeroV exampleCapture) (zeroI exampleCapture) [(2000, 2050), (3000, 2100)]"
  using meter_banks_conserve [OF exampleCapture_reach]
  by (cases "captureMeterTake (captureMeterIdleBank exampleCapture) exampleCapture") simp

end
