(* ===== verification/Config_Validate.thy ===== *)
theory Config_Validate
  imports Complex_Main Config_Types
begin

text \<open>
  \<open>validateConfig\<close> of \<open>src/src/config_serde.h\<close> with the hardware tables it consults (the
  comparator routing of \<open>acmp_math.h\<close>, the INA226 scaling of \<open>power_monitor_math.h\<close>, the meter
  calibration bound of \<open>meter_math.h\<close>): every value a configuration may not have is replaced by a
  safe one, and a flag reports that something was.

  A check is a \<open>rule\<close>, which returns the corrected value and whether it corrected. Rules on
  different fields commute; they are grouped by the structure of the configuration, and where
  a rule reads what another writes the order is the source's. The source evaluates the
  meter bound in \<open>double\<close>; here the same expression is exact rational arithmetic.
\<close>

section \<open>Hardware tables\<close>

record AcmpRoute =
  cmp :: byte
  psel :: byte

definition acmpRouteForPin :: "byte \<Rightarrow> AcmpRoute" where
  "acmpRouteForPin pin =
     (let r = (\<lambda>c p. \<lparr>cmp = c, psel = p\<rparr>) in
      if pin = 18 then r 1 0 else if pin = 17 then r 1 1 else if pin = 25 then r 1 2
      else if pin = 14 then r 1 3 else if pin = 16 then r 1 5 else if pin = 21 then r 1 6
      else if pin = 15 then r 2 3 else if pin = 38 then r 2 6 else if pin = 40 then r 3 3
      else if pin = 1 then r 3 4 else if pin = 23 then r 0 0 else if pin = 22 then r 0 0
      else if pin = 39 then r 3 6 else if pin = 19 then r 4 2 else if pin = 41 then r 4 3
      else if pin = 0 then r 4 4 else if pin = 20 then r 4 5 else if pin = 26 then r 4 6
      else r 0 0)"

definition Ina226CalNumerator :: u64 where [const_defs]: "Ina226CalNumerator = 5120000000"

definition ina226CalRegister :: "u32 \<Rightarrow> u32 \<Rightarrow> u32" where
  "ina226CalRegister shuntMicroOhm currentLsbMicroAmp =
     (if shuntMicroOhm = 0 \<or> currentLsbMicroAmp = 0 then 0
      else ucast (Ina226CalNumerator div (ucast shuntMicroOhm * ucast currentLsbMicroAmp)))"

definition ina226CalValid :: "u32 \<Rightarrow> u32 \<Rightarrow> bool" where
  "ina226CalValid shuntMicroOhm currentLsbMicroAmp \<longleftrightarrow>
     (let cal = ina226CalRegister shuntMicroOhm currentLsbMicroAmp in cal \<ge> 1 \<and> cal \<le> 0xFFFF)"

definition meterCalibrationValid :: "u16 \<Rightarrow> u16 \<Rightarrow> u32 \<Rightarrow> u32 \<Rightarrow> bool" where
  "meterCalibrationValid voltageZero currentZero milliampPerVolt ratioMilli \<longleftrightarrow>
     \<not> (voltageZero > 3300 \<or> currentZero > 3300 \<or> milliampPerVolt = 0 \<or> ratioMilli = 0)
     \<and> (let mvPerCount = (3300 / 4095) * of_nat (unat ratioMilli) / 1000;
            maPerCount = (3300 / 4095) * of_nat (unat milliampPerVolt) / 1000;
            maxCounts = 4095;
            maxPowerMw = maxCounts * maxCounts * mvPerCount * maPerCount / 1000 :: rat
        in maxPowerMw \<le> 2147483647 \<and> maxCounts * mvPerCount \<le> 4294967295
           \<and> maxCounts * maPerCount \<le> 4294967295)"

definition ModSchemeFixed :: byte where [const_defs]: "ModSchemeFixed = 0"
definition RefWaveCustom :: byte where [const_defs]: "RefWaveCustom = 3"
definition RefWaveSequence :: byte where [const_defs]: "RefWaveSequence = 4"
definition DitherOff :: byte where [const_defs]: "DitherOff = 0"
definition MaxModulationCells :: byte where [const_defs]: "MaxModulationCells = 4"
definition MaxModulationIndexMilli :: u16 where [const_defs]: "MaxModulationIndexMilli = 1155"

section \<open>Rules\<close>

type_synonym 'a rule = "'a \<Rightarrow> 'a \<times> bool"

definition correct :: "('a \<Rightarrow> bool) \<Rightarrow> ('a \<Rightarrow> 'a) \<Rightarrow> 'a rule" where
  "correct bad fix x = (if bad x then (fix x, True) else (x, False))"

primrec rules :: "'a rule list \<Rightarrow> 'a rule" where
  "rules [] x = (x, False)"
| "rules (r # rs) x = (case r x of (y, k) \<Rightarrow> case rules rs y of (z, k') \<Rightarrow> (z, k \<or> k'))"

definition atField :: "('r \<Rightarrow> 'a) \<Rightarrow> (('a \<Rightarrow> 'a) \<Rightarrow> 'r \<Rightarrow> 'r) \<Rightarrow> 'a rule \<Rightarrow> 'r rule" where
  "atField get upd r x = (case r (get x) of (y, k) \<Rightarrow> (upd (\<lambda>_. y) x, k))"

lemma fst_rules [simp]:
  "fst (rules [] x) = x" "fst (rules (r # rs) x) = fst (rules rs (fst (r x)))"
  by (simp_all split: prod.split)

lemma snd_rules [simp]:
  "snd (rules [] x) = False" "snd (rules (r # rs) x) = (snd (r x) \<or> snd (rules rs (fst (r x))))"
  by (simp_all split: prod.split)

lemma rules_id: "\<forall>r\<in>set rs. r x = (x, False) \<Longrightarrow> rules rs x = (x, False)"
  by (induction rs) simp_all

lemma correct_id: "\<not> bad x \<Longrightarrow> correct bad fix x = (x, False)"
  by (simp add: correct_def)

declare rules.simps [simp del]

lemma fst_atField [simp]: "fst (atField get upd r x) = upd (\<lambda>_. fst (r (get x))) x"
  and snd_atField [simp]: "snd (atField get upd r x) = snd (r (get x))"
  by (simp_all add: atField_def split: prod.split)

lemma fst_correct: "fst (correct bad fix x) = (if bad x then fix x else x)"
  and snd_correct: "snd (correct bad fix x) = bad x"
  by (simp_all add: correct_def)

subsection \<open>Outputs\<close>

definition sanitisePair :: "byte \<Rightarrow> SubmoduleConfig rule" where
  "sanitisePair submodule =
     correct (\<lambda>s. pairModeSanitised (Pair s) submodule \<noteq> Pair s)
             (\<lambda>s. s\<lparr>Pair := pairModeSanitised (Pair s) submodule\<rparr>)"

definition clampFreq :: "SubmoduleConfig rule" where
  "clampFreq =
     correct (\<lambda>s. PwmFrequency s < MinRepresentablePwmFrequencyHz \<or> PwmFrequency s > MaxPwmFrequencyHz)
             (\<lambda>s. s\<lparr>PwmFrequency := DefaultPwmFrequencyHz\<rparr>)"

definition clampDeadTime :: "SubmoduleConfig rule" where
  "clampDeadTime =
     correct (\<lambda>s. ucast (DeadTime s) > pairMaxDeadTimeNs PwmBusClockHz)
             (\<lambda>s. s\<lparr>DeadTime := ucast (pairMaxDeadTimeNs PwmBusClockHz)\<rparr>)"

definition followCarrier :: "u32 \<Rightarrow> SubmoduleConfig rule" where
  "followCarrier carrier =
     correct (\<lambda>s. PwmFrequency s \<noteq> carrier) (\<lambda>s. s\<lparr>PwmFrequency := carrier\<rparr>)"

definition carrierInterruptRequired :: "MainConfig \<Rightarrow> bool" where
  "carrierInterruptRequired c \<longleftrightarrow>
     (UseSpwm (Tm2 (Pwm c)) \<and> ModulationScheme (Tm2 (Pwm c)) \<noteq> ModSchemeFixed)
     \<or> caEnabled (Capture c) \<or> meEnabled (Meter c) \<or> plEnabled (Pll c)
     \<or> (clEnabled (CurrentLimit c) \<and> CycleByCycle (CurrentLimit c))"

definition carrierCeiling :: "MainConfig \<Rightarrow> u32" where
  "carrierCeiling c =
     (if carrierInterruptRequired c
      then if thEnabled (Thermal c) then 10000 else MaxModulationCarrierHz
      else MaxPwmFrequencyHz)"

definition carrierInvalid :: "u32 \<Rightarrow> Module2Config \<Rightarrow> bool" where
  "carrierInvalid ceil m \<longleftrightarrow>
     SpwmCarrierFrequency m < MinRepresentablePwmFrequencyHz \<or> SpwmCarrierFrequency m > ceil"

definition clampCarrier :: "u32 \<Rightarrow> Module2Config rule" where
  "clampCarrier ceil =
     correct (carrierInvalid ceil)
       (\<lambda>m. m\<lparr>SpwmCarrierFrequency :=
          (if ceil < DefaultModulationCarrierHz then ceil else DefaultModulationCarrierHz)\<rparr>)"

definition ddsDriven :: "Module2Config \<Rightarrow> bool" where
  "ddsDriven m \<longleftrightarrow> ReferenceWaveform m \<noteq> RefWaveSequence
     \<and> \<not> (ReferenceWaveform m = RefWaveCustom \<and> WaveformSampleStep m)"

definition requireNyquist :: "Module2Config rule" where
  "requireNyquist =
     correct (\<lambda>m. UseSpwm m \<and> ModulationScheme m \<noteq> ModSchemeFixed \<and> ddsDriven m
                 \<and> (SpwmModulationFrequency m = 0 \<or> SpwmModulationFrequency m > SpwmCarrierFrequency m div 2))
             (\<lambda>m. m\<lparr>UseSpwm := False\<rparr>)"

definition clampCells :: "Module2Config rule" where
  "clampCells =
     correct (\<lambda>m. ModulationCells m < 1 \<or> ModulationCells m > MaxModulationCells)
             (\<lambda>m. m\<lparr>ModulationCells := (if ModulationCells m < 1 then 1 else MaxModulationCells)\<rparr>)"

definition validateCell :: "byte \<Rightarrow> u32 \<Rightarrow> SubmoduleConfig rule" where
  "validateCell submodule carrier = rules [followCarrier carrier, sanitisePair submodule, clampDeadTime]"

definition validateModule2 :: "u32 \<Rightarrow> Module2Config rule" where
  "validateModule2 ceil =
     rules [clampCarrier ceil,
       \<lambda>m. (let carrier = SpwmCarrierFrequency m in
         rules [atField Sm20 Sm20_update (validateCell PairSm20 carrier),
                atField Sm21 Sm21_update (validateCell PairSm21 carrier),
                atField Sm22 Sm22_update (validateCell PairSm22 carrier),
                atField Sm23 Sm23_update (validateCell PairSm23 carrier)] m),
       requireNyquist, clampCells]"

definition validateFixed :: "byte \<Rightarrow> SubmoduleConfig rule" where
  "validateFixed submodule = rules [sanitisePair submodule, clampFreq, clampDeadTime]"

definition refuseSync :: "PwmConfig rule" where
  "refuseSync = correct SyncPwm (\<lambda>p. p\<lparr>SyncPwm := False\<rparr>)"

definition validatePwm :: "u32 \<Rightarrow> PwmConfig rule" where
  "validatePwm ceil =
     rules [atField Tm1 Tm1_update (atField Sm13 Sm13_update (validateFixed PairSm13)),
       atField Tm3 Tm3_update (atField Sm31 Sm31_update (validateFixed PairSm31)),
       atField Tm2 Tm2_update (validateModule2 ceil),
       refuseSync,
       atField Tm4 Tm4_update (rules [atField Sm40 Sm40_update (validateFixed PairSm40),
         atField Sm41 Sm41_update (validateFixed PairSm41),
         atField Sm42 Sm42_update (validateFixed PairSm42)])]"

subsection \<open>Protection, PLL, MPPT and the rest\<close>

definition validateCurrentLimit :: "CurrentLimitConfig rule" where
  "validateCurrentLimit = rules
     [correct (\<lambda>l. cmp (acmpRouteForPin (clPin l)) = 0) (\<lambda>l. l\<lparr>clPin := 40\<rparr>),
      correct (\<lambda>l. ThresholdMillivolts l < 100 \<or> ThresholdMillivolts l > 3300)
              (\<lambda>l. l\<lparr>ThresholdMillivolts := 2475\<rparr>),
      correct (\<lambda>l. FilterCount l > 7) (\<lambda>l. l\<lparr>FilterCount := 0\<rparr>),
      correct (\<lambda>l. FilterCount l \<noteq> 0 \<or> FilterPeriod l \<noteq> 0)
              (\<lambda>l. l\<lparr>FilterCount := 0, FilterPeriod := 0\<rparr>)]"

definition validatePllRanges :: "PllConfig rule" where
  "validatePllRanges = rules
     [correct (\<lambda>p. MinHz p < 1 \<or> MaxHz p > 400 \<or> MinHz p \<ge> MaxHz p) (\<lambda>p. p\<lparr>MinHz := 45, MaxHz := 55\<rparr>),
      correct (\<lambda>p. sint (PhaseOffsetCentiDeg p) < - 18000 \<or> sint (PhaseOffsetCentiDeg p) > 18000)
              (\<lambda>p. p\<lparr>PhaseOffsetCentiDeg := 0\<rparr>),
      correct (\<lambda>p. BandwidthDeciHz p < 10 \<or> BandwidthDeciHz p > 500) (\<lambda>p. p\<lparr>BandwidthDeciHz := 200\<rparr>),
      correct (\<lambda>p. ZeroMillivolts p > 3300) (\<lambda>p. p\<lparr>ZeroMillivolts := 1650\<rparr>),
      correct (\<lambda>p. MinLevelMillivolts p < 20 \<or> MinLevelMillivolts p > 3300)
              (\<lambda>p. p\<lparr>MinLevelMillivolts := 100\<rparr>)]"

definition disablePllWhen :: "bool \<Rightarrow> PllConfig rule" where
  "disablePllWhen b = correct (\<lambda>p. plEnabled p \<and> b) (\<lambda>p. p\<lparr>plEnabled := False\<rparr>)"

definition excludePll :: "bool \<Rightarrow> FeedbackConfig \<Rightarrow> Module2Config \<Rightarrow> PllConfig rule" where
  "excludePll carrierWasInvalid f m = rules
     [disablePllWhen (fbEnabled f),
      disablePllWhen carrierWasInvalid,
      disablePllWhen (ReferenceWaveform m = RefWaveSequence
        \<or> (ReferenceWaveform m = RefWaveCustom \<and> WaveformSampleStep m)),
      \<lambda>p. disablePllWhen (SpwmModulationFrequency m < ucast (MinHz p)
        \<or> SpwmModulationFrequency m > ucast (MaxHz p)) p,
      disablePllWhen (SpwmCarrierFrequency m < 1000
        \<or> SpwmCarrierFrequency m < 18 * SpwmModulationFrequency m)]"

definition refuseDeadTimeCompensation :: "Module2Config rule" where
  "refuseDeadTimeCompensation =
     correct DeadTimeCompensation (\<lambda>m. m\<lparr>DeadTimeCompensation := False\<rparr>)"

definition excludeDither :: "bool \<Rightarrow> Module2Config rule" where
  "excludeDither pll =
     correct (\<lambda>m. pll \<and> CarrierDitherMode m \<noteq> DitherOff) (\<lambda>m. m\<lparr>CarrierDitherMode := DitherOff\<rparr>)"

definition finishModule2 :: "bool \<Rightarrow> Module2Config rule" where
  "finishModule2 pll = rules [refuseDeadTimeCompensation, excludeDither pll]"

definition mpptInterval :: "u16 \<Rightarrow> MpptConfig rule" where
  "mpptInterval softStartMs =
     (let floorMs = 2100 + ucast softStartMs :: u32 in
      correct (\<lambda>m. ucast (mpIntervalMs m) < floorMs)
              (\<lambda>m. m\<lparr>mpIntervalMs := (if floorMs > 60000 then 60000 else ucast floorMs)\<rparr>))"

definition mpptLimits :: "MpptConfig rule" where
  "mpptLimits = rules
     [correct (\<lambda>m. RestartDeltaMw m < 100 \<or> ucast (DeadbandMw m) \<ge> RestartDeltaMw m)
              (\<lambda>m. m\<lparr>DeadbandMw := 10, RestartDeltaMw := 1000\<rparr>),
      correct (\<lambda>m. MinIndexMilli m \<ge> MaxIndexMilli m \<or> MaxIndexMilli m > MaxModulationIndexMilli)
              (\<lambda>m. m\<lparr>MinIndexMilli := 50, MaxIndexMilli := 1000\<rparr>),
      correct (\<lambda>m. MinStepMilli m < 1 \<or> MinStepMilli m > StepMilli m \<or> StepMilli m > 200)
              (\<lambda>m. m\<lparr>StepMilli := 20, MinStepMilli := 5\<rparr>)]"

definition validateMppt :: "u16 \<Rightarrow> bool \<Rightarrow> MpptConfig rule" where
  "validateMppt softStartMs feedback = rules
     [mpptInterval softStartMs, mpptLimits,
      correct (\<lambda>m. mpEnabled m \<and> feedback) (\<lambda>m. m\<lparr>mpEnabled := False\<rparr>)]"

definition validateMqtt :: "MqttConfig rule" where
  "validateMqtt = rules
     [correct (\<lambda>m. mqPort m = 0) (\<lambda>m. m\<lparr>mqPort := 1883\<rparr>),
      correct (\<lambda>m. mqIntervalSeconds m = 0 \<or> mqIntervalSeconds m > 3600) (\<lambda>m. m\<lparr>mqIntervalSeconds := 10\<rparr>),
      correct (\<lambda>m. cchar (BaseTopic m) 0 = NUL) (\<lambda>m. m\<lparr>BaseTopic := ''teg''\<rparr>),
      correct (\<lambda>m. cchar (DiscoveryPrefix m) 0 = NUL) (\<lambda>m. m\<lparr>DiscoveryPrefix := ''homeassistant''\<rparr>)]"

definition validateMeter :: "MeterConfig rule" where
  "validateMeter =
     correct (\<lambda>m. \<not> meterCalibrationValid (VoltageZeroMillivolts m) (CurrentZeroMillivolts m)
                       (CurrentMilliampPerVolt m) (VoltageRatioMilli m))
             (\<lambda>m. m\<lparr>VoltageZeroMillivolts := 1650, CurrentZeroMillivolts := 1650,
                     CurrentMilliampPerVolt := 10000, VoltageRatioMilli := 1000\<rparr>)"

definition validatePowerMon :: "PowerMonConfig rule" where
  "validatePowerMon = rules
     [correct (\<lambda>p. pmAddress p < 0x40 \<or> pmAddress p > 0x4F) (\<lambda>p. p\<lparr>pmAddress := 0x40\<rparr>),
      correct (\<lambda>p. \<not> ina226CalValid (ShuntMicroOhm p) (ucast (CurrentLsbMicroAmp p)))
              (\<lambda>p. p\<lparr>ShuntMicroOhm := 10000, CurrentLsbMicroAmp := 50\<rparr>),
      correct (\<lambda>p. pmIntervalMs p < 250) (\<lambda>p. p\<lparr>pmIntervalMs := 250\<rparr>)]"

text \<open>The whole of \<open>validateConfig\<close>: the corrected configuration and the \<open>corrected\<close> flag.\<close>

definition validateConfig :: "MainConfig rule" where
  "validateConfig c =
     (let ceil = carrierCeiling c; carrierWasInvalid = carrierInvalid ceil (Tm2 (Pwm c))
      in rules
        [atField Pwm Pwm_update (validatePwm ceil),
         atField CurrentLimit CurrentLimit_update validateCurrentLimit,
         atField Pll Pll_update validatePllRanges,
         \<lambda>c. atField Pll Pll_update (excludePll carrierWasInvalid (Feedback c) (Tm2 (Pwm c))) c,
         \<lambda>c. atField Pwm Pwm_update (atField Tm2 Tm2_update
                (finishModule2 (plEnabled (Pll c)))) c,
         \<lambda>c. atField Mppt Mppt_update
                (validateMppt (SoftStartMs (Tm2 (Pwm c))) (fbEnabled (Feedback c))) c,
         atField Mqtt Mqtt_update validateMqtt,
         atField Meter Meter_update validateMeter,
         atField PowerMon PowerMon_update validatePowerMon] c)"

text \<open>What the API refuses instead of rewriting.\<close>

definition configApiRejectReason :: "MainConfig \<Rightarrow> string option" where
  "configApiRejectReason c =
     (if ThresholdMillivolts (CurrentLimit c) < 100 \<or> ThresholdMillivolts (CurrentLimit c) > 3300
      then Some ''CurrentLimit.ThresholdMillivolts must be 100..3300'' else None)"

section \<open>Settled configurations\<close>

text \<open>What each section looks like after validation; on such a section the rules change nothing.\<close>

lemma one_le_word [simp]: "1 \<le> x \<longleftrightarrow> x \<noteq> 0" for x :: "'a::len word"
  by (simp add: word_le_nat_alt Suc_le_eq unat_gt_0)

lemma maxDeadTimeNs: "pairMaxDeadTimeNs PwmBusClockHz = 13646"
  by (simp add: pairMaxDeadTimeNs_def const_defs)

definition settledOutput :: "byte \<Rightarrow> SubmoduleConfig \<Rightarrow> bool" where
  "settledOutput n s \<longleftrightarrow> pairModeSanitised (Pair s) n = Pair s \<and> unat (DeadTime s) \<le> 13646"

definition settledFixed :: "byte \<Rightarrow> SubmoduleConfig \<Rightarrow> bool" where
  "settledFixed n s \<longleftrightarrow> settledOutput n s \<and> 18 \<le> PwmFrequency s \<and> PwmFrequency s \<le> 1000000"

definition settledCell :: "byte \<Rightarrow> u32 \<Rightarrow> SubmoduleConfig \<Rightarrow> bool" where
  "settledCell n carrier s \<longleftrightarrow> settledOutput n s \<and> PwmFrequency s = carrier"

definition settledModule2 :: "u32 \<Rightarrow> Module2Config \<Rightarrow> bool" where
  "settledModule2 ceil m \<longleftrightarrow> 18 \<le> SpwmCarrierFrequency m \<and> SpwmCarrierFrequency m \<le> ceil
     \<and> settledCell PairSm20 (SpwmCarrierFrequency m) (Sm20 m)
     \<and> settledCell PairSm21 (SpwmCarrierFrequency m) (Sm21 m)
     \<and> settledCell PairSm22 (SpwmCarrierFrequency m) (Sm22 m)
     \<and> settledCell PairSm23 (SpwmCarrierFrequency m) (Sm23 m)
     \<and> (UseSpwm m \<and> ModulationScheme m \<noteq> ModSchemeFixed \<and> ddsDriven m \<longrightarrow>
          SpwmModulationFrequency m \<noteq> 0 \<and> SpwmModulationFrequency m \<le> SpwmCarrierFrequency m div 2)
     \<and> 1 \<le> ModulationCells m \<and> ModulationCells m \<le> MaxModulationCells"

definition settledPwm :: "u32 \<Rightarrow> PwmConfig \<Rightarrow> bool" where
  "settledPwm ceil p \<longleftrightarrow> settledFixed PairSm13 (Sm13 (Tm1 p)) \<and> settledFixed PairSm31 (Sm31 (Tm3 p))
     \<and> settledModule2 ceil (Tm2 p) \<and> \<not> SyncPwm p \<and> settledFixed PairSm40 (Sm40 (Tm4 p))
     \<and> settledFixed PairSm41 (Sm41 (Tm4 p)) \<and> settledFixed PairSm42 (Sm42 (Tm4 p))"

definition settledCurrentLimit :: "CurrentLimitConfig \<Rightarrow> bool" where
  "settledCurrentLimit l \<longleftrightarrow> cmp (acmpRouteForPin (clPin l)) \<noteq> 0
     \<and> 100 \<le> ThresholdMillivolts l \<and> ThresholdMillivolts l \<le> 3300 \<and> FilterCount l = 0 \<and> FilterPeriod l = 0"

definition settledPllRanges :: "PllConfig \<Rightarrow> bool" where
  "settledPllRanges p \<longleftrightarrow> 1 \<le> MinHz p \<and> MaxHz p \<le> 400 \<and> MinHz p < MaxHz p
     \<and> - 18000 \<le> sint (PhaseOffsetCentiDeg p) \<and> sint (PhaseOffsetCentiDeg p) \<le> 18000
     \<and> 10 \<le> BandwidthDeciHz p \<and> BandwidthDeciHz p \<le> 500 \<and> ZeroMillivolts p \<le> 3300
     \<and> 20 \<le> MinLevelMillivolts p \<and> MinLevelMillivolts p \<le> 3300"

definition pllAllowed :: "FeedbackConfig \<Rightarrow> Module2Config \<Rightarrow> PllConfig \<Rightarrow> bool" where
  "pllAllowed f m p \<longleftrightarrow> \<not> fbEnabled f \<and> ddsDriven m
     \<and> ucast (MinHz p) \<le> SpwmModulationFrequency m \<and> SpwmModulationFrequency m \<le> ucast (MaxHz p)
     \<and> 1000 \<le> SpwmCarrierFrequency m \<and> 18 * SpwmModulationFrequency m \<le> SpwmCarrierFrequency m"

definition settledMppt :: "u16 \<Rightarrow> bool \<Rightarrow> MpptConfig \<Rightarrow> bool" where
  "settledMppt softStartMs feedback m \<longleftrightarrow>
     (if unat softStartMs \<le> 57900 then 2100 + unat softStartMs \<le> unat (mpIntervalMs m)
      else unat (mpIntervalMs m) = 60000 \<or> 2100 + unat softStartMs \<le> unat (mpIntervalMs m))
     \<and> 100 \<le> RestartDeltaMw m \<and> ucast (DeadbandMw m) < RestartDeltaMw m
     \<and> MinIndexMilli m < MaxIndexMilli m \<and> MaxIndexMilli m \<le> MaxModulationIndexMilli
     \<and> 1 \<le> MinStepMilli m \<and> MinStepMilli m \<le> StepMilli m \<and> StepMilli m \<le> 200
     \<and> \<not> (mpEnabled m \<and> feedback)"

definition settledMqtt :: "MqttConfig \<Rightarrow> bool" where
  "settledMqtt m \<longleftrightarrow> mqPort m \<noteq> 0 \<and> mqIntervalSeconds m \<noteq> 0 \<and> mqIntervalSeconds m \<le> 3600
     \<and> cchar (BaseTopic m) 0 \<noteq> NUL \<and> cchar (DiscoveryPrefix m) 0 \<noteq> NUL"

definition settledMeter :: "MeterConfig \<Rightarrow> bool" where
  "settledMeter m \<longleftrightarrow> meterCalibrationValid (VoltageZeroMillivolts m) (CurrentZeroMillivolts m)
     (CurrentMilliampPerVolt m) (VoltageRatioMilli m)"

definition settledPowerMon :: "PowerMonConfig \<Rightarrow> bool" where
  "settledPowerMon p \<longleftrightarrow> 0x40 \<le> pmAddress p \<and> pmAddress p \<le> 0x4F
     \<and> ina226CalValid (ShuntMicroOhm p) (ucast (CurrentLsbMicroAmp p)) \<and> 250 \<le> pmIntervalMs p"

subsection \<open>Outputs\<close>

lemma deadTime_check: "(ucast (DeadTime s) :: u32) > pairMaxDeadTimeNs PwmBusClockHz \<longleftrightarrow> 13646 < unat (DeadTime s)"
  by (simp add: maxDeadTimeNs word_less_nat_alt)

lemma deadTime_max: "unat (ucast (pairMaxDeadTimeNs PwmBusClockHz) :: u16) = 13646"
  by (simp add: maxDeadTimeNs)

lemma validateFixed_settles: "settledFixed n (fst (validateFixed n s))"
  by (auto simp: validateFixed_def sanitisePair_def clampFreq_def clampDeadTime_def fst_correct
      settledFixed_def settledOutput_def deadTime_check deadTime_max MinRepresentablePwmFrequencyHz_def
      MaxPwmFrequencyHz_def DefaultPwmFrequencyHz_def not_less)

lemma validateFixed_id: "settledFixed n s \<Longrightarrow> validateFixed n s = (s, False)"
  by (intro prod_eqI)
    (auto simp: validateFixed_def sanitisePair_def clampFreq_def clampDeadTime_def fst_correct snd_correct
      settledFixed_def settledOutput_def deadTime_check MinRepresentablePwmFrequencyHz_def
      MaxPwmFrequencyHz_def not_less)

lemma validateCell_settles: "settledCell n carrier (fst (validateCell n carrier s))"
  by (auto simp: validateCell_def followCarrier_def sanitisePair_def clampDeadTime_def fst_correct
      settledCell_def settledOutput_def deadTime_check deadTime_max not_less)

lemma validateCell_id: "settledCell n carrier s \<Longrightarrow> validateCell n carrier s = (s, False)"
  by (intro prod_eqI)
    (auto simp: validateCell_def followCarrier_def sanitisePair_def clampDeadTime_def fst_correct snd_correct
      settledCell_def settledOutput_def deadTime_check not_less)

lemma validateModule2_settles:
  assumes "18 \<le> ceil"
  shows "settledModule2 ceil (fst (validateModule2 ceil m))"
proof -
  let ?m1 = "fst (clampCarrier ceil m)"
  have 1: "18 \<le> SpwmCarrierFrequency ?m1" "SpwmCarrierFrequency ?m1 \<le> ceil"
    using assms by (auto simp: clampCarrier_def fst_correct carrierInvalid_def not_less
        MinRepresentablePwmFrequencyHz_def DefaultModulationCarrierHz_def)
  show ?thesis
    using 1 by (auto simp: validateModule2_def Let_def requireNyquist_def clampCells_def fst_correct
        settledModule2_def validateCell_settles ddsDriven_def not_less MaxModulationCells_def one_le_word)
qed

lemma validateModule2_id:
  assumes "settledModule2 ceil m" shows "validateModule2 ceil m = (m, False)"
proof -
  have 1: "\<not> carrierInvalid ceil m"
    using assms by (simp add: settledModule2_def carrierInvalid_def not_less MinRepresentablePwmFrequencyHz_def)
  then have "clampCarrier ceil m = (m, False)" by (simp add: clampCarrier_def correct_def)
  moreover have "requireNyquist m = (m, False)" "clampCells m = (m, False)"
    using assms by (auto simp: requireNyquist_def clampCells_def correct_def settledModule2_def not_less)
  moreover have "validateCell PairSm20 (SpwmCarrierFrequency m) (Sm20 m) = (Sm20 m, False)"
    "validateCell PairSm21 (SpwmCarrierFrequency m) (Sm21 m) = (Sm21 m, False)"
    "validateCell PairSm22 (SpwmCarrierFrequency m) (Sm22 m) = (Sm22 m, False)"
    "validateCell PairSm23 (SpwmCarrierFrequency m) (Sm23 m) = (Sm23 m, False)"
    using assms by (simp_all add: settledModule2_def validateCell_id)
  ultimately show ?thesis
    by (intro prod_eqI) (simp_all add: validateModule2_def Let_def)
qed

lemma validatePwm_settles: "18 \<le> ceil \<Longrightarrow> settledPwm ceil (fst (validatePwm ceil p))"
  by (simp add: settledPwm_def validatePwm_def validateFixed_settles validateModule2_settles
      refuseSync_def fst_correct)

lemma validatePwm_id:
  assumes "settledPwm ceil p" shows "validatePwm ceil p = (p, False)"
  using assms
  by (intro prod_eqI) (simp_all add: settledPwm_def validatePwm_def validateFixed_id validateModule2_id
      refuseSync_def fst_correct snd_correct)

subsection \<open>The other sections\<close>

lemma validateCurrentLimit_settles: "settledCurrentLimit (fst (validateCurrentLimit l))"
  by (auto simp: validateCurrentLimit_def settledCurrentLimit_def fst_correct not_less acmpRouteForPin_def)

lemma validateCurrentLimit_id: "settledCurrentLimit l \<Longrightarrow> validateCurrentLimit l = (l, False)"
  by (intro prod_eqI)
    (auto simp: validateCurrentLimit_def settledCurrentLimit_def fst_correct snd_correct not_less)

lemma validatePllRanges_settles: "settledPllRanges (fst (validatePllRanges p))"
  by (auto simp: validatePllRanges_def settledPllRanges_def fst_correct not_less not_le)

lemma validatePllRanges_id: "settledPllRanges p \<Longrightarrow> validatePllRanges p = (p, False)"
  unfolding validatePllRanges_def
  by (rule rules_id) (simp add: settledPllRanges_def correct_id not_less not_le)

lemma disablePllWhen_simps [simp]:
  "plEnabled (fst (disablePllWhen b p)) \<longleftrightarrow> plEnabled p \<and> \<not> b"
  "MinHz (fst (disablePllWhen b p)) = MinHz p" "MaxHz (fst (disablePllWhen b p)) = MaxHz p"
  "PhaseOffsetCentiDeg (fst (disablePllWhen b p)) = PhaseOffsetCentiDeg p"
  "BandwidthDeciHz (fst (disablePllWhen b p)) = BandwidthDeciHz p"
  "ZeroMillivolts (fst (disablePllWhen b p)) = ZeroMillivolts p"
  "MinLevelMillivolts (fst (disablePllWhen b p)) = MinLevelMillivolts p"
  "snd (disablePllWhen b p) \<longleftrightarrow> plEnabled p \<and> b"
  by (auto simp: disablePllWhen_def fst_correct snd_correct)

lemma disablePllWhen_id: "\<not> (plEnabled p \<and> b) \<Longrightarrow> disablePllWhen b p = (p, False)"
  by (simp add: disablePllWhen_def correct_def)

lemma excludePll_settles:
  "plEnabled (fst (excludePll iv f m p)) \<Longrightarrow> pllAllowed f m (fst (excludePll iv f m p)) \<and> \<not> iv \<and> plEnabled p"
  by (simp add: excludePll_def pllAllowed_def ddsDriven_def not_less)

lemma excludePll_ranges: "settledPllRanges (fst (excludePll iv f m p)) = settledPllRanges p"
  by (simp add: excludePll_def settledPllRanges_def)

lemma excludePll_id: "(plEnabled p \<Longrightarrow> pllAllowed f m p \<and> \<not> iv) \<Longrightarrow> excludePll iv f m p = (p, False)"
  by (intro prod_eqI)
    (auto simp: excludePll_def disablePllWhen_id pllAllowed_def ddsDriven_def not_less)

lemma validateMqtt_settles: "settledMqtt (fst (validateMqtt m))"
  by (auto simp: validateMqtt_def settledMqtt_def fst_correct not_less)

lemma validateMqtt_id: "settledMqtt m \<Longrightarrow> validateMqtt m = (m, False)"
  by (intro prod_eqI) (auto simp: validateMqtt_def settledMqtt_def fst_correct snd_correct not_less)

lemma meterDefault_valid: "meterCalibrationValid 1650 1650 10000 1000"
  by (simp add: meterCalibrationValid_def)

lemma validateMeter_settles: "settledMeter (fst (validateMeter m))"
  by (auto simp: validateMeter_def settledMeter_def fst_correct meterDefault_valid)

lemma validateMeter_id: "settledMeter m \<Longrightarrow> validateMeter m = (m, False)"
  by (simp add: validateMeter_def settledMeter_def correct_def)

lemma powerMonDefault_valid: "ina226CalValid 10000 50"
  by (simp add: ina226CalValid_def ina226CalRegister_def Ina226CalNumerator_def)

lemma validatePowerMon_settles: "settledPowerMon (fst (validatePowerMon p))"
  using powerMonDefault_valid
  by (auto simp: validatePowerMon_def settledPowerMon_def fst_correct not_less)

lemma validatePowerMon_id: "settledPowerMon p \<Longrightarrow> validatePowerMon p = (p, False)"
  by (intro prod_eqI) (auto simp: validatePowerMon_def settledPowerMon_def fst_correct snd_correct not_less)

subsection \<open>MPPT\<close>

lemma mppt_floor: "unat (2100 + ucast (soft :: u16) :: u32) = 2100 + unat soft"
proof -
  have "unat soft < 4294965196" by (rule order_less_trans [OF unat_less_2p]) simp
  then show ?thesis by (subst unat_add_no_wrap) simp_all
qed

lemma mppt_interval_bad:
  "(ucast (i :: u16) :: u32) < 2100 + ucast (soft :: u16) \<longleftrightarrow> unat i < 2100 + unat soft"
  by (simp add: word_less_nat_alt mppt_floor)

lemma mppt_interval_cap:
  "(2100 + ucast (soft :: u16) :: u32) > 60000 \<longleftrightarrow> 57900 < unat soft"
  by (auto simp: word_less_nat_alt mppt_floor)

lemma mppt_interval_fix:
  "unat soft \<le> 57900 \<Longrightarrow> unat (ucast (2100 + ucast (soft :: u16) :: u32) :: u16) = 2100 + unat soft"
  by (simp add: unat_ucast_down mppt_floor)

lemma mpptInterval_settles:
  "if unat soft \<le> 57900 then 2100 + unat soft \<le> unat (mpIntervalMs (fst (mpptInterval soft m)))
   else unat (mpIntervalMs (fst (mpptInterval soft m))) = 60000
     \<or> 2100 + unat soft \<le> unat (mpIntervalMs (fst (mpptInterval soft m)))"
  by (auto simp: mpptInterval_def Let_def fst_correct mppt_interval_bad mppt_interval_cap mppt_interval_fix not_less)

lemma mpptInterval_frame [simp]:
  "RestartDeltaMw (fst (mpptInterval soft m)) = RestartDeltaMw m"
  "DeadbandMw (fst (mpptInterval soft m)) = DeadbandMw m"
  "MinIndexMilli (fst (mpptInterval soft m)) = MinIndexMilli m"
  "MaxIndexMilli (fst (mpptInterval soft m)) = MaxIndexMilli m"
  "MinStepMilli (fst (mpptInterval soft m)) = MinStepMilli m"
  "StepMilli (fst (mpptInterval soft m)) = StepMilli m"
  "mpEnabled (fst (mpptInterval soft m)) = mpEnabled m"
  by (simp_all add: mpptInterval_def Let_def fst_correct)

lemma mpptInterval_id:
  assumes "settledMppt soft fb m"
  shows "fst (mpptInterval soft m) = m" "snd (mpptInterval soft m) \<longrightarrow> 57900 < unat soft"
proof -
  have i: "if unat soft \<le> 57900 then 2100 + unat soft \<le> unat (mpIntervalMs m)
     else unat (mpIntervalMs m) = 60000 \<or> 2100 + unat soft \<le> unat (mpIntervalMs m)"
    using assms by (simp add: settledMppt_def)
  have "mpIntervalMs m = 60000" if "unat (mpIntervalMs m) = 60000"
    using that by (simp add: word_unat_eq_iff)
  then have e: "m\<lparr>mpIntervalMs := 60000\<rparr> = m" if "unat (mpIntervalMs m) = 60000" using that by simp
  show "fst (mpptInterval soft m) = m"
    using i e by (auto simp: mpptInterval_def Let_def fst_correct mppt_interval_bad mppt_interval_cap split: if_splits)
  show "snd (mpptInterval soft m) \<longrightarrow> 57900 < unat soft"
    using i by (auto simp: mpptInterval_def Let_def snd_correct mppt_interval_bad split: if_splits)
qed

lemma mpptLimits_id: "settledMppt soft fb m \<Longrightarrow> mpptLimits m = (m, False)"
  unfolding mpptLimits_def
  by (rule rules_id) (simp add: settledMppt_def correct_id not_less not_le)

lemma mpptLimits_interval: "mpIntervalMs (fst (mpptLimits m)) = mpIntervalMs m"
  by (simp add: mpptLimits_def fst_correct)

lemma validateMppt_settles: "settledMppt soft fb (fst (validateMppt soft fb m))"
  using mpptInterval_settles [of soft m]
  by (simp add: validateMppt_def mpptLimits_def settledMppt_def fst_correct not_less not_le
      MaxModulationIndexMilli_def)

lemma validateMppt_id:
  assumes "settledMppt soft fb m"
  shows "fst (validateMppt soft fb m) = m" "snd (validateMppt soft fb m) \<longrightarrow> 57900 < unat soft"
proof -
  have "correct (\<lambda>m. mpEnabled m \<and> fb) (\<lambda>m. m\<lparr>mpEnabled := False\<rparr>) m = (m, False)"
    using assms by (intro correct_id) (simp add: settledMppt_def)
  then show "fst (validateMppt soft fb m) = m" "snd (validateMppt soft fb m) \<longrightarrow> 57900 < unat soft"
    using mpptInterval_id [OF assms] mpptLimits_id [OF assms] by (simp_all add: validateMppt_def)
qed

section \<open>The whole configuration\<close>

definition settledConfig :: "MainConfig \<Rightarrow> bool" where
  "settledConfig c \<longleftrightarrow> settledPwm (carrierCeiling c) (Pwm c)
     \<and> settledCurrentLimit (CurrentLimit c) \<and> settledPllRanges (Pll c)
     \<and> (plEnabled (Pll c) \<longrightarrow> pllAllowed (Feedback c) (Tm2 (Pwm c)) (Pll c)
          \<and> CarrierDitherMode (Tm2 (Pwm c)) = DitherOff)
     \<and> \<not> DeadTimeCompensation (Tm2 (Pwm c))
     \<and> settledMppt (SoftStartMs (Tm2 (Pwm c))) (fbEnabled (Feedback c)) (Mppt c)
     \<and> settledMqtt (Mqtt c) \<and> settledMeter (Meter c) \<and> settledPowerMon (PowerMon c)"

lemma ceil_bounds: "18 \<le> carrierCeiling c" "carrierCeiling c \<le> 1000000"
  by (simp_all add: carrierCeiling_def MaxModulationCarrierHz_def MaxPwmFrequencyHz_def)

lemma ceil_mono:
  assumes "carrierInterruptRequired c' \<Longrightarrow> carrierInterruptRequired c" "Thermal c' = Thermal c"
  shows "carrierCeiling c \<le> carrierCeiling c'"
  using assms by (auto simp: carrierCeiling_def MaxModulationCarrierHz_def MaxPwmFrequencyHz_def)

text \<open>The sections of the result.\<close>

lemma finishModule2_frame [simp]:
  "settledModule2 ceil (fst (finishModule2 pll m)) = settledModule2 ceil m"
  "ddsDriven (fst (finishModule2 pll m)) = ddsDriven m"
  "SpwmModulationFrequency (fst (finishModule2 pll m)) = SpwmModulationFrequency m"
  "SpwmCarrierFrequency (fst (finishModule2 pll m)) = SpwmCarrierFrequency m"
  "SoftStartMs (fst (finishModule2 pll m)) = SoftStartMs m"
  "UseSpwm (fst (finishModule2 pll m)) = UseSpwm m"
  "ModulationScheme (fst (finishModule2 pll m)) = ModulationScheme m"
  "\<not> DeadTimeCompensation (fst (finishModule2 pll m))"
  "pll \<Longrightarrow> CarrierDitherMode (fst (finishModule2 pll m)) = DitherOff"
  by (simp_all add: finishModule2_def refuseDeadTimeCompensation_def excludeDither_def fst_correct
      settledModule2_def ddsDriven_def)

lemma finishModule2_id:
  "\<not> DeadTimeCompensation m \<Longrightarrow> (pll \<Longrightarrow> CarrierDitherMode m = DitherOff) \<Longrightarrow>
    finishModule2 pll m = (m, False)"
  unfolding finishModule2_def
  by (rule rules_id) (simp add: refuseDeadTimeCompensation_def excludeDither_def correct_id)

lemma validateModule2_frame [simp]:
  "SoftStartMs (fst (validateModule2 ceil m)) = SoftStartMs m"
  "ModulationScheme (fst (validateModule2 ceil m)) = ModulationScheme m"
  "UseSpwm (fst (validateModule2 ceil m)) \<Longrightarrow> UseSpwm m"
  by (auto simp: validateModule2_def Let_def clampCarrier_def requireNyquist_def clampCells_def
      fst_correct split: if_splits)

lemma validatePwm_Tm2 [simp]: "Tm2 (fst (validatePwm ceil p)) = fst (validateModule2 ceil (Tm2 p))"
  by (simp add: validatePwm_def refuseSync_def fst_correct)

lemma validateConfig_sections:
  fixes c :: MainConfig
  defines "P \<equiv> fst (validatePwm (carrierCeiling c) (Pwm c))"
  defines "L \<equiv> fst (excludePll (carrierInvalid (carrierCeiling c) (Tm2 (Pwm c))) (Feedback c) (Tm2 P)
     (fst (validatePllRanges (Pll c))))"
  shows "Pwm (fst (validateConfig c)) = P\<lparr>Tm2 := fst (finishModule2 (plEnabled L) (Tm2 P))\<rparr>"
    and "Pll (fst (validateConfig c)) = L"
    and "CurrentLimit (fst (validateConfig c)) = fst (validateCurrentLimit (CurrentLimit c))"
    and "Mppt (fst (validateConfig c))
       = fst (validateMppt (SoftStartMs (Tm2 (Pwm c))) (fbEnabled (Feedback c)) (Mppt c))"
    and "Mqtt (fst (validateConfig c)) = fst (validateMqtt (Mqtt c))"
    and "Meter (fst (validateConfig c)) = fst (validateMeter (Meter c))"
    and "PowerMon (fst (validateConfig c)) = fst (validatePowerMon (PowerMon c))"
    and "AsymmetricInduction (fst (validateConfig c)) = AsymmetricInduction c"
    and "Feedback (fst (validateConfig c)) = Feedback c"
    and "FaultProtection (fst (validateConfig c)) = FaultProtection c"
    and "Influx (fst (validateConfig c)) = Influx c" and "Mtp (fst (validateConfig c)) = Mtp c"
    and "Security (fst (validateConfig c)) = Security c"
    and "Capture (fst (validateConfig c)) = Capture c"
    and "Thermal (fst (validateConfig c)) = Thermal c"
  by (simp_all add: validateConfig_def Let_def P_def L_def)

lemma validateConfig_settles: "settledConfig (fst (validateConfig c))"
proof -
  let ?c = "fst (validateConfig c)"
  let ?P = "fst (validatePwm (carrierCeiling c) (Pwm c))"
  note sec = validateConfig_sections [of c]
  have P: "settledPwm (carrierCeiling c) ?P" by (rule validatePwm_settles [OF ceil_bounds(1)])
  have pll: "pllAllowed (Feedback c) (Tm2 ?P) (Pll ?c) \<and> plEnabled (Pll c)" if "plEnabled (Pll ?c)"
  proof -
    have "plEnabled (fst (validatePllRanges (Pll c))) = plEnabled (Pll c)"
      by (simp add: validatePllRanges_def fst_correct)
    then show ?thesis using that excludePll_settles unfolding sec(2) by blast
  qed
  have "carrierInterruptRequired c" if "carrierInterruptRequired ?c"
  proof -
    have "clEnabled (CurrentLimit ?c) = clEnabled (CurrentLimit c)"
      "CycleByCycle (CurrentLimit ?c) = CycleByCycle (CurrentLimit c)"
      "meEnabled (Meter ?c) = meEnabled (Meter c)"
      by (simp_all add: sec validateCurrentLimit_def validateMeter_def fst_correct)
    moreover have "UseSpwm (Tm2 (Pwm ?c)) \<Longrightarrow> UseSpwm (Tm2 (Pwm c))"
      "ModulationScheme (Tm2 (Pwm ?c)) = ModulationScheme (Tm2 (Pwm c))"
      by (auto simp: sec(1))
    ultimately show ?thesis using that pll by (auto simp: carrierInterruptRequired_def sec(14))
  qed
  then have "carrierCeiling c \<le> carrierCeiling ?c" by (intro ceil_mono) (simp_all add: sec)
  then have "settledPwm (carrierCeiling ?c) (Pwm ?c)"
    using P by (auto simp: sec(1) settledPwm_def) (auto simp: settledModule2_def)
  moreover have "settledPllRanges (Pll ?c)"
    by (simp add: sec(2) excludePll_ranges validatePllRanges_settles)
  moreover have "plEnabled (Pll ?c) \<longrightarrow> pllAllowed (Feedback ?c) (Tm2 (Pwm ?c)) (Pll ?c)
      \<and> CarrierDitherMode (Tm2 (Pwm ?c)) = DitherOff"
    using pll by (auto simp: sec(1,9) pllAllowed_def) (simp add: sec(2))
  ultimately show ?thesis
    by (simp add: settledConfig_def sec(1,3-7,9) validateCurrentLimit_settles validateMppt_settles
        validateMqtt_settles validateMeter_settles validatePowerMon_settles)
qed

lemma validateConfig_id:
  assumes "settledConfig c"
  shows "fst (validateConfig c) = c" "snd (validateConfig c) \<longrightarrow> 57900 < unat (SoftStartMs (Tm2 (Pwm c)))"
proof -
  have s: "settledPwm (carrierCeiling c) (Pwm c)" "settledCurrentLimit (CurrentLimit c)"
    "settledPllRanges (Pll c)" "settledMqtt (Mqtt c)" "settledMeter (Meter c)" "settledPowerMon (PowerMon c)"
    "settledMppt (SoftStartMs (Tm2 (Pwm c))) (fbEnabled (Feedback c)) (Mppt c)"
    using assms by (simp_all add: settledConfig_def)
  have inv: "\<not> carrierInvalid (carrierCeiling c) (Tm2 (Pwm c))"
    using s(1) by (simp add: settledPwm_def settledModule2_def carrierInvalid_def not_less
        MinRepresentablePwmFrequencyHz_def)
  have p: "excludePll False (Feedback c) (Tm2 (Pwm c)) (Pll c) = (Pll c, False)"
    using assms by (intro excludePll_id) (auto simp: settledConfig_def)
  have m: "finishModule2 (plEnabled (Pll c)) (Tm2 (Pwm c)) = (Tm2 (Pwm c), False)"
    using assms by (intro finishModule2_id) (auto simp: settledConfig_def)
  note ids = validatePwm_id [OF s(1)] validateCurrentLimit_id [OF s(2)] validatePllRanges_id [OF s(3)]
    validateMqtt_id [OF s(4)] validateMeter_id [OF s(5)] validatePowerMon_id [OF s(6)] p m
  show "fst (validateConfig c) = c"
    using inv by (simp add: validateConfig_def ids validateMppt_id(1) [OF s(7)])
  show "snd (validateConfig c) \<longrightarrow> 57900 < unat (SoftStartMs (Tm2 (Pwm c)))"
    using inv validateMppt_id [OF s(7)] by (simp add: validateConfig_def ids)
qed

section \<open>Properties\<close>

text \<open>C7: whatever was in the file or the request, a validated configuration is one the hardware can
  run: every output has a frequency the counter represents, a pair mode its submodule supports
  and a dead time the register holds; the carrier respects the limit of whatever needs its
  interrupt and the reference its Nyquist bound; protection thresholds, filters and
  calibrations are in range; the PLL runs only with a reference it can track and never with the
  feedback loop or dither, and MPPT never with the feedback loop.\<close>

theorem validation_makes_safe:
  "settledConfig (fst (validateConfig c))"
  by (rule validateConfig_settles)

text \<open>Validating a validated configuration changes nothing, and reports a correction again only
  when the soft start is so long that the MPPT interval cannot reach its floor.\<close>

theorem validation_idempotent:
  "fst (validateConfig (fst (validateConfig c))) = fst (validateConfig c)
   \<and> (unat (SoftStartMs (Tm2 (Pwm (fst (validateConfig c))))) \<le> 57900 \<longrightarrow>
        \<not> snd (validateConfig (fst (validateConfig c))))"
  using validateConfig_id [OF validateConfig_settles [of c]] by auto

lemma validation_idempotent_witness:
  "\<not> snd (validateConfig (fst (validateConfig defaultConfig)))"
proof -
  have "unat (SoftStartMs (Tm2 (Pwm (fst (validateConfig defaultConfig))))) \<le> 57900"
    by (simp add: validateConfig_sections(1) defaultConfig_def defaultPwm_def defaultModule2_def Let_def)
  then show ?thesis using validation_idempotent [of defaultConfig] by blast
qed

end
