(* ===== verification/Config_Json.thy ===== *)
theory Config_Json
  imports Config_Validate "HOL-Library.AList" "HOL-Library.Countable"
begin

text \<open>
  \<open>src/src/config_serde.h\<close>: the JSON form of the configuration. \<open>configToJson\<close> writes a document,
  \<open>configFromJson\<close> reads one, \<open>configDocComplete\<close> decides whether a document has the complete shape
  the firmware writes, and the three functions on secrets keep credentials out of exported
  documents and imported files.

  A JSON value is the datatype \<open>json\<close>. Looking up a member, assigning one and reading and writing
  text belong to the ArduinoJson library, a record of functions; the locale \<open>json_library\<close> states the
  documented behaviour the code relies on. The operator \<open>v | d\<close> of the library is \<open>asBool\<close>,
  \<open>asInt\<close> and \<open>asStr\<close>: the value if it has the type of the default \<open>d\<close> (for an integer: if that
  type can represent it), \<open>d\<close> otherwise.
\<close>

section \<open>JSON values and the library\<close>

datatype json =
  JNull
| JBool bool
| JInt int
| JStr string
| JObj "(string \<times> json) list"
| JOther string

record JsonLib =
  jMember :: "json \<Rightarrow> string \<Rightarrow> json"
  jAssign :: "json \<Rightarrow> string list \<Rightarrow> json \<Rightarrow> json"
  serializeJson :: "json \<Rightarrow> byte list"
  deserializeJson :: "byte list \<Rightarrow> json option"

datatype int_type = TInt | TU8 | TU16 | TU32

fun fits :: "int_type \<Rightarrow> int \<Rightarrow> bool" where
  "fits TInt i \<longleftrightarrow> - (2 ^ 31) \<le> i \<and> i < 2 ^ 31"
| "fits TU8 i \<longleftrightarrow> 0 \<le> i \<and> i < 2 ^ 8"
| "fits TU16 i \<longleftrightarrow> 0 \<le> i \<and> i < 2 ^ 16"
| "fits TU32 i \<longleftrightarrow> 0 \<le> i \<and> i < 2 ^ 32"

definition asBool :: "JsonLib \<Rightarrow> json \<Rightarrow> string \<Rightarrow> bool \<Rightarrow> bool" where
  "asBool J v k d = (case jMember J v k of JBool b \<Rightarrow> b | _ \<Rightarrow> d)"

definition asInt :: "JsonLib \<Rightarrow> int_type \<Rightarrow> json \<Rightarrow> string \<Rightarrow> int \<Rightarrow> int" where
  "asInt J T v k d = (case jMember J v k of JInt i \<Rightarrow> if fits T i then i else d | _ \<Rightarrow> d)"

definition asStr :: "JsonLib \<Rightarrow> json \<Rightarrow> string \<Rightarrow> string \<Rightarrow> string" where
  "asStr J v k d = (case jMember J v k of JStr s \<Rightarrow> s | _ \<Rightarrow> d)"

definition copyConfigString :: "nat \<Rightarrow> string \<Rightarrow> string" where
  "copyConfigString dstSize src = take (dstSize - 1) (cstr src)"

section \<open>Reading\<close>

definition submoduleFromJson ::
    "JsonLib \<Rightarrow> int_type \<Rightarrow> u32 \<Rightarrow> bool \<Rightarrow> json \<Rightarrow> SubmoduleConfig \<Rightarrow> SubmoduleConfig" where
  "submoduleFromJson J T hz hasB v s =
     (let s = s\<lparr>Pair := word_of_int (asInt J TU8 v ''Pair'' (uint PairIndependent)),
                DeadTime := word_of_int (asInt J TU16 v ''DeadTime'' (uint MinHalfBridgeDeadTimeNs)),
                PwmFrequency := word_of_int (asInt J T v ''PwmFrequency'' (uint hz)),
                ChannelA := \<lparr>DutyCycle = word_of_int (asInt J TInt (jMember J v ''ChannelA'') ''DutyCycle'' 0)\<rparr>\<rparr>
      in if hasB
         then s\<lparr>ChannelB := \<lparr>DutyCycle = word_of_int (asInt J TInt (jMember J v ''ChannelB'') ''DutyCycle'' 0)\<rparr>\<rparr>
         else s)"

definition module2FromJson :: "JsonLib \<Rightarrow> json \<Rightarrow> Module2Config \<Rightarrow> Module2Config" where
  "module2FromJson J v m = \<lparr>UseSpwm = asBool J v ''UseSpwm'' False,
     SpwmCarrierFrequency = word_of_int (asInt J TInt v ''SpwmCarrierFrequency'' 20000),
     SpwmModulationFrequency = word_of_int (asInt J TInt v ''SpwmModulationFrequency'' 50),
     ModulationScheme = word_of_int (asInt J TInt v ''ModulationScheme'' 1),
     ModulationIndexMilli = word_of_int (asInt J TInt v ''ModulationIndexMilli'' 1000),
     ModulationCells = word_of_int (asInt J TInt v ''ModulationCells'' 2),
     CarrierDisposition = word_of_int (asInt J TInt v ''CarrierDisposition'' 0),
     DeadTimeCompensation = asBool J v ''DeadTimeCompensation'' False,
     SoftStartMs = word_of_int (asInt J TInt v ''SoftStartMs'' 0),
     ReferenceWaveform = word_of_int (asInt J TInt v ''ReferenceWaveform'' 0),
     DpwmVariant = word_of_int (asInt J TInt v ''DpwmVariant'' 0),
     DpwmClampAngleDeg = word_of_int (asInt J TInt v ''DpwmClampAngleDeg'' 0),
     CarrierDitherMode = word_of_int (asInt J TInt v ''CarrierDitherMode'' 0),
     CarrierDitherPercent = word_of_int (asInt J TInt v ''CarrierDitherPercent'' 0),
     NearestLevelModulation = asBool J v ''NearestLevelModulation'' False,
     WaveformSampleStep = asBool J v ''WaveformSampleStep'' False,
     Sm20 = submoduleFromJson J TU32 DefaultModulationCarrierHz True (jMember J v ''Sm20'') (Sm20 m),
     Sm21 = submoduleFromJson J TU32 DefaultModulationCarrierHz False (jMember J v ''Sm21'') (Sm21 m),
     Sm22 = submoduleFromJson J TU32 DefaultModulationCarrierHz True (jMember J v ''Sm22'') (Sm22 m),
     Sm23 = submoduleFromJson J TU32 DefaultModulationCarrierHz True (jMember J v ''Sm23'') (Sm23 m)\<rparr>"

definition pwmFromJson :: "JsonLib \<Rightarrow> json \<Rightarrow> PwmConfig \<Rightarrow> PwmConfig" where
  "pwmFromJson J v p =
     (let t1 = jMember J v ''Tm1''; t3 = jMember J v ''Tm3''; t4 = jMember J v ''Tm4'' in
      \<lparr>Tm1 = \<lparr>Sm13 = submoduleFromJson J TU32 DefaultPwmFrequencyHz True (jMember J t1 ''Sm13'') (Sm13 (Tm1 p))\<rparr>,
       Tm2 = module2FromJson J (jMember J v ''Tm2'') (Tm2 p),
       Tm3 = \<lparr>Sm31 = submoduleFromJson J TInt 1000 True (jMember J t3 ''Sm31'') (Sm31 (Tm3 p))\<rparr>,
       Tm4 = \<lparr>Sm40 = submoduleFromJson J TInt 1000 False (jMember J t4 ''Sm40'') (Sm40 (Tm4 p)),
              Sm41 = submoduleFromJson J TInt 1000 False (jMember J t4 ''Sm41'') (Sm41 (Tm4 p)),
              Sm42 = submoduleFromJson J TInt 1000 True (jMember J t4 ''Sm42'') (Sm42 (Tm4 p))\<rparr>,
       PrintRegs = asBool J v ''PrintRegs'' False, SyncPwm = asBool J v ''SyncPwm'' False,
       Verbose = asBool J v ''Verbose'' False\<rparr>)"

definition asymmetricInductionFromJson :: "JsonLib \<Rightarrow> json \<Rightarrow> AsymmetricInductionConfig" where
  "asymmetricInductionFromJson J v = \<lparr>aiIsEnabled = asBool J v ''IsEnabled'' False,
     PreShiftNanos = word_of_int (asInt J TInt v ''PreShiftNanos'' 250),
     PostShiftNanos = word_of_int (asInt J TInt v ''PostShiftNanos'' 500)\<rparr>"

definition feedbackFromJson :: "JsonLib \<Rightarrow> json \<Rightarrow> FeedbackConfig" where
  "feedbackFromJson J v = \<lparr>fbEnabled = asBool J v ''Enabled'' False,
     fbAnalogPin = word_of_int (asInt J TInt v ''AnalogPin'' 41),
     SetpointMillivolts = word_of_int (asInt J TInt v ''SetpointMillivolts'' 0),
     FullScaleMillivolts = word_of_int (asInt J TInt v ''FullScaleMillivolts'' 3300),
     KpMilli = word_of_int (asInt J TInt v ''KpMilli'' 200),
     KiMilli = word_of_int (asInt J TInt v ''KiMilli'' 2000),
     LoopHz = word_of_int (asInt J TInt v ''LoopHz'' 250)\<rparr>"

definition faultProtectionFromJson :: "JsonLib \<Rightarrow> json \<Rightarrow> FaultProtectionConfig" where
  "faultProtectionFromJson J v = \<lparr>fpEnabled = asBool J v ''Enabled'' False,
     fpPin = word_of_int (asInt J TInt v ''Pin'' 32),
     ActiveHigh = asBool J v ''ActiveHigh'' True\<rparr>"

definition currentLimitFromJson :: "JsonLib \<Rightarrow> json \<Rightarrow> CurrentLimitConfig" where
  "currentLimitFromJson J v = \<lparr>clEnabled = asBool J v ''Enabled'' False,
     clPin = word_of_int (asInt J TInt v ''Pin'' 40),
     ThresholdMillivolts = word_of_int (asInt J TInt v ''ThresholdMillivolts'' 2475),
     CycleByCycle = asBool J v ''CycleByCycle'' False,
     FilterCount = word_of_int (asInt J TInt v ''FilterCount'' 0),
     FilterPeriod = word_of_int (asInt J TInt v ''FilterPeriod'' 0)\<rparr>"

definition influxFromJson :: "JsonLib \<Rightarrow> json \<Rightarrow> InfluxConfig" where
  "influxFromJson J v = \<lparr>ixHost = copyConfigString 40 (asStr J v ''Host'' ''''),
     ixPort = word_of_int (asInt J TInt v ''Port'' 8086),
     ixOrg = copyConfigString 24 (asStr J v ''Org'' ''''),
     ixBucket = copyConfigString 32 (asStr J v ''Bucket'' ''''),
     ixToken = copyConfigString 96 (asStr J v ''Token'' ''''),
     ixIntervalSeconds = word_of_int (asInt J TInt v ''IntervalSeconds'' 10)\<rparr>"

definition mqttFromJson :: "JsonLib \<Rightarrow> json \<Rightarrow> MqttConfig" where
  "mqttFromJson J v = \<lparr>mqEnabled = asBool J v ''Enabled'' False,
     mqHost = copyConfigString 40 (asStr J v ''Host'' ''''),
     mqPort = word_of_int (asInt J TInt v ''Port'' 1883),
     mqUsername = copyConfigString 32 (asStr J v ''Username'' ''''),
     mqPassword = copyConfigString 64 (asStr J v ''Password'' ''''),
     BaseTopic = copyConfigString 24 (asStr J v ''BaseTopic'' ''teg''),
     DiscoveryPrefix = copyConfigString 16 (asStr J v ''DiscoveryPrefix'' ''homeassistant''),
     DiscoveryEnabled = asBool J v ''DiscoveryEnabled'' True,
     mqIntervalSeconds = word_of_int (asInt J TInt v ''IntervalSeconds'' 10)\<rparr>"

definition mtpFromJson :: "JsonLib \<Rightarrow> json \<Rightarrow> MtpConfig" where
  "mtpFromJson J v = \<lparr>mtEnabled = asBool J v ''Enabled'' False\<rparr>"

definition securityFromJson :: "JsonLib \<Rightarrow> json \<Rightarrow> SecurityConfig" where
  "securityFromJson J v = \<lparr>WritePin = copyConfigString 16 (asStr J v ''WritePin'' '''')\<rparr>"

definition captureFromJson :: "JsonLib \<Rightarrow> json \<Rightarrow> CaptureSettings" where
  "captureFromJson J v = \<lparr>caEnabled = asBool J v ''Enabled'' False\<rparr>"

definition meterFromJson :: "JsonLib \<Rightarrow> json \<Rightarrow> MeterConfig" where
  "meterFromJson J v = \<lparr>meEnabled = asBool J v ''Enabled'' False,
     meCurrentPin = word_of_int (asInt J TInt v ''CurrentPin'' 40),
     VoltageZeroMillivolts = word_of_int (asInt J TInt v ''VoltageZeroMillivolts'' 1650),
     CurrentZeroMillivolts = word_of_int (asInt J TInt v ''CurrentZeroMillivolts'' 1650),
     CurrentMilliampPerVolt = word_of_int (asInt J TInt v ''CurrentMilliampPerVolt'' 10000),
     VoltageRatioMilli = word_of_int (asInt J TInt v ''VoltageRatioMilli'' 1000)\<rparr>"

definition pllFromJson :: "JsonLib \<Rightarrow> json \<Rightarrow> PllConfig" where
  "pllFromJson J v = \<lparr>plEnabled = asBool J v ''Enabled'' False,
     PhaseOffsetCentiDeg = word_of_int (asInt J TInt v ''PhaseOffsetCentiDeg'' 0),
     MinHz = word_of_int (asInt J TInt v ''MinHz'' 45),
     MaxHz = word_of_int (asInt J TInt v ''MaxHz'' 55),
     BandwidthDeciHz = word_of_int (asInt J TInt v ''BandwidthDeciHz'' 200),
     ZeroMillivolts = word_of_int (asInt J TInt v ''ZeroMillivolts'' 1650),
     MinLevelMillivolts = word_of_int (asInt J TInt v ''MinLevelMillivolts'' 100)\<rparr>"

definition mpptFromJson :: "JsonLib \<Rightarrow> json \<Rightarrow> MpptConfig" where
  "mpptFromJson J v = \<lparr>mpEnabled = asBool J v ''Enabled'' False,
     mpIntervalMs = word_of_int (asInt J TInt v ''IntervalMs'' 3000),
     StepMilli = word_of_int (asInt J TInt v ''StepMilli'' 20),
     MinStepMilli = word_of_int (asInt J TInt v ''MinStepMilli'' 5),
     MinIndexMilli = word_of_int (asInt J TInt v ''MinIndexMilli'' 50),
     MaxIndexMilli = word_of_int (asInt J TInt v ''MaxIndexMilli'' 1000),
     DeadbandMw = word_of_int (asInt J TInt v ''DeadbandMw'' 10),
     RestartDeltaMw = word_of_int (asInt J TInt v ''RestartDeltaMw'' 1000)\<rparr>"

definition thermalFromJson :: "JsonLib \<Rightarrow> json \<Rightarrow> ThermalConfig" where
  "thermalFromJson J v = \<lparr>thEnabled = asBool J v ''Enabled'' False,
     OneWirePin = word_of_int (asInt J TInt v ''OneWirePin'' 21),
     DerateStartC = word_of_int (asInt J TInt v ''DerateStartC'' 70),
     DerateEndC = word_of_int (asInt J TInt v ''DerateEndC'' 90)\<rparr>"

definition powerMonFromJson :: "JsonLib \<Rightarrow> json \<Rightarrow> PowerMonConfig" where
  "powerMonFromJson J v = \<lparr>pmEnabled = asBool J v ''Enabled'' False,
     pmAddress = word_of_int (asInt J TInt v ''Address'' 0x40),
     ShuntMicroOhm = word_of_int (asInt J TInt v ''ShuntMicroOhm'' 10000),
     CurrentLsbMicroAmp = word_of_int (asInt J TInt v ''CurrentLsbMicroAmp'' 50),
     AlertMilliAmp = word_of_int (asInt J TInt v ''AlertMilliAmp'' 1500),
     pmIntervalMs = word_of_int (asInt J TInt v ''IntervalMs'' 250),
     PgEfusePin = word_of_int (asInt J TInt v ''PgEfusePin'' 14),
     PgBuckPin = word_of_int (asInt J TInt v ''PgBuckPin'' 15),
     AlertPin = word_of_int (asInt J TInt v ''AlertPin'' 20),
     ImonPin = word_of_int (asInt J TInt v ''ImonPin'' 255),
     ImonRimonOhm = word_of_int (asInt J TInt v ''ImonRimonOhm'' 4530)\<rparr>"

definition configFromJson :: "JsonLib \<Rightarrow> json \<Rightarrow> MainConfig \<Rightarrow> MainConfig" where
  "configFromJson J doc c =
     (let cfg = jMember J doc ''Config'' in
      \<lparr>Pwm = pwmFromJson J (jMember J cfg ''Pwm'') (Pwm c),
       AsymmetricInduction = asymmetricInductionFromJson J (jMember J cfg ''AsymmetricInduction''),
       Feedback = feedbackFromJson J (jMember J cfg ''Feedback''),
       FaultProtection = faultProtectionFromJson J (jMember J cfg ''FaultProtection''),
       CurrentLimit = currentLimitFromJson J (jMember J cfg ''CurrentLimit''),
       Influx = influxFromJson J (jMember J cfg ''Influx''),
       Mqtt = mqttFromJson J (jMember J cfg ''Mqtt''),
       Mtp = mtpFromJson J (jMember J cfg ''Mtp''),
       Security = securityFromJson J (jMember J cfg ''Security''),
       Capture = captureFromJson J (jMember J cfg ''Capture''),
       Meter = meterFromJson J (jMember J cfg ''Meter''),
       Pll = pllFromJson J (jMember J cfg ''Pll''),
       Mppt = mpptFromJson J (jMember J cfg ''Mppt''),
       Thermal = thermalFromJson J (jMember J cfg ''Thermal''),
       PowerMon = powerMonFromJson J (jMember J cfg ''PowerMon'')\<rparr>)"

section \<open>Writing\<close>

definition submoduleToJson :: "bool \<Rightarrow> bool \<Rightarrow> SubmoduleConfig \<Rightarrow> json" where
  "submoduleToJson hasHz hasB s = JObj
     ([(''Pair'', JInt (uint (Pair s))), (''DeadTime'', JInt (uint (DeadTime s)))]
      @ (if hasHz then [(''PwmFrequency'', JInt (uint (PwmFrequency s)))] else [])
      @ [(''ChannelA'', JObj [(''DutyCycle'', JInt (uint (DutyCycle (ChannelA s))))])]
      @ (if hasB then [(''ChannelB'', JObj [(''DutyCycle'', JInt (uint (DutyCycle (ChannelB s))))])] else []))"

definition module2ToJson :: "Module2Config \<Rightarrow> json" where
  "module2ToJson m = JObj
     [(''UseSpwm'', JBool (UseSpwm m)),
      (''SpwmCarrierFrequency'', JInt (uint (SpwmCarrierFrequency m))),
      (''SpwmModulationFrequency'', JInt (uint (SpwmModulationFrequency m))),
      (''ModulationScheme'', JInt (uint (ModulationScheme m))),
      (''ModulationIndexMilli'', JInt (uint (ModulationIndexMilli m))),
      (''ModulationCells'', JInt (uint (ModulationCells m))),
      (''CarrierDisposition'', JInt (uint (CarrierDisposition m))),
      (''SoftStartMs'', JInt (uint (SoftStartMs m))),
      (''ReferenceWaveform'', JInt (uint (ReferenceWaveform m))),
      (''DpwmVariant'', JInt (uint (DpwmVariant m))),
      (''DpwmClampAngleDeg'', JInt (sint (DpwmClampAngleDeg m))),
      (''CarrierDitherMode'', JInt (uint (CarrierDitherMode m))),
      (''CarrierDitherPercent'', JInt (uint (CarrierDitherPercent m))),
      (''NearestLevelModulation'', JBool (NearestLevelModulation m)),
      (''WaveformSampleStep'', JBool (WaveformSampleStep m)),
      (''Sm20'', submoduleToJson False True (Sm20 m)),
      (''Sm21'', submoduleToJson False False (Sm21 m)),
      (''Sm22'', submoduleToJson False True (Sm22 m)),
      (''Sm23'', submoduleToJson False True (Sm23 m))]"

definition pwmToJson :: "PwmConfig \<Rightarrow> json" where
  "pwmToJson p = JObj
     [(''PrintRegs'', JBool (PrintRegs p)), (''Verbose'', JBool (Verbose p)),
      (''Tm1'', JObj [(''Sm13'', submoduleToJson True True (Sm13 (Tm1 p)))]),
      (''Tm2'', module2ToJson (Tm2 p)),
      (''Tm3'', JObj [(''Sm31'', submoduleToJson True True (Sm31 (Tm3 p)))]),
      (''Tm4'', JObj [(''Sm40'', submoduleToJson True False (Sm40 (Tm4 p))),
        (''Sm41'', submoduleToJson True False (Sm41 (Tm4 p))),
        (''Sm42'', submoduleToJson True True (Sm42 (Tm4 p)))])]"

definition asymmetricInductionToJson :: "AsymmetricInductionConfig \<Rightarrow> json" where
  "asymmetricInductionToJson x = JObj
     [(''IsEnabled'', JBool (aiIsEnabled x)),
      (''PreShiftNanos'', JInt (sint (PreShiftNanos x))),
      (''PostShiftNanos'', JInt (sint (PostShiftNanos x)))]"

definition feedbackToJson :: "FeedbackConfig \<Rightarrow> json" where
  "feedbackToJson x = JObj
     [(''Enabled'', JBool (fbEnabled x)), (''AnalogPin'', JInt (uint (fbAnalogPin x))),
      (''SetpointMillivolts'', JInt (uint (SetpointMillivolts x))),
      (''FullScaleMillivolts'', JInt (uint (FullScaleMillivolts x))),
      (''KpMilli'', JInt (uint (KpMilli x))), (''KiMilli'', JInt (uint (KiMilli x))),
      (''LoopHz'', JInt (uint (LoopHz x)))]"

definition faultProtectionToJson :: "FaultProtectionConfig \<Rightarrow> json" where
  "faultProtectionToJson x = JObj
     [(''Enabled'', JBool (fpEnabled x)), (''Pin'', JInt (uint (fpPin x))),
      (''ActiveHigh'', JBool (ActiveHigh x))]"

definition currentLimitToJson :: "CurrentLimitConfig \<Rightarrow> json" where
  "currentLimitToJson x = JObj
     [(''Enabled'', JBool (clEnabled x)), (''Pin'', JInt (uint (clPin x))),
      (''ThresholdMillivolts'', JInt (uint (ThresholdMillivolts x))),
      (''CycleByCycle'', JBool (CycleByCycle x))]"

definition influxToJson :: "InfluxConfig \<Rightarrow> json" where
  "influxToJson x = JObj
     [(''Host'', JStr (ixHost x)), (''Port'', JInt (uint (ixPort x))),
      (''Org'', JStr (ixOrg x)), (''Bucket'', JStr (ixBucket x)),
      (''Token'', JStr (ixToken x)), (''IntervalSeconds'', JInt (uint (ixIntervalSeconds x)))]"

definition mqttToJson :: "MqttConfig \<Rightarrow> json" where
  "mqttToJson x = JObj
     [(''Enabled'', JBool (mqEnabled x)), (''Host'', JStr (mqHost x)),
      (''Port'', JInt (uint (mqPort x))), (''Username'', JStr (mqUsername x)),
      (''Password'', JStr (mqPassword x)), (''BaseTopic'', JStr (BaseTopic x)),
      (''DiscoveryPrefix'', JStr (DiscoveryPrefix x)),
      (''DiscoveryEnabled'', JBool (DiscoveryEnabled x)),
      (''IntervalSeconds'', JInt (uint (mqIntervalSeconds x)))]"

definition mtpToJson :: "MtpConfig \<Rightarrow> json" where
  "mtpToJson x = JObj
     [(''Enabled'', JBool (mtEnabled x))]"

definition securityToJson :: "SecurityConfig \<Rightarrow> json" where
  "securityToJson x = JObj
     [(''WritePin'', JStr (WritePin x))]"

definition captureToJson :: "CaptureSettings \<Rightarrow> json" where
  "captureToJson x = JObj
     [(''Enabled'', JBool (caEnabled x))]"

definition meterToJson :: "MeterConfig \<Rightarrow> json" where
  "meterToJson x = JObj
     [(''Enabled'', JBool (meEnabled x)), (''CurrentPin'', JInt (uint (meCurrentPin x))),
      (''VoltageZeroMillivolts'', JInt (uint (VoltageZeroMillivolts x))),
      (''CurrentZeroMillivolts'', JInt (uint (CurrentZeroMillivolts x))),
      (''CurrentMilliampPerVolt'', JInt (uint (CurrentMilliampPerVolt x))),
      (''VoltageRatioMilli'', JInt (uint (VoltageRatioMilli x)))]"

definition pllToJson :: "PllConfig \<Rightarrow> json" where
  "pllToJson x = JObj
     [(''Enabled'', JBool (plEnabled x)),
      (''PhaseOffsetCentiDeg'', JInt (sint (PhaseOffsetCentiDeg x))),
      (''MinHz'', JInt (uint (MinHz x))), (''MaxHz'', JInt (uint (MaxHz x))),
      (''BandwidthDeciHz'', JInt (uint (BandwidthDeciHz x))),
      (''ZeroMillivolts'', JInt (uint (ZeroMillivolts x))),
      (''MinLevelMillivolts'', JInt (uint (MinLevelMillivolts x)))]"

definition mpptToJson :: "MpptConfig \<Rightarrow> json" where
  "mpptToJson x = JObj
     [(''Enabled'', JBool (mpEnabled x)), (''IntervalMs'', JInt (uint (mpIntervalMs x))),
      (''StepMilli'', JInt (uint (StepMilli x))),
      (''MinStepMilli'', JInt (uint (MinStepMilli x))),
      (''MinIndexMilli'', JInt (uint (MinIndexMilli x))),
      (''MaxIndexMilli'', JInt (uint (MaxIndexMilli x))),
      (''DeadbandMw'', JInt (uint (DeadbandMw x))),
      (''RestartDeltaMw'', JInt (uint (RestartDeltaMw x)))]"

definition thermalToJson :: "ThermalConfig \<Rightarrow> json" where
  "thermalToJson x = JObj
     [(''Enabled'', JBool (thEnabled x)), (''OneWirePin'', JInt (uint (OneWirePin x))),
      (''DerateStartC'', JInt (uint (DerateStartC x))),
      (''DerateEndC'', JInt (uint (DerateEndC x)))]"

definition powerMonToJson :: "PowerMonConfig \<Rightarrow> json" where
  "powerMonToJson x = JObj
     [(''Enabled'', JBool (pmEnabled x)), (''Address'', JInt (uint (pmAddress x))),
      (''ShuntMicroOhm'', JInt (uint (ShuntMicroOhm x))),
      (''CurrentLsbMicroAmp'', JInt (uint (CurrentLsbMicroAmp x))),
      (''AlertMilliAmp'', JInt (uint (AlertMilliAmp x))),
      (''IntervalMs'', JInt (uint (pmIntervalMs x))),
      (''PgEfusePin'', JInt (uint (PgEfusePin x))),
      (''PgBuckPin'', JInt (uint (PgBuckPin x))), (''AlertPin'', JInt (uint (AlertPin x))),
      (''ImonPin'', JInt (uint (ImonPin x))), (''ImonRimonOhm'', JInt (uint (ImonRimonOhm x)))]"

definition sectionsToJson :: "MainConfig \<Rightarrow> json" where
  "sectionsToJson c = JObj
     [(''AsymmetricInduction'', asymmetricInductionToJson (AsymmetricInduction c)),
      (''Pwm'', pwmToJson (Pwm c)), (''Feedback'', feedbackToJson (Feedback c)),
      (''FaultProtection'', faultProtectionToJson (FaultProtection c)),
      (''CurrentLimit'', currentLimitToJson (CurrentLimit c)),
      (''Influx'', influxToJson (Influx c)), (''Mqtt'', mqttToJson (Mqtt c)),
      (''Mtp'', mtpToJson (Mtp c)), (''Security'', securityToJson (Security c)),
      (''Capture'', captureToJson (Capture c)), (''Meter'', meterToJson (Meter c)),
      (''Pll'', pllToJson (Pll c)), (''Mppt'', mpptToJson (Mppt c)),
      (''Thermal'', thermalToJson (Thermal c)), (''PowerMon'', powerMonToJson (PowerMon c))]"

definition configToJson :: "MainConfig \<Rightarrow> json" where
  "configToJson c = JObj [(''SchemaVersion'', JInt 1), (''Config'', sectionsToJson c)]"

section \<open>Shape\<close>

definition isInteger :: "json \<Rightarrow> bool" where
  "isInteger v \<longleftrightarrow> (case v of JInt i \<Rightarrow> - (2 ^ 63) \<le> i \<and> i < 2 ^ 64 | _ \<Rightarrow> False)"

fun configShapeMatches :: "JsonLib \<Rightarrow> json \<Rightarrow> json \<Rightarrow> bool"
  and shapeFields :: "JsonLib \<Rightarrow> json \<Rightarrow> (string \<times> json) list \<Rightarrow> bool" where
  "configShapeMatches J actual (JObj kvs) \<longleftrightarrow>
     (case actual of JObj _ \<Rightarrow> shapeFields J actual kvs | _ \<Rightarrow> False)"
| "configShapeMatches J actual (JBool _) \<longleftrightarrow> (case actual of JBool _ \<Rightarrow> True | _ \<Rightarrow> False)"
| "configShapeMatches J actual (JStr _) \<longleftrightarrow> (case actual of JStr _ \<Rightarrow> True | _ \<Rightarrow> False)"
| "configShapeMatches J actual (JInt _) \<longleftrightarrow> isInteger actual"
| "configShapeMatches J actual JNull \<longleftrightarrow> isInteger actual"
| "configShapeMatches J actual (JOther _) \<longleftrightarrow> isInteger actual"
| "shapeFields J actual [] \<longleftrightarrow> True"
| "shapeFields J actual ((k, e) # kvs) \<longleftrightarrow>
     (let value = jMember J actual k
      in value \<noteq> JNull \<and> configShapeMatches J value e \<and> shapeFields J actual kvs)"

definition configDocComplete :: "JsonLib \<Rightarrow> json \<Rightarrow> bool" where
  "configDocComplete J doc \<longleftrightarrow>
     (let version = jMember J doc ''SchemaVersion''
      in (version = JNull \<or> version = JInt 1)
         \<and> configShapeMatches J (jMember J doc ''Config'')
             (jMember J (configToJson defaultConfig) ''Config''))"

section \<open>Secrets\<close>

definition redactSecrets :: "JsonLib \<Rightarrow> json \<Rightarrow> json" where
  "redactSecrets J doc =
     (let doc = jAssign J doc [''Config'', ''Influx'', ''Token''] (JStr '''');
          doc = jAssign J doc [''Config'', ''Security'', ''WritePin''] (JStr '''')
      in jAssign J doc [''Config'', ''Mqtt'', ''Password''] (JStr ''''))"

definition keepIfEmpty :: "nat \<Rightarrow> string \<Rightarrow> string \<Rightarrow> string" where
  "keepIfEmpty n new old = (if cchar new 0 = NUL then copyConfigString n old else new)"

definition preserveSecrets :: "MainConfig \<Rightarrow> MainConfig \<Rightarrow> MainConfig" where
  "preserveSecrets c previous =
     c\<lparr>Influx := (Influx c)\<lparr>ixToken := keepIfEmpty 96 (ixToken (Influx c)) (ixToken (Influx previous))\<rparr>,
       Security := \<lparr>WritePin = keepIfEmpty 16 (WritePin (Security c)) (WritePin (Security previous))\<rparr>,
       Mqtt := (Mqtt c)\<lparr>mqPassword := keepIfEmpty 64 (mqPassword (Mqtt c)) (mqPassword (Mqtt previous))\<rparr>\<rparr>"

definition mqttEndpointUnchanged :: "MqttConfig \<Rightarrow> MqttConfig \<Rightarrow> bool" where
  "mqttEndpointUnchanged m p \<longleftrightarrow> cstr (mqHost m) = cstr (mqHost p) \<and> mqPort m = mqPort p
     \<and> cstr (mqUsername m) = cstr (mqUsername p)"

definition influxEndpointUnchanged :: "InfluxConfig \<Rightarrow> InfluxConfig \<Rightarrow> bool" where
  "influxEndpointUnchanged x p \<longleftrightarrow> cstr (ixHost x) = cstr (ixHost p) \<and> ixPort x = ixPort p
     \<and> cstr (ixOrg x) = cstr (ixOrg p) \<and> cstr (ixBucket x) = cstr (ixBucket p)"

definition restoreSecrets :: "MainConfig \<Rightarrow> MainConfig \<Rightarrow> MainConfig" where
  "restoreSecrets c previous =
     c\<lparr>Security := \<lparr>WritePin = copyConfigString 16 (WritePin (Security previous))\<rparr>,
       Mqtt := (if mqttEndpointUnchanged (Mqtt c) (Mqtt previous)
                then (Mqtt c)\<lparr>mqPassword := copyConfigString 64 (mqPassword (Mqtt previous))\<rparr>
                else (Mqtt c)\<lparr>mqPassword := '''', mqEnabled := False\<rparr>),
       Influx := (if influxEndpointUnchanged (Influx c) (Influx previous)
                  then (Influx c)\<lparr>ixToken := copyConfigString 96 (ixToken (Influx previous))\<rparr>
                  else (Influx c)\<lparr>ixToken := '''', ixIntervalSeconds := 0\<rparr>)\<rparr>"

section \<open>The library's promises\<close>

locale json_library =
  fixes J :: JsonLib
  assumes member_obj: "jMember J (JObj kvs) k = (case map_of kvs k of Some v \<Rightarrow> v | None \<Rightarrow> JNull)"
    and assign_nil: "jAssign J d [] v = v"
    and assign_obj: "jAssign J (JObj kvs) (k # ks) v
          = JObj (AList.update k (jAssign J (jMember J (JObj kvs) k) ks v) kvs)"
    and parse_print: "deserializeJson J (serializeJson J (JObj kvs)) = Some (JObj kvs)"
    and parse_truncated: "n < length (serializeJson J (JObj kvs)) \<Longrightarrow>
          deserializeJson J (take n (serializeJson J (JObj kvs))) = None"
    and print_nonempty: "serializeJson J (JObj kvs) \<noteq> []"

subsection \<open>Integers survive\<close>

lemma fits_words [simp]:
  "fits TInt (uint (b :: byte))" "fits TU8 (uint b)" "fits TInt (sint b)"
  "fits TInt (uint (h :: u16))" "fits TU16 (uint h)" "fits TInt (sint h)"
  "fits TU32 (uint (w :: u32))" "fits TInt (sint w)"
  "fits TInt (uint w) \<longleftrightarrow> unat w < 2 ^ 31"
proof -
  have u: "0 \<le> uint x" "uint x < 2 ^ LENGTH('a)" for x :: "'a::len word" by simp_all
  have s: "- (2 ^ (LENGTH('a) - 1)) \<le> sint x" "sint x < 2 ^ (LENGTH('a) - 1)" for x :: "'a::len word"
    using sint_range_size [of x] by (simp_all add: word_size)
  have n: "- 2147483648 \<le> uint x" for x :: "'a::len word" by (rule order_trans [of _ 0]) simp_all
  show "fits TInt (uint b)" "fits TU8 (uint b)" using u [of b] n [of b] by simp_all
  show "fits TInt (uint h)" "fits TU16 (uint h)" using u [of h] n [of h] by simp_all
  show "fits TU32 (uint w)" using u [of w] by simp
  show "fits TInt (sint b)" "fits TInt (sint h)" "fits TInt (sint w)"
    using s [of b] s [of h] s [of w] by simp_all
  have e: "uint w = int (unat w)" by simp
  have "uint w < 2 ^ 31 \<longleftrightarrow> unat w < 2 ^ 31"
    unfolding e by (metis of_nat_less_iff of_nat_numeral of_nat_power)
  then show "fits TInt (uint w) \<longleftrightarrow> unat w < 2 ^ 31" using n [of w] by simp
qed

lemma isInteger_words [simp]:
  "isInteger (JInt (uint (b :: byte)))" "isInteger (JInt (sint b))"
  "isInteger (JInt (uint (h :: u16)))" "isInteger (JInt (sint h))"
  "isInteger (JInt (uint (w :: u32)))" "isInteger (JInt (sint w))"
proof -
  have t: "isInteger (JInt i)" if "fits TInt i \<or> fits TU32 i" for i using that by (auto simp: isInteger_def)
  show "isInteger (JInt (uint b))" "isInteger (JInt (sint b))" "isInteger (JInt (uint h))"
    "isInteger (JInt (sint h))" "isInteger (JInt (uint w))" "isInteger (JInt (sint w))"
    by (rule t; simp del: fits.simps)+
qed

text \<open>A string the firmware can hold in a buffer of \<open>n\<close> bytes.\<close>

definition fitsBuffer :: "nat \<Rightarrow> string \<Rightarrow> bool" where
  "fitsBuffer n s \<longleftrightarrow> NUL \<notin> set s \<and> length s < n"

lemma copyConfigString_id [simp]: "fitsBuffer n s \<Longrightarrow> copyConfigString n s = s"
  by (cases n) (simp_all add: fitsBuffer_def copyConfigString_def cstr_id)

lemma copyConfigString_fits: "0 < n \<Longrightarrow> fitsBuffer n (copyConfigString n s)"
  by (auto simp: fitsBuffer_def copyConfigString_def dest: in_set_takeD)

text \<open>The reader takes a number only if an \<open>int\<close> can hold it; otherwise the default stays.\<close>

definition intOr :: "u32 \<Rightarrow> u32 \<Rightarrow> u32" where
  "intOr d w = (if unat w < 2 ^ 31 then w else d)"

lemma intOr_id: "unat w < 2 ^ 31 \<Longrightarrow> intOr d w = w"
  by (simp add: intOr_def)

lemma intOr_iff: "unat d < 2 ^ 31 \<Longrightarrow> intOr d w = w \<longleftrightarrow> unat w < 2 ^ 31"
  by (auto simp: intOr_def)

subsection \<open>Sections read back\<close>

declare fits.simps [simp del]

context json_library
begin

lemma member_Cons [simp]:
  "jMember J (JObj ((k', v) # kvs)) k = (if k = k' then v else jMember J (JObj kvs) k)"
  "jMember J (JObj []) k = JNull"
  by (simp_all add: member_obj)

lemma as_simps [simp]:
  "jMember J v k = JBool b \<Longrightarrow> asBool J v k d = b"
  "jMember J v k = JInt i \<Longrightarrow> asInt J T v k e = (if fits T i then i else e)"
  "jMember J v k = JStr s \<Longrightarrow> asStr J v k f = s"
  "jMember J v k = JNull \<Longrightarrow> asBool J v k d = d"
  "jMember J v k = JNull \<Longrightarrow> asInt J T v k e = e"
  by (simp_all add: asBool_def asInt_def asStr_def)

lemma submodule_round_trip:
  assumes "hz \<Longrightarrow> T = TInt \<Longrightarrow> unat (PwmFrequency s) < 2 ^ 31" "T = TInt \<or> T = TU32"
  shows "submoduleFromJson J T dflt hasB (submoduleToJson hz hasB s) s0
    = s\<lparr>PwmFrequency := (if hz then PwmFrequency s
                         else word_of_int (if fits T (uint dflt) then uint dflt else uint dflt)),
        ChannelB := (if hasB then ChannelB s else ChannelB s0)\<rparr>"
  using assms
  by (cases s; cases "ChannelA s"; cases "ChannelB s")
    (auto simp: submoduleFromJson_def submoduleToJson_def Let_def)

lemma asymmetricInduction_round_trip:
  "asymmetricInductionFromJson J (asymmetricInductionToJson x) = x"
  by (cases x) (simp add: asymmetricInductionFromJson_def asymmetricInductionToJson_def)

lemma feedback_round_trip:
  "feedbackFromJson J (feedbackToJson x) = x\<lparr>SetpointMillivolts := intOr 0 (SetpointMillivolts x),
     FullScaleMillivolts := intOr 3300 (FullScaleMillivolts x)\<rparr>"
  by (cases x) (simp add: feedbackFromJson_def feedbackToJson_def intOr_def)

lemma faultProtection_round_trip:
  "faultProtectionFromJson J (faultProtectionToJson x) = x"
  by (cases x) (simp add: faultProtectionFromJson_def faultProtectionToJson_def)

lemma currentLimit_round_trip:
  assumes "FilterCount x = 0" "FilterPeriod x = 0"
  shows "currentLimitFromJson J (currentLimitToJson x) = x"
  using assms by (cases x) (simp add: currentLimitFromJson_def currentLimitToJson_def)

lemma influx_round_trip:
  assumes "fitsBuffer 40 (ixHost x)" "fitsBuffer 24 (ixOrg x)" "fitsBuffer 32 (ixBucket x)"
    "fitsBuffer 96 (ixToken x)"
  shows "influxFromJson J (influxToJson x) = x"
  using assms by (cases x) (simp add: influxFromJson_def influxToJson_def)

lemma mqtt_round_trip:
  assumes "fitsBuffer 40 (mqHost x)" "fitsBuffer 32 (mqUsername x)"
    "fitsBuffer 64 (mqPassword x)" "fitsBuffer 24 (BaseTopic x)"
    "fitsBuffer 16 (DiscoveryPrefix x)"
  shows "mqttFromJson J (mqttToJson x) = x"
  using assms by (cases x) (simp add: mqttFromJson_def mqttToJson_def)

lemma mtp_round_trip:
  "mtpFromJson J (mtpToJson x) = x"
  by (cases x) (simp add: mtpFromJson_def mtpToJson_def)

lemma security_round_trip:
  assumes "fitsBuffer 16 (WritePin x)"
  shows "securityFromJson J (securityToJson x) = x"
  using assms by (cases x) (simp add: securityFromJson_def securityToJson_def)

lemma capture_round_trip:
  "captureFromJson J (captureToJson x) = x"
  by (cases x) (simp add: captureFromJson_def captureToJson_def)

lemma meter_round_trip:
  assumes "unat (CurrentMilliampPerVolt x) < 2 ^ 31" "unat (VoltageRatioMilli x) < 2 ^ 31"
  shows "meterFromJson J (meterToJson x) = x"
  using assms by (cases x) (simp add: meterFromJson_def meterToJson_def)

lemma pll_round_trip:
  "pllFromJson J (pllToJson x) = x"
  by (cases x) (simp add: pllFromJson_def pllToJson_def)

lemma mppt_round_trip:
  "mpptFromJson J (mpptToJson x) = x\<lparr>RestartDeltaMw := intOr 1000 (RestartDeltaMw x)\<rparr>"
  by (cases x) (simp add: mpptFromJson_def mpptToJson_def intOr_def)

lemma thermal_round_trip:
  "thermalFromJson J (thermalToJson x) = x"
  by (cases x) (simp add: thermalFromJson_def thermalToJson_def)

lemma powerMon_round_trip:
  "powerMonFromJson J (powerMonToJson x) = x\<lparr>ShuntMicroOhm := intOr 10000 (ShuntMicroOhm x)\<rparr>"
  by (cases x) (simp add: powerMonFromJson_def powerMonToJson_def intOr_def)

subsection \<open>Shape of written documents\<close>

lemma submodule_shape: "configShapeMatches J (submoduleToJson hz b x) (submoduleToJson hz b y)"
  by (simp add: submoduleToJson_def)

lemma module2_shape: "configShapeMatches J (module2ToJson x) (module2ToJson y)"
  by (simp add: module2ToJson_def submodule_shape) (simp add: submoduleToJson_def)

lemma pwm_shape: "configShapeMatches J (pwmToJson x) (pwmToJson y)"
  by (simp add: pwmToJson_def submodule_shape module2_shape) (simp add: submoduleToJson_def module2ToJson_def)

lemma asymmetricInduction_shape: "configShapeMatches J (asymmetricInductionToJson x) (asymmetricInductionToJson y)"
  by (simp add: asymmetricInductionToJson_def)

lemma feedback_shape: "configShapeMatches J (feedbackToJson x) (feedbackToJson y)"
  by (simp add: feedbackToJson_def)

lemma faultProtection_shape: "configShapeMatches J (faultProtectionToJson x) (faultProtectionToJson y)"
  by (simp add: faultProtectionToJson_def)

lemma currentLimit_shape: "configShapeMatches J (currentLimitToJson x) (currentLimitToJson y)"
  by (simp add: currentLimitToJson_def)

lemma influx_shape: "configShapeMatches J (influxToJson x) (influxToJson y)"
  by (simp add: influxToJson_def)

lemma mqtt_shape: "configShapeMatches J (mqttToJson x) (mqttToJson y)"
  by (simp add: mqttToJson_def)

lemma mtp_shape: "configShapeMatches J (mtpToJson x) (mtpToJson y)"
  by (simp add: mtpToJson_def)

lemma security_shape: "configShapeMatches J (securityToJson x) (securityToJson y)"
  by (simp add: securityToJson_def)

lemma capture_shape: "configShapeMatches J (captureToJson x) (captureToJson y)"
  by (simp add: captureToJson_def)

lemma meter_shape: "configShapeMatches J (meterToJson x) (meterToJson y)"
  by (simp add: meterToJson_def)

lemma pll_shape: "configShapeMatches J (pllToJson x) (pllToJson y)"
  by (simp add: pllToJson_def)

lemma mppt_shape: "configShapeMatches J (mpptToJson x) (mpptToJson y)"
  by (simp add: mpptToJson_def)

lemma thermal_shape: "configShapeMatches J (thermalToJson x) (thermalToJson y)"
  by (simp add: thermalToJson_def)

lemma powerMon_shape: "configShapeMatches J (powerMonToJson x) (powerMonToJson y)"
  by (simp add: powerMonToJson_def)

lemmas section_shapes = pwm_shape asymmetricInduction_shape feedback_shape faultProtection_shape currentLimit_shape influx_shape mqtt_shape mtp_shape security_shape capture_shape meter_shape pll_shape mppt_shape
  thermal_shape powerMon_shape

lemma section_not_null:
  "pwmToJson p \<noteq> JNull"
  "asymmetricInductionToJson xasy \<noteq> JNull"
  "feedbackToJson xfee \<noteq> JNull"
  "faultProtectionToJson xfau \<noteq> JNull"
  "currentLimitToJson xcur \<noteq> JNull"
  "influxToJson xinf \<noteq> JNull"
  "mqttToJson xmqt \<noteq> JNull"
  "mtpToJson xmtp \<noteq> JNull"
  "securityToJson xsec \<noteq> JNull"
  "captureToJson xcap \<noteq> JNull"
  "meterToJson xmet \<noteq> JNull"
  "pllToJson xpll \<noteq> JNull"
  "mpptToJson xmpp \<noteq> JNull"
  "thermalToJson xthe \<noteq> JNull"
  "powerMonToJson xpow \<noteq> JNull"
  by (simp_all add: pwmToJson_def asymmetricInductionToJson_def feedbackToJson_def faultProtectionToJson_def currentLimitToJson_def
      influxToJson_def mqttToJson_def mtpToJson_def securityToJson_def
      captureToJson_def meterToJson_def pllToJson_def mpptToJson_def
      thermalToJson_def powerMonToJson_def)

lemma sections_shape: "configShapeMatches J (sectionsToJson c) (sectionsToJson d)"
  by (simp add: sectionsToJson_def section_shapes section_not_null Let_def)

lemma written_doc_complete:
  assumes "jMember J doc ''Config'' = sectionsToJson c"
    and "jMember J doc ''SchemaVersion'' = JInt 1 \<or> jMember J doc ''SchemaVersion'' = JNull"
  shows "configDocComplete J doc"
  using assms by (auto simp: configDocComplete_def Let_def configToJson_def sections_shape)

end

section \<open>Whole documents\<close>

text \<open>What every configuration the firmware builds satisfies beside validity: strings are terminated inside
  their buffers, and the duty cycles of channels without a pin are at their default.\<close>

definition inBuffers :: "MainConfig \<Rightarrow> bool" where
  "inBuffers c \<longleftrightarrow> fitsBuffer 40 (ixHost (Influx c))
     \<and> fitsBuffer 24 (ixOrg (Influx c)) \<and> fitsBuffer 32 (ixBucket (Influx c))
     \<and> fitsBuffer 96 (ixToken (Influx c)) \<and> fitsBuffer 40 (mqHost (Mqtt c))
     \<and> fitsBuffer 32 (mqUsername (Mqtt c)) \<and> fitsBuffer 64 (mqPassword (Mqtt c))
     \<and> fitsBuffer 24 (BaseTopic (Mqtt c)) \<and> fitsBuffer 16 (DiscoveryPrefix (Mqtt c))
     \<and> fitsBuffer 16 (WritePin (Security c))
     \<and> DutyCycle (ChannelB (Sm21 (Tm2 (Pwm c)))) = 0
     \<and> DutyCycle (ChannelB (Sm40 (Tm4 (Pwm c)))) = 0
     \<and> DutyCycle (ChannelB (Sm41 (Tm4 (Pwm c)))) = 0"

text \<open>The five unsigned settings that no rule keeps below \<open>2\<^sup>3\<^sup>1\<close>, and what the reader makes of them.\<close>

definition intSettings :: "MainConfig \<Rightarrow> bool" where
  "intSettings c \<longleftrightarrow> unat (SetpointMillivolts (Feedback c)) < 2 ^ 31
     \<and> unat (FullScaleMillivolts (Feedback c)) < 2 ^ 31 \<and> unat (RestartDeltaMw (Mppt c)) < 2 ^ 31
     \<and> unat (ShuntMicroOhm (PowerMon c)) < 2 ^ 31 \<and> unat (SpwmModulationFrequency (Tm2 (Pwm c))) < 2 ^ 31"

definition readFeedback :: "FeedbackConfig \<Rightarrow> FeedbackConfig" where
  "readFeedback x = x\<lparr>SetpointMillivolts := intOr 0 (SetpointMillivolts x),
     FullScaleMillivolts := intOr 3300 (FullScaleMillivolts x)\<rparr>"

definition readModule2 :: "Module2Config \<Rightarrow> Module2Config" where
  "readModule2 m = m\<lparr>SpwmModulationFrequency := intOr 50 (SpwmModulationFrequency m)\<rparr>"

definition readMppt :: "MpptConfig \<Rightarrow> MpptConfig" where
  "readMppt x = x\<lparr>RestartDeltaMw := intOr 1000 (RestartDeltaMw x)\<rparr>"

definition readPowerMon :: "PowerMonConfig \<Rightarrow> PowerMonConfig" where
  "readPowerMon x = x\<lparr>ShuntMicroOhm := intOr 10000 (ShuntMicroOhm x)\<rparr>"

definition readable :: "MainConfig \<Rightarrow> MainConfig" where
  "readable c = c\<lparr>Pwm := (Pwm c)\<lparr>Tm2 := readModule2 (Tm2 (Pwm c))\<rparr>, Feedback := readFeedback (Feedback c),
     Mppt := readMppt (Mppt c), PowerMon := readPowerMon (PowerMon c)\<rparr>"

text \<open>The configuration a saved one comes back as: the two validated sections may reject a default.\<close>

definition reloaded :: "MainConfig \<Rightarrow> MainConfig" where
  "reloaded c = (readable c)\<lparr>
     Mppt := fst (validateMppt (SoftStartMs (Tm2 (Pwm c))) (fbEnabled (Feedback c)) (readMppt (Mppt c))),
     PowerMon := fst (validatePowerMon (readPowerMon (PowerMon c)))\<rparr>"

lemmas read_defs = readFeedback_def readModule2_def readMppt_def readPowerMon_def

text \<open>The cells' frequencies are not stored: they follow the carrier when the document is validated.\<close>

definition forgetCells :: "Module2Config \<Rightarrow> Module2Config" where
  "forgetCells m = m\<lparr>Sm20 := (Sm20 m)\<lparr>PwmFrequency := DefaultModulationCarrierHz\<rparr>,
     Sm21 := (Sm21 m)\<lparr>PwmFrequency := DefaultModulationCarrierHz\<rparr>,
     Sm22 := (Sm22 m)\<lparr>PwmFrequency := DefaultModulationCarrierHz\<rparr>,
     Sm23 := (Sm23 m)\<lparr>PwmFrequency := DefaultModulationCarrierHz\<rparr>\<rparr>"

definition storedConfig :: "MainConfig \<Rightarrow> MainConfig" where
  "storedConfig c = c\<lparr>Pwm := (Pwm c)\<lparr>Tm2 := forgetCells (Tm2 (Pwm c))\<rparr>\<rparr>"

lemma followCarrier_forget:
  "settledCell n hz s \<Longrightarrow> fst (validateCell n hz (s\<lparr>PwmFrequency := f\<rparr>)) = s"
  by (cases s) (auto simp: validateCell_def followCarrier_def sanitisePair_def clampDeadTime_def fst_correct
      settledCell_def settledOutput_def deadTime_check not_less)

lemma validateModule2_forget:
  assumes "settledModule2 ceil m" shows "fst (validateModule2 ceil (forgetCells m)) = m"
proof -
  have 1: "\<not> carrierInvalid ceil (forgetCells m)"
    using assms by (simp add: settledModule2_def carrierInvalid_def forgetCells_def not_less
        MinRepresentablePwmFrequencyHz_def)
  then have c: "clampCarrier ceil (forgetCells m) = (forgetCells m, False)"
    by (simp add: clampCarrier_def correct_def)
  have n: "requireNyquist m = (m, False)" "clampCells m = (m, False)"
    using assms by (auto simp: requireNyquist_def clampCells_def correct_def settledModule2_def not_less)
  have cells: "settledCell PairSm20 (SpwmCarrierFrequency m) (Sm20 m)"
    "settledCell PairSm21 (SpwmCarrierFrequency m) (Sm21 m)"
    "settledCell PairSm22 (SpwmCarrierFrequency m) (Sm22 m)"
    "settledCell PairSm23 (SpwmCarrierFrequency m) (Sm23 m)"
    using assms by (simp_all add: settledModule2_def)
  have upd: "(forgetCells m)\<lparr>Sm20 := Sm20 m, Sm21 := Sm21 m, Sm22 := Sm22 m, Sm23 := Sm23 m\<rparr> = m"
    by (cases m) (simp add: forgetCells_def)
  have cf: "Sm20 (forgetCells m) = (Sm20 m)\<lparr>PwmFrequency := DefaultModulationCarrierHz\<rparr>"
    "Sm21 (forgetCells m) = (Sm21 m)\<lparr>PwmFrequency := DefaultModulationCarrierHz\<rparr>"
    "Sm22 (forgetCells m) = (Sm22 m)\<lparr>PwmFrequency := DefaultModulationCarrierHz\<rparr>"
    "Sm23 (forgetCells m) = (Sm23 m)\<lparr>PwmFrequency := DefaultModulationCarrierHz\<rparr>"
    "SpwmCarrierFrequency (forgetCells m) = SpwmCarrierFrequency m"
    by (simp_all add: forgetCells_def)
  show ?thesis
    by (simp add: validateModule2_def c Let_def cf followCarrier_forget [OF cells(1)]
        followCarrier_forget [OF cells(2)] followCarrier_forget [OF cells(3)]
        followCarrier_forget [OF cells(4)] upd n)
qed

lemma validateConfig_stored:
  assumes "settledConfig c" shows "fst (validateConfig (storedConfig c)) = c"
proof -
  let ?s = "storedConfig c"
  have ceil: "carrierCeiling ?s = carrierCeiling c"
    by (simp add: carrierCeiling_def carrierInterruptRequired_def storedConfig_def forgetCells_def)
  have inv: "carrierInvalid (carrierCeiling c) (Tm2 (Pwm ?s)) = carrierInvalid (carrierCeiling c) (Tm2 (Pwm c))"
    by (simp add: carrierInvalid_def storedConfig_def forgetCells_def)
  have soft: "SoftStartMs (Tm2 (Pwm ?s)) = SoftStartMs (Tm2 (Pwm c))"
    by (simp add: storedConfig_def forgetCells_def)
  have p: "settledPwm (carrierCeiling c) (Pwm c)" using assms by (simp add: settledConfig_def)
  have pwm: "fst (validatePwm (carrierCeiling c) (Pwm ?s)) = Pwm c"
    using p validateModule2_forget [of "carrierCeiling c" "Tm2 (Pwm c)"]
    by (simp add: settledPwm_def validatePwm_def validateFixed_id refuseSync_def fst_correct storedConfig_def)
  have same: "Feedback ?s = Feedback c" "Pll ?s = Pll c" "CurrentLimit ?s = CurrentLimit c" "Mppt ?s = Mppt c"
    "Mqtt ?s = Mqtt c" "Meter ?s = Meter c" "PowerMon ?s = PowerMon c"
    "AsymmetricInduction ?s = AsymmetricInduction c" "FaultProtection ?s = FaultProtection c"
    "Influx ?s = Influx c" "Mtp ?s = Mtp c" "Security ?s = Security c" "Capture ?s = Capture c"
    "Thermal ?s = Thermal c"
    by (simp_all add: storedConfig_def)
  note s = validateConfig_sections [of ?s, unfolded ceil inv pwm same soft]
  note t = validateConfig_sections [of c, unfolded validatePwm_id [OF p] fst_conv]
  have "fst (validateConfig ?s) = fst (validateConfig c)"
    by (intro MainConfig.equality) (simp_all add: s t)
  then show ?thesis using validateConfig_id(1) [OF assms] by simp
qed

lemma readModule2_id: "unat (SpwmModulationFrequency m) < 2 ^ 31 \<Longrightarrow> readModule2 m = m"
  by (simp add: readModule2_def intOr_id)

lemma readModule2_settled:
  assumes "settledModule2 ceil m" "ceil \<le> 1000000"
  shows "settledModule2 ceil (readModule2 m)"
proof (cases "unat (SpwmModulationFrequency m) < 2 ^ 31")
  case True
  then show ?thesis using assms(1) by (simp add: readModule2_id)
next
  case False
  have "SpwmCarrierFrequency m \<le> 1000000" using assms by (auto simp: settledModule2_def)
  then have "unat (SpwmCarrierFrequency m div 2) < 2 ^ 31" by (simp add: word_le_nat_alt unat_div)
  then have "\<not> SpwmModulationFrequency m \<le> SpwmCarrierFrequency m div 2" using False by (simp add: word_le_nat_alt)
  then show ?thesis using assms(1) by (auto simp: settledModule2_def readModule2_def ddsDriven_def)
qed

lemma settled_carrier: "settledConfig c \<Longrightarrow> unat (SpwmCarrierFrequency (Tm2 (Pwm c))) \<le> 1000000"
  using ceil_bounds(2) [of c] by (auto simp: settledConfig_def settledPwm_def settledModule2_def word_le_nat_alt)

lemma pll_reference_fits: "settledConfig c \<Longrightarrow> plEnabled (Pll c) \<Longrightarrow> readModule2 (Tm2 (Pwm c)) = Tm2 (Pwm c)"
proof (rule readModule2_id)
  assume "settledConfig c" "plEnabled (Pll c)"
  then have "SpwmModulationFrequency (Tm2 (Pwm c)) \<le> ucast (MaxHz (Pll c))"
    by (simp add: settledConfig_def pllAllowed_def)
  then have "unat (SpwmModulationFrequency (Tm2 (Pwm c))) \<le> unat (MaxHz (Pll c))"
    by (simp add: word_le_nat_alt unat_ucast_up)
  then show "unat (SpwmModulationFrequency (Tm2 (Pwm c))) < 2 ^ 31"
    by (rule order.strict_trans1) (rule order.strict_trans [OF word_size_bounds(2)], simp)
qed

text \<open>A calibration in range keeps both of its factors small.\<close>

lemma meter_factors:
  assumes "settledMeter m"
  shows "unat (CurrentMilliampPerVolt m) < 2 ^ 31" "unat (VoltageRatioMilli m) < 2 ^ 31"
proof -
  have "4095 * ((3300 / 4095) * of_nat (unat (VoltageRatioMilli m)) / 1000) \<le> (4294967295 :: rat)"
    "4095 * ((3300 / 4095) * of_nat (unat (CurrentMilliampPerVolt m)) / 1000) \<le> (4294967295 :: rat)"
    using assms unfolding settledMeter_def meterCalibrationValid_def Let_def by blast+
  then have "of_nat (unat (VoltageRatioMilli m)) < (2147483648 :: rat)"
    "of_nat (unat (CurrentMilliampPerVolt m)) < (2147483648 :: rat)" by (simp_all add: field_simps)
  then show "unat (CurrentMilliampPerVolt m) < 2 ^ 31" "unat (VoltageRatioMilli m) < 2 ^ 31"
    by (simp_all only: of_nat_less_iff [symmetric, where 'a = rat] of_nat_numeral of_nat_power) simp_all
qed

lemma read_frame [simp]:
  "carrierCeiling (storedConfig c) = carrierCeiling c" "carrierCeiling (readable c) = carrierCeiling c"
  "SoftStartMs (readModule2 m) = SoftStartMs m" "fbEnabled (readFeedback f) = fbEnabled f"
  "carrierInvalid ceil (readModule2 m) = carrierInvalid ceil m" "DeadTimeCompensation (readModule2 m) = DeadTimeCompensation m"
  "CarrierDitherMode (readModule2 m) = CarrierDitherMode m"
  by (simp_all add: carrierCeiling_def carrierInterruptRequired_def storedConfig_def forgetCells_def readable_def
      readModule2_def readFeedback_def carrierInvalid_def)

lemma validateConfig_readable:
  assumes "settledConfig c" shows "fst (validateConfig (storedConfig (readable c))) = reloaded c"
proof -
  define e where "e = (readable c)\<lparr>Mppt := Mppt c, PowerMon := PowerMon c\<rparr>"
  have "carrierCeiling (x\<lparr>Mppt := a, PowerMon := b\<rparr>) = carrierCeiling x" for x a b
    by (simp add: carrierCeiling_def carrierInterruptRequired_def)
  then have ceil: "carrierCeiling e = carrierCeiling c" "carrierCeiling (storedConfig e) = carrierCeiling c"
    by (simp_all add: e_def)
  have p: "settledPwm (carrierCeiling c) (Pwm c)" using assms by (simp add: settledConfig_def)
  then have "settledPwm (carrierCeiling c) (Pwm e)"
    using readModule2_settled [OF _ ceil_bounds(2)] by (simp add: settledPwm_def e_def readable_def)
  moreover have "pllAllowed (Feedback e) (Tm2 (Pwm e)) (Pll e)" if "plEnabled (Pll c)"
    using assms that pll_reference_fits [OF assms that]
    by (simp add: settledConfig_def pllAllowed_def e_def readable_def)
  ultimately have "settledConfig e"
    using assms by (simp add: settledConfig_def ceil) (simp add: e_def readable_def)
  note e = validateConfig_stored [OF this]
  let ?v = "fst (validateConfig (storedConfig (readable c)))"
  note s = validateConfig_sections [of "storedConfig (readable c)"] and t = validateConfig_sections [of "storedConfig e", unfolded e]
  have same: "Pwm (storedConfig (readable c)) = Pwm (storedConfig e)" "Feedback (storedConfig (readable c)) = Feedback (storedConfig e)"
    "Pll (storedConfig (readable c)) = Pll (storedConfig e)" "CurrentLimit (storedConfig (readable c)) = CurrentLimit (storedConfig e)"
    "Mqtt (storedConfig (readable c)) = Mqtt (storedConfig e)" "Meter (storedConfig (readable c)) = Meter (storedConfig e)"
    "AsymmetricInduction (storedConfig (readable c)) = AsymmetricInduction (storedConfig e)"
    "FaultProtection (storedConfig (readable c)) = FaultProtection (storedConfig e)"
    "Influx (storedConfig (readable c)) = Influx (storedConfig e)" "Mtp (storedConfig (readable c)) = Mtp (storedConfig e)"
    "Security (storedConfig (readable c)) = Security (storedConfig e)" "Capture (storedConfig (readable c)) = Capture (storedConfig e)"
    "Thermal (storedConfig (readable c)) = Thermal (storedConfig e)"
    by (simp_all add: storedConfig_def e_def)
  have cc: "carrierCeiling (storedConfig (readable c)) = carrierCeiling (storedConfig e)" by (simp add: ceil)
  have eq: "Pwm ?v = Pwm e" "Pll ?v = Pll e" "CurrentLimit ?v = CurrentLimit e" "Mqtt ?v = Mqtt e" "Meter ?v = Meter e"
    "AsymmetricInduction ?v = AsymmetricInduction e" "Feedback ?v = Feedback e" "FaultProtection ?v = FaultProtection e"
    "Influx ?v = Influx e" "Mtp ?v = Mtp e" "Security ?v = Security e" "Capture ?v = Capture e" "Thermal ?v = Thermal e"
    by (simp_all only: s t same cc)
  have own: "Mppt ?v = Mppt (reloaded c)" "PowerMon ?v = PowerMon (reloaded c)"
    unfolding s(4,7) by (simp_all add: reloaded_def storedConfig_def forgetCells_def readable_def readModule2_def readFeedback_def)
  show ?thesis
    by (intro MainConfig.equality) (simp_all add: eq own, simp_all add: e_def reloaded_def)
qed

lemma validateMppt_read:
  assumes "settledMppt soft fb m"
  shows "fst (validateMppt soft fb (readMppt m)) =
    (if unat (RestartDeltaMw m) < 2 ^ 31 then m
     else m\<lparr>RestartDeltaMw := 1000, DeadbandMw := if 1000 \<le> DeadbandMw m then 10 else DeadbandMw m\<rparr>)"
proof (cases "unat (RestartDeltaMw m) < 2 ^ 31")
  case True
  then show ?thesis using validateMppt_id(1) [OF assms] by (simp add: readMppt_def intOr_id)
next
  case big: False
  define x where "x = m\<lparr>RestartDeltaMw := 1000\<rparr>"
  have x: "readMppt m = x" using big by (simp add: readMppt_def intOr_def x_def)
  have u: "1000 \<le> DeadbandMw m \<longleftrightarrow> \<not> (ucast (DeadbandMw m) :: u32) < 1000" by (auto simp: word_less_nat_alt word_le_nat_alt)
  show ?thesis
  proof (cases "1000 \<le> DeadbandMw m")
    case False
    then have "settledMppt soft fb x" using assms u by (simp add: settledMppt_def x_def)
    then show ?thesis using validateMppt_id(1) False big x by (simp add: x_def)
  next
    case True
    have "fst (mpptInterval soft x) = (fst (mpptInterval soft m))\<lparr>RestartDeltaMw := 1000\<rparr>"
      by (simp add: x_def mpptInterval_def Let_def fst_correct)
    then have i: "fst (mpptInterval soft x) = x" using mpptInterval_id(1) [OF assms] by (simp add: x_def)
    have "\<not> (MinIndexMilli m \<ge> MaxIndexMilli m \<or> MaxIndexMilli m > MaxModulationIndexMilli)"
      "\<not> (MinStepMilli m < 1 \<or> MinStepMilli m > StepMilli m \<or> StepMilli m > 200)"
      using assms by (auto simp: settledMppt_def)
    then have l: "fst (mpptLimits x) = m\<lparr>RestartDeltaMw := 1000, DeadbandMw := 10\<rparr>"
      using True u by (simp add: mpptLimits_def fst_correct x_def)
    show ?thesis
      using True big assms by (simp add: x validateMppt_def i l fst_correct settledMppt_def)
  qed
qed

lemma validatePowerMon_read:
  assumes "settledPowerMon p"
  shows "fst (validatePowerMon (readPowerMon p)) =
    (if unat (ShuntMicroOhm p) < 2 ^ 31 then p
     else p\<lparr>ShuntMicroOhm := 10000,
            CurrentLsbMicroAmp := if ina226CalValid 10000 (ucast (CurrentLsbMicroAmp p)) then CurrentLsbMicroAmp p else 50\<rparr>)"
proof (cases "unat (ShuntMicroOhm p) < 2 ^ 31")
  case True
  then show ?thesis using validatePowerMon_id [OF assms] by (simp add: readPowerMon_def intOr_id)
next
  case False
  have "\<not> pmAddress p < 0x40" "\<not> pmAddress p > 0x4F" "\<not> pmIntervalMs p < 250"
    using assms by (simp_all add: settledPowerMon_def not_less)
  then show ?thesis using False by (simp add: readPowerMon_def intOr_def validatePowerMon_def fst_correct)
qed

text \<open>What a saved configuration comes back as, spelled out.\<close>

lemma reloaded_explicit:
  assumes "settledConfig c"
  shows "reloaded c = c\<lparr>
    Pwm := (Pwm c)\<lparr>Tm2 := (Tm2 (Pwm c))\<lparr>SpwmModulationFrequency := intOr 50 (SpwmModulationFrequency (Tm2 (Pwm c)))\<rparr>\<rparr>,
    Feedback := (Feedback c)\<lparr>SetpointMillivolts := intOr 0 (SetpointMillivolts (Feedback c)),
      FullScaleMillivolts := intOr 3300 (FullScaleMillivolts (Feedback c))\<rparr>,
    Mppt := (if unat (RestartDeltaMw (Mppt c)) < 2 ^ 31 then Mppt c
      else (Mppt c)\<lparr>RestartDeltaMw := 1000,
             DeadbandMw := if 1000 \<le> DeadbandMw (Mppt c) then 10 else DeadbandMw (Mppt c)\<rparr>),
    PowerMon := (if unat (ShuntMicroOhm (PowerMon c)) < 2 ^ 31 then PowerMon c
      else (PowerMon c)\<lparr>ShuntMicroOhm := 10000, CurrentLsbMicroAmp :=
             if ina226CalValid 10000 (ucast (CurrentLsbMicroAmp (PowerMon c))) then CurrentLsbMicroAmp (PowerMon c) else 50\<rparr>)\<rparr>"
  using assms
  by (simp add: reloaded_def readable_def readModule2_def readFeedback_def settledConfig_def validateMppt_read validatePowerMon_read)

lemma reloaded_iff:
  assumes "settledConfig c" shows "reloaded c = c \<longleftrightarrow> intSettings c"
proof
  assume i: "intSettings c"
  have "readable c = c" using i by (simp add: readable_def read_defs intSettings_def intOr_id)
  moreover have "readMppt (Mppt c) = Mppt c" "readPowerMon (PowerMon c) = PowerMon c"
    using i by (simp_all add: read_defs intSettings_def intOr_id)
  ultimately show "reloaded c = c"
    using assms by (simp add: reloaded_def settledConfig_def validateMppt_id(1) validatePowerMon_id)
next
  assume r: "reloaded c = c"
  have m: "RestartDeltaMw (fst (validateMppt s f (readMppt x))) = intOr 1000 (RestartDeltaMw x)
      \<or> RestartDeltaMw (fst (validateMppt s f (readMppt x))) = 1000" for s f x
    by (auto simp: validateMppt_def mpptLimits_def fst_correct readMppt_def)
  have p: "ShuntMicroOhm (fst (validatePowerMon (readPowerMon x))) = intOr 10000 (ShuntMicroOhm x)
      \<or> ShuntMicroOhm (fst (validatePowerMon (readPowerMon x))) = 10000" for x
    by (auto simp: validatePowerMon_def fst_correct readPowerMon_def)
  have "SetpointMillivolts (Feedback c) = intOr 0 (SetpointMillivolts (Feedback c))"
    "FullScaleMillivolts (Feedback c) = intOr 3300 (FullScaleMillivolts (Feedback c))"
    "SpwmModulationFrequency (Tm2 (Pwm c)) = intOr 50 (SpwmModulationFrequency (Tm2 (Pwm c)))"
    by (subst r [symmetric], simp add: reloaded_def readable_def read_defs)+
  moreover have "RestartDeltaMw (Mppt c) = intOr 1000 (RestartDeltaMw (Mppt c)) \<or> RestartDeltaMw (Mppt c) = 1000"
    using m [of "SoftStartMs (Tm2 (Pwm c))" "fbEnabled (Feedback c)" "Mppt c"] arg_cong [OF r, of Mppt] by (simp add: reloaded_def)
  moreover have "ShuntMicroOhm (PowerMon c) = intOr 10000 (ShuntMicroOhm (PowerMon c)) \<or> ShuntMicroOhm (PowerMon c) = 10000"
    using p [of "PowerMon c"] arg_cong [OF r, of PowerMon] by (simp add: reloaded_def)
  ultimately show "intSettings c"
    by (auto simp: intSettings_def intOr_def split: if_splits)
qed

context json_library
begin

lemma submodule_forgets:
  "submoduleFromJson J TU32 hz hasB (submoduleToJson False hasB s) s0
    = s\<lparr>PwmFrequency := hz, ChannelB := (if hasB then ChannelB s else ChannelB s0)\<rparr>"
  by (simp add: submodule_round_trip)

lemma module2_round_trip:
  assumes "\<not> DeadTimeCompensation m" "unat (SpwmCarrierFrequency m) < 2 ^ 31"
    "DutyCycle (ChannelB (Sm21 m)) = 0"
  shows "module2FromJson J (module2ToJson m) defaultModule2 = forgetCells (readModule2 m)"
proof -
  have b: "ChannelB (Sm21 m) = \<lparr>DutyCycle = 0\<rparr>" using assms(3) by (cases "ChannelB (Sm21 m)") simp
  have s: "(Sm21 m)\<lparr>PwmFrequency := f, ChannelB := \<lparr>DutyCycle = 0\<rparr>\<rparr> = (Sm21 m)\<lparr>PwmFrequency := f\<rparr>" for f
    using b by (cases "Sm21 m") simp
  show ?thesis
    using assms(1,2) s
    by (cases m) (simp add: module2FromJson_def module2ToJson_def submodule_forgets forgetCells_def
        defaultModule2_def defaultSubmodule_def readModule2_def intOr_def)
qed

lemma submodule_keeps:
  assumes "T = TInt \<Longrightarrow> unat (PwmFrequency s) < 2 ^ 31" "T = TInt \<or> T = TU32"
    and "\<not> hasB \<Longrightarrow> DutyCycle (ChannelB s) = 0"
  shows "submoduleFromJson J T dflt hasB (submoduleToJson True hasB s) (defaultSubmodule hz) = s"
proof -
  have "\<not> hasB \<Longrightarrow> \<lparr>DutyCycle = 0\<rparr> = ChannelB s" using assms(3) by (cases "ChannelB s") simp
  then show ?thesis
    using assms(1,2) by (subst submodule_round_trip) (auto simp: defaultSubmodule_def)
qed

lemma pwm_eta:
  "\<lparr>Tm1 = \<lparr>Sm13 = Sm13 (Tm1 p)\<rparr>, Tm2 = m, Tm3 = \<lparr>Sm31 = Sm31 (Tm3 p)\<rparr>,
     Tm4 = \<lparr>Sm40 = Sm40 (Tm4 p), Sm41 = Sm41 (Tm4 p), Sm42 = Sm42 (Tm4 p)\<rparr>,
     PrintRegs = PrintRegs p, SyncPwm = SyncPwm p, Verbose = Verbose p\<rparr> = p\<lparr>Tm2 := m\<rparr>"
  by (cases p; cases "Tm1 p"; cases "Tm3 p"; cases "Tm4 p") simp

lemma configFromJson_written:
  assumes set: "settledConfig c" and st: "inBuffers c" and doc: "jMember J doc ''Config'' = sectionsToJson c"
  shows "configFromJson J doc defaultConfig = storedConfig (readable c)"
proof -
  have p: "settledPwm (carrierCeiling c) (Pwm c)" "\<not> DeadTimeCompensation (Tm2 (Pwm c))"
    using set by (simp_all add: settledConfig_def)
  have hz: "unat (SpwmCarrierFrequency (Tm2 (Pwm c))) < 2 ^ 31" using settled_carrier [OF set] by simp
  have fz: "unat (PwmFrequency s) < 2 ^ 31" if "settledFixed n s" for n s
    using that by (auto simp: settledFixed_def word_le_nat_alt)
  have f: "settledFixed PairSm31 (Sm31 (Tm3 (Pwm c)))" "settledFixed PairSm40 (Sm40 (Tm4 (Pwm c)))"
    "settledFixed PairSm41 (Sm41 (Tm4 (Pwm c)))" "settledFixed PairSm42 (Sm42 (Tm4 (Pwm c)))"
    and sync: "\<not> SyncPwm (Pwm c)"
    using p(1) by (simp_all add: settledPwm_def)
  have d: "DutyCycle (ChannelB (Sm21 (Tm2 (Pwm c)))) = 0" "DutyCycle (ChannelB (Sm40 (Tm4 (Pwm c)))) = 0"
    "DutyCycle (ChannelB (Sm41 (Tm4 (Pwm c)))) = 0"
    using st by (simp_all add: inBuffers_def)
  note m2 = module2_round_trip [OF p(2) hz d(1)]
  have sub: "submoduleFromJson J TU32 dflt True (submoduleToJson True True s) (defaultSubmodule h) = s"
    "unat (PwmFrequency s) < 2 ^ 31 \<Longrightarrow>
      submoduleFromJson J TInt dflt True (submoduleToJson True True s) (defaultSubmodule h) = s"
    "unat (PwmFrequency s) < 2 ^ 31 \<Longrightarrow> DutyCycle (ChannelB s) = 0 \<Longrightarrow>
      submoduleFromJson J TInt dflt False (submoduleToJson True False s) (defaultSubmodule h) = s" for s dflt h
    by (rule submodule_keeps; simp)+
  have pwm: "pwmFromJson J (pwmToJson (Pwm c)) defaultPwm = (Pwm c)\<lparr>Tm2 := forgetCells (readModule2 (Tm2 (Pwm c)))\<rparr>"
    using sync d(2,3) fz [OF f(1)] fz [OF f(2)] fz [OF f(3)] fz [OF f(4)] pwm_eta [of "Pwm c"]
    by (simp add: pwmFromJson_def pwmToJson_def Let_def defaultPwm_def m2 sub)
  have cl: "FilterCount (CurrentLimit c) = 0" "FilterPeriod (CurrentLimit c) = 0"
    using set by (simp_all add: settledConfig_def settledCurrentLimit_def)
  have me: "settledMeter (Meter c)" using set by (simp add: settledConfig_def)
  show ?thesis
    using st cl meter_factors [OF me]
    by (simp add: configFromJson_def doc Let_def sectionsToJson_def pwm defaultConfig_def inBuffers_def
        asymmetricInduction_round_trip feedback_round_trip faultProtection_round_trip
        currentLimit_round_trip influx_round_trip mqtt_round_trip mtp_round_trip security_round_trip
        capture_round_trip meter_round_trip pll_round_trip mppt_round_trip thermal_round_trip
        powerMon_round_trip storedConfig_def readable_def readFeedback_def readMppt_def readPowerMon_def)
qed

lemma config_reads_back:
  assumes "settledConfig c" "inBuffers c" "jMember J doc ''Config'' = sectionsToJson c"
  shows "fst (validateConfig (configFromJson J doc defaultConfig)) = reloaded c"
  using configFromJson_written [OF assms] validateConfig_readable [OF assms(1)] by simp

end

section \<open>Secrets\<close>

definition blankSecrets :: "MainConfig \<Rightarrow> MainConfig" where
  "blankSecrets c = c\<lparr>Influx := (Influx c)\<lparr>ixToken := ''''\<rparr>, Security := \<lparr>WritePin = ''''\<rparr>,
     Mqtt := (Mqtt c)\<lparr>mqPassword := ''''\<rparr>\<rparr>"

lemma blank_settled: "settledConfig (blankSecrets c) = settledConfig c"
proof -
  have "carrierCeiling (blankSecrets c) = carrierCeiling c"
    by (simp add: carrierCeiling_def carrierInterruptRequired_def blankSecrets_def)
  then show ?thesis by (simp add: settledConfig_def blankSecrets_def settledMqtt_def)
qed

lemma blank_inBuffers: "inBuffers c \<Longrightarrow> inBuffers (blankSecrets c)"
  by (simp add: inBuffers_def blankSecrets_def fitsBuffer_def)

lemma preserve_blank:
  assumes "inBuffers c"
  shows "preserveSecrets (storedConfig (readable (blankSecrets c))) c = storedConfig (readable c)"
proof -
  have "fitsBuffer 96 (ixToken (Influx c))" "fitsBuffer 16 (WritePin (Security c))"
    "fitsBuffer 64 (mqPassword (Mqtt c))"
    using assms by (simp_all add: inBuffers_def)
  moreover have "\<lparr>WritePin = WritePin (Security c)\<rparr> = Security c" by (cases "Security c") simp
  ultimately show ?thesis
    by (cases c; cases "Influx c"; cases "Mqtt c")
      (simp add: preserveSecrets_def keepIfEmpty_def storedConfig_def blankSecrets_def readable_def)
qed

context json_library
begin

lemma redact_written: "redactSecrets J (configToJson c) = configToJson (blankSecrets c)"
  by (simp add: redactSecrets_def configToJson_def sectionsToJson_def Let_def assign_obj assign_nil
      influxToJson_def securityToJson_def mqttToJson_def blankSecrets_def)

lemma member_written: "jMember J (configToJson c) ''Config'' = sectionsToJson c"
  "jMember J (configToJson c) ''SchemaVersion'' = JInt 1"
  by (simp_all add: configToJson_def)

lemma text_round_trip:
  assumes "settledConfig c" "inBuffers c"
  shows "\<exists>doc. deserializeJson J (serializeJson J (configToJson c)) = Some doc
    \<and> configDocComplete J doc \<and> fst (validateConfig (configFromJson J doc defaultConfig)) = reloaded c"
  using config_reads_back [OF assms member_written(1)] written_doc_complete [OF member_written(1)]
    member_written(2) parse_print by (metis configToJson_def)

lemma edit_round_trip:
  assumes "settledConfig c" "inBuffers c"
  shows "fst (validateConfig (preserveSecrets
      (configFromJson J (redactSecrets J (configToJson c)) defaultConfig) c)) = reloaded c"
proof -
  have "configFromJson J (redactSecrets J (configToJson c)) defaultConfig = storedConfig (readable (blankSecrets c))"
    unfolding redact_written using assms
    by (intro configFromJson_written member_written) (simp_all add: blank_settled blank_inBuffers)
  then show ?thesis
    using validateConfig_readable [OF assms(1)] preserve_blank [OF assms(2)] by simp
qed

end

section \<open>A library that keeps the promises\<close>

text \<open>Association lists for objects; the text of a value is its number in unary, ended by a one.\<close>

instance json :: countable
  by countable_datatype

definition refMember :: "json \<Rightarrow> string \<Rightarrow> json" where
  "refMember v k = (case v of JObj kvs \<Rightarrow> (case map_of kvs k of Some w \<Rightarrow> w | None \<Rightarrow> JNull) | _ \<Rightarrow> JNull)"

fun refAssign :: "json \<Rightarrow> string list \<Rightarrow> json \<Rightarrow> json" where
  "refAssign d [] v = v"
| "refAssign (JObj kvs) (k # ks) v = JObj (AList.update k (refAssign (refMember (JObj kvs) k) ks v) kvs)"
| "refAssign d (k # ks) v = JObj [(k, refAssign JNull ks v)]"

definition refPrint :: "json \<Rightarrow> byte list" where
  "refPrint v = replicate (to_nat v) 0 @ [1]"

definition refParse :: "byte list \<Rightarrow> json option" where
  "refParse bs = (if bs \<noteq> [] \<and> last bs = 1 \<and> (\<forall>b\<in>set (butlast bs). b = 0)
     then Some (from_nat (length bs - 1)) else None)"

definition refJson :: JsonLib where
  "refJson = \<lparr>jMember = refMember, jAssign = refAssign, serializeJson = refPrint, deserializeJson = refParse\<rparr>"

interpretation refJson: json_library refJson
proof
  show "deserializeJson refJson (take n (serializeJson refJson (JObj kvs))) = None"
    if "n < length (serializeJson refJson (JObj kvs))" for n kvs
  proof -
    have n: "n \<le> to_nat (JObj kvs)" using that by (simp add: refJson_def refPrint_def)
    then have "take n (refPrint (JObj kvs)) = replicate n 0" by (simp add: refPrint_def)
    moreover have "n \<noteq> 0 \<Longrightarrow> last (replicate n (0 :: byte)) = 0" by simp
    ultimately show ?thesis by (cases n) (simp_all add: refJson_def refParse_def)
  qed
qed (auto simp: refJson_def refMember_def refPrint_def refParse_def split: option.splits)

lemma default_settled: "settledConfig defaultConfig"
  by (simp add: settledConfig_def settledPwm_def settledFixed_def settledOutput_def settledModule2_def
      settledCell_def settledCurrentLimit_def settledPllRanges_def settledMppt_def settledMqtt_def
      settledMeter_def settledPowerMon_def defaultConfig_def defaultPwm_def defaultModule2_def
      defaultSubmodule_def defaultCurrentLimit_def defaultPll_def defaultMppt_def defaultMqtt_def
      defaultMeter_def defaultPowerMon_def defaultFeedback_def defaultCapture_def defaultThermal_def
      Let_def carrierCeiling_def carrierInterruptRequired_def acmpRouteForPin_def const_defs
      pairModeSanitised_def pairIsComplementary_def meterDefault_valid powerMonDefault_valid)

lemma default_inBuffers: "inBuffers defaultConfig"
  by (simp add: inBuffers_def fitsBuffer_def defaultConfig_def defaultPwm_def defaultModule2_def
      defaultSubmodule_def defaultInflux_def defaultMqtt_def defaultSecurity_def defaultFeedback_def
      defaultMeter_def defaultMppt_def defaultPowerMon_def defaultAsymmetricInduction_def Let_def)

lemma default_reloaded: "reloaded defaultConfig = defaultConfig"
  by (simp add: reloaded_iff [OF default_settled] intSettings_def)
    (simp add: defaultConfig_def defaultFeedback_def defaultMppt_def defaultPowerMon_def defaultPwm_def defaultModule2_def Let_def)

section \<open>Every configuration the firmware builds is in its buffers\<close>

lemma read_inBuffers: "inBuffers c \<Longrightarrow> inBuffers (configFromJson J doc c)"
  by (simp add: inBuffers_def configFromJson_def Let_def influxFromJson_def mqttFromJson_def securityFromJson_def
      copyConfigString_fits pwmFromJson_def module2FromJson_def submoduleFromJson_def)

lemma validate_duties [simp]:
  "ChannelB (fst (validateFixed n s)) = ChannelB s" "ChannelB (fst (validateCell n hz s)) = ChannelB s"
  by (simp_all add: validateFixed_def validateCell_def followCarrier_def sanitisePair_def clampDeadTime_def clampFreq_def fst_correct)

lemma module2_rules_frame:
  "Sm21 (fst (requireNyquist m)) = Sm21 m" "Sm21 (fst (clampCells m)) = Sm21 m" "Sm21 (fst (clampCarrier ceil m)) = Sm21 m"
  by (simp_all add: requireNyquist_def clampCells_def clampCarrier_def fst_correct)

lemma validateModule2_duty: "ChannelB (Sm21 (fst (validateModule2 ceil m))) = ChannelB (Sm21 m)"
  by (simp add: validateModule2_def Let_def module2_rules_frame)

lemma finishModule2_cells: "Sm21 (fst (finishModule2 pll m)) = Sm21 m"
  by (simp add: finishModule2_def refuseDeadTimeCompensation_def excludeDither_def fst_correct)

lemma validate_inBuffers: "inBuffers c \<Longrightarrow> inBuffers (fst (validateConfig c))"
  by (simp add: inBuffers_def validateConfig_sections validateMqtt_def fst_correct fitsBuffer_def validatePwm_def
      finishModule2_cells validateModule2_duty refuseSync_def)

lemma preserve_inBuffers: "inBuffers c \<Longrightarrow> inBuffers (preserveSecrets c p)"
  by (simp add: inBuffers_def preserveSecrets_def keepIfEmpty_def copyConfigString_fits)

lemma restore_inBuffers: "inBuffers c \<Longrightarrow> inBuffers (restoreSecrets c p)"
  by (simp add: inBuffers_def restoreSecrets_def copyConfigString_fits) (simp add: fitsBuffer_def)

section \<open>Properties\<close>

text \<open>C26: a saved configuration reads back, and exactly which ones come back unchanged. Take a validated configuration
  with its strings inside their buffers, as every boot and every request leaves it (\<open>load_inBuffers\<close> in
  \<open>Config_Store\<close>, \<open>apiRun_inBuffers\<close> in \<open>Web_Api\<close>). The document written for it is complete, and after printing,
  parsing, reading and validating it the result is the configuration field by field, except for the five unsigned
  settings that no rule bounds (the two of the feedback scale, the restart threshold of the tracker,
  the shunt and the reference frequency): one of 2 ^ 31 or more comes back as its default. With the restart threshold
  a deadband of 1000 or more is reset, and with the shunt a current step that does not fit
  the default shunt. So the configuration is unchanged if and only if these five are below 2 ^ 31.\<close>

theorem config_round_trip:
  assumes "json_library J" "settledConfig c" "inBuffers c"
  shows "(\<exists>doc. deserializeJson J (serializeJson J (configToJson c)) = Some doc
      \<and> configDocComplete J doc \<and> fst (validateConfig (configFromJson J doc defaultConfig)) = reloaded c)
    \<and> reloaded c = c\<lparr>
        Pwm := (Pwm c)\<lparr>Tm2 := (Tm2 (Pwm c))\<lparr>SpwmModulationFrequency := intOr 50 (SpwmModulationFrequency (Tm2 (Pwm c)))\<rparr>\<rparr>,
        Feedback := (Feedback c)\<lparr>SetpointMillivolts := intOr 0 (SetpointMillivolts (Feedback c)),
          FullScaleMillivolts := intOr 3300 (FullScaleMillivolts (Feedback c))\<rparr>,
        Mppt := (if unat (RestartDeltaMw (Mppt c)) < 2 ^ 31 then Mppt c
          else (Mppt c)\<lparr>RestartDeltaMw := 1000,
                 DeadbandMw := if 1000 \<le> DeadbandMw (Mppt c) then 10 else DeadbandMw (Mppt c)\<rparr>),
        PowerMon := (if unat (ShuntMicroOhm (PowerMon c)) < 2 ^ 31 then PowerMon c
          else (PowerMon c)\<lparr>ShuntMicroOhm := 10000, CurrentLsbMicroAmp :=
                 if ina226CalValid 10000 (ucast (CurrentLsbMicroAmp (PowerMon c))) then CurrentLsbMicroAmp (PowerMon c) else 50\<rparr>)\<rparr>
    \<and> (reloaded c = c \<longleftrightarrow> unat (SetpointMillivolts (Feedback c)) < 2 ^ 31
         \<and> unat (FullScaleMillivolts (Feedback c)) < 2 ^ 31 \<and> unat (RestartDeltaMw (Mppt c)) < 2 ^ 31
         \<and> unat (ShuntMicroOhm (PowerMon c)) < 2 ^ 31 \<and> unat (SpwmModulationFrequency (Tm2 (Pwm c))) < 2 ^ 31)"
  using json_library.text_round_trip [OF assms] reloaded_explicit [OF assms(2)] reloaded_iff [OF assms(2)]
  unfolding intSettings_def by (intro conjI)

lemma config_round_trip_witness:
  "\<exists>doc. deserializeJson refJson (serializeJson refJson (configToJson defaultConfig)) = Some doc
    \<and> configDocComplete refJson doc
    \<and> fst (validateConfig (configFromJson refJson doc defaultConfig)) = defaultConfig"
  using config_round_trip [OF refJson.json_library_axioms default_settled default_inBuffers, unfolded default_reloaded] by blast

text \<open>The exception is reachable: \<open>-1\<close> in a document is 4294967295 in memory, which validation accepts and the next boot
  reads as 1000.\<close>

lemma posted_minus_one_reverts:
  fixes J :: JsonLib and v :: json
  defines "c \<equiv> defaultConfig\<lparr>Mppt := defaultMppt\<lparr>RestartDeltaMw := word_of_int (asInt J TInt v ''RestartDeltaMw'' 1000)\<rparr>\<rparr>"
  assumes "jMember J v ''RestartDeltaMw'' = JInt (- 1)"
  shows "settledConfig c \<and> inBuffers c \<and> RestartDeltaMw (Mppt c) = 4294967295 \<and> RestartDeltaMw (Mppt (reloaded c)) = 1000"
proof -
  have r: "RestartDeltaMw (Mppt c) = 4294967295" "c = defaultConfig\<lparr>Mppt := defaultMppt\<lparr>RestartDeltaMw := 4294967295\<rparr>\<rparr>"
    using assms(2) by (simp_all add: c_def asInt_def fits.simps)
  have "settledMppt soft fb (defaultMppt\<lparr>RestartDeltaMw := 4294967295\<rparr>) = settledMppt soft fb defaultMppt" for soft fb
    by (simp add: settledMppt_def defaultMppt_def)
  moreover have "carrierCeiling c = carrierCeiling defaultConfig"
    by (simp add: r(2) carrierCeiling_def carrierInterruptRequired_def)
  moreover have "Mppt defaultConfig = defaultMppt" by (simp add: defaultConfig_def)
  ultimately have "settledConfig c" using default_settled by (simp add: settledConfig_def) (simp add: r(2))
  moreover have "inBuffers c" using default_inBuffers by (simp add: inBuffers_def r(2))
  moreover have "RestartDeltaMw (Mppt (reloaded c)) = 1000"
    by (simp add: reloaded_def readMppt_def r intOr_def validateMppt_def mpptLimits_def fst_correct defaultMppt_def)
  ultimately show ?thesis using r(1) by simp
qed

text \<open>The document the API hands out carries no secret, and sending it back unchanged changes
  nothing, the stored secrets included, as long as the unsigned settings are below 2 ^ 31.\<close>

theorem redacted_edit_keeps_config:
  assumes "json_library J" "settledConfig c" "inBuffers c"
  shows "redactSecrets J (configToJson c) = configToJson (blankSecrets c)
    \<and> fst (validateConfig (preserveSecrets
        (configFromJson J (redactSecrets J (configToJson c)) defaultConfig) c)) = reloaded c
    \<and> (reloaded c = c \<longleftrightarrow> intSettings c)"
  using json_library.redact_written [OF assms(1)] json_library.edit_round_trip [OF assms] reloaded_iff [OF assms(2)] by blast

lemma redacted_edit_keeps_config_witness:
  "redactSecrets refJson (configToJson defaultConfig) = configToJson (blankSecrets defaultConfig)
    \<and> fst (validateConfig (preserveSecrets
        (configFromJson refJson (redactSecrets refJson (configToJson defaultConfig)) defaultConfig)
        defaultConfig)) = defaultConfig"
  using redacted_edit_keeps_config [OF refJson.json_library_axioms default_settled default_inBuffers, unfolded default_reloaded] by blast

end
