(* ===== verification/Pin_Ownership.thy ===== *)
theory Pin_Ownership
  imports Config_Types
begin

text \<open>
  \<open>src/src/pin_ownership.h\<close>: every feature claims the pins it uses, and a configuration in which
  two features claim one pin is refused. The claims are listed in the order the code makes them;
  the first that fails decides the reported pin and roles. The lemmas show that the verdict is
  exactly pairwise compatibility of the claims.
\<close>

definition Teensy41LastPin :: byte where [const_defs]: "Teensy41LastPin = 41"

definition PinRoleNone :: u16 where [const_defs]: "PinRoleNone = 0"
definition PinRolePwm :: u16 where [const_defs]: "PinRolePwm = 0x1"
definition PinRoleTrigger :: u16 where [const_defs]: "PinRoleTrigger = 0x2"
definition PinRoleWire :: u16 where [const_defs]: "PinRoleWire = 0x4"
definition PinRoleWire2 :: u16 where [const_defs]: "PinRoleWire2 = 0x8"
definition PinRoleFeedbackAdc :: u16 where [const_defs]: "PinRoleFeedbackAdc = 0x10"
definition PinRoleMeterCurrent :: u16 where [const_defs]: "PinRoleMeterCurrent = 0x20"
definition PinRoleCurrentLimit :: u16 where [const_defs]: "PinRoleCurrentLimit = 0x40"
definition PinRoleGpioFault :: u16 where [const_defs]: "PinRoleGpioFault = 0x80"
definition PinRoleOneWire :: u16 where [const_defs]: "PinRoleOneWire = 0x100"
definition PinRolePowerMonitor :: u16 where [const_defs]: "PinRolePowerMonitor = 0x200"
definition PinRoleImonAdc :: u16 where [const_defs]: "PinRoleImonAdc = 0x400"

record PinValidationResult =
  pvValid :: bool
  pvPin :: byte
  pvExisting :: u16
  pvRequested :: u16

definition teensy41AnalogPin :: "byte \<Rightarrow> bool" where
  "teensy41AnalogPin pin \<longleftrightarrow> (pin \<ge> 14 \<and> pin \<le> 27) \<or> (pin \<ge> 38 \<and> pin \<le> 41)"

definition currentSense :: u16 where [const_defs]:
  "currentSense = PinRoleMeterCurrent OR PinRoleCurrentLimit"

definition pinRolesCompatible :: "u16 \<Rightarrow> u16 \<Rightarrow> bool" where
  "pinRolesCompatible existing requested \<longleftrightarrow> (existing OR requested) AND NOT currentSense = 0"

record PinClaim =
  pcPin :: byte
  pcRole :: u16
  pcAnalog :: bool

definition pinFail :: "byte \<Rightarrow> u16 \<Rightarrow> u16 \<Rightarrow> PinValidationResult" where
  "pinFail pin existing requested =
     \<lparr>pvValid = False, pvPin = pin, pvExisting = existing, pvRequested = requested\<rparr>"

definition claimPin :: "PinClaim \<Rightarrow> (byte \<Rightarrow> u16) \<Rightarrow> PinValidationResult + (byte \<Rightarrow> u16)" where
  "claimPin c claims =
     (let pin = pcPin c; role = pcRole c in
      if pin > Teensy41LastPin \<or> (pcAnalog c \<and> \<not> teensy41AnalogPin pin)
      then Inl (pinFail pin PinRoleNone role)
      else if claims pin \<noteq> PinRoleNone \<and> \<not> pinRolesCompatible (claims pin) role
      then Inl (pinFail pin (claims pin) role)
      else Inr (claims(pin := claims pin OR role)))"

primrec claimAll :: "PinClaim list \<Rightarrow> (byte \<Rightarrow> u16) \<Rightarrow> PinValidationResult" where
  "claimAll [] claims = \<lparr>pvValid = True, pvPin = 255, pvExisting = PinRoleNone, pvRequested = PinRoleNone\<rparr>"
| "claimAll (c # cs) claims = (case claimPin c claims of Inl r \<Rightarrow> r | Inr claims' \<Rightarrow> claimAll cs claims')"

definition pwmPins :: "byte list" where
  "pwmPins = [2, 3, 4, 5, 6, 7, 8, 9, 22, 23, 28, 29, 33, 36, 37]"

definition claimIf :: "bool \<Rightarrow> byte \<Rightarrow> u16 \<Rightarrow> bool \<Rightarrow> PinClaim list" where
  "claimIf b pin role analog = (if b then [\<lparr>pcPin = pin, pcRole = role, pcAnalog = analog\<rparr>] else [])"

definition pinClaims :: "MainConfig \<Rightarrow> PinClaim list" where
  "pinClaims c =
     map (\<lambda>pin. \<lparr>pcPin = pin, pcRole = PinRolePwm, pcAnalog = False\<rparr>) pwmPins
     @ claimIf True 13 PinRoleTrigger False
     @ claimIf True 18 PinRoleWire False @ claimIf True 19 PinRoleWire False
     @ claimIf (fbEnabled (Feedback c) \<or> caEnabled (Capture c) \<or> plEnabled (Pll c))
         (fbAnalogPin (Feedback c)) PinRoleFeedbackAdc True
     @ claimIf (meEnabled (Meter c)) (meCurrentPin (Meter c)) PinRoleMeterCurrent True
     @ claimIf (clEnabled (CurrentLimit c)) (clPin (CurrentLimit c)) PinRoleCurrentLimit True
     @ claimIf (fpEnabled (FaultProtection c)) (fpPin (FaultProtection c)) PinRoleGpioFault False
     @ claimIf (thEnabled (Thermal c)) (OneWirePin (Thermal c)) PinRoleOneWire False
     @ (let p = PowerMon c in if pmEnabled p then
          claimIf True 24 PinRoleWire2 False @ claimIf True 25 PinRoleWire2 False
          @ claimIf (PgEfusePin p \<noteq> 255) (PgEfusePin p) PinRolePowerMonitor False
          @ claimIf (PgBuckPin p \<noteq> 255) (PgBuckPin p) PinRolePowerMonitor False
          @ claimIf (AlertPin p \<noteq> 255) (AlertPin p) PinRolePowerMonitor False
          @ claimIf (ImonPin p \<noteq> 255) (ImonPin p) PinRoleImonAdc True
        else [])"

definition validatePinOwnership :: "MainConfig \<Rightarrow> PinValidationResult" where
  "validatePinOwnership c = claimAll (pinClaims c) (\<lambda>_. PinRoleNone)"

section \<open>The verdict\<close>

definition pinExists :: "PinClaim \<Rightarrow> bool" where
  "pinExists c \<longleftrightarrow> pcPin c \<le> Teensy41LastPin \<and> (pcAnalog c \<longrightarrow> teensy41AnalogPin (pcPin c))"

definition sharesCurrentPad :: "u16 \<Rightarrow> bool" where
  "sharesCurrentPad role \<longleftrightarrow> role AND NOT currentSense = 0"

definition claimsAgree :: "PinClaim \<Rightarrow> PinClaim \<Rightarrow> bool" where
  "claimsAgree c d \<longleftrightarrow>
     (pcPin c = pcPin d \<longrightarrow> sharesCurrentPad (pcRole c) \<and> sharesCurrentPad (pcRole d))"

lemma or_eq_0_word: "(a :: 'a::len word) OR b = 0 \<longleftrightarrow> a = 0 \<and> b = 0"
  by (auto simp: bit_eq_iff bit_or_iff)

lemma compatible_iff: "pinRolesCompatible a b \<longleftrightarrow> sharesCurrentPad a \<and> sharesCurrentPad b"
  by (simp add: pinRolesCompatible_def sharesCurrentPad_def bit.conj_disj_distrib2 or_eq_0_word)

lemma shares_or: "sharesCurrentPad (a OR b) \<longleftrightarrow> sharesCurrentPad a \<and> sharesCurrentPad b"
  by (simp add: sharesCurrentPad_def bit.conj_disj_distrib2 or_eq_0_word)

lemma claimAll_iff:
  assumes "\<forall>c\<in>set cs. pcRole c \<noteq> 0"
  shows "pvValid (claimAll cs m) \<longleftrightarrow> (\<forall>c\<in>set cs. pinExists c) \<and> sorted_wrt claimsAgree cs
    \<and> (\<forall>c\<in>set cs. m (pcPin c) \<noteq> 0 \<longrightarrow> sharesCurrentPad (m (pcPin c)) \<and> sharesCurrentPad (pcRole c))"
  using assms
proof (induction cs arbitrary: m)
  case (Cons c cs)
  let ?m = "m(pcPin c := m (pcPin c) OR pcRole c)"
  have r: "pcRole c \<noteq> 0" using Cons.prems by simp
  have ih: "pvValid (claimAll cs ?m) \<longleftrightarrow> (\<forall>d\<in>set cs. pinExists d) \<and> sorted_wrt claimsAgree cs
    \<and> (\<forall>d\<in>set cs. ?m (pcPin d) \<noteq> 0 \<longrightarrow> sharesCurrentPad (?m (pcPin d)) \<and> sharesCurrentPad (pcRole d))"
    using Cons by simp
  have step: "pvValid (claimAll (c # cs) m) \<longleftrightarrow> pinExists c
      \<and> (m (pcPin c) \<noteq> 0 \<longrightarrow> sharesCurrentPad (m (pcPin c)) \<and> sharesCurrentPad (pcRole c))
      \<and> pvValid (claimAll cs ?m)"
    by (auto simp: claimPin_def Let_def pinExists_def pinFail_def compatible_iff PinRoleNone_def not_less)
  have eq: "(?m (pcPin d) \<noteq> 0 \<longrightarrow> sharesCurrentPad (?m (pcPin d)) \<and> sharesCurrentPad (pcRole d)) \<longleftrightarrow>
      (m (pcPin d) \<noteq> 0 \<longrightarrow> sharesCurrentPad (m (pcPin d)) \<and> sharesCurrentPad (pcRole d)) \<and> claimsAgree c d"
    if "m (pcPin c) \<noteq> 0 \<longrightarrow> sharesCurrentPad (m (pcPin c)) \<and> sharesCurrentPad (pcRole c)" for d
    using that r
    by (cases "pcPin d = pcPin c")
      (auto simp: claimsAgree_def shares_or or_eq_0_word, auto simp: sharesCurrentPad_def)
  show ?case
  proof (cases "m (pcPin c) \<noteq> 0 \<longrightarrow> sharesCurrentPad (m (pcPin c)) \<and> sharesCurrentPad (pcRole c)")
    case True
    have "(\<forall>d\<in>set cs. ?m (pcPin d) \<noteq> 0 \<longrightarrow> sharesCurrentPad (?m (pcPin d)) \<and> sharesCurrentPad (pcRole d))
        \<longleftrightarrow> (\<forall>d\<in>set cs. (m (pcPin d) \<noteq> 0 \<longrightarrow> sharesCurrentPad (m (pcPin d)) \<and> sharesCurrentPad (pcRole d))
              \<and> claimsAgree c d)"
      by (intro ball_cong refl eq [OF True])
    then show ?thesis unfolding step ih using True by (simp only: list.set ball_simps sorted_wrt.simps) blast
  next
    case False
    then show ?thesis unfolding step by (simp only: list.set ball_simps) blast
  qed
qed simp

lemma pinClaims_roles: "\<forall>c\<in>set (pinClaims cfg). pcRole c \<noteq> 0"
  by (auto simp: pinClaims_def claimIf_def Let_def const_defs split: if_splits)

text \<open>C17: a configuration is accepted exactly when every claimed pin exists (and is an analog input
  where one is needed) and no two features claim the same pin, the current sensor's pad alone
  being shared between the meter and the comparator.\<close>

theorem pin_ownership_exact:
  "pvValid (validatePinOwnership c) \<longleftrightarrow>
     (\<forall>k\<in>set (pinClaims c). pcPin k \<le> 41 \<and> (pcAnalog k \<longrightarrow> teensy41AnalogPin (pcPin k)))
   \<and> sorted_wrt (\<lambda>k l. pcPin k = pcPin l \<longrightarrow>
        {pcRole k, pcRole l} \<subseteq> {PinRoleMeterCurrent, PinRoleCurrentLimit}) (pinClaims c)"
proof -
  have sense: "sharesCurrentPad (pcRole k) \<longleftrightarrow> pcRole k \<in> {PinRoleMeterCurrent, PinRoleCurrentLimit}"
    if "k \<in> set (pinClaims c)" for k
    using that
    by (auto simp: pinClaims_def claimIf_def Let_def sharesCurrentPad_def const_defs split: if_splits)
  have "sorted_wrt claimsAgree (pinClaims c) \<longleftrightarrow> sorted_wrt (\<lambda>k l. pcPin k = pcPin l \<longrightarrow>
      {pcRole k, pcRole l} \<subseteq> {PinRoleMeterCurrent, PinRoleCurrentLimit}) (pinClaims c)"
    using sense by (intro iffI; elim sorted_wrt_mono_rel [rotated]) (auto simp: claimsAgree_def)
  then show ?thesis
    using claimAll_iff [OF pinClaims_roles, of c "\<lambda>_. PinRoleNone"]
    by (auto simp: validatePinOwnership_def PinRoleNone_def pinExists_def Teensy41LastPin_def)
qed

lemma pin_ownership_exact_witness:
  "pvValid (validatePinOwnership defaultConfig)"
proof -
  have "sorted_wrt (\<lambda>k l. pcPin k = pcPin l \<longrightarrow>
        {pcRole k, pcRole l} \<subseteq> {PinRoleMeterCurrent, PinRoleCurrentLimit}) (pinClaims defaultConfig)"
    "\<forall>k\<in>set (pinClaims defaultConfig). pcPin k \<le> 41 \<and> (pcAnalog k \<longrightarrow> teensy41AnalogPin (pcPin k))"
    by (simp_all add: pinClaims_def pwmPins_def claimIf_def defaultConfig_def defaultFeedback_def
        defaultCapture_def defaultPll_def defaultMeter_def defaultCurrentLimit_def defaultFaultProtection_def
        defaultThermal_def defaultPowerMon_def)
  then show ?thesis using pin_ownership_exact [of defaultConfig] by blast
qed

end
