(* ===== verification/Config_Store.thy ===== *)
theory Config_Store
  imports Config_Json Pin_Ownership Ota_Crc
begin

text \<open>
  \<open>src/src/config_json.cpp\<close>: how the configuration survives power loss. \<open>saveConfiguration\<close> writes a
  temporary file, reads it back and swaps it in, keeping the previous file as a backup;
  \<open>loadConfiguration\<close> reads the live, temporary and backup files, takes the newest one that is
  complete and valid, and puts it back in the live place.

  The SD library is a record of functions over an abstract disk; \<open>sdFiles\<close> is the directory as the
  disk holds it. Every operation that changes the disk is followed, in the result of the two
  functions, by the disk at that point: the trace holds every state a power cut between two
  operations, or in the middle of the write, can leave. The live configuration and its
  generation (\<open>config\<close>, \<open>configGeneration\<close>) are passed and returned. Log lines are left out.
\<close>

record 'c SdLib =
  sdFiles :: "'c \<Rightarrow> string \<Rightarrow> byte list option"
  sdExists :: "'c \<Rightarrow> string \<Rightarrow> bool"
  sdRead :: "'c \<Rightarrow> string \<Rightarrow> byte list option"
  sdRemove :: "'c \<Rightarrow> string \<Rightarrow> 'c"
  sdRename :: "'c \<Rightarrow> string \<Rightarrow> string \<Rightarrow> bool \<times> 'c"
  sdCreate :: "'c \<Rightarrow> string \<Rightarrow> bool \<times> 'c"
  sdWrite :: "'c \<Rightarrow> string \<Rightarrow> byte list \<Rightarrow> nat \<times> 'c"

section \<open>Names, integrity and generations\<close>

definition siblingName :: "string \<Rightarrow> string \<Rightarrow> string option" where
  "siblingName filename suffix =
     (let n = length (filename @ suffix) in if 0 < n \<and> n < 96 then Some (filename @ suffix) else None)"

definition crcPrintWrite :: "u32 \<Rightarrow> byte \<Rightarrow> u32" where
  "crcPrintWrite crc c = otaCrc32Update crc [c]"

definition configPayloadCrc :: "JsonLib \<Rightarrow> json \<Rightarrow> u32" where
  "configPayloadCrc J doc =
     foldl crcPrintWrite 0xFFFFFFFF (serializeJson J (jMember J doc ''Config'')) XOR 0xFFFFFFFF"

definition asUint64 :: "json \<Rightarrow> int" where
  "asUint64 v = (case v of JInt i \<Rightarrow> if 0 \<le> i \<and> i < 2 ^ 64 then i else 0 | _ \<Rightarrow> 0)"

definition configIntegrity :: "JsonLib \<Rightarrow> json \<Rightarrow> u32 option" where
  "configIntegrity J doc =
     (let gen = jMember J doc ''StorageGeneration''; crc = jMember J doc ''StorageCrc32'' in
      if gen = JNull \<and> crc = JNull then Some 0
      else if gen = JNull \<or> crc = JNull \<or> \<not> isInteger gen \<or> \<not> isInteger crc then None
      else let g = asUint64 gen; c = asUint64 crc in
        if g = 0 \<or> g > 2 ^ 32 - 1 \<or> c > 2 ^ 32 - 1 then None
        else if word_of_int c = configPayloadCrc J doc then Some (word_of_int g) else None)"

definition generationNewer :: "u32 \<Rightarrow> u32 \<Rightarrow> bool" where
  "generationNewer candidate current \<longleftrightarrow> sint (candidate - current) > 0"

definition nextGeneration :: "u32 \<Rightarrow> u32" where
  "nextGeneration g = (let n = g + 1 in if n = 0 then 1 else n)"

section \<open>Loading\<close>

definition readConfigDocument :: "'c SdLib \<Rightarrow> JsonLib \<Rightarrow> 'c \<Rightarrow> string \<Rightarrow> (json \<times> u32) option" where
  "readConfigDocument D J disk path =
     (if \<not> sdExists D disk path then None
      else case sdRead D disk path of None \<Rightarrow> None
      | Some bs \<Rightarrow> (case deserializeJson J bs of None \<Rightarrow> None
        | Some doc \<Rightarrow> if \<not> configDocComplete J doc then None
            else map_option (\<lambda>g. (doc, g)) (configIntegrity J doc)))"

definition loadCandidate :: "'c SdLib \<Rightarrow> JsonLib \<Rightarrow> 'c \<Rightarrow> string \<Rightarrow> (MainConfig \<times> u32) option" where
  "loadCandidate D J disk path =
     (case readConfigDocument D J disk path of None \<Rightarrow> None
      | Some (doc, g) \<Rightarrow> (let loaded = fst (validateConfig (configFromJson J doc defaultConfig)) in
          if pvValid (validatePinOwnership loaded) then Some (loaded, g) else None))"

primrec chooseBest ::
    "(MainConfig \<times> u32) option list \<Rightarrow> nat \<Rightarrow> (nat \<times> MainConfig \<times> u32) option
      \<Rightarrow> (nat \<times> MainConfig \<times> u32) option" where
  "chooseBest [] i best = best"
| "chooseBest (x # xs) i best = chooseBest xs (i + 1)
     (case x of None \<Rightarrow> best
      | Some (c, g) \<Rightarrow> (case best of None \<Rightarrow> Some (i, c, g)
          | Some (_, _, bestGeneration) \<Rightarrow> if generationNewer g bestGeneration then Some (i, c, g) else best))"

definition bestCandidate ::
    "'c SdLib \<Rightarrow> JsonLib \<Rightarrow> string list \<Rightarrow> 'c \<Rightarrow> (nat \<times> MainConfig \<times> u32) option" where
  "bestCandidate D J candidates disk = chooseBest (map (loadCandidate D J disk) candidates) 0 None"

text \<open>Recovery: the damaged live file is kept as \<open>.bad\<close>, the good copy takes its place.\<close>

definition setAside :: "'c SdLib \<Rightarrow> string \<Rightarrow> 'c \<Rightarrow> 'c list" where
  "setAside D filename disk =
     (case siblingName filename ''.bad'' of None \<Rightarrow> [disk]
      | Some badName \<Rightarrow> (let r = sdRemove D disk badName in
          if sdExists D r filename then [r, snd (sdRename D r filename badName)] else [r]))"

definition promote :: "'c SdLib \<Rightarrow> string \<Rightarrow> string \<Rightarrow> 'c \<Rightarrow> 'c list" where
  "promote D filename source disk =
     (let s = setAside D filename disk in s @ [snd (sdRename D (last s) source filename)])"

record 'c LoadResult =
  loadOk :: bool
  loadConfig :: MainConfig
  loadGeneration :: u32
  loadTrace :: "'c list"

definition loadConfiguration ::
    "'c SdLib \<Rightarrow> JsonLib \<Rightarrow> string \<Rightarrow> MainConfig \<Rightarrow> u32 \<Rightarrow> 'c \<Rightarrow> 'c LoadResult" where
  "loadConfiguration D J filename config generation disk =
     (case (siblingName filename ''.tmp'', siblingName filename ''.bak'') of
        (Some tmpName, Some bakName) \<Rightarrow>
          (case bestCandidate D J [filename, tmpName, bakName] disk of
             None \<Rightarrow> \<lparr>loadOk = False, loadConfig = config, loadGeneration = generation, loadTrace = []\<rparr>
           | Some (i, c, g) \<Rightarrow> \<lparr>loadOk = True, loadConfig = c, loadGeneration = g,
               loadTrace = (if i = 1 then promote D filename tmpName disk
                            else if i = 2 then promote D filename bakName disk else [])\<rparr>)
      | _ \<Rightarrow> \<lparr>loadOk = False, loadConfig = config, loadGeneration = generation, loadTrace = []\<rparr>)"

section \<open>Saving\<close>

record 'c SaveResult =
  saveOk :: bool
  saveGeneration :: u32
  saveTrace :: "'c list"

definition saveDocument :: "JsonLib \<Rightarrow> MainConfig \<Rightarrow> u32 \<Rightarrow> json" where
  "saveDocument J config generation =
     (let doc = jAssign J (configToJson config) [''StorageGeneration''] (JInt (uint generation))
      in jAssign J doc [''StorageCrc32''] (JInt (uint (configPayloadCrc J doc))))"

text \<open>The states while the document is written: a prefix of it, then what the whole write left.\<close>

definition writeStates :: "'c SdLib \<Rightarrow> string \<Rightarrow> byte list \<Rightarrow> 'c \<Rightarrow> 'c list" where
  "writeStates D path bs disk =
     map (\<lambda>k. snd (sdWrite D disk path (take k bs))) [0..<length bs] @ [snd (sdWrite D disk path bs)]"

text \<open>The last part: keep the previous file as a backup, swap the new one in, or put the backup back.\<close>

definition swapIn :: "'c SdLib \<Rightarrow> string \<Rightarrow> string \<Rightarrow> string \<Rightarrow> 'c \<Rightarrow> bool \<times> 'c list" where
  "swapIn D filename tmpName bakName disk =
     (let c1 = sdRemove D disk bakName; hadLive = sdExists D c1 filename;
          (kept, c2) = (if hadLive then sdRename D c1 filename bakName else (True, c1)) in
      if \<not> kept then (False, [c1, c2])
      else let (swapped, c3) = sdRename D c2 tmpName filename in
        if swapped then (True, [c1, c2, c3])
        else if hadLive \<and> \<not> sdExists D c3 filename
          then (False, [c1, c2, c3, snd (sdRename D c3 bakName filename)])
          else (False, [c1, c2, c3]))"

definition saveConfiguration ::
    "'c SdLib \<Rightarrow> JsonLib \<Rightarrow> bool \<Rightarrow> string \<Rightarrow> MainConfig \<Rightarrow> u32 \<Rightarrow> 'c \<Rightarrow> 'c SaveResult" where
  "saveConfiguration D J sdAvailable filename config generation disk =
     (let failed = (\<lambda>t. \<lparr>saveOk = False, saveGeneration = generation, saveTrace = t\<rparr>) in
      if \<not> sdAvailable then failed []
      else case (siblingName filename ''.tmp'', siblingName filename ''.bak'') of
        (Some tmpName, Some bakName) \<Rightarrow>
          (let c1 = sdRemove D disk tmpName; (opened, c2) = sdCreate D c1 tmpName in
           if \<not> opened then failed [c1, c2]
           else let nextGen = nextGeneration generation;
                    text = serializeJson J (saveDocument J config nextGen);
                    (written, c3) = sdWrite D c2 tmpName text;
                    before = [c1, c2] @ writeStates D tmpName text c2 in
             if written = 0 then failed (before @ [sdRemove D c3 tmpName])
             else if map_option snd (readConfigDocument D J c3 tmpName) \<noteq> Some nextGen
               then failed (before @ [sdRemove D c3 tmpName])
             else let (swapped, after) = swapIn D filename tmpName bakName c3 in
               if swapped then \<lparr>saveOk = True, saveGeneration = nextGen, saveTrace = before @ after\<rparr>
               else failed (before @ after))
      | _ \<Rightarrow> failed [])"

lemma load_inBuffers: "loadCandidate D J disk p = Some (c, g) \<Longrightarrow> inBuffers c"
  by (auto simp: loadCandidate_def Let_def split: option.splits if_splits
      intro!: validate_inBuffers read_inBuffers default_inBuffers)

lemma reloaded_pins: "validatePinOwnership (reloaded c) = validatePinOwnership c"
proof -
  have "pmEnabled (fst (validatePowerMon p)) = pmEnabled p" "PgEfusePin (fst (validatePowerMon p)) = PgEfusePin p"
    "PgBuckPin (fst (validatePowerMon p)) = PgBuckPin p" "AlertPin (fst (validatePowerMon p)) = AlertPin p"
    "ImonPin (fst (validatePowerMon p)) = ImonPin p" for p
    by (simp_all add: validatePowerMon_def fst_correct)
  then show ?thesis by (simp add: validatePinOwnership_def pinClaims_def reloaded_def readable_def read_defs Let_def)
qed

section \<open>The libraries' promises\<close>

text \<open>What the code relies on of the card: removing deletes, renaming moves onto a free name or
  changes nothing, and a write appends a prefix of the data (all of it, when nothing fails).\<close>

locale sd_card =
  fixes D :: "'c SdLib"
  assumes exists_file: "sdExists D c p \<longleftrightarrow> sdFiles D c p \<noteq> None"
    and read_file: "sdRead D c p = sdFiles D c p"
    and remove_file: "sdFiles D (sdRemove D c p) = (sdFiles D c)(p := None)"
    and rename_file: "sdRename D c p q = (ok, c') \<Longrightarrow>
          (if ok then sdFiles D c p \<noteq> None \<and> sdFiles D c q = None
             \<and> sdFiles D c' = (sdFiles D c)(q := sdFiles D c p, p := None)
           else sdFiles D c' = sdFiles D c)"
    and create_file: "sdCreate D c p = (ok, c') \<Longrightarrow>
          sdFiles D c' = (if ok \<and> sdFiles D c p = None then (sdFiles D c)(p := Some []) else sdFiles D c)"
    and write_file: "sdWrite D c p bs = (n, c') \<Longrightarrow> sdFiles D c p = Some old \<Longrightarrow>
          \<exists>k\<le>length bs. sdFiles D c' = (sdFiles D c)(p := Some (old @ take k bs))"

locale config_store = json_library J + sd_card D
  for J :: JsonLib and D :: "'c SdLib"
begin

text \<open>What a file's bytes mean.\<close>

lemma loadCandidate_files:
  "sdFiles D c p = sdFiles D c' p' \<Longrightarrow> loadCandidate D J c p = loadCandidate D J c' p'"
  by (simp add: loadCandidate_def readConfigDocument_def exists_file read_file)

lemma loadCandidate_None: "sdFiles D c p = None \<Longrightarrow> loadCandidate D J c p = None"
  by (simp add: loadCandidate_def readConfigDocument_def exists_file)

lemma saveDocument_obj:
  "saveDocument J c g = JObj
     [(''SchemaVersion'', JInt 1), (''Config'', sectionsToJson c), (''StorageGeneration'', JInt (uint g)),
      (''StorageCrc32'', JInt (uint (configPayloadCrc J (JObj
        [(''SchemaVersion'', JInt 1), (''Config'', sectionsToJson c), (''StorageGeneration'', JInt (uint g))]))))]"
  by (simp add: saveDocument_def configToJson_def assign_obj assign_nil Let_def)

lemma saveDocument_integrity:
  assumes "g \<noteq> 0" shows "configIntegrity J (saveDocument J c g) = Some g"
proof -
  have "uint g \<noteq> 0" using assms by (simp add: uint_0_iff)
  moreover have "uint g \<le> 2 ^ 32 - 1" "uint (x :: u32) \<le> 2 ^ 32 - 1" for x
    using uint_lt2p [of g] uint_lt2p [of x] by simp_all
  moreover have "uint (x :: u32) < 2 ^ 64" for x by (rule less_trans [OF uint_lt2p]) simp
  ultimately show ?thesis
    by (simp add: configIntegrity_def saveDocument_obj Let_def asUint64_def configPayloadCrc_def not_less)
qed

lemma saveDocument_reads_back:
  assumes "settledConfig c" "inBuffers c" "pvValid (validatePinOwnership c)" "g \<noteq> 0"
    and "sdFiles D disk p = Some (serializeJson J (saveDocument J c g))"
  shows "readConfigDocument D J disk p = Some (saveDocument J c g, g)"
    and "loadCandidate D J disk p = Some (reloaded c, g)"
proof -
  have m: "jMember J (saveDocument J c g) ''Config'' = sectionsToJson c"
    "jMember J (saveDocument J c g) ''SchemaVersion'' = JInt 1"
    by (simp_all add: saveDocument_obj)
  show r: "readConfigDocument D J disk p = Some (saveDocument J c g, g)"
    using assms written_doc_complete [OF m(1)] m(2) saveDocument_integrity [of g c] parse_print
    by (simp add: readConfigDocument_def exists_file read_file saveDocument_obj)
  show "loadCandidate D J disk p = Some (reloaded c, g)"
    using assms(3) config_reads_back [OF assms(1,2) m(1)] by (simp add: loadCandidate_def r Let_def reloaded_pins)
qed

lemma truncated_unreadable:
  assumes "sdFiles D disk p = Some (take k (serializeJson J (saveDocument J c g)))"
    and "k < length (serializeJson J (saveDocument J c g))"
  shows "readConfigDocument D J disk p = None" "loadCandidate D J disk p = None"
  using assms parse_truncated
  by (simp_all add: loadCandidate_def readConfigDocument_def exists_file read_file saveDocument_obj)

lemma created_empty: "sdFiles D x p = Some [] \<Longrightarrow> loadCandidate D J x p = None"
  using truncated_unreadable(2) [of x p 0] print_nonempty by (simp add: saveDocument_obj)

end

section \<open>Which file wins\<close>

lemma newer_next: "generationNewer (nextGeneration g) g" "\<not> generationNewer g (nextGeneration g)"
proof -
  have "g + 1 = 0 \<Longrightarrow> g = - 1" by (simp add: eq_neg_iff_add_eq_0)
  then show "generationNewer (nextGeneration g) g" "\<not> generationNewer g (nextGeneration g)"
    by (auto simp: generationNewer_def nextGeneration_def Let_def)
qed

lemma next_not_zero: "nextGeneration g \<noteq> 0"
  by (simp add: nextGeneration_def Let_def)

lemma bestCandidate_three:
  "bestCandidate D J [p, q, r] x =
     (let best = (case loadCandidate D J x p of None \<Rightarrow> None | Some (c, g) \<Rightarrow> Some (0, c, g));
          best = (case loadCandidate D J x q of None \<Rightarrow> best
            | Some (c, g) \<Rightarrow> (case best of None \<Rightarrow> Some (1, c, g)
                | Some (_, _, h) \<Rightarrow> if generationNewer g h then Some (1, c, g) else best))
      in (case loadCandidate D J x r of None \<Rightarrow> best
            | Some (c, g) \<Rightarrow> (case best of None \<Rightarrow> Some (2, c, g)
                | Some (_, _, h) \<Rightarrow> if generationNewer g h then Some (2, c, g) else best)))"
  by (simp add: bestCandidate_def Let_def numeral_2_eq_2 split: option.splits)

lemma best_live:
  assumes "bestCandidate D J [p, q, r] x = Some (0, old, g)"
  shows "loadCandidate D J x p = Some (old, g)"
    and "loadCandidate D J x r = Some (c, h) \<Longrightarrow> \<not> generationNewer h g"
  using assms by (auto simp: bestCandidate_three Let_def split: option.splits if_splits)

text \<open>The states a save passes through, by what their three files hold.\<close>

definition safeState ::
    "'c SdLib \<Rightarrow> JsonLib \<Rightarrow> string \<Rightarrow> MainConfig \<Rightarrow> u32 \<Rightarrow> MainConfig \<Rightarrow> (MainConfig \<times> u32) option \<Rightarrow> 'c \<Rightarrow> bool" where
  "safeState D J f old g new backup x \<longleftrightarrow>
     (let live = loadCandidate D J x f; tmp = loadCandidate D J x (f @ ''.tmp'');
          bak = loadCandidate D J x (f @ ''.bak''); saved = Some (reloaded new, nextGeneration g) in
      live = Some (old, g) \<and> (tmp = None \<or> tmp = saved) \<and> (bak = None \<or> bak = backup)
    \<or> live = None \<and> tmp = saved \<and> bak = Some (old, g)
    \<or> live = saved \<and> tmp = None \<and> bak = Some (old, g))"

definition bootsWith :: "'c SdLib \<Rightarrow> JsonLib \<Rightarrow> string \<Rightarrow> 'c \<Rightarrow> MainConfig \<Rightarrow> bool" where
  "bootsWith D J f x c \<longleftrightarrow>
     loadOk (loadConfiguration D J f defaultConfig 0 x) \<and>
     loadConfig (loadConfiguration D J f defaultConfig 0 x) = c"

lemma siblings: "length f < 92 \<Longrightarrow> length suffix = 4 \<Longrightarrow> siblingName f suffix = Some (f @ suffix)"
  by (simp add: siblingName_def Let_def)

lemma bootsWith_best:
  assumes "length f < 92" "bestCandidate D J [f, f @ ''.tmp'', f @ ''.bak''] x = Some (i, c, g)"
  shows "bootsWith D J f x c"
  using assms by (simp add: bootsWith_def loadConfiguration_def siblings)

lemma safe_boots:
  assumes "length f < 92" "safeState D J f old g new backup x"
    and "\<And>c h. backup = Some (c, h) \<Longrightarrow> \<not> generationNewer h g \<and> \<not> generationNewer h (nextGeneration g)"
  shows "bootsWith D J f x old \<or> bootsWith D J f x (reloaded new)"
proof -
  obtain i c h where "bestCandidate D J [f, f @ ''.tmp'', f @ ''.bak''] x = Some (i, c, h)" "c = old \<or> c = reloaded new"
    using assms(2,3) newer_next [of g]
    by (cases backup) (auto simp: safeState_def bestCandidate_three Let_def)
  then show ?thesis using bootsWith_best [OF assms(1), of D J x] by auto
qed

context config_store
begin

text \<open>Every state of a save is safe, and a save that succeeded has put the new file in place.\<close>

lemma write_states_safe:
  assumes "loadCandidate D J x f = Some (old, g)" "loadCandidate D J x (f @ ''.bak'') = backup"
    and "sdFiles D x (f @ ''.tmp'') = Some []" "settledConfig new" "inBuffers new"
    and "pvValid (validatePinOwnership new)" "bs = take k (serializeJson J (saveDocument J new (nextGeneration g)))"
    and "sdWrite D x (f @ ''.tmp'') bs = (n, y)"
  shows "safeState D J f old g new backup y"
    and "loadCandidate D J y f = Some (old, g) \<and> loadCandidate D J y (f @ ''.bak'') = backup"
    and "loadCandidate D J y (f @ ''.tmp'') = None
      \<or> sdFiles D y (f @ ''.tmp'') = Some (serializeJson J (saveDocument J new (nextGeneration g)))"
proof -
  let ?text = "serializeJson J (saveDocument J new (nextGeneration g))"
  obtain j where "sdFiles D y = (sdFiles D x)(f @ ''.tmp'' := Some (take j bs))"
    using write_file [OF assms(8,3)] by auto
  then have y: "sdFiles D y = (sdFiles D x)(f @ ''.tmp'' := Some (take (min j k) ?text))"
    using assms(7) by simp
  have keep: "loadCandidate D J y f = Some (old, g)" "loadCandidate D J y (f @ ''.bak'') = backup"
    using assms(1,2) loadCandidate_files [of y f x f] loadCandidate_files [of y "f @ ''.bak''" x "f @ ''.bak''"]
    by (simp_all add: y)
  have tmp: "if min j k < length ?text then loadCandidate D J y (f @ ''.tmp'') = None
      else sdFiles D y (f @ ''.tmp'') = Some ?text \<and>
        loadCandidate D J y (f @ ''.tmp'') = Some (reloaded new, nextGeneration g)"
    using truncated_unreadable(2) [of y "f @ ''.tmp''" "min j k"]
      saveDocument_reads_back(2) [OF assms(4-6) next_not_zero, of y "f @ ''.tmp''" g]
    by (simp add: y not_less)
  show "safeState D J f old g new backup y" using keep tmp by (auto simp: safeState_def Let_def split: if_splits)
  show "loadCandidate D J y f = Some (old, g) \<and> loadCandidate D J y (f @ ''.bak'') = backup" using keep by simp
  show "loadCandidate D J y (f @ ''.tmp'') = None \<or> sdFiles D y (f @ ''.tmp'') = Some ?text"
    using tmp by (auto split: if_splits)
qed

lemma live_exists: "loadCandidate D J x p = Some r \<Longrightarrow> sdFiles D x p \<noteq> None"
  using loadCandidate_None by fastforce

lemma swap_safe:
  assumes "loadCandidate D J x f = Some (old, g)" "loadCandidate D J x (f @ ''.bak'') = backup"
    and tmp: "loadCandidate D J x (f @ ''.tmp'') = Some (reloaded new, nextGeneration g)"
    and "swapIn D f (f @ ''.tmp'') (f @ ''.bak'') x = (ok, t)"
  shows "\<forall>y\<in>set t. safeState D J f old g new backup y" "t \<noteq> []"
    and "ok \<Longrightarrow> loadCandidate D J (last t) f = Some (reloaded new, nextGeneration g)
      \<and> loadCandidate D J (last t) (f @ ''.tmp'') = None \<and> loadCandidate D J (last t) (f @ ''.bak'') = Some (old, g)"
proof -
  let ?tmp = "f @ ''.tmp''" and ?bak = "f @ ''.bak''"
  let ?c1 = "sdRemove D x ?bak"
  have 1: "loadCandidate D J ?c1 f = Some (old, g)" "loadCandidate D J ?c1 ?bak = None"
    "loadCandidate D J ?c1 ?tmp = Some (reloaded new, nextGeneration g)"
    using assms(1) tmp loadCandidate_files [of ?c1 f x f] loadCandidate_files [of ?c1 ?tmp x ?tmp]
    by (simp_all add: remove_file loadCandidate_None)
  then have had: "sdExists D ?c1 f" by (simp add: exists_file live_exists)
  obtain kept c2 where r2: "sdRename D ?c1 f ?bak = (kept, c2)" by fastforce
  obtain swapped c3 where r3: "sdRename D c2 ?tmp f = (swapped, c3)" by fastforce
  obtain restored c4 where r4: "sdRename D c3 ?bak f = (restored, c4)" by fastforce
  have t: "(ok, t) = (if \<not> kept then (False, [?c1, c2]) else if swapped then (True, [?c1, c2, c3])
      else if \<not> sdExists D c3 f then (False, [?c1, c2, c3, c4]) else (False, [?c1, c2, c3]))"
    using assms(4) by (simp add: swapIn_def Let_def had r2 r3 r4 split: if_splits)
  have s1: "safeState D J f old g new backup ?c1" using 1 by (simp add: safeState_def)
  have 2: "if kept then loadCandidate D J c2 f = None \<and> loadCandidate D J c2 ?bak = Some (old, g)
        \<and> loadCandidate D J c2 ?tmp = Some (reloaded new, nextGeneration g)
      else sdFiles D c2 = sdFiles D ?c1"
    using rename_file [OF r2] 1 loadCandidate_files [of c2 ?bak ?c1 f] loadCandidate_files [of c2 ?tmp ?c1 ?tmp]
    by (auto simp: loadCandidate_None split: if_splits)
  have s2: "safeState D J f old g new backup c2"
    using 1 2 loadCandidate_files [of c2 _ ?c1] by (auto simp: safeState_def Let_def split: if_splits)
  have 3: "if swapped then loadCandidate D J c3 f = Some (reloaded new, nextGeneration g)
        \<and> loadCandidate D J c3 ?tmp = None \<and> loadCandidate D J c3 ?bak = Some (old, g)
      else sdFiles D c3 = sdFiles D c2" if kept
    using that rename_file [OF r3] 2 loadCandidate_files [of c3 f c2 ?tmp] loadCandidate_files [of c3 ?bak c2 ?bak]
    by (auto simp: loadCandidate_None split: if_splits)
  have s3: "safeState D J f old g new backup c3" if kept
    using that 2 3 loadCandidate_files [of c3 _ c2] by (auto simp: safeState_def Let_def split: if_splits)
  have s4: "safeState D J f old g new backup c4" if kept "\<not> swapped"
  proof -
    have c3: "loadCandidate D J c3 f = None" "loadCandidate D J c3 ?bak = Some (old, g)"
        "loadCandidate D J c3 ?tmp = Some (reloaded new, nextGeneration g)"
      using that 2 3 loadCandidate_files [of c3 _ c2] by auto
    show ?thesis
      using rename_file [OF r4] c3 loadCandidate_files [of c4 f c3 ?bak] loadCandidate_files [of c4 ?tmp c3 ?tmp]
        loadCandidate_files [of c4 _ c3]
      by (auto simp: safeState_def Let_def loadCandidate_None split: if_splits)
  qed
  show "\<forall>y\<in>set t. safeState D J f old g new backup y" "t \<noteq> []" using t s1 s2 s3 s4 by (auto split: if_splits)
  show "ok \<Longrightarrow> loadCandidate D J (last t) f = Some (reloaded new, nextGeneration g)
      \<and> loadCandidate D J (last t) ?tmp = None \<and> loadCandidate D J (last t) ?bak = Some (old, g)"
    using t 3 by (auto split: if_splits)
qed

lemma save_safe:
  assumes "length f < 92" "loadCandidate D J x f = Some (old, g)"
    and new: "settledConfig new" "inBuffers new" "pvValid (validatePinOwnership new)"
  defines "r \<equiv> saveConfiguration D J True f new g x" and "backup \<equiv> loadCandidate D J x (f @ ''.bak'')"
  shows "\<forall>y\<in>set (saveTrace r). safeState D J f old g new backup y" "saveTrace r \<noteq> []"
    and "saveOk r \<Longrightarrow> loadCandidate D J (last (saveTrace r)) f = Some (reloaded new, nextGeneration g)
      \<and> loadCandidate D J (last (saveTrace r)) (f @ ''.tmp'') = None
      \<and> loadCandidate D J (last (saveTrace r)) (f @ ''.bak'') = Some (old, g)
      \<and> saveGeneration r = nextGeneration g"
proof -
  let ?tmp = "f @ ''.tmp''" and ?bak = "f @ ''.bak''"
  let ?text = "serializeJson J (saveDocument J new (nextGeneration g))"
  let ?c1 = "sdRemove D x ?tmp"
  have old1: "loadCandidate D J y f = Some (old, g) \<and> loadCandidate D J y ?bak = backup"
    if "sdFiles D y = (sdFiles D z)(?tmp := u)" "loadCandidate D J z f = Some (old, g)"
      "loadCandidate D J z ?bak = backup" for y z u
    using that loadCandidate_files [of y f z f] loadCandidate_files [of y ?bak z ?bak] by simp
  have 1: "loadCandidate D J ?c1 f = Some (old, g) \<and> loadCandidate D J ?c1 ?bak = backup"
    by (rule old1 [OF remove_file]) (simp_all add: assms)
  obtain opened c2 where r2: "sdCreate D ?c1 ?tmp = (opened, c2)" by fastforce
  have f2: "sdFiles D c2 = (sdFiles D ?c1)(?tmp := (if opened then Some [] else None))"
    using create_file [OF r2] by (auto simp: remove_file)
  have 2: "loadCandidate D J c2 f = Some (old, g) \<and> loadCandidate D J c2 ?bak = backup"
    by (rule old1 [OF f2]) (simp_all add: 1)
  have e2: "sdFiles D c2 ?tmp = (if opened then Some [] else None)" by (simp add: f2)
  have s12: "safeState D J f old g new backup ?c1" "safeState D J f old g new backup c2"
    using 1 2 e2 created_empty [of c2 ?tmp]
    by (auto simp: safeState_def Let_def loadCandidate_None remove_file split: if_splits)
  obtain n c3 where r3: "sdWrite D c2 ?tmp ?text = (n, c3)" by fastforce
  have w: "safeState D J f old g new backup y"
      "loadCandidate D J y f = Some (old, g) \<and> loadCandidate D J y ?bak = backup"
      "loadCandidate D J y ?tmp = None \<or> sdFiles D y ?tmp = Some ?text"
    if "opened" "sdWrite D c2 ?tmp (take k ?text) = (m, y)" for k m y
    using write_states_safe [OF conjunct1 [OF 2] conjunct2 [OF 2] _ new refl that(2)] e2 that(1) by simp_all
  have 3: "safeState D J f old g new backup c3"
      "loadCandidate D J c3 f = Some (old, g) \<and> loadCandidate D J c3 ?bak = backup"
      "loadCandidate D J c3 ?tmp = None \<or> sdFiles D c3 ?tmp = Some ?text" if opened
    using w [OF that, of "length ?text"] r3 by simp_all
  have ws: "\<forall>y\<in>set (writeStates D ?tmp ?text c2). safeState D J f old g new backup y" if opened
    using w(1) [OF that] 3(1) [OF that] by (auto simp: writeStates_def r3 intro: prod.collapse [symmetric])
  let ?c4 = "sdRemove D c3 ?tmp"
  have s4: "safeState D J f old g new backup ?c4" if opened
    using old1 [OF remove_file, of c3] 3(2) [OF that] by (auto simp: safeState_def Let_def loadCandidate_None remove_file)
  obtain ok t where sw: "swapIn D f ?tmp ?bak c3 = (ok, t)" by fastforce
  let ?verified = "map_option snd (readConfigDocument D J c3 ?tmp) = Some (nextGeneration g)"
  have tmp3: "loadCandidate D J c3 ?tmp = Some (reloaded new, nextGeneration g)" if opened ?verified
  proof -
    have "readConfigDocument D J c3 ?tmp \<noteq> None" using that(2) by auto
    then show ?thesis
      using write_file [OF r3, of "[]"] e2 that(1) truncated_unreadable(1) [of c3 ?tmp]
        saveDocument_reads_back(2) [OF new next_not_zero, of c3 ?tmp g]
      by (metis append_Nil fun_upd_same linorder_not_less nat_less_le take_all_iff)
  qed
  have r: "r = (let failed = (\<lambda>t. \<lparr>saveOk = False, saveGeneration = g, saveTrace = t\<rparr>);
        before = [?c1, c2] @ writeStates D ?tmp ?text c2 in
      if \<not> opened then failed [?c1, c2]
      else if n = 0 then failed (before @ [?c4])
      else if \<not> ?verified then failed (before @ [?c4])
      else if ok then \<lparr>saveOk = True, saveGeneration = nextGeneration g, saveTrace = before @ t\<rparr>
      else failed (before @ t))"
    using assms(1) by (simp add: r_def saveConfiguration_def siblings Let_def r2 r3 sw split: if_splits)
  note swap = swap_safe [OF conjunct1 [OF 3(2)] conjunct2 [OF 3(2)] tmp3 sw]
  show "\<forall>y\<in>set (saveTrace r). safeState D J f old g new backup y" "saveTrace r \<noteq> []"
    using s12 ws s4 swap(1) by (auto simp: r Let_def)
  show "saveOk r \<Longrightarrow> loadCandidate D J (last (saveTrace r)) f = Some (reloaded new, nextGeneration g)
      \<and> loadCandidate D J (last (saveTrace r)) ?tmp = None
      \<and> loadCandidate D J (last (saveTrace r)) ?bak = Some (old, g) \<and> saveGeneration r = nextGeneration g"
    using swap(2,3) by (auto simp: r Let_def split: if_splits)
qed

text \<open>While a recovery moves the winner into place, it stays the winner.\<close>

lemma set_aside_safe:
  assumes "length f < 92" "y \<in> set (setAside D f x)"
  shows "loadCandidate D J y (f @ ''.tmp'') = loadCandidate D J x (f @ ''.tmp'')"
    and "loadCandidate D J y (f @ ''.bak'') = loadCandidate D J x (f @ ''.bak'')"
    and "loadCandidate D J y f = None \<or> loadCandidate D J y f = loadCandidate D J x f"
proof -
  let ?bad = "f @ ''.bad''"
  let ?c1 = "sdRemove D x ?bad"
  obtain ok c2 where r2: "sdRename D ?c1 f ?bad = (ok, c2)" by fastforce
  have f1: "sdFiles D ?c1 f = sdFiles D x f"
    "sdFiles D ?c1 (f @ ''.tmp'') = sdFiles D x (f @ ''.tmp'')"
    "sdFiles D ?c1 (f @ ''.bak'') = sdFiles D x (f @ ''.bak'')"
    by (simp_all add: remove_file)
  have f2: "sdFiles D c2 f = None \<or> sdFiles D c2 f = sdFiles D x f"
    "sdFiles D c2 (f @ ''.tmp'') = sdFiles D x (f @ ''.tmp'')"
    "sdFiles D c2 (f @ ''.bak'') = sdFiles D x (f @ ''.bak'')"
    using rename_file [OF r2] f1 by (simp_all split: if_splits)
  have y: "y = ?c1 \<or> y = c2"
    using assms by (auto simp: setAside_def siblings Let_def r2 split: if_splits)
  show "loadCandidate D J y (f @ ''.tmp'') = loadCandidate D J x (f @ ''.tmp'')"
    "loadCandidate D J y (f @ ''.bak'') = loadCandidate D J x (f @ ''.bak'')"
    using y f1 f2 by (auto intro: loadCandidate_files)
  show "loadCandidate D J y f = None \<or> loadCandidate D J y f = loadCandidate D J x f"
    using y f1(1) f2(1) loadCandidate_None [of y f] loadCandidate_files [of y f x f] by auto
qed

lemma promote_safe:
  assumes "length f < 92" "src = f @ ''.tmp'' \<or> src = f @ ''.bak''" "y \<in> set (promote D f src x)"
  shows "(loadCandidate D J y f = None \<or> loadCandidate D J y f = loadCandidate D J x f)
      \<and> loadCandidate D J y (f @ ''.tmp'') = loadCandidate D J x (f @ ''.tmp'')
      \<and> loadCandidate D J y (f @ ''.bak'') = loadCandidate D J x (f @ ''.bak'')
    \<or> loadCandidate D J y f = loadCandidate D J x src
      \<and> loadCandidate D J y (f @ ''.tmp'') = (if src = f @ ''.tmp'' then None else loadCandidate D J x (f @ ''.tmp''))
      \<and> loadCandidate D J y (f @ ''.bak'') = (if src = f @ ''.bak'' then None else loadCandidate D J x (f @ ''.bak''))"
proof -
  have ne: "setAside D f x \<noteq> []" by (simp add: setAside_def Let_def split: option.splits)
  note s = set_aside_safe [OF assms(1) last_in_set [OF ne]]
  obtain ok z where r: "sdRename D (last (setAside D f x)) src f = (ok, z)" by fastforce
  consider "y \<in> set (setAside D f x)" | "y = z" using assms(3) by (auto simp: promote_def Let_def r)
  then show ?thesis
  proof cases
    case 1 then show ?thesis using set_aside_safe [OF assms(1) 1] by simp
  next
    case 2
    let ?l = "last (setAside D f x)"
    have z: "if ok then sdFiles D z = (sdFiles D ?l)(f := sdFiles D ?l src, src := None)
        else sdFiles D z = sdFiles D ?l" using rename_file [OF r] by (simp split: if_splits)
    have src: "src \<noteq> f" using assms(2) by auto
    show ?thesis
      using z s assms(2) src loadCandidate_files [of z _ ?l] loadCandidate_files [of z f ?l src]
        loadCandidate_None [of z src]
      unfolding 2 by (cases ok) (elim disjE; simp)+
  qed
qed

end

lemma newer_order:
  assumes "unat a < 2 ^ 31" "unat b < 2 ^ 31" shows "generationNewer a b \<longleftrightarrow> unat b < unat a"
proof -
  have e: "uint w = int (unat w)" for w :: u32 by simp
  have b: "0 \<le> uint a" "uint a < 2147483648" "0 \<le> uint b" "uint b < 2147483648"
    using assms unfolding e by (simp_all only: of_nat_0_le_iff of_nat_less_iff [where 'a = int, symmetric]) simp_all
  have d: "- 2147483648 \<le> uint a - uint b" "uint a - uint b < 2147483648" using b by linarith+
  have "sint (word_of_int (uint a - uint b) :: u32) = signed_take_bit 31 (uint a - uint b)"
    by (simp only: sint_sbintrunc' size_word.rep_eq) simp
  also have "\<dots> = uint a - uint b" using d by (intro signed_take_bit_int_eq_self) simp_all
  finally have "sint (a - b) = uint a - uint b" by (simp add: of_int_diff)
  then show ?thesis
    unfolding generationNewer_def using word_less_alt [of b a] word_less_nat_alt [of b a] by simp
qed

definition unwrapped :: "(MainConfig \<times> u32) option \<Rightarrow> bool" where
  "unwrapped x \<longleftrightarrow> (case x of None \<Rightarrow> True | Some (c, h) \<Rightarrow> unat h < 2 ^ 31)"

lemma unwrapped_simps [simp]: "unwrapped None" "unwrapped (Some (c, h)) \<longleftrightarrow> unat h < 2 ^ 31"
  by (simp_all add: unwrapped_def)

lemma chooseBest_promoted:
  assumes "chooseBest [L, T, B] 0 None = Some (i, c, h)" "unwrapped L" "unwrapped T" "unwrapped B"
    and "(L' = None \<or> L' = L) \<and> T' = T \<and> B' = B \<and> i \<noteq> 0 \<or> i = 1 \<and> L' = T \<and> T' = None \<and> B' = B
      \<or> i = 2 \<and> L' = B \<and> T' = T \<and> B' = None"
  shows "\<exists>j. chooseBest [L', T', B'] 0 None = Some (j, c, h)"
  using assms(5)
proof (elim disjE conjE)
  assume s: "T' = T" "B' = B" "i \<noteq> 0" "L' = None"
  show ?thesis using assms(1-4) unfolding s(1,2,4)
    by (cases L; cases T; cases B) (use s(3) in \<open>auto simp: newer_order split: if_splits\<close>)
next
  assume s: "i = 1" "L' = T" "T' = None" "B' = B"
  show ?thesis using assms(1-4) unfolding s
    by (cases L; cases T; cases B) (auto simp: newer_order split: if_splits)
next
  assume s: "i = 2" "L' = B" "T' = T" "B' = None"
  show ?thesis using assms(1-4) unfolding s
    by (cases L; cases T; cases B) (auto simp: newer_order split: if_splits)
qed (use assms(1) in auto)

lemma chooseBest_three:
  "chooseBest [L, T, B] 0 None = None \<Longrightarrow> L = None \<and> T = None \<and> B = None"
  "chooseBest [L, T, B] 0 None = Some (i, c, h) \<Longrightarrow> L = Some (c, h) \<or> T = Some (c, h) \<or> B = Some (c, h)"
  by (cases L; cases T; cases B; auto split: if_splits)+

lemma chooseBest_newest:
  assumes "chooseBest [L, T, B] 0 None = Some (i, c, h)" "unwrapped L" "unwrapped T" "unwrapped B"
    and "x \<in> {L, T, B}" "x = Some (c', h')"
  shows "unat h' \<le> unat h"
  using assms by (cases L; cases T; cases B) (auto simp: newer_order split: if_splits)

section \<open>A card that keeps the promises\<close>

text \<open>The directory itself, on which every operation succeeds.\<close>

definition refCard :: "(string \<Rightarrow> byte list option) SdLib" where
  "refCard = \<lparr>sdFiles = (\<lambda>c. c), sdExists = (\<lambda>c p. c p \<noteq> None), sdRead = (\<lambda>c. c),
     sdRemove = (\<lambda>c p. c(p := None)),
     sdRename = (\<lambda>c p q. if c p \<noteq> None \<and> c q = None then (True, c(q := c p, p := None)) else (False, c)),
     sdCreate = (\<lambda>c p. (True, if c p = None then c(p := Some []) else c)),
     sdWrite = (\<lambda>c p bs. (length bs, c(p := map_option (\<lambda>old. old @ bs) (c p))))\<rparr>"

lemma refCard_files [simp]: "sdFiles refCard c = c"
  by (simp add: refCard_def)

interpretation refStore: config_store refJson refCard
  by unfold_locales (auto simp: refCard_def split: if_splits)

definition exampleCard :: "string \<Rightarrow> byte list option" where
  "exampleCard = [''/settings.cfg'' \<mapsto> serializeJson refJson (saveDocument refJson defaultConfig 7)]"

lemma default_pins: "pvValid (validatePinOwnership defaultConfig)"
  by code_simp

lemma exampleCard_loads:
  "loadCandidate refCard refJson exampleCard ''/settings.cfg'' = Some (defaultConfig, 7)"
  "loadCandidate refCard refJson exampleCard ''/settings.cfg.tmp'' = None"
  "loadCandidate refCard refJson exampleCard ''/settings.cfg.bak'' = None"
proof -
  show "loadCandidate refCard refJson exampleCard ''/settings.cfg'' = Some (defaultConfig, 7)"
    using refStore.saveDocument_reads_back(2) [OF default_settled default_inBuffers default_pins, of 7 exampleCard "''/settings.cfg''"]
    by (simp add: exampleCard_def default_reloaded)
qed (simp_all add: refStore.loadCandidate_None exampleCard_def)

section \<open>Properties\<close>

text \<open>C6: a save survives a power cut at any point. The card is one whose live file is what a boot would load
  (boot leaves it so unless the promotion of another file failed) and whose backup is not half the range of the generations
  ahead; the configuration saved is a validated one in effect. Then whatever of the save the card carried
  out, also when a write falls short or a rename fails, the next boot loads the configuration from before the
  save or the new one, complete; and when the save reported success, the new one, with the
  generation it reported and nothing left to recover. The new one is as the reader takes it: the
  same if and only if five unsigned settings are below 2 ^ 31, and otherwise with those reset that
  \<open>Config_Json.reloaded_explicit\<close> spells out.\<close>

theorem save_survives_power_loss:
  fixes D :: "'c SdLib" and new old :: MainConfig
  assumes "config_store J D" "length f < 92"
    and "bestCandidate D J [f, f @ ''.tmp'', f @ ''.bak''] disk = Some (0, old, g)"
    and "\<And>c h. loadCandidate D J disk (f @ ''.bak'') = Some (c, h) \<Longrightarrow> \<not> generationNewer h (nextGeneration g)"
    and "settledConfig new" "inBuffers new" "pvValid (validatePinOwnership new)"
  defines "r \<equiv> saveConfiguration D J True f new g disk"
  shows "(\<forall>x\<in>set (saveTrace r). bootsWith D J f x old \<or> bootsWith D J f x (reloaded new))
    \<and> (saveOk r \<longrightarrow> loadConfiguration D J f defaultConfig 0 (last (saveTrace r))
         = \<lparr>loadOk = True, loadConfig = reloaded new, loadGeneration = saveGeneration r, loadTrace = []\<rparr>)
    \<and> (reloaded new = new \<longleftrightarrow> intSettings new)"
proof -
  have live: "loadCandidate D J disk f = Some (old, g)"
    using best_live(1) [OF assms(3)] .
  note safe = config_store.save_safe [OF assms(1,2) live assms(5-7), folded r_def]
  have b: "\<not> generationNewer h g \<and> \<not> generationNewer h (nextGeneration g)"
    if "loadCandidate D J disk (f @ ''.bak'') = Some (c, h)" for c h
    using that best_live(2) [OF assms(3)] assms(4) by blast
  show ?thesis
  proof (intro conjI impI ballI)
    show "bootsWith D J f x old \<or> bootsWith D J f x (reloaded new)" if "x \<in> set (saveTrace r)" for x
      using safe_boots [OF assms(2) bspec [OF safe(1) that] b] .
    show "loadConfiguration D J f defaultConfig 0 (last (saveTrace r))
        = \<lparr>loadOk = True, loadConfig = reloaded new, loadGeneration = saveGeneration r, loadTrace = []\<rparr>" if "saveOk r"
      using safe(3) [OF that] newer_next(2) [of g]
      by (simp add: loadConfiguration_def siblings assms(2) bestCandidate_three)
    show "reloaded new = new \<longleftrightarrow> intSettings new" by (rule reloaded_iff [OF assms(5)])
  qed
qed

lemma save_survives_power_loss_witness:
  "(\<forall>x\<in>set (saveTrace (saveConfiguration refCard refJson True ''/settings.cfg'' defaultConfig 7 exampleCard)).
      bootsWith refCard refJson ''/settings.cfg'' x defaultConfig) = True"
  using save_survives_power_loss [of refJson refCard "''/settings.cfg''" exampleCard defaultConfig 7 defaultConfig]
    refStore.config_store_axioms
  by (simp add: bestCandidate_three Let_def exampleCard_loads default_settled default_inBuffers default_pins default_reloaded)

text \<open>C30: boot takes the newest complete file and its repair can be interrupted anywhere: while the
  damaged live file is set aside and the good copy takes its place, and after that, every boot
  loads the same configuration and generation (for generations that have not wrapped around);
  with no complete file nothing changes, neither the configuration in memory nor the card.\<close>

theorem recovery_survives_power_loss:
  fixes D :: "'c SdLib" and cfg cfg' :: MainConfig and g g' :: u32 and f :: string and disk :: 'c
  assumes "config_store J D" "length f < 92"
    and "\<And>p c h. loadCandidate D J disk p = Some (c, h) \<Longrightarrow> unat h < 2 ^ 31"
  defines "l \<equiv> loadConfiguration D J f cfg g disk"
  shows "(\<forall>x\<in>set (loadTrace l). loadOk (loadConfiguration D J f cfg' g' x)
       \<and> loadConfig (loadConfiguration D J f cfg' g' x) = loadConfig l
       \<and> loadGeneration (loadConfiguration D J f cfg' g' x) = loadGeneration l)
    \<and> (loadOk l \<longleftrightarrow> (\<exists>p\<in>{f, f @ ''.tmp'', f @ ''.bak''}. \<exists>r. loadCandidate D J disk p = Some r))
    \<and> (loadOk l \<longrightarrow> (\<exists>p\<in>{f, f @ ''.tmp'', f @ ''.bak''}.
         loadCandidate D J disk p = Some (loadConfig l, loadGeneration l)))
    \<and> (\<forall>p\<in>{f, f @ ''.tmp'', f @ ''.bak''}. \<forall>c h. loadCandidate D J disk p = Some (c, h) \<longrightarrow>
         unat h \<le> unat (loadGeneration l))
    \<and> (\<not> loadOk l \<longrightarrow> l = \<lparr>loadOk = False, loadConfig = cfg, loadGeneration = g, loadTrace = []\<rparr>)"
proof (cases "bestCandidate D J [f, f @ ''.tmp'', f @ ''.bak''] disk")
  case None
  then have "l = \<lparr>loadOk = False, loadConfig = cfg, loadGeneration = g, loadTrace = []\<rparr>"
    by (simp add: l_def loadConfiguration_def siblings assms(2))
  then show ?thesis using chooseBest_three(1) [OF None [unfolded bestCandidate_def list.map]] by simp
next
  case (Some b)
  then obtain i c h where best: "bestCandidate D J [f, f @ ''.tmp'', f @ ''.bak''] disk = Some (i, c, h)"
    by (cases b) simp
  note cb = best [unfolded bestCandidate_def list.map]
  have u: "unwrapped (loadCandidate D J disk p)" for p
    using assms(3) [of p] by (auto simp: unwrapped_def split: option.splits)
  note win = chooseBest_three(2) [OF cb] and top = chooseBest_newest [OF cb u u u]
  have l: "loadOk l" "loadConfig l = c" "loadGeneration l = h"
    "loadTrace l = (if i = 1 then promote D f (f @ ''.tmp'') disk
       else if i = 2 then promote D f (f @ ''.bak'') disk else [])"
    using best by (simp_all add: l_def loadConfiguration_def siblings assms(2))
  have stays: "\<exists>j. bestCandidate D J [f, f @ ''.tmp'', f @ ''.bak''] x = Some (j, c, h)"
    if "x \<in> set (loadTrace l)" for x
  proof -
    have i: "i = 1 \<or> i = 2" using that l(4) by (auto split: if_splits)
    have "x \<in> set (promote D f (if i = 1 then f @ ''.tmp'' else f @ ''.bak'') disk)"
      using that l(4) i by auto
    from config_store.promote_safe [OF assms(1,2) _ this] show ?thesis
      unfolding bestCandidate_def list.map using i
      by (intro chooseBest_promoted [OF cb u u u]) (auto split: if_splits)
  qed
  show ?thesis
  proof (intro conjI)
    show "\<forall>x\<in>set (loadTrace l). loadOk (loadConfiguration D J f cfg' g' x)
       \<and> loadConfig (loadConfiguration D J f cfg' g' x) = loadConfig l
       \<and> loadGeneration (loadConfiguration D J f cfg' g' x) = loadGeneration l"
    proof
      fix x assume "x \<in> set (loadTrace l)"
      from stays [OF this] obtain j
        where "bestCandidate D J [f, f @ ''.tmp'', f @ ''.bak''] x = Some (j, c, h)" by blast
      then show "loadOk (loadConfiguration D J f cfg' g' x)
         \<and> loadConfig (loadConfiguration D J f cfg' g' x) = loadConfig l
         \<and> loadGeneration (loadConfiguration D J f cfg' g' x) = loadGeneration l"
        by (simp add: l(1-3) loadConfiguration_def siblings assms(2))
    qed
    show "loadOk l \<longleftrightarrow> (\<exists>p\<in>{f, f @ ''.tmp'', f @ ''.bak''}. \<exists>r. loadCandidate D J disk p = Some r)"
      "loadOk l \<longrightarrow> (\<exists>p\<in>{f, f @ ''.tmp'', f @ ''.bak''}.
         loadCandidate D J disk p = Some (loadConfig l, loadGeneration l))"
      using win by (simp_all only: l bex_simps) blast+
    show "\<forall>p\<in>{f, f @ ''.tmp'', f @ ''.bak''}. \<forall>c h. loadCandidate D J disk p = Some (c, h) \<longrightarrow>
         unat h \<le> unat (loadGeneration l)"
      unfolding l(3) by (intro ballI allI impI, rule top) auto
  qed (simp add: l(1))
qed

lemma recovery_survives_power_loss_witness:
  "loadOk (loadConfiguration refCard refJson ''/settings.cfg'' defaultConfig 0 exampleCard)"
proof -
  have "unat h < 2 ^ 31" if "loadCandidate refCard refJson exampleCard p = Some (c, h)" for p c h
  proof (cases "p = ''/settings.cfg''")
    case False
    then show ?thesis
      using that refStore.loadCandidate_None [of exampleCard p] by (simp add: exampleCard_def)
  qed (use that exampleCard_loads(1) in auto)
  then show ?thesis
    using recovery_survives_power_loss [of refJson refCard "''/settings.cfg''" exampleCard defaultConfig 0]
      refStore.config_store_axioms exampleCard_loads(1) by simp
qed

end
