(* ===== verification/Pwm_Protection.thy ===== *)
theory Pwm_Protection
  imports Config_Types
begin

text \<open>
  \<open>src/src/pwm_utils.cpp\<close>: when the PWM outputs may be connected to their pads. Every output driver is
  disconnected from reset on; \<open>clearFaultTrip\<close> and \<open>releaseOutputInhibit\<close> connect them after all
  protection sources were sampled quiet, and any fault, interlock or reconfiguration disconnects
  them again (\<open>maskAllOutputsSafely\<close>).

  The fault interrupts of the GPIO pin and of the comparator preempt the main program between any
  two of its steps, except where it disables interrupts. The main program is therefore a machine
  with a program counter \<open>Pc\<close>, one constructor per point of the release protocol where an interrupt can
  fall between two of its tests and writes; masking, restoring the polarity and each configuration
  step are one step each. \<open>mainStep\<close> is the next step, given what the hardware inputs read at
  that moment (\<open>Sense\<close>). The OUTEN registers of the four modules and the OCTRL registers of FlexPWM2
  are part of the state; log lines are left out.
\<close>

section \<open>State\<close>

datatype Pc = Idle
  | ClearGuard bool | ClearPin bool | ClearLatch bool | ClearVerify bool | ClearAck bool
  | RelEntry | RelCheck u32 | RelRefuse | RelPolarity u32 | RelTimers u32 | RelIrqOff u32
  | RelCommit u32 | RelAbort | RelIrqOn u32 | RelConfirm u32 | ClearRefused | ClearDone
  | SetupPwm | SetupFault | SetupAcmp | SetupThermal
  | ApplyMask bool bool bool | ApplyFault bool bool bool | ApplyThermal bool bool bool | ApplyPwm bool bool bool
  | ApplyAcmp bool bool bool | ApplyEnd bool

record Pwm =
  vFaultTripped :: bool
  vFaultGeneration :: u32
  vPwmConfigurationValid :: bool
  vOutputInhibited :: bool
  vRestartInhibited :: bool
  vHardwareInhibited :: bool
  vProvisioningInhibited :: bool
  vInvertedCellMask :: byte
  outen :: "nat \<Rightarrow> u16"
  octrl :: "nat \<Rightarrow> u16"
  timersEnabled :: bool
  moduleIrq :: bool
  faultIrq :: bool
  irqsOff :: bool
  faultCfg :: FaultProtectionConfig
  pc :: Pc
  released :: bool

definition pwmBoot :: Pwm where
  "pwmBoot = \<lparr>vFaultTripped = False, vFaultGeneration = 0, vPwmConfigurationValid = True,
     vOutputInhibited = True, vRestartInhibited = False, vHardwareInhibited = False,
     vProvisioningInhibited = True, vInvertedCellMask = 0, outen = (\<lambda>_. 0), octrl = (\<lambda>_. 0),
     timersEnabled = False, moduleIrq = False, faultIrq = False, irqsOff = False,
     faultCfg = defaultFaultProtection, pc = Idle, released = False\<rparr>"

text \<open>What the inputs read at one moment: the level of the fault pin, the comparator's state (\<open>acmp.cpp\<close>),
  the thermal and MTP interlocks, whether a reconfiguration keeps the last temperature, and the result of staging a PWM or comparator configuration.\<close>

record Sense =
  pinHigh :: bool
  acmpReady :: bool
  acmpPin :: bool
  acmpLatched :: bool
  acmpArmed :: bool
  thermalAllows :: bool
  thermalKeepsSample :: bool
  mtpAllows :: bool
  interruptRequired :: bool
  stagedOk :: bool
  stagedMask :: byte
  stagedOctrl :: "nat \<Rightarrow> u16"
  acmpArmOk :: bool

section \<open>Registers\<close>

definition MaxCells :: nat where "MaxCells = 4"

definition CellSmIdx :: "nat \<Rightarrow> nat" where
  "CellSmIdx k = [0, 2, 1, 3] ! k"

definition Pol :: u16 where [const_defs]: "Pol = 0x0600"

definition setCellPolarityInverted :: "nat \<Rightarrow> bool \<Rightarrow> (nat \<Rightarrow> u16) \<Rightarrow> nat \<Rightarrow> u16" where
  "setCellPolarityInverted k inverted oc =
     (let i = CellSmIdx k in oc(i := (if inverted then oc i OR Pol else oc i AND NOT Pol)))"

definition disconnectAllOutputDrivers :: "Pwm \<Rightarrow> Pwm" where
  "disconnectAllOutputDrivers s = s\<lparr>outen := (\<lambda>_. 0)\<rparr>"

definition connectConfiguredOutputDrivers :: "Pwm \<Rightarrow> Pwm" where
  "connectConfiguredOutputDrivers s = s\<lparr>outen := (\<lambda>m. [0x0880, 0x0FD0, 0x0220, 0x0740] ! m)\<rparr>"

text \<open>The loops over the set bits of the mask of inverted cells.\<close>

definition eachInverted :: "byte \<Rightarrow> bool \<Rightarrow> (nat \<Rightarrow> u16) \<Rightarrow> nat \<Rightarrow> u16" where
  "eachInverted m inverted oc =
     foldl (\<lambda>oc k. if bit m k then setCellPolarityInverted k inverted oc else oc) oc [0..<MaxCells]"

definition maskAllOutputsSafely :: "Pwm \<Rightarrow> Pwm" where
  "maskAllOutputsSafely s =
     (let s = disconnectAllOutputDrivers
                (s\<lparr>vOutputInhibited := True, vFaultGeneration := vFaultGeneration s + 1\<rparr>)
      in s\<lparr>octrl := eachInverted (vInvertedCellMask s) False (octrl s), timersEnabled := False\<rparr>)"

definition restoreCellPolarity :: "Pwm \<Rightarrow> Pwm" where
  "restoreCellPolarity s = s\<lparr>octrl := eachInverted (vInvertedCellMask s) True (octrl s)\<rparr>"

definition faultStateDrivesLowForPolarity :: "u16 \<Rightarrow> bool \<Rightarrow> bool \<Rightarrow> bool" where
  "faultStateDrivesLowForPolarity oc channelA inverted \<longleftrightarrow>
     (drop_bit (if channelA then 4 else 2) oc AND 0x03) = (if inverted then 1 else 0)"

definition pwmFaultStatesSafeForConfiguredPolarity :: "u16 \<Rightarrow> byte \<Rightarrow> (nat \<Rightarrow> u16) \<Rightarrow> bool" where
  "pwmFaultStatesSafeForConfiguredPolarity sm13 invertedMask oc \<longleftrightarrow>
     sm13 AND Pol = 0 \<and> faultStateDrivesLowForPolarity sm13 True False
     \<and> faultStateDrivesLowForPolarity sm13 False False
     \<and> list_all (\<lambda>k. let inverted = bit invertedMask k; o' = oc (CellSmIdx k) in
          (inverted \<or> o' AND Pol = 0) \<and> faultStateDrivesLowForPolarity o' True inverted
          \<and> faultStateDrivesLowForPolarity o' False inverted) [0..<MaxCells]"

section \<open>Trips and interlocks\<close>

definition gpioActive :: "FaultProtectionConfig \<Rightarrow> Sense \<Rightarrow> bool" where
  "gpioActive f i \<longleftrightarrow> fpEnabled f \<and> pinHigh i = ActiveHigh f"

definition protectionLiveOrLatched :: "Sense \<Rightarrow> Pwm \<Rightarrow> bool" where
  "protectionLiveOrLatched i s \<longleftrightarrow>
     \<not> acmpReady i \<or> gpioActive (faultCfg s) i \<or> acmpPin i \<or> acmpLatched i"

definition faultTripIsr :: "Pwm \<Rightarrow> Pwm" where
  "faultTripIsr s = (maskAllOutputsSafely s)\<lparr>moduleIrq := False, vFaultTripped := True\<rparr>"

definition acmpFaultIsr :: "Pwm \<Rightarrow> Pwm" where
  "acmpFaultIsr s = (maskAllOutputsSafely s)\<lparr>moduleIrq := False, faultIrq := False, vFaultTripped := True\<rparr>"

definition enterOtaSafeState :: "Pwm \<Rightarrow> Pwm" where
  "enterOtaSafeState s = maskAllOutputsSafely (s\<lparr>moduleIrq := False\<rparr>)"

definition setPwmRestartInhibit :: "bool \<Rightarrow> Pwm \<Rightarrow> Pwm" where
  "setPwmRestartInhibit inhibit s =
     (let s = s\<lparr>vRestartInhibited := inhibit\<rparr> in if inhibit then maskAllOutputsSafely s else s)"

definition setPwmHardwareInhibit :: "bool \<Rightarrow> Pwm \<Rightarrow> Pwm" where
  "setPwmHardwareInhibit inhibit s =
     (let s = s\<lparr>vHardwareInhibited := inhibit\<rparr> in if inhibit then maskAllOutputsSafely s else s)"

definition setPwmProvisioningInhibit :: "bool \<Rightarrow> Pwm \<Rightarrow> Pwm" where
  "setPwmProvisioningInhibit inhibit s =
     (let s = s\<lparr>vProvisioningInhibited := inhibit\<rparr> in if inhibit then maskAllOutputsSafely s else s)"

definition configureFaultProtection :: "FaultProtectionConfig \<Rightarrow> Sense \<Rightarrow> Pwm \<Rightarrow> Pwm" where
  "configureFaultProtection f i s =
     (let s = s\<lparr>faultCfg := f\<rparr> in if gpioActive f i then faultTripIsr s else s)"

definition failCurrentLimitArm :: "Pwm \<Rightarrow> Pwm" where
  "failCurrentLimitArm s = (maskAllOutputsSafely (s\<lparr>faultIrq := False\<rparr>))\<lparr>vFaultTripped := True\<rparr>"

definition armCurrentLimit :: "Sense \<Rightarrow> Pwm \<Rightarrow> Pwm" where
  "armCurrentLimit i s =
     (let s = s\<lparr>faultIrq := False\<rparr> in
      if \<not> acmpArmOk i then failCurrentLimitArm s
      else if acmpArmed i
        then if acmpLatched i then (maskAllOutputsSafely (s\<lparr>vFaultTripped := True\<rparr>))\<lparr>moduleIrq := False\<rparr>
             else s\<lparr>faultIrq := True\<rparr>
      else s)"

definition configurePwm :: "Sense \<Rightarrow> Pwm \<Rightarrow> Pwm" where
  "configurePwm i s =
     (let s = maskAllOutputsSafely (s\<lparr>vPwmConfigurationValid := True\<rparr>)
      in s\<lparr>vInvertedCellMask := stagedMask i, octrl := stagedOctrl i, vPwmConfigurationValid := stagedOk i\<rparr>)"

text \<open>\<open>thermalConfigure\<close> (\<open>thermal.cpp\<close>) trips when it must scan the bus while the outputs run.\<close>

definition thermalConfigure :: "Sense \<Rightarrow> Pwm \<Rightarrow> Pwm" where
  "thermalConfigure i s =
     (if \<not> thermalKeepsSample i \<and> \<not> vOutputInhibited s
      then (maskAllOutputsSafely (s\<lparr>vFaultTripped := True\<rparr>))\<lparr>moduleIrq := False\<rparr> else s)"

section \<open>The main program\<close>

text \<open>\<open>clearFaultTrip\<close> from \<open>ClearGuard\<close> on, \<open>releaseOutputInhibit\<close> from \<open>RelEntry\<close> on,
  the part of \<open>setup\<close> that brings the outputs up from \<open>SetupPwm\<close> on, \<open>applyPwmConfig\<close> from
  \<open>ApplyMask\<close> on (the booleans: PWM, current limit and fault settings changed).\<close>

definition clearReturns :: "bool \<Rightarrow> Pwm \<Rightarrow> Pwm" where
  "clearReturns r s = s\<lparr>pc := Idle, released := r\<rparr>"

definition releaseStep :: "Sense \<Rightarrow> Pwm \<Rightarrow> Pwm" where
  "releaseStep i s = (case pc s of
     RelEntry \<Rightarrow> s\<lparr>pc := RelCheck (vFaultGeneration s)\<rparr>
   | RelCheck g \<Rightarrow>
       if \<not> vPwmConfigurationValid s \<or> vFaultTripped s \<or> vRestartInhibited s \<or> vHardwareInhibited s
          \<or> vProvisioningInhibited s \<or> protectionLiveOrLatched i s \<or> \<not> thermalAllows i \<or> \<not> mtpAllows i
       then s\<lparr>pc := RelRefuse\<rparr> else s\<lparr>pc := RelPolarity g\<rparr>
   | RelRefuse \<Rightarrow>
       (disconnectAllOutputDrivers
         (if protectionLiveOrLatched i s then s\<lparr>vFaultTripped := True\<rparr> else s))\<lparr>pc := ClearRefused\<rparr>
   | RelPolarity g \<Rightarrow> (restoreCellPolarity s)\<lparr>pc := RelTimers g\<rparr>
   | RelTimers g \<Rightarrow> s\<lparr>timersEnabled := True, pc := RelIrqOff g\<rparr>
   | RelIrqOff g \<Rightarrow> s\<lparr>irqsOff := True, pc := RelCommit g\<rparr>
   | RelCommit g \<Rightarrow>
       if vFaultTripped s \<or> vFaultGeneration s \<noteq> g \<or> protectionLiveOrLatched i s
          \<or> \<not> thermalAllows i \<or> \<not> mtpAllows i
       then s\<lparr>irqsOff := False, pc := RelAbort\<rparr>
       else (connectConfiguredOutputDrivers s)\<lparr>vOutputInhibited := False, pc := RelIrqOn g\<rparr>
   | RelAbort \<Rightarrow> (maskAllOutputsSafely s)\<lparr>pc := ClearRefused\<rparr>
   | RelIrqOn g \<Rightarrow> s\<lparr>irqsOff := False, pc := RelConfirm g\<rparr>
   | RelConfirm g \<Rightarrow>
       if vFaultTripped s \<or> vFaultGeneration s \<noteq> g \<or> protectionLiveOrLatched i s
       then (maskAllOutputsSafely s)\<lparr>pc := ClearRefused\<rparr> else s\<lparr>pc := ClearDone\<rparr>
   | _ \<Rightarrow> s)"

definition clearStep :: "Sense \<Rightarrow> Pwm \<Rightarrow> Pwm" where
  "clearStep i s = (case pc s of
     ClearGuard op \<Rightarrow>
       if vProvisioningInhibited s \<or> vHardwareInhibited s \<or> \<not> vPwmConfigurationValid s
          \<or> (vRestartInhibited s \<and> \<not> op) \<or> (vFaultTripped s \<and> \<not> op)
       then clearReturns False s else s\<lparr>pc := ClearPin op\<rparr>
   | ClearPin op \<Rightarrow> if acmpArmed i \<and> acmpPin i then clearReturns False s else s\<lparr>pc := ClearLatch op\<rparr>
   | ClearLatch op \<Rightarrow> if vFaultTripped s then s\<lparr>pc := ClearVerify op\<rparr> else s\<lparr>pc := ClearAck op\<rparr>
   | ClearVerify op \<Rightarrow>
       if acmpPin i \<or> acmpLatched i then clearReturns False (s\<lparr>vFaultTripped := True\<rparr>)
       else s\<lparr>pc := ClearAck op\<rparr>
   | ClearAck op \<Rightarrow> s\<lparr>vRestartInhibited := (vRestartInhibited s \<and> \<not> op), vFaultTripped := False, pc := RelEntry\<rparr>
   | ClearRefused \<Rightarrow> clearReturns False (s\<lparr>vFaultTripped := True\<rparr>)
   | ClearDone \<Rightarrow> clearReturns True
       (s\<lparr>moduleIrq := (moduleIrq s \<or> interruptRequired i), faultIrq := (faultIrq s \<or> acmpArmed i)\<rparr>)
   | _ \<Rightarrow> releaseStep i s)"

definition setupStep :: "Sense \<Rightarrow> Pwm \<Rightarrow> Pwm" where
  "setupStep i s = (case pc s of
     SetupPwm \<Rightarrow> (configurePwm i s)\<lparr>pc := SetupFault\<rparr>
   | SetupFault \<Rightarrow> (configureFaultProtection (faultCfg s) i s)\<lparr>pc := SetupAcmp\<rparr>
   | SetupAcmp \<Rightarrow> (armCurrentLimit i s)\<lparr>pc := SetupThermal\<rparr>
   | SetupThermal \<Rightarrow> (thermalConfigure i s)\<lparr>pc := ClearGuard False\<rparr>
   | _ \<Rightarrow> clearStep i s)"

definition applyStep :: "Sense \<Rightarrow> Pwm \<Rightarrow> Pwm" where
  "applyStep i s = (case pc s of
     ApplyMask p l f \<Rightarrow>
       (if p \<or> l \<or> f then (maskAllOutputsSafely s)\<lparr>moduleIrq := False\<rparr> else s)\<lparr>pc := ApplyFault p l f\<rparr>
   | ApplyFault p l f \<Rightarrow>
       (if f then configureFaultProtection (faultCfg s) i s else s)\<lparr>pc := ApplyThermal p l f\<rparr>
   | ApplyThermal p l f \<Rightarrow> (thermalConfigure i s)\<lparr>pc := ApplyPwm p l f\<rparr>
   | ApplyPwm p l f \<Rightarrow> (if p then configurePwm i s else s)\<lparr>pc := ApplyAcmp p l f\<rparr>
   | ApplyAcmp p l f \<Rightarrow> (if l \<or> p then armCurrentLimit i s else s)\<lparr>pc := ApplyEnd (p \<or> l \<or> f)\<rparr>
   | ApplyEnd changed \<Rightarrow>
       if vFaultTripped s \<or> vRestartInhibited s \<or> vHardwareInhibited s \<or> vProvisioningInhibited s
          \<or> \<not> vPwmConfigurationValid s
       then (maskAllOutputsSafely s)\<lparr>moduleIrq := False, pc := Idle\<rparr>
       else if changed then s\<lparr>pc := ClearGuard False\<rparr> else s\<lparr>pc := Idle\<rparr>
   | _ \<Rightarrow> setupStep i s)"

definition mainStep :: "Sense \<Rightarrow> Pwm \<Rightarrow> Pwm" where
  "mainStep i s = applyStep i s"

lemmas mainStep_defs = mainStep_def applyStep_def setupStep_def clearStep_def releaseStep_def

section \<open>Requests and interleavings\<close>

text \<open>What the rest of the program asks for when none of these functions is running: an acknowledgement by
  the operator (or by the program itself), the interlocks, the OTA safe state, the bring-up in \<open>setup\<close>
  with what it found (an unsafe restart, missing PSRAM, no durable configuration), and a new
  configuration, of which the fault settings are part.\<close>

datatype Request = ClearFault bool | RestartInhibit bool | HardwareInhibit bool | ProvisioningInhibit bool
  | OtaSafe | Start bool bool bool FaultProtectionConfig | Apply bool bool bool FaultProtectionConfig

definition request :: "Request \<Rightarrow> Pwm \<Rightarrow> Pwm" where
  "request r s = (case r of
     ClearFault op \<Rightarrow> s\<lparr>pc := ClearGuard op\<rparr>
   | RestartInhibit b \<Rightarrow> setPwmRestartInhibit b s
   | HardwareInhibit b \<Rightarrow> setPwmHardwareInhibit b s
   | ProvisioningInhibit b \<Rightarrow> setPwmProvisioningInhibit b s
   | OtaSafe \<Rightarrow> enterOtaSafeState s
   | Start unsafe noPsram unprovisioned cfg \<Rightarrow>
       (setPwmProvisioningInhibit unprovisioned (setPwmHardwareInhibit noPsram
         (setPwmRestartInhibit unsafe s)))\<lparr>faultCfg := cfg, pc := SetupPwm\<rparr>
   | Apply p l f cfg \<Rightarrow> s\<lparr>faultCfg := cfg, pc := ApplyMask p l f\<rparr>)"

text \<open>Staging a configuration programs the polarity bits of each cell as its level asks (the eFlex
  library's \<open>updateSetting\<close>).\<close>

definition stagesPolarity :: "Sense \<Rightarrow> bool" where
  "stagesPolarity i \<longleftrightarrow>
     (\<forall>k<4. stagedOctrl i (CellSmIdx k) AND Pol = (if bit (stagedMask i) k then Pol else 0))"

inductive pwmStep :: "Pwm \<Rightarrow> Pwm \<Rightarrow> bool" where
  main: "stagesPolarity i \<Longrightarrow> pwmStep s (mainStep i s)"
| gpioTrip: "\<not> irqsOff s \<Longrightarrow> pwmStep s (faultTripIsr s)"
| acmpTrip: "\<not> irqsOff s \<Longrightarrow> pwmStep s (acmpFaultIsr s)"
| request: "pc s = Idle \<Longrightarrow> pwmStep s (request r s)"

inductive pwmReach :: "Pwm \<Rightarrow> bool" where
  boot: "pwmReach pwmBoot"
| step: "pwmReach s \<Longrightarrow> pwmStep s s' \<Longrightarrow> pwmReach s'"

definition connected :: "Pwm \<Rightarrow> bool" where
  "connected s \<longleftrightarrow> (\<exists>m<4. outen s m \<noteq> 0)"

definition polarityRestored :: "Pwm \<Rightarrow> bool" where
  "polarityRestored s \<longleftrightarrow>
     (\<forall>k<4. octrl s (CellSmIdx k) AND Pol = (if bit (vInvertedCellMask s) k then Pol else 0))"

subsection \<open>Polarity\<close>

lemma upt4: "[0..<MaxCells] = [0, 1, 2, 3]" by (simp add: MaxCells_def upt_rec)

lemma all4: "(\<forall>k<4. P k) \<longleftrightarrow> P 0 \<and> P 1 \<and> P 2 \<and> P (3 :: nat)"
  by (auto simp: less_Suc_eq numeral_eq_Suc)

lemma cells: "CellSmIdx 0 = 0" "CellSmIdx 1 = 2" "CellSmIdx 2 = 1" "CellSmIdx 3 = 3" "CellSmIdx (Suc 0) = 2"
  by (simp_all add: CellSmIdx_def)

lemma pol_algebra: "(x OR Pol) AND Pol = Pol" "(x AND NOT Pol) AND Pol = 0"
  by (simp_all add: bit_eq_iff bit_simps)

lemma cell_cases: "k < 4 \<Longrightarrow> k = 0 \<or> k = 1 \<or> k = 2 \<or> k = (3 :: nat)"
  by linarith

lemma eachInverted_cell:
  assumes "k < 4"
  shows "eachInverted m inverted oc (CellSmIdx k)
    = (if bit m k then (if inverted then oc (CellSmIdx k) OR Pol else oc (CellSmIdx k) AND NOT Pol)
       else oc (CellSmIdx k))"
  using cell_cases [OF assms]
  by (elim disjE) (simp_all add: eachInverted_def upt4 setCellPolarityInverted_def Let_def CellSmIdx_def)

lemma eachInverted_polarity:
  assumes "\<forall>k<4. \<not> bit m k \<longrightarrow> oc (CellSmIdx k) AND Pol = 0" "k < 4"
  shows "eachInverted m inverted oc (CellSmIdx k) AND Pol = (if inverted \<and> bit m k then Pol else 0)"
  using assms by (simp add: eachInverted_cell pol_algebra)

section \<open>The invariant\<close>

definition allowed :: "Pwm \<Rightarrow> bool" where
  "allowed s \<longleftrightarrow> vPwmConfigurationValid s \<and> \<not> vRestartInhibited s \<and> \<not> vHardwareInhibited s
     \<and> \<not> vProvisioningInhibited s"

definition plainCells :: "Pwm \<Rightarrow> bool" where
  "plainCells s \<longleftrightarrow> (\<forall>k<4. \<not> bit (vInvertedCellMask s) k \<longrightarrow> octrl s (CellSmIdx k) AND Pol = 0)"

definition pcInv :: "Pwm \<Rightarrow> bool" where
  "pcInv s \<longleftrightarrow> (case pc s of
     ClearVerify _ \<Rightarrow> \<not> connected s
   | ClearRefused \<Rightarrow> \<not> connected s
   | RelPolarity _ \<Rightarrow> allowed s
   | RelTimers _ \<Rightarrow> allowed s \<and> (\<not> vFaultTripped s \<longrightarrow> polarityRestored s)
   | RelIrqOff _ \<Rightarrow> allowed s \<and> (\<not> vFaultTripped s \<longrightarrow> polarityRestored s \<and> timersEnabled s)
   | RelCommit _ \<Rightarrow> allowed s \<and> (\<not> vFaultTripped s \<longrightarrow> polarityRestored s \<and> timersEnabled s)
   | _ \<Rightarrow> True)"

definition pwmInv :: "Pwm \<Rightarrow> bool" where
  "pwmInv s \<longleftrightarrow> plainCells s \<and> pcInv s
     \<and> (irqsOff s \<longleftrightarrow> (\<exists>g. pc s = RelCommit g \<or> pc s = RelIrqOn g))
     \<and> (connected s \<longrightarrow> \<not> vFaultTripped s \<and> \<not> vOutputInhibited s \<and> allowed s \<and> timersEnabled s
          \<and> polarityRestored s)"

lemma mask_simps [simp]:
  "connected (maskAllOutputsSafely s) \<longleftrightarrow> False"
  "vFaultTripped (maskAllOutputsSafely s) = vFaultTripped s"
  "vPwmConfigurationValid (maskAllOutputsSafely s) = vPwmConfigurationValid s"
  "vRestartInhibited (maskAllOutputsSafely s) = vRestartInhibited s"
  "vHardwareInhibited (maskAllOutputsSafely s) = vHardwareInhibited s"
  "vProvisioningInhibited (maskAllOutputsSafely s) = vProvisioningInhibited s"
  "vInvertedCellMask (maskAllOutputsSafely s) = vInvertedCellMask s"
  "outen (maskAllOutputsSafely s) = (\<lambda>_. 0)"
  "octrl (maskAllOutputsSafely s) = eachInverted (vInvertedCellMask s) False (octrl s)"
  "irqsOff (maskAllOutputsSafely s) = irqsOff s" "pc (maskAllOutputsSafely s) = pc s"
  "faultCfg (maskAllOutputsSafely s) = faultCfg s" "released (maskAllOutputsSafely s) = released s"
  "vFaultGeneration (maskAllOutputsSafely s) = vFaultGeneration s + 1"
  "vOutputInhibited (maskAllOutputsSafely s)"
  by (simp_all add: maskAllOutputsSafely_def disconnectAllOutputDrivers_def Let_def connected_def)

lemma plain_cong:
  "vInvertedCellMask s = vInvertedCellMask t \<Longrightarrow> octrl s = octrl t \<Longrightarrow> plainCells s = plainCells t"
  "vInvertedCellMask s = vInvertedCellMask t \<Longrightarrow> octrl s = octrl t \<Longrightarrow> polarityRestored s = polarityRestored t"
  by (simp_all add: plainCells_def polarityRestored_def)

lemma plain_mask: "plainCells s \<Longrightarrow> plainCells (maskAllOutputsSafely s)"
  by (simp add: plainCells_def eachInverted_polarity)

lemma plain_restore:
  assumes "plainCells s"
  shows "plainCells (restoreCellPolarity s)" "polarityRestored (restoreCellPolarity s)"
  using assms by (simp_all add: plainCells_def polarityRestored_def restoreCellPolarity_def eachInverted_polarity)

lemma restore_simps [simp]:
  "connected (restoreCellPolarity s) = connected s" "allowed (restoreCellPolarity s) = allowed s"
  "vFaultTripped (restoreCellPolarity s) = vFaultTripped s" "irqsOff (restoreCellPolarity s) = irqsOff s"
  "vOutputInhibited (restoreCellPolarity s) = vOutputInhibited s"
  "timersEnabled (restoreCellPolarity s) = timersEnabled s"
  "vPwmConfigurationValid (restoreCellPolarity s) = vPwmConfigurationValid s"
  "vRestartInhibited (restoreCellPolarity s) = vRestartInhibited s"
  "vHardwareInhibited (restoreCellPolarity s) = vHardwareInhibited s"
  "vProvisioningInhibited (restoreCellPolarity s) = vProvisioningInhibited s"
  by (simp_all add: restoreCellPolarity_def connected_def allowed_def)

lemma update_simps [simp]:
  "connected (s\<lparr>pc := p\<rparr>) = connected s" "allowed (s\<lparr>pc := p\<rparr>) = allowed s"
  "plainCells (s\<lparr>pc := p\<rparr>) = plainCells s" "polarityRestored (s\<lparr>pc := p\<rparr>) = polarityRestored s"
  "connected (s\<lparr>vFaultTripped := b\<rparr>) = connected s" "allowed (s\<lparr>vFaultTripped := b\<rparr>) = allowed s"
  "plainCells (s\<lparr>vFaultTripped := b\<rparr>) = plainCells s"
  "polarityRestored (s\<lparr>vFaultTripped := b\<rparr>) = polarityRestored s"
  "connected (s\<lparr>irqsOff := b\<rparr>) = connected s" "allowed (s\<lparr>irqsOff := b\<rparr>) = allowed s"
  "plainCells (s\<lparr>irqsOff := b\<rparr>) = plainCells s" "polarityRestored (s\<lparr>irqsOff := b\<rparr>) = polarityRestored s"
  "connected (s\<lparr>moduleIrq := b\<rparr>) = connected s" "allowed (s\<lparr>moduleIrq := b\<rparr>) = allowed s"
  "plainCells (s\<lparr>moduleIrq := b\<rparr>) = plainCells s" "polarityRestored (s\<lparr>moduleIrq := b\<rparr>) = polarityRestored s"
  "connected (s\<lparr>faultIrq := b\<rparr>) = connected s" "allowed (s\<lparr>faultIrq := b\<rparr>) = allowed s"
  "plainCells (s\<lparr>faultIrq := b\<rparr>) = plainCells s" "polarityRestored (s\<lparr>faultIrq := b\<rparr>) = polarityRestored s"
  "connected (s\<lparr>released := b\<rparr>) = connected s" "allowed (s\<lparr>released := b\<rparr>) = allowed s"
  "plainCells (s\<lparr>released := b\<rparr>) = plainCells s" "polarityRestored (s\<lparr>released := b\<rparr>) = polarityRestored s"
  "connected (s\<lparr>timersEnabled := b\<rparr>) = connected s" "allowed (s\<lparr>timersEnabled := b\<rparr>) = allowed s"
  "plainCells (s\<lparr>timersEnabled := b\<rparr>) = plainCells s"
  "polarityRestored (s\<lparr>timersEnabled := b\<rparr>) = polarityRestored s"
  "connected (s\<lparr>faultCfg := cfg\<rparr>) = connected s" "allowed (s\<lparr>faultCfg := cfg\<rparr>) = allowed s"
  "plainCells (s\<lparr>faultCfg := cfg\<rparr>) = plainCells s" "polarityRestored (s\<lparr>faultCfg := cfg\<rparr>) = polarityRestored s"
  "connected (s\<lparr>vOutputInhibited := b\<rparr>) = connected s" "allowed (s\<lparr>vOutputInhibited := b\<rparr>) = allowed s"
  "plainCells (s\<lparr>vOutputInhibited := b\<rparr>) = plainCells s"
  "polarityRestored (s\<lparr>vOutputInhibited := b\<rparr>) = polarityRestored s"
  "connected (s\<lparr>vRestartInhibited := b\<rparr>) = connected s"
  "plainCells (s\<lparr>vRestartInhibited := b\<rparr>) = plainCells s"
  "polarityRestored (s\<lparr>vRestartInhibited := b\<rparr>) = polarityRestored s"
  "connected (s\<lparr>vHardwareInhibited := b\<rparr>) = connected s"
  "plainCells (s\<lparr>vHardwareInhibited := b\<rparr>) = plainCells s"
  "polarityRestored (s\<lparr>vHardwareInhibited := b\<rparr>) = polarityRestored s"
  "connected (s\<lparr>vProvisioningInhibited := b\<rparr>) = connected s"
  "plainCells (s\<lparr>vProvisioningInhibited := b\<rparr>) = plainCells s"
  "polarityRestored (s\<lparr>vProvisioningInhibited := b\<rparr>) = polarityRestored s"
  by (simp_all add: connected_def allowed_def plainCells_def polarityRestored_def)

lemma disconnect_simps [simp]:
  "connected (disconnectAllOutputDrivers s) \<longleftrightarrow> False"
  "plainCells (disconnectAllOutputDrivers s) = plainCells s"
  "irqsOff (disconnectAllOutputDrivers s) = irqsOff s" "pc (disconnectAllOutputDrivers s) = pc s"
  "allowed (connectConfiguredOutputDrivers s) = allowed s"
  "plainCells (connectConfiguredOutputDrivers s) = plainCells s"
  "polarityRestored (connectConfiguredOutputDrivers s) = polarityRestored s"
  "irqsOff (connectConfiguredOutputDrivers s) = irqsOff s"
  "vFaultTripped (connectConfiguredOutputDrivers s) = vFaultTripped s"
  "timersEnabled (connectConfiguredOutputDrivers s) = timersEnabled s"
  "vPwmConfigurationValid (connectConfiguredOutputDrivers s) = vPwmConfigurationValid s"
  "vRestartInhibited (connectConfiguredOutputDrivers s) = vRestartInhibited s"
  "vHardwareInhibited (connectConfiguredOutputDrivers s) = vHardwareInhibited s"
  "vProvisioningInhibited (connectConfiguredOutputDrivers s) = vProvisioningInhibited s"
  by (simp_all add: disconnectAllOutputDrivers_def connectConfiguredOutputDrivers_def connected_def
      allowed_def plainCells_def polarityRestored_def)

lemma inv_disconnected:
  assumes "plainCells s" "\<not> connected s" "irqsOff s \<longleftrightarrow> (\<exists>g. pc s = RelCommit g \<or> pc s = RelIrqOn g)" "pcInv s"
  shows "pwmInv s"
  using assms by (simp add: pwmInv_def)

text \<open>Disconnecting operations keep the invariant wherever they happen.\<close>

lemma allowed_mask [simp]: "allowed (maskAllOutputsSafely s) = allowed s"
  by (simp add: allowed_def)

lemma inv_masked_tripped:
  assumes "pwmInv s" "vFaultTripped t" "\<not> connected t" "plainCells t" "pc t = pc s" "irqsOff t = irqsOff s"
    "allowed t = allowed s"
  shows "pwmInv t"
  using assms by (auto simp: pwmInv_def pcInv_def split: Pc.splits)

lemma inv_isr: "pwmInv s \<Longrightarrow> pwmInv (faultTripIsr s)" "pwmInv s \<Longrightarrow> pwmInv (acmpFaultIsr s)"
  by (rule inv_masked_tripped [of s]; simp add: faultTripIsr_def acmpFaultIsr_def plain_mask pwmInv_def)+

lemma inv_main:
  assumes "pwmInv s" "stagesPolarity i" shows "pwmInv (mainStep i s)"
proof -
  have plain: "plainCells s" using assms(1) by (simp add: pwmInv_def)
  have staged: "plainCells ((maskAllOutputsSafely t)\<lparr>vInvertedCellMask := stagedMask i, octrl := stagedOctrl i,
      vPwmConfigurationValid := b\<rparr>)" for t b
    using assms(2) by (simp add: plainCells_def stagesPolarity_def)
  have c: "connected (t\<lparr>vInvertedCellMask := m, octrl := oc, vPwmConfigurationValid := b\<rparr>) = connected t"
    for t m oc b by (simp add: connected_def)
  note defs = mainStep_defs pcInv_def pwmInv_def clearReturns_def plain_mask plain_restore plain
  show ?thesis
  proof (cases "pc s")
    case (ApplyFault p l f)
    then show ?thesis using assms(1)
      by (auto simp: defs configureFaultProtection_def Let_def faultTripIsr_def)
  next
    case SetupFault
    then show ?thesis using assms(1)
      by (auto simp: defs configureFaultProtection_def Let_def faultTripIsr_def)
  next
    case (ApplyThermal p l f)
    then show ?thesis using assms(1) by (auto simp: defs thermalConfigure_def)
  next
    case SetupThermal
    then show ?thesis using assms(1) by (auto simp: defs thermalConfigure_def)
  next
    case (ApplyPwm p l f)
    then show ?thesis using assms(1) staged
      by (auto simp: defs configurePwm_def Let_def c)
  next
    case SetupPwm
    then show ?thesis using assms(1) staged
      by (auto simp: defs configurePwm_def Let_def c)
  next
    case (ApplyAcmp p l f)
    then show ?thesis using assms(1)
      by (auto simp: defs armCurrentLimit_def Let_def failCurrentLimitArm_def)
  next
    case SetupAcmp
    then show ?thesis using assms(1)
      by (auto simp: defs armCurrentLimit_def Let_def failCurrentLimitArm_def)
  next
    case (ClearAck op)
    then show ?thesis using assms(1) by (auto simp: defs allowed_def)
  qed (use assms(1) in \<open>auto simp: defs allowed_def\<close>)
qed

lemma inv_request: "pwmInv s \<Longrightarrow> pc s = Idle \<Longrightarrow> pwmInv (request r s)"
  by (cases r)
    (auto simp: request_def pwmInv_def pcInv_def Let_def plain_mask setPwmRestartInhibit_def
      setPwmHardwareInhibit_def setPwmProvisioningInhibit_def enterOtaSafeState_def allowed_def)

lemma inv_reach: "pwmReach s \<Longrightarrow> pwmInv s"
proof (induction rule: pwmReach.induct)
  case boot
  then show ?case
    by (simp add: pwmInv_def pcInv_def pwmBoot_def plainCells_def connected_def)
next
  case (step s s')
  from step.hyps(2) step.IH show ?case
    by (cases rule: pwmStep.cases) (simp_all add: inv_main inv_isr inv_request)
qed

text \<open>Only the commit step connects anything.\<close>

lemma mask_outen: "outen (maskAllOutputsSafely s) = (\<lambda>_. 0)"
  by simp

lemma request_disconnects: "connected (request r s) \<Longrightarrow> connected s"
  by (cases r) (auto simp: request_def Let_def setPwmRestartInhibit_def setPwmHardwareInhibit_def
      setPwmProvisioningInhibit_def enterOtaSafeState_def split: if_splits)

lemma main_connects:
  assumes "connected (mainStep i s)" "\<not> connected s"
  shows "\<exists>g. pc s = RelCommit g \<and> vFaultGeneration s = g \<and> \<not> vFaultTripped s
    \<and> \<not> protectionLiveOrLatched i s \<and> thermalAllows i \<and> mtpAllows i"
proof -
  have c: "connected (configurePwm i s) = False" "\<not> connected s \<Longrightarrow> \<not> connected (armCurrentLimit i s)"
    "\<not> connected s \<Longrightarrow> \<not> connected (configureFaultProtection f i s)"
    "\<not> connected s \<Longrightarrow> \<not> connected (thermalConfigure i s)" for f
    by (auto simp: thermalConfigure_def configurePwm_def armCurrentLimit_def failCurrentLimitArm_def
        configureFaultProtection_def faultTripIsr_def Let_def connected_def)
  show ?thesis using assms
    by (cases "pc s") (auto simp: mainStep_defs clearReturns_def c split: if_splits)
qed

section \<open>Running the main program\<close>

text \<open>A run: \<open>Some i\<close> is a step of the main program with inputs \<open>i\<close>, \<open>None\<close> a fault interrupt.\<close>

definition runOne :: "Pwm \<Rightarrow> Sense option \<Rightarrow> Pwm" where
  "runOne s a = (case a of Some i \<Rightarrow> mainStep i s | None \<Rightarrow> if irqsOff s then s else faultTripIsr s)"

fun pcRank :: "Pc \<Rightarrow> nat" where
  "pcRank Idle = 0" | "pcRank ClearDone = 1" | "pcRank ClearRefused = 1" | "pcRank (RelConfirm _) = 2"
| "pcRank RelAbort = 2" | "pcRank RelRefuse = 2" | "pcRank (RelIrqOn _) = 3" | "pcRank (RelCommit _) = 4"
| "pcRank (RelIrqOff _) = 5" | "pcRank (RelTimers _) = 6" | "pcRank (RelPolarity _) = 7"
| "pcRank (RelCheck _) = 8" | "pcRank RelEntry = 9" | "pcRank (ClearAck _) = 10"
| "pcRank (ClearVerify _) = 11" | "pcRank (ClearLatch _) = 12" | "pcRank (ClearPin _) = 13"
| "pcRank (ClearGuard _) = 14" | "pcRank (ApplyEnd _) = 15" | "pcRank (ApplyAcmp _ _ _) = 16"
| "pcRank (ApplyPwm _ _ _) = 17" | "pcRank (ApplyThermal _ _ _) = 18" | "pcRank (ApplyFault _ _ _) = 19"
| "pcRank (ApplyMask _ _ _) = 20" | "pcRank SetupThermal = 15" | "pcRank SetupAcmp = 16"
| "pcRank SetupFault = 17" | "pcRank SetupPwm = 18"

lemma rank_main: "pcRank (pc (mainStep i s)) \<le> pcRank (pc s) - 1"
  by (cases "pc s") (simp_all add: mainStep_defs clearReturns_def)

lemma rank_isr: "pc (faultTripIsr s) = pc s"
  by (simp add: faultTripIsr_def)

lemma rank_one: "pcRank (pc (runOne s a)) \<le> pcRank (pc s) - (if a = None then 0 else 1)"
  using rank_main by (cases a) (simp_all add: runOne_def rank_isr)

lemma rank_run: "pcRank (pc (foldl runOne s as)) \<le> pcRank (pc s) - length (filter (\<lambda>a. a \<noteq> None) as)"
proof (induction as arbitrary: s)
  case (Cons a as)
  then show ?case
    using order_trans [OF Cons.IH [of "runOne s a"] diff_le_mono [OF rank_one]] by (cases a) simp_all
qed simp

definition quiet :: "FaultProtectionConfig \<Rightarrow> Sense \<Rightarrow> bool" where
  "quiet f i \<longleftrightarrow> acmpReady i \<and> \<not> gpioActive f i \<and> \<not> acmpPin i \<and> \<not> acmpLatched i
     \<and> thermalAllows i \<and> mtpAllows i"

lemma connects: "connected (connectConfiguredOutputDrivers s)"
  unfolding connected_def by (rule exI [of _ 0]) (simp add: connectConfiguredOutputDrivers_def)

lemma quiet_release:
  assumes "pc s = RelEntry" "quiet (faultCfg s) i" "\<not> vFaultTripped s" "allowed s"
  shows "connected ((mainStep i ^^ 9) s)" "released ((mainStep i ^^ 9) s)"
    "\<not> vFaultTripped ((mainStep i ^^ 9) s)" "pc ((mainStep i ^^ 9) s) = Idle"
proof -
  have live: "\<not> protectionLiveOrLatched i t" if "faultCfg t = faultCfg s" for t
    using assms(2) that by (simp add: quiet_def protectionLiveOrLatched_def)
  have "connected ((mainStep i ^^ 9) s) \<and> released ((mainStep i ^^ 9) s)
      \<and> \<not> vFaultTripped ((mainStep i ^^ 9) s) \<and> pc ((mainStep i ^^ 9) s) = Idle"
    using assms connects
    by (simp add: eval_nat_numeral mainStep_defs live clearReturns_def restoreCellPolarity_def
        connectConfiguredOutputDrivers_def quiet_def allowed_def connected_def)
  then show "connected ((mainStep i ^^ 9) s)" "released ((mainStep i ^^ 9) s)"
    "\<not> vFaultTripped ((mainStep i ^^ 9) s)" "pc ((mainStep i ^^ 9) s) = Idle" by simp_all
qed

text \<open>The end of \<open>loop\<close> (\<open>main.cpp\<close>) once a pending save succeeded.\<close>

definition savedInLoop :: "bool \<Rightarrow> Pwm \<Rightarrow> Pwm" where
  "savedInLoop pinSet s =
     (if vProvisioningInhibited s \<and> pinSet
      then request (ClearFault False) (request (ProvisioningInhibit False) s) else s)"

definition quietSense :: Sense where
  "quietSense = \<lparr>pinHigh = False, acmpReady = True, acmpPin = False, acmpLatched = False, acmpArmed = False,
     thermalAllows = True, thermalKeepsSample = True, mtpAllows = True, interruptRequired = False, stagedOk = True, stagedMask = 0,
     stagedOctrl = (\<lambda>_. 0), acmpArmOk = True\<rparr>"

lemma quietSense_quiet: "quiet defaultFaultProtection quietSense" "stagesPolarity quietSense"
  by (simp_all add: quiet_def quietSense_def gpioActive_def defaultFaultProtection_def stagesPolarity_def)

definition provisioned :: Pwm where
  "provisioned = request (ProvisioningInhibit False) pwmBoot"

lemma provisioned_simps:
  "pc provisioned = Idle" "allowed provisioned" "\<not> vFaultTripped provisioned"
  "faultCfg provisioned = defaultFaultProtection" "\<not> irqsOff provisioned"
  by (simp_all add: provisioned_def request_def setPwmProvisioningInhibit_def pwmBoot_def allowed_def Let_def)

lemma provisioned_reach: "pwmReach provisioned"
  unfolding provisioned_def
  by (rule pwmReach.step [OF pwmReach.boot pwmStep.request]) (simp add: pwmBoot_def)

lemma reach_main: "pwmReach s \<Longrightarrow> stagesPolarity i \<Longrightarrow> pwmReach ((mainStep i ^^ n) s)"
  by (induction n) (auto intro: pwmReach.step pwmStep.main)

lemma run_split: "(f ^^ (m + n)) x = (f ^^ m) ((f ^^ n) x)"
  by (simp add: funpow_add)

lemma clear_steps:
  assumes "quiet (faultCfg s) i"
  shows "pc s = ClearGuard op \<Longrightarrow> vPwmConfigurationValid s \<Longrightarrow> \<not> vHardwareInhibited s \<Longrightarrow>
      \<not> vProvisioningInhibited s \<Longrightarrow> op \<or> \<not> vRestartInhibited s \<Longrightarrow> op \<or> \<not> vFaultTripped s \<Longrightarrow>
      mainStep i s = s\<lparr>pc := ClearPin op\<rparr>"
    "pc s = ClearPin op \<Longrightarrow> mainStep i s = s\<lparr>pc := ClearLatch op\<rparr>"
    "pc s = ClearLatch op \<Longrightarrow>
      mainStep i s = s\<lparr>pc := (if vFaultTripped s then ClearVerify op else ClearAck op)\<rparr>"
    "pc s = ClearVerify op \<Longrightarrow> mainStep i s = s\<lparr>pc := ClearAck op\<rparr>"
    "pc s = ClearAck op \<Longrightarrow> mainStep i s
      = s\<lparr>vRestartInhibited := (vRestartInhibited s \<and> \<not> op), vFaultTripped := False, pc := RelEntry\<rparr>"
  using assms by (auto simp: mainStep_defs quiet_def)

lemma quiet_clear:
  assumes "pc s = Idle" "quiet (faultCfg s) i" "vPwmConfigurationValid s" "\<not> vHardwareInhibited s"
    "\<not> vProvisioningInhibited s" "op \<or> \<not> vRestartInhibited s" "op \<or> \<not> vFaultTripped s"
  shows "(mainStep i ^^ (if vFaultTripped s then 5 else 4)) (request (ClearFault op) s)
    = s\<lparr>vRestartInhibited := False, vFaultTripped := False, pc := RelEntry\<rparr>"
  using assms
  by (cases "vFaultTripped s") (auto simp: eval_nat_numeral request_def clear_steps)

lemma idle_stays: "pc s = Idle \<Longrightarrow> (mainStep i ^^ n) s = s"
  by (induction n) (simp_all add: mainStep_defs)

section \<open>Properties\<close>

text \<open>C2: the outputs are connected to their pads only when nothing forbids it: in every reachable state,
  wherever interrupts fell, connected outputs mean that no fault is latched, the configuration
  is valid, no interlock is set, and every cell has the polarity its plan asks for; and the one
  step that connects them reads every protection source quiet while interrupts are off.\<close>

theorem outputs_only_when_allowed:
  assumes "pwmReach s"
  shows "(connected s \<longrightarrow> \<not> vFaultTripped s \<and> vPwmConfigurationValid s \<and> \<not> vRestartInhibited s
      \<and> \<not> vHardwareInhibited s \<and> \<not> vProvisioningInhibited s \<and> \<not> vOutputInhibited s \<and> timersEnabled s
      \<and> (\<forall>k<4. octrl s (CellSmIdx k) AND Pol = (if bit (vInvertedCellMask s) k then Pol else 0)))
    \<and> (\<forall>s'. pwmStep s s' \<and> connected s' \<and> \<not> connected s \<longrightarrow>
        irqsOff s \<and> \<not> vFaultTripped s \<and> (\<exists>i. s' = mainStep i s \<and> \<not> protectionLiveOrLatched i s
          \<and> thermalAllows i \<and> mtpAllows i))"
proof -
  have inv: "pwmInv s" using inv_reach [OF assms] .
  have "irqsOff s \<and> \<not> vFaultTripped s \<and> (\<exists>i. s' = mainStep i s \<and> \<not> protectionLiveOrLatched i s
      \<and> thermalAllows i \<and> mtpAllows i)" if st: "pwmStep s s'" and c: "connected s'" "\<not> connected s" for s'
    using st
  proof cases
    case (main i)
    with main_connects [of i s] c inv show ?thesis by (auto simp: pwmInv_def)
  next
    case (request r)
    with request_disconnects [of r s] c show ?thesis by simp
  qed (use c in \<open>simp_all add: faultTripIsr_def acmpFaultIsr_def\<close>)
  then show ?thesis using inv by (auto simp: pwmInv_def allowed_def polarityRestored_def)
qed

lemma outputs_only_when_allowed_witness:
  "connected ((mainStep quietSense ^^ 13) (request (ClearFault False) provisioned))
    \<and> vPwmConfigurationValid ((mainStep quietSense ^^ 13) (request (ClearFault False) provisioned))"
proof -
  let ?t = "request (ClearFault False) provisioned"
  have r: "pwmReach ((mainStep quietSense ^^ 13) ?t)"
    by (rule reach_main [OF pwmReach.step [OF provisioned_reach pwmStep.request]])
      (simp_all add: provisioned_simps quietSense_quiet)
  have "connected ((mainStep quietSense ^^ 13) ?t)"
    using quiet_clear [of provisioned quietSense False] quietSense_quiet provisioned_simps
      run_split [of 9 4 "mainStep quietSense" ?t] quiet_release(1) [of "(mainStep quietSense ^^ 4) ?t" quietSense]
    by (simp add: allowed_def)
  with outputs_only_when_allowed [OF r] show ?thesis by blast
qed

text \<open>C36: clearing a fault always comes to an end: after fourteen steps of its own the call has
  returned, whatever the inputs read and however often a fault interrupts it; and when all is
  quiet, an operator's request connects the outputs.\<close>

theorem clear_returns:
  "(length (filter (\<lambda>a. a \<noteq> None) as) = 14 \<longrightarrow> pc (foldl runOne (request (ClearFault op) s) as) = Idle)
   \<and> (pc s = Idle \<and> quiet (faultCfg s) i \<and> vPwmConfigurationValid s \<and> \<not> vHardwareInhibited s
      \<and> \<not> vProvisioningInhibited s \<longrightarrow>
      (let t = (mainStep i ^^ 14) (request (ClearFault True) s) in
       pc t = Idle \<and> released t \<and> connected t \<and> \<not> vFaultTripped t))"
  (is "?ends \<and> (?q \<longrightarrow> ?go)")
proof (intro conjI impI)
  have "pcRank p = 0 \<Longrightarrow> p = Idle" for p by (cases p) simp_all
  then show "pc (foldl runOne (request (ClearFault op) s) as) = Idle"
    if "length (filter (\<lambda>a. a \<noteq> None) as) = 14"
    using rank_run [of "request (ClearFault op) s" as] that by (simp add: request_def)
next
  assume q: ?q
  let ?n = "if vFaultTripped s then 5 else 4 :: nat"
  let ?e = "(mainStep i ^^ ?n) (request (ClearFault True) s)"
  have e: "?e = s\<lparr>vRestartInhibited := False, vFaultTripped := False, pc := RelEntry\<rparr>"
    using q by (intro quiet_clear) simp_all
  let ?d = "(mainStep i ^^ 9) ?e"
  have d: "pc ?d = Idle" "released ?d" "connected ?d" "\<not> vFaultTripped ?d"
    using quiet_release [of ?e i] q unfolding e by (simp_all add: allowed_def)
  have "14 = (5 - ?n) + (9 + ?n)" by simp
  then have "(mainStep i ^^ 14) (request (ClearFault True) s) = (mainStep i ^^ (5 - ?n)) ?d"
    by (metis run_split)
  then show ?go using d idle_stays [OF d(1)] by (simp add: Let_def)
qed

lemma clear_returns_witness:
  "pc ((mainStep quietSense ^^ 14) (request (ClearFault True) provisioned)) = Idle
    \<and> connected ((mainStep quietSense ^^ 14) (request (ClearFault True) provisioned))"
  using clear_returns [of "[]" True provisioned quietSense] provisioned_simps quietSense_quiet
  by (simp add: Let_def allowed_def)

text \<open>A trip can be lost: when a reconfiguration acknowledges (not the operator) and the fault pin
  pulses after the call has looked at the latch but before it clears it, the latch is cleared
  with the new trip in it, and the outputs are connected.\<close>

theorem trip_in_clear_window_is_lost:
  assumes "pc s = Idle" "quiet (faultCfg s) i" "\<not> vFaultTripped s" "\<not> irqsOff s" "vPwmConfigurationValid s"
    "\<not> vRestartInhibited s" "\<not> vHardwareInhibited s" "\<not> vProvisioningInhibited s"
  defines "t \<equiv> faultTripIsr ((mainStep i ^^ 3) (request (ClearFault False) s))"
  shows "vFaultTripped t \<and> \<not> connected t
    \<and> connected ((mainStep i ^^ 10) t) \<and> released ((mainStep i ^^ 10) t) \<and> \<not> vFaultTripped ((mainStep i ^^ 10) t)"
proof -
  have "(mainStep i ^^ 3) (request (ClearFault False) s) = s\<lparr>pc := ClearAck False\<rparr>"
    using assms(1-8) by (auto simp: eval_nat_numeral request_def clear_steps)
  then have t: "t = faultTripIsr (s\<lparr>pc := ClearAck False\<rparr>)" by (simp add: t_def)
  let ?u = "mainStep i t"
  have u: "pc ?u = RelEntry" "faultCfg ?u = faultCfg s" "\<not> vFaultTripped ?u" "allowed ?u"
    using assms(5-8) by (simp_all add: t mainStep_defs faultTripIsr_def allowed_def)
  have "(mainStep i ^^ 10) t = (mainStep i ^^ 9) ?u" using run_split [of 9 1 "mainStep i" t] by simp
  then show ?thesis
    using quiet_release [of ?u i] u assms(2) by (simp add: t faultTripIsr_def)
qed

lemma trip_in_clear_window_is_lost_witness:
  "connected ((mainStep quietSense ^^ 10)
     (faultTripIsr ((mainStep quietSense ^^ 3) (request (ClearFault False) provisioned))))"
  using trip_in_clear_window_is_lost [of provisioned quietSense] provisioned_simps quietSense_quiet
  by (simp add: allowed_def)

text \<open>The OTA safe state is not latched: when the access PIN was not yet persisted and a pending save
  succeeds while an update is staged, the loop releases the provisioning interlock and connects
  the outputs, although only a reboot should leave that state.\<close>

theorem ota_safe_state_released_by_save:
  assumes "pc s = Idle" "quiet (faultCfg s) i" "\<not> vFaultTripped s" "vPwmConfigurationValid s"
    "\<not> vRestartInhibited s" "\<not> vHardwareInhibited s" "vProvisioningInhibited s"
  shows "\<not> connected (request OtaSafe s)
    \<and> connected ((mainStep i ^^ 13) (savedInLoop True (request OtaSafe s)))"
proof -
  let ?s = "request (ProvisioningInhibit False) (request OtaSafe s)"
  have s: "pc ?s = Idle" "faultCfg ?s = faultCfg s" "\<not> vFaultTripped ?s" "vPwmConfigurationValid ?s"
    "\<not> vRestartInhibited ?s" "\<not> vHardwareInhibited ?s" "\<not> vProvisioningInhibited ?s"
    using assms by (simp_all add: request_def enterOtaSafeState_def setPwmProvisioningInhibit_def)
  have save: "savedInLoop True (request OtaSafe s) = request (ClearFault False) ?s"
    using assms(7) by (simp add: savedInLoop_def request_def enterOtaSafeState_def)
  let ?e = "(mainStep i ^^ 4) (request (ClearFault False) ?s)"
  have e: "?e = ?s\<lparr>vRestartInhibited := False, vFaultTripped := False, pc := RelEntry\<rparr>"
    using quiet_clear [of ?s i False] s assms(2) by simp
  have "connected ((mainStep i ^^ 9) ?e)"
    using quiet_release(1) [of ?e i] s assms(2) unfolding e by (simp add: allowed_def)
  then show ?thesis
    using run_split [of 9 4 "mainStep i" "request (ClearFault False) ?s"] unfolding save
    by (simp add: request_def enterOtaSafeState_def)
qed

lemma ota_safe_state_released_by_save_witness:
  "connected ((mainStep quietSense ^^ 13) (savedInLoop True (request OtaSafe pwmBoot)))"
  using ota_safe_state_released_by_save [of pwmBoot quietSense] quietSense_quiet
  by (simp add: pwmBoot_def)

end
