(* ===== verification/Modulation.thy ===== *)
theory Modulation
  imports Prelude "HOL-Library.Signed_Division"
begin

text \<open>
  \<open>src/src/modulation.h\<close>, \<open>spwm_math.h\<close> and \<open>pwm_timing.h\<close>: from the phase of the reference to the
  duty of every cell. Unsigned quantities are words of the width of the source. Signed 32- and 64-bit
  quantities are \<open>int\<close>, because their overflow is undefined in C++; \<open>signed_intermediates_fit\<close> bounds
  them. \<open>>>\<close> on a signed value is the arithmetic shift \<open>drop_bit\<close>, \<open>/\<close> truncates (\<open>sdiv\<close>). The
  reference table is a list of 2048 signed samples; filling it with the built-in shapes is
  floating-point code and left out.
\<close>

section \<open>Constants\<close>

definition ModSchemeFixed :: byte where [const_defs]: "ModSchemeFixed = 0"
definition ModSchemeSpwmUnipolar :: byte where [const_defs]: "ModSchemeSpwmUnipolar = 1"
definition ModSchemeSpwmBipolar :: byte where [const_defs]: "ModSchemeSpwmBipolar = 2"
definition ModSchemeThipwm :: byte where [const_defs]: "ModSchemeThipwm = 3"
definition ModSchemeLevelShifted :: byte where [const_defs]: "ModSchemeLevelShifted = 4"
definition ModSchemePhaseShifted :: byte where [const_defs]: "ModSchemePhaseShifted = 5"
definition ModSchemeSvpwm :: byte where [const_defs]: "ModSchemeSvpwm = 6"
definition ModSchemeDpwm :: byte where [const_defs]: "ModSchemeDpwm = 7"
definition ModSchemeSvpwm3D :: byte where [const_defs]: "ModSchemeSvpwm3D = 8"

definition DpwmMin :: byte where [const_defs]: "DpwmMin = 0"
definition DpwmMax :: byte where [const_defs]: "DpwmMax = 1"
definition DpwmGeneralised :: byte where [const_defs]: "DpwmGeneralised = 2"
definition Dpwm3 :: byte where [const_defs]: "Dpwm3 = 3"

definition CarrierPd :: byte where [const_defs]: "CarrierPd = 0"
definition CarrierPod :: byte where [const_defs]: "CarrierPod = 1"
definition CarrierApod :: byte where [const_defs]: "CarrierApod = 2"

definition MaxModulationIndexMilli :: u16 where [const_defs]: "MaxModulationIndexMilli = 1155"
definition PhaseShift120Deg :: u32 where [const_defs]: "PhaseShift120Deg = 1431655765"
definition SpwmLutBits :: nat where [const_defs]: "SpwmLutBits = 11"
definition SpwmLutSize :: u32 where [const_defs]: "SpwmLutSize = push_bit SpwmLutBits 1"

definition DitherOff :: byte where [const_defs]: "DitherOff = 0"
definition DitherRandom :: byte where [const_defs]: "DitherRandom = 1"
definition DitherSweep :: byte where [const_defs]: "DitherSweep = 2"
definition DitherTableSize :: u32 where [const_defs]: "DitherTableSize = 16"
definition MaxDitherPercent :: byte where [const_defs]: "MaxDitherPercent = 30"

definition SoftStartFractionBits :: nat where [const_defs]: "SoftStartFractionBits = 24"
definition SoftStartInstant :: u64 where [const_defs]: "SoftStartInstant = - 1"

record CellPlan =
  polarityInverted :: bool
  dutyComplement :: bool

section \<open>Reference and scaling\<close>

definition indexMilliToQ15 :: "u16 \<Rightarrow> u32" where
  "indexMilliToQ15 indexMilli = push_bit 15 (ucast indexMilli) div 1000"

definition refFromPhase :: "int list \<Rightarrow> u32 \<Rightarrow> int" where
  "refFromPhase lut phase =
     (let idx = drop_bit (32 - SpwmLutBits) phase;
          frac = uint (drop_bit (32 - SpwmLutBits - 8) phase AND 0xFF);
          a = lut ! unat idx; b = lut ! unat ((idx + 1) AND (SpwmLutSize - 1))
      in a + drop_bit 8 ((b - a) * frac))"

definition deadtimeCompQ15 :: "u16 \<Rightarrow> u32 \<Rightarrow> int" where
  "deadtimeCompQ15 deadtimeNs carrierHz =
     sint (ucast (push_bit 15 (2 * ucast deadtimeNs * ucast carrierHz) div 1000000000 :: u64) :: u32)"

text \<open>The tail that \<open>refToDuty\<close> and \<open>dutyFromScaled\<close> share.\<close>

definition compensate :: "int \<Rightarrow> int \<Rightarrow> int \<Rightarrow> int" where
  "compensate v dtCompQ15 polaritySource =
     (if dtCompQ15 \<noteq> 0
      then if polaritySource > 0 then v + dtCompQ15
           else if polaritySource < 0 then v - dtCompQ15 else v
      else v)"

definition saturate :: "int \<Rightarrow> int" where
  "saturate v = (let v = (if v > 32767 then 32767 else v) in if v < - 32767 then - 32767 else v)"

definition dutyFromScaled :: "int \<Rightarrow> int \<Rightarrow> int \<Rightarrow> u16" where
  "dutyFromScaled v dtCompQ15 polaritySource =
     word_of_int (32768 + saturate (compensate v dtCompQ15 polaritySource))"

definition refToDuty :: "int \<Rightarrow> u32 \<Rightarrow> int \<Rightarrow> u16" where
  "refToDuty unitRef indexQ15 dtCompQ15 =
     (let v = drop_bit 15 (unitRef * sint indexQ15)
      in word_of_int (32768 + saturate (compensate v dtCompQ15 unitRef)))"

definition degreesToPhase :: "int \<Rightarrow> u32" where
  "degreesToPhase degrees = word_of_int ((degrees * 4294967296) sdiv 360)"

section \<open>Three-phase schemes\<close>

definition threePhaseScaledRefs :: "int list \<Rightarrow> u32 \<Rightarrow> u32 \<Rightarrow> int list" where
  "threePhaseScaledRefs lut phase indexQ15 =
     [drop_bit 15 (refFromPhase lut phase * sint indexQ15),
      drop_bit 15 (refFromPhase lut (phase - PhaseShift120Deg) * sint indexQ15),
      drop_bit 15 (refFromPhase lut (phase - 2 * PhaseShift120Deg) * sint indexQ15)]"

definition continuousSvmZss :: "int list \<Rightarrow> int" where
  "continuousSvmZss v =
     (let (mx, mn) = foldl (\<lambda>(mx, mn) k. (if v ! k > mx then v ! k else mx, if v ! k < mn then v ! k else mn))
                       (v ! 0, v ! 0) [1, 2]
      in (- (mx + mn)) sdiv 2)"

definition dpwmSelect :: "int list \<Rightarrow> u32 \<Rightarrow> u32 \<Rightarrow> byte \<Rightarrow> int list \<Rightarrow> nat" where
  "dpwmSelect lut phase clampAnglePhase variant v =
     (if variant = DpwmMin then foldl (\<lambda>sel k. if v ! k < v ! sel then k else sel) 0 [1, 2]
      else if variant = DpwmMax then foldl (\<lambda>sel k. if v ! k > v ! sel then k else sel) 0 [1, 2]
      else if variant = Dpwm3
      then (let mags = map (\<lambda>k. if v ! k \<ge> 0 then v ! k else - (v ! k)) [0, 1, 2];
                (hi, lo) = foldl (\<lambda>(hi, lo) k. (if mags ! k > mags ! hi then k else hi,
                                                if mags ! k < mags ! lo then k else lo)) (0, 0) [1, 2]
            in if hi = lo then hi else 3 - hi - lo)
      else snd (foldl (\<lambda>(best, sel) k.
                  let a = refFromPhase lut (phase + clampAnglePhase - of_nat k * PhaseShift120Deg);
                      mag = (if a \<ge> 0 then a else - a)
                  in if mag > best then (mag, k) else (best, sel)) (- 1, 0) [0, 1, 2]))"

definition dpwmZss :: "int list \<Rightarrow> u32 \<Rightarrow> u32 \<Rightarrow> byte \<Rightarrow> int list \<Rightarrow> int" where
  "dpwmZss lut phase clampAnglePhase variant v =
     (let x = v ! dpwmSelect lut phase clampAnglePhase variant v in
      if variant = DpwmMin then - 32767 - x
      else if variant = DpwmMax then 32767 - x
      else if x \<ge> 0 then 32767 - x else - 32767 - x)"

section \<open>Spread-spectrum carrier\<close>

definition buildDitherTables :: "u32 \<Rightarrow> u32 \<Rightarrow> u32 \<Rightarrow> byte \<Rightarrow> u16 list \<times> u32 list" where
  "buildDitherTables effectiveClockHz carrierHz modulationHz ditherPercent =
     (let pct = (if ditherPercent > MaxDitherPercent then MaxDitherPercent else ditherPercent);
          nominal = (if carrierHz > 0 then effectiveClockHz div carrierHz else 2);
          span = nominal * ucast pct div 100;
          periods = map (\<lambda>i. nominal - span + 2 * span * of_nat i div (DitherTableSize - 1))
                      [0..<unat DitherTableSize]
      in (map ucast periods,
          map (\<lambda>period. ucast (push_bit 32 (ucast modulationHz * ucast period :: u64)
                                div ucast effectiveClockHz)) periods))"

definition nextLfsr16 :: "u16 \<Rightarrow> u16" where
  "nextLfsr16 s = drop_bit 1 s XOR ((- (s AND 1)) AND 0xB400)"

definition triangleIndex :: "u32 \<Rightarrow> u32 \<Rightarrow> u32" where
  "triangleIndex counter n =
     (let m = counter mod (2 * (n - 1)) in if m < n then m else 2 * (n - 1) - m)"

section \<open>Soft start\<close>

definition softStartStepQ24 :: "u32 \<Rightarrow> u16 \<Rightarrow> u32 \<Rightarrow> u64" where
  "softStartStepQ24 targetQ15 rampMs carrierHz =
     (let steps = ucast rampMs * ucast carrierHz div 1000 in
      if steps = 0 then SoftStartInstant
      else let distance = push_bit SoftStartFractionBits (ucast targetQ15);
               step = (distance + steps - 1) div steps
           in if step \<noteq> 0 then step else 1)"

definition rampIndexQ24 :: "u64 \<Rightarrow> u32 \<Rightarrow> u64 \<Rightarrow> u64" where
  "rampIndexQ24 currentQ24 targetQ15 stepQ24 =
     (let targetQ24 = push_bit SoftStartFractionBits (ucast targetQ15) in
      if stepQ24 = SoftStartInstant then targetQ24
      else if currentQ24 < targetQ24
      then let remaining = targetQ24 - currentQ24
           in if remaining > stepQ24 then currentQ24 + stepQ24 else targetQ24
      else if currentQ24 > targetQ24
      then let remaining = currentQ24 - targetQ24
           in if remaining > stepQ24 then currentQ24 - stepQ24 else targetQ24
      else currentQ24)"

section \<open>Cells\<close>

definition lsCellDuty :: "u16 \<Rightarrow> byte \<Rightarrow> byte \<Rightarrow> bool \<Rightarrow> u16" where
  "lsCellDuty ref cell numCells nearestLevel =
     (let scaled = ucast ref * ucast numCells :: u32; bandStart = push_bit 16 (ucast cell) in
      if scaled \<le> bandStart then 0
      else let d = scaled - bandStart in
        if nearestLevel then (if d \<ge> 32768 then 65535 else 0)
        else if d \<ge> 65535 then 65535 else ucast d)"

definition modulationCellPlan :: "byte \<Rightarrow> byte \<Rightarrow> byte \<Rightarrow> byte \<Rightarrow> CellPlan" where
  "modulationCellPlan scheme disposition cell numCells =
     (let p = \<lparr>polarityInverted = False, dutyComplement = False\<rparr>; odd = cell AND 1 \<noteq> 0 in
      if scheme = ModSchemeSpwmUnipolar \<or> scheme = ModSchemeThipwm then p\<lparr>dutyComplement := odd\<rparr>
      else if scheme = ModSchemeSpwmBipolar then p\<lparr>polarityInverted := odd\<rparr>
      else if scheme = ModSchemePhaseShifted then p\<lparr>polarityInverted := odd, dutyComplement := odd\<rparr>
      else if scheme = ModSchemeLevelShifted
      then if disposition = CarrierPod
           then p\<lparr>polarityInverted := cell < numCells div 2, dutyComplement := cell < numCells div 2\<rparr>
           else if disposition = CarrierApod then p\<lparr>polarityInverted := odd, dutyComplement := odd\<rparr>
           else p
      else p)"

definition schemeRequiresPolarityInversion :: "byte \<Rightarrow> byte \<Rightarrow> byte \<Rightarrow> bool" where
  "schemeRequiresPolarityInversion scheme disposition cells \<longleftrightarrow>
     list_ex (\<lambda>cell. polarityInverted (modulationCellPlan scheme disposition (of_nat cell) cells))
       [0..<unat cells]"

definition modulationCellDuty :: "byte \<Rightarrow> u16 \<Rightarrow> byte \<Rightarrow> byte \<Rightarrow> bool \<Rightarrow> u16" where
  "modulationCellDuty scheme ref cell numCells nearestLevel =
     (if scheme = ModSchemeLevelShifted then lsCellDuty ref cell numCells nearestLevel else ref)"

definition modulationFinalDuty :: "u16 \<Rightarrow> CellPlan \<Rightarrow> u16" where
  "modulationFinalDuty cellDuty plan = (if dutyComplement plan then 65535 - cellDuty else cellDuty)"

record ModCycleConfig =
  mcScheme :: byte
  mcCells :: byte
  mcDpwmVariant :: byte
  mcDpwmClampPhase :: u32
  mcNearestLevel :: bool
  mcDtCompQ15 :: int

definition modulationCellCount :: "byte \<Rightarrow> byte \<Rightarrow> byte" where
  "modulationCellCount scheme cells =
     (if scheme = ModSchemeSvpwm \<or> scheme = ModSchemeDpwm then 3
      else if scheme = ModSchemeSvpwm3D then 4 else cells)"

text \<open>The slots of \<open>duties\<close> that the code fills, in order.\<close>

definition modulationCycleDuties ::
    "int list \<Rightarrow> u32 \<Rightarrow> u32 \<Rightarrow> ModCycleConfig \<Rightarrow> CellPlan list \<Rightarrow> u16 list" where
  "modulationCycleDuties lut phase indexQ15 c plans =
     (if mcScheme c = ModSchemeSvpwm \<or> mcScheme c = ModSchemeDpwm \<or> mcScheme c = ModSchemeSvpwm3D
      then let v = threePhaseScaledRefs lut phase indexQ15;
               zss = (if mcScheme c = ModSchemeDpwm
                      then dpwmZss lut phase (mcDpwmClampPhase c) (mcDpwmVariant c) v
                      else continuousSvmZss v)
           in map (\<lambda>k. dutyFromScaled (v ! k + zss) (mcDtCompQ15 c) (v ! k)) [0, 1, 2]
              @ (if mcScheme c = ModSchemeSvpwm3D then [dutyFromScaled zss 0 0] else [])
      else let s = refFromPhase lut phase;
               ref = refToDuty s indexQ15 (if mcScheme c = ModSchemeLevelShifted then 0 else mcDtCompQ15 c)
           in map (\<lambda>k. modulationFinalDuty
                         (modulationCellDuty (mcScheme c) ref (of_nat k) (mcCells c) (mcNearestLevel c)) (plans ! k))
                [0..<unat (mcCells c)])"

section \<open>The DDS and the timer period\<close>

definition spwmPhaseIncrement :: "u32 \<Rightarrow> u32 \<Rightarrow> u32" where
  "spwmPhaseIncrement carrierHz modulationHz =
     (if carrierHz > 0 then ucast (push_bit 32 (ucast modulationHz) div ucast carrierHz :: u64) else 0)"

definition spwmActualMilliHz :: "u32 \<Rightarrow> u32 \<Rightarrow> u64" where
  "spwmActualMilliHz phaseIncrement carrierHz =
     drop_bit 32 (ucast phaseIncrement * ucast carrierHz * 1000)"

definition bestPrescalerIndex :: "u32 \<Rightarrow> u32 \<Rightarrow> u32 \<Rightarrow> byte" where
  "bestPrescalerIndex busClockHz pwmFrequencyHz maxCounterValue =
     (case find (\<lambda>i. pwmFrequencyHz > 0 \<and>
         (busClockHz div push_bit i 1) div pwmFrequencyHz \<le> maxCounterValue) [0..<8] of
       Some i \<Rightarrow> of_nat i | None \<Rightarrow> 7)"

record AsymmetricTimings =
  atValid :: bool
  prescalerIndex :: byte
  periodStart :: u16
  periodEnd :: u16
  startChanA :: u16
  stopChanA :: u16
  startChanB :: u16
  stopChanB :: u16

definition noTimings :: AsymmetricTimings where
  "noTimings = \<lparr>atValid = False, prescalerIndex = 0, periodStart = 0, periodEnd = 0, startChanA = 0,
     stopChanA = 0, startChanB = 0, stopChanB = 0\<rparr>"

definition nanosToTicks :: "u32 \<Rightarrow> int \<Rightarrow> int" where
  "nanosToTicks effectiveClockHz ns =
     (let product = ns * uint effectiveClockHz in
      if product \<ge> 0 then (product + 500000000) sdiv 1000000000
      else (product - 500000000) sdiv 1000000000)"

definition computeAsymmetricTimings :: "u32 \<Rightarrow> u32 \<Rightarrow> u16 \<Rightarrow> int \<Rightarrow> int \<Rightarrow> u32 \<Rightarrow> AsymmetricTimings" where
  "computeAsymmetricTimings busClockHz pwmFrequencyHz dutyCycleA16 preShiftNanos postShiftNanos maxCounterValue =
     (if pwmFrequencyHz = 0 \<or> busClockHz = 0 then noTimings
      else
        let ps = bestPrescalerIndex busClockHz pwmFrequencyHz maxCounterValue;
            t = noTimings\<lparr>prescalerIndex := ps\<rparr>;
            effectiveClockHz = busClockHz div push_bit (unat ps) 1;
            roundedPeriod = (ucast effectiveClockHz + ucast (pwmFrequencyHz div 2)) div ucast pwmFrequencyHz :: u64
        in if roundedPeriod < 2 \<or> roundedPeriod > ucast maxCounterValue + 1 then t
        else
          let periodTicks = sint roundedPeriod;
              pulseTicksA = (sint ((word_of_int periodTicks * ucast dutyCycleA16 + 32768) div 65536 :: u64));
              preShiftTicks = nanosToTicks effectiveClockHz preShiftNanos;
              postShiftTicks = nanosToTicks effectiveClockHz postShiftNanos;
              pEnd = periodTicks - 1;
              stopA = pulseTicksA;
              startB = stopA - preShiftTicks;
              stopB = pEnd - postShiftTicks
          in if stopA \<le> 0 \<or> stopA > pEnd \<or> startB < 0 \<or> startB \<ge> stopB \<or> stopB > pEnd then t
          else t\<lparr>periodStart := 0, periodEnd := word_of_int pEnd, startChanA := 0,
                 stopChanA := word_of_int stopA, startChanB := word_of_int startB,
                 stopChanB := word_of_int stopB, atValid := True\<rparr>)"

section \<open>Ranges\<close>

definition lut16 :: "int list \<Rightarrow> bool" where
  "lut16 lut \<longleftrightarrow> length lut = 2048 \<and> (\<forall>x\<in>set lut. \<bar>x\<bar> \<le> 32768)"

lemma interpolate_between:
  fixes a b f :: int
  assumes "0 \<le> f" "f \<le> 255"
  shows "min a b \<le> a + drop_bit 8 ((b - a) * f) \<and> a + drop_bit 8 ((b - a) * f) \<le> max a b"
proof (cases "a \<le> b")
  case True
  then have "0 \<le> (b - a) * f" "(b - a) * f \<le> (b - a) * 256"
    using assms by (intro mult_nonneg_nonneg mult_left_mono; simp)+
  then have "0 \<le> drop_bit 8 ((b - a) * f)" "drop_bit 8 ((b - a) * f) \<le> b - a"
    using zdiv_mono1 [of "(b - a) * f" "(b - a) * 256" 256]
    by (simp_all only: drop_bit_eq_div) simp_all
  then show ?thesis using True by linarith
next
  case False
  then have "(b - a) * 256 \<le> (b - a) * f" "(b - a) * f \<le> 0"
    using assms by (intro mult_left_mono_neg mult_nonpos_nonneg; simp)+
  then have "b - a \<le> drop_bit 8 ((b - a) * f)" "drop_bit 8 ((b - a) * f) \<le> 0"
    using zdiv_mono1 [of "(b - a) * 256" "(b - a) * f" 256] zdiv_mono1 [of "(b - a) * f" 0 256]
    by (simp_all only: drop_bit_eq_div) simp_all
  then show ?thesis using False by linarith
qed

lemma lut_index: "unat (drop_bit 21 (phase :: u32)) < 2048" "unat (x AND 2047 :: u32) < 2048"
proof -
  have "unat (drop_bit 21 phase) = drop_bit 21 (unat phase)" by (rule unat_drop_bit_eq)
  then have "unat (drop_bit 21 phase) = unat phase div 2 ^ 21" by (simp only: drop_bit_eq_div)
  then show "unat (drop_bit 21 phase) < 2048"
    using unat_less_2p [of phase] by (simp add: less_mult_imp_div_less)
  have "unat (x AND mask 11) < 2048" by (simp only: unat_and_mask) simp
  then show "unat (x AND 2047 :: u32) < 2048" by (simp add: mask_eq_exp_minus_1)
qed

lemma refFromPhase_bounds:
  assumes "lut16 lut" shows "\<bar>refFromPhase lut phase\<bar> \<le> 32768"
proof -
  let ?i = "unat (drop_bit 21 phase)" and ?j = "unat ((drop_bit 21 phase + 1) AND 2047 :: u32)"
  let ?f = "uint (drop_bit 13 phase AND 0xFF)"
  have "unat (drop_bit 13 phase AND 0xFF) < 256" by (simp only: unat_and_255)
  moreover have e: "?f = int (unat (drop_bit 13 phase AND 0xFF))" by simp
  ultimately have f: "0 \<le> ?f" "?f \<le> 255" unfolding e by linarith+
  have "\<bar>lut ! ?i\<bar> \<le> 32768" "\<bar>lut ! ?j\<bar> \<le> 32768"
    using assms lut_index by (auto simp: lut16_def)
  then have "\<bar>lut ! ?i + drop_bit 8 ((lut ! ?j - lut ! ?i) * ?f)\<bar> \<le> 32768"
    using interpolate_between [OF f, of "lut ! ?i" "lut ! ?j"] by linarith
  then show ?thesis by (simp add: refFromPhase_def Let_def const_defs)
qed

lemma q15_scale:
  fixes r i :: int
  assumes "\<bar>r\<bar> \<le> 32768" "0 \<le> i" "i \<le> 37847"
  shows "\<bar>r * i\<bar> < 2147483648" "\<bar>drop_bit 15 (r * i)\<bar> \<le> 37847"
proof -
  have "\<bar>r * i\<bar> \<le> 32768 * 37847" using assms by (simp only: abs_mult) (intro mult_mono, auto)
  then show "\<bar>r * i\<bar> < 2147483648" by simp
  have "- (32768 * 37847) \<le> r * i" "r * i \<le> 32768 * 37847" using \<open>\<bar>r * i\<bar> \<le> _\<close> by linarith+
  then show "\<bar>drop_bit 15 (r * i)\<bar> \<le> 37847" by (simp add: drop_bit_eq_div)
qed

lemma saturate_range: "- 32767 \<le> saturate v" "saturate v \<le> 32767"
  and saturate_id: "\<bar>v\<bar> \<le> 32767 \<Longrightarrow> saturate v = v"
  by (auto simp: saturate_def Let_def)

lemma uint_duty: "uint (word_of_int (32768 + saturate v) :: u16) = 32768 + saturate v"
  using saturate_range [of v] by (simp only: uint_word_of_int) simp

lemma three_length [simp]: "length (threePhaseScaledRefs lut phase idx) = 3"
  by (simp add: threePhaseScaledRefs_def)

lemma below3: "(\<forall>k<3. P k) \<longleftrightarrow> P 0 \<and> P 1 \<and> P (2 :: nat)"
  by (auto simp: less_Suc_eq numeral_eq_Suc)

lemma ex_below3: "(\<exists>k<3. P k) \<longleftrightarrow> P 0 \<or> P 1 \<or> P (2 :: nat)"
  by (auto simp: less_Suc_eq numeral_eq_Suc)

section \<open>Zero sequences\<close>

lemma svm_zss: "continuousSvmZss v = (- (max (v ! 0) (max (v ! 1) (v ! 2)) + min (v ! 0) (min (v ! 1) (v ! 2)))) sdiv 2"
  by (simp add: continuousSvmZss_def max_def min_def)

lemma sdiv2_bounds: "2 * (x sdiv 2) \<le> x + 1 \<and> x - 1 \<le> 2 * (x sdiv 2)" for x :: int
proof -
  have "2 * (y div 2) \<le> y \<and> y - 1 \<le> 2 * (y div 2)" for y :: int by linarith
  from this [of x] this [of "- x"] show ?thesis
    by (cases "0 < x"; cases "x = 0") (simp_all add: signed_divide_int_def sgn_if)
qed

lemma foldl_keeps: "Q x \<Longrightarrow> (\<And>x k. k \<in> set ks \<Longrightarrow> Q x \<Longrightarrow> Q (f x k)) \<Longrightarrow> Q (foldl f x ks)"
  by (induction ks arbitrary: x) auto

lemma dpwm_select_below: "dpwmSelect lut phase a variant v < 3"
proof -
  have pick: "foldl (\<lambda>sel k. if P k sel then k else sel) 0 [1, 2] < (3 :: nat)" for P
    by (rule foldl_keeps) auto
  have pair: "fst p < (3 :: nat) \<and> snd p < (3 :: nat)"
    if "p = foldl (\<lambda>(hi, lo) k. (if P k hi then k else hi, if R k lo then k else lo)) (0, 0) [1, 2]" for P R p
    unfolding that by (rule foldl_keeps) auto
  have best: "snd (foldl (\<lambda>(best, sel) k. let m = g k in if m > best then (m, k) else (best, sel)) (- 1 :: int, 0)
      [0, 1, 2]) < (3 :: nat)" for g
    by (rule foldl_keeps) (auto simp: Let_def)
  have mid: "(let (hi, lo) = p in if hi = lo then hi else 3 - hi - lo) < (3 :: nat)"
    if "fst p < 3 \<and> snd p < 3" for p
    using that by (auto simp: split_def Let_def)
  consider (a) "variant = DpwmMin" | (b) "variant \<noteq> DpwmMin" "variant = DpwmMax"
    | (c) "variant \<noteq> DpwmMin" "variant \<noteq> DpwmMax" "variant = Dpwm3"
    | (d) "variant \<noteq> DpwmMin" "variant \<noteq> DpwmMax" "variant \<noteq> Dpwm3" by blast
  then show ?thesis
  proof cases
    case a
    then show ?thesis by (simp only: dpwmSelect_def refl if_True pick)
  next
    case b
    then show ?thesis by (simp only: dpwmSelect_def refl if_True if_False pick)
  next
    case c
    then show ?thesis
      unfolding dpwmSelect_def by (simp only: refl if_True if_False Let_def mid [OF pair, unfolded Let_def])
  next
    case d
    then show ?thesis
      unfolding dpwmSelect_def by (simp only: if_False best [unfolded Let_def] Let_def)
  qed
qed

lemma dpwm_min_select:
  "k < 3 \<Longrightarrow> v ! dpwmSelect lut phase a DpwmMin v \<le> v ! k"
  "k < 3 \<Longrightarrow> v ! k \<le> v ! dpwmSelect lut phase a DpwmMax v"
  by (auto simp: dpwmSelect_def const_defs less_Suc_eq numeral_eq_Suc)

definition railed :: "int \<Rightarrow> bool" where "railed d \<longleftrightarrow> d = 1 \<or> d = 65535"

lemma uint_dutyFromScaled: "uint (dutyFromScaled v dt p) = 32768 + saturate (compensate v dt p)"
  by (simp only: dutyFromScaled_def uint_duty)

lemma dpwm_rails:
  assumes "0 \<le> dt" "variant = DpwmMin \<or> variant = DpwmMax \<Longrightarrow> dt = 0"
  shows "let k = dpwmSelect lut phase a variant v in
    railed (uint (dutyFromScaled (v ! k + dpwmZss lut phase a variant v) dt (v ! k)))"
  using assms
  by (auto simp: uint_dutyFromScaled railed_def dpwmZss_def Let_def compensate_def saturate_def)

text \<open>Within the linear range the injected sequence moves every phase by the same amount and none saturates.\<close>

lemma centred_in_range:
  fixes x mx mn :: int
  assumes "mn \<le> x" "x \<le> mx" "mx - mn \<le> 65534"
  shows "\<bar>x + (- (mx + mn)) sdiv 2\<bar> \<le> 32767"
  using assms sdiv2_bounds [of "- (mx + mn)"] by linarith

section \<open>Level-shifted cells\<close>

lemma unat_byte_product: "unat (ucast (r :: u16) * ucast (n :: byte) :: u32) = unat r * unat n"
proof -
  have "unat r * unat n \<le> 65535 * 255" 
    using word_size_bounds(2) [of r] word_size_bounds(1) [of n] by (intro mult_le_mono) linarith+
  then show ?thesis by (subst unat_mult_no_wrap) simp_all
qed

lemma unat_band: "unat (push_bit 16 (ucast (k :: byte)) :: u32) = 65536 * unat k"
proof -
  have "unat (65536 * ucast k :: u32) = 65536 * unat k"
    by (subst unat_mult_no_wrap) (use word_size_bounds(1) [of k] in \<open>simp_all del: word_size_bounds\<close>)
  then show ?thesis by (simp add: push_bit_eq_mult mult.commute)
qed

lemma lsCellDuty_unat:
  "unat (lsCellDuty ref k n nl) = (let s = unat ref * unat n; d = s - 65536 * unat k in
     if nl then (if 32768 \<le> d then 65535 else 0) else min d 65535)"
proof -
  let ?s = "ucast ref * ucast n :: u32" and ?b = "push_bit 16 (ucast k) :: u32"
  note u = unat_byte_product [of ref n] unat_band [of k]
  have le: "?s \<le> ?b \<longleftrightarrow> unat ref * unat n \<le> 65536 * unat k" by (simp only: word_le_nat_alt u)
  show ?thesis
  proof (cases "?s \<le> ?b")
    case True
    with le show ?thesis by (simp add: lsCellDuty_def Let_def)
  next
    case False
    with le have "unat (?s - ?b) = unat ref * unat n - 65536 * unat k"
      by (subst unat_sub_no_wrap) (simp_all only: u, simp)
    with False show ?thesis
      by (auto simp: lsCellDuty_def Let_def word_le_nat_alt unat_ucast_down)
  qed
qed

lemma three_duties:
  assumes "mcScheme c \<in> {ModSchemeSvpwm, ModSchemeDpwm, ModSchemeSvpwm3D}"
  shows "\<exists>zss. zss = (if mcScheme c = ModSchemeDpwm
             then dpwmZss lut phase (mcDpwmClampPhase c) (mcDpwmVariant c) (threePhaseScaledRefs lut phase idx)
             else continuousSvmZss (threePhaseScaledRefs lut phase idx))
    \<and> (\<forall>k<3. uint (modulationCycleDuties lut phase idx c plans ! k)
           = 32768 + saturate (compensate (threePhaseScaledRefs lut phase idx ! k + zss) (mcDtCompQ15 c)
               (threePhaseScaledRefs lut phase idx ! k)))
    \<and> (mcScheme c = ModSchemeSvpwm3D \<longrightarrow>
         uint (modulationCycleDuties lut phase idx c plans ! 3) = 32768 + saturate zss)"
  using assms
  by (simp add: modulationCycleDuties_def Let_def below3 uint_dutyFromScaled compensate_def)

lemma max3_bounds:
  fixes v :: "nat \<Rightarrow> int"
  assumes "\<forall>j<3. \<forall>k<3. v j - v k \<le> 65534" "k < 3"
  shows "\<bar>v k + (- (max (v 0) (max (v 1) (v 2)) + min (v 0) (min (v 1) (v 2)))) sdiv 2\<bar> \<le> 32767"
proof -
  have s: "max (v 0) (max (v 1) (v 2)) - min (v 0) (min (v 1) (v 2)) \<le> 65534"
    using assms(1) unfolding below3 by (auto simp: max_def min_def)
  have "k = 0 \<or> k = 1 \<or> k = 2" using assms(2) by linarith
  then have "min (v 0) (min (v 1) (v 2)) \<le> v k" "v k \<le> max (v 0) (max (v 1) (v 2))" by auto
  then show ?thesis using s by (rule centred_in_range)
qed

lemma linear_range:
  assumes "mcScheme c \<in> {ModSchemeSvpwm, ModSchemeDpwm, ModSchemeSvpwm3D}"
    "mcScheme c = ModSchemeDpwm \<Longrightarrow> mcDpwmVariant c = DpwmMin \<or> mcDpwmVariant c = DpwmMax"
    "\<forall>j<3. \<forall>k<3. v ! j - v ! k \<le> 65534" "k < 3"
  shows "\<bar>v ! k + (if mcScheme c = ModSchemeDpwm then dpwmZss lut phase a (mcDpwmVariant c) v
                   else continuousSvmZss v)\<bar> \<le> 32767"
proof (cases "mcScheme c = ModSchemeDpwm")
  case True
  let ?s = "dpwmSelect lut phase a (mcDpwmVariant c) v"
  have "v ! k - v ! ?s \<le> 65534" "v ! ?s - v ! k \<le> 65534"
    using assms(3,4) dpwm_select_below by simp_all
  moreover have "DpwmMax \<noteq> DpwmMin" by (simp add: const_defs)
  ultimately show ?thesis
    using True assms(2) [OF True] dpwm_min_select [OF assms(4), of v lut phase a]
    by (elim disjE) (simp_all add: dpwmZss_def Let_def)
next
  case False
  then show ?thesis using max3_bounds [OF assms(3,4)] by (simp add: svm_zss)
qed

section \<open>Properties\<close>

text \<open>C37: the three-phase schemes realise their references: in the linear range without dead-time
  compensation the zero sequence of SVPWM, DPWMMIN and DPWMMAX cancels exactly between any two
  phases (the line-to-line voltages are those of the references), the neutral leg of the
  four-leg scheme makes phase-to-neutral the pure reference, and with every DPWM variant, also
  outside the linear range, one phase is held at a rail.\<close>

theorem three_phase_duties:
  fixes lut :: "int list" and phase idx :: u32 and c :: ModCycleConfig and plans :: "CellPlan list"
  defines "v \<equiv> threePhaseScaledRefs lut phase idx"
    and "d \<equiv> \<lambda>k. uint (modulationCycleDuties lut phase idx c plans ! k)"
  assumes sch: "mcScheme c \<in> {ModSchemeSvpwm, ModSchemeDpwm, ModSchemeSvpwm3D}" and dt: "mcDtCompQ15 c = 0"
  shows "(mcScheme c = ModSchemeDpwm \<longrightarrow> (\<exists>k<3. railed (d k)))
    \<and> ((\<forall>j<3. \<forall>k<3. v ! j - v ! k \<le> 65534)
       \<and> (mcScheme c = ModSchemeDpwm \<longrightarrow> mcDpwmVariant c = DpwmMin \<or> mcDpwmVariant c = DpwmMax) \<longrightarrow>
       (\<forall>j<3. \<forall>k<3. d j - d k = v ! j - v ! k)
       \<and> (mcScheme c = ModSchemeSvpwm3D \<and> \<bar>continuousSvmZss v\<bar> \<le> 32767 \<longrightarrow>
            (\<forall>k<3. d k - d 3 = v ! k)))"
proof -
  obtain zss where zss: "zss = (if mcScheme c = ModSchemeDpwm
        then dpwmZss lut phase (mcDpwmClampPhase c) (mcDpwmVariant c) v else continuousSvmZss v)"
    and d: "k < 3 \<Longrightarrow> d k = 32768 + saturate (compensate (v ! k + zss) (mcDtCompQ15 c) (v ! k))"
    and d3: "mcScheme c = ModSchemeSvpwm3D \<Longrightarrow> d 3 = 32768 + saturate zss" for k
    using three_duties [OF sch, of lut phase idx plans] unfolding v_def d_def by blast
  have rail: "\<exists>k<3. railed (d k)" if m: "mcScheme c = ModSchemeDpwm"
    using dpwm_rails [of 0 "mcDpwmVariant c" lut phase "mcDpwmClampPhase c" v] dpwm_select_below d zss m dt
    by (metis order_refl uint_dutyFromScaled)
  have "(\<forall>j<3. \<forall>k<3. d j - d k = v ! j - v ! k)
      \<and> (mcScheme c = ModSchemeSvpwm3D \<and> \<bar>continuousSvmZss v\<bar> \<le> 32767 \<longrightarrow> (\<forall>k<3. d k - d 3 = v ! k))"
    if lin: "\<forall>j<3. \<forall>k<3. v ! j - v ! k \<le> 65534"
      "mcScheme c = ModSchemeDpwm \<longrightarrow> mcDpwmVariant c = DpwmMin \<or> mcDpwmVariant c = DpwmMax"
  proof -
    have "d k = 32768 + v ! k + zss" if "k < 3" for k
      using linear_range [OF sch _ lin(1) that] lin(2) d [OF that] dt
      by (simp add: zss compensate_def saturate_id)
    moreover have "d 3 = 32768 + zss" if "mcScheme c = ModSchemeSvpwm3D" "\<bar>continuousSvmZss v\<bar> \<le> 32767"
      using d3 that zss by (simp add: saturate_id const_defs)
    ultimately show ?thesis by simp
  qed
  with rail show ?thesis by blast
qed

definition squareLut :: "int list" where
  "squareLut = replicate 1024 32767 @ replicate 1024 (- 32767)"

definition dpwmExample :: ModCycleConfig where
  "dpwmExample = \<lparr>mcScheme = ModSchemeDpwm, mcCells = 3, mcDpwmVariant = DpwmMin, mcDpwmClampPhase = 0,
     mcNearestLevel = False, mcDtCompQ15 = 0\<rparr>"

lemma three_phase_duties_witness:
  "uint (modulationCycleDuties squareLut 2863311630 32768 dpwmExample [] ! 0)
     - uint (modulationCycleDuties squareLut 2863311630 32768 dpwmExample [] ! 1) = - 65534"
proof -
  have v: "threePhaseScaledRefs squareLut 2863311630 32768 = [- 32767, 32767, 32767]"
    by (simp add: threePhaseScaledRefs_def refFromPhase_def squareLut_def nth_append const_defs Let_def)
  let ?d = "\<lambda>k. uint (modulationCycleDuties squareLut 2863311630 32768 dpwmExample [] ! k)"
  have e: "mcScheme dpwmExample = ModSchemeDpwm" "mcDpwmVariant dpwmExample = DpwmMin" "mcDtCompQ15 dpwmExample = 0"
    by (simp_all add: dpwmExample_def)
  have spread: "\<forall>j<3. \<forall>k<3. [- 32767, 32767, 32767] ! j - [- 32767, 32767, 32767] ! k \<le> (65534 :: int)"
    by (simp add: below3)
  have "?d j - ?d k = [- 32767, 32767, 32767] ! j - [- 32767, 32767, 32767] ! k" if "j < 3" "k < 3" for j k
    using three_phase_duties [of dpwmExample squareLut 2863311630 32768 "[]", unfolded v] spread e that by blast
  from this [of 0 1] show ?thesis by simp
qed

section \<open>Stacked carriers\<close>

text \<open>What the pin of a cell does on average: the polarity inversion undoes the complement.\<close>

definition pinDuty :: "CellPlan \<Rightarrow> u16 \<Rightarrow> nat" where
  "pinDuty p d = (if polarityInverted p then 65535 - unat d else unat d)"

lemma unat_complement: "unat (65535 - d :: u16) = 65535 - unat d"
  by (subst unat_sub_no_wrap) (use word_size_bounds(2) [of d] in \<open>simp_all del: word_size_bounds\<close>)

lemma pin_geometry:
  "polarityInverted p = dutyComplement p \<Longrightarrow> pinDuty p (modulationFinalDuty d p) = unat d"
proof -
  have "unat d \<le> 65535" using word_size_bounds(2) [of d] by linarith
  then have "65535 - (65535 - unat d) = unat d" by (rule diff_diff_cancel)
  then show "polarityInverted p = dutyComplement p \<Longrightarrow> pinDuty p (modulationFinalDuty d p) = unat d"
    by (simp add: pinDuty_def modulationFinalDuty_def unat_complement)
qed

lemma level_shifted_plan:
  "polarityInverted (modulationCellPlan ModSchemeLevelShifted disposition cell n)
   = dutyComplement (modulationCellPlan ModSchemeLevelShifted disposition cell n)"
  by (simp add: modulationCellPlan_def Let_def const_defs)

text \<open>A level of \<open>s\<close> is built like a thermometer: full cells, one partial cell, empty cells.\<close>

lemma thermometer:
  fixes s n :: nat
  assumes "s \<le> 65535 * n"
  shows "(\<Sum>k<n. min (s - 65536 * k) 65535) + s div 65536 = s"
  using assms
proof (induction n arbitrary: s)
  case (Suc n)
  show ?case
  proof (cases "s \<le> 65535")
    case True
    then have "(\<Sum>k<Suc n. min (s - 65536 * k) 65535) = (\<Sum>k<Suc n. if k = 0 then s else 0)"
      by (intro sum.cong) auto
    then show ?thesis using True by simp
  next
    case False
    have "(\<Sum>k<Suc n. min (s - 65536 * k) 65535) = 65535 + (\<Sum>k<n. min (s - 65536 - 65536 * k) 65535)"
      using False by (simp add: sum.lessThan_Suc_shift diff_diff_left add.commute del: sum.lessThan_Suc)
    moreover have "(\<Sum>k<n. min (s - 65536 - 65536 * k) 65535) + (s - 65536) div 65536 = s - 65536"
      using Suc.prems by (intro Suc.IH) simp
    moreover have "s div 65536 = Suc ((s - 65536) div 65536)" using False by (simp add: le_div_geq)
    ultimately show ?thesis using False by simp
  qed
qed simp

lemma full_cells:
  fixes s k :: nat
  shows "min (s - 65536 * k) 65535
    = (if k < s div 65536 then 65535 else if k = s div 65536 then s mod 65536 else 0)"
proof -
  have m: "s = 65536 * (s div 65536) + s mod 65536" "s mod 65536 < 65536" by simp_all
  consider "k < s div 65536" | "k = s div 65536" | "s div 65536 < k" by linarith
  then show ?thesis
  proof cases
    case 1
    then have "65536 * Suc k \<le> 65536 * (s div 65536)" by (intro mult_le_mono2) simp
    with m(1) 1 show ?thesis by simp
  next
    case 2
    with m show ?thesis by (simp add: minus_mult_div_eq_mod)
  next
    case 3
    then have "65536 * Suc (s div 65536) \<le> 65536 * k" by (intro mult_le_mono2) simp
    with m 3 show ?thesis by simp
  qed
qed

lemma unat_of_nat_byte: "k < unat (n :: byte) \<Longrightarrow> unat (of_nat k :: byte) = k"
  using word_size_bounds(1) [of n] by (simp add: unat_of_nat take_bit_nat_eq_self_iff del: word_size_bounds)

text \<open>C38: level-shifted modulation builds the reference out of stacked cells: whatever the carrier
  disposition, the pin duties of the cells add up to the reference times the number of cells (up
  to the one step a full cell is short of its band), at most one cell is switching, and in
  nearest-level mode every cell is at a rail and the number of those that are on is the
  reference rounded to the nearest level.\<close>

theorem level_shifted_cells:
  fixes lut :: "int list" and phase idx :: u32 and c :: ModCycleConfig and disposition :: byte
  defines "n \<equiv> unat (mcCells c)"
    and "plans \<equiv> map (\<lambda>k. modulationCellPlan ModSchemeLevelShifted disposition (of_nat k) (mcCells c))
                   [0..<unat (mcCells c)]"
    and "s \<equiv> unat (refToDuty (refFromPhase lut phase) idx 0) * unat (mcCells c)"
    and "pin \<equiv> \<lambda>k. pinDuty (modulationCellPlan ModSchemeLevelShifted disposition (of_nat k) (mcCells c))
                   (modulationCycleDuties lut phase idx c
                     (map (\<lambda>k. modulationCellPlan ModSchemeLevelShifted disposition (of_nat k) (mcCells c))
                       [0..<unat (mcCells c)]) ! k)"
  assumes "mcScheme c = ModSchemeLevelShifted"
  shows "length (modulationCycleDuties lut phase idx c plans) = n
    \<and> (\<not> mcNearestLevel c \<longrightarrow> (\<Sum>k<n. pin k) + s div 65536 = s
        \<and> (\<forall>k<n. k \<noteq> s div 65536 \<longrightarrow> pin k = 0 \<or> pin k = 65535))
    \<and> (mcNearestLevel c \<longrightarrow> (\<forall>k<n. pin k = (if k < (s + 32768) div 65536 then 65535 else 0)))"
proof -
  have lv: "ModSchemeLevelShifted \<notin> {ModSchemeSvpwm, ModSchemeDpwm, ModSchemeSvpwm3D}"
    by (simp add: const_defs)
  have d: "modulationCycleDuties lut phase idx c plans
      = map (\<lambda>k. modulationFinalDuty (lsCellDuty (refToDuty (refFromPhase lut phase) idx 0) (of_nat k)
                    (mcCells c) (mcNearestLevel c)) (plans ! k)) [0..<unat (mcCells c)]"
    using assms(5) lv by (simp add: modulationCycleDuties_def Let_def modulationCellDuty_def)
  have pin: "pin k = (if mcNearestLevel c then (if 32768 \<le> s - 65536 * k then 65535 else 0)
      else min (s - 65536 * k) 65535)" if "k < n" for k
    using that d
    by (simp add: n_def pin_def plans_def [symmetric])
      (simp add: plans_def pin_geometry level_shifted_plan lsCellDuty_unat Let_def s_def unat_of_nat_byte)
  have "unat (refToDuty (refFromPhase lut phase) idx 0) \<le> 65535"
    using word_size_bounds(2) [of "refToDuty (refFromPhase lut phase) idx 0"] by linarith
  then have "s \<le> 65535 * n" unfolding s_def n_def by (rule mult_le_mono1)
  then have "(\<Sum>k<n. pin k) + s div 65536 = s" if "\<not> mcNearestLevel c"
    using thermometer [of s n] that by (simp add: pin)
  moreover have "pin k = 0 \<or> pin k = 65535" if "\<not> mcNearestLevel c" "k < n" "k \<noteq> s div 65536" for k
    using that full_cells [of s k] by (simp add: pin)
  moreover have "pin k = (if k < (s + 32768) div 65536 then 65535 else 0)" if "mcNearestLevel c" "k < n" for k
  proof -
    have "Suc k \<le> (s + 32768) div 65536 \<longleftrightarrow> Suc k * 65536 \<le> s + 32768"
      by (rule less_eq_div_iff_mult_less_eq) simp
    then have "32768 \<le> s - 65536 * k \<longleftrightarrow> k < (s + 32768) div 65536" by (simp add: Suc_le_eq) linarith
    then show ?thesis using pin [OF that(2)] that(1) by simp
  qed
  ultimately show ?thesis by (simp add: d n_def)
qed

definition levelExample :: ModCycleConfig where
  "levelExample = \<lparr>mcScheme = ModSchemeLevelShifted, mcCells = 4, mcDpwmVariant = 0, mcDpwmClampPhase = 0,
     mcNearestLevel = True, mcDtCompQ15 = 0\<rparr>"

lemma level_shifted_cells_witness:
  "length (modulationCycleDuties squareLut 0 32768 levelExample
     (map (\<lambda>k. modulationCellPlan ModSchemeLevelShifted CarrierPod (of_nat k) (mcCells levelExample))
       [0..<unat (mcCells levelExample)])) = unat (mcCells levelExample)"
  using level_shifted_cells [of levelExample squareLut 0 32768 CarrierPod] by (simp add: levelExample_def)

section \<open>Soft start\<close>

lemma unat_target: "unat (push_bit SoftStartFractionBits (ucast (t :: u32)) :: u64) = unat t * 16777216"
proof -
  have "unat t * 16777216 \<le> 4294967295 * 16777216"
    using word_size_bounds(3) [of t] by (intro mult_le_mono1) linarith
  then have "unat (16777216 * ucast t :: u64) = 16777216 * unat t"
    by (subst unat_mult_no_wrap) (simp_all add: mult.commute)
  then show ?thesis by (simp add: push_bit_eq_mult SoftStartFractionBits_def mult.commute)
qed

lemma rampIndex_unat:
  fixes cur st :: u64 and t :: u32
  assumes "st \<noteq> SoftStartInstant"
  shows "unat (rampIndexQ24 cur t st) =
    (let x = unat cur; g = unat t * 16777216; k = unat st in
     if x < g then min g (x + k) else max g (x - k))"
proof -
  note u = unat_target [of t]
  let ?g = "push_bit SoftStartFractionBits (ucast t) :: u64"
  consider (up) "cur < ?g" | (down) "cur > ?g" | (same) "cur = ?g" by (meson linorder_neqE)
  then show ?thesis
  proof cases
    case up
    then have l: "unat cur < unat t * 16777216" by (simp only: word_less_nat_alt u)
    then have r: "unat (?g - cur) = unat t * 16777216 - unat cur" by (subst unat_sub_no_wrap) (simp_all add: u)
    have "unat (cur + st) = unat cur + unat st" if "unat st < unat t * 16777216 - unat cur"
    proof (rule unat_add_no_wrap)
      have "unat ?g < 2 ^ 64" using unat_less_2p [of ?g] by simp
      then show "unat cur + unat st < 2 ^ LENGTH(64)" using that u by simp
    qed
    then show ?thesis
      using up l assms r by (auto simp: rampIndexQ24_def Let_def word_less_nat_alt u min_def)
  next
    case down
    then have l: "unat t * 16777216 < unat cur" by (simp only: word_less_nat_alt u)
    then have r: "unat (cur - ?g) = unat cur - unat t * 16777216" by (subst unat_sub_no_wrap) (simp_all add: u)
    have "unat (cur - st) = unat cur - unat st" if "unat st < unat cur - unat t * 16777216"
      by (rule unat_sub_no_wrap) (use that in simp)
    then show ?thesis
      using down l assms r by (auto simp: rampIndexQ24_def Let_def word_less_nat_alt u max_def)
  next
    case same
    then show ?thesis using assms u by (simp add: rampIndexQ24_def Let_def)
  qed
qed

lemma ramp_from_zero:
  assumes "st \<noteq> SoftStartInstant"
  shows "unat (((\<lambda>x. rampIndexQ24 x t st) ^^ n) 0) = min (unat t * 16777216) (n * unat st)"
proof (induction n)
  case (Suc n)
  have "((\<lambda>x. rampIndexQ24 x t st) ^^ Suc n) 0 = rampIndexQ24 (((\<lambda>x. rampIndexQ24 x t st) ^^ n) 0) t st"
    by simp
  then show ?case
    unfolding rampIndex_unat [OF assms] using Suc.IH by (auto simp: rampIndex_unat [OF assms] Let_def min_def)
qed simp

definition rampCycles :: "u16 \<Rightarrow> u32 \<Rightarrow> nat" where
  "rampCycles rampMs carrierHz = unat rampMs * unat carrierHz div 1000"

lemma soft_start_step:
  assumes "0 < rampCycles rampMs carrierHz"
  shows "softStartStepQ24 t rampMs carrierHz \<noteq> SoftStartInstant"
    "unat (softStartStepQ24 t rampMs carrierHz)
      = max 1 ((unat t * 16777216 + rampCycles rampMs carrierHz - 1) div rampCycles rampMs carrierHz)"
proof -
  let ?c = "rampCycles rampMs carrierHz"
  let ?steps = "ucast rampMs * ucast carrierHz div 1000 :: u64"
  let ?D = "push_bit SoftStartFractionBits (ucast t) :: u64"
  have m: "unat rampMs * unat carrierHz \<le> 281470681677825"
    using mult_le_mono [of "unat rampMs" 65535 "unat carrierHz" 4294967295]
      word_size_bounds(2) [of rampMs] word_size_bounds(3) [of carrierHz] by linarith
  have p: "unat (ucast rampMs * ucast carrierHz :: u64) = unat rampMs * unat carrierHz"
    by (subst unat_mult_no_wrap) (use m in \<open>simp_all add: unat_ucast_up\<close>)
  have c: "?c \<le> 281470681677825"
    unfolding rampCycles_def using div_le_dividend m by (rule order_trans)
  from p have s: "unat ?steps = ?c" by (simp add: unat_div_distrib rampCycles_def)
  have D: "unat ?D = unat t * 16777216" "unat t * 16777216 \<le> 72057594037927936"
    using unat_target [of t] mult_le_mono1 [of "unat t" 4294967296 16777216] word_size_bounds(3) [of t]
    by linarith+
  have "unat (?D + ?steps) = unat t * 16777216 + ?c"
    by (subst unat_add_no_wrap) (use D c s in simp_all)
  then have "unat (?D + ?steps - 1) = unat t * 16777216 + ?c - 1"
    using assms by (subst unat_sub_no_wrap) simp_all
  then have q: "unat ((?D + ?steps - 1) div ?steps) = (unat t * 16777216 + ?c - 1) div ?c"
    by (subst unat_div_distrib) (simp only: s)
  have nz: "?steps \<noteq> 0" using assms s by auto
  have z: "(?D + ?steps - 1) div ?steps = 0 \<longleftrightarrow> (unat t * 16777216 + ?c - 1) div ?c = 0"
    by (simp only: unat_eq_0 [symmetric] q)
  show e: "unat (softStartStepQ24 t rampMs carrierHz) = max 1 ((unat t * 16777216 + ?c - 1) div ?c)"
    using nz z q by (simp add: softStartStepQ24_def Let_def)
  have "(unat t * 16777216 + ?c - 1) div ?c \<le> unat t * 16777216 + ?c - 1" by (rule div_le_dividend)
  then have "unat (softStartStepQ24 t rampMs carrierHz) < 18446744073709551615" using e D(2) c by linarith
  then show "softStartStepQ24 t rampMs carrierHz \<noteq> SoftStartInstant"
    by (auto simp: SoftStartInstant_def unsigned_minus_1_eq_mask mask_eq_exp_minus_1)
qed

text \<open>A soft start arrives on time: from zero the index rises by equal steps, stays below the target
  before it arrives, is exactly the target after \<open>rampMs\<close> of carrier cycles and stays there; no step is
  larger than the even share of the ramp, rounded up; and from any other value, up or down, a
  cycle moves the index towards the target by the step and never past it.\<close>

theorem soft_start_on_time:
  fixes target carrierHz :: u32 and rampMs :: u16 and cur :: u64
  defines "st \<equiv> softStartStepQ24 target rampMs carrierHz" and "goal \<equiv> unat target * 16777216"
  assumes "0 < rampCycles rampMs carrierHz"
  shows "unat (((\<lambda>x. rampIndexQ24 x target st) ^^ n) 0) = min goal (n * unat st)
    \<and> (rampCycles rampMs carrierHz \<le> n \<longrightarrow> unat (((\<lambda>x. rampIndexQ24 x target st) ^^ n) 0) = goal)
    \<and> (unat st - 1) * rampCycles rampMs carrierHz \<le> goal
    \<and> (let x = unat cur; y = unat (rampIndexQ24 cur target st) in
         (x \<le> goal \<longrightarrow> x \<le> y \<and> y \<le> goal \<and> y - x \<le> unat st)
         \<and> (goal \<le> x \<longrightarrow> goal \<le> y \<and> y \<le> x \<and> x - y \<le> unat st)
         \<and> (x \<noteq> goal \<longrightarrow> y \<noteq> x))"
proof -
  let ?c = "rampCycles rampMs carrierHz"
  note ne = soft_start_step(1) [OF assms(3), of target, folded st_def]
  note st = soft_start_step(2) [OF assms(3), of target, folded st_def goal_def]
  have q: "(goal + ?c - 1) div ?c * ?c \<le> goal + ?c - 1" by simp
  have up: "goal \<le> ?c * unat st"
  proof -
    have "(goal + ?c - 1) mod ?c < ?c" using assms(3) by simp
    moreover have "goal + ?c - 1 = (goal + ?c - 1) div ?c * ?c + (goal + ?c - 1) mod ?c"
      by (rule div_mult_mod_eq [symmetric])
    ultimately have "goal \<le> (goal + ?c - 1) div ?c * ?c" using assms(3) by linarith
    also have "\<dots> \<le> unat st * ?c" unfolding st by (rule mult_le_mono1) simp
    finally show ?thesis by (simp add: mult.commute)
  qed
  have "min goal (n * unat st) = goal" if "?c \<le> n"
    by (rule min_absorb1 [OF order_trans [OF up mult_le_mono1 [OF that]]])
  moreover have "(unat st - 1) * ?c \<le> goal"
  proof -
    have "(goal + ?c - 1) div ?c * ?c - ?c \<le> goal" using q assms(3) by linarith
    then show ?thesis using st by (auto simp: diff_mult_distrib max_def)
  qed
  moreover have "1 \<le> unat st" using st by simp
  ultimately show ?thesis
    using ramp_from_zero [OF ne, of n target] rampIndex_unat [OF ne, of cur target]
    by (auto simp: goal_def [symmetric] Let_def min_def max_def)
qed

lemma soft_start_on_time_witness:
  "unat (((\<lambda>x. rampIndexQ24 x 26214 (softStartStepQ24 26214 2000 20000)) ^^ 40000) 0) = 26214 * 16777216"
proof -
  have c: "rampCycles 2000 20000 = 40000" by (simp add: rampCycles_def)
  then have "0 < rampCycles 2000 20000" by simp
  from soft_start_on_time [OF this, of 40000 26214, THEN conjunct2, THEN conjunct1] c
  show ?thesis by simp
qed

section \<open>Ranges of the pipeline\<close>

lemma sint_index: "unat (idx :: u32) < 2147483648 \<Longrightarrow> sint idx = int (unat idx)"
proof -
  assume l: "unat idx < 2147483648"
  have e: "uint idx = int (unat idx)" by simp
  with l have "uint idx < 2147483648" by linarith
  moreover have "- 2147483648 \<le> uint idx" unfolding e by linarith
  ultimately have "signed_take_bit 31 (uint idx) = uint idx" by (intro signed_take_bit_int_eq_self) simp_all
  then have "sint idx = uint idx" by (simp add: sint_uint)
  then show "sint idx = int (unat idx)" using e by (rule trans)
qed

text \<open>No signed 32-bit intermediate of the pipeline overflows, for any table and any index up to the scheme maximum.\<close>

lemma scaled_refs_fit:
  assumes "lut16 lut" "unat idx \<le> 37847" "k < 3"
  shows "\<bar>refFromPhase lut phase * sint idx\<bar> < 2147483648" "\<bar>threePhaseScaledRefs lut phase idx ! k\<bar> \<le> 37847"
proof -
  have e: "sint idx = int (unat idx)" using assms(2) by (intro sint_index) linarith
  have i: "0 \<le> sint idx" "sint idx \<le> 37847" unfolding e using assms(2) by linarith+
  note q = q15_scale [OF refFromPhase_bounds [OF assms(1)] i]
  show "\<bar>refFromPhase lut phase * sint idx\<bar> < 2147483648" by (rule q(1))
  have "k = 0 \<or> k = 1 \<or> k = 2" using assms(3) by linarith
  then show "\<bar>threePhaseScaledRefs lut phase idx ! k\<bar> \<le> 37847"
    by (elim disjE) (simp_all add: threePhaseScaledRefs_def q(2))
qed

lemma signed_intermediates_fit:
  assumes "lut16 lut" "unat idx \<le> 37847" "k < 3" "\<bar>dt\<bar> \<le> 32768"
    "zss = dpwmZss lut phase a variant (threePhaseScaledRefs lut phase idx)
     \<or> zss = continuousSvmZss (threePhaseScaledRefs lut phase idx)"
  shows "\<bar>compensate (threePhaseScaledRefs lut phase idx ! k + zss) dt p\<bar> < 2147483648"
proof -
  let ?v = "threePhaseScaledRefs lut phase idx"
  note v = scaled_refs_fit(2) [OF assms(1,2), of _ phase]
  have zero: "\<bar>(- (max x (max y z) + min x (min y z))) sdiv 2\<bar> \<le> 37848"
    if "\<bar>x\<bar> \<le> 37847" "\<bar>y\<bar> \<le> 37847" "\<bar>z\<bar> \<le> 37847" for x y z :: int
  proof -
    have "\<bar>max x (max y z)\<bar> \<le> 37847" "\<bar>min x (min y z)\<bar> \<le> 37847" using that by (auto simp: max_def min_def)
    moreover have "\<bar>(- (a + b)) sdiv 2\<bar> \<le> 37848" if "\<bar>a\<bar> \<le> 37847" "\<bar>b\<bar> \<le> 37847" for a b :: int
      using that sdiv2_bounds [of "- (a + b)"] by (simp only: abs_le_iff) linarith
    ultimately show ?thesis by blast
  qed
  have "\<bar>continuousSvmZss ?v\<bar> \<le> 37848"
    unfolding svm_zss by (rule zero; rule v; simp)
  moreover have "\<bar>dpwmZss lut phase a variant ?v\<bar> \<le> 70614"
  proof -
    have "\<bar>if A then - 32767 - y else if B then 32767 - y else if y \<ge> 0 then 32767 - y else - 32767 - y\<bar> \<le> 70614"
      if "\<bar>y\<bar> \<le> 37847" for A B and y :: int
      using that by (cases A; cases B; cases "y \<ge> 0") simp_all
    from this [OF v [OF dpwm_select_below [of lut phase a variant ?v]]] show ?thesis
      unfolding dpwmZss_def Let_def .
  qed
  ultimately have "\<bar>zss\<bar> \<le> 70614" using assms(5) by linarith
  then show ?thesis using v [OF assms(3)] assms(4) by (auto simp: compensate_def)
qed

section \<open>Dither, prescaler and edge timings\<close>

lemma nextLfsr16_nonzero: "s \<noteq> 0 \<Longrightarrow> nextLfsr16 s \<noteq> 0"
proof
  assume s: "s \<noteq> 0" and z: "nextLfsr16 s = 0"
  have e: "drop_bit 1 s = (- (s AND 1)) AND 0xB400" using z by (simp add: nextLfsr16_def xor_eq_0_word)
  have top: "\<not> bit (drop_bit 1 s) 15" by (auto simp: bit_simps dest: bit_imp_le_length)
  show False
  proof (cases "bit s 0")
    case True
    then have "s AND 1 = 1" by (simp add: and_one_eq odd_iff_mod_2_eq_one bit_0)
    then have "bit (drop_bit 1 s) 15" using e by simp
    with top show False by simp
  next
    case False
    then have "s AND 1 = 0" by (simp add: and_one_eq bit_0 even_iff_mod_2_eq_zero)
    then have d: "drop_bit 1 s = 0" using e by simp
    have "bit s n \<longleftrightarrow> False" for n
      using False arg_cong [OF d, of "\<lambda>w. bit w (n - 1)"] by (cases n) (simp_all add: bit_simps)
    then have "s = 0" by (simp add: bit_eq_iff)
    with s show False by simp
  qed
qed

lemma triangleIndex_below: "triangleIndex counter 16 < 16"
proof -
  have "unat (counter mod 30) < 30" by (simp only: unat_mod) simp
  then have m: "counter mod 30 < 30" by (simp add: word_less_nat_alt)
  have "30 - m < 16" if "m < 30" "16 \<le> m" for m :: u32
  proof -
    have "unat (30 - m) = 30 - unat m" by (subst unat_sub_no_wrap) (use that in \<open>simp_all add: word_less_nat_alt\<close>)
    then show ?thesis using that by (simp add: word_less_nat_alt word_le_nat_alt)
  qed
  then show ?thesis using m by (auto simp: triangleIndex_def Let_def not_less)
qed

definition prescaled :: "u32 \<Rightarrow> nat \<Rightarrow> u32" where
  "prescaled busClockHz i = busClockHz div push_bit i 1"

text \<open>The chosen prescaler is the smallest whose period fits the counter, if any fits.\<close>

lemma bestPrescaler_smallest:
  assumes "0 < pwmHz" "i < 8" "prescaled busHz i div pwmHz \<le> maxCount"
  shows "prescaled busHz (unat (bestPrescalerIndex busHz pwmHz maxCount)) div pwmHz \<le> maxCount"
    "unat (bestPrescalerIndex busHz pwmHz maxCount) \<le> i"
proof -
  let ?P = "\<lambda>i. pwmHz > 0 \<and> (busHz div push_bit i 1) div pwmHz \<le> maxCount"
  obtain n where n: "find ?P [0..<8] = Some n"
    using assms by (cases "find ?P [0..<8]") (auto simp: find_None_iff prescaled_def)
  then obtain k where k: "k < 8" "?P n" "n = k" "\<forall>j<k. \<not> ?P j"
    unfolding find_Some_iff by auto
  have u: "unat (bestPrescalerIndex busHz pwmHz maxCount) = n"
    unfolding bestPrescalerIndex_def n using k(1,3) by (simp add: unat_of_nat take_bit_nat_eq_self_iff)
  show "prescaled busHz (unat (bestPrescalerIndex busHz pwmHz maxCount)) div pwmHz \<le> maxCount"
    unfolding u using k by (simp add: prescaled_def)
  show "unat (bestPrescalerIndex busHz pwmHz maxCount) \<le> i"
    unfolding u using k assms by (metis not_le prescaled_def)
qed

text \<open>Timings that are reported valid have all their edges in order within the period, as the 16-bit
  patterns the VAL registers get.\<close>

lemma word_edges:
  fixes x y :: int
  assumes "0 \<le> x" "y < 65536"
  shows "x \<le> y \<Longrightarrow> (word_of_int x :: u16) \<le> word_of_int y" "x < y \<Longrightarrow> (word_of_int x :: u16) < word_of_int y"
  using assms by (simp_all only: word_le_def word_less_def uint_word_of_int) simp_all

lemma asymmetric_edges:
  assumes "atValid (computeAsymmetricTimings busHz pwmHz duty pre post maxCount)" "unat maxCount \<le> 65535"
  shows "let t = computeAsymmetricTimings busHz pwmHz duty pre post maxCount in
    periodStart t = 0 \<and> startChanA t = 0 \<and> 0 < stopChanA t \<and> stopChanA t \<le> periodEnd t
    \<and> startChanB t < stopChanB t \<and> stopChanB t \<le> periodEnd t"
proof -
  let ?ps = "bestPrescalerIndex busHz pwmHz maxCount"
  let ?clk = "busHz div push_bit (unat ?ps) 1"
  let ?r = "(ucast ?clk + ucast (pwmHz div 2)) div ucast pwmHz :: u64"
  let ?pEnd = "sint ?r - 1"
  let ?stopA = "sint ((word_of_int (sint ?r) * ucast duty + 32768) div 65536 :: u64)"
  let ?startB = "?stopA - nanosToTicks ?clk pre"
  let ?stopB = "?pEnd - nanosToTicks ?clk post"
  have nv: "\<not> atValid (noTimings\<lparr>prescalerIndex := p\<rparr>)" "\<not> atValid noTimings" for p
    by (simp_all add: noTimings_def)
  note d = assms(1) [unfolded computeAsymmetricTimings_def Let_def]
  have nz: "\<not> (pwmHz = 0 \<or> busHz = 0)" using d nv by (auto split: if_splits)
  have r: "\<not> (?r < 2 \<or> ?r > ucast maxCount + 1)" using d nv by (simp only: nz if_False) (auto split: if_splits)
  have o: "\<not> (?stopA \<le> 0 \<or> ?stopA > ?pEnd \<or> ?startB < 0 \<or> ?startB \<ge> ?stopB \<or> ?stopB > ?pEnd)"
    using d nv by (simp only: nz r if_False) (auto split: if_splits)
  have "unat (ucast maxCount + 1 :: u64) = unat maxCount + 1"
    by (subst unat_add_no_wrap) (use assms(2) in simp_all)
  then have "unat ?r \<le> 65536" using r assms(2) by (simp add: not_less word_le_nat_alt)
  then have "uint ?r \<le> 65536" unfolding uint_nat by linarith
  moreover have small: "sint x = uint x" if "uint x \<le> 65536" for x :: u64
  proof -
    have "- (2 ^ 63) \<le> uint x" by (rule order_trans [of _ 0]) simp_all
    then show ?thesis
      unfolding sint_uint by (intro signed_take_bit_int_eq_self) (use that in simp_all)
  qed
  ultimately have "sint ?r = uint ?r" by blast
  then have e: "?pEnd < 65536" using \<open>uint ?r \<le> 65536\<close> by simp
  have t: "computeAsymmetricTimings busHz pwmHz duty pre post maxCount
    = noTimings\<lparr>prescalerIndex := ?ps, periodStart := 0, periodEnd := word_of_int ?pEnd, startChanA := 0,
        stopChanA := word_of_int ?stopA, startChanB := word_of_int ?startB, stopChanB := word_of_int ?stopB,
        atValid := True\<rparr>"
    unfolding computeAsymmetricTimings_def Let_def by (simp only: nz r o if_False)
  have "(0 :: u16) < word_of_int ?stopA" using word_edges(2) [of 0 ?stopA] o e by simp
  moreover have "(word_of_int ?stopA :: u16) \<le> word_of_int ?pEnd" using o e by (intro word_edges) auto
  moreover have "(word_of_int ?startB :: u16) < word_of_int ?stopB" using o e by (intro word_edges) auto
  moreover have "(word_of_int ?stopB :: u16) \<le> word_of_int ?pEnd" using o e by (intro word_edges) auto
  ultimately show ?thesis unfolding t Let_def by simp
qed

end
