(* ===== verification/Byte_Order.thy ===== *)
theory Byte_Order
  imports Prelude
begin

text \<open>
  Little-endian fields: how the code writes 16- and 32-bit values into byte buffers and reads them back.
  The two directions are inverse, which the round trips of the file formats rest on.
\<close>

definition le16Bytes :: "u16 \<Rightarrow> byte list" where
  "le16Bytes w = [ucast w, ucast (drop_bit 8 w)]"

definition fromLe16 :: "byte \<Rightarrow> byte \<Rightarrow> u16" where
  "fromLe16 a b = ucast a OR push_bit 8 (ucast b)"

definition le32Bytes :: "u32 \<Rightarrow> byte list" where
  "le32Bytes w = [ucast w, ucast (drop_bit 8 w), ucast (drop_bit 16 w), ucast (drop_bit 24 w)]"

definition fromLe32 :: "byte \<Rightarrow> byte \<Rightarrow> byte \<Rightarrow> byte \<Rightarrow> u32" where
  "fromLe32 a b c d = ucast a OR push_bit 8 (ucast b) OR push_bit 16 (ucast c) OR push_bit 24 (ucast d)"

lemma length_le16Bytes [simp]: "length (le16Bytes w) = 2"
  by (simp add: le16Bytes_def)

lemma length_le32Bytes [simp]: "length (le32Bytes w) = 4"
  by (simp add: le32Bytes_def)

lemma fromLe16_bits:
  "bit (fromLe16 a b) n \<longleftrightarrow> (if n < 8 then bit a n else bit b (n - 8))"
  by (auto simp: fromLe16_def bit_simps dest: bit_imp_le_length)

lemma fromLe32_bits:
  "bit (fromLe32 a b c d) n \<longleftrightarrow>
     (if n < 8 then bit a n else if n < 16 then bit b (n - 8) else if n < 24 then bit c (n - 16) else bit d (n - 24))"
  by (auto simp: fromLe32_def bit_simps dest: bit_imp_le_length)

lemma fromLe16_read [simp]: "fromLe16 (ucast w) (ucast (drop_bit 8 w)) = w"
  by (rule bit_word_eqI) (auto simp: fromLe16_bits bit_simps)

lemma fromLe32_read [simp]:
  "fromLe32 (ucast w) (ucast (drop_bit 8 w)) (ucast (drop_bit 16 w)) (ucast (drop_bit 24 w)) = w"
  by (rule bit_word_eqI) (auto simp: fromLe32_bits bit_simps)

lemma le16Bytes_fromLe16: "le16Bytes (fromLe16 a b) = [a, b]"
proof -
  have "ucast (fromLe16 a b) = a" by (rule bit_word_eqI) (simp add: bit_simps fromLe16_bits)
  moreover have "ucast (drop_bit 8 (fromLe16 a b)) = b" by (rule bit_word_eqI) (simp add: bit_simps fromLe16_bits)
  ultimately show ?thesis by (simp add: le16Bytes_def)
qed

lemma le32Bytes_fromLe32: "le32Bytes (fromLe32 a b c d) = [a, b, c, d]"
proof -
  have "ucast (fromLe32 a b c d) = a" by (rule bit_word_eqI) (simp add: bit_simps fromLe32_bits)
  moreover have "ucast (drop_bit 8 (fromLe32 a b c d)) = b" by (rule bit_word_eqI) (simp add: bit_simps fromLe32_bits)
  moreover have "ucast (drop_bit 16 (fromLe32 a b c d)) = c" by (rule bit_word_eqI) (simp add: bit_simps fromLe32_bits)
  moreover have "ucast (drop_bit 24 (fromLe32 a b c d)) = d" by (rule bit_word_eqI) (simp add: bit_simps fromLe32_bits)
  ultimately show ?thesis by (simp add: le32Bytes_def)
qed

end
