(* ===== verification/Waveform_Parse.thy ===== *)
theory Waveform_Parse
  imports Byte_Order
begin

text \<open>
  \<open>src/src/waveform_parse.h\<close>: the text and binary formats of uploaded waveforms. A line is the list of its
  characters; the parser's destination arrays are functions from the index. The conversion of a
  number, \<open>strtof\<close> followed by the clamp and the scaling to Q15, is floating point and a parameter:
  \<open>conv s\<close> is how many characters of \<open>s\<close> were consumed and the sample, \<open>None\<close> for a value that is not a
  number or beyond 1000 in size. Error codes are the source's negative integers; samples are the bit
  pattern of \<open>int16_t\<close>.
\<close>

type_synonym conversion = "string \<Rightarrow> nat \<times> u16 option"

definition MaxWaveSamples :: u32 where [const_defs]: "MaxWaveSamples = 2 * 1024 * 1024"
definition MaxStreamSamples :: u32 where [const_defs]: "MaxStreamSamples = 0x20000000"
definition MaxWaveSegments :: u32 where [const_defs]: "MaxWaveSegments = 64"
definition MaxWaveTextLineLength :: nat where [const_defs]: "MaxWaveTextLineLength = 127"

definition WaveTypeNone :: byte where [const_defs]: "WaveTypeNone = 0"
definition WaveTypeReference :: byte where [const_defs]: "WaveTypeReference = 1"
definition WaveTypeSequence :: byte where [const_defs]: "WaveTypeSequence = 2"

definition WaveErrNoType :: int where [const_defs]: "WaveErrNoType = -1"
definition WaveErrBadValue :: int where [const_defs]: "WaveErrBadValue = -2"
definition WaveErrTooMany :: int where [const_defs]: "WaveErrTooMany = -3"
definition WaveErrTooFew :: int where [const_defs]: "WaveErrTooFew = -4"
definition WaveErrBadDuration :: int where [const_defs]: "WaveErrBadDuration = -5"
definition WaveErrBadBinary :: int where [const_defs]: "WaveErrBadBinary = -6"
definition WaveErrLineTooLong :: int where [const_defs]: "WaveErrLineTooLong = -7"

record WaveParser =
  wpType :: byte
  wpCount :: u32
  wpHasSamples :: bool
  wpSamples :: "nat \<Rightarrow> u16"
  wpMaxSamples :: u32
  wpHasSegments :: bool
  segLevelsQ15 :: "nat \<Rightarrow> u16"
  segMicros :: "nat \<Rightarrow> u32"
  wpMaxSegments :: u32

section \<open>Lines\<close>

definition isPad :: "char \<Rightarrow> bool" where
  "isPad c \<longleftrightarrow> c = CHR '' '' \<or> c = CHR 0x09"

definition isBlank :: "char \<Rightarrow> bool" where
  "isBlank c \<longleftrightarrow> isPad c \<or> c = CHR 0x0D"

definition isDigit :: "char \<Rightarrow> bool" where
  "isDigit c \<longleftrightarrow> code_of CHR ''0'' \<le> code_of c \<and> code_of c \<le> code_of CHR ''9''"

text \<open>The comment cut off and the blanks of both ends.\<close>

definition trimLine :: "string \<Rightarrow> string" where
  "trimLine line =
     (let l = dropWhile isBlank (takeWhile (\<lambda>c. c \<noteq> CHR ''#'') line)
      in rev (dropWhile isBlank (rev l)))"

text \<open>A number that fills its field up to trailing padding.\<close>

definition parseLevel :: "conversion \<Rightarrow> string \<Rightarrow> u16 option" where
  "parseLevel conv s =
     (let (n, v) = conv (cstr s) in
      if n = 0 \<or> dropWhile isPad (drop n s) \<noteq> [] then None else v)"

fun parseMicros :: "u32 \<Rightarrow> bool \<Rightarrow> string \<Rightarrow> (u32 \<times> bool \<times> string) option" where
  "parseMicros us haveDigit [] = Some (us, haveDigit, [])"
| "parseMicros us haveDigit (c # cs) =
     (if isDigit c
      then let digit = (of_nat (code_of c - code_of CHR ''0'') :: u32) in
        if us > (- 1 - digit) div 10 then None else parseMicros (us * 10 + digit) True cs
      else Some (us, haveDigit, c # cs))"

definition parseDuration :: "string \<Rightarrow> u32 option" where
  "parseDuration s =
     (let d = dropWhile isPad s in
      if d = [] \<or> hd d = CHR ''-'' then None
      else case parseMicros 0 False d of None \<Rightarrow> None
        | Some (us, haveDigit, r) \<Rightarrow>
            if \<not> haveDigit \<or> dropWhile isPad r \<noteq> [] \<or> us = 0 then None else Some us)"

definition waveParseReference :: "conversion \<Rightarrow> string \<Rightarrow> WaveParser \<Rightarrow> int \<times> WaveParser" where
  "waveParseReference conv bounded p =
     (case parseLevel conv bounded of None \<Rightarrow> (WaveErrBadValue, p)
      | Some v \<Rightarrow> if wpCount p \<ge> wpMaxSamples p then (WaveErrTooMany, p)
          else if \<not> wpHasSamples p then (WaveErrBadValue, p)
          else (0, p\<lparr>wpSamples := (wpSamples p)(unat (wpCount p) := v), wpCount := wpCount p + 1\<rparr>))"

definition waveParseSegment :: "conversion \<Rightarrow> string \<Rightarrow> WaveParser \<Rightarrow> int \<times> WaveParser" where
  "waveParseSegment conv bounded p =
     (if CHR '','' \<notin> set bounded then (WaveErrBadDuration, p)
      else let level = takeWhile (\<lambda>c. c \<noteq> CHR '','') bounded in
        case parseLevel conv level of None \<Rightarrow> (WaveErrBadValue, p)
        | Some v \<Rightarrow> (case parseDuration (drop (length level + 1) bounded) of None \<Rightarrow> (WaveErrBadDuration, p)
          | Some us \<Rightarrow>
              if wpCount p \<ge> wpMaxSegments p then (WaveErrTooMany, p)
              else if \<not> wpHasSegments p then (WaveErrBadValue, p)
              else (0, p\<lparr>segLevelsQ15 := (segLevelsQ15 p)(unat (wpCount p) := v),
                segMicros := (segMicros p)(unat (wpCount p) := us), wpCount := wpCount p + 1\<rparr>)))"

definition waveParseLine :: "conversion \<Rightarrow> string \<Rightarrow> WaveParser \<Rightarrow> int \<times> WaveParser" where
  "waveParseLine conv line p =
     (let bounded = trimLine line in
      if bounded = [] then (0, p)
      else if length bounded > MaxWaveTextLineLength then (WaveErrLineTooLong, p)
      else if wpType p = WaveTypeNone then
        (if bounded = ''type=reference'' then (0, p\<lparr>wpType := WaveTypeReference\<rparr>)
         else if bounded = ''type=sequence'' then (0, p\<lparr>wpType := WaveTypeSequence\<rparr>)
         else (WaveErrNoType, p))
      else if wpType p = WaveTypeReference then waveParseReference conv bounded p
      else waveParseSegment conv bounded p)"

section \<open>Whole texts\<close>

definition waveParseFinish :: "WaveParser \<Rightarrow> int" where
  "waveParseFinish p =
     (if wpType p = WaveTypeNone then WaveErrNoType
      else if wpType p = WaveTypeReference \<and> wpCount p < 2 \<or> wpType p = WaveTypeSequence \<and> wpCount p < 1
        then WaveErrTooFew
      else sint (wpCount p))"

function parseLoop :: "conversion \<Rightarrow> string \<Rightarrow> WaveParser \<Rightarrow> int \<times> WaveParser" where
  "parseLoop conv cursor p =
     (if cursor = [] then (waveParseFinish p, p)
      else let line = takeWhile (\<lambda>c. c \<noteq> CHR 0x0A) cursor; (err, p') = waveParseLine conv line p in
        if err \<noteq> 0 then (err, p') else parseLoop conv (drop (length line + 1) cursor) p')"
  by pat_completeness auto
termination by (relation "measure (\<lambda>(_, cursor, _). length cursor)") auto

definition parseWaveform :: "conversion \<Rightarrow> string \<Rightarrow> WaveParser \<Rightarrow> int \<times> WaveParser" where
  "parseWaveform conv txt p = parseLoop conv (cstr txt) (p\<lparr>wpType := WaveTypeNone, wpCount := 0\<rparr>)"

section \<open>The binary header\<close>

definition WaveBinaryHeaderSize :: nat where [const_defs]: "WaveBinaryHeaderSize = 12"

definition waveBinaryHeaderWrite :: "byte \<Rightarrow> u32 \<Rightarrow> byte list" where
  "waveBinaryHeaderWrite type count = [0x54, 0x45, 0x47, 0x57, 1, type, 0, 0] @ le32Bytes count"

text \<open>The count or the error code, and what the type variable of the caller then holds.\<close>

definition waveBinaryHeaderRead :: "byte list \<Rightarrow> byte \<Rightarrow> int \<times> byte" where
  "waveBinaryHeaderRead bs outType =
     (if take 5 bs \<noteq> [0x54, 0x45, 0x47, 0x57, 1] then (WaveErrBadBinary, outType)
      else let type = bs ! 5; count = fromLe32 (bs ! 8) (bs ! 9) (bs ! 10) (bs ! 11) in
        if type = WaveTypeReference then
          (if count < 2 \<or> count > MaxStreamSamples then (WaveErrBadBinary, outType) else (sint count, type))
        else if type = WaveTypeSequence then
          (if count < 1 \<or> count > MaxWaveSegments then (WaveErrBadBinary, outType) else (sint count, type))
        else (WaveErrBadBinary, outType))"

section \<open>Durations are exact\<close>

definition digitValue :: "char \<Rightarrow> nat" where
  "digitValue c = code_of c - 48"

primrec decValue :: "nat \<Rightarrow> string \<Rightarrow> nat" where
  "decValue n [] = n"
| "decValue n (c # cs) = decValue (10 * n + digitValue c) cs"

lemma decValue_mono: "n \<le> decValue n s"
proof (induction s arbitrary: n)
  case (Cons c s)
  have "n \<le> 10 * n + digitValue c" by simp
  also have "\<dots> \<le> decValue (10 * n + digitValue c) s" by (rule Cons)
  finally show ?case by simp
qed simp

lemma digitValue_less: "isDigit c \<Longrightarrow> digitValue c < 10"
  by (auto simp: isDigit_def digitValue_def)

text \<open>The overflow test in front of the multiplication refuses exactly the values beyond 32 bits.\<close>

lemma overflow_test:
  assumes "d < 10"
  shows "us > (- 1 - of_nat d) div (10 :: u32) \<longleftrightarrow> 2 ^ 32 \<le> 10 * unat us + d"
    and "10 * unat us + d < 2 ^ 32 \<Longrightarrow> unat (us * 10 + of_nat d) = 10 * unat us + d"
proof -
  have d: "unat (of_nat d :: u32) = d" unfolding unat_of_nat using assms by (intro mod_less) simp
  have m: "unat (- 1 :: u32) = 4294967295" by (simp add: unsigned_minus_1_eq_mask mask_eq_exp_minus_1)
  have "unat (- 1 - of_nat d :: u32) = 4294967295 - d" using assms by (subst unat_sub_no_wrap) (simp_all add: d m)
  then have "unat ((- 1 - of_nat d) div 10 :: u32) = (4294967295 - d) div 10" by (simp add: unat_div_distrib)
  then have "us > (- 1 - of_nat d) div 10 \<longleftrightarrow> (4294967295 - d) div 10 < unat us" by (simp add: word_less_nat_alt)
  also have "\<dots> \<longleftrightarrow> 4294967295 - d < unat us * 10" by (rule div_less_iff_less_mult) simp
  also have "\<dots> \<longleftrightarrow> 2 ^ 32 \<le> 10 * unat us + d" using assms by auto
  finally show "us > (- 1 - of_nat d) div 10 \<longleftrightarrow> 2 ^ 32 \<le> 10 * unat us + d" .
  assume b: "10 * unat us + d < 2 ^ 32"
  then have "unat (us * 10) = unat us * 10" by (subst unat_mult_no_wrap) simp_all
  then show "unat (us * 10 + of_nat d) = 10 * unat us + d" using b by (subst unat_add_no_wrap) (simp_all add: d)
qed

lemma parseMicros_digits:
  assumes "list_all isDigit ds" "r = [] \<or> \<not> isDigit (hd r)"
  shows "parseMicros us h (ds @ r) =
    (if decValue (unat us) ds < 2 ^ 32 then Some (of_nat (decValue (unat us) ds), h \<or> ds \<noteq> [], r) else None)"
  using assms(1)
proof (induction ds arbitrary: us h)
  case Nil
  have "unat us < 2 ^ 32" by simp
  then show ?case using assms(2) by (cases r) auto
next
  case (Cons c ds)
  have d: "digitValue c < 10" "isDigit c" using Cons.prems digitValue_less by simp_all
  have dv: "code_of c - code_of CHR ''0'' = digitValue c" by (simp add: digitValue_def)
  show ?case
  proof (cases "2 ^ 32 \<le> 10 * unat us + digitValue c")
    case True
    then have "\<not> decValue (unat us) (c # ds) < 2 ^ 32"
      using decValue_mono [of "10 * unat us + digitValue c" ds] by simp
    then show ?thesis using overflow_test(1) [OF d(1), of us] True d(2) dv by simp
  next
    case False
    have "parseMicros us h ((c # ds) @ r) = parseMicros (us * 10 + of_nat (digitValue c)) True (ds @ r)"
      using overflow_test(1) [OF d(1), of us] False d(2) dv by simp
    also have "\<dots> = (if decValue (unat us) (c # ds) < 2 ^ 32
        then Some (of_nat (decValue (unat us) (c # ds)), True, r) else None)"
      using Cons.IH [of "us * 10 + of_nat (digitValue c)" True] Cons.prems overflow_test(2) [OF d(1), of us] False by simp
    finally show ?thesis by simp
  qed
qed

section \<open>The header reads back\<close>

lemma sint_small:
  assumes "unat c < 2 ^ 31"
  shows "sint (c :: u32) = int (unat c)"
proof -
  have "int (unat c) < int (2 ^ 31)" using assms by (simp only: of_nat_less_iff)
  then have u: "uint c < 2 ^ 31" unfolding uint_nat by simp
  have n: "- (2 ^ 31) \<le> uint c" by (rule order_trans [OF _ uint_ge_0]) simp
  have "LENGTH(32) - Suc 0 = 31" by simp
  then show ?thesis unfolding sint_uint using signed_take_bit_int_eq_self [OF n u] by (simp only: uint_nat)
qed

text \<open>The counts a header may declare.\<close>

definition countOk :: "byte \<Rightarrow> u32 \<Rightarrow> bool" where
  "countOk type count \<longleftrightarrow> type = WaveTypeReference \<and> 2 \<le> unat count \<and> unat count \<le> 2 ^ 29
     \<or> type = WaveTypeSequence \<and> 1 \<le> unat count \<and> unat count \<le> 64"

lemma header_read:
  "waveBinaryHeaderRead bs outType =
     (let type = bs ! 5; count = fromLe32 (bs ! 8) (bs ! 9) (bs ! 10) (bs ! 11) in
      if take 5 bs = [0x54, 0x45, 0x47, 0x57, 1] \<and> countOk type count then (int (unat count), type)
      else (WaveErrBadBinary, outType))"
proof -
  define count where "count = fromLe32 (bs ! 8) (bs ! 9) (bs ! 10) (bs ! 11)"
  have t: "WaveTypeReference \<noteq> WaveTypeSequence" by (simp add: const_defs)
  have r: "count < 2 \<or> count > MaxStreamSamples \<longleftrightarrow> \<not> countOk WaveTypeReference count"
    using t by (auto simp: countOk_def MaxStreamSamples_def word_less_nat_alt not_less)
  have s: "count < 1 \<or> count > MaxWaveSegments \<longleftrightarrow> \<not> countOk WaveTypeSequence count"
    using t by (auto simp: countOk_def MaxWaveSegments_def word_less_nat_alt not_less Suc_le_eq)
  have c: "countOk type count \<Longrightarrow> sint count = int (unat count)" for type
    by (rule sint_small) (auto simp: countOk_def)
  have o: "type \<noteq> WaveTypeReference \<Longrightarrow> type \<noteq> WaveTypeSequence \<Longrightarrow> \<not> countOk type count" for type
    by (simp add: countOk_def)
  show ?thesis
    unfolding waveBinaryHeaderRead_def Let_def count_def [symmetric] r s
    using c o by auto
qed

lemma header_round_trip:
  assumes "countOk type count"
  shows "waveBinaryHeaderRead (waveBinaryHeaderWrite type count @ rest) outType = (int (unat count), type)"
  using assms by (simp add: header_read waveBinaryHeaderWrite_def le32Bytes_def)

end
