(* ===== verification/Pwm_Setup.thy ===== *)
theory Pwm_Setup
  imports Modulation Config_Types Waveform_Parse
begin

text \<open>
  \<open>src/src/pwm_utils.cpp\<close>: what programming the outputs does. The first part is the set-up of a
  submodule, as the sequence of calls and register writes it makes (\<open>SmEvent\<close>) under everything the
  hardware may answer (\<open>SmRegs\<close>); the second the scheme gate of \<open>configureModule2\<close>, which decides the
  cells that are held off and those that run inverted; the third the modulator's state with
  \<open>buildSpwmLut\<close>, the index limits and the carrier interrupt \<open>IsrOverflowSm20\<close>. The interrupt returns the
  duties it writes, as pairs of a cell and a duty. The reference tables of the built-in shapes, the
  prescaler in use and the CPU clock are arguments; log lines and telemetry are left out.
\<close>

section \<open>One submodule\<close>

record SubmoduleSettings =
  ssFrequency :: u32
  ssDeadtimeNs :: u32
  ssDutyA :: u16
  ssDutyB :: u16
  ssHasChanB :: bool
  ssPairMode :: byte
  ssPairRequested :: byte

text \<open>The bits of the hardware that decide a branch, and whether the library's calls succeed.\<close>

record SmRegs =
  compModeSet :: bool
  indepSet :: bool
  frequencyOk :: bool
  beginOk :: bool
  updateOk :: bool

datatype SmEvent = LdokOff | FullCycleReload | Deadtime u32 | DutyA u16 | DutyB u16 | Frequency u32
  | Begin | OutputEnableShadow bool | UpdateSetting | CopyDtcnt1 | SetIndep bool

definition smComplementary :: "SmRegs \<Rightarrow> SubmoduleSettings \<Rightarrow> bool" where
  "smComplementary r s \<longleftrightarrow> pairIsComplementary (ssPairMode s) \<and> \<not> compModeSet r"

definition pairDenied :: "SmRegs \<Rightarrow> SubmoduleSettings \<Rightarrow> bool" where
  "pairDenied r s \<longleftrightarrow> pairIsComplementary (ssPairRequested s) \<and> \<not> smComplementary r s"

definition setupSubmodule :: "SmRegs \<Rightarrow> SubmoduleSettings \<Rightarrow> SmEvent list \<times> bool" where
  "setupSubmodule r s =
     (let complementary = smComplementary r s;
          dutyA = (if pairDenied r s then 0 else ssDutyA s);
          dutyB = (if pairDenied r s then 0 else ssDutyB s);
          e1 = [LdokOff, FullCycleReload, Deadtime (pairDeadTimeNs (ssPairMode s) (ssDeadtimeNs s)), DutyA dutyA]
               @ (if ssHasChanB s \<and> dutyB \<noteq> 65535 then [DutyB dutyB] else []);
          e2 = e1 @ [Frequency (ssFrequency s)]
      in if \<not> frequencyOk r then (e2, False)
      else let e3 = e2 @ [Begin] in
        if \<not> beginOk r then (e3, False)
        else let e4 = e3 @ [OutputEnableShadow False, UpdateSetting] in
          if \<not> updateOk r then (e4, False)
          else (e4 @ [OutputEnableShadow True]
                @ (if complementary then [CopyDtcnt1] else [])
                @ (if indepSet r = complementary then [SetIndep (\<not> complementary)] else []), True))"

section \<open>Waiting for a load\<close>

definition ldokTimeoutUs :: "u32 \<Rightarrow> u32" where
  "ldokTimeoutUs slowestFrequency =
     (let periodUs = (if slowestFrequency = 0 then 100000
                      else (1000000 + slowestFrequency - 1) div slowestFrequency)
      in if periodUs > 120000 then 250000 else periodUs * 2 + 2000)"

text \<open>The loop over what it reads: whether LDOK is still set, and the clock. \<open>None\<close>: still waiting.\<close>

fun waitForLdok :: "u32 \<Rightarrow> u32 \<Rightarrow> (bool \<times> u32) list \<Rightarrow> bool option" where
  "waitForLdok timeoutUs startUs [] = None"
| "waitForLdok timeoutUs startUs ((busy, now) # obs) =
     (if \<not> busy then Some True
      else if now - startUs > timeoutUs then Some False
      else waitForLdok timeoutUs startUs obs)"

section \<open>The scheme gate\<close>

definition spwmActive :: "Module2Config \<Rightarrow> bool" where
  "spwmActive t \<longleftrightarrow> UseSpwm t \<and> ModulationScheme t \<noteq> ModSchemeFixed"

definition effectiveModulationCells :: "Module2Config \<Rightarrow> byte" where
  "effectiveModulationCells t =
     (let c = ModulationCells t;
          c = (if c < 1 then 1 else c);
          c = (if c > 4 then 4 else c);
          c = (if ModulationScheme t = ModSchemeSvpwm \<or> ModulationScheme t = ModSchemeDpwm then 3 else c)
      in if ModulationScheme t = ModSchemeSvpwm3D then 4 else c)"

definition needsInversion :: "Module2Config \<Rightarrow> bool" where
  "needsInversion t \<longleftrightarrow> UseSpwm t
     \<and> schemeRequiresPolarityInversion (ModulationScheme t) (CarrierDisposition t) (effectiveModulationCells t)"

text \<open>The four modulation cells are, in this order, the submodules 20, 22, 21 and 23.\<close>

definition cellSubmodules :: "Module2Config \<Rightarrow> SubmoduleConfig list" where
  "cellSubmodules t = [Sm20 t, Sm22 t, Sm21 t, Sm23 t]"

definition cellSmIndex :: "byte list" where
  "cellSmIndex = [PairSm20, PairSm22, PairSm21, PairSm23]"

definition cellPairMode :: "Module2Config \<Rightarrow> nat \<Rightarrow> byte" where
  "cellPairMode t k =
     pairModeSanitisedForScheme (Pair (cellSubmodules t ! k)) (cellSmIndex ! k) (needsInversion t)"

definition cellDenied :: "Module2Config \<Rightarrow> nat \<Rightarrow> bool" where
  "cellDenied t k \<longleftrightarrow>
     pairIsComplementary (Pair (cellSubmodules t ! k)) \<and> \<not> pairIsComplementary (cellPairMode t k)"

definition deniedMask :: "Module2Config \<Rightarrow> byte" where
  "deniedMask t = foldl (\<lambda>m k. if cellDenied t k then m OR push_bit k 1 else m) 0 [0..<4]"

definition cellPlans :: "Module2Config \<Rightarrow> CellPlan list" where
  "cellPlans t = map (\<lambda>k. modulationCellPlan (ModulationScheme t) (CarrierDisposition t) (of_nat k)
                            (effectiveModulationCells t)) [0..<4]"

definition cellInverted :: "Module2Config \<Rightarrow> nat \<Rightarrow> bool" where
  "cellInverted t k \<longleftrightarrow> \<not> bit (deniedMask t) k \<and> spwmActive t \<and> k < unat (effectiveModulationCells t)
     \<and> polarityInverted (cellPlans t ! k)"

definition invertedMask :: "Module2Config \<Rightarrow> byte" where
  "invertedMask t = foldl (\<lambda>m k. if cellInverted t k then m OR push_bit k 1 else m) 0 [0..<4]"

text \<open>The level and the fault state staged for a cell: low-true, and logic 1 during a fault.\<close>

definition cellLevels :: "Module2Config \<Rightarrow> nat \<Rightarrow> bool \<times> bool" where
  "cellLevels t k = (cellInverted t k, cellInverted t k)"

definition cellHasChanB :: "nat \<Rightarrow> bool" where
  "cellHasChanB k \<longleftrightarrow> k \<noteq> 2"

definition cellSettings :: "Module2Config \<Rightarrow> nat \<Rightarrow> SubmoduleSettings" where
  "cellSettings t k = (let s = cellSubmodules t ! k in
     \<lparr>ssFrequency = PwmFrequency s, ssDeadtimeNs = ucast (DeadTime s), ssDutyA = DutyCycle (ChannelA s),
      ssDutyB = (if cellHasChanB k then DutyCycle (ChannelB s) else 65535), ssHasChanB = cellHasChanB k,
      ssPairMode = cellPairMode t k, ssPairRequested = Pair s\<rparr>)"

text \<open>The submodules are set up in the order 20, 21, 22, 23, all of them even when one fails; the load
  is committed only when all succeeded.\<close>

definition configureModule2 :: "(nat \<Rightarrow> SmRegs) \<Rightarrow> bool \<Rightarrow> Module2Config \<Rightarrow> (nat \<times> SmEvent list) list \<times> bool" where
  "configureModule2 regs ldokOk t =
     (let rs = map (\<lambda>k. (k, setupSubmodule (regs k) (cellSettings t k))) [0, 2, 1, 3]
      in (map (\<lambda>(k, es, ok). (k, es)) rs, list_all (\<lambda>(k, es, ok). ok) rs \<and> ldokOk))"

section \<open>The modulator\<close>

record Modulator =
  spwmLut :: "int list"
  vPhase :: u32
  vPhaseIncrement :: u32
  vIndexQ15 :: u32
  vIndexTargetQ15 :: u32
  vIndexAccumQ24 :: u64
  vIndexStepQ24 :: u64
  vDtCompQ15 :: int
  vThermalDerateMilli :: u16
  vDeniedCellMask :: byte
  cellPlan :: "CellPlan list"
  vModScheme :: byte
  vModCells :: byte
  vDpwmVariant :: byte
  vDpwmClampPhase :: u32
  vNearestLevel :: bool
  vDitherMode :: byte
  ditherPeriods :: "u16 list"
  ditherIncrements :: "u32 list"
  lfsr :: u16
  sweep :: u32
  seqLevels :: "int list"
  seqCycles :: "u32 list"
  vSeqCount :: byte
  vRefSequence :: bool
  seqIndex :: byte
  seqRemaining :: u32
  vSampleStep :: bool
  vWaveSamples :: "int list"
  vWaveCount :: u32
  waveIndex :: u32
  vStreamPlayback :: bool
  vIsrGapExpected :: u32
  vIsrGapLimit :: u32
  isrLastEntry :: u32
  vIsrGapPrimed :: bool
  vMissedIsrCycles :: u32

text \<open>The uploaded waveform (\<open>waveform.cpp\<close>) as the modulator sees it.\<close>

record WaveStore =
  wsType :: byte
  wsStreaming :: bool
  wsSamples :: "int list"
  wsCount :: u32
  wsLevels :: "int list"
  wsMicros :: "u32 list"

definition RefWaveCustom :: byte where [const_defs]: "RefWaveCustom = 3"
definition RefWaveSequence :: byte where [const_defs]: "RefWaveSequence = 4"
definition RefWaveSine :: byte where [const_defs]: "RefWaveSine = 0"

definition microsToCycles :: "u32 \<Rightarrow> u32 \<Rightarrow> u32" where
  "microsToCycles micros carrierHz =
     (let cycles = (ucast micros * ucast carrierHz + 500000) div 1000000 :: u64
      in if cycles = 0 then 1 else if cycles > 0xFFFFFFFF then 0xFFFFFFFF else ucast cycles)"

definition resampleReference :: "int list \<Rightarrow> u32 \<Rightarrow> u32 \<Rightarrow> int list" where
  "resampleReference points n lutSize =
     map (\<lambda>i. let scaled = push_bit 16 (of_nat i * ucast n) div ucast lutSize :: u64;
                  idx = ucast (drop_bit 16 scaled) :: u32; frac = uint (scaled AND 0xFFFF);
                  a = points ! unat (idx mod n); b = points ! unat ((idx + 1) mod n)
              in a + drop_bit 16 ((b - a) * frac))
       [0..<unat lutSize]"

section \<open>Index limits\<close>

definition indexCapQ15 :: "u16 \<Rightarrow> u32" where
  "indexCapQ15 derateMilli = indexMilliToQ15 MaxModulationIndexMilli * ucast derateMilli div 1000"

definition setModulationIndexTargetQ15 :: "u32 \<Rightarrow> Modulator \<Rightarrow> Modulator" where
  "setModulationIndexTargetQ15 target m =
     (let capQ15 = indexCapQ15 (vThermalDerateMilli m)
      in m\<lparr>vIndexTargetQ15 := (if target > capQ15 then capQ15 else target)\<rparr>)"

definition setThermalDerateMilli :: "u16 \<Rightarrow> Modulator \<Rightarrow> Modulator" where
  "setThermalDerateMilli derateMilli m =
     (let m = m\<lparr>vThermalDerateMilli := (if derateMilli > 1000 then 1000 else derateMilli)\<rparr>;
          capQ15 = indexCapQ15 (vThermalDerateMilli m)
      in if vIndexTargetQ15 m > capQ15 then m\<lparr>vIndexTargetQ15 := capQ15\<rparr> else m)"

section \<open>Building the reference\<close>

text \<open>\<open>unitLut w third\<close> is the table of a built-in shape.\<close>

definition chooseReference :: "(byte \<Rightarrow> bool \<Rightarrow> int list) \<Rightarrow> WaveStore \<Rightarrow> Module2Config \<Rightarrow> Modulator \<Rightarrow> Modulator" where
  "chooseReference unitLut w t m =
     (let m = m\<lparr>vRefSequence := False, vSampleStep := False, vStreamPlayback := False\<rparr>;
          sine = unitLut RefWaveSine False
      in if ModulationScheme t = ModSchemeThipwm then m\<lparr>spwmLut := unitLut RefWaveSine True\<rparr>
      else if ReferenceWaveform t = RefWaveCustom
      then if wsType w = WaveTypeReference \<and> wsStreaming w then m\<lparr>vStreamPlayback := True, spwmLut := sine\<rparr>
           else if wsType w = WaveTypeReference
           then if WaveformSampleStep t
                then m\<lparr>vWaveSamples := wsSamples w, vWaveCount := wsCount w, waveIndex := 0,
                       vSampleStep := True, spwmLut := sine\<rparr>
                else m\<lparr>spwmLut := resampleReference (wsSamples w) (wsCount w) SpwmLutSize\<rparr>
           else m\<lparr>spwmLut := sine\<rparr>
      else if ReferenceWaveform t = RefWaveSequence
      then let n = length (wsLevels w) in
        if 0 < n
        then let cycles = map (\<lambda>us. microsToCycles us (SpwmCarrierFrequency t)) (wsMicros w)
             in m\<lparr>spwmLut := sine, seqLevels := wsLevels w, seqCycles := cycles, vSeqCount := of_nat n,
                  seqIndex := 0, seqRemaining := cycles ! 0, vRefSequence := True\<rparr>
        else m\<lparr>spwmLut := sine\<rparr>
      else m\<lparr>spwmLut := unitLut (ReferenceWaveform t) False\<rparr>)"

definition gapBaseline :: "u32 \<Rightarrow> u32 \<Rightarrow> Modulator \<Rightarrow> Modulator" where
  "gapBaseline cpuHz carrier m =
     (let expected = (if carrier \<noteq> 0 then cpuHz div carrier else 0)
      in m\<lparr>vIsrGapExpected := expected, vIsrGapLimit := expected + drop_bit 1 expected, vIsrGapPrimed := False\<rparr>)"

definition buildSpwmLut :: "(byte \<Rightarrow> bool \<Rightarrow> int list) \<Rightarrow> u32 \<Rightarrow> bool \<Rightarrow> WaveStore \<Rightarrow> Module2Config \<Rightarrow> Modulator \<Rightarrow> Modulator" where
  "buildSpwmLut unitLut cpuHz pllLocked w t m =
     (let carrier = SpwmCarrierFrequency t;
          indexMilli = (if ModulationIndexMilli t > MaxModulationIndexMilli then MaxModulationIndexMilli
                        else ModulationIndexMilli t);
          m = chooseReference unitLut w t m;
          m = m\<lparr>vDpwmVariant := DpwmVariant t, vDpwmClampPhase := degreesToPhase (sint (DpwmClampAngleDeg t)),
                vNearestLevel := NearestLevelModulation t, cellPlan := cellPlans t,
                vModScheme := ModulationScheme t, vModCells := effectiveModulationCells t,
                vPhaseIncrement := spwmPhaseIncrement carrier (SpwmModulationFrequency t)\<rparr>;
          m = (gapBaseline cpuHz carrier m)\<lparr>vMissedIsrCycles := 0\<rparr>;
          m = (if \<not> pllLocked then m\<lparr>vPhase := 0\<rparr> else m);
          targetQ15 = indexMilliToQ15 indexMilli;
          m = setModulationIndexTargetQ15 targetQ15
                (m\<lparr>vIndexStepQ24 := softStartStepQ24 targetQ15 (SoftStartMs t) carrier\<rparr>)
      in m\<lparr>vDtCompQ15 := (if DeadTimeCompensation t then deadtimeCompQ15 (DeadTime (Sm20 t)) carrier else 0)\<rparr>)"

definition buildDitherState :: "u32 \<Rightarrow> Module2Config \<Rightarrow> Modulator \<Rightarrow> Modulator" where
  "buildDitherState effectiveClockHz t m =
     (if \<not> spwmActive t \<or> CarrierDitherMode t = DitherOff \<or> CarrierDitherPercent t = 0
      then m\<lparr>vDitherMode := DitherOff\<rparr>
      else let (periods, increments) = buildDitherTables effectiveClockHz (SpwmCarrierFrequency t)
                                         (SpwmModulationFrequency t) (CarrierDitherPercent t)
           in m\<lparr>ditherPeriods := periods, ditherIncrements := increments, vDitherMode := CarrierDitherMode t\<rparr>)"

text \<open>What \<open>configureModule2\<close> does to the modulator; \<open>ok\<close> is its verdict on the submodules.\<close>

definition configureModulator :: "(byte \<Rightarrow> bool \<Rightarrow> int list) \<Rightarrow> u32 \<Rightarrow> u32 \<Rightarrow> bool \<Rightarrow> bool \<Rightarrow> WaveStore \<Rightarrow>
    Module2Config \<Rightarrow> Modulator \<Rightarrow> Modulator" where
  "configureModulator unitLut cpuHz effectiveClockHz pllLocked ok w t m =
     (let m = (if spwmActive t then buildSpwmLut unitLut cpuHz pllLocked w t m else m);
          m = m\<lparr>vDeniedCellMask := deniedMask t\<rparr>;
          m = gapBaseline cpuHz (SpwmCarrierFrequency t) m
      in if ok then buildDitherState effectiveClockHz t m else m\<lparr>vDitherMode := DitherOff\<rparr>)"

section \<open>The carrier interrupt\<close>

definition countMissed :: "u32 \<Rightarrow> Modulator \<Rightarrow> Modulator" where
  "countMissed t0 m =
     (let gap = t0 - isrLastEntry m;
          m = (if vIsrGapPrimed m \<and> gap > vIsrGapLimit m
               then m\<lparr>vMissedIsrCycles := vMissedIsrCycles m + (gap div vIsrGapExpected m - 1)\<rparr> else m)
      in m\<lparr>isrLastEntry := t0, vIsrGapPrimed := (vIsrGapLimit m \<noteq> 0)\<rparr>)"

definition rampIndex :: "Modulator \<Rightarrow> Modulator" where
  "rampIndex m =
     (let accum = rampIndexQ24 (vIndexAccumQ24 m) (vIndexTargetQ15 m) (vIndexStepQ24 m)
      in m\<lparr>vIndexAccumQ24 := accum, vIndexQ15 := ucast (drop_bit SoftStartFractionBits accum)\<rparr>)"

definition advancePhase :: "Modulator \<Rightarrow> Modulator" where
  "advancePhase m =
     (if vDitherMode m = DitherOff then m\<lparr>vPhase := vPhase m + vPhaseIncrement m\<rparr>
      else if vDitherMode m = DitherRandom
      then let x = nextLfsr16 (lfsr m)
           in m\<lparr>lfsr := x, vPhase := vPhase m + ditherIncrements m ! unat (ucast x AND (DitherTableSize - 1))\<rparr>
      else m\<lparr>sweep := sweep m + 1,
             vPhase := vPhase m + ditherIncrements m ! unat (triangleIndex (sweep m) DitherTableSize)\<rparr>)"

definition seqStep :: "int list \<Rightarrow> u32 list \<Rightarrow> byte \<Rightarrow> byte \<times> u32 \<Rightarrow> int \<times> byte \<times> u32" where
  "seqStep levels cycles count = (\<lambda>(i, r).
     let (i, r) = (if r = 0
                   then let i = (if uint i + 1 \<ge> uint count then 0 else i + 1) in (i, cycles ! unat i)
                   else (i, r))
     in (levels ! unat i, i, r - 1))"

text \<open>The sample of a stepped reference; \<open>streamSample\<close> is what \<open>waveformStreamNext\<close> returns.\<close>

definition steppedSample :: "int \<Rightarrow> Modulator \<Rightarrow> int \<times> Modulator" where
  "steppedSample streamSample m =
     (if vRefSequence m
      then let (s, i, r) = seqStep (seqLevels m) (seqCycles m) (vSeqCount m) (seqIndex m, seqRemaining m)
           in (s, m\<lparr>seqIndex := i, seqRemaining := r\<rparr>)
      else if vSampleStep m
      then let s = vWaveSamples m ! unat (waveIndex m); j = waveIndex m + 1
           in (s, m\<lparr>waveIndex := (if j \<ge> vWaveCount m then 0 else j)\<rparr>)
      else (streamSample, m))"

definition cycleConfig :: "Modulator \<Rightarrow> ModCycleConfig" where
  "cycleConfig m = \<lparr>mcScheme = vModScheme m, mcCells = vModCells m, mcDpwmVariant = vDpwmVariant m,
     mcDpwmClampPhase = vDpwmClampPhase m, mcNearestLevel = vNearestLevel m, mcDtCompQ15 = vDtCompQ15 m\<rparr>"

definition steppedDuty :: "int \<Rightarrow> Modulator \<Rightarrow> nat \<Rightarrow> u16" where
  "steppedDuty s m k =
     (let ref = refToDuty s (vIndexQ15 m) (if vModScheme m = ModSchemeLevelShifted then 0 else vDtCompQ15 m)
      in modulationFinalDuty (modulationCellDuty (vModScheme m) ref (of_nat k) (vModCells m) (vNearestLevel m))
           (cellPlan m ! k))"

definition IsrOverflowSm20 :: "bool \<Rightarrow> u32 \<Rightarrow> int \<Rightarrow> Modulator \<Rightarrow> Modulator \<times> (nat \<times> u16) list" where
  "IsrOverflowSm20 active t0 streamSample m =
     (let m = countMissed t0 m in
      if \<not> active then (m, [])
      else
        let phase = vPhase m; m = advancePhase (rampIndex m)
        in if \<not> (vRefSequence m \<or> vSampleStep m \<or> vStreamPlayback m)
        then let duties = modulationCycleDuties (spwmLut m) phase (vIndexQ15 m) (cycleConfig m) (cellPlan m)
             in (m, map (\<lambda>k. (k, duties ! k)) (filter (\<lambda>k. \<not> bit (vDeniedCellMask m) k)
                      [0..<unat (modulationCellCount (vModScheme m) (vModCells m))]))
        else let (s, m) = steppedSample streamSample m
             in (m, map (\<lambda>k. (k, steppedDuty s m k)) (filter (\<lambda>k. \<not> bit (vDeniedCellMask m) k)
                      [0..<unat (vModCells m)])))"

section \<open>Masks and legs\<close>

lemma bit_mask_fold:
  "bit (foldl (\<lambda>m k. if P k then m OR push_bit k 1 else m) (m :: byte) ks) k
   \<longleftrightarrow> bit m k \<or> k \<in> set ks \<and> P k \<and> k < 8"
proof (induction ks arbitrary: m)
  case (Cons j ks)
  have "bit (push_bit j 1 :: byte) k \<longleftrightarrow> k = j \<and> k < 8" by (auto simp: bit_simps)
  then show ?case by (auto simp: Cons.IH bit_or_iff)
qed simp

lemma bit_mask_of:
  "bit (foldl (\<lambda>m k. if P k then m OR push_bit k 1 else m) (0 :: byte) [0..<4]) k \<longleftrightarrow> k < 4 \<and> P k"
  unfolding bit_mask_fold by auto

lemma bit_deniedMask: "bit (deniedMask t) k \<longleftrightarrow> k < 4 \<and> cellDenied t k"
  unfolding deniedMask_def by (rule bit_mask_of)

lemma bit_invertedMask: "bit (invertedMask t) k \<longleftrightarrow> k < 4 \<and> cellInverted t k"
  unfolding invertedMask_def by (rule bit_mask_of)

lemma inverted_needs_inversion:
  assumes "k < 4" "cellInverted t k" shows "needsInversion t"
proof -
  have k: "k < unat (effectiveModulationCells t)" and p: "polarityInverted (cellPlans t ! k)" and a: "spwmActive t"
    using assms(2) by (simp_all add: cellInverted_def)
  have "polarityInverted (modulationCellPlan (ModulationScheme t) (CarrierDisposition t) (of_nat k)
      (effectiveModulationCells t))"
    using p assms(1) by (simp add: cellPlans_def)
  then have "schemeRequiresPolarityInversion (ModulationScheme t) (CarrierDisposition t) (effectiveModulationCells t)"
    unfolding schemeRequiresPolarityInversion_def list_ex_iff using k by (intro bexI [of _ k]) auto
  then show ?thesis using a by (simp add: needsInversion_def spwmActive_def)
qed

lemma pair_never_inverted:
  assumes "k < 4" "pairIsComplementary (cellPairMode t k)" shows "\<not> cellInverted t k"
  using assms inverted_needs_inversion [OF assms(1), of t]
  by (auto simp: cellPairMode_def pair_mode_defs const_defs split: if_splits)

text \<open>The events of a set-up, by kind.\<close>

lemma setup_duties:
  assumes "pairDenied r s"
  shows "DutyA d \<in> set (fst (setupSubmodule r s)) \<Longrightarrow> d = 0" "DutyB d \<in> set (fst (setupSubmodule r s)) \<Longrightarrow> d = 0"
  using assms by (auto simp: setupSubmodule_def Let_def split: if_splits)

lemma setup_stays_independent:
  "\<not> smComplementary r s \<Longrightarrow> SetIndep False \<notin> set (fst (setupSubmodule r s))"
  by (auto simp: setupSubmodule_def Let_def)

lemma setup_indep_last:
  assumes "SetIndep False \<in> set (fst (setupSubmodule r s))"
  shows "\<exists>before. fst (setupSubmodule r s) = before @ [SetIndep False] \<and> SetIndep False \<notin> set before
    \<and> {Deadtime (pairDeadTimeNs (ssPairMode s) (ssDeadtimeNs s)), UpdateSetting, CopyDtcnt1} \<subseteq> set before"
  using assms by (auto simp: setupSubmodule_def Let_def split: if_splits)

primrec isrRun :: "(bool \<times> u32 \<times> int) list \<Rightarrow> Modulator \<Rightarrow> (nat \<times> u16) list" where
  "isrRun [] m = []"
| "isrRun (i # ins) m = (case i of (active, t0, x) \<Rightarrow>
     case IsrOverflowSm20 active t0 x m of (m', writes) \<Rightarrow> writes @ isrRun ins m')"

lemma denied_frame [simp]:
  "vDeniedCellMask (countMissed t0 m) = vDeniedCellMask m"
  "vDeniedCellMask (rampIndex m) = vDeniedCellMask m"
  "vDeniedCellMask (advancePhase m) = vDeniedCellMask m"
  "vDeniedCellMask (snd (steppedSample x m)) = vDeniedCellMask m"
  by (simp_all add: countMissed_def rampIndex_def advancePhase_def steppedSample_def Let_def split_def)

lemma isr_denied:
  "vDeniedCellMask (fst (IsrOverflowSm20 active t0 x m)) = vDeniedCellMask m"
  "(k, d) \<in> set (snd (IsrOverflowSm20 active t0 x m)) \<Longrightarrow> \<not> bit (vDeniedCellMask m) k"
  by (auto simp: IsrOverflowSm20_def Let_def split_def split: if_splits)

lemma isrRun_denied: "(k, d) \<in> set (isrRun ins m) \<Longrightarrow> \<not> bit (vDeniedCellMask m) k"
proof (induction ins arbitrary: m)
  case (Cons i ins)
  obtain active t0 x where i: "i = (active, t0, x)" by (cases i)
  show ?case
    using Cons.prems Cons.IH [of "fst (IsrOverflowSm20 active t0 x m)"] isr_denied(1) [of active t0 x m]
    by (auto simp: i split_def dest: isr_denied(2))
qed simp

lemma dither_denied [simp]: "vDeniedCellMask (buildDitherState clk t m) = vDeniedCellMask m"
  by (simp add: buildDitherState_def split_def Let_def)

lemma configure_denied: "vDeniedCellMask (configureModulator unitLut cpuHz clk pll ok w t m) = deniedMask t"
  by (simp add: configureModulator_def Let_def gapBaseline_def)

lemma cell_pair_facts:
  assumes "k < 4"
  shows "ssPairMode (cellSettings t k) = cellPairMode t k"
    "ssPairRequested (cellSettings t k) = Pair (cellSubmodules t ! k)"
  by (simp_all add: cellSettings_def Let_def)

section \<open>Bridge legs\<close>

lemma setup_pairs:
  assumes "smComplementary r s" "snd (setupSubmodule r s)"
  shows "{Deadtime (pairDeadTimeNs (ssPairMode s) (ssDeadtimeNs s)), UpdateSetting, CopyDtcnt1}
      \<subseteq> set (fst (setupSubmodule r s)) \<and> SetIndep True \<notin> set (fst (setupSubmodule r s))
    \<and> (indepSet r \<longrightarrow> List.last (fst (setupSubmodule r s)) = SetIndep False)"
  using assms by (auto simp: setupSubmodule_def Let_def split: if_splits)

lemma half_bridge_dead_time:
  "cellPairMode t k = PairHalfBridge \<Longrightarrow> k < 4 \<Longrightarrow>
     150 \<le> pairDeadTimeNs (ssPairMode (cellSettings t k)) (ssDeadtimeNs (cellSettings t k))"
  by (simp add: cell_pair_facts pairDeadTimeNs_def pairUsesDeadTime_def pairMaxDeadTimeNs_def const_defs not_less)


definition goodRegs :: SmRegs where
  "goodRegs = \<lparr>compModeSet = False, indepSet = True, frequencyOk = True, beginOk = True, updateOk = True\<rparr>"

definition halfBridgeConfig :: Module2Config where
  "halfBridgeConfig = defaultModule2\<lparr>UseSpwm := True,
     Sm20 := (defaultSubmodule DefaultModulationCarrierHz)\<lparr>Pair := PairHalfBridge\<rparr>\<rparr>"


text \<open>The mask does not cover a pair that the set-up itself refuses because COMPMODE is set: its duties are
  zeroed too, but the interrupt then writes modulated duties to the leg.\<close>

definition compModeRegs :: SmRegs where
  "compModeRegs = goodRegs\<lparr>compModeSet := True\<rparr>"

lemma compmode_refusal_not_masked:
  assumes "spwmActive t" "pairIsComplementary (cellPairMode t 0)"
    "pairIsComplementary (Pair (Sm20 t))" "vModScheme m = ModSchemeSpwmUnipolar" "0 < vModCells m"
    "vDeniedCellMask m = deniedMask t"
  shows "pairDenied compModeRegs (cellSettings t 0) \<and> \<not> bit (deniedMask t) 0
    \<and> (\<exists>d. (0, d) \<in> set (snd (IsrOverflowSm20 True t0 x m)))"
proof (intro conjI)
  show "pairDenied compModeRegs (cellSettings t 0)"
    using assms(3) by (simp add: pairDenied_def smComplementary_def compModeRegs_def goodRegs_def
        cellSettings_def cellSubmodules_def Let_def)
  show b: "\<not> bit (deniedMask t) 0" unfolding bit_deniedMask using assms(2) by (simp add: cellDenied_def)
  have n: "0 < unat (vModCells m)" using assms(5) by (simp add: word_less_nat_alt)
  have v: "vModScheme (advancePhase (rampIndex (countMissed t0 m))) = ModSchemeSpwmUnipolar"
    "vModCells (advancePhase (rampIndex (countMissed t0 m))) = vModCells m"
    "vModCells (snd (steppedSample x (advancePhase (rampIndex (countMissed t0 m))))) = vModCells m"
    using assms(4) by (simp_all add: countMissed_def rampIndex_def advancePhase_def steppedSample_def Let_def split_def)
  have c: "modulationCellCount ModSchemeSpwmUnipolar (vModCells m) = vModCells m"
    by (simp add: modulationCellCount_def const_defs)
  show "\<exists>d. (0, d) \<in> set (snd (IsrOverflowSm20 True t0 x m))"
    using n b assms(6) by (auto simp: IsrOverflowSm20_def Let_def split_def v c)
qed

section \<open>The segment player\<close>

text \<open>The waveform a sequence describes, one sample per carrier cycle.\<close>

definition expandSegments :: "int list \<Rightarrow> u32 list \<Rightarrow> int list" where
  "expandSegments levels cycles = concat (map2 (\<lambda>l c. replicate (unat c) l) levels cycles)"

definition segStart :: "u32 list \<Rightarrow> nat \<Rightarrow> nat" where
  "segStart cycles i = sum_list (map unat (take i cycles))"

lemma segStart_Suc: "i < length cycles \<Longrightarrow> segStart cycles (Suc i) = segStart cycles i + unat (cycles ! i)"
  by (simp add: segStart_def take_Suc_conv_app_nth)

lemma length_expand:
  "length levels = length cycles \<Longrightarrow> length (expandSegments levels cycles) = segStart cycles (length cycles)"
  by (induction levels cycles rule: list_induct2) (simp_all add: expandSegments_def segStart_def)

lemma expand_nth:
  assumes "length levels = length cycles" "i < length cycles" "j < unat (cycles ! i)"
  shows "expandSegments levels cycles ! (segStart cycles i + j) = levels ! i"
  using assms
proof (induction levels cycles arbitrary: i rule: list_induct2)
  case (Cons l ls c cs)
  show ?case
  proof (cases i)
    case 0
    with Cons.prems show ?thesis by (simp add: expandSegments_def segStart_def nth_append)
  next
    case (Suc i')
    with Cons show ?thesis by (simp add: expandSegments_def segStart_def nth_append add.assoc)
  qed
qed simp

text \<open>Where the player stands: \<open>p\<close> cycles of the waveform have been played.\<close>

definition playerAt :: "u32 list \<Rightarrow> byte \<times> u32 \<Rightarrow> nat \<Rightarrow> bool" where
  "playerAt cycles = (\<lambda>(i, r) p. unat i < length cycles \<and> unat r \<le> unat (cycles ! unat i)
     \<and> p = segStart cycles (unat i) + (unat (cycles ! unat i) - unat r))"

lemma segStart_le: "i \<le> length cycles \<Longrightarrow> segStart cycles i \<le> segStart cycles (length cycles)"
proof -
  assume "i \<le> length cycles"
  have "cycles = take i cycles @ drop i cycles" by simp
  then have "segStart cycles (length cycles) = sum_list (map unat (take i cycles)) + sum_list (map unat (drop i cycles))"
    unfolding segStart_def by (metis map_append sum_list_append take_all_iff le_refl)
  then show ?thesis by (simp add: segStart_def)
qed

lemma seqStep_plays:
  assumes "length levels = length cycles" "length cycles = unat count" "0 < length cycles"
    "\<forall>c\<in>set cycles. 0 < c" "playerAt cycles st p" "seqStep levels cycles count st = (s, st')"
  shows "s = expandSegments levels cycles ! (p mod segStart cycles (length cycles))
    \<and> (\<exists>p'. playerAt cycles st' p' \<and> p' mod segStart cycles (length cycles) = Suc p mod segStart cycles (length cycles))"
proof -
  let ?T = "segStart cycles (length cycles)"
  obtain i r where st: "st = (i, r)" by (cases st)
  have i: "unat i < length cycles" "unat r \<le> unat (cycles ! unat i)"
    and p: "p = segStart cycles (unat i) + (unat (cycles ! unat i) - unat r)"
    using assms(5) by (simp_all add: st playerAt_def)
  have pos: "0 < unat (cycles ! j)" if "j < length cycles" for j
    using assms(4) nth_mem [OF that] by (auto simp: word_less_nat_alt)
  have dec: "unat (x - 1) = unat x - 1" if "0 < unat x" for x :: u32
    using that by (subst unat_sub_no_wrap) simp_all
  text \<open>one sample from a position inside a segment\<close>
  have inside: "s = expandSegments levels cycles ! (q mod ?T)
      \<and> (\<exists>p'. playerAt cycles st' p' \<and> p' mod ?T = Suc q mod ?T)"
    if o: "s = levels ! unat j" "st' = (j, x - 1)" and j: "unat j < length cycles" "0 < unat x" "unat x \<le> unat (cycles ! unat j)"
      and q: "q mod ?T = (segStart cycles (unat j) + (unat (cycles ! unat j) - unat x)) mod ?T" for j x q
  proof -
    let ?q = "segStart cycles (unat j) + (unat (cycles ! unat j) - unat x)"
    have "?q < segStart cycles (Suc (unat j))" using j by (simp add: segStart_Suc)
    also have "\<dots> \<le> ?T" using j(1) by (intro segStart_le) simp
    finally have "?q < ?T" .
    then have "s = expandSegments levels cycles ! (q mod ?T)"
      using q o(1) expand_nth [OF assms(1) j(1), of "unat (cycles ! unat j) - unat x"] j by simp
    moreover have "playerAt cycles st' (Suc ?q)" unfolding playerAt_def o(2) prod.case dec [OF j(2)]
      using j by (intro conjI; linarith)
    moreover have "Suc ?q mod ?T = Suc q mod ?T" using q by (metis mod_Suc_eq)
    ultimately show ?thesis by blast
  qed
  show ?thesis
  proof (cases "r = 0")
    case False
    then have "0 < unat r" by (simp add: unat_gt_0)
    moreover have "s = levels ! unat i" "st' = (i, r - 1)"
      using assms(6) False by (simp_all add: seqStep_def st)
    ultimately show ?thesis using inside [of i r p] i p by simp
  next
    case True
    let ?j = "if uint i + 1 \<ge> uint count then 0 else i + 1"
    have o: "s = levels ! unat ?j" "st' = (?j, cycles ! unat ?j - 1)"
      using assms(6) True by (simp_all add: seqStep_def st Let_def)
    have cnt: "uint count = int (length cycles)" "uint i = int (unat i)"
      unfolding assms(2) by (rule uint_nat)+
    have ge: "uint i + 1 \<ge> uint count \<longleftrightarrow> length cycles \<le> Suc (unat i)" unfolding cnt by linarith
    have pe: "p = segStart cycles (Suc (unat i))" using p True i(1) by (simp add: segStart_Suc)
    show ?thesis
    proof (cases "Suc (unat i) = length cycles")
      case last': True
      then have z: "?j = 0" unfolding ge by simp
      show ?thesis
        by (rule inside [OF o]) (use z pos [of 0] assms(3) pe last' in \<open>simp_all add: segStart_def\<close>)
    next
      case next': False
      then have lt: "Suc (unat i) < length cycles" using i(1) by simp
      then have z: "?j = i + 1" unfolding ge by simp
      have "unat (i + 1) = Suc (unat i)"
        using lt assms(2) word_size_bounds(1) [of count]
        by (subst unat_add_no_wrap) (simp_all del: word_size_bounds)
      then show ?thesis
        by (intro inside [OF o]) (use z pos lt pe in simp_all)
    qed
  qed
qed

definition seqOk :: "int list \<Rightarrow> u32 list \<Rightarrow> nat \<Rightarrow> Modulator \<Rightarrow> bool" where
  "seqOk levels cycles n m \<longleftrightarrow> vRefSequence m \<and> seqLevels m = levels \<and> seqCycles m = cycles
     \<and> length levels = length cycles \<and> 0 < length cycles \<and> length cycles = unat (vSeqCount m)
     \<and> (\<forall>c\<in>set cycles. 0 < c)
     \<and> (\<exists>p. playerAt cycles (seqIndex m, seqRemaining m) p
          \<and> p mod segStart cycles (length cycles) = n mod segStart cycles (length cycles))"

lemma seq_frame:
  "seqOk levels cycles n (countMissed t0 m) = seqOk levels cycles n m"
  "seqOk levels cycles n (rampIndex m) = seqOk levels cycles n m"
  "seqOk levels cycles n (advancePhase m) = seqOk levels cycles n m"
  by (simp_all add: seqOk_def countMissed_def rampIndex_def advancePhase_def Let_def)

lemma stepped_sequence:
  assumes "seqOk levels cycles n m"
  shows "fst (steppedSample x m) = expandSegments levels cycles ! (n mod segStart cycles (length cycles))"
    "seqOk levels cycles (Suc n) (snd (steppedSample x m))"
proof -
  let ?T = "segStart cycles (length cycles)"
  obtain p where p: "playerAt cycles (seqIndex m, seqRemaining m) p" "p mod ?T = n mod ?T"
    using assms by (auto simp: seqOk_def)
  obtain s i r where s: "seqStep levels cycles (vSeqCount m) (seqIndex m, seqRemaining m) = (s, i, r)"
    by (metis prod_cases3)
  have plays: "s = expandSegments levels cycles ! (p mod ?T)"
    "\<exists>p'. playerAt cycles (i, r) p' \<and> p' mod ?T = Suc p mod ?T"
    using seqStep_plays [of levels cycles "vSeqCount m" _ p s "(i, r)", OF _ _ _ _ p(1) s] assms
    unfolding seqOk_def by blast+
  have e: "steppedSample x m = (s, m\<lparr>seqIndex := i, seqRemaining := r\<rparr>)"
    using assms s by (simp add: steppedSample_def seqOk_def)
  show "fst (steppedSample x m) = expandSegments levels cycles ! (n mod ?T)" using plays(1) p(2) e by simp
  have "Suc p mod ?T = Suc n mod ?T" using p(2) by (metis mod_Suc_eq)
  moreover have "0 < unat (vSeqCount m)" using assms unfolding seqOk_def by linarith
  ultimately show "seqOk levels cycles (Suc n) (snd (steppedSample x m))"
    using assms plays(2) unfolding e by (auto simp: seqOk_def)
qed

lemma isr_sequence:
  assumes "seqOk levels cycles n m"
  shows "seqOk levels cycles (Suc n) (fst (IsrOverflowSm20 True t0 x m))"
    "snd (IsrOverflowSm20 True t0 x m)
     = map (\<lambda>k. (k, steppedDuty (expandSegments levels cycles ! (n mod segStart cycles (length cycles)))
                      (fst (IsrOverflowSm20 True t0 x m)) k))
         (filter (\<lambda>k. \<not> bit (vDeniedCellMask m) k) [0..<unat (vModCells m)])"
proof -
  let ?m = "advancePhase (rampIndex (countMissed t0 m))"
  have ok: "seqOk levels cycles n ?m" using assms by (simp add: seq_frame)
  then have v: "vRefSequence ?m" by (simp add: seqOk_def)
  have c: "vModCells (snd (steppedSample x ?m)) = vModCells m"
    by (simp add: countMissed_def rampIndex_def advancePhase_def steppedSample_def Let_def split_def)
  have e: "IsrOverflowSm20 True t0 x m = (snd (steppedSample x ?m),
      map (\<lambda>k. (k, steppedDuty (fst (steppedSample x ?m)) (snd (steppedSample x ?m)) k))
        (filter (\<lambda>k. \<not> bit (vDeniedCellMask m) k) [0..<unat (vModCells m)]))"
    using v c by (simp add: IsrOverflowSm20_def Let_def split_def)
  show "seqOk levels cycles (Suc n) (fst (IsrOverflowSm20 True t0 x m))"
    unfolding e using stepped_sequence(2) [OF ok] by simp
  show "snd (IsrOverflowSm20 True t0 x m)
     = map (\<lambda>k. (k, steppedDuty (expandSegments levels cycles ! (n mod segStart cycles (length cycles)))
                      (fst (IsrOverflowSm20 True t0 x m)) k))
         (filter (\<lambda>k. \<not> bit (vDeniedCellMask m) k) [0..<unat (vModCells m)])"
    unfolding e using stepped_sequence(1) [OF ok] by simp
qed

definition isrState :: "(u32 \<times> int) list \<Rightarrow> Modulator \<Rightarrow> Modulator" where
  "isrState ins m = foldl (\<lambda>m (t0, x). fst (IsrOverflowSm20 True t0 x m)) m ins"

lemma isrState_sequence: "seqOk levels cycles n m \<Longrightarrow> seqOk levels cycles (n + length ins) (isrState ins m)"
proof (induction ins arbitrary: n m)
  case (Cons i ins)
  then show ?case
    using Cons.IH [OF isr_sequence(1) [OF Cons.prems, of "fst i" "snd i"]] by (simp add: isrState_def split_def)
qed (simp add: isrState_def)

lemma isrState_frame:
  "vModCells (isrState ins m) = vModCells m" "vDeniedCellMask (isrState ins m) = vDeniedCellMask m"
proof -
  have f: "vModCells (countMissed t0 m) = vModCells m" "vModCells (rampIndex m) = vModCells m"
    "vModCells (advancePhase m) = vModCells m" "vModCells (snd (steppedSample x m)) = vModCells m" for t0 x m
    by (simp_all add: countMissed_def rampIndex_def advancePhase_def steppedSample_def Let_def split_def)
  have c: "vModCells (fst (IsrOverflowSm20 True t0 x m)) = vModCells m" for t0 x m
    by (simp add: IsrOverflowSm20_def Let_def split_def f)
  show "vModCells (isrState ins m) = vModCells m"
    by (induction ins arbitrary: m) (simp_all add: isrState_def split_def c)
  show "vDeniedCellMask (isrState ins m) = vDeniedCellMask m"
    by (induction ins arbitrary: m) (simp_all add: isrState_def split_def isr_denied)
qed

lemma microsToCycles_pos: "0 < microsToCycles us hz"
proof -
  have "(ucast c :: u32) \<noteq> 0" if "c \<noteq> 0" "\<not> c > 0xFFFFFFFF" for c :: u64
  proof -
    have "unat c \<le> 4294967295" "unat c \<noteq> 0" using that by (simp_all add: not_less word_le_nat_alt unat_eq_0)
    then have "unat (ucast c :: u32) \<noteq> 0" by (simp add: unat_ucast_down)
    then show ?thesis by (metis unat_0)
  qed
  then show ?thesis by (simp add: microsToCycles_def Let_def word_neq_0_conv)
qed

lemma configure_sequence:
  assumes "spwmActive t" "ModulationScheme t \<noteq> ModSchemeThipwm" "ReferenceWaveform t = RefWaveSequence"
    "0 < length (wsLevels w)" "length (wsLevels w) \<le> 64" "length (wsMicros w) = length (wsLevels w)"
  shows "seqOk (wsLevels w) (map (\<lambda>us. microsToCycles us (SpwmCarrierFrequency t)) (wsMicros w)) 0
    (configureModulator unitLut cpuHz clk pll ok w t m)"
proof -
  let ?c = "map (\<lambda>us. microsToCycles us (SpwmCarrierFrequency t)) (wsMicros w)"
  have r: "RefWaveSequence \<noteq> RefWaveCustom" by (simp add: const_defs)
  have pl: "playerAt ?c (0, ?c ! 0) 0"
    using assms(4,6) by (auto simp: playerAt_def segStart_def)
  have n: "unat (of_nat (length (wsLevels w)) :: byte) = length (wsLevels w)"
    using assms(5) by (simp add: unat_of_nat take_bit_nat_eq_self_iff)
  have ch: "seqOk (wsLevels w) ?c 0 (chooseReference unitLut w t m)"
    unfolding seqOk_def
    using assms r pl n microsToCycles_pos by (auto simp: chooseReference_def Let_def)
  have fr: "seqOk (wsLevels w) ?c 0 m' = seqOk (wsLevels w) ?c 0 m''"
    if "vRefSequence m' = vRefSequence m''" "seqLevels m' = seqLevels m''" "seqCycles m' = seqCycles m''"
      "vSeqCount m' = vSeqCount m''" "seqIndex m' = seqIndex m''" "seqRemaining m' = seqRemaining m''" for m' m''
    using that by (simp add: seqOk_def)
  show ?thesis
    using assms(1) ch
    by (subst fr [of _ "chooseReference unitLut w t m"])
      (simp_all add: configureModulator_def buildSpwmLut_def gapBaseline_def buildDitherState_def
        setModulationIndexTargetQ15_def Let_def split_def)
qed

text \<open>C39: a sequence plays as drawn: after a sequence was configured, the n-th carrier interrupt modulates
  with the n-th sample of the uploaded segments, each held for its duration in carrier cycles (at
  least one), the whole repeated without a gap, on every cell that is not held off.\<close>

theorem sequence_plays_in_order:
  fixes w :: WaveStore and t :: Module2Config and ins :: "(u32 \<times> int) list" and m :: Modulator
    and unitLut :: "byte \<Rightarrow> bool \<Rightarrow> int list" and cpuHz clk :: u32 and pll ok :: bool
  defines "wave \<equiv> expandSegments (wsLevels w)
             (map (\<lambda>us. microsToCycles us (SpwmCarrierFrequency t)) (wsMicros w))"
    and "now \<equiv> isrState ins (configureModulator unitLut cpuHz clk pll ok w t m)"
  assumes "spwmActive t" "ModulationScheme t \<noteq> ModSchemeThipwm" "ReferenceWaveform t = RefWaveSequence"
    "0 < length (wsLevels w)" "length (wsLevels w) \<le> 64" "length (wsMicros w) = length (wsLevels w)"
  shows "0 < length wave
    \<and> snd (IsrOverflowSm20 True t0 x now)
      = map (\<lambda>k. (k, steppedDuty (wave ! (length ins mod length wave)) (fst (IsrOverflowSm20 True t0 x now)) k))
          (filter (\<lambda>k. \<not> cellDenied t k) [0..<unat (effectiveModulationCells t)])"
proof -
  let ?c = "map (\<lambda>us. microsToCycles us (SpwmCarrierFrequency t)) (wsMicros w)"
  have s: "seqOk (wsLevels w) ?c (length ins) now"
    unfolding now_def using isrState_sequence [OF configure_sequence [OF assms(3-8)], of ins] by simp
  have len: "length wave = segStart ?c (length ?c)"
    unfolding wave_def using assms(8) by (intro length_expand) simp
  have "wave \<noteq> []"
  proof -
    obtain us rest where "wsMicros w = us # rest" using assms(6,8) by (cases "wsMicros w") auto
    moreover obtain l ls where "wsLevels w = l # ls" using assms(6) by (cases "wsLevels w") auto
    moreover have "microsToCycles us (SpwmCarrierFrequency t) \<noteq> 0" using microsToCycles_pos by (metis word_gt_0)
    ultimately show ?thesis by (auto simp: wave_def expandSegments_def unat_eq_0)
  qed
  moreover have cells: "vModCells now = effectiveModulationCells t" "vDeniedCellMask now = deniedMask t"
    using assms(3) by (simp_all add: now_def isrState_frame configure_denied)
      (simp add: configureModulator_def buildSpwmLut_def gapBaseline_def buildDitherState_def
        setModulationIndexTargetQ15_def Let_def split_def)
  moreover have "unat (effectiveModulationCells t) \<le> 4"
    by (auto simp: effectiveModulationCells_def Let_def word_le_nat_alt not_less)
  then have "filter (\<lambda>k. \<not> bit (deniedMask t) k) [0..<unat (effectiveModulationCells t)]
      = filter (\<lambda>k. \<not> cellDenied t k) [0..<unat (effectiveModulationCells t)]"
    by (intro filter_cong) (auto simp: bit_deniedMask)
  ultimately show ?thesis
    using isr_sequence(2) [OF s, of t0 x] unfolding len [symmetric] wave_def [symmetric] by simp
qed

definition seqStore :: WaveStore where
  "seqStore = \<lparr>wsType = 2, wsStreaming = False, wsSamples = [], wsCount = 0, wsLevels = [100, - 100],
     wsMicros = [50, 100]\<rparr>"

definition seqConfig :: Module2Config where
  "seqConfig = defaultModule2\<lparr>UseSpwm := True, ReferenceWaveform := RefWaveSequence\<rparr>"

lemma sequence_plays_in_order_witness:
  "\<forall>m. map fst (snd (IsrOverflowSm20 True 9 0 (isrState [(1, 0)]
      (configureModulator (\<lambda>_ _. []) 600000000 150000000 False True seqStore seqConfig m)))) = [0, 1]"
proof
  fix m
  have "spwmActive seqConfig" "ModulationScheme seqConfig \<noteq> ModSchemeThipwm"
    "ReferenceWaveform seqConfig = RefWaveSequence" "unat (effectiveModulationCells seqConfig) = 2"
    "\<not> cellDenied seqConfig 0" "\<not> cellDenied seqConfig 1"
    by (simp_all add: spwmActive_def seqConfig_def defaultModule2_def const_defs effectiveModulationCells_def Let_def
        cellDenied_def cellSubmodules_def defaultSubmodule_def pair_mode_defs)
  then show "map fst (snd (IsrOverflowSm20 True 9 0 (isrState [(1, 0)]
      (configureModulator (\<lambda>_ _. []) 600000000 150000000 False True seqStore seqConfig m)))) = [0, 1]"
    using sequence_plays_in_order [of seqConfig seqStore 9 0 "[(1, 0)]" "\<lambda>_ _. []" 600000000 150000000 False True m]
    by (simp add: seqStore_def upt_rec)
qed

section \<open>The index and the thermal ceiling\<close>

lemma unat_indexMilli: "unat (indexMilliToQ15 MaxModulationIndexMilli) = 37847"
  by (simp add: indexMilliToQ15_def const_defs)

lemma unat_indexCap: "unat d \<le> 1000 \<Longrightarrow> unat (indexCapQ15 d) = 37847 * unat d div 1000"
proof -
  assume "unat d \<le> 1000"
  then have "unat (indexMilliToQ15 MaxModulationIndexMilli * ucast d :: u32) = 37847 * unat d"
    by (subst unat_mult_no_wrap) (simp_all add: unat_indexMilli)
  then show ?thesis by (simp only: indexCapQ15_def unat_div_distrib) simp
qed

datatype ModOp = SetTarget u32 | Derate u16 | Reconfigure Module2Config WaveStore bool bool | Tick u32 int

definition modOp :: "(byte \<Rightarrow> bool \<Rightarrow> int list) \<Rightarrow> u32 \<Rightarrow> u32 \<Rightarrow> ModOp \<Rightarrow> Modulator \<Rightarrow> Modulator" where
  "modOp unitLut cpuHz clk oper m = (case oper of
     SetTarget x \<Rightarrow> setModulationIndexTargetQ15 x m
   | Derate d \<Rightarrow> setThermalDerateMilli d m
   | Reconfigure t w pll ok \<Rightarrow> configureModulator unitLut cpuHz clk pll ok w t m
   | Tick t0 x \<Rightarrow> fst (IsrOverflowSm20 True t0 x m))"

definition indexOk :: "Modulator \<Rightarrow> bool" where
  "indexOk m \<longleftrightarrow> unat (vThermalDerateMilli m) \<le> 1000
     \<and> unat (vIndexTargetQ15 m) \<le> unat (indexCapQ15 (vThermalDerateMilli m))
     \<and> unat (vIndexAccumQ24 m) \<le> 37847 * 16777216 \<and> unat (vIndexQ15 m) \<le> 37847"

lemma tick_fields:
  "vIndexTargetQ15 (fst (IsrOverflowSm20 True t0 x m)) = vIndexTargetQ15 m"
  "vThermalDerateMilli (fst (IsrOverflowSm20 True t0 x m)) = vThermalDerateMilli m"
  "vIndexStepQ24 (fst (IsrOverflowSm20 True t0 x m)) = vIndexStepQ24 m"
  "vIndexAccumQ24 (fst (IsrOverflowSm20 True t0 x m))
     = rampIndexQ24 (vIndexAccumQ24 m) (vIndexTargetQ15 m) (vIndexStepQ24 m)"
  "vIndexQ15 (fst (IsrOverflowSm20 True t0 x m))
     = ucast (drop_bit SoftStartFractionBits (rampIndexQ24 (vIndexAccumQ24 m) (vIndexTargetQ15 m) (vIndexStepQ24 m)))"
proof -
  have c: "vIndexTargetQ15 (countMissed t0 m) = vIndexTargetQ15 m"
    "vThermalDerateMilli (countMissed t0 m) = vThermalDerateMilli m"
    "vIndexStepQ24 (countMissed t0 m) = vIndexStepQ24 m" "vIndexAccumQ24 (countMissed t0 m) = vIndexAccumQ24 m"
    by (simp_all add: countMissed_def Let_def)
  have a: "vIndexTargetQ15 (advancePhase m) = vIndexTargetQ15 m" "vIndexStepQ24 (advancePhase m) = vIndexStepQ24 m"
    "vThermalDerateMilli (advancePhase m) = vThermalDerateMilli m"
    "vIndexAccumQ24 (advancePhase m) = vIndexAccumQ24 m" "vIndexQ15 (advancePhase m) = vIndexQ15 m" for m
    by (simp_all add: advancePhase_def Let_def)
  have s: "vIndexTargetQ15 (snd (steppedSample x m)) = vIndexTargetQ15 m"
    "vIndexStepQ24 (snd (steppedSample x m)) = vIndexStepQ24 m"
    "vThermalDerateMilli (snd (steppedSample x m)) = vThermalDerateMilli m"
    "vIndexAccumQ24 (snd (steppedSample x m)) = vIndexAccumQ24 m"
    "vIndexQ15 (snd (steppedSample x m)) = vIndexQ15 m" for m
    by (simp_all add: steppedSample_def Let_def split_def)
  have i: "\<exists>m'. (m' = advancePhase (rampIndex (countMissed t0 m))
        \<or> m' = snd (steppedSample x (advancePhase (rampIndex (countMissed t0 m)))))
      \<and> fst (IsrOverflowSm20 True t0 x m) = m'"
    by (simp add: IsrOverflowSm20_def Let_def split_def)
  show "vIndexTargetQ15 (fst (IsrOverflowSm20 True t0 x m)) = vIndexTargetQ15 m"
    "vThermalDerateMilli (fst (IsrOverflowSm20 True t0 x m)) = vThermalDerateMilli m"
    "vIndexStepQ24 (fst (IsrOverflowSm20 True t0 x m)) = vIndexStepQ24 m"
    "vIndexAccumQ24 (fst (IsrOverflowSm20 True t0 x m))
       = rampIndexQ24 (vIndexAccumQ24 m) (vIndexTargetQ15 m) (vIndexStepQ24 m)"
    "vIndexQ15 (fst (IsrOverflowSm20 True t0 x m))
       = ucast (drop_bit SoftStartFractionBits (rampIndexQ24 (vIndexAccumQ24 m) (vIndexTargetQ15 m) (vIndexStepQ24 m)))"
    using i by (auto simp: a s c rampIndex_def Let_def)
qed

lemma ramp_below:
  "unat (rampIndexQ24 cur t st) \<le> max (unat t * 16777216) (unat cur - unat st)"
  "unat cur \<le> b \<Longrightarrow> unat t * 16777216 \<le> b \<Longrightarrow> unat (rampIndexQ24 cur t st) \<le> b"
proof -
  have i: "unat (rampIndexQ24 cur t SoftStartInstant) = unat t * 16777216"
    using unat_target [of t] by (simp add: rampIndexQ24_def Let_def)
  show "unat (rampIndexQ24 cur t st) \<le> max (unat t * 16777216) (unat cur - unat st)"
    using i by (cases "st = SoftStartInstant") (auto simp: rampIndex_unat Let_def)
  show "unat (rampIndexQ24 cur t st) \<le> b" if "unat cur \<le> b" "unat t * 16777216 \<le> b"
    using i that by (cases "st = SoftStartInstant") (auto simp: rampIndex_unat Let_def)
qed

lemma unat_index_of: "unat (x :: u64) \<le> c * 16777216 \<Longrightarrow> c < 4294967296 \<Longrightarrow>
    unat (ucast (drop_bit SoftStartFractionBits x) :: u32) \<le> c"
proof -
  assume x: "unat x \<le> c * 16777216" "c < 4294967296"
  have "unat (drop_bit 24 x) = drop_bit 24 (unat x)" by (rule unat_drop_bit_eq)
  then have "unat (drop_bit 24 x) = unat x div 16777216" by (simp add: drop_bit_eq_div)
  moreover have "unat x div 16777216 \<le> c" using div_le_mono [OF x(1), of 16777216] by simp
  ultimately show ?thesis by (simp add: SoftStartFractionBits_def unat_ucast_down)
qed

lemma cap_max: "unat d \<le> 1000 \<Longrightarrow> unat (indexCapQ15 d) \<le> 37847"
  by (simp add: unat_indexCap)

lemma configure_index:
  "vThermalDerateMilli (configureModulator unitLut cpuHz clk pll ok w t m) = vThermalDerateMilli m"
  "vIndexAccumQ24 (configureModulator unitLut cpuHz clk pll ok w t m) = vIndexAccumQ24 m"
  "vIndexQ15 (configureModulator unitLut cpuHz clk pll ok w t m) = vIndexQ15 m"
  "vIndexTargetQ15 (configureModulator unitLut cpuHz clk pll ok w t m) = vIndexTargetQ15 m
   \<or> (\<exists>x. vIndexTargetQ15 (configureModulator unitLut cpuHz clk pll ok w t m)
        = (if x > indexCapQ15 (vThermalDerateMilli m) then indexCapQ15 (vThermalDerateMilli m) else x))"
proof -
  have ch: "vThermalDerateMilli (chooseReference unitLut w t m) = vThermalDerateMilli m"
    "vIndexAccumQ24 (chooseReference unitLut w t m) = vIndexAccumQ24 m"
    "vIndexQ15 (chooseReference unitLut w t m) = vIndexQ15 m"
    by (simp_all add: chooseReference_def Let_def)
  have di: "vThermalDerateMilli (buildDitherState clk t m) = vThermalDerateMilli m"
    "vIndexAccumQ24 (buildDitherState clk t m) = vIndexAccumQ24 m"
    "vIndexQ15 (buildDitherState clk t m) = vIndexQ15 m"
    "vIndexTargetQ15 (buildDitherState clk t m) = vIndexTargetQ15 m" for m
    by (simp_all add: buildDitherState_def Let_def split_def)
  note d = configureModulator_def buildSpwmLut_def gapBaseline_def setModulationIndexTargetQ15_def Let_def
  show "vThermalDerateMilli (configureModulator unitLut cpuHz clk pll ok w t m) = vThermalDerateMilli m"
    "vIndexAccumQ24 (configureModulator unitLut cpuHz clk pll ok w t m) = vIndexAccumQ24 m"
    "vIndexQ15 (configureModulator unitLut cpuHz clk pll ok w t m) = vIndexQ15 m"
    by (simp_all add: d ch di)
  show "vIndexTargetQ15 (configureModulator unitLut cpuHz clk pll ok w t m) = vIndexTargetQ15 m
   \<or> (\<exists>x. vIndexTargetQ15 (configureModulator unitLut cpuHz clk pll ok w t m)
        = (if x > indexCapQ15 (vThermalDerateMilli m) then indexCapQ15 (vThermalDerateMilli m) else x))"
    by (cases "spwmActive t"; cases ok; simp add: d ch di; blast)
qed

lemma modOp_index: "indexOk m \<Longrightarrow> indexOk (modOp unitLut cpuHz clk oper m)"
proof (cases oper)
  case (SetTarget x)
  then show "indexOk m \<Longrightarrow> ?thesis"
    by (auto simp: modOp_def indexOk_def setModulationIndexTargetQ15_def Let_def not_less word_le_nat_alt)
next
  case (Derate d)
  then show "indexOk m \<Longrightarrow> ?thesis"
    by (auto simp: modOp_def indexOk_def setThermalDerateMilli_def Let_def not_less word_le_nat_alt)
next
  case (Reconfigure t w pll ok)
  assume "indexOk m"
  then show ?thesis
    using configure_index [of unitLut cpuHz clk pll ok w t m] unfolding Reconfigure
    by (auto simp: modOp_def indexOk_def not_less word_le_nat_alt)
next
  case (Tick t0 x)
  assume ok: "indexOk m"
  then have t: "unat (vIndexTargetQ15 m) * 16777216 \<le> 37847 * 16777216"
    using cap_max [of "vThermalDerateMilli m"] unfolding indexOk_def by (intro mult_le_mono1) linarith
  then have a: "unat (rampIndexQ24 (vIndexAccumQ24 m) (vIndexTargetQ15 m) (vIndexStepQ24 m)) \<le> 37847 * 16777216"
    using ok by (intro ramp_below(2)) (simp_all add: indexOk_def)
  show ?thesis
    using ok a unat_index_of [OF a] by (simp add: Tick modOp_def indexOk_def tick_fields)
qed

definition modRun :: "(byte \<Rightarrow> bool \<Rightarrow> int list) \<Rightarrow> u32 \<Rightarrow> u32 \<Rightarrow> ModOp list \<Rightarrow> Modulator \<Rightarrow> Modulator" where
  "modRun unitLut cpuHz clk ops m = foldl (\<lambda>m oper. modOp unitLut cpuHz clk oper m) m ops"

definition isTick :: "ModOp \<Rightarrow> bool" where "isTick oper \<longleftrightarrow> (case oper of Tick _ _ \<Rightarrow> True | _ \<Rightarrow> False)"

definition isTracking :: "ModOp \<Rightarrow> bool" where
  "isTracking oper \<longleftrightarrow> (case oper of Tick _ _ \<Rightarrow> True | SetTarget _ \<Rightarrow> True | _ \<Rightarrow> False)"

lemma modRun_index: "indexOk m \<Longrightarrow> indexOk (modRun unitLut cpuHz clk ops m)"
  by (induction ops arbitrary: m) (simp_all add: modRun_def modOp_index)

lemma tracking_step:
  fixes unitLut :: "byte \<Rightarrow> bool \<Rightarrow> int list" and cpuHz clk :: u32 and m :: Modulator and oper :: ModOp
  assumes "indexOk m" "isTracking oper"
  defines "m' \<equiv> modOp unitLut cpuHz clk oper m"
  shows "vThermalDerateMilli m' = vThermalDerateMilli m" "vIndexStepQ24 m' = vIndexStepQ24 m"
    "unat (vIndexAccumQ24 m') \<le> max (unat (indexCapQ15 (vThermalDerateMilli m)) * 16777216)
       (unat (vIndexAccumQ24 m) - (if isTick oper then unat (vIndexStepQ24 m) else 0))"
proof -
  have "unat (vIndexTargetQ15 m) * 16777216 \<le> unat (indexCapQ15 (vThermalDerateMilli m)) * 16777216"
    using assms(1) by (simp add: indexOk_def)
  then show "vThermalDerateMilli m' = vThermalDerateMilli m" "vIndexStepQ24 m' = vIndexStepQ24 m"
    "unat (vIndexAccumQ24 m') \<le> max (unat (indexCapQ15 (vThermalDerateMilli m)) * 16777216)
       (unat (vIndexAccumQ24 m) - (if isTick oper then unat (vIndexStepQ24 m) else 0))"
    using assms(2) ramp_below(1) [of "vIndexAccumQ24 m" "vIndexTargetQ15 m" "vIndexStepQ24 m"]
    by (auto simp: m'_def modOp_def isTracking_def isTick_def setModulationIndexTargetQ15_def tick_fields Let_def
        split: ModOp.splits)
qed

lemma tracking_run:
  assumes "indexOk m" "\<forall>oper\<in>set ops. isTracking oper"
  shows "vThermalDerateMilli (modRun unitLut cpuHz clk ops m) = vThermalDerateMilli m
    \<and> unat (vIndexAccumQ24 (modRun unitLut cpuHz clk ops m))
        \<le> max (unat (indexCapQ15 (vThermalDerateMilli m)) * 16777216)
           (unat (vIndexAccumQ24 m) - length (filter isTick ops) * unat (vIndexStepQ24 m))"
  using assms
proof (induction ops arbitrary: m)
  case (Cons oper ops)
  let ?m = "modOp unitLut cpuHz clk oper m"
  have t: "isTracking oper" using Cons.prems(2) by simp
  note s = tracking_step [OF Cons.prems(1) t, of unitLut cpuHz clk]
  have "modRun unitLut cpuHz clk (oper # ops) m = modRun unitLut cpuHz clk ops ?m" by (simp add: modRun_def)
  then show ?case
    using Cons.IH [OF modOp_index [OF Cons.prems(1)], of unitLut cpuHz clk oper] Cons.prems(2) s
    by (auto simp: le_max_iff_disj)
qed (simp add: modRun_def)

lemma derate_frame:
  "vIndexAccumQ24 (setThermalDerateMilli d m) = vIndexAccumQ24 m"
  "vIndexStepQ24 (setThermalDerateMilli d m) = vIndexStepQ24 m"
  "unat (vThermalDerateMilli (setThermalDerateMilli d m)) = min (unat d) 1000"
  by (auto simp: setThermalDerateMilli_def Let_def min_def word_less_nat_alt not_less)

text \<open>C19: the thermal derate is a ceiling on the output: whatever the controllers, reconfigurations and
  interrupts do, the target never exceeds the derated maximum nor the index the scheme's; and once
  a tighter derate is set, every carrier cycle brings the running index down by the step until it
  is under the new ceiling, where it stays, even if a controller keeps asking for more.\<close>

theorem thermal_ceiling_enforced:
  fixes d :: u16 and m :: Modulator and ops :: "ModOp list" and unitLut :: "byte \<Rightarrow> bool \<Rightarrow> int list"
    and cpuHz clk :: u32
  defines "after \<equiv> modRun unitLut cpuHz clk ops (setThermalDerateMilli d m)"
    and "ceil \<equiv> 37847 * min (unat d) 1000 div 1000"
  assumes "indexOk m"
  shows "indexOk after \<and> unat (vIndexTargetQ15 after) \<le> 37847
    \<and> ((\<forall>oper\<in>set ops. isTracking oper) \<longrightarrow>
       unat (vIndexTargetQ15 after) \<le> ceil
       \<and> unat (vIndexAccumQ24 after)
           \<le> max (ceil * 16777216) (unat (vIndexAccumQ24 m) - length (filter isTick ops) * unat (vIndexStepQ24 m)))"
proof -
  let ?m = "setThermalDerateMilli d m"
  have ok: "indexOk ?m" using modOp_index [OF assms(3), of unitLut cpuHz clk "Derate d"] by (simp add: modOp_def)
  have a: "indexOk after" unfolding after_def by (rule modRun_index [OF ok])
  then have "unat (vIndexTargetQ15 after) \<le> 37847"
    using cap_max [of "vThermalDerateMilli after"] unfolding indexOk_def by linarith
  moreover have c: "unat (indexCapQ15 (vThermalDerateMilli ?m)) = ceil"
    using unat_indexCap [of "vThermalDerateMilli ?m"] by (simp add: derate_frame ceil_def)
  moreover have "unat (vIndexTargetQ15 after) \<le> ceil
      \<and> unat (vIndexAccumQ24 after)
          \<le> max (ceil * 16777216) (unat (vIndexAccumQ24 m) - length (filter isTick ops) * unat (vIndexStepQ24 m))"
    if "\<forall>oper\<in>set ops. isTracking oper"
    using tracking_run [OF ok that, of unitLut cpuHz clk] a c
    by (simp add: after_def [symmetric] derate_frame indexOk_def)
  ultimately show ?thesis using a by blast
qed

definition bootModulator :: Modulator where
  "bootModulator = \<lparr>spwmLut = [], vPhase = 0, vPhaseIncrement = 0, vIndexQ15 = 0, vIndexTargetQ15 = 0,
     vIndexAccumQ24 = 0, vIndexStepQ24 = SoftStartInstant, vDtCompQ15 = 0, vThermalDerateMilli = 1000,
     vDeniedCellMask = 0, cellPlan = [], vModScheme = ModSchemeSpwmUnipolar, vModCells = 2, vDpwmVariant = DpwmMin,
     vDpwmClampPhase = 0, vNearestLevel = False, vDitherMode = DitherOff, ditherPeriods = [], ditherIncrements = [],
     lfsr = 0xACE1, sweep = 0, seqLevels = [], seqCycles = [], vSeqCount = 0, vRefSequence = False, seqIndex = 0,
     seqRemaining = 0, vSampleStep = False, vWaveSamples = [], vWaveCount = 0, waveIndex = 0,
     vStreamPlayback = False, vIsrGapExpected = 0, vIsrGapLimit = 0, isrLastEntry = 0, vIsrGapPrimed = False,
     vMissedIsrCycles = 0\<rparr>"

lemma thermal_ceiling_enforced_witness:
  "unat (vIndexTargetQ15 (modRun (\<lambda>_ _. []) 600000000 150000000 [SetTarget 37000, Tick 0 0]
     (setThermalDerateMilli 500 bootModulator))) \<le> 37847 * 500 div 1000"
  using thermal_ceiling_enforced [of bootModulator "\<lambda>_ _. []" 600000000 150000000 "[SetTarget 37000, Tick 0 0]" 500]
  by (simp add: indexOk_def bootModulator_def isTracking_def)

section \<open>The load always ends\<close>

text \<open>The wait for LDOK returns as soon as an observation finds the bit clear or the time is up, and it gives
  the timer at least two periods.\<close>

lemma waitForLdok_returns:
  "ob \<in> set obs \<Longrightarrow> \<not> fst ob \<or> timeoutUs < snd ob - startUs \<Longrightarrow> waitForLdok timeoutUs startUs obs \<noteq> None"
proof (induction obs)
  case (Cons x obs)
  then show ?case by (cases x) (cases "ob = x"; cases "fst x"; simp del: not_None_eq)
qed simp

lemma waitForLdok_true: "waitForLdok timeoutUs startUs obs = Some True \<Longrightarrow> \<exists>now. (False, now) \<in> set obs"
  by (induction obs) (auto split: if_splits)

end
