(* ===== verification/Presets.thy ===== *)
theory Presets
  imports Config_Store "HOL-Library.Sublist"
begin

text \<open>
  \<open>src/src/preset_name.h\<close> and \<open>src/src/presets.cpp\<close>: named configurations on the SD card. Names arrive
  from the network and become file names; \<open>presetNameValid\<close> is the check that keeps them inside the
  presets directory. A preset is the configuration document with the secrets blanked;
  \<open>configApplyDocument\<close>, which settings import shares, applies such a document to the running device.

  The card is the library of \<open>Config_Store\<close> with folders and directory listings, and its file names
  differ in more than the case of letters (\<open>sameFile\<close>), as on a FAT volume: \<open>fatFiles\<close> is the file a
  path resolves to, with the spelling it is stored under. Strings are C strings without a null pointer. Each
  operation returns its error message, if any, and the disk after every step that changed it;
  \<open>sdRemoveOk\<close> is what a removal reports. What
  reaches the hardware is the list of calls \<open>configApplyDocument\<close> makes.
\<close>

section \<open>Names\<close>

definition PresetDir :: string where [const_defs]: "PresetDir = ''/presets''"
definition PresetNameMax :: nat where [const_defs]: "PresetNameMax = 32"
definition PresetPathMax :: nat where [const_defs]: "PresetPathMax = 64"

definition isAlnum :: "char \<Rightarrow> bool" where
  "isAlnum ch \<longleftrightarrow> code_of CHR ''a'' \<le> code_of ch \<and> code_of ch \<le> code_of CHR ''z''
     \<or> code_of CHR ''A'' \<le> code_of ch \<and> code_of ch \<le> code_of CHR ''Z''
     \<or> code_of CHR ''0'' \<le> code_of ch \<and> code_of ch \<le> code_of CHR ''9''"

text \<open>The scan of the name: \<open>n\<close> characters seen, the previous one \<open>prev\<close>; the result is the last
  character, when every character passed.\<close>

fun presetNameScan :: "nat \<Rightarrow> char \<Rightarrow> string \<Rightarrow> char option" where
  "presetNameScan n prev [] = Some prev"
| "presetNameScan n prev (ch # c) =
     (if n \<ge> PresetNameMax then None
      else if \<not> isAlnum ch \<and> ch \<noteq> CHR '' '' \<and> ch \<noteq> CHR ''_'' \<and> ch \<noteq> CHR ''-'' \<and> ch \<noteq> CHR ''.'' then None
      else if ch = CHR ''.'' \<and> prev = CHR ''.'' then None
      else presetNameScan (n + 1) ch c)"

definition presetNameValid :: "string \<Rightarrow> bool" where
  "presetNameValid name =
     (if cchar name 0 = NUL then False
      else if cchar name 0 = CHR ''.'' \<or> cchar name 0 = CHR '' '' then False
      else case presetNameScan 0 NUL name of None \<Rightarrow> False
        | Some prev \<Rightarrow> prev \<noteq> CHR '' '' \<and> prev \<noteq> CHR ''.'')"

text \<open>The copy loops of \<open>presetPath\<close>: append while a terminator still fits.\<close>

fun copyChars :: "nat \<Rightarrow> string \<Rightarrow> string \<Rightarrow> string option" where
  "copyChars bufSize out [] = Some out"
| "copyChars bufSize out (c # cs) =
     (if length out + 1 \<ge> bufSize then None else copyChars bufSize (out @ [c]) cs)"

definition presetPath :: "nat \<Rightarrow> string \<Rightarrow> string option" where
  "presetPath bufSize name =
     (if \<not> presetNameValid name then None
      else Option.bind (copyChars bufSize [] PresetDir) (\<lambda>out.
           Option.bind (copyChars bufSize out ''/'') (\<lambda>out.
           Option.bind (copyChars bufSize out name) (\<lambda>out.
           copyChars bufSize out ''.json''))))"

definition presetLower :: "char \<Rightarrow> char" where
  "presetLower c =
     (if code_of CHR ''A'' \<le> code_of c \<and> code_of c \<le> code_of CHR ''Z''
      then char_of (code_of c - code_of CHR ''A'' + code_of CHR ''a'') else c)"

fun presetNamesEqualFold :: "string \<Rightarrow> string \<Rightarrow> bool" where
  "presetNamesEqualFold (a # as) (b # bs) =
     (if presetLower a \<noteq> presetLower b then False else presetNamesEqualFold as bs)"
| "presetNamesEqualFold as bs \<longleftrightarrow> cchar as 0 = cchar bs 0"

definition presetNameFromFile :: "nat \<Rightarrow> string \<Rightarrow> string option" where
  "presetNameFromFile bufSize filename =
     (let len = length filename; extLen = 5 in
      if len \<le> extLen \<or> len - extLen \<ge> bufSize then None
      else if \<exists>i<extLen. presetLower (filename ! (len - extLen + i)) \<noteq> ''.json'' ! i then None
      else if len - extLen > PresetNameMax then None
      else let stem = take (len - extLen) filename in
        if presetNameValid stem then Some stem else None)"

section \<open>The card\<close>

record 'c PresetLib = "'c SdLib" +
  sdFolder :: "'c \<Rightarrow> string \<Rightarrow> bool"
  sdRemoveOk :: "'c \<Rightarrow> string \<Rightarrow> bool"
  sdMkdir :: "'c \<Rightarrow> string \<Rightarrow> bool \<times> 'c"
  sdEntries :: "'c \<Rightarrow> string \<Rightarrow> nat \<Rightarrow> (string option \<times> bool) list"
  fatFiles :: "'c \<Rightarrow> string \<Rightarrow> (string \<times> byte list) option"

definition presetForEach :: "('c, 'm) PresetLib_scheme \<Rightarrow> 'c \<Rightarrow> string list" where
  "presetForEach D disk =
     List.map_filter (\<lambda>(named, isDir). case named of
         Some fname \<Rightarrow> if isDir then None else presetNameFromFile (PresetNameMax + 1) fname
       | None \<Rightarrow> None)
       (sdEntries D disk PresetDir (PresetPathMax + 16))"

definition presetList :: "('c, 'm) PresetLib_scheme \<Rightarrow> bool \<Rightarrow> 'c \<Rightarrow> string list option" where
  "presetList D sdAvailable disk = (if sdAvailable then Some (presetForEach D disk) else None)"

text \<open>\<open>presetFind\<close>: the stored spelling of a name and whether it is the same, byte for byte; an exact
  hit ends the search.\<close>

fun presetSearch :: "string \<Rightarrow> string list \<Rightarrow> (string \<times> bool) option \<Rightarrow> (string \<times> bool) option" where
  "presetSearch wanted [] m = m"
| "presetSearch wanted (entry # es) m =
     (if presetNamesEqualFold entry wanted
      then (if entry = wanted then Some (entry, True) else presetSearch wanted es (Some (entry, False)))
      else presetSearch wanted es m)"

definition presetFind ::
    "('c, 'm) PresetLib_scheme \<Rightarrow> bool \<Rightarrow> 'c \<Rightarrow> string \<Rightarrow> (string \<times> bool) option" where
  "presetFind D sdAvailable disk name =
     (if sdAvailable then presetSearch name (presetForEach D disk) None else None)"

definition foundExact :: "(string \<times> bool) option \<Rightarrow> bool" where
  "foundExact m \<longleftrightarrow> (case m of Some (_, exact) \<Rightarrow> exact | None \<Rightarrow> False)"

section \<open>Saving, loading and deleting\<close>

definition presetStore :: "('c, 'm) PresetLib_scheme \<Rightarrow> string \<Rightarrow> string \<Rightarrow> 'c \<Rightarrow> string option \<times> 'c list" where
  "presetStore D tmp path disk =
     (let c1 = (if sdExists D disk path then sdRemove D disk path else disk);
          (renamed, c2) = sdRename D c1 tmp path in
      if renamed then (None, [c1, c2])
      else (Some ''failed to store the preset'', [c1, c2, sdRemove D c2 tmp]))"

definition presetWrite ::
    "('c, 'm) PresetLib_scheme \<Rightarrow> byte list \<Rightarrow> string \<Rightarrow> string \<Rightarrow> 'c \<Rightarrow> string option \<times> 'c list" where
  "presetWrite D text tmp path disk =
     (let c1 = (if sdExists D disk tmp then sdRemove D disk tmp else disk);
          (opened, c2) = sdCreate D c1 tmp in
      if \<not> opened then (Some ''cannot open the preset file'', [c1, c2])
      else let (written, c3) = sdWrite D c2 tmp text;
               sizeOk = (written > 0 \<and> map_option length (sdRead D c3 tmp) = Some written) in
        if \<not> sizeOk then (Some ''failed to write the preset'', [c1, c2, c3, sdRemove D c3 tmp])
        else let (err, after) = presetStore D tmp path c3 in (err, [c1, c2, c3] @ after))"

definition presetSave ::
    "('c, 'm) PresetLib_scheme \<Rightarrow> JsonLib \<Rightarrow> bool \<Rightarrow> MainConfig \<Rightarrow> string \<Rightarrow> 'c \<Rightarrow> string option \<times> 'c list" where
  "presetSave D J sdAvailable config name disk =
     (case presetPath PresetPathMax name of None \<Rightarrow> (Some ''invalid preset name'', [])
      | Some path \<Rightarrow>
          if \<not> sdAvailable then (Some ''no SD card'', [])
          else let (haveDir, c0) = (if sdFolder D disk PresetDir then (True, disk) else sdMkdir D disk PresetDir);
                   m = presetFind D sdAvailable c0 name in
            if \<not> haveDir then (Some ''cannot create the presets directory'', [c0])
            else if m \<noteq> None \<and> \<not> foundExact m
              then (Some ''a preset with this name (differing only in case) already exists'', [c0])
            else let tmp = take (PresetPathMax + 3) (path @ ''.tmp'');
                     text = serializeJson J (redactSecrets J (configToJson config));
                     (err, t) = presetWrite D text tmp path c0 in (err, c0 # t))"

datatype HwCall =
  DisablePwmInterrupts
| ApplyPwmConfig MainConfig MainConfig
| AttachModule2Vectors
| EnablePwmInterrupts

text \<open>What \<open>configApplyDocument\<close> reads of the running device: whether the carrier interrupt is required
  before and after the configuration is applied, and the fault latch afterwards.\<close>

record LiveView =
  intRequiredBefore :: bool
  intRequiredAfter :: bool
  faultAfter :: bool

record ApplyResult =
  applyError :: "string option"
  applyConfig :: MainConfig
  applyCalls :: "HwCall list"
  applySaveNeeded :: bool

definition applyRefused :: "string \<Rightarrow> MainConfig \<Rightarrow> ApplyResult" where
  "applyRefused err config =
     \<lparr>applyError = Some err, applyConfig = config, applyCalls = [], applySaveNeeded = False\<rparr>"

definition configApplyDocument :: "JsonLib \<Rightarrow> LiveView \<Rightarrow> MainConfig \<Rightarrow> json \<Rightarrow> ApplyResult" where
  "configApplyDocument J live config doc =
     (if \<not> configDocComplete J doc
      then applyRefused ''file is missing configuration sections (not a full settings export)'' config
      else let previous = config; candidate = restoreSecrets (configFromJson J doc defaultConfig) previous in
        case configApiRejectReason candidate of
          Some reason \<Rightarrow> applyRefused reason config
        | None \<Rightarrow>
            (let candidate = fst (validateConfig candidate) in
             if \<not> pvValid (validatePinOwnership candidate)
             then applyRefused ''configuration contains an invalid or conflicting pin assignment'' config
             else \<lparr>applyError = None, applyConfig = candidate,
               applyCalls = (if intRequiredBefore live then [DisablePwmInterrupts] else [])
                 @ [ApplyPwmConfig previous candidate]
                 @ (if intRequiredAfter live \<and> \<not> faultAfter live
                    then [AttachModule2Vectors, EnablePwmInterrupts] else []),
               applySaveNeeded = True\<rparr>))"

definition presetLoad ::
    "('c, 'm) PresetLib_scheme \<Rightarrow> JsonLib \<Rightarrow> bool \<Rightarrow> LiveView \<Rightarrow> MainConfig \<Rightarrow> string \<Rightarrow> 'c \<Rightarrow> ApplyResult" where
  "presetLoad D J sdAvailable live config name disk =
     (case presetPath PresetPathMax name of None \<Rightarrow> applyRefused ''invalid preset name'' config
      | Some path \<Rightarrow>
          if \<not> foundExact (presetFind D sdAvailable disk name) then applyRefused ''preset not found'' config
          else case sdRead D disk path of None \<Rightarrow> applyRefused ''cannot open the preset file'' config
          | Some text \<Rightarrow> (case deserializeJson J text of
              None \<Rightarrow> applyRefused ''preset file is not valid JSON'' config
            | Some doc \<Rightarrow> configApplyDocument J live config doc))"

definition presetDelete ::
    "('c, 'm) PresetLib_scheme \<Rightarrow> bool \<Rightarrow> string \<Rightarrow> 'c \<Rightarrow> string option \<times> 'c list" where
  "presetDelete D sdAvailable name disk =
     (case presetPath PresetPathMax name of None \<Rightarrow> (Some ''invalid preset name'', [])
      | Some path \<Rightarrow>
          if \<not> foundExact (presetFind D sdAvailable disk name) then (Some ''preset not found'', [])
          else if \<not> sdRemoveOk D disk path then (Some ''failed to delete the preset'', [sdRemove D disk path])
          else (None, [sdRemove D disk path]))"

section \<open>What names mean\<close>

definition nameChar :: "char \<Rightarrow> bool" where
  "nameChar ch \<longleftrightarrow> isAlnum ch \<or> ch = CHR '' '' \<or> ch = CHR ''_'' \<or> ch = CHR ''-'' \<or> ch = CHR ''.''"

lemma nameChar_not [simp]: "\<not> nameChar NUL" "\<not> nameChar CHR ''/''" "\<not> nameChar CHR 0x5C" "\<not> nameChar CHR '':''"
  by (simp_all add: nameChar_def isAlnum_def)

lemma presetNameScan_iff:
  "presetNameScan n prev c = Some l \<longleftrightarrow>
     (c \<noteq> [] \<longrightarrow> n + length c \<le> 32) \<and> (\<forall>ch\<in>set c. nameChar ch) \<and> \<not> sublist ''..'' (prev # c) \<and> l = last (prev # c)"
proof (induction n prev c rule: presetNameScan.induct)
  case (1 n prev)
  then show ?case by (auto simp: sublist_Cons_right)
next
  case (2 n prev ch c)
  have s: "sublist ''..'' (prev # ch # c) \<longleftrightarrow> prev = CHR ''.'' \<and> ch = CHR ''.'' \<or> sublist ''..'' (ch # c)"
    by (auto simp: sublist_Cons_right [of _ prev])
  show ?case
  proof (cases "n < 32 \<and> nameChar ch \<and> \<not> (prev = CHR ''.'' \<and> ch = CHR ''.'')")
    case True
    then have g: "\<not> n \<ge> PresetNameMax" "\<not> (\<not> isAlnum ch \<and> ch \<noteq> CHR '' '' \<and> ch \<noteq> CHR ''_'' \<and> ch \<noteq> CHR ''-''
        \<and> ch \<noteq> CHR ''.'')" "\<not> (ch = CHR ''.'' \<and> prev = CHR ''.'')"
      by (auto simp: const_defs nameChar_def)
    have "presetNameScan n prev (ch # c) = presetNameScan (n + 1) ch c" using g by (simp only: presetNameScan.simps if_False)
    then show ?thesis using "2.IH" [OF g] True s by (auto simp: Suc_le_eq)
  next
    case False
    then have "presetNameScan n prev (ch # c) = None" by (auto simp: const_defs nameChar_def)
    then show ?thesis using False s by auto
  qed
qed

definition nameOk :: "string \<Rightarrow> bool" where
  "nameOk name \<longleftrightarrow> name \<noteq> [] \<and> length name \<le> 32 \<and> (\<forall>ch\<in>set name. nameChar ch) \<and> \<not> sublist ''..'' name
     \<and> hd name \<notin> {CHR ''.'', CHR '' ''} \<and> last name \<notin> {CHR ''.'', CHR '' ''}"

lemma presetNameValid_iff: "presetNameValid name \<longleftrightarrow> nameOk name"
proof (cases name)
  case (Cons ch c)
  have s: "sublist ''..'' (NUL # name) \<longleftrightarrow> sublist ''..'' name" by (simp add: sublist_Cons_right [of _ NUL])
  have scan: "presetNameScan 0 NUL name = Some (last name) \<longleftrightarrow>
      length name \<le> 32 \<and> (\<forall>ch\<in>set name. nameChar ch) \<and> \<not> sublist ''..'' name"
    using presetNameScan_iff [of 0 NUL name "last name"] s Cons by simp
  have f: "cchar name 0 = hd name" "name \<noteq> []" using Cons by simp_all
  show ?thesis
  proof (cases "presetNameScan 0 NUL name")
    case None
    then have "\<not> presetNameValid name" by (simp add: presetNameValid_def)
    moreover have "\<not> nameOk name" using scan None by (auto simp: nameOk_def)
    ultimately show ?thesis by simp
  next
    case (Some l)
    then have l: "l = last name" using presetNameScan_iff [of 0 NUL name l] Cons by simp
    then have ok: "length name \<le> 32 \<and> (\<forall>ch\<in>set name. nameChar ch) \<and> \<not> sublist ''..'' name"
      using scan Some by simp
    moreover have "hd name \<in> set name" using f by simp
    ultimately have "hd name \<noteq> NUL" by (metis nameChar_not(1))
    then show ?thesis using ok f l Some by (auto simp: presetNameValid_def nameOk_def)
  qed
qed (simp add: presetNameValid_def nameOk_def)

lemma nameOk_no_NUL: "nameOk name \<Longrightarrow> NUL \<notin> set name"
  by (auto simp: nameOk_def)

lemma copyChars_fits:
  "copyChars bufSize out cs = (if cs = [] \<or> length out + length cs < bufSize then Some (out @ cs) else None)"
  by (induction bufSize out cs rule: copyChars.induct) auto

lemma presetPath_eq:
  "presetPath PresetPathMax name = (if nameOk name then Some (''/presets/'' @ name @ ''.json'') else None)"
proof (cases "nameOk name")
  case True
  then have "length name \<le> 32" by (simp add: nameOk_def)
  then show ?thesis using True
    by (simp add: presetPath_def presetNameValid_iff copyChars_fits PresetDir_def PresetPathMax_def)
qed (simp add: presetPath_def presetNameValid_iff)

definition foldName :: "string \<Rightarrow> string" where "foldName s = map presetLower s"

lemma code_presetLower:
  "code_of (presetLower c) = (if 65 \<le> code_of c \<and> code_of c \<le> 90 then code_of c + 32 else code_of c)"
  by (simp add: presetLower_def)

lemma code_0: "c = NUL \<longleftrightarrow> code_of c = 0"
  by (cases "c = NUL") (simp_all add: of_char_eq_iff [symmetric, of c NUL, where 'a = nat])

lemma presetLower_NUL [simp]: "presetLower c = NUL \<longleftrightarrow> c = NUL"
  by (simp add: code_0 code_presetLower)

lemma code_small_letters: "code_of (presetLower c) \<noteq> code_of d \<Longrightarrow> presetLower c \<noteq> d"
  by auto

lemma foldName_simps [simp]:
  "foldName [] = []" "foldName (c # s) = presetLower c # foldName s" "length (foldName s) = length s"
  "foldName (s @ t) = foldName s @ foldName t"
  by (simp_all add: foldName_def)

lemma presetNamesEqualFold_iff:
  "NUL \<notin> set a \<Longrightarrow> NUL \<notin> set b \<Longrightarrow> presetNamesEqualFold a b \<longleftrightarrow> foldName a = foldName b"
proof (induction a arbitrary: b)
  case Nil
  then show ?case by (cases b) auto
next
  case (Cons c a)
  then show ?case by (cases b) auto
qed

lemma nth_tail_eq:
  "length u = n \<Longrightarrow> n \<le> length s \<Longrightarrow>
    (\<exists>i<n. f (s ! (length s - n + i)) \<noteq> u ! i) \<longleftrightarrow> map f (drop (length s - n) s) \<noteq> u"
  by (auto simp: list_eq_iff_nth_eq)

lemma presetNameFromFile_iff:
  "presetNameFromFile (PresetNameMax + 1) f = Some n \<longleftrightarrow>
     nameOk n \<and> (\<exists>e. f = n @ e \<and> foldName e = ''.json'')"
proof
  assume l: "presetNameFromFile (PresetNameMax + 1) f = Some n"
  then have len: "5 < length f" by (auto simp: presetNameFromFile_def Let_def split: if_splits)
  have "foldName (drop (length f - 5) f) = ''.json''"
    using l nth_tail_eq [of "''.json''" 5 f presetLower] len
    by (auto simp: presetNameFromFile_def Let_def foldName_def split: if_splits)
  moreover have "n = take (length f - 5) f" "nameOk n"
    using l by (auto simp: presetNameFromFile_def Let_def presetNameValid_iff split: if_splits)
  ultimately show "nameOk n \<and> (\<exists>e. f = n @ e \<and> foldName e = ''.json'')"
    by (metis append_take_drop_id)
next
  assume "nameOk n \<and> (\<exists>e. f = n @ e \<and> foldName e = ''.json'')"
  then obtain e where n: "nameOk n" "length n \<le> 32" "n \<noteq> []" and e: "f = n @ e" "foldName e = ''.json''"
    by (auto simp: nameOk_def)
  have "length e = 5" using arg_cong [OF e(2), of length] by simp
  moreover have "\<not> (\<exists>i<5. presetLower (f ! (length f - 5 + i)) \<noteq> ''.json'' ! i)"
    using nth_tail_eq [of "''.json''" 5 f presetLower] e calculation by (simp add: foldName_def)
  ultimately show "presetNameFromFile (PresetNameMax + 1) f = Some n"
    using n e by (simp add: presetNameFromFile_def Let_def presetNameValid_iff PresetNameMax_def)
qed

section \<open>What the card promises\<close>

definition sameFile :: "string \<Rightarrow> string \<Rightarrow> bool" where
  "sameFile p q \<longleftrightarrow> foldName p = foldName q"

lemma sameFile_simps [simp]: "sameFile p p"
  "sameFile (u @ p) (u @ q) \<longleftrightarrow> sameFile p q" "length p = length q \<Longrightarrow> sameFile (p @ u) (q @ u) \<longleftrightarrow> sameFile p q"
  by (auto simp: sameFile_def)

lemma presetLower_json [simp]:
  "presetLower CHR ''.'' = CHR ''.''" "presetLower CHR ''j'' = CHR ''j''" "presetLower CHR ''s'' = CHR ''s''"
  "presetLower CHR ''o'' = CHR ''o''" "presetLower CHR ''n'' = CHR ''n''"
  by (simp_all add: presetLower_def)

lemma foldName_json: "foldName ''.json'' = ''.json''"
  by simp

lemma isAlnum_fold: "presetLower c = presetLower d \<Longrightarrow> isAlnum c = isAlnum d"
proof -
  assume "presetLower c = presetLower d"
  then have "code_of (presetLower c) = code_of (presetLower d)" by simp
  then show ?thesis by (auto simp: code_presetLower isAlnum_def split: if_splits)
qed

lemma presetLower_other: "\<not> isAlnum d \<Longrightarrow> presetLower c = presetLower d \<longleftrightarrow> c = d"
proof -
  assume d: "\<not> isAlnum d"
  have "presetLower c = presetLower d \<longleftrightarrow> code_of (presetLower c) = code_of (presetLower d)"
    by (simp only: of_char_eq_iff)
  also have "\<dots> \<longleftrightarrow> code_of c = code_of d" using d by (auto simp: code_presetLower isAlnum_def)
  finally show ?thesis by (simp only: of_char_eq_iff)
qed

lemma foldName_split:
  "foldName s = foldName n @ t \<Longrightarrow> \<exists>m e. s = m @ e \<and> foldName m = foldName n \<and> foldName e = t"
proof -
  assume "foldName s = foldName n @ t"
  then obtain us vs where "s = us @ vs" "foldName us = foldName n" "foldName vs = t"
    unfolding foldName_def by (metis map_eq_append_conv)
  then show ?thesis by blast
qed

lemma dots_fold:
  assumes "foldName m = foldName n" "sublist ''..'' m" shows "sublist ''..'' n"
proof -
  obtain a b where "m = a @ ''..'' @ b" using assms(2) by (auto simp: sublist_def)
  then have "map presetLower n = foldName a @ foldName ''..'' @ foldName b" using assms(1) by (simp add: foldName_def)
  then obtain a' r where r: "n = a' @ r" "map presetLower r = foldName ''..'' @ foldName b"
    by (metis map_eq_append_conv)
  then obtain d b' where d: "r = d @ b'" "map presetLower d = foldName ''..''"
    by (metis map_eq_append_conv)
  have "\<not> isAlnum CHR ''.''" by (simp add: isAlnum_def)
  from presetLower_other [OF this] have "d = ''..''" using d(2) by (auto simp: map_eq_Cons_conv)
  then show ?thesis using r d by (auto simp: sublist_def)
qed

lemma nameOk_fold:
  assumes e: "foldName m = foldName n" shows "nameOk m = nameOk n"
proof -
  have len: "length m = length n" using arg_cong [OF e, of length] by simp
  have c: "presetLower (m ! i) = presetLower (n ! i)" if "i < length n" for i
    using arg_cong [OF e, of "\<lambda>s. s ! i"] that len by (simp add: foldName_def)
  have sp: "\<not> isAlnum CHR ''.''" "\<not> isAlnum CHR '' ''" "\<not> isAlnum CHR ''_''" "\<not> isAlnum CHR ''-''"
    by (simp_all add: isAlnum_def)
  have eq: "m ! i = d \<longleftrightarrow> n ! i = d" if "i < length n" "\<not> isAlnum d" for i d
    using presetLower_other [OF that(2), of "m ! i"] presetLower_other [OF that(2), of "n ! i"] c [OF that(1)] by simp
  have ch: "nameChar (m ! i) = nameChar (n ! i)" if "i < length n" for i
    using eq [OF that sp(1)] eq [OF that sp(2)] eq [OF that sp(3)] eq [OF that sp(4)] isAlnum_fold [OF c [OF that]]
    by (simp add: nameChar_def)
  have all: "(\<forall>ch\<in>set m. nameChar ch) = (\<forall>ch\<in>set n. nameChar ch)"
    using ch len by (simp add: all_set_conv_all_nth)
  have dots: "sublist ''..'' m = sublist ''..'' n" using dots_fold e by metis
  show ?thesis
  proof (cases "n = []")
    case False
    then have "m \<noteq> []" using len by auto
    then have ends: "hd m = m ! 0" "hd n = n ! 0" "last m = m ! (length n - 1)" "last n = n ! (length n - 1)"
      using len False by (simp_all add: hd_conv_nth last_conv_nth)
    have "0 < length n" "length n - 1 < length n" using False by auto
    from eq [OF this(1) sp(1)] eq [OF this(1) sp(2)] eq [OF this(2) sp(1)] eq [OF this(2) sp(2)]
    show ?thesis using all dots len False by (auto simp: nameOk_def ends)
  qed (use len in \<open>simp add: nameOk_def\<close>)
qed

text \<open>The last component of a path.\<close>

definition fileName :: "string \<Rightarrow> string" where
  "fileName s = rev (takeWhile (\<lambda>c. c \<noteq> CHR ''/'') (rev s))"

lemma presetLower_slash [simp]: "presetLower c = CHR ''/'' \<longleftrightarrow> c = CHR ''/''" "CHR ''/'' = presetLower c \<longleftrightarrow> c = CHR ''/''"
proof -
  have "presetLower c = CHR ''/'' \<longleftrightarrow> code_of (presetLower c) = code_of CHR ''/''"
    by (simp only: of_char_eq_iff)
  also have "\<dots> \<longleftrightarrow> code_of c = code_of CHR ''/''" by (simp add: code_presetLower)
  also have "\<dots> \<longleftrightarrow> c = CHR ''/''" by (simp only: of_char_eq_iff)
  finally show *: "presetLower c = CHR ''/'' \<longleftrightarrow> c = CHR ''/''" .
  then show "CHR ''/'' = presetLower c \<longleftrightarrow> c = CHR ''/''" by (metis (full_types))
qed

lemma slash_foldName [simp]: "CHR ''/'' \<in> set (foldName s) \<longleftrightarrow> CHR ''/'' \<in> set s"
  by (induction s) auto

lemma fileName_resolved:
  assumes "sameFile s (d @ ''/'' @ f)" "CHR ''/'' \<notin> set f"
  shows "fileName s = drop (Suc (length d)) s" "foldName (fileName s) = foldName f"
proof -
  have len: "length s = length d + 1 + length f"
    using arg_cong [OF assms(1) [unfolded sameFile_def], of length] by simp
  define u v where "u = take (length d) s" and "v = drop (length d) s"
  have s: "s = u @ v" "length u = length d" using len by (simp_all add: u_def v_def)
  have "foldName u @ foldName v = foldName d @ foldName (''/'' @ f)"
    using assms(1) s by (simp add: sameFile_def)
  then have v: "foldName v = foldName (''/'' @ f)" using s(2) by (simp add: append_eq_append_conv)
  then obtain c w where w: "v = c # w" "foldName w = foldName f" "c = CHR ''/''"
  proof (cases v)
    case (Cons c w)
    have "presetLower CHR ''/'' = CHR ''/''" by (simp only: presetLower_slash)
    then have "presetLower c = CHR ''/''" "foldName w = foldName f" using v Cons by simp_all
    then show ?thesis using that Cons by simp
  qed simp
  have "CHR ''/'' \<notin> set w" using assms(2) w(2) by (metis slash_foldName)
  then have tw: "takeWhile (\<lambda>c. c \<noteq> CHR ''/'') (rev w) = rev w"
    by (intro takeWhile_eq_all_conv [THEN iffD2]) auto
  have "rev s = rev w @ CHR ''/'' # rev u" using s w by simp
  then have "takeWhile (\<lambda>c. c \<noteq> CHR ''/'') (rev s) = rev w"
    by (simp only: takeWhile_tail [of "\<lambda>c. c \<noteq> CHR ''/''" "CHR ''/''", simplified] tw)
  then have "fileName s = w" by (simp only: fileName_def rev_rev_ident)
  then show "fileName s = drop (Suc (length d)) s" "foldName (fileName s) = foldName f"
    using s w by simp_all
qed

text \<open>A preset is on the card under this very name, letter for letter.\<close>

definition storedAs :: "('c, 'm) PresetLib_scheme \<Rightarrow> 'c \<Rightarrow> string \<Rightarrow> bool" where
  "storedAs D c n \<longleftrightarrow> (\<exists>s bs. fatFiles D c (''/presets/'' @ n @ ''.json'') = Some (s, bs)
     \<and> take (length n) (fileName s) = n)"

locale fat_card =
  fixes D :: "('c, 'm) PresetLib_scheme"
  assumes spelling: "fatFiles D c p = Some (s, bs) \<Longrightarrow> sameFile s p"
    and same_path: "sameFile p q \<Longrightarrow> fatFiles D c p = fatFiles D c q"
    and exists_fat: "sdExists D c p \<longleftrightarrow> fatFiles D c p \<noteq> None"
    and read_fat: "sdRead D c p = map_option snd (fatFiles D c p)"
    and remove_fat: "fatFiles D (sdRemove D c p) q
          = (if sdRemoveOk D c p \<and> sameFile q p then None else fatFiles D c q)"
    and rename_fat: "sdRename D c p q = (ok, c') \<Longrightarrow>
          (if ok then \<exists>old. fatFiles D c p = Some old \<and> (sameFile p q \<or> fatFiles D c q = None) \<and>
             (\<forall>x. fatFiles D c' x = (if sameFile x q then Some (q, snd old)
                 else if sameFile x p then None else fatFiles D c x))
           else fatFiles D c' = fatFiles D c)"
    and create_fat: "sdCreate D c p = (ok, c') \<Longrightarrow>
          fatFiles D c' x = (if ok \<and> fatFiles D c p = None \<and> sameFile x p then Some (p, []) else fatFiles D c x)"
    and write_fat: "sdWrite D c p bs = (n, c') \<Longrightarrow> fatFiles D c p = Some (s, old) \<Longrightarrow>
          n \<le> length bs \<and> (\<forall>x. fatFiles D c' x = (if sameFile x p then Some (s, old @ take n bs) else fatFiles D c x))"
    and mkdir_fat: "sdMkdir D c p = (ok, c') \<Longrightarrow> fatFiles D c' = fatFiles D c"
    and entries_fat: "(Some f, False) \<in> set (sdEntries D c p m) \<longleftrightarrow>
          length f < m \<and> (\<exists>s bs. fatFiles D c (p @ ''/'' @ f) = Some (s, bs) \<and> fileName s = f)"

lemma set_map_filter: "set (List.map_filter f xs) = {y. \<exists>x\<in>set xs. f x = Some y}"
  by (force simp: List.map_filter_def image_iff)

context fat_card
begin

text \<open>The names listed are the valid ones of the presets on the card, as they are spelled there.\<close>

lemma listed_iff:
  "n \<in> set (presetForEach D c) \<longleftrightarrow> nameOk n \<and> (\<exists>e s bs. foldName e = ''.json''
     \<and> fatFiles D c (''/presets/'' @ n @ e) = Some (s, bs) \<and> fileName s = n @ e)"
proof -
  have "n \<in> set (presetForEach D c) \<longleftrightarrow>
      (\<exists>f. (Some f, False) \<in> set (sdEntries D c PresetDir (PresetPathMax + 16))
        \<and> presetNameFromFile (PresetNameMax + 1) f = Some n)"
    unfolding presetForEach_def set_map_filter by (auto split: option.splits if_splits intro: bexI [rotated])
  also have "\<dots> \<longleftrightarrow> nameOk n \<and> (\<exists>e. foldName e = ''.json''
      \<and> (Some (n @ e), False) \<in> set (sdEntries D c PresetDir (PresetPathMax + 16)))"
    unfolding presetNameFromFile_iff by auto
  finally have l: "n \<in> set (presetForEach D c) \<longleftrightarrow> nameOk n \<and> (\<exists>e. foldName e = ''.json''
      \<and> (Some (n @ e), False) \<in> set (sdEntries D c PresetDir (PresetPathMax + 16)))" .
  have "length (n @ e) < PresetPathMax + 16" if "nameOk n" "foldName e = ''.json''" for e
    using that(1) arg_cong [OF that(2), of length] by (simp add: nameOk_def const_defs)
  then show ?thesis unfolding l entries_fat by (auto simp: PresetDir_def)
qed


text \<open>A name that resolves to a file is in the list, under its stored spelling.\<close>

lemma resolves_iff:
  assumes "nameOk n"
  shows "fatFiles D c (''/presets/'' @ n @ ''.json'') \<noteq> None \<longleftrightarrow> (\<exists>e\<in>set (presetForEach D c). foldName e = foldName n)"
    and "n \<in> set (presetForEach D c) \<longleftrightarrow>
      (\<exists>s bs. fatFiles D c (''/presets/'' @ n @ ''.json'') = Some (s, bs) \<and> take (length n) (fileName s) = n)"
proof -
  have same: "fatFiles D c (''/presets/'' @ m @ e) = fatFiles D c (''/presets/'' @ n @ ''.json'')"
    if "foldName m = foldName n" "foldName e = ''.json''" for m e
    using that by (intro same_path) (simp add: sameFile_def foldName_json)
  have slash: "CHR ''/'' \<notin> set n" using assms by (auto simp: nameOk_def)
  have stored: "\<exists>m e. fileName s = m @ e \<and> length m = length n \<and> foldName m = foldName n \<and> foldName e = ''.json''"
    if "fatFiles D c (''/presets/'' @ n @ ''.json'') = Some (s, bs)" for s bs
  proof -
    have "foldName (fileName s) = foldName n @ ''.json''"
      using fileName_resolved(2) [of s "''/presets''" "n @ ''.json''"] spelling [OF that] slash
      by (simp add: foldName_json)
    then obtain m e where "fileName s = m @ e" "foldName m = foldName n" "foldName e = ''.json''"
      using foldName_split by blast
    moreover have "length m = length n" using arg_cong [OF calculation(2), of length] by simp
    ultimately show ?thesis by blast
  qed
  show "fatFiles D c (''/presets/'' @ n @ ''.json'') \<noteq> None \<longleftrightarrow> (\<exists>e\<in>set (presetForEach D c). foldName e = foldName n)"
  proof
    assume "fatFiles D c (''/presets/'' @ n @ ''.json'') \<noteq> None"
    then obtain s bs where f: "fatFiles D c (''/presets/'' @ n @ ''.json'') = Some (s, bs)" by auto
    from stored [OF f] obtain m e where m: "fileName s = m @ e" "foldName m = foldName n" "foldName e = ''.json''"
      by blast
    have "m \<in> set (presetForEach D c)"
      unfolding listed_iff
    proof (intro conjI exI)
      show "nameOk m" using nameOk_fold [OF m(2)] assms by simp
      show "fatFiles D c (''/presets/'' @ m @ e) = Some (s, bs)" unfolding same [OF m(2,3)] by (rule f)
    qed (use m in simp_all)
    then show "\<exists>e\<in>set (presetForEach D c). foldName e = foldName n" using m(2) by blast
  next
    assume "\<exists>e\<in>set (presetForEach D c). foldName e = foldName n"
    then obtain m where "m \<in> set (presetForEach D c)" "foldName m = foldName n" by blast
    then obtain e s bs where m: "foldName m = foldName n" "foldName e = ''.json''"
      "fatFiles D c (''/presets/'' @ m @ e) = Some (s, bs)"
      unfolding listed_iff by blast
    show "fatFiles D c (''/presets/'' @ n @ ''.json'') \<noteq> None"
      unfolding same [OF m(1,2), symmetric] m(3) by simp
  qed
  show "n \<in> set (presetForEach D c) \<longleftrightarrow>
      (\<exists>s bs. fatFiles D c (''/presets/'' @ n @ ''.json'') = Some (s, bs) \<and> take (length n) (fileName s) = n)"
    (is "?l \<longleftrightarrow> ?r")
  proof
    assume ?l
    then obtain e s bs where e: "foldName e = ''.json''" "fatFiles D c (''/presets/'' @ n @ e) = Some (s, bs)"
      "fileName s = n @ e"
      unfolding listed_iff by blast
    show ?r unfolding same [OF refl e(1), symmetric] e(2) by (simp add: e(3))
  next
    assume ?r
    then obtain s bs where f: "fatFiles D c (''/presets/'' @ n @ ''.json'') = Some (s, bs)"
      "take (length n) (fileName s) = n" by blast
    from stored [OF f(1)] obtain m e where m: "fileName s = m @ e" "length m = length n" "foldName e = ''.json''"
      by blast
    then have "fileName s = n @ e" using f(2) by simp
    then show ?l unfolding listed_iff
    proof (intro conjI exI)
      show "fatFiles D c (''/presets/'' @ n @ e) = Some (s, bs)" unfolding same [OF refl m(3)] by (rule f(1))
    qed (use assms m(3) in simp_all)
  qed
qed


lemma presetSearch_iff:
  assumes "NUL \<notin> set w" "\<And>e. e \<in> set es \<Longrightarrow> NUL \<notin> set e"
  shows "presetSearch w es m \<noteq> None \<longleftrightarrow> m \<noteq> None \<or> (\<exists>e\<in>set es. foldName e = foldName w)"
    and "\<not> foundExact m \<Longrightarrow> foundExact (presetSearch w es m) \<longleftrightarrow> w \<in> set es"
  using assms(2)
  by (induction es arbitrary: m) (auto simp: presetNamesEqualFold_iff assms(1) foundExact_def)

lemma listed_no_NUL: "e \<in> set (presetForEach D c) \<Longrightarrow> NUL \<notin> set e"
  by (auto simp: listed_iff nameOk_no_NUL)

lemma presetFind_iff:
  assumes "nameOk n"
  shows "presetFind D True c n \<noteq> None \<longleftrightarrow> fatFiles D c (''/presets/'' @ n @ ''.json'') \<noteq> None"
    and "foundExact (presetFind D True c n) \<longleftrightarrow> storedAs D c n"
proof -
  have l: "NUL \<notin> set e" if "e \<in> set (presetForEach D c)" for e using that by (rule listed_no_NUL)
  note s = presetSearch_iff [of n "presetForEach D c" None, OF nameOk_no_NUL [OF assms] l, simplified]
  show "presetFind D True c n \<noteq> None \<longleftrightarrow> fatFiles D c (''/presets/'' @ n @ ''.json'') \<noteq> None"
    unfolding resolves_iff(1) [OF assms] using s(1) by (simp add: presetFind_def)
  show "foundExact (presetFind D True c n) \<longleftrightarrow> storedAs D c n"
    unfolding storedAs_def resolves_iff(2) [OF assms, symmetric] using s(2)
    by (simp add: presetFind_def foundExact_def)
qed


lemma take_fits:
  assumes "b @ take (length z) u = z" "length z \<le> length u" shows "z = take (length z) u"
proof -
  have "length b + length (take (length z) u) = length z" using arg_cong [OF assms(1), of length] by simp
  then have "b = []" using assms(2) by simp
  then show ?thesis using assms(1) by simp
qed

text \<open>Storing touches the two files only, and either puts the new bytes in place or has lost both.\<close>

lemma store_outcome:
  assumes "presetStore D tmp path c = (err, t)" "fatFiles D c tmp = Some (s, bs)" "\<not> sameFile path tmp"
  shows "t \<noteq> []"
    and "x \<in> set t \<Longrightarrow> \<not> sameFile q path \<Longrightarrow> \<not> sameFile q tmp \<Longrightarrow> fatFiles D x q = fatFiles D c q"
    and "err = None \<Longrightarrow> fatFiles D (last t) path = Some (path, bs)"
    and "err \<noteq> None \<Longrightarrow> err = Some ''failed to store the preset''"
    and "err \<noteq> None \<Longrightarrow> (\<And>y p. fatFiles D y p \<noteq> None \<Longrightarrow> sdRemoveOk D y p) \<Longrightarrow> fatFiles D (last t) path = None"
proof -
  define c1 where "c1 = (if sdExists D c path then sdRemove D c path else c)"
  obtain renamed c2 where r: "sdRename D c1 tmp path = (renamed, c2)" by force
  have et: "(err, t) = (if renamed then (None, [c1, c2])
      else (Some ''failed to store the preset'', [c1, c2, sdRemove D c2 tmp]))"
    unfolding assms(1) [symmetric] presetStore_def c1_def [symmetric] Let_def r prod.case by (rule refl)
  have tmp: "\<not> sameFile tmp path" using assms(3) by (simp add: sameFile_def)
  have c1: "fatFiles D c1 y = (if sameFile y path \<and> fatFiles D c path \<noteq> None \<and> sdRemoveOk D c path
      then None else fatFiles D c y)" for y
    by (auto simp: c1_def exists_fat remove_fat)
  then have t1: "fatFiles D c1 tmp = Some (s, bs)" using assms(2) tmp by simp
  note rn = rename_fat [OF r]
  show "t \<noteq> []" using et by (simp split: if_splits)
  show "fatFiles D x q = fatFiles D c q" if "x \<in> set t" "\<not> sameFile q path" "\<not> sameFile q tmp"
    using that et rn c1 [of q] by (auto simp: remove_fat split: if_splits)
  show "fatFiles D (last t) path = Some (path, bs)" if "err = None"
    using that et rn t1 by (auto split: if_splits)
  show "err = Some ''failed to store the preset''" if "err \<noteq> None"
    using that et by (simp split: if_splits)
  show "fatFiles D (last t) path = None"
    if "err \<noteq> None" "\<And>y p. fatFiles D y p \<noteq> None \<Longrightarrow> sdRemoveOk D y p"
  proof -
    have "fatFiles D c1 path = None" using c1 [of path] that(2) [of c path] by (cases "fatFiles D c path") auto
    then show ?thesis using that(1) et rn assms(3) by (auto simp: remove_fat split: if_splits)
  qed
qed

lemma write_outcome:
  assumes "presetWrite D text tmp path c = (err, t)" "\<not> sameFile path tmp"
  shows "t \<noteq> []"
    and "x \<in> set t \<Longrightarrow> \<not> sameFile q path \<Longrightarrow> \<not> sameFile q tmp \<Longrightarrow> fatFiles D x q = fatFiles D c q"
    and "err = None \<Longrightarrow> \<exists>k\<le>length text. 0 < k \<and> fatFiles D (last t) path = Some (path, take k text)"
    and "err \<noteq> None \<Longrightarrow> err \<noteq> Some ''failed to store the preset'' \<Longrightarrow> fatFiles D (last t) path = fatFiles D c path"
    and "err = Some ''failed to store the preset'' \<Longrightarrow>
      (\<And>y p. fatFiles D y p \<noteq> None \<Longrightarrow> sdRemoveOk D y p) \<Longrightarrow> fatFiles D (last t) path = None"
proof -
  define c1 where "c1 = (if sdExists D c tmp then sdRemove D c tmp else c)"
  obtain opened c2 where cr: "sdCreate D c1 tmp = (opened, c2)" by force
  obtain written c3 where wr: "sdWrite D c2 tmp text = (written, c3)" by force
  obtain err' t' where st: "presetStore D tmp path c3 = (err', t')" by force
  define sizeOk where "sizeOk \<longleftrightarrow> written > 0 \<and> map_option length (sdRead D c3 tmp) = Some written"
  have et: "(err, t) = (if \<not> opened then (Some ''cannot open the preset file'', [c1, c2])
      else if \<not> sizeOk then (Some ''failed to write the preset'', [c1, c2, c3, sdRemove D c3 tmp])
      else (err', [c1, c2, c3] @ t'))"
    unfolding assms(1) [symmetric] presetWrite_def c1_def [symmetric] Let_def cr wr st prod.case sizeOk_def
    by (rule refl)
  have c1: "fatFiles D c1 q = fatFiles D c q" if "\<not> sameFile q tmp" for q
    using that by (simp add: c1_def remove_fat)
  have c2: "fatFiles D c2 q = fatFiles D c q" if "\<not> sameFile q tmp" for q
    using that c1 create_fat [OF cr] by simp
  have c3: "fatFiles D c3 q = fatFiles D c q" if "\<not> sameFile q tmp" "opened" for q
    using that c2 [OF that(1)] write_fat [OF wr] create_fat [OF cr, of tmp]
    by (cases "fatFiles D c1 tmp") (auto split: if_splits)
  have new: "\<exists>s. fatFiles D c3 tmp = Some (s, take written text) \<and> 0 < written \<and> written \<le> length text"
    if "opened" "sizeOk"
    using that write_fat [OF wr] create_fat [OF cr, of tmp]
    by (cases "fatFiles D c1 tmp") (auto simp: sizeOk_def read_fat dest: take_fits split: if_splits)
  note so = store_outcome [OF st _ assms(2)]
  show "t \<noteq> []" using et by (simp split: if_splits)
  show "fatFiles D x q = fatFiles D c q" if "x \<in> set t" "\<not> sameFile q path" "\<not> sameFile q tmp"
    using that et c1 c2 c3 new so(2) [of _ _ x q] by (auto simp: remove_fat split: if_splits)
  show "\<exists>k\<le>length text. 0 < k \<and> fatFiles D (last t) path = Some (path, take k text)" if "err = None"
    using that et new so(1,3) by (fastforce split: if_splits)
  show "fatFiles D (last t) path = fatFiles D c path" if "err \<noteq> None" "err \<noteq> Some ''failed to store the preset''"
    using that et c2 c3 new so(4) assms(2) by (auto simp: remove_fat split: if_splits)
  show "fatFiles D (last t) path = None"
    if "err = Some ''failed to store the preset''" "\<And>y p. fatFiles D y p \<noteq> None \<Longrightarrow> sdRemoveOk D y p"
    using that et new so(1) so(5) [OF _ _ that(2)] by (fastforce split: if_splits)
qed


lemma presetSave_cases:
  assumes "nameOk n" "presetSave D J True cfg n disk = (err, t)"
  obtains (refused) x where "t = [x]" "fatFiles D x = fatFiles D disk"
      "err \<noteq> None" "err \<noteq> Some ''failed to store the preset''"
  | (written) c0 t' where "fatFiles D c0 = fatFiles D disk" "t = c0 # t'"
      "fatFiles D disk (''/presets/'' @ n @ ''.json'') = None \<or> storedAs D disk n"
      "presetWrite D (serializeJson J (redactSecrets J (configToJson cfg)))
         (''/presets/'' @ n @ ''.json.tmp'') (''/presets/'' @ n @ ''.json'') c0 = (err, t')"
proof -
  obtain haveDir c0 where d: "(if sdFolder D disk PresetDir then (True, disk) else sdMkdir D disk PresetDir) = (haveDir, c0)"
    by force
  then have c0: "fatFiles D c0 = fatFiles D disk" using mkdir_fat by (auto split: if_splits)
  define found where "found = presetFind D True c0 n"
  define doc where "doc = serializeJson J (redactSecrets J (configToJson cfg))"
  have len: "length n \<le> 32" using assms(1) by (simp add: nameOk_def)
  then have tmp: "take (PresetPathMax + 3) ((''/presets/'' @ n @ ''.json'') @ ''.tmp'') = ''/presets/'' @ n @ ''.json.tmp''"
    by (simp add: PresetPathMax_def)
  obtain err' t' where w: "presetWrite D doc (''/presets/'' @ n @ ''.json.tmp'') (''/presets/'' @ n @ ''.json'') c0 = (err', t')"
    by force
  have et: "(err, t) = (if \<not> haveDir then (Some ''cannot create the presets directory'', [c0])
      else if found \<noteq> None \<and> \<not> foundExact found
        then (Some ''a preset with this name (differing only in case) already exists'', [c0])
      else (err', c0 # t'))"
    unfolding assms(2) [symmetric] presetSave_def presetPath_eq if_P [OF assms(1)] option.case
      not_True_eq_False if_False Let_def d prod.case found_def [symmetric] doc_def [symmetric] tmp w
    by (rule refl)
  have st: "storedAs D c0 n = storedAs D disk n" by (simp add: storedAs_def c0)
  show thesis
  proof (cases "haveDir \<and> (found = None \<or> foundExact found)")
    case True
    then have "(err, t) = (err', c0 # t')" using et by auto
    moreover have "fatFiles D disk (''/presets/'' @ n @ ''.json'') = None \<or> storedAs D disk n"
      using True presetFind_iff [OF assms(1), of c0] by (auto simp: found_def c0 st)
    ultimately show thesis using written [OF c0] w by (simp add: doc_def)
  next
    case False
    then have "t = [c0]" "err \<noteq> None" "err \<noteq> Some ''failed to store the preset''"
      using et by (auto split: if_splits)
    then show thesis using refused c0 by blast
  qed
qed

lemma saved_prefix:
  assumes "nameOk n" "presetSave D J True cfg n disk = (None, t)"
  shows "\<exists>k\<le>length (serializeJson J (redactSecrets J (configToJson cfg))).
    fatFiles D (last t) (''/presets/'' @ n @ ''.json'')
      = Some (''/presets/'' @ n @ ''.json'', take k (serializeJson J (redactSecrets J (configToJson cfg))))"
  using assms
proof (cases rule: presetSave_cases)
  case (written c0 t')
  have "\<not> sameFile (''/presets/'' @ n @ ''.json'') (''/presets/'' @ n @ ''.json.tmp'')"
    by (simp add: sameFile_def)
  from write_outcome(1,3) [OF written(4) this] show ?thesis using written(2) by auto
qed simp

end

section \<open>Loading what was saved\<close>

lemma restore_settled: "settledConfig c \<Longrightarrow> settledConfig (restoreSecrets c p)"
proof -
  assume "settledConfig c"
  moreover have "carrierCeiling (restoreSecrets c p) = carrierCeiling c"
    by (simp add: carrierCeiling_def carrierInterruptRequired_def restoreSecrets_def)
  ultimately show ?thesis by (simp add: settledConfig_def restoreSecrets_def settledMqtt_def)
qed

lemma restore_stored: "restoreSecrets (storedConfig (readable (blankSecrets c))) p = storedConfig (readable (restoreSecrets c p))"
  by (simp add: restoreSecrets_def storedConfig_def readable_def blankSecrets_def mqttEndpointUnchanged_def
      influxEndpointUnchanged_def)

lemma restore_pins: "validatePinOwnership (restoreSecrets c p) = validatePinOwnership c"
  by (simp add: validatePinOwnership_def restoreSecrets_def pinClaims_def)

lemma restore_reject:
  "configApiRejectReason (storedConfig (readable (restoreSecrets c p))) = configApiRejectReason c"
  by (simp add: configApiRejectReason_def restoreSecrets_def storedConfig_def readable_def)

definition applied :: "LiveView \<Rightarrow> MainConfig \<Rightarrow> MainConfig \<Rightarrow> ApplyResult" where
  "applied live previous candidate = \<lparr>applyError = None, applyConfig = candidate,
     applyCalls = (if intRequiredBefore live then [DisablePwmInterrupts] else [])
       @ [ApplyPwmConfig previous candidate]
       @ (if intRequiredAfter live \<and> \<not> faultAfter live then [AttachModule2Vectors, EnablePwmInterrupts] else []),
     applySaveNeeded = True\<rparr>"

context json_library
begin

lemma apply_written:
  assumes "settledConfig c" "inBuffers c" "pvValid (validatePinOwnership c)" "configApiRejectReason c = None"
  shows "configApplyDocument J live p (redactSecrets J (configToJson c)) = applied live p (reloaded (restoreSecrets c p))"
proof -
  have j: "configFromJson J (configToJson (blankSecrets c)) defaultConfig = storedConfig (readable (blankSecrets c))"
    using assms by (intro configFromJson_written member_written) (simp_all add: blank_settled blank_inBuffers)
  have ok: "configDocComplete J (configToJson (blankSecrets c))"
    using written_doc_complete [OF member_written(1)] member_written(2) by blast
  have v: "fst (validateConfig (storedConfig (readable (restoreSecrets c p)))) = reloaded (restoreSecrets c p)"
    using validateConfig_readable restore_settled assms(1) by blast
  show ?thesis
    unfolding redact_written configApplyDocument_def applied_def
    by (simp add: ok j restore_stored restore_reject assms(3,4) v reloaded_pins restore_pins Let_def)
qed

end


locale preset_store = json_library J + fat_card D
  for J :: JsonLib and D :: "('c, 'm) PresetLib_scheme"
begin

lemma saved_storedAs:
  assumes "nameOk n" "fatFiles D c (''/presets/'' @ n @ ''.json'') = Some (''/presets/'' @ n @ ''.json'', bs)"
  shows "storedAs D c n"
proof -
  have "CHR ''/'' \<notin> set (n @ ''.json'')" using assms(1) by (auto simp: nameOk_def)
  from fileName_resolved(1) [OF _ this, of "''/presets/'' @ n @ ''.json''" "''/presets''"]
  have "fileName (''/presets/'' @ n @ ''.json'') = n @ ''.json''" by simp
  then have "take (length n) (fileName (''/presets/'' @ n @ ''.json'')) = n" by simp
  then show ?thesis using assms(2) unfolding storedAs_def by blast
qed

lemma load_stored:
  assumes "nameOk n" "fatFiles D c (''/presets/'' @ n @ ''.json'') = Some (''/presets/'' @ n @ ''.json'', bs)"
  shows "presetLoad D J True live p n c = (case deserializeJson J bs of
      None \<Rightarrow> applyRefused ''preset file is not valid JSON'' p | Some doc \<Rightarrow> configApplyDocument J live p doc)"
proof -
  have "foundExact (presetFind D True c n)"
    using presetFind_iff(2) [OF assms(1)] saved_storedAs [OF assms] by blast
  moreover have "sdRead D c (''/presets/'' @ n @ ''.json'') = Some bs" by (simp only: read_fat assms(2) option.map snd_conv)
  ultimately show ?thesis
    unfolding presetLoad_def presetPath_eq if_P [OF assms(1)] option.case by simp
qed

lemma load_saved:
  assumes "nameOk n" "settledConfig c" "inBuffers c" "pvValid (validatePinOwnership c)" "configApiRejectReason c = None"
    and "k \<le> length (serializeJson J (configToJson (blankSecrets c)))"
    and "fatFiles D x (''/presets/'' @ n @ ''.json'')
      = Some (''/presets/'' @ n @ ''.json'', take k (serializeJson J (configToJson (blankSecrets c))))"
  shows "presetLoad D J True live p n x =
    (if k = length (serializeJson J (configToJson (blankSecrets c))) then applied live p (reloaded (restoreSecrets c p))
     else applyRefused ''preset file is not valid JSON'' p)"
proof (cases "k = length (serializeJson J (configToJson (blankSecrets c)))")
  case True
  have "deserializeJson J (serializeJson J (configToJson (blankSecrets c))) = Some (configToJson (blankSecrets c))"
    by (simp add: configToJson_def parse_print)
  then show ?thesis
    unfolding load_stored [OF assms(1,7)] using True apply_written [OF assms(2-5), unfolded redact_written] by simp
next
  case False
  then have "deserializeJson J (take k (serializeJson J (configToJson (blankSecrets c)))) = None"
    using assms(6) unfolding configToJson_def by (intro parse_truncated) simp
  then show ?thesis unfolding load_stored [OF assms(1,7)] using False by simp
qed

end

section \<open>A card that keeps its promises\<close>

text \<open>An association list from folded paths to the stored spelling and the bytes; every write succeeds.\<close>

type_synonym fat = "(string \<times> string \<times> byte list) list"

definition fatLookup :: "fat \<Rightarrow> string \<Rightarrow> (string \<times> byte list) option" where
  "fatLookup c p = (case map_of c (foldName p) of
     Some (s, bs) \<Rightarrow> if foldName s = foldName p then Some (s, bs) else None | None \<Rightarrow> None)"

definition refFat :: "fat PresetLib" where
  "refFat = \<lparr>sdFiles = (\<lambda>c p. map_option snd (fatLookup c p)), sdExists = (\<lambda>c p. fatLookup c p \<noteq> None),
     sdRead = (\<lambda>c p. map_option snd (fatLookup c p)), sdRemove = (\<lambda>c p. AList.delete (foldName p) c),
     sdRename = (\<lambda>c p q. case fatLookup c p of None \<Rightarrow> (False, c)
       | Some (s, bs) \<Rightarrow> if sameFile p q \<or> fatLookup c q = None
           then (True, AList.update (foldName q) (q, bs) (AList.delete (foldName p) c)) else (False, c)),
     sdCreate = (\<lambda>c p. (True, if fatLookup c p = None then AList.update (foldName p) (p, []) c else c)),
     sdWrite = (\<lambda>c p bs. case fatLookup c p of None \<Rightarrow> (0, c)
       | Some (s, old) \<Rightarrow> (length bs, AList.update (foldName p) (s, old @ bs) c)),
     sdFolder = (\<lambda>_ _. True), sdRemoveOk = (\<lambda>c p. fatLookup c p \<noteq> None), sdMkdir = (\<lambda>c p. (True, c)),
     sdEntries = (\<lambda>c p m. map (\<lambda>(k, s, bs). (if length (fileName s) < m then Some (fileName s) else None, False))
       (filter (\<lambda>(k, s, bs). map_of c k = Some (s, bs) \<and> foldName s = k \<and> sameFile s (p @ ''/'' @ fileName s)) c)),
     fatFiles = fatLookup\<rparr>"

lemma refFat_simps [simp]:
  "fatFiles refFat = fatLookup" "sdRemoveOk refFat c p \<longleftrightarrow> fatLookup c p \<noteq> None"
  by (simp_all add: refFat_def)

lemma fatLookup_update:
  "foldName s = foldName p \<Longrightarrow>
    fatLookup (AList.update (foldName p) (s, bs) c) q = (if sameFile q p then Some (s, bs) else fatLookup c q)"
  by (simp add: fatLookup_def sameFile_def update_conv')

lemma fatLookup_delete:
  "fatLookup (AList.delete (foldName p) c) q = (if sameFile q p then None else fatLookup c q)"
  by (simp add: fatLookup_def sameFile_def delete_conv')

lemma fatLookup_same: "sameFile p q \<Longrightarrow> fatLookup c p = fatLookup c q"
  by (auto simp: fatLookup_def sameFile_def split: option.splits)

lemma fatLookup_spelling: "fatLookup c p = Some (s, bs) \<Longrightarrow> foldName s = foldName p"
  by (auto simp: fatLookup_def split: option.splits if_splits)

lemma refFat_entries:
  "(Some f, False) \<in> set (sdEntries refFat c p m) \<longleftrightarrow>
    length f < m \<and> (\<exists>s bs. fatLookup c (p @ ''/'' @ f) = Some (s, bs) \<and> fileName s = f)"
proof -
  have "(Some f, False) \<in> set (sdEntries refFat c p m) \<longleftrightarrow> length f < m \<and>
      (\<exists>k s bs. (k, s, bs) \<in> set c \<and> map_of c k = Some (s, bs) \<and> foldName s = k \<and> sameFile s (p @ ''/'' @ f) \<and> fileName s = f)"
    by (force simp: refFat_def image_iff split: if_splits)
  also have "(\<exists>k s bs. (k, s, bs) \<in> set c \<and> map_of c k = Some (s, bs) \<and> foldName s = k \<and> sameFile s (p @ ''/'' @ f) \<and> fileName s = f)
      \<longleftrightarrow> (\<exists>s bs. fatLookup c (p @ ''/'' @ f) = Some (s, bs) \<and> fileName s = f)"
    by (fastforce simp: fatLookup_def sameFile_def dest: map_of_SomeD split: option.splits if_splits)
  finally show ?thesis .
qed

interpretation refFat: fat_card refFat
proof
  fix c c' :: fat and p q s f :: string and bs old :: "byte list" and ok :: bool and n m :: nat
  show "fatFiles refFat c p = Some (s, bs) \<Longrightarrow> sameFile s p"
    by (simp add: sameFile_def fatLookup_spelling)
  show "sameFile p q \<Longrightarrow> fatFiles refFat c p = fatFiles refFat c q"
    unfolding refFat_simps by (rule fatLookup_same)
  show "sdExists refFat c p \<longleftrightarrow> fatFiles refFat c p \<noteq> None" "sdRead refFat c p = map_option snd (fatFiles refFat c p)"
    by (simp_all add: refFat_def)
  have gone: "fatLookup c p = None \<Longrightarrow> sameFile q p \<Longrightarrow> fatLookup c q = None"
    using fatLookup_same by metis
  show "fatFiles refFat (sdRemove refFat c p) q
      = (if sdRemoveOk refFat c p \<and> sameFile q p then None else fatFiles refFat c q)"
    using gone by (cases "fatLookup c p") (auto simp: refFat_def fatLookup_delete)
  show "sdMkdir refFat c p = (ok, c') \<Longrightarrow> fatFiles refFat c' = fatFiles refFat c"
    by (simp add: refFat_def)
  show "(Some f, False) \<in> set (sdEntries refFat c p m) \<longleftrightarrow>
      length f < m \<and> (\<exists>s bs. fatFiles refFat c (p @ ''/'' @ f) = Some (s, bs) \<and> fileName s = f)"
    using refFat_entries by simp
  show "fatFiles refFat c' q = (if ok \<and> fatFiles refFat c p = None \<and> sameFile q p then Some (p, []) else fatFiles refFat c q)"
    if "sdCreate refFat c p = (ok, c')"
    using that by (auto simp: refFat_def fatLookup_update)
  show "n \<le> length bs \<and> (\<forall>x. fatFiles refFat c' x = (if sameFile x p then Some (s, old @ take n bs) else fatFiles refFat c x))"
    if "sdWrite refFat c p bs = (n, c')" "fatFiles refFat c p = Some (s, old)"
    using that fatLookup_spelling [of c p s old] by (auto simp: refFat_def fatLookup_update)
  show "if ok then \<exists>old. fatFiles refFat c p = Some old \<and> (sameFile p q \<or> fatFiles refFat c q = None) \<and>
      (\<forall>x. fatFiles refFat c' x = (if sameFile x q then Some (q, snd old)
        else if sameFile x p then None else fatFiles refFat c x))
    else fatFiles refFat c' = fatFiles refFat c" if "sdRename refFat c p q = (ok, c')"
    using that by (auto simp: refFat_def fatLookup_update fatLookup_delete split: option.splits if_splits)
qed

section \<open>Secrets of an applied document\<close>

lemma applyDocument_cases:
  "applyConfig (configApplyDocument J live p doc) = p
   \<or> applyConfig (configApplyDocument J live p doc) = fst (validateConfig (restoreSecrets (configFromJson J doc defaultConfig) p))"
  by (simp add: configApplyDocument_def Let_def applyRefused_def split: option.splits)

lemma restore_blank: "restoreSecrets (blankSecrets c) p = restoreSecrets c p"
  by (simp add: restoreSecrets_def blankSecrets_def mqttEndpointUnchanged_def influxEndpointUnchanged_def)

lemma buffer_cstr: "fitsBuffer n s \<Longrightarrow> cstr s = s"
  by (simp add: fitsBuffer_def cstr_id)

text \<open>What is left of the secrets, on the fields of the two endpoints.\<close>

lemma restored_secrets:
  assumes "inBuffers new" "inBuffers p" "mqPort (Mqtt p) \<noteq> 0"
  defines "r \<equiv> fst (validateConfig (restoreSecrets new p))"
  shows "Security r = Security p"
    "mqPassword (Mqtt r) = '''' \<and> \<not> mqEnabled (Mqtt r)
      \<or> (mqHost (Mqtt r) = mqHost (Mqtt p) \<and> mqPort (Mqtt r) = mqPort (Mqtt p) \<and> mqUsername (Mqtt r) = mqUsername (Mqtt p))
        \<and> mqPassword (Mqtt r) = mqPassword (Mqtt p)"
    "ixToken (Influx r) = '''' \<and> ixIntervalSeconds (Influx r) = 0
      \<or> (ixHost (Influx r) = ixHost (Influx p) \<and> ixPort (Influx r) = ixPort (Influx p)
         \<and> ixOrg (Influx r) = ixOrg (Influx p) \<and> ixBucket (Influx r) = ixBucket (Influx p))
        \<and> ixToken (Influx r) = ixToken (Influx p)"
proof -
  have i: "Security r = Security (restoreSecrets new p)" "Influx r = Influx (restoreSecrets new p)"
    "Mqtt r = fst (validateMqtt (Mqtt (restoreSecrets new p)))"
    unfolding r_def by (rule validateConfig_sections)+
  have m: "mqHost (fst (validateMqtt q)) = mqHost q" "mqUsername (fst (validateMqtt q)) = mqUsername q"
    "mqPassword (fst (validateMqtt q)) = mqPassword q" "mqEnabled (fst (validateMqtt q)) = mqEnabled q"
    "mqPort (fst (validateMqtt q)) = (if mqPort q = 0 then 1883 else mqPort q)" for q
    by (simp_all add: validateMqtt_def fst_correct)
  note f = assms(1,2) [unfolded inBuffers_def]
  have c: "cstr (mqHost (Mqtt new)) = mqHost (Mqtt new)" "cstr (mqHost (Mqtt p)) = mqHost (Mqtt p)"
    "cstr (mqUsername (Mqtt new)) = mqUsername (Mqtt new)" "cstr (mqUsername (Mqtt p)) = mqUsername (Mqtt p)"
    "cstr (ixHost (Influx new)) = ixHost (Influx new)" "cstr (ixHost (Influx p)) = ixHost (Influx p)"
    "cstr (ixOrg (Influx new)) = ixOrg (Influx new)" "cstr (ixOrg (Influx p)) = ixOrg (Influx p)"
    "cstr (ixBucket (Influx new)) = ixBucket (Influx new)" "cstr (ixBucket (Influx p)) = ixBucket (Influx p)"
    using f by (auto intro: buffer_cstr)
  have k: "copyConfigString 16 (WritePin (Security p)) = WritePin (Security p)"
    "copyConfigString 64 (mqPassword (Mqtt p)) = mqPassword (Mqtt p)"
    "copyConfigString 96 (ixToken (Influx p)) = ixToken (Influx p)"
    using f by simp_all
  show "Security r = Security p" by (simp add: i restoreSecrets_def k)
  show "mqPassword (Mqtt r) = '''' \<and> \<not> mqEnabled (Mqtt r)
      \<or> (mqHost (Mqtt r) = mqHost (Mqtt p) \<and> mqPort (Mqtt r) = mqPort (Mqtt p) \<and> mqUsername (Mqtt r) = mqUsername (Mqtt p))
        \<and> mqPassword (Mqtt r) = mqPassword (Mqtt p)"
    using assms(3) by (simp add: i m restoreSecrets_def mqttEndpointUnchanged_def c k)
  show "ixToken (Influx r) = '''' \<and> ixIntervalSeconds (Influx r) = 0
      \<or> (ixHost (Influx r) = ixHost (Influx p) \<and> ixPort (Influx r) = ixPort (Influx p)
         \<and> ixOrg (Influx r) = ixOrg (Influx p) \<and> ixBucket (Influx r) = ixBucket (Influx p))
        \<and> ixToken (Influx r) = ixToken (Influx p)"
    by (simp add: i restoreSecrets_def influxEndpointUnchanged_def c k)
qed

definition exampleLive :: LiveView where
  "exampleLive = \<lparr>intRequiredBefore = False, intRequiredAfter = False, faultAfter = False\<rparr>"

section \<open>Properties\<close>

text \<open>C24: a name from the network stays inside the presets directory: \<open>presetNameValid\<close> accepts exactly
  the names of 1 to 32 letters, digits, spaces, underscores, hyphens and dots without two dots in a
  row and without a dot or space at either end; \<open>presetPath\<close> builds the path of exactly these, which
  has no separator after the directory; and \<open>presetNameFromFile\<close> accepts exactly their files, however
  the extension is capitalised, and gives the name back.\<close>

theorem preset_names_confined:
  "(presetNameValid n \<longleftrightarrow> nameOk n)
   \<and> presetPath PresetPathMax n = (if nameOk n then Some (PresetDir @ ''/'' @ n @ ''.json'') else None)
   \<and> (presetNameFromFile (PresetNameMax + 1) f = Some n \<longleftrightarrow>
        nameOk n \<and> (\<exists>e. f = n @ e \<and> map presetLower e = ''.json''))
   \<and> (nameOk n \<longrightarrow> presetNameFromFile (PresetNameMax + 1) (n @ ''.json'') = Some n
        \<and> n \<notin> {'''', ''.'', ''..''} \<and> set n \<inter> {NUL, CHR ''/'', CHR 0x5C, CHR '':''} = {})"
proof -
  have "nameOk n \<Longrightarrow> presetNameFromFile (PresetNameMax + 1) (n @ ''.json'') = Some n"
    unfolding presetNameFromFile_iff using foldName_json by blast
  moreover have "nameOk n \<Longrightarrow> n \<notin> {'''', ''.'', ''..''}"
    by (auto simp: nameOk_def)
  moreover have "set n \<inter> {NUL, CHR ''/'', CHR 0x5C, CHR '':''} = {}" if "nameOk n"
  proof -
    have "\<forall>ch\<in>set n. nameChar ch" using that by (simp add: nameOk_def)
    then show ?thesis using nameChar_not by blast
  qed
  ultimately show ?thesis
    using presetNameValid_iff presetPath_eq [of n] presetNameFromFile_iff [of f n]
    by (simp add: PresetDir_def foldName_def)
qed

lemma preset_names_confined_witness:
  "presetNameFromFile (PresetNameMax + 1) (''Night mode'' @ ''.json'') = Some ''Night mode''"
proof -
  have "nameOk ''Night mode''" by code_simp
  then show ?thesis using preset_names_confined [of "''Night mode''" "''''"] by blast
qed




lemma refFat_saves:
  defines "doc \<equiv> serializeJson refJson (redactSecrets refJson (configToJson defaultConfig))"
  shows "fst (presetSave refFat refJson True defaultConfig ''a'' []) = None"
    and "last (snd (presetSave refFat refJson True defaultConfig ''a'' [])) = [(''/presets/a.json'', ''/presets/a.json'', doc)]"
proof -
  have d: "doc \<noteq> []" unfolding doc_def refJson.redact_written by (simp add: configToJson_def refJson.print_nonempty)
  have n: "nameOk ''a''" by code_simp
  have found: "presetFind refFat True [] ''a'' = None" by code_simp
  have tmp: "take (PresetPathMax + 3) (''/presets/a.json'' @ ''.tmp'') = ''/presets/a.json.tmp''" by code_simp
  have f: "foldName ''/presets/a.json.tmp'' = ''/presets/a.json.tmp''" "foldName ''/presets/a.json'' = ''/presets/a.json''"
    by code_simp+
  have w: "presetWrite refFat doc ''/presets/a.json.tmp'' ''/presets/a.json'' []
      = (None, [[], [(''/presets/a.json.tmp'', ''/presets/a.json.tmp'', [])],
          [(''/presets/a.json.tmp'', ''/presets/a.json.tmp'', doc)],
          [(''/presets/a.json.tmp'', ''/presets/a.json.tmp'', doc)], [(''/presets/a.json'', ''/presets/a.json'', doc)]])"
    using d by (simp add: presetWrite_def presetStore_def refFat_def fatLookup_def f sameFile_def presetLower_def Let_def)
  have p: "presetPath PresetPathMax ''a'' = Some ''/presets/a.json''" by code_simp
  have s: "presetSave refFat refJson True defaultConfig ''a'' []
      = (None, [] # snd (presetWrite refFat doc ''/presets/a.json.tmp'' ''/presets/a.json'' []))"
    unfolding presetSave_def p option.case Let_def tmp doc_def [symmetric]
    by (simp add: found w) (simp add: refFat_def found [unfolded refFat_def])
  show "fst (presetSave refFat refJson True defaultConfig ''a'' []) = None"
    "last (snd (presetSave refFat refJson True defaultConfig ''a'' [])) = [(''/presets/a.json'', ''/presets/a.json'', doc)]"
    unfolding s w by simp_all
qed


text \<open>C10: a document cannot set a secret, nor carry the device's secrets to another endpoint. After any document was
  imported or loaded as a preset, accepted or not, the write PIN is the one the device had. A password for the broker
  is there only if it is the one the device had and host, port and user name are the same too, and
  otherwise MQTT is off; a metrics token is there only if it is the one the device had and host, port,
  organisation and bucket are the same too, and otherwise the metrics are off. And documents that differ in nothing
  but their secrets have the same effect.\<close>

theorem import_cannot_touch_secrets:
  fixes J :: JsonLib and live :: LiveView and doc :: json and previous :: MainConfig
  assumes "settledConfig previous" "inBuffers previous"
  defines "r \<equiv> applyConfig (configApplyDocument J live previous doc)"
  defines "sameBroker \<equiv> mqHost (Mqtt r) = mqHost (Mqtt previous) \<and> mqPort (Mqtt r) = mqPort (Mqtt previous)
      \<and> mqUsername (Mqtt r) = mqUsername (Mqtt previous)"
    and "sameMetrics \<equiv> ixHost (Influx r) = ixHost (Influx previous) \<and> ixPort (Influx r) = ixPort (Influx previous)
      \<and> ixOrg (Influx r) = ixOrg (Influx previous) \<and> ixBucket (Influx r) = ixBucket (Influx previous)"
  shows "Security r = Security previous
    \<and> (mqPassword (Mqtt r) = '''' \<or> sameBroker \<and> mqPassword (Mqtt r) = mqPassword (Mqtt previous))
    \<and> (sameBroker \<or> \<not> mqEnabled (Mqtt r))
    \<and> (ixToken (Influx r) = '''' \<or> sameMetrics \<and> ixToken (Influx r) = ixToken (Influx previous))
    \<and> (sameMetrics \<or> ixIntervalSeconds (Influx r) = 0)
    \<and> (configDocComplete J doc' = configDocComplete J doc
         \<and> blankSecrets (configFromJson J doc' defaultConfig) = blankSecrets (configFromJson J doc defaultConfig)
       \<longrightarrow> configApplyDocument J live previous doc' = configApplyDocument J live previous doc)"
proof -
  define new where "new = configFromJson J doc defaultConfig"
  have b: "inBuffers new" unfolding new_def by (intro read_inBuffers default_inBuffers)
  have port: "mqPort (Mqtt previous) \<noteq> 0" using assms(1) by (simp add: settledConfig_def settledMqtt_def)
  have "r = previous \<or> r = fst (validateConfig (restoreSecrets new previous))"
    unfolding r_def new_def by (rule applyDocument_cases)
  then have "Security r = Security previous
    \<and> (mqPassword (Mqtt r) = '''' \<or> sameBroker \<and> mqPassword (Mqtt r) = mqPassword (Mqtt previous))
    \<and> (sameBroker \<or> \<not> mqEnabled (Mqtt r))
    \<and> (ixToken (Influx r) = '''' \<or> sameMetrics \<and> ixToken (Influx r) = ixToken (Influx previous))
    \<and> (sameMetrics \<or> ixIntervalSeconds (Influx r) = 0)"
    using restored_secrets [OF b assms(2) port] unfolding sameBroker_def sameMetrics_def by auto
  moreover have "configApplyDocument J live previous doc' = configApplyDocument J live previous doc"
    if "configDocComplete J doc' = configDocComplete J doc"
      "blankSecrets (configFromJson J doc' defaultConfig) = blankSecrets (configFromJson J doc defaultConfig)"
  proof -
    have "restoreSecrets (configFromJson J doc' defaultConfig) previous = restoreSecrets (configFromJson J doc defaultConfig) previous"
      using that(2) restore_blank by metis
    then show ?thesis by (simp only: configApplyDocument_def that(1) Let_def)
  qed
  ultimately show ?thesis by blast
qed

lemma import_cannot_touch_secrets_witness:
  "Security (applyConfig (configApplyDocument refJson exampleLive defaultConfig (configToJson
      (defaultConfig\<lparr>Security := \<lparr>WritePin = ''stolen''\<rparr>\<rparr>)))) = Security defaultConfig"
  using import_cannot_touch_secrets [OF default_settled default_inBuffers] by blast

end
