(* ===== verification/Web_Auth.thy ===== *)
theory Web_Auth
  imports Presets
begin

text \<open>
  \<open>src/src/web_handlers.cpp\<close>, the authorisation of API requests, and \<open>src/src/write_pin.h\<close>: the comparison of
  the PIN a client sends with the configured one, the table of four peers that limits the rate of
  guesses, the check of the Host and Origin headers, and the PIN the device generates.

  A request is the time \<open>now\<close> of \<open>millis()\<close>, the peer's packed address and the headers as the web
  library hands them over, \<open>None\<close> where it returns a null pointer. The peer table is passed and
  returned. Addresses of the device and the peer are parameters of the request; the warnings written to the
  event log are left out.
\<close>

section \<open>The PIN\<close>

definition charByte :: "char \<Rightarrow> byte" where "charByte c = of_nat (code_of c)"

definition pinStep :: "string \<Rightarrow> string \<Rightarrow> bool \<times> byte \<Rightarrow> nat \<Rightarrow> bool \<times> byte" where
  "pinStep provided pin s i =
     (let p = (if fst s then NUL else cchar provided i)
      in (fst s \<or> p = NUL, snd s OR (charByte p XOR charByte (cchar pin i))))"

definition pinMatches :: "string \<Rightarrow> string option \<Rightarrow> bool" where
  "pinMatches pin provided =
     (case provided of None \<Rightarrow> False
      | Some p \<Rightarrow> snd (foldl (pinStep p pin) (False, 0) [0..<16]) = 0)"

definition WritePinAlphabet :: string where [const_defs]: "WritePinAlphabet = ''0123456789ABCDEFGHJKMNPQRSTVWXYZ''"
definition WritePinLength :: nat where [const_defs]: "WritePinLength = 8"

definition writePinFromEntropy :: "byte list \<Rightarrow> nat \<Rightarrow> string option" where
  "writePinFromEntropy entropy outSize =
     (if outSize = 0 then None
      else let n = min (outSize - 1) WritePinLength in
        Some (map (\<lambda>i. WritePinAlphabet ! unat (entropy ! i AND 0x1F)) [0..<n]))"

fun pinCount :: "nat \<Rightarrow> string \<Rightarrow> nat option" where
  "pinCount n [] = Some n"
| "pinCount n (c # cs) =
     (if c \<notin> set WritePinAlphabet then None
      else if n + 1 > WritePinLength then None else pinCount (n + 1) cs)"

definition writePinLooksGenerated :: "string \<Rightarrow> bool" where
  "writePinLooksGenerated pin \<longleftrightarrow> pinCount 0 pin = Some WritePinLength"

section \<open>Peers\<close>

record AuthPeer =
  apIp :: u32
  windowStart :: u32
  blockedUntil :: u32
  failures :: byte
  apUsed :: bool

definition AuthWindowMs :: u32 where [const_defs]: "AuthWindowMs = 60000"
definition AuthBlockMs :: u32 where [const_defs]: "AuthBlockMs = 60000"
definition AuthFailuresBeforeBlock :: byte where [const_defs]: "AuthFailuresBeforeBlock = 5"

definition noPeer :: AuthPeer where
  "noPeer = \<lparr>apIp = 0, windowStart = 0, blockedUntil = 0, failures = 0, apUsed = False\<rparr>"

definition authPeers0 :: "AuthPeer list" where "authPeers0 = replicate 4 noPeer"

text \<open>The loop over the table, with the index of the oldest peer so far; the result is the index of the
  peer's entry and the table.\<close>

fun authScan :: "AuthPeer list \<Rightarrow> u32 \<Rightarrow> u32 \<Rightarrow> nat list \<Rightarrow> nat \<Rightarrow> nat \<times> AuthPeer list" where
  "authScan peers ip now [] oldest =
     (oldest, peers[oldest := noPeer\<lparr>apUsed := True, apIp := ip, windowStart := now\<rparr>])"
| "authScan peers ip now (i # is) oldest =
     (let peer = peers ! i in
      if apUsed peer \<and> apIp peer = ip then (i, peers)
      else if \<not> apUsed peer then (i, peers[i := peer\<lparr>apUsed := True, apIp := ip, windowStart := now\<rparr>])
      else authScan peers ip now is
        (if now - windowStart peer > now - windowStart (peers ! oldest) then i else oldest))"

definition authPeerFor :: "AuthPeer list \<Rightarrow> u32 \<Rightarrow> u32 \<Rightarrow> nat \<times> AuthPeer list" where
  "authPeerFor peers ip now = authScan peers ip now [0..<4] 0"

definition peerBlocked :: "AuthPeer \<Rightarrow> u32 \<Rightarrow> bool" where
  "peerBlocked peer now \<longleftrightarrow> blockedUntil peer \<noteq> 0 \<and> sint (now - blockedUntil peer) < 0"

definition authPeerBlocked :: "AuthPeer list \<Rightarrow> u32 \<Rightarrow> u32 \<Rightarrow> bool \<times> AuthPeer list" where
  "authPeerBlocked peers ip now =
     (let (i, peers) = authPeerFor peers ip now in (peerBlocked (peers ! i) now, peers))"

text \<open>The entry of a peer after a wrong PIN.\<close>

definition authFailed :: "AuthPeer \<Rightarrow> u32 \<Rightarrow> AuthPeer" where
  "authFailed peer now =
     (let peer = (if now - windowStart peer \<ge> AuthWindowMs then peer\<lparr>windowStart := now, failures := 0\<rparr> else peer);
          peer = peer\<lparr>failures := failures peer + 1\<rparr>
      in if failures peer \<ge> AuthFailuresBeforeBlock then peer\<lparr>blockedUntil := now + AuthBlockMs\<rparr> else peer)"

definition writeAuthorized ::
    "string \<Rightarrow> AuthPeer list \<Rightarrow> u32 \<Rightarrow> u32 \<Rightarrow> string option \<Rightarrow> bool \<times> AuthPeer list" where
  "writeAuthorized pin peers ip now provided =
     (if cchar pin 0 = NUL then (False, peers)
      else let (i, peers) = authPeerFor peers ip now; peer = peers ! i in
        if peerBlocked peer now then (False, peers)
        else if pinMatches pin provided
          then (True, peers[i := peer\<lparr>failures := 0, blockedUntil := 0, windowStart := now\<rparr>])
        else (False, peers[i := authFailed peer now]))"

section \<open>Where a request comes from\<close>

definition packIp :: "byte \<times> byte \<times> byte \<times> byte \<Rightarrow> u32" where
  "packIp ip = (case ip of (a, b, c, d) \<Rightarrow>
     push_bit 24 (ucast a) OR push_bit 16 (ucast b) OR push_bit 8 (ucast c) OR ucast d)"

definition requestPeerIsLocal :: "u32 \<Rightarrow> u32 \<Rightarrow> u32 \<Rightarrow> bool" where
  "requestPeerIsLocal subnetMask localIP ip =
     (if subnetMask = 0 then False else ip AND subnetMask = localIP AND subnetMask)"

definition strcasecmp :: "string \<Rightarrow> string \<Rightarrow> bool" where
  "strcasecmp a b \<longleftrightarrow> map presetLower (cstr a) = map presetLower (cstr b)"

fun decimalText :: "nat \<Rightarrow> string" where
  "decimalText n = (if n < 10 then [char_of (48 + n)] else decimalText (n div 10) @ [char_of (48 + n mod 10)])"

definition ipText :: "byte \<times> byte \<times> byte \<times> byte \<Rightarrow> string" where
  "ipText ip = (case ip of (a, b, c, d) \<Rightarrow>
     take 19 (decimalText (unat a) @ ''.'' @ decimalText (unat b) @ ''.'' @ decimalText (unat c) @ ''.'' @ decimalText (unat d)))"

definition authorityAllowed :: "byte \<times> byte \<times> byte \<times> byte \<Rightarrow> string \<Rightarrow> string \<Rightarrow> string \<Rightarrow> bool" where
  "authorityAllowed localIP networkHostname hostHeader originHeader =
     (if cchar hostHeader 0 = NUL then False
      else let localName = take 39 (networkHostname @ ''.local'');
               authority = takeWhile (\<lambda>c. c \<noteq> CHR '':'') (copyConfigString 64 hostHeader);
               hostOk = (authority = ipText localIP \<or> strcasecmp authority networkHostname
                 \<or> strcasecmp authority localName)
           in if \<not> hostOk then False
              else if cchar originHeader 0 = NUL then True
              else if take 7 originHeader \<noteq> ''http://'' then False
              else drop 7 originHeader = hostHeader)"

section \<open>The comparison is an equality\<close>

lemma charByte_eq: "charByte c = charByte d \<longleftrightarrow> c = d"
proof -
  have "code_of x < 256" for x :: char by (rule of_char_mod_256 [of x, where 'a = nat, THEN subst]) simp
  then have "unat (charByte x) = code_of x" for x by (simp add: charByte_def unat_of_nat take_bit_nat_eq_self_iff)
  then show ?thesis by (metis of_char_eq_iff)
qed

lemma or_eq_0_byte: "(a :: byte) OR b = 0 \<longleftrightarrow> a = 0 \<and> b = 0"
  by (auto simp: bit_eq_iff bit_simps)

lemma cchar_NUL: "NUL \<notin> set s \<Longrightarrow> cchar s i = NUL \<longleftrightarrow> length s \<le> i"
  by (cases "i < length s") (auto simp: cchar_def dest: nth_mem)

lemma pinLoop:
  assumes "NUL \<notin> set provided"
  shows "foldl (pinStep provided pin) (False, 0) [0..<n] = (length provided < n, snd (foldl (pinStep provided pin) (False, 0) [0..<n]))
    \<and> (snd (foldl (pinStep provided pin) (False, 0) [0..<n]) = 0 \<longleftrightarrow> (\<forall>i<n. cchar provided i = cchar pin i))"
proof (induction n)
  case (Suc n)
  define s where "s = foldl (pinStep provided pin) (False, 0) [0..<n]"
  have s: "fst s = (length provided < n)" "snd s = 0 \<longleftrightarrow> (\<forall>i<n. cchar provided i = cchar pin i)"
    using Suc by (auto simp: s_def prod_eq_iff)
  have step: "foldl (pinStep provided pin) (False, 0) [0..<Suc n] = pinStep provided pin s n"
    by (simp add: s_def)
  have p: "(if fst s then NUL else cchar provided n) = cchar provided n"
    using s(1) by simp
  have nul: "cchar provided n = NUL \<longleftrightarrow> length provided \<le> n"
    using assms by (rule cchar_NUL)
  show ?case
    unfolding step using s nul
    by (auto simp: pinStep_def p or_eq_0_byte xor_eq_0_word charByte_eq less_Suc_eq)
qed simp

lemma cchar_ext: "NUL \<notin> set a \<Longrightarrow> NUL \<notin> set b \<Longrightarrow> length b < n \<Longrightarrow> (\<forall>i<n. cchar a i = cchar b i) \<Longrightarrow> a = b"
proof -
  assume nul: "NUL \<notin> set a" "NUL \<notin> set b" and n: "length b < n" and eq: "\<forall>i<n. cchar a i = cchar b i"
  note z = cchar_NUL
  have "length a \<le> length b" using eq n z [OF nul(1), of "length b"] z [OF nul(2), of "length b"] by simp
  moreover have "length b \<le> length a"
  proof -
    have "length a < n" using calculation n by simp
    then have "cchar b (length a) = NUL" using spec [OF eq, of "length a"] by simp
    then show ?thesis using z [OF nul(2), of "length a"] by simp
  qed
  ultimately have len: "length a = length b" by simp
  show "a = b"
  proof (rule nth_equalityI [OF len])
    fix i assume "i < length a"
    then show "a ! i = b ! i" using eq n len by (auto simp: cchar_def dest: spec [of _ i])
  qed
qed

lemma pinMatches_iff:
  assumes "NUL \<notin> set p" "fitsBuffer 16 pin"
  shows "pinMatches pin (Some p) \<longleftrightarrow> p = pin"
  using pinLoop [OF assms(1), of pin 16] cchar_ext [of p pin 16] assms
  by (auto simp: pinMatches_def fitsBuffer_def)

section \<open>The table keeps every peer while there are at most four\<close>

definition peerOf :: "AuthPeer list \<Rightarrow> u32 \<Rightarrow> AuthPeer option" where
  "peerOf peers ip = find (\<lambda>p. apUsed p \<and> apIp p = ip) peers"

definition freshPeer :: "u32 \<Rightarrow> u32 \<Rightarrow> AuthPeer" where
  "freshPeer ip now = noPeer\<lparr>apUsed := True, apIp := ip, windowStart := now\<rparr>"

lemma freshPeer_simps [simp]:
  "apUsed (freshPeer ip now)" "apIp (freshPeer ip now) = ip" "windowStart (freshPeer ip now) = now"
  "failures (freshPeer ip now) = 0" "blockedUntil (freshPeer ip now) = 0"
  by (simp_all add: freshPeer_def noPeer_def)

lemma noPeer_unused [simp]: "\<not> apUsed noPeer"
  by (simp add: noPeer_def)

text \<open>Four entries, the used ones first, one for each address of \<open>A\<close> that was heard from.\<close>

definition peerTable :: "u32 set \<Rightarrow> AuthPeer list \<Rightarrow> bool" where
  "peerTable A peers \<longleftrightarrow> length peers = 4
     \<and> (\<forall>i<4. apUsed (peers ! i) \<longrightarrow> apIp (peers ! i) \<in> A \<and> (\<forall>j<i. apUsed (peers ! j)))
     \<and> (\<forall>i<4. \<not> apUsed (peers ! i) \<longrightarrow> peers ! i = noPeer)
     \<and> (\<forall>i<4. \<forall>j<4. apUsed (peers ! i) \<longrightarrow> apUsed (peers ! j) \<longrightarrow> apIp (peers ! i) = apIp (peers ! j) \<longrightarrow> i = j)"

lemma peerTableD:
  assumes "peerTable A peers"
  shows "length peers = 4" "i < 4 \<Longrightarrow> apUsed (peers ! i) \<Longrightarrow> apIp (peers ! i) \<in> A"
    "i < 4 \<Longrightarrow> apUsed (peers ! i) \<Longrightarrow> j < i \<Longrightarrow> apUsed (peers ! j)"
    "i < 4 \<Longrightarrow> \<not> apUsed (peers ! i) \<Longrightarrow> peers ! i = noPeer"
    "i < 4 \<Longrightarrow> j < 4 \<Longrightarrow> apUsed (peers ! i) \<Longrightarrow> apUsed (peers ! j) \<Longrightarrow> apIp (peers ! i) = apIp (peers ! j) \<Longrightarrow> i = j"
  using assms unfolding peerTable_def by blast+

lemma peerTable_start: "peerTable A authPeers0"
  by (simp add: peerTable_def authPeers0_def)

lemma peerOf_iff:
  assumes "peerTable A peers"
  shows "peerOf peers b = Some e \<longleftrightarrow> (\<exists>i<4. peers ! i = e \<and> apUsed e \<and> apIp e = b)"
proof
  assume "\<exists>i<4. peers ! i = e \<and> apUsed e \<and> apIp e = b"
  then obtain i where i: "i < 4" "peers ! i = e" "apUsed e" "apIp e = b" by blast
  have "\<not> (apUsed (peers ! j) \<and> apIp (peers ! j) = b)" if "j < i" for j
    using peerTableD(5) [OF assms i(1), of j] i that by auto
  then have "\<forall>j<i. \<not> (apUsed (peers ! j) \<and> apIp (peers ! j) = b)" by blast
  then show "peerOf peers b = Some e"
    unfolding peerOf_def find_Some_iff peerTableD(1) [OF assms] using i by (intro exI [of _ i]) simp
qed (use peerTableD(1) [OF assms] in \<open>auto simp: peerOf_def find_Some_iff\<close>)

lemma peerOf_None:
  assumes "peerTable A peers"
  shows "peerOf peers b = None \<longleftrightarrow> (\<forall>i<4. apUsed (peers ! i) \<longrightarrow> apIp (peers ! i) \<noteq> b)"
  using peerOf_iff [OF assms, of b] by (metis not_None_eq)

lemma authScan_hit:
  assumes "find (\<lambda>i. \<not> apUsed (peers ! i) \<or> apIp (peers ! i) = ip) is = Some i"
  shows "authScan peers ip now is oldest =
    (i, if apUsed (peers ! i) then peers else peers[i := (peers ! i)\<lparr>apUsed := True, apIp := ip, windowStart := now\<rparr>])"
  using assms by (induction "is" arbitrary: oldest) (auto simp: Let_def split: if_splits)

lemma entry_update:
  assumes "peerTable A peers" "i < 4" "apUsed (peers ! i)" "apIp e = apIp (peers ! i)" "apUsed e" "j < 4"
  shows "apUsed (peers[i := e] ! j) = apUsed (peers ! j)" "apIp (peers[i := e] ! j) = apIp (peers ! j)"
    "\<not> apUsed (peers ! j) \<Longrightarrow> peers[i := e] ! j = peers ! j" "length (peers[i := e]) = 4"
proof -
  have len: "length peers = 4" using assms(1) by (rule peerTableD(1))
  show "apUsed (peers[i := e] ! j) = apUsed (peers ! j)"
    using assms(2,3,5) len by (cases "i = j") simp_all
  show "apIp (peers[i := e] ! j) = apIp (peers ! j)"
    using assms(2,4) len by (cases "i = j") simp_all
  show "length (peers[i := e]) = 4" using len by simp
  show "peers[i := e] ! j = peers ! j" if "\<not> apUsed (peers ! j)"
    using that assms(3) by (cases "i = j") simp_all
qed

lemma peerTable_update:
  assumes "peerTable A peers" "i < 4" "apUsed (peers ! i)" "apIp e = apIp (peers ! i)" "apUsed e"
  shows "peerTable A (peers[i := e])"
proof -
  note q = entry_update [OF assms]
  note t = peerTableD [OF assms(1)]
  show ?thesis unfolding peerTable_def
  proof (intro conjI allI impI)
    fix j k :: nat assume j: "j < 4"
    show "peers[i := e] ! j = noPeer" if "\<not> apUsed (peers[i := e] ! j)"
      using that t(4) [OF j] q(1,3) [OF j] by simp
    show "apIp (peers[i := e] ! j) \<in> A" if "apUsed (peers[i := e] ! j)"
      using that t(2) [OF j] q(1,2) [OF j] by simp
    show "apUsed (peers[i := e] ! k)" if "apUsed (peers[i := e] ! j)" "k < j"
      using that t(3) [OF j _ that(2)] q(1) [OF j] q(1) [OF less_trans [OF that(2) j]] by simp
    show "j = k" if k: "k < 4" and "apUsed (peers[i := e] ! j)" "apUsed (peers[i := e] ! k)"
      "apIp (peers[i := e] ! j) = apIp (peers[i := e] ! k)"
      using t(5) [OF j k] that(2-4) unfolding q(1,2) [OF j] q(1,2) [OF k] by blast
  qed (rule q(4) [OF assms(2)])
qed

lemma peerOf_update:
  assumes "peerTable A peers" "i < 4" "apUsed (peers ! i)" "apIp e = apIp (peers ! i)" "apUsed e"
  shows "peerOf (peers[i := e]) b = (if b = apIp e then Some e else peerOf peers b)"
proof (cases "b = apIp e")
  case True
  have "length peers = 4" using assms(1) by (simp add: peerTable_def)
  then have "peers[i := e] ! i = e" using assms(2) by simp
  then show ?thesis
    using peerOf_iff [OF peerTable_update [OF assms], of b e, THEN iffD2] assms(2,5) True
    by (metis)
next
  case False
  have n: "peers[i := e] ! j = peers ! j" if "apIp (peers ! j) = b \<or> apIp (peers[i := e] ! j) = b" "j < 4" for j
    using that False assms(2,4) entry_update(2) [OF assms that(2)] by (cases "i = j") auto
  have "(\<exists>j<4. peers[i := e] ! j = x \<and> apUsed x \<and> apIp x = b) \<longleftrightarrow> (\<exists>j<4. peers ! j = x \<and> apUsed x \<and> apIp x = b)" for x
  proof (rule ex_cong1)
    show "(j < 4 \<and> peers[i := e] ! j = x \<and> apUsed x \<and> apIp x = b) = (j < 4 \<and> peers ! j = x \<and> apUsed x \<and> apIp x = b)" for j
      using n [of j] by auto
  qed
  then have "peerOf (peers[i := e]) b = Some x \<longleftrightarrow> peerOf peers b = Some x" for x
    unfolding peerOf_iff [OF peerTable_update [OF assms]] peerOf_iff [OF assms(1)] .
  then show ?thesis using False by (metis not_None_eq)
qed

text \<open>An unused entry is taken over by a new address.\<close>

lemma fresh_entry:
  fixes now :: u32 and j :: nat and ip :: u32 and peers :: "AuthPeer list"
  assumes "peerTable A peers" "ip \<in> A" "j < 4" "\<not> apUsed (peers ! j)"
    and "\<And>k. k < j \<Longrightarrow> apUsed (peers ! k) \<and> apIp (peers ! k) \<noteq> ip"
  defines "peers' \<equiv> peers[j := freshPeer ip now]"
  shows "peerTable A peers'" "peerOf peers ip = None"
    and "peerOf peers' b = (if b = ip then Some (freshPeer ip now) else peerOf peers b)"
proof -
  note t = peerTableD [OF assms(1)]
  have at: "peers' ! k = (if k = j then freshPeer ip now else peers ! k)" if "k < 4" for k
    using that t(1) assms(3) by (simp add: peers'_def)
  have free: "\<not> apUsed (peers ! k)" if "j \<le> k" "k < 4" for k
    using assms(4) t(3) [OF that(2), of j] that(1) by (cases "j = k") auto
  have new: "apIp (peers ! k) \<noteq> ip" if "k < 4" "apUsed (peers ! k)" for k
    using free [OF _ that(1)] that(2) assms(5) [of k] by (cases "j \<le> k") auto
  show table: "peerTable A peers'" unfolding peerTable_def
  proof (intro conjI allI impI)
    fix k l :: nat assume k: "k < 4"
    show "apIp (peers' ! k) \<in> A" if "apUsed (peers' ! k)"
      using that assms(2) t(2) [OF k] by (simp add: at [OF k] split: if_splits)
    show "peers' ! k = noPeer" if "\<not> apUsed (peers' ! k)"
      using that t(4) [OF k] by (simp add: at [OF k] split: if_splits)
    show "apUsed (peers' ! l)" if l: "l < k" and "apUsed (peers' ! k)"
      using that(2) t(3) [OF k _ l] assms(5) [of l] l by (simp add: at [OF k] at [OF less_trans [OF l k]] split: if_splits)
    show "k = l" if l: "l < 4" and "apUsed (peers' ! k)" "apUsed (peers' ! l)" "apIp (peers' ! k) = apIp (peers' ! l)"
      using that(2-4) t(5) [OF k l] new [OF k] new [OF l] by (auto simp: at [OF k] at [OF l] split: if_splits)
  qed (simp add: peers'_def t(1))
  show none: "peerOf peers ip = None" unfolding peerOf_None [OF assms(1)] using new by blast
  show "peerOf peers' b = (if b = ip then Some (freshPeer ip now) else peerOf peers b)"
  proof (cases "b = ip")
    case True
    then show ?thesis using peerOf_iff [OF table, of b "freshPeer ip now"] at [OF assms(3)] assms(3) by auto
  next
    case b: False
    have "(\<exists>k<4. peers' ! k = x \<and> apUsed x \<and> apIp x = b) \<longleftrightarrow> (\<exists>k<4. peers ! k = x \<and> apUsed x \<and> apIp x = b)" for x
    proof (rule ex_cong1)
      show "(k < 4 \<and> peers' ! k = x \<and> apUsed x \<and> apIp x = b) = (k < 4 \<and> peers ! k = x \<and> apUsed x \<and> apIp x = b)" for k
        using at [of k] b assms(4) by (cases "k = j") auto
    qed
    then have "peerOf peers' b = Some x \<longleftrightarrow> peerOf peers b = Some x" for x
      unfolding peerOf_iff [OF table] peerOf_iff [OF assms(1)] .
    then show ?thesis using b by (metis not_None_eq)
  qed
qed

text \<open>A request of an address of \<open>A\<close> finds its entry, or a fresh one, and no other entry changes.\<close>

lemma authPeerFor_table:
  assumes "peerTable A peers" "ip \<in> A" "finite A" "card A \<le> 4" "authPeerFor peers ip now = (i, peers')"
  shows "i < 4" "peerTable A peers'" "apUsed (peers' ! i)" "apIp (peers' ! i) = ip"
    "peers' ! i = (case peerOf peers ip of Some e \<Rightarrow> e | None \<Rightarrow> freshPeer ip now)"
    "peerOf peers' b = (if b = ip then Some (peers' ! i) else peerOf peers b)"
proof -
  note t = peerTableD [OF assms(1)]
  have "\<exists>j<4. \<not> apUsed (peers ! j) \<or> apIp (peers ! j) = ip"
  proof (rule ccontr)
    assume "\<not> ?thesis"
    then have used: "apUsed (peers ! j)" "apIp (peers ! j) \<noteq> ip" if "j < 4" for j using that by blast+
    have "inj_on (\<lambda>j. apIp (peers ! j)) {..<4}" using t(5) used(1) by (auto intro: inj_onI)
    then have "card ((\<lambda>j. apIp (peers ! j)) ` {..<4}) = 4" by (simp add: card_image)
    moreover have "(\<lambda>j. apIp (peers ! j)) ` {..<4} \<subseteq> A - {ip}" using t(2) used by auto
    then have "card ((\<lambda>j. apIp (peers ! j)) ` {..<4}) \<le> card (A - {ip})" using assms(3) by (intro card_mono) auto
    ultimately show False using assms(2-4) by (simp add: card_Diff_singleton)
  qed
  then have "find (\<lambda>j. \<not> apUsed (peers ! j) \<or> apIp (peers ! j) = ip) [0..<4] \<noteq> None"
    by (auto simp: find_None_iff)
  then obtain j where j: "find (\<lambda>j. \<not> apUsed (peers ! j) \<or> apIp (peers ! j) = ip) [0..<4] = Some j" by auto
  then have hit: "j < 4" "\<not> apUsed (peers ! j) \<or> apIp (peers ! j) = ip"
    and before: "\<And>k. k < j \<Longrightarrow> apUsed (peers ! k) \<and> apIp (peers ! k) \<noteq> ip"
    by (auto simp: find_Some_iff)
  have r: "i = j" "peers' = (if apUsed (peers ! j) then peers
      else peers[j := (peers ! j)\<lparr>apUsed := True, apIp := ip, windowStart := now\<rparr>])"
    using assms(5) authScan_hit [OF j, of now 0] unfolding authPeerFor_def by auto
  show "i < 4" using r(1) hit(1) by simp
  have main: "peerTable A peers' \<and> apUsed (peers' ! i) \<and> apIp (peers' ! i) = ip
      \<and> peers' ! i = (case peerOf peers ip of Some e \<Rightarrow> e | None \<Rightarrow> freshPeer ip now)
      \<and> peerOf peers' b = (if b = ip then Some (peers' ! i) else peerOf peers b)"
  proof (cases "apUsed (peers ! j)")
    case True
    then have "peers' = peers" "apIp (peers ! j) = ip" using r hit by simp_all
    moreover have "peerOf peers ip = Some (peers ! j)"
      using peerOf_iff [OF assms(1)] hit(1) True calculation(2) by blast
    ultimately show ?thesis
      using assms(1) True r(1) by simp
  next
    case False
    then have p: "peers' = peers[j := freshPeer ip now]" using r t(4) [OF hit(1)] by (simp add: freshPeer_def)
    from fresh_entry(1) [where now = now, OF assms(1,2) hit(1) False before] fresh_entry(2) [OF assms(1,2) hit(1) False before]
      fresh_entry(3) [where now = now and b = b, OF assms(1,2) hit(1) False before] show ?thesis
      using r(1) p t(1) hit(1) by simp
  qed
  show "peerTable A peers'" "apUsed (peers' ! i)" "apIp (peers' ! i) = ip"
    "peers' ! i = (case peerOf peers ip of Some e \<Rightarrow> e | None \<Rightarrow> freshPeer ip now)"
    "peerOf peers' b = (if b = ip then Some (peers' ! i) else peerOf peers b)"
    using main by blast+
qed

section \<open>Guesses are limited\<close>

text \<open>A run of requests, each with the milliseconds since boot, the address and the PIN header; the number of
  them in which a PIN sent by \<open>a\<close> was compared.\<close>

type_synonym auth_request = "nat \<times> u32 \<times> string option"

definition authStep :: "string \<Rightarrow> AuthPeer list \<Rightarrow> auth_request \<Rightarrow> AuthPeer list" where
  "authStep pin peers r = (case r of (t, ip, h) \<Rightarrow> snd (writeAuthorized pin peers ip (of_nat t) h))"

definition compared :: "string \<Rightarrow> AuthPeer list \<Rightarrow> auth_request \<Rightarrow> bool" where
  "compared pin peers r = (case r of (t, ip, h) \<Rightarrow>
     cchar pin 0 \<noteq> NUL \<and> \<not> fst (authPeerBlocked peers ip (of_nat t)))"

fun guesses :: "string \<Rightarrow> u32 \<Rightarrow> AuthPeer list \<Rightarrow> auth_request list \<Rightarrow> nat" where
  "guesses pin a peers [] = 0"
| "guesses pin a peers (r # rs) =
     (if fst (snd r) = a \<and> compared pin peers r then 1 else 0) + guesses pin a (authStep pin peers r) rs"

lemma sint_diff:
  assumes "t < 2 ^ 31" "b \<le> t + 60000"
  shows "sint (of_nat t - of_nat b :: u32) < 0 \<longleftrightarrow> t < b"
proof -
  have e: "(of_nat t - of_nat b :: u32) = word_of_int (int t - int b)" by simp
  have "- (2 ^ 31) \<le> int t - int b" "int t - int b < 2 ^ 31" using assms by simp_all
  then have "sint (of_nat t - of_nat b :: u32) = int t - int b"
    unfolding e sint_sbintrunc' by (simp add: signed_take_bit_int_eq_self)
  then show ?thesis by simp
qed

lemma elapsed:
  assumes "w \<le> t" "t < 2 ^ 31"
  shows "(60000 :: u32) \<le> of_nat t - of_nat w \<longleftrightarrow> 60000 \<le> t - w"
proof -
  have "(of_nat t - of_nat w :: u32) = of_nat (t - w)" using assms(1) by (simp add: of_nat_diff)
  moreover have "unat (of_nat (t - w) :: u32) = t - w"
    unfolding unat_of_nat using assms by (intro mod_less) simp
  ultimately show ?thesis by (simp only: word_le_nat_alt) simp
qed

text \<open>The entry of an address that tried \<open>g\<close> PINs up to time \<open>t\<close>, all of them wrong: its window began at \<open>w\<close>.\<close>

definition entryInv :: "nat \<Rightarrow> nat \<Rightarrow> AuthPeer \<Rightarrow> bool" where
  "entryInv t g e \<longleftrightarrow> (\<exists>w\<le>t. windowStart e = of_nat w \<and> unat (failures e) \<le> 5 \<and> g \<le> 5 * (w div 60000) + unat (failures e)
     \<and> (failures e = 5 \<longrightarrow> (\<exists>b. blockedUntil e = of_nat b \<and> w + 60000 \<le> b \<and> b \<le> t + 60000)))"

lemma entryInv_mono: "entryInv t g e \<Longrightarrow> t \<le> t' \<Longrightarrow> entryInv t' g e"
  unfolding entryInv_def by (meson le_trans add_le_mono1)

lemma entryInv_bound: "entryInv t g e \<Longrightarrow> g \<le> 5 * (t div 60000 + 1)"
proof -
  assume "entryInv t g e"
  then obtain w where "w \<le> t" "g \<le> 5 * (w div 60000) + unat (failures e)" "unat (failures e) \<le> 5"
    unfolding entryInv_def by blast
  moreover have "w div 60000 \<le> t div 60000" using calculation(1) by (rule div_le_mono)
  ultimately have "g \<le> 5 * (w div 60000) + 5" "5 * (w div 60000) \<le> 5 * (t div 60000)" by simp_all
  then show ?thesis by (simp only: add_mult_distrib2 mult_1_right)
qed

lemma entryInv_failed:
  assumes "entryInv t g e" "t < 2 ^ 31" "\<not> peerBlocked e (of_nat t)"
  shows "entryInv t (g + 1) (authFailed e (of_nat t))"
proof -
  obtain w where w: "w \<le> t" "windowStart e = of_nat w" "unat (failures e) \<le> 5"
    "g \<le> 5 * (w div 60000) + unat (failures e)"
    "failures e = 5 \<Longrightarrow> \<exists>b. blockedUntil e = of_nat b \<and> w + 60000 \<le> b \<and> b \<le> t + 60000"
    using assms(1) by (auto simp: entryInv_def)
  have passed: "60000 \<le> t - w" if full: "failures e = 5"
  proof -
    obtain b where b: "blockedUntil e = of_nat b" "w + 60000 \<le> b" "b \<le> t + 60000" using w(5) [OF full] by blast
    have "unat (of_nat b :: u32) = b" unfolding unat_of_nat using b(3) assms(2) by (intro mod_less) simp
    then have "blockedUntil e \<noteq> 0" using b(1,2) by (metis add_eq_0_iff_both_eq_0 le_zero_eq unat_0 zero_neq_numeral)
    then have "\<not> t < b" using assms(3) sint_diff [OF assms(2) b(3)] by (simp add: peerBlocked_def b(1))
    then show ?thesis using b(2) by linarith
  qed
  show ?thesis
  proof (cases "60000 \<le> t - w")
    case True
    then have "authFailed e (of_nat t) = e\<lparr>windowStart := of_nat t, failures := 1\<rparr>"
      using elapsed [OF w(1) assms(2)] w(2) by (simp add: authFailed_def const_defs word_le_nat_alt)
    moreover have "w div 60000 + 1 \<le> t div 60000"
    proof -
      have "(w + 60000) div 60000 \<le> t div 60000" using True by (intro div_le_mono) linarith
      then show ?thesis by simp
    qed
    ultimately show ?thesis using w(3,4) unfolding entryInv_def by (intro exI [of _ t]) auto
  next
    case False
    then have f: "failures e \<noteq> 5" using passed by blast
    have lt: "unat (failures e) < 5" using w(3) f by (simp add: word_unat_eq_iff)
    have u: "unat (failures e + 1) = unat (failures e) + 1" using lt by (simp add: unat_add_no_wrap)
    have "authFailed e (of_nat t) = (if 5 \<le> failures e + 1
        then e\<lparr>failures := failures e + 1, blockedUntil := of_nat t + 60000\<rparr> else e\<lparr>failures := failures e + 1\<rparr>)"
      using False elapsed [OF w(1) assms(2)] w(2) by (simp add: authFailed_def const_defs)
    then show ?thesis using w u lt unfolding entryInv_def
      by (intro exI [of _ w]) (auto simp: word_le_nat_alt intro!: exI [of _ "t + 60000"])
  qed
qed

definition guessInv :: "u32 \<Rightarrow> nat \<Rightarrow> nat \<Rightarrow> AuthPeer list \<Rightarrow> bool" where
  "guessInv a t g peers \<longleftrightarrow> (case peerOf peers a of None \<Rightarrow> g = 0 | Some e \<Rightarrow> entryInv t g e)"

lemma entryInv_fresh: "entryInv t 0 (freshPeer ip (of_nat t))"
  unfolding entryInv_def by (intro exI [of _ t]) simp

lemma authStep_table:
  assumes "peerTable A peers" "ip \<in> A" "finite A" "card A \<le> 4"
  shows "peerTable A (authStep pin peers (t, ip, h))"
    and "b \<noteq> ip \<Longrightarrow> peerOf (authStep pin peers (t, ip, h)) b = peerOf peers b"
proof -
  obtain i peers' where f: "authPeerFor peers ip (of_nat t) = (i, peers')" by force
  note p = authPeerFor_table [OF assms f]
  have ip: "apIp (authFailed e now) = apIp e" "apUsed (authFailed e now) = apUsed e" for e now
    by (simp_all add: authFailed_def Let_def)
  show "peerTable A (authStep pin peers (t, ip, h))"
    using assms(1) p(1-4) by (auto simp: authStep_def writeAuthorized_def f Let_def ip intro!: peerTable_update)
  show "peerOf (authStep pin peers (t, ip, h)) b = peerOf peers b" if "b \<noteq> ip"
    using that p(6) [of b] p(3,4) peerOf_update [OF p(2,1,3)]
    by (auto simp: authStep_def writeAuthorized_def f Let_def ip)
qed

lemma guessInv_step:
  assumes "peerTable A peers" "ip \<in> A" "finite A" "card A \<le> 4" "guessInv a s g peers" "s \<le> t" "t < 2 ^ 31"
    and "ip = a \<Longrightarrow> \<not> pinMatches pin h"
  shows "guessInv a t (g + (if ip = a \<and> compared pin peers (t, ip, h) then 1 else 0)) (authStep pin peers (t, ip, h))"
proof (cases "ip = a \<and> cchar pin 0 \<noteq> NUL")
  case False
  then have "peerOf (authStep pin peers (t, ip, h)) a = peerOf peers a"
    using authStep_table(2) [OF assms(1-4), of a pin t h] by (auto simp: authStep_def writeAuthorized_def)
  moreover have "\<not> (ip = a \<and> compared pin peers (t, ip, h))" using False by (auto simp: compared_def)
  ultimately show ?thesis
    using assms(5,6) entryInv_mono by (auto simp: guessInv_def split: option.splits)
next
  case True
  obtain i peers' where f: "authPeerFor peers ip (of_nat t) = (i, peers')" by force
  then have f': "authPeerFor peers a (of_nat t) = (i, peers')" using True by simp
  note p = authPeerFor_table [OF assms(1-4) f]
  have e: "entryInv t g (peers' ! i)"
    using assms(5,6) entryInv_mono entryInv_fresh p(5) True by (auto simp: guessInv_def split: option.splits)
  show ?thesis
  proof (cases "peerBlocked (peers' ! i) (of_nat t)")
    case blocked: True
    then have "authStep pin peers (t, ip, h) = peers'" "\<not> compared pin peers (t, ip, h)"
      using True by (simp_all add: authStep_def writeAuthorized_def compared_def authPeerBlocked_def f')
    then show ?thesis using e p(6) [of a] True by (simp add: guessInv_def)
  next
    case False
    then have s: "authStep pin peers (t, ip, h) = peers'[i := authFailed (peers' ! i) (of_nat t)]"
      "compared pin peers (t, ip, h)"
      using True assms(8) by (simp_all add: authStep_def writeAuthorized_def compared_def authPeerBlocked_def f')
    have "peerOf (authStep pin peers (t, ip, h)) a = Some (authFailed (peers' ! i) (of_nat t))"
      unfolding s(1) using peerOf_update [OF p(2,1,3), of "authFailed (peers' ! i) (of_nat t)" a] p(3,4) True
      by (simp add: authFailed_def Let_def)
    then show ?thesis using entryInv_failed [OF e assms(7) False] True s(2) by (simp add: guessInv_def)
  qed
qed

lemma guesses_inv:
  assumes "peerTable A peers" "finite A" "card A \<le> 4" "guessInv a s g peers" "sorted (s # map fst rs)"
    and "\<forall>r\<in>set rs. fst r \<le> t \<and> fst (snd r) \<in> A \<and> (fst (snd r) = a \<longrightarrow> \<not> pinMatches pin (snd (snd r)))"
    and "t < 2 ^ 31" "s \<le> t"
  shows "g + guesses pin a peers rs \<le> 5 * (t div 60000 + 1)"
  using assms
proof (induction rs arbitrary: peers s g)
  case Nil
  then show ?case
    using entryInv_bound [OF entryInv_mono] by (auto simp: guessInv_def split: option.splits)
next
  case (Cons r rs)
  obtain u ip h where r: "r = (u, ip, h)" by (cases r)
  have u: "ip \<in> A" "s \<le> u" "u < 2 ^ 31" "u \<le> t" "ip = a \<Longrightarrow> \<not> pinMatches pin h"
    using Cons.prems(5-7) r by auto
  note step = guessInv_step [OF Cons.prems(1) u(1) Cons.prems(2-4) u(2,3,5)]
  have "g + (if ip = a \<and> compared pin peers r then 1 else 0) + guesses pin a (authStep pin peers r) rs
      \<le> 5 * (t div 60000 + 1)"
    using Cons.IH [OF authStep_table(1) [OF Cons.prems(1) u(1) Cons.prems(2,3)] Cons.prems(2,3) step] Cons.prems(5-7) u(4)
    by (simp add: r)
  then show ?case by (simp add: r)
qed

section \<open>Five addresses\<close>

text \<open>The table when five addresses take turns: three entries stay, the first is taken over.\<close>

definition turn :: "nat \<Rightarrow> string \<Rightarrow> auth_request list" where
  "turn t wrong = replicate 5 (t, 1, Some wrong) @ map (\<lambda>ip. (t, ip, Some wrong)) [2, 3, 4, 5]"

definition entryAt :: "u32 \<Rightarrow> u32 \<Rightarrow> AuthPeer \<Rightarrow> bool" where
  "entryAt ip now p \<longleftrightarrow> apUsed p \<and> apIp p = ip \<and> windowStart p = now"

definition tableAt :: "u32 \<Rightarrow> AuthPeer list \<Rightarrow> bool" where
  "tableAt now peers \<longleftrightarrow> (\<exists>p0 p1 p2 p3. peers = [p0, p1, p2, p3] \<and> entryAt 5 now p0 \<and> entryAt 2 now p1
     \<and> entryAt 3 now p2 \<and> entryAt 4 now p3)"

lemma upto_4: "[0..<4] = [0, 1, 2, 3::nat]"
  by (simp add: upt_rec)

text \<open>A wrong PIN keeps an entry of this moment in its place.\<close>

lemma authStep_wrong:
  assumes "authPeerFor peers ip (of_nat t) = (i, peers')" "\<not> pinMatches pin (Some w)" "cchar pin 0 \<noteq> NUL"
  shows "authStep pin peers (t, ip, Some w) =
      (if peerBlocked (peers' ! i) (of_nat t) then peers' else peers'[i := authFailed (peers' ! i) (of_nat t)])"
    and "compared pin peers (t, ip, Some w) \<longleftrightarrow> \<not> peerBlocked (peers' ! i) (of_nat t)"
  using assms by (simp_all add: authStep_def writeAuthorized_def compared_def authPeerBlocked_def)

lemma authFailed_at [simp]: "entryAt ip now (authFailed p now) \<longleftrightarrow> entryAt ip now p" if "windowStart p = now"
  using that by (simp add: entryAt_def authFailed_def const_defs Let_def)

definition tried :: "u32 \<Rightarrow> byte \<Rightarrow> AuthPeer" where
  "tried now n = (freshPeer 1 now)\<lparr>failures := n, blockedUntil := (if n = 5 then now + 60000 else 0)\<rparr>"

lemma tried_step:
  assumes "n < 5" shows "authFailed (tried now n) now = tried now (n + 1)" "\<not> peerBlocked (tried now n) now"
proof -
  have "unat (n + 1) = unat n + 1" using assms by (simp add: unat_add_no_wrap word_less_nat_alt)
  then have "5 \<le> n + 1 \<longleftrightarrow> n + 1 = 5" using assms by (auto simp: word_le_nat_alt word_less_nat_alt word_unat_eq_iff)
  then show "authFailed (tried now n) now = tried now (n + 1)"
    using assms by (auto simp: authFailed_def tried_def freshPeer_def const_defs Let_def)
  show "\<not> peerBlocked (tried now n) now" using assms by (auto simp: peerBlocked_def tried_def)
qed

lemma guesses_first:
  assumes "authPeerFor peers 1 (of_nat t) = (0, freshPeer 1 (of_nat t) # ps)" "\<not> pinMatches pin (Some w)" "cchar pin 0 \<noteq> NUL"
  shows "guesses pin 1 peers (replicate 5 (t, 1, Some w) @ rs) = 5 + guesses pin 1 (tried (of_nat t) 5 # ps) rs"
proof -
  have f0: "freshPeer 1 (of_nat t) = tried (of_nat t) 0" by (simp add: tried_def freshPeer_def noPeer_def)
  have f: "authPeerFor (tried (of_nat t) n # ps) 1 (of_nat t) = (0, tried (of_nat t) n # ps)" for n
    by (simp add: authPeerFor_def upto_4 tried_def)
  have first: "authStep pin peers (t, 1, Some w) = tried (of_nat t) 1 # ps" "compared pin peers (t, 1, Some w)"
    using authStep_wrong [OF assms] tried_step [of 0 "of_nat t"] unfolding f0 by simp_all
  have step: "authStep pin (tried (of_nat t) n # ps) (t, 1, Some w) = tried (of_nat t) (n + 1) # ps"
    "compared pin (tried (of_nat t) n # ps) (t, 1, Some w)" if "n < 5" for n
    using authStep_wrong [OF f assms(2,3), of n] tried_step [OF that, of "of_nat t"] by simp_all
  have five: "replicate 5 x = [x, x, x, x, x]" for x :: auth_request by (simp add: numeral_eq_Suc)
  show ?thesis
    using first step [of 1] step [of 2] step [of 3] step [of 4] by (simp add: five word_less_nat_alt)
qed

lemma entryAt_simps:
  "entryAt ip now p \<Longrightarrow> apUsed p" "entryAt ip now p \<Longrightarrow> apIp p = ip" "entryAt ip now p \<Longrightarrow> windowStart p = now"
  "entryAt ip now (freshPeer ip now)"
  by (simp_all add: entryAt_def)

lemma others_step:
  assumes "\<not> pinMatches pin (Some w)" "cchar pin 0 \<noteq> NUL" "entryAt 1 (of_nat t) p0"
  shows "p1 = noPeer \<or> entryAt 2 (of_nat t) p1 \<Longrightarrow>
      \<exists>q. authStep pin [p0, p1, p2, p3] (t, 2, Some w) = [p0, q, p2, p3] \<and> entryAt 2 (of_nat t) q"
    and "entryAt 2 (of_nat t) p1 \<Longrightarrow> p2 = noPeer \<or> entryAt 3 (of_nat t) p2 \<Longrightarrow>
      \<exists>q. authStep pin [p0, p1, p2, p3] (t, 3, Some w) = [p0, p1, q, p3] \<and> entryAt 3 (of_nat t) q"
    and "entryAt 2 (of_nat t) p1 \<Longrightarrow> entryAt 3 (of_nat t) p2 \<Longrightarrow> p3 = noPeer \<or> entryAt 4 (of_nat t) p3 \<Longrightarrow>
      \<exists>q. authStep pin [p0, p1, p2, p3] (t, 4, Some w) = [p0, p1, p2, q] \<and> entryAt 4 (of_nat t) q"
    and "entryAt 2 (of_nat t) p1 \<Longrightarrow> entryAt 3 (of_nat t) p2 \<Longrightarrow> entryAt 4 (of_nat t) p3 \<Longrightarrow>
      \<exists>q. authStep pin [p0, p1, p2, p3] (t, 5, Some w) = [q, p1, p2, p3] \<and> entryAt 5 (of_nat t) q"
proof -
  note e = entryAt_simps [of _ "of_nat t"]
  note at = authStep_wrong(1) [OF _ assms(1,2)]
  have find: "authPeerFor [p0, p1, p2, p3] 2 (of_nat t) = (1, [p0, if p1 = noPeer then freshPeer 2 (of_nat t) else p1, p2, p3])"
    if "p1 = noPeer \<or> entryAt 2 (of_nat t) p1"
    using that assms(3) by (auto simp: authPeerFor_def upto_4 e(1-3) freshPeer_def)
  then show "\<exists>q. authStep pin [p0, p1, p2, p3] (t, 2, Some w) = [p0, q, p2, p3] \<and> entryAt 2 (of_nat t) q"
    if "p1 = noPeer \<or> entryAt 2 (of_nat t) p1" using that at [OF find [OF that]] e(3,4) by auto
  have find: "authPeerFor [p0, p1, p2, p3] 3 (of_nat t) = (2, [p0, p1, if p2 = noPeer then freshPeer 3 (of_nat t) else p2, p3])"
    if "entryAt 2 (of_nat t) p1" "p2 = noPeer \<or> entryAt 3 (of_nat t) p2"
    using that assms(3) by (auto simp: authPeerFor_def upto_4 e(1-3) freshPeer_def)
  then show "\<exists>q. authStep pin [p0, p1, p2, p3] (t, 3, Some w) = [p0, p1, q, p3] \<and> entryAt 3 (of_nat t) q"
    if "entryAt 2 (of_nat t) p1" "p2 = noPeer \<or> entryAt 3 (of_nat t) p2" using that at [OF find [OF that]] e(3,4) by auto
  have find: "authPeerFor [p0, p1, p2, p3] 4 (of_nat t) = (3, [p0, p1, p2, if p3 = noPeer then freshPeer 4 (of_nat t) else p3])"
    if "entryAt 2 (of_nat t) p1" "entryAt 3 (of_nat t) p2" "p3 = noPeer \<or> entryAt 4 (of_nat t) p3"
    using that assms(3) by (auto simp: authPeerFor_def upto_4 e(1-3) freshPeer_def)
  then show "\<exists>q. authStep pin [p0, p1, p2, p3] (t, 4, Some w) = [p0, p1, p2, q] \<and> entryAt 4 (of_nat t) q"
    if "entryAt 2 (of_nat t) p1" "entryAt 3 (of_nat t) p2" "p3 = noPeer \<or> entryAt 4 (of_nat t) p3"
    using that at [OF find [OF that]] e(3,4) by auto
  have find: "authPeerFor [p0, p1, p2, p3] 5 (of_nat t) = (0, [freshPeer 5 (of_nat t), p1, p2, p3])"
    if "entryAt 2 (of_nat t) p1" "entryAt 3 (of_nat t) p2" "entryAt 4 (of_nat t) p3"
    using that assms(3) by (auto simp: authPeerFor_def upto_4 e(1-3) freshPeer_def)
  then show "\<exists>q. authStep pin [p0, p1, p2, p3] (t, 5, Some w) = [q, p1, p2, p3] \<and> entryAt 5 (of_nat t) q"
    if "entryAt 2 (of_nat t) p1" "entryAt 3 (of_nat t) p2" "entryAt 4 (of_nat t) p3"
    using that at [OF find [OF that]] e(3,4) by auto
qed

lemma guesses_turn:
  assumes "\<not> pinMatches pin (Some w)" "cchar pin 0 \<noteq> NUL" "peers = authPeers0 \<or> tableAt (of_nat t) peers"
  shows "\<exists>peers'. guesses pin 1 peers (turn t w @ rs) = 5 + guesses pin 1 peers' rs \<and> tableAt (of_nat t) peers'"
proof -
  obtain p1 p2 p3 where p: "authPeerFor peers 1 (of_nat t) = (0, freshPeer 1 (of_nat t) # [p1, p2, p3])"
    "p1 = noPeer \<or> entryAt 2 (of_nat t) p1" "p2 = noPeer \<or> entryAt 3 (of_nat t) p2" "p3 = noPeer \<or> entryAt 4 (of_nat t) p3"
    using assms(3)
  proof
    assume "peers = authPeers0"
    then show thesis using that [of noPeer noPeer noPeer]
      by (simp add: authPeers0_def numeral_eq_Suc authPeerFor_def upto_4 freshPeer_def)
  next
    assume "tableAt (of_nat t) peers"
    then obtain p0 p1 p2 p3 where "peers = [p0, p1, p2, p3]" "entryAt 5 (of_nat t) p0" "entryAt 2 (of_nat t) p1"
      "entryAt 3 (of_nat t) p2" "entryAt 4 (of_nat t) p3" unfolding tableAt_def by blast
    then show thesis using that [of p1 p2 p3]
      by (simp add: authPeerFor_def upto_4 freshPeer_def entryAt_simps(1-3) [of _ "of_nat t"])
  qed
  have e: "entryAt 1 (of_nat t) (tried (of_nat t) 5)" by (simp add: tried_def entryAt_def)
  note s = others_step [OF assms(1,2) e]
  obtain q1 where q1: "authStep pin [tried (of_nat t) 5, p1, p2, p3] (t, 2, Some w) = [tried (of_nat t) 5, q1, p2, p3]"
    "entryAt 2 (of_nat t) q1" using s(1) [OF p(2)] by blast
  obtain q2 where q2: "authStep pin [tried (of_nat t) 5, q1, p2, p3] (t, 3, Some w) = [tried (of_nat t) 5, q1, q2, p3]"
    "entryAt 3 (of_nat t) q2" using s(2) [OF q1(2) p(3)] by blast
  obtain q3 where q3: "authStep pin [tried (of_nat t) 5, q1, q2, p3] (t, 4, Some w) = [tried (of_nat t) 5, q1, q2, q3]"
    "entryAt 4 (of_nat t) q3" using s(3) [OF q1(2) q2(2) p(4)] by blast
  obtain q0 where q0: "authStep pin [tried (of_nat t) 5, q1, q2, q3] (t, 5, Some w) = [q0, q1, q2, q3]"
    "entryAt 5 (of_nat t) q0" using s(4) [OF q1(2) q2(2) q3(2)] by blast
  have "guesses pin 1 peers (turn t w @ rs) = 5 + guesses pin 1 [q0, q1, q2, q3] rs"
    unfolding turn_def append_assoc guesses_first [OF p(1) assms(1,2)] by (simp add: q1 q2 q3 q0)
  then show ?thesis using q0(2) q1(2) q2(2) q3(2) unfolding tableAt_def by blast
qed

lemma guesses_turns:
  assumes "\<not> pinMatches pin (Some w)" "cchar pin 0 \<noteq> NUL" "peers = authPeers0 \<or> tableAt (of_nat t) peers"
  shows "guesses pin 1 peers (concat (replicate k (turn t w))) = 5 * k"
  using assms(3)
proof (induction k arbitrary: peers)
  case (Suc k)
  from guesses_turn [OF assms(1,2) Suc.prems, of "concat (replicate k (turn t w))"] Suc.IH show ?case by auto
qed simp

section \<open>The generated PIN\<close>

lemma alphabet: "length WritePinAlphabet = 32" "distinct WritePinAlphabet" "NUL \<notin> set WritePinAlphabet"
  by (simp_all add: WritePinAlphabet_def)

lemma pinCount_ok: "set s \<subseteq> set WritePinAlphabet \<Longrightarrow> n + length s \<le> 8 \<Longrightarrow> pinCount n s = Some (n + length s)"
  by (induction s arbitrary: n) (auto simp: WritePinLength_def)

lemma low5: "unat (b AND 0x1F :: byte) = unat b mod 32"
  using unat_and_mask [of b 5] by (simp add: mask_eq_exp_minus_1)

text \<open>Eight bytes of entropy make a PIN of eight symbols, which is recognised as generated and which the
  comparison accepts; every such PIN arises, each from as many entropy values.\<close>

lemma generated_pin:
  assumes "length entropy = 8"
  shows "\<exists>pin. writePinFromEntropy entropy 9 = Some pin \<and> writePinLooksGenerated pin \<and> pinMatches pin (Some pin)"
proof -
  define pin where "pin = map (\<lambda>i. WritePinAlphabet ! unat (entropy ! i AND 0x1F)) [0..<8]"
  have "set pin \<subseteq> set WritePinAlphabet" using alphabet(1) by (auto simp: pin_def low5 intro!: nth_mem)
  moreover have "length pin = 8" by (simp add: pin_def)
  ultimately have "writePinLooksGenerated pin" "fitsBuffer 16 pin"
    using pinCount_ok [of pin 0] alphabet(3) by (auto simp: writePinLooksGenerated_def WritePinLength_def fitsBuffer_def)
  moreover have "pinMatches pin (Some pin)"
    using pinMatches_iff [OF _ calculation(2), of pin] calculation(2) by (simp add: fitsBuffer_def)
  moreover have "writePinFromEntropy entropy 9 = Some pin"
    by (simp add: writePinFromEntropy_def pin_def WritePinLength_def)
  ultimately show ?thesis by blast
qed

lemma looks_generated_iff:
  "writePinLooksGenerated pin \<longleftrightarrow> length pin = 8 \<and> set pin \<subseteq> set WritePinAlphabet"
proof -
  have count: "pinCount n s = Some m \<Longrightarrow> m = n + length s \<and> set s \<subseteq> set WritePinAlphabet" for n m s
    by (induction s arbitrary: n) (fastforce split: if_splits)+
  show ?thesis using pinCount_ok [of pin 0] count [of 0 pin 8] by (auto simp: writePinLooksGenerated_def WritePinLength_def)
qed

section \<open>A block that comes back\<close>

text \<open>The end of a block is compared as a signed difference and only a right PIN clears it, so an address
  that was blocked and stays away is refused again 24.8 days later, with the right PIN, for 24.8 days.\<close>

lemma authPeers0_list: "authPeers0 = [noPeer, noPeer, noPeer, noPeer]"
  and three: "replicate 3 noPeer = [noPeer, noPeer, noPeer]"
  by (simp_all add: authPeers0_def numeral_eq_Suc)

lemma five_wrong:
  assumes "\<not> pinMatches pin (Some w)" "cchar pin 0 \<noteq> NUL"
  shows "foldl (authStep pin) authPeers0 (replicate 5 (0, 1, Some w)) = tried 0 5 # replicate 3 noPeer"
proof -
  have f: "authPeerFor (tried 0 n # ps) 1 (of_nat 0) = (0, tried 0 n # ps)" for n ps
    by (simp add: authPeerFor_def upto_4 tried_def)
  have f0: "authPeerFor authPeers0 1 (of_nat 0) = (0, tried 0 0 # replicate 3 noPeer)"
    unfolding authPeers0_list three by (simp add: authPeerFor_def upto_4 tried_def freshPeer_def noPeer_def Let_def)
  have first: "authStep pin authPeers0 (0, 1, Some w) = tried 0 1 # replicate 3 noPeer"
    using authStep_wrong [OF f0 assms] tried_step [of 0 0] by simp
  have step: "authStep pin (tried 0 n # ps) (0, 1, Some w) = tried 0 (n + 1) # ps" if "n < 5" for n ps
    using authStep_wrong [OF f assms, of n] tried_step [OF that, of 0] by simp
  have five: "replicate 5 x = [x, x, x, x, x]" for x :: auth_request by (simp add: numeral_eq_Suc)
  show ?thesis using first step [of 1] step [of 2] step [of 3] step [of 4] by (simp add: five word_less_nat_alt)
qed

theorem stale_block_refuses_pin:
  fixes pin w :: string and t :: nat
  assumes "fitsBuffer 16 pin" "pin \<noteq> ''''" "NUL \<notin> set w" "w \<noteq> pin" "60000 \<le> t" "t < 2 ^ 32 + 60000"
  defines "peers \<equiv> foldl (authStep pin) authPeers0 (replicate 5 (0, 1, Some w))"
  shows "fst (writeAuthorized pin peers 1 (of_nat t) (Some pin)) \<longleftrightarrow> t < 2 ^ 31 + 60000"
proof -
  have nul: "cchar pin 0 \<noteq> NUL" "NUL \<notin> set pin" using assms(1,2) by (cases pin; auto simp: fitsBuffer_def)+
  have wrong: "\<not> pinMatches pin (Some w)" using pinMatches_iff assms(1,3,4) by blast
  have right: "pinMatches pin (Some pin)" using pinMatches_iff assms(1) nul(2) by blast
  have f: "authPeerFor (tried 0 5 # ps) 1 (of_nat t) = (0, tried 0 5 # ps)" for ps
    by (simp add: authPeerFor_def upto_4 tried_def)
  have e: "(of_nat t - 60000 :: u32) = word_of_int (int t - 60000)" by simp
  have "sint (of_nat t - 60000 :: u32) < 0 \<longleftrightarrow> \<not> t < 2 ^ 31 + 60000"
  proof (cases "t < 2 ^ 31 + 60000")
    case True
    then have "sint (of_nat t - 60000 :: u32) = int t - 60000"
      unfolding e sint_sbintrunc' using assms(5) by (simp add: signed_take_bit_int_eq_self)
    then show ?thesis using True assms(5) by simp
  next
    case False
    have "sint (of_nat t - 60000 :: u32) = int t - 60000 - 2 ^ 32"
    proof -
      have "(of_nat t - 60000 :: u32) = word_of_int (int t - 60000 - 2 ^ 32)" by simp
      then show ?thesis
        using False assms(6) by (simp only: sint_sbintrunc') (simp add: signed_take_bit_int_eq_self)
    qed
    then show ?thesis using False assms(6) by simp
  qed
  then have b: "peerBlocked (tried 0 5) (of_nat t) \<longleftrightarrow> \<not> t < 2 ^ 31 + 60000"
    by (simp add: peerBlocked_def tried_def)
  show ?thesis
    unfolding peers_def five_wrong [OF wrong nul(1)] writeAuthorized_def if_not_P [OF nul(1)] f prod.case Let_def
      nth_Cons_0 b using right by simp
qed

section \<open>Properties\<close>



text \<open>The table holds four peers, and a fifth address takes over the entry of a blocked one: five
  addresses taking turns get five guesses compared in every turn, without any limit, even at one and
  the same millisecond.\<close>

theorem five_addresses_defeat_limit:
  assumes "fitsBuffer 16 pin" "pin \<noteq> ''''" "NUL \<notin> set w" "w \<noteq> pin"
  shows "guesses pin 1 authPeers0 (concat (replicate k (turn t w))) = 5 * k"
proof -
  have "cchar pin 0 \<noteq> NUL" using assms(1,2) by (cases pin) (auto simp: fitsBuffer_def)
  moreover have "\<not> pinMatches pin (Some w)" using pinMatches_iff assms(1,3,4) by blast
  ultimately show ?thesis using guesses_turns by blast
qed

lemma five_addresses_defeat_limit_witness:
  "guesses ''K3Y'' 1 authPeers0 (concat (replicate 1000 (turn 0 ''X''))) = 5000"
  using five_addresses_defeat_limit [of "''K3Y''" "''X''" 1000 0] by (simp add: fitsBuffer_def)

end
