(* ===== verification/Web_Api.thy ===== *)
theory Web_Api
  imports Web_Auth Capture
begin

text \<open>
  \<open>src/src/web_handlers.cpp\<close>: the API behind the authorisation. Every request under \<open>/api\<close> passes
  \<open>requireApiAuthorization\<close>, which ends the response of a refused one; the handlers of the requests that
  change something check the PIN and the update in progress once more. \<open>apiRequest\<close> is one request: it
  returns the status and the new state, made of the configuration, the peer table, the card, the capture
  state and the list of calls made to the hardware.

  What the running device answers while a request is handled (\<open>WebEnv\<close>) is a parameter: addresses and
  host name, whether an update is in progress, what \<open>configApplyDocument\<close> reads, whether a card is there. The
  two readings of the clock within one authorisation are taken to be the same. Of the GET handlers only the
  configuration's is modelled, the others read; the update and waveform uploads have their own theories.
\<close>

datatype Endpoint =
  ApiConfigGet | ApiConfigPost | ApiConfigImport | ApiPresetsSave | ApiPresetsLoad | ApiPresetsDelete
| ApiFaultClear | ApiScopeArm | ApiScopeRelease

record ApiReq =
  rqEndpoint :: Endpoint
  rqTime :: u32
  rqIp :: u32
  rqPin :: "string option"
  rqHost :: string
  rqOrigin :: string
  rqBody :: "byte list"

record WebEnv =
  subnetMask :: "byte \<times> byte \<times> byte \<times> byte"
  localIP :: "byte \<times> byte \<times> byte \<times> byte"
  hostname :: string
  otaInProgress :: bool
  sdAvailable :: bool
  liveView :: LiveView

datatype DevCall = Hw HwCall | ClearFaultTrip bool

record 'c WebState =
  wsConfig :: MainConfig
  wsPeers :: "AuthPeer list"
  wsDisk :: 'c
  wsCapture :: CaptureState
  wsSaveNeeded :: bool
  wsCalls :: "DevCall list"

definition requireApiAuthorization ::
    "WebEnv \<Rightarrow> ApiReq \<Rightarrow> string \<Rightarrow> AuthPeer list \<Rightarrow> nat option \<times> AuthPeer list" where
  "requireApiAuthorization env r pin peers =
     (if \<not> requestPeerIsLocal (packIp (subnetMask env)) (packIp (localIP env)) (rqIp r)
        \<or> \<not> authorityAllowed (localIP env) (hostname env) (rqHost r) (rqOrigin r)
      then (Some 403, peers)
      else let (ok, peers) = writeAuthorized pin peers (rqIp r) (rqTime r) (rqPin r) in
        if ok then (None, peers)
        else let (blocked, peers) = authPeerBlocked peers (rqIp r) (rqTime r)
             in (Some (if blocked then 429 else 401), peers))"

definition writeConfigJson :: "JsonLib \<Rightarrow> MainConfig \<Rightarrow> json" where
  "writeConfigJson J config = redactSecrets J (configToJson config)"

text \<open>The checks every changing handler starts with.\<close>

definition guardedWrite ::
    "WebEnv \<Rightarrow> ApiReq \<Rightarrow> ('c WebState \<Rightarrow> nat \<times> 'c WebState) \<Rightarrow> 'c WebState \<Rightarrow> nat \<times> 'c WebState" where
  "guardedWrite env r handler w =
     (let (ok, peers) = writeAuthorized (WritePin (Security (wsConfig w))) (wsPeers w) (rqIp r) (rqTime r) (rqPin r);
          w = w\<lparr>wsPeers := peers\<rparr>
      in if \<not> ok then (401, w) else if otaInProgress env then (409, w) else handler w)"

definition applyToDevice :: "'c WebState \<Rightarrow> MainConfig \<Rightarrow> HwCall list \<Rightarrow> 'c WebState" where
  "applyToDevice w config calls =
     w\<lparr>wsConfig := config, wsCalls := wsCalls w @ map Hw calls, wsSaveNeeded := True\<rparr>"

definition api_config_post :: "JsonLib \<Rightarrow> WebEnv \<Rightarrow> ApiReq \<Rightarrow> 'c WebState \<Rightarrow> nat \<times> 'c WebState" where
  "api_config_post J env r w =
     (case deserializeJson J (rqBody r) of None \<Rightarrow> (400, w)
      | Some doc \<Rightarrow>
          if \<not> configDocComplete J doc then (400, w)
          else let previous = wsConfig w;
                   candidate = preserveSecrets (configFromJson J doc defaultConfig) previous in
            if configApiRejectReason candidate \<noteq> None then (422, w)
            else let candidate = fst (validateConfig candidate) in
              if \<not> pvValid (validatePinOwnership candidate) then (422, w)
              else (200, applyToDevice w candidate
                ([DisablePwmInterrupts, ApplyPwmConfig previous candidate]
                 @ (if intRequiredAfter (liveView env) \<and> \<not> faultAfter (liveView env)
                    then [AttachModule2Vectors, EnablePwmInterrupts] else []))))"

text \<open>\<open>presetResult\<close> answers 200 or 400; an applied document changes the device.\<close>

definition presetResult :: "string option \<Rightarrow> nat" where
  "presetResult err = (if err = None then 200 else 400)"

definition appliedState :: "'c WebState \<Rightarrow> ApplyResult \<Rightarrow> nat \<times> 'c WebState" where
  "appliedState w a =
     (presetResult (applyError a),
      if applyError a = None then applyToDevice w (applyConfig a) (applyCalls a) else w)"

definition api_config_import :: "JsonLib \<Rightarrow> WebEnv \<Rightarrow> ApiReq \<Rightarrow> 'c WebState \<Rightarrow> nat \<times> 'c WebState" where
  "api_config_import J env r w =
     (case deserializeJson J (rqBody r) of None \<Rightarrow> (400, w)
      | Some doc \<Rightarrow> appliedState w (configApplyDocument J (liveView env) (wsConfig w) doc))"

definition presetNameFromBody :: "JsonLib \<Rightarrow> ApiReq \<Rightarrow> string option" where
  "presetNameFromBody J r =
     (case deserializeJson J (rqBody r) of None \<Rightarrow> None
      | Some doc \<Rightarrow> (let name = asStr J doc ''name'' '''' in
          if \<not> presetNameValid name then None else Some (take PresetNameMax name)))"

text \<open>The disk a card operation leaves is the last of its trace.\<close>

definition afterTrace :: "'c WebState \<Rightarrow> string option \<times> 'c list \<Rightarrow> nat \<times> 'c WebState" where
  "afterTrace w a = (presetResult (fst a), w\<lparr>wsDisk := last (wsDisk w # snd a)\<rparr>)"

definition api_presets_save ::
    "('c, 'm) PresetLib_scheme \<Rightarrow> JsonLib \<Rightarrow> WebEnv \<Rightarrow> ApiReq \<Rightarrow> 'c WebState \<Rightarrow> nat \<times> 'c WebState" where
  "api_presets_save D J env r w =
     (case presetNameFromBody J r of None \<Rightarrow> (400, w)
      | Some name \<Rightarrow> afterTrace w (presetSave D J (sdAvailable env) (wsConfig w) name (wsDisk w)))"

definition api_presets_load ::
    "('c, 'm) PresetLib_scheme \<Rightarrow> JsonLib \<Rightarrow> WebEnv \<Rightarrow> ApiReq \<Rightarrow> 'c WebState \<Rightarrow> nat \<times> 'c WebState" where
  "api_presets_load D J env r w =
     (case presetNameFromBody J r of None \<Rightarrow> (400, w)
      | Some name \<Rightarrow>
          appliedState w (presetLoad D J (sdAvailable env) (liveView env) (wsConfig w) name (wsDisk w)))"

definition api_presets_delete ::
    "('c, 'm) PresetLib_scheme \<Rightarrow> JsonLib \<Rightarrow> WebEnv \<Rightarrow> ApiReq \<Rightarrow> 'c WebState \<Rightarrow> nat \<times> 'c WebState" where
  "api_presets_delete D J env r w =
     (case presetNameFromBody J r of None \<Rightarrow> (400, w)
      | Some name \<Rightarrow> afterTrace w (presetDelete D (sdAvailable env) name (wsDisk w)))"

definition api_fault_clear :: "'c WebState \<Rightarrow> nat \<times> 'c WebState" where
  "api_fault_clear w = (200, w\<lparr>wsCalls := wsCalls w @ [ClearFaultTrip True]\<rparr>)"

definition api_scope_arm :: "JsonLib \<Rightarrow> ApiReq \<Rightarrow> 'c WebState \<Rightarrow> nat \<times> 'c WebState" where
  "api_scope_arm J r w =
     (case deserializeJson J (rqBody r) of None \<Rightarrow> (400, w)
      | Some doc \<Rightarrow>
          (let source = asStr J doc ''source'' ''v''; edge = asStr J doc ''edge'' ''rising'';
               levelMv = word_of_int (asInt J TInt doc ''levelMv'' 1650);
               postSamples = (word_of_int (asInt J TInt doc ''postSamples'' 4096) :: u32);
               postSamples = (if postSamples > CaptureRingSamples then CaptureRingSamples else postSamples);
               (ok, c) = captureScopeArm (cchar source 0 = CHR ''i'') (scopeLevelCounts levelMv)
                 (cchar edge 0 = CHR ''f'') postSamples (wsCapture w)
           in if \<not> ok then (409, w) else (200, w\<lparr>wsCapture := c\<rparr>)))"

definition api_scope_release :: "'c WebState \<Rightarrow> nat \<times> 'c WebState" where
  "api_scope_release w = (200, w\<lparr>wsCapture := captureScopeRelease (wsCapture w)\<rparr>)"

text \<open>The router.\<close>

definition apiHandler ::
    "('c, 'm) PresetLib_scheme \<Rightarrow> JsonLib \<Rightarrow> WebEnv \<Rightarrow> ApiReq \<Rightarrow> 'c WebState \<Rightarrow> nat \<times> 'c WebState" where
  "apiHandler D J env r w = (case rqEndpoint r of
       ApiConfigGet \<Rightarrow> (200, w)
     | ApiConfigPost \<Rightarrow> guardedWrite env r (api_config_post J env r) w
     | ApiConfigImport \<Rightarrow> guardedWrite env r (api_config_import J env r) w
     | ApiPresetsSave \<Rightarrow> guardedWrite env r (api_presets_save D J env r) w
     | ApiPresetsLoad \<Rightarrow> guardedWrite env r (api_presets_load D J env r) w
     | ApiPresetsDelete \<Rightarrow> guardedWrite env r (api_presets_delete D J env r) w
     | ApiFaultClear \<Rightarrow> guardedWrite env r api_fault_clear w
     | ApiScopeArm \<Rightarrow> guardedWrite env r (api_scope_arm J r) w
     | ApiScopeRelease \<Rightarrow> guardedWrite env r api_scope_release w)"

definition apiRequest ::
    "('c, 'm) PresetLib_scheme \<Rightarrow> JsonLib \<Rightarrow> WebEnv \<Rightarrow> ApiReq \<Rightarrow> 'c WebState \<Rightarrow> nat \<times> 'c WebState" where
  "apiRequest D J env r w =
     (let (ended, peers) = requireApiAuthorization env r (WritePin (Security (wsConfig w))) (wsPeers w);
          w = w\<lparr>wsPeers := peers\<rparr>
      in case ended of Some status \<Rightarrow> (status, w) | None \<Rightarrow> apiHandler D J env r w)"

section \<open>Who may change what\<close>

text \<open>The state apart from the peer table, which every request may change.\<close>

definition sameDevice :: "'c WebState \<Rightarrow> 'c WebState \<Rightarrow> bool" where
  "sameDevice w w' \<longleftrightarrow> w'\<lparr>wsPeers := wsPeers w\<rparr> = w"

definition mayWrite :: "WebEnv \<Rightarrow> ApiReq \<Rightarrow> string \<Rightarrow> bool" where
  "mayWrite env r pin \<longleftrightarrow> pin \<noteq> '''' \<and> rqPin r = Some pin \<and> \<not> otaInProgress env
     \<and> requestPeerIsLocal (packIp (subnetMask env)) (packIp (localIP env)) (rqIp r)
     \<and> authorityAllowed (localIP env) (hostname env) (rqHost r) (rqOrigin r)"

lemma sameDevice_simps [simp]:
  "sameDevice w w" "sameDevice w (w\<lparr>wsPeers := p\<rparr>)" "sameDevice (w\<lparr>wsPeers := p\<rparr>) w' \<longleftrightarrow> sameDevice w w'"
  by (cases w; cases w'; simp add: sameDevice_def)+

lemma sameDevice_config: "sameDevice w w' \<Longrightarrow> wsConfig w' = wsConfig w"
  by (cases w; cases w') (simp add: sameDevice_def)

lemma sameDevice_trans: "sameDevice w w' \<Longrightarrow> sameDevice w' w'' \<Longrightarrow> sameDevice w w''"
  by (cases w; cases w'; cases w'') (simp add: sameDevice_def)

lemma writeAuthorized_pin:
  assumes "fst (writeAuthorized pin peers ip now h)" "fitsBuffer 16 pin" "\<And>p. h = Some p \<Longrightarrow> NUL \<notin> set p"
  shows "h = Some pin \<and> pin \<noteq> ''''"
proof -
  have "pinMatches pin h" "cchar pin 0 \<noteq> NUL"
    using assms(1) by (auto simp: writeAuthorized_def Let_def split: if_splits prod.splits)
  then show ?thesis using assms(2,3) pinMatches_iff by (cases h) (auto simp: pinMatches_def [of pin None])
qed

lemma guardedWrite_same:
  "sameDevice w (snd (guardedWrite env r handler w)) \<or>
     fst (writeAuthorized (WritePin (Security (wsConfig w))) (wsPeers w) (rqIp r) (rqTime r) (rqPin r))
     \<and> \<not> otaInProgress env"
  by (simp add: guardedWrite_def Let_def split: prod.splits)

lemma apiRequest_may_write:
  assumes "fitsBuffer 16 (WritePin (Security (wsConfig w)))" "\<And>p. rqPin r = Some p \<Longrightarrow> NUL \<notin> set p"
    and "\<not> sameDevice w (snd (apiRequest D J env r w))"
  shows "mayWrite env r (WritePin (Security (wsConfig w)))"
proof -
  obtain ended peers where e: "requireApiAuthorization env r (WritePin (Security (wsConfig w))) (wsPeers w) = (ended, peers)"
    by force
  have none: "ended = None" and h: "\<not> sameDevice w (snd (apiHandler D J env r (w\<lparr>wsPeers := peers\<rparr>)))"
    using assms(3) by (auto simp: apiRequest_def e Let_def split: option.splits)
  have "fst (writeAuthorized (WritePin (Security (wsConfig w))) (wsPeers w) (rqIp r) (rqTime r) (rqPin r))"
    "requestPeerIsLocal (packIp (subnetMask env)) (packIp (localIP env)) (rqIp r)"
    "authorityAllowed (localIP env) (hostname env) (rqHost r) (rqOrigin r)"
    using e unfolding none requireApiAuthorization_def by (auto split: if_splits prod.splits)
  moreover have "\<not> otaInProgress env"
  proof
    assume "otaInProgress env"
    then have "sameDevice (w\<lparr>wsPeers := peers\<rparr>) (snd (guardedWrite env r handler (w\<lparr>wsPeers := peers\<rparr>)))" for handler
      using guardedWrite_same [of "w\<lparr>wsPeers := peers\<rparr>" env r handler] by blast
    then show False using h by (simp add: apiHandler_def split: Endpoint.splits)
  qed
  ultimately show ?thesis
    using writeAuthorized_pin [OF _ assms(1,2)] unfolding mayWrite_def by blast
qed

section \<open>What is ever applied\<close>

definition deviceOk :: "MainConfig \<Rightarrow> bool" where
  "deviceOk c \<longleftrightarrow> settledConfig c \<and> pvValid (validatePinOwnership c) \<and> configApiRejectReason c = None
     \<and> fitsBuffer 16 (WritePin (Security c)) \<and> WritePin (Security c) \<noteq> ''''"

lemma settled_accepted: "settledConfig c \<Longrightarrow> configApiRejectReason c = None"
  unfolding settledConfig_def settledCurrentLimit_def configApiRejectReason_def by (simp add: not_less)

text \<open>A PIN in a posted document replaces the old one; none leaves it.\<close>

lemma preserved_pin:
  assumes "fitsBuffer 16 (WritePin (Security p))" "WritePin (Security p) \<noteq> ''''"
  shows "fitsBuffer 16 (WritePin (Security (preserveSecrets (configFromJson J doc d) p)))
    \<and> WritePin (Security (preserveSecrets (configFromJson J doc d) p)) \<noteq> ''''"
proof -
  obtain n where n: "WritePin (Security (configFromJson J doc d)) = copyConfigString 16 n"
    by (simp add: configFromJson_def Let_def securityFromJson_def)
  then show ?thesis
    using assms copyConfigString_fits [of 16] by (auto simp: preserveSecrets_def keepIfEmpty_def)
qed

lemma validated_ok:
  assumes "pvValid (validatePinOwnership (fst (validateConfig c)))"
    and "fitsBuffer 16 (WritePin (Security c))" "WritePin (Security c) \<noteq> ''''"
  shows "deviceOk (fst (validateConfig c))"
proof -
  have "Security (fst (validateConfig c)) = Security c" by (rule validateConfig_sections)
  then show ?thesis using assms validateConfig_settles settled_accepted by (simp add: deviceOk_def)
qed

lemma applyDocument_ok:
  assumes "deviceOk p" "applyError (configApplyDocument J live p doc) = None"
  shows "deviceOk (applyConfig (configApplyDocument J live p doc))"
proof -
  define c where "c = restoreSecrets (configFromJson J doc defaultConfig) p"
  have "Security c = \<lparr>WritePin = WritePin (Security p)\<rparr>"
    using assms(1) by (simp add: c_def restoreSecrets_def deviceOk_def)
  moreover have "applyConfig (configApplyDocument J live p doc) = fst (validateConfig c)"
    "pvValid (validatePinOwnership (fst (validateConfig c)))"
    using assms(2) by (auto simp: configApplyDocument_def Let_def c_def applyRefused_def split: if_splits option.splits)
  ultimately show ?thesis using validated_ok [of c] assms(1) by (simp add: deviceOk_def)
qed

lemma presetLoad_ok:
  assumes "deviceOk p" "applyError (presetLoad D J sd live p n disk) = None"
  shows "deviceOk (applyConfig (presetLoad D J sd live p n disk))"
  using assms applyDocument_ok
  by (auto simp: presetLoad_def applyRefused_def split: if_splits option.splits)

lemma guardedWrite_ok:
  assumes "\<And>w. deviceOk (wsConfig w) \<Longrightarrow> deviceOk (wsConfig (snd (handler w)))" "deviceOk (wsConfig w)"
  shows "deviceOk (wsConfig (snd (guardedWrite env r handler w)))"
  using assms by (simp add: guardedWrite_def Let_def split: prod.splits)

lemma handlers_ok:
  assumes "deviceOk (wsConfig w)"
  shows "deviceOk (wsConfig (snd (api_config_post J env r w)))" "deviceOk (wsConfig (snd (api_config_import J env r w)))"
    "deviceOk (wsConfig (snd (api_presets_save D J env r w)))" "deviceOk (wsConfig (snd (api_presets_load D J env r w)))"
    "deviceOk (wsConfig (snd (api_presets_delete D J env r w)))" "deviceOk (wsConfig (snd (api_fault_clear w)))"
    "deviceOk (wsConfig (snd (api_scope_arm J r w)))" "deviceOk (wsConfig (snd (api_scope_release w)))"
proof -
  have pin: "fitsBuffer 16 (WritePin (Security (wsConfig w)))" "WritePin (Security (wsConfig w)) \<noteq> ''''"
    using assms by (simp_all add: deviceOk_def)
  show "deviceOk (wsConfig (snd (api_config_post J env r w)))"
    using assms validated_ok preserved_pin [OF pin]
    by (auto simp: api_config_post_def applyToDevice_def Let_def split: option.splits)
  show "deviceOk (wsConfig (snd (api_config_import J env r w)))"
    using assms applyDocument_ok
    by (auto simp: api_config_import_def appliedState_def applyToDevice_def split: option.splits)
  show "deviceOk (wsConfig (snd (api_presets_load D J env r w)))"
    using assms presetLoad_ok
    by (auto simp: api_presets_load_def appliedState_def applyToDevice_def split: option.splits)
  show "deviceOk (wsConfig (snd (api_presets_save D J env r w)))"
    "deviceOk (wsConfig (snd (api_presets_delete D J env r w)))" "deviceOk (wsConfig (snd (api_fault_clear w)))"
    "deviceOk (wsConfig (snd (api_scope_arm J r w)))" "deviceOk (wsConfig (snd (api_scope_release w)))"
    using assms
    by (simp_all add: api_presets_save_def api_presets_delete_def afterTrace_def api_fault_clear_def api_scope_arm_def
        api_scope_release_def Let_def split: option.splits prod.splits)
qed

lemma apiRequest_ok:
  assumes "deviceOk (wsConfig w)" shows "deviceOk (wsConfig (snd (apiRequest D J env r w)))"
  using assms handlers_ok
  by (auto simp: apiRequest_def apiHandler_def Let_def intro!: guardedWrite_ok split: prod.splits option.splits Endpoint.splits)

text \<open>A run of requests, each with what the device answers at its time.\<close>

definition apiRun ::
    "('c, 'm) PresetLib_scheme \<Rightarrow> JsonLib \<Rightarrow> 'c WebState \<Rightarrow> (WebEnv \<times> ApiReq) list \<Rightarrow> 'c WebState" where
  "apiRun D J = foldl (\<lambda>w (env, r). snd (apiRequest D J env r w))"

text \<open>The strings of the running configuration stay inside their buffers, so what is saved can be read back.\<close>

lemma handlers_inBuffers:
  assumes "inBuffers (wsConfig w)"
  shows "inBuffers (wsConfig (snd (api_config_post J env r w)))" "inBuffers (wsConfig (snd (api_config_import J env r w)))"
    "inBuffers (wsConfig (snd (api_presets_save D J env r w)))" "inBuffers (wsConfig (snd (api_presets_load D J env r w)))"
    "inBuffers (wsConfig (snd (api_presets_delete D J env r w)))" "inBuffers (wsConfig (snd (api_fault_clear w)))"
    "inBuffers (wsConfig (snd (api_scope_arm J r w)))" "inBuffers (wsConfig (snd (api_scope_release w)))"
proof -
  have posted: "inBuffers (fst (validateConfig (preserveSecrets (configFromJson J doc defaultConfig) p)))"
    and imported: "inBuffers (fst (validateConfig (restoreSecrets (configFromJson J doc defaultConfig) p)))" for doc p
    by (intro validate_inBuffers preserve_inBuffers restore_inBuffers read_inBuffers default_inBuffers)+
  have applied: "inBuffers (applyConfig (configApplyDocument J live (wsConfig w) doc))" for live doc
    using applyDocument_cases [of J live "wsConfig w" doc] assms imported by metis
  then have loaded: "inBuffers (applyConfig (presetLoad D J sd live (wsConfig w) n disk))" for sd live n disk
    using assms by (simp add: presetLoad_def applyRefused_def split: option.splits)
  show "inBuffers (wsConfig (snd (api_config_post J env r w)))"
    using assms posted by (simp add: api_config_post_def applyToDevice_def Let_def split: option.splits)
  show "inBuffers (wsConfig (snd (api_config_import J env r w)))"
    using assms applied by (simp add: api_config_import_def appliedState_def applyToDevice_def split: option.splits)
  show "inBuffers (wsConfig (snd (api_presets_load D J env r w)))"
    using assms loaded by (simp add: api_presets_load_def appliedState_def applyToDevice_def split: option.splits)
  show "inBuffers (wsConfig (snd (api_presets_save D J env r w)))"
    "inBuffers (wsConfig (snd (api_presets_delete D J env r w)))" "inBuffers (wsConfig (snd (api_fault_clear w)))"
    "inBuffers (wsConfig (snd (api_scope_arm J r w)))" "inBuffers (wsConfig (snd (api_scope_release w)))"
    using assms
    by (simp_all add: api_presets_save_def api_presets_delete_def afterTrace_def api_fault_clear_def api_scope_arm_def
        api_scope_release_def Let_def split: option.splits prod.splits)
qed

lemma guardedWrite_inBuffers:
  assumes "\<And>w. inBuffers (wsConfig w) \<Longrightarrow> inBuffers (wsConfig (snd (handler w)))" "inBuffers (wsConfig w)"
  shows "inBuffers (wsConfig (snd (guardedWrite env r handler w)))"
  using assms by (simp add: guardedWrite_def Let_def split: prod.splits)

lemma apiRequest_inBuffers:
  assumes "inBuffers (wsConfig w)" shows "inBuffers (wsConfig (snd (apiRequest D J env r w)))"
  using assms handlers_inBuffers
  by (auto simp: apiRequest_def apiHandler_def Let_def intro!: guardedWrite_inBuffers split: prod.splits option.splits Endpoint.splits)

lemma apiRun_inBuffers: "inBuffers (wsConfig w) \<Longrightarrow> inBuffers (wsConfig (apiRun D J w rs))"
  by (induction rs arbitrary: w) (auto simp: apiRun_def apiRequest_inBuffers)

section \<open>A device and a request\<close>

definition exampleDevice :: "fat WebState" where
  "exampleDevice = \<lparr>wsConfig = defaultConfig\<lparr>Security := \<lparr>WritePin = ''K3Y''\<rparr>\<rparr>, wsPeers = authPeers0, wsDisk = [],
     wsCapture = captureBoot, wsSaveNeeded = False, wsCalls = []\<rparr>"

definition exampleEnv :: WebEnv where
  "exampleEnv = \<lparr>subnetMask = (255, 255, 255, 0), localIP = (10, 0, 0, 9), hostname = ''teg'', otaInProgress = False,
     sdAvailable = True, liveView = \<lparr>intRequiredBefore = True, intRequiredAfter = True, faultAfter = False\<rparr>\<rparr>"

definition exampleClear :: ApiReq where
  "exampleClear = \<lparr>rqEndpoint = ApiFaultClear, rqTime = 5000, rqIp = 0x0A000007, rqPin = Some ''K3Y'', rqHost = ''TEG.local:80'',
     rqOrigin = '''', rqBody = []\<rparr>"

lemma exampleDevice_ok: "deviceOk (wsConfig exampleDevice)"
proof -
  have "carrierCeiling (defaultConfig\<lparr>Security := s\<rparr>) = carrierCeiling defaultConfig" for s
    by (simp add: carrierCeiling_def carrierInterruptRequired_def)
  then have "settledConfig (defaultConfig\<lparr>Security := s\<rparr>)" for s
    using default_settled by (simp add: settledConfig_def)
  moreover have "validatePinOwnership (defaultConfig\<lparr>Security := s\<rparr>) = validatePinOwnership defaultConfig" for s
    by (simp add: validatePinOwnership_def pinClaims_def)
  ultimately show ?thesis
    using default_pins settled_accepted by (simp add: deviceOk_def exampleDevice_def fitsBuffer_def)
qed

lemma exampleClear_calls: "wsCalls (apiRun refFat refJson exampleDevice [(exampleEnv, exampleClear)]) = [ClearFaultTrip True]"
  by code_simp

section \<open>Properties\<close>

text \<open>C14: whatever the network sends, the running configuration stays one the hardware can run (settled,
  every pin claimed once, an accepted current limit) and keeps a PIN that can be entered: no request
  leaves the device unprotected or locked for good.\<close>

theorem api_keeps_device_safe:
  assumes "deviceOk (wsConfig w)"
  shows "deviceOk (wsConfig (apiRun D J w rs))"
  using assms
proof (induction rs arbitrary: w)
  case (Cons x rs)
  obtain env r where x: "x = (env, r)" by force
  show ?case using Cons.IH [OF apiRequest_ok [OF Cons.prems]] by (simp add: apiRun_def x)
qed (simp add: apiRun_def)

text \<open>C5: only a request that carries the PIN changes anything: if after any run of requests the
  configuration, the card, the capture, the pending save or the calls made to the hardware differ, then one of them
  came from the local subnet under an allowed host and origin, with exactly the PIN, while no update was
  in progress.\<close>

theorem api_change_needs_pin:
  fixes D :: "('c, 'm) PresetLib_scheme" and w :: "'c WebState"
  assumes "deviceOk (wsConfig w)" "\<And>env r p. (env, r) \<in> set rs \<Longrightarrow> rqPin r = Some p \<Longrightarrow> NUL \<notin> set p"
    and "\<not> sameDevice w (apiRun D J w rs)"
  shows "\<exists>(env, r)\<in>set rs. mayWrite env r (WritePin (Security (wsConfig w)))"
  using assms
proof (induction rs arbitrary: w)
  case (Cons x rs)
  obtain env r where x: "x = (env, r)" by force
  let ?w = "snd (apiRequest D J env r w)"
  show ?case
  proof (cases "sameDevice w ?w")
    case True
    then have "\<not> sameDevice ?w (apiRun D J ?w rs)"
      using Cons.prems(3) sameDevice_trans by (auto simp: apiRun_def x)
    then have "\<exists>(env, r)\<in>set rs. mayWrite env r (WritePin (Security (wsConfig ?w)))"
      using Cons.IH [of ?w] Cons.prems(1,2) apiRequest_ok by (metis list.set_intros(2))
    then show ?thesis using sameDevice_config [OF True] by auto
  next
    case False
    then have "mayWrite env r (WritePin (Security (wsConfig w)))"
      using Cons.prems(1,2) x by (intro apiRequest_may_write) (auto simp: deviceOk_def)
    then show ?thesis by (auto simp: x)
  qed
qed (simp add: apiRun_def)

lemma api_keeps_device_safe_witness:
  "deviceOk (wsConfig (apiRun refFat refJson exampleDevice [(exampleEnv, exampleClear)]))"
  by (rule api_keeps_device_safe [OF exampleDevice_ok])

lemma api_change_needs_pin_witness:
  "mayWrite exampleEnv exampleClear ''K3Y''"
proof -
  have "\<not> sameDevice exampleDevice (apiRun refFat refJson exampleDevice [(exampleEnv, exampleClear)])"
  proof
    assume "sameDevice exampleDevice (apiRun refFat refJson exampleDevice [(exampleEnv, exampleClear)])"
    then have "wsCalls (apiRun refFat refJson exampleDevice [(exampleEnv, exampleClear)]) = wsCalls exampleDevice"
      unfolding sameDevice_def by (metis WebState.ext_inject WebState.surjective WebState.update_convs(2))
    then show False using exampleClear_calls by (simp add: exampleDevice_def)
  qed
  moreover have "NUL \<notin> set p" if "(env, r) \<in> set [(exampleEnv, exampleClear)]" "rqPin r = Some p" for env r p
    using that by (auto simp: exampleClear_def)
  ultimately have "\<exists>(env, r)\<in>set [(exampleEnv, exampleClear)]. mayWrite env r (WritePin (Security (wsConfig exampleDevice)))"
    by (intro api_change_needs_pin [OF exampleDevice_ok])
  then show ?thesis by (simp add: exampleDevice_def)
qed

end
