(* ===== verification/Gzip_Crc.thy ===== *)
theory Gzip_Crc
  imports Ota_Crc
begin

text \<open>
  The checksum of the vendored \<open>src/lib/miniz/miniz.c\<close> that guards a gzip upload: a table of 256 entries,
  four bytes per turn of the loop. The lemmas show that the table is the bitwise register step of
  \<open>src/src/ota_crc.h\<close> and the whole function the same checksum, so the two implementations in the firmware agree.
\<close>

section \<open>The checksum\<close>

definition s_crc_table :: "u32 list" where
  "s_crc_table =
    [0x00000000, 0x77073096, 0xEE0E612C, 0x990951BA, 0x076DC419, 0x706AF48F, 0xE963A535, 0x9E6495A3,
     0x0EDB8832, 0x79DCB8A4, 0xE0D5E91E, 0x97D2D988, 0x09B64C2B, 0x7EB17CBD, 0xE7B82D07, 0x90BF1D91,
     0x1DB71064, 0x6AB020F2, 0xF3B97148, 0x84BE41DE, 0x1ADAD47D, 0x6DDDE4EB, 0xF4D4B551, 0x83D385C7,
     0x136C9856, 0x646BA8C0, 0xFD62F97A, 0x8A65C9EC, 0x14015C4F, 0x63066CD9, 0xFA0F3D63, 0x8D080DF5,
     0x3B6E20C8, 0x4C69105E, 0xD56041E4, 0xA2677172, 0x3C03E4D1, 0x4B04D447, 0xD20D85FD, 0xA50AB56B,
     0x35B5A8FA, 0x42B2986C, 0xDBBBC9D6, 0xACBCF940, 0x32D86CE3, 0x45DF5C75, 0xDCD60DCF, 0xABD13D59,
     0x26D930AC, 0x51DE003A, 0xC8D75180, 0xBFD06116, 0x21B4F4B5, 0x56B3C423, 0xCFBA9599, 0xB8BDA50F,
     0x2802B89E, 0x5F058808, 0xC60CD9B2, 0xB10BE924, 0x2F6F7C87, 0x58684C11, 0xC1611DAB, 0xB6662D3D,
     0x76DC4190, 0x01DB7106, 0x98D220BC, 0xEFD5102A, 0x71B18589, 0x06B6B51F, 0x9FBFE4A5, 0xE8B8D433,
     0x7807C9A2, 0x0F00F934, 0x9609A88E, 0xE10E9818, 0x7F6A0DBB, 0x086D3D2D, 0x91646C97, 0xE6635C01,
     0x6B6B51F4, 0x1C6C6162, 0x856530D8, 0xF262004E, 0x6C0695ED, 0x1B01A57B, 0x8208F4C1, 0xF50FC457,
     0x65B0D9C6, 0x12B7E950, 0x8BBEB8EA, 0xFCB9887C, 0x62DD1DDF, 0x15DA2D49, 0x8CD37CF3, 0xFBD44C65,
     0x4DB26158, 0x3AB551CE, 0xA3BC0074, 0xD4BB30E2, 0x4ADFA541, 0x3DD895D7, 0xA4D1C46D, 0xD3D6F4FB,
     0x4369E96A, 0x346ED9FC, 0xAD678846, 0xDA60B8D0, 0x44042D73, 0x33031DE5, 0xAA0A4C5F, 0xDD0D7CC9,
     0x5005713C, 0x270241AA, 0xBE0B1010, 0xC90C2086, 0x5768B525, 0x206F85B3, 0xB966D409, 0xCE61E49F,
     0x5EDEF90E, 0x29D9C998, 0xB0D09822, 0xC7D7A8B4, 0x59B33D17, 0x2EB40D81, 0xB7BD5C3B, 0xC0BA6CAD,
     0xEDB88320, 0x9ABFB3B6, 0x03B6E20C, 0x74B1D29A, 0xEAD54739, 0x9DD277AF, 0x04DB2615, 0x73DC1683,
     0xE3630B12, 0x94643B84, 0x0D6D6A3E, 0x7A6A5AA8, 0xE40ECF0B, 0x9309FF9D, 0x0A00AE27, 0x7D079EB1,
     0xF00F9344, 0x8708A3D2, 0x1E01F268, 0x6906C2FE, 0xF762575D, 0x806567CB, 0x196C3671, 0x6E6B06E7,
     0xFED41B76, 0x89D32BE0, 0x10DA7A5A, 0x67DD4ACC, 0xF9B9DF6F, 0x8EBEEFF9, 0x17B7BE43, 0x60B08ED5,
     0xD6D6A3E8, 0xA1D1937E, 0x38D8C2C4, 0x4FDFF252, 0xD1BB67F1, 0xA6BC5767, 0x3FB506DD, 0x48B2364B,
     0xD80D2BDA, 0xAF0A1B4C, 0x36034AF6, 0x41047A60, 0xDF60EFC3, 0xA867DF55, 0x316E8EEF, 0x4669BE79,
     0xCB61B38C, 0xBC66831A, 0x256FD2A0, 0x5268E236, 0xCC0C7795, 0xBB0B4703, 0x220216B9, 0x5505262F,
     0xC5BA3BBE, 0xB2BD0B28, 0x2BB45A92, 0x5CB36A04, 0xC2D7FFA7, 0xB5D0CF31, 0x2CD99E8B, 0x5BDEAE1D,
     0x9B64C2B0, 0xEC63F226, 0x756AA39C, 0x026D930A, 0x9C0906A9, 0xEB0E363F, 0x72076785, 0x05005713,
     0x95BF4A82, 0xE2B87A14, 0x7BB12BAE, 0x0CB61B38, 0x92D28E9B, 0xE5D5BE0D, 0x7CDCEFB7, 0x0BDBDF21,
     0x86D3D2D4, 0xF1D4E242, 0x68DDB3F8, 0x1FDA836E, 0x81BE16CD, 0xF6B9265B, 0x6FB077E1, 0x18B74777,
     0x88085AE6, 0xFF0F6A70, 0x66063BCA, 0x11010B5C, 0x8F659EFF, 0xF862AE69, 0x616BFFD3, 0x166CCF45,
     0xA00AE278, 0xD70DD2EE, 0x4E048354, 0x3903B3C2, 0xA7672661, 0xD06016F7, 0x4969474D, 0x3E6E77DB,
     0xAED16A4A, 0xD9D65ADC, 0x40DF0B66, 0x37D83BF0, 0xA9BCAE53, 0xDEBB9EC5, 0x47B2CF7F, 0x30B5FFE9,
     0xBDBDF21C, 0xCABAC28A, 0x53B39330, 0x24B4A3A6, 0xBAD03605, 0xCDD70693, 0x54DE5729, 0x23D967BF,
     0xB3667A2E, 0xC4614AB8, 0x5D681B02, 0x2A6F2B94, 0xB40BBE37, 0xC30C8EA1, 0x5A05DF1B, 0x2D02EF8D]"

definition crcTableStep :: "u32 \<Rightarrow> byte \<Rightarrow> u32" where
  "crcTableStep crc b = drop_bit 8 crc XOR s_crc_table ! unat ((crc XOR ucast b) AND 0xFF)"

text \<open>Four bytes at a time, then the rest.\<close>

fun crcWords :: "u32 \<Rightarrow> byte list \<Rightarrow> u32" where
  "crcWords crc (a # b # c # d # bs) =
     crcWords (crcTableStep (crcTableStep (crcTableStep (crcTableStep crc a) b) c) d) bs"
| "crcWords crc bs = foldl crcTableStep crc bs"

definition mz_crc32 :: "u32 \<Rightarrow> byte list \<Rightarrow> u32" where
  "mz_crc32 crc bs = NOT (crcWords (crc XOR 0xFFFFFFFF) bs)"

section \<open>The table is the bitwise checksum\<close>

lemma crcBit_eight:
  "(crcBit ^^ 8) x = crcBit (crcBit (crcBit (crcBit (crcBit (crcBit (crcBit (crcBit x)))))))"
  by (simp add: numeral_eq_Suc)

definition crcEntry :: "u32 \<Rightarrow> u32" where
  "crcEntry x = (crcBit ^^ 8) x"

lemma table_entries: "s_crc_table = map (\<lambda>i. crcEntry (of_nat i)) [0..<256]"
proof -
  have "[0..<256] = 0 # 1 # [2..<256]" by (simp add: upt_conv_Cons)
  then have "map (\<lambda>i. crcEntry (of_nat i)) [0..<256]
      = crcEntry 0 # crcEntry 1 # map (\<lambda>i. crcEntry (of_nat i)) [2..<256]" by simp
  also have "\<dots> = s_crc_table"
    by (simp add: upt_rec_numeral) (simp add: s_crc_table_def crcEntry_def crcBit_eight crcBit_def)
  finally show ?thesis by simp
qed

lemma crcBits_drop: "(\<And>i. i < n \<Longrightarrow> \<not> bit y i) \<Longrightarrow> (crcBit ^^ n) y = drop_bit n y"
proof (induction n)
  case (Suc n)
  then have "(crcBit ^^ Suc n) y = crcBit (drop_bit n y)" by simp
  also have "\<dots> = drop_bit 1 (drop_bit n y)" using Suc.prems [of n] by (intro crcBit_even) (simp add: bit_simps)
  finally show ?case by (simp add: drop_bit_drop_bit)
qed simp

lemma crcTableStep_eq: "crcTableStep crc b = crcByte crc b"
proof -
  define x where "x = crc XOR ucast b"
  define low where "low = (0xFF :: u32)"
  define hi where "hi = x AND NOT low"
  have m: "bit low n \<longleftrightarrow> n < 8" for n
  proof -
    have "low = mask 8" by (simp add: low_def mask_eq_exp_minus_1)
    then show ?thesis by (simp only: bit_mask_iff) auto
  qed
  have i: "unat (x AND low) < 256" using unat_and_255 [of x] by (simp add: low_def)
  have "drop_bit 8 hi = drop_bit 8 crc"
    by (rule bit_word_eqI) (auto simp: hi_def x_def bit_simps m dest: bit_imp_le_length)
  moreover have "(crcBit ^^ 8) hi = drop_bit 8 hi" by (rule crcBits_drop) (simp add: hi_def bit_simps m)
  moreover have "x = hi XOR (x AND low)" by (rule bit_word_eqI) (auto simp: hi_def bit_simps m)
  then have "(crcBit ^^ 8) x = (crcBit ^^ 8) hi XOR (crcBit ^^ 8) (x AND low)" by (metis crcBits_xor)
  moreover have "s_crc_table ! unat (x AND low) = (crcBit ^^ 8) (x AND low)"
    unfolding table_entries crcEntry_def using i by simp
  ultimately show ?thesis by (simp add: crcTableStep_def crcByte_def x_def [symmetric] low_def [symmetric])
qed

lemma crcWords_eq: "crcWords crc bs = otaCrc32Update crc bs"
  by (induction crc bs rule: crcWords.induct) (simp_all add: crcTableStep_eq otaCrc32Update_def)

lemma mz_crc32_eq: "mz_crc32 crc bs = otaCrc32Update (crc XOR 0xFFFFFFFF) bs XOR 0xFFFFFFFF"
proof -
  have "NOT x = x XOR 0xFFFFFFFF" for x :: u32
  proof -
    have "(0xFFFFFFFF :: u32) = - 1" by simp
    then show ?thesis by (simp only:) (rule bit_word_eqI, simp add: bit_simps)
  qed
  then show ?thesis by (simp add: mz_crc32_def crcWords_eq)
qed

lemma mz_crc32_append: "mz_crc32 (mz_crc32 crc xs) ys = mz_crc32 crc (xs @ ys)"
  by (simp add: mz_crc32_eq otaCrc32Update_append xor.assoc)

text \<open>C40: the table-driven checksum of the gzip reader and the bitwise one of the firmware update are
  the same function: over any bytes, and fed in any pieces.\<close>

theorem gzip_crc_is_ota_crc:
  "foldl mz_crc32 0 pieces = otaCrc32 (concat pieces)"
proof (induction pieces rule: rev_induct)
  case (snoc x xs)
  have z: "otaCrc32 bs = mz_crc32 0 bs" for bs by (simp add: mz_crc32_eq otaCrc32_def)
  have "foldl mz_crc32 0 (xs @ [x]) = mz_crc32 (otaCrc32 (concat xs)) x" using snoc by simp
  also have "\<dots> = mz_crc32 0 (concat xs @ x)" unfolding z by (rule mz_crc32_append)
  finally show ?case unfolding z by simp
qed (simp add: otaCrc32_def)

end
