(* ===== verification/Gzip_Stream.thy ===== *)
theory Gzip_Stream
  imports Gzip_Crc Byte_Order
begin

text \<open>
  \<open>src/src/gzip_stream.h\<close>: unpacking of a gzip file that arrives in pieces. The container's states before and after the
  compressed body take one byte each; in the body the vendored decompressor \<open>tinfl_decompress\<close> is
  called, a parameter \<open>Z\<close>: given its state, the input, the dictionary window, the offset in it and the
  room behind it, it returns its status, how many bytes it took, what it wrote and its new state.
  The consumer \<open>emit\<close> is a function on a context of its own that may refuse.

  The loop over the input ends because of what the decompressor documents (locale \<open>inflate_library\<close>);
  in the model it is a partial function whose value \<open>None\<close> is a loop that does not end.
\<close>

section \<open>The container\<close>

datatype GzipState = HeaderFixed | HeaderExtraLen | HeaderExtraSkip | HeaderName | HeaderComment
  | HeaderCrc | Deflate | Trailer | GzipDone | GzipFailed

record 't GzipInflater =
  gzState :: GzipState
  errorMsg :: string
  headerFlags :: byte
  fieldBytes :: u32
  fieldLen :: u32
  scratch :: "byte list"
  inflater :: 't
  dictOffset :: u32
  dict :: "byte list"
  gzCrc :: u32
  outTotal :: u32
  trailer :: "byte list"

record 't Tinfl =
  tinfl_init :: 't
  tinfl_decompress :: "'t \<Rightarrow> byte list \<Rightarrow> byte list \<Rightarrow> nat \<Rightarrow> nat \<Rightarrow> int \<times> nat \<times> byte list \<times> 't"

definition TINFL_LZ_DICT_SIZE :: u32 where [const_defs]: "TINFL_LZ_DICT_SIZE = 32768"
definition TINFL_STATUS_DONE :: int where [const_defs]: "TINFL_STATUS_DONE = 0"

definition gzBegin :: "'t Tinfl \<Rightarrow> 't GzipInflater \<Rightarrow> 't GzipInflater" where
  "gzBegin Z g = g\<lparr>gzState := HeaderFixed, errorMsg := '''', headerFlags := 0, fieldBytes := 0, fieldLen := 0,
     inflater := tinfl_init Z, dictOffset := 0, gzCrc := 0, outTotal := 0\<rparr>"

definition looksLikeGzip :: "byte list \<Rightarrow> bool" where
  "looksLikeGzip firstTwo \<longleftrightarrow> firstTwo ! 0 = 0x1F \<and> firstTwo ! 1 = 0x8B"

definition gzFail :: "string \<Rightarrow> 't GzipInflater \<Rightarrow> bool \<times> 't GzipInflater" where
  "gzFail msg g = (False, g\<lparr>gzState := GzipFailed, errorMsg := msg\<rparr>)"

definition flagSet :: "byte \<Rightarrow> byte \<Rightarrow> bool" where
  "flagSet flags flag \<longleftrightarrow> flags AND flag \<noteq> 0"

text \<open>The state of the next optional field that is present, from each place on.\<close>

definition afterComment :: "byte \<Rightarrow> GzipState" where
  "afterComment flags = (if flagSet flags 0x02 then HeaderCrc else Deflate)"

definition afterName :: "byte \<Rightarrow> GzipState" where
  "afterName flags = (if flagSet flags 0x10 then HeaderComment else afterComment flags)"

definition afterExtra :: "byte \<Rightarrow> GzipState" where
  "afterExtra flags = (if flagSet flags 0x08 then HeaderName else afterName flags)"

definition feedFixed :: "byte \<Rightarrow> 't GzipInflater \<Rightarrow> bool \<times> 't GzipInflater" where
  "feedFixed b g =
     (let g = g\<lparr>scratch := (scratch g)[unat (fieldBytes g) := b], fieldBytes := fieldBytes g + 1\<rparr> in
      if fieldBytes g = 10 then
        if scratch g ! 0 \<noteq> 0x1F \<or> scratch g ! 1 \<noteq> 0x8B then gzFail ''not a gzip stream'' g
        else if scratch g ! 2 \<noteq> 8 then gzFail ''unsupported gzip compression method'' g
        else let flags = scratch g ! 3 in
          (True, g\<lparr>headerFlags := flags, fieldBytes := 0,
             gzState := (if flagSet flags 0x04 then HeaderExtraLen else afterExtra flags)\<rparr>)
      else (True, g))"

definition feedExtraLen :: "byte \<Rightarrow> 't GzipInflater \<Rightarrow> 't GzipInflater" where
  "feedExtraLen b g =
     (let g = g\<lparr>scratch := (scratch g)[unat (fieldBytes g) := b], fieldBytes := fieldBytes g + 1\<rparr> in
      if fieldBytes g = 2 then
        let n = ucast (scratch g ! 0) OR push_bit 8 (ucast (scratch g ! 1)) in
        g\<lparr>fieldLen := n, fieldBytes := 0,
          gzState := (if n > 0 then HeaderExtraSkip else afterExtra (headerFlags g))\<rparr>
      else g)"

definition feedExtraSkip :: "'t GzipInflater \<Rightarrow> 't GzipInflater" where
  "feedExtraSkip g =
     (let g = g\<lparr>fieldBytes := fieldBytes g + 1\<rparr> in
      if fieldBytes g = fieldLen g then g\<lparr>fieldBytes := 0, gzState := afterExtra (headerFlags g)\<rparr> else g)"

definition feedString :: "byte \<Rightarrow> 't GzipInflater \<Rightarrow> 't GzipInflater" where
  "feedString b g =
     (if b = 0 then g\<lparr>gzState := (if gzState g = HeaderName then afterName (headerFlags g)
                                else afterComment (headerFlags g))\<rparr>
      else g)"

definition feedHeaderCrc :: "'t GzipInflater \<Rightarrow> 't GzipInflater" where
  "feedHeaderCrc g =
     (let g = g\<lparr>fieldBytes := fieldBytes g + 1\<rparr> in
      if fieldBytes g = 2 then g\<lparr>fieldBytes := 0, gzState := Deflate\<rparr> else g)"

definition feedTrailer :: "byte \<Rightarrow> 't GzipInflater \<Rightarrow> bool \<times> 't GzipInflater" where
  "feedTrailer b g =
     (let g = g\<lparr>trailer := (trailer g)[unat (fieldBytes g) := b], fieldBytes := fieldBytes g + 1\<rparr> in
      if fieldBytes g = 8 then
        if fromLe32 (trailer g ! 0) (trailer g ! 1) (trailer g ! 2) (trailer g ! 3) \<noteq> gzCrc g
        then gzFail ''gzip CRC mismatch'' g
        else (True, g\<lparr>gzState := GzipDone\<rparr>)
      else (True, g))"

text \<open>One call of the decompressor: what it took off the input, what went to the consumer.\<close>

definition emitOutput :: "('c \<Rightarrow> byte list \<Rightarrow> bool \<times> 'c) \<Rightarrow> byte list \<Rightarrow> 't GzipInflater \<Rightarrow> 'c
    \<Rightarrow> bool \<times> 't GzipInflater \<times> 'c" where
  "emitOutput emit out g ctx =
     (if out = [] then (True, g, ctx)
      else let n = of_nat (length out);
               g = g\<lparr>gzCrc := mz_crc32 (gzCrc g) out, outTotal := outTotal g + n\<rparr>;
               (kept, ctx) = emit ctx out in
        if \<not> kept then let (ok, g) = gzFail ''aborted by consumer'' g in (ok, g, ctx)
        else (True, g\<lparr>dictOffset := (dictOffset g + n) AND (TINFL_LZ_DICT_SIZE - 1)\<rparr>, ctx))"

definition feedDeflate :: "'t Tinfl \<Rightarrow> ('c \<Rightarrow> byte list \<Rightarrow> bool \<times> 'c) \<Rightarrow> byte list \<Rightarrow> 't GzipInflater \<Rightarrow> 'c
    \<Rightarrow> bool \<times> byte list \<times> 't GzipInflater \<times> 'c" where
  "feedDeflate Z emit data g ctx =
     (let at = unat (dictOffset g);
          (status, inBytes, out, t) = tinfl_decompress Z (inflater g) data (dict g) at
             (unat (TINFL_LZ_DICT_SIZE - dictOffset g));
          g = g\<lparr>inflater := t, dict := take at (dict g) @ out @ drop (at + length out) (dict g)\<rparr>;
          (kept, g, ctx) = emitOutput emit out g ctx in
      if \<not> kept then (False, drop inBytes data, g, ctx)
      else if status = TINFL_STATUS_DONE
        then (True, drop inBytes data, g\<lparr>fieldBytes := 0, gzState := Trailer\<rparr>, ctx)
      else if status < TINFL_STATUS_DONE
        then let (ok, g) = gzFail ''corrupt deflate stream'' g in (ok, drop inBytes data, g, ctx)
      else (True, drop inBytes data, g, ctx))"

text \<open>One turn of the loop, on a non-empty rest of the input.\<close>

definition feedStep :: "'t Tinfl \<Rightarrow> ('c \<Rightarrow> byte list \<Rightarrow> bool \<times> 'c) \<Rightarrow> byte list \<Rightarrow> 't GzipInflater \<Rightarrow> 'c
    \<Rightarrow> bool \<times> byte list \<times> 't GzipInflater \<times> 'c" where
  "feedStep Z emit data g ctx =
     (let b = hd data; bs = tl data in
      case gzState g of
        HeaderFixed \<Rightarrow> (let (ok, g) = feedFixed b g in (ok, bs, g, ctx))
      | HeaderExtraLen \<Rightarrow> (True, bs, feedExtraLen b g, ctx)
      | HeaderExtraSkip \<Rightarrow> (True, bs, feedExtraSkip g, ctx)
      | HeaderName \<Rightarrow> (True, bs, feedString b g, ctx)
      | HeaderComment \<Rightarrow> (True, bs, feedString b g, ctx)
      | HeaderCrc \<Rightarrow> (True, bs, feedHeaderCrc g, ctx)
      | Deflate \<Rightarrow> feedDeflate Z emit data g ctx
      | Trailer \<Rightarrow> (let (ok, g) = feedTrailer b g in (ok, bs, g, ctx))
      | GzipDone \<Rightarrow> (True, [], g, ctx)
      | GzipFailed \<Rightarrow> (False, data, g, ctx))"

partial_function (option) gzFeed :: "'t Tinfl \<Rightarrow> ('c \<Rightarrow> byte list \<Rightarrow> bool \<times> 'c) \<Rightarrow> byte list
    \<Rightarrow> 't GzipInflater \<Rightarrow> 'c \<Rightarrow> (bool \<times> 't GzipInflater \<times> 'c) option" where
  "gzFeed Z emit data g ctx =
     (if data = [] then Some (True, g, ctx)
      else case feedStep Z emit data g ctx of (ok, rest, g', ctx') \<Rightarrow>
        if \<not> ok then Some (False, g', ctx') else gzFeed Z emit rest g' ctx')"

definition gzFinish :: "'t GzipInflater \<Rightarrow> bool \<times> 't GzipInflater" where
  "gzFinish g =
     (if gzState g = GzipDone then (True, g)
      else if gzState g \<noteq> GzipFailed then (False, snd (gzFail ''truncated gzip stream'' g))
      else (False, g))"

text \<open>Pieces one after the other, as the upload feeds them: the first failure ends it.\<close>

primrec gzFeedAll :: "'t Tinfl \<Rightarrow> ('c \<Rightarrow> byte list \<Rightarrow> bool \<times> 'c) \<Rightarrow> byte list list
    \<Rightarrow> 't GzipInflater \<Rightarrow> 'c \<Rightarrow> (bool \<times> 't GzipInflater \<times> 'c) option" where
  "gzFeedAll Z emit [] g ctx = Some (True, g, ctx)"
| "gzFeedAll Z emit (x # xs) g ctx =
     (case gzFeed Z emit x g ctx of None \<Rightarrow> None
      | Some (ok, g', ctx') \<Rightarrow> if ok then gzFeedAll Z emit xs g' ctx' else Some (False, g', ctx'))"

section \<open>What a container is\<close>

text \<open>The header of a gzip file: ten fixed bytes, then the optional fields its flags announce.\<close>

definition fixedOk :: "byte list \<Rightarrow> byte \<Rightarrow> bool" where
  "fixedOk f flags \<longleftrightarrow> length f = 10 \<and> take 3 f = [0x1F, 0x8B, 8] \<and> f ! 3 = flags"

definition extraPart :: "byte \<Rightarrow> byte list \<Rightarrow> bool" where
  "extraPart flags e \<longleftrightarrow>
     (if flagSet flags 0x04 then \<exists>x. length x < 2 ^ 16 \<and> e = le16Bytes (of_nat (length x)) @ x else e = [])"

definition stringPart :: "bool \<Rightarrow> byte list \<Rightarrow> bool" where
  "stringPart present s \<longleftrightarrow> (if present then \<exists>x. 0 \<notin> set x \<and> s = x @ [0] else s = [])"

definition crcPart :: "byte \<Rightarrow> byte list \<Rightarrow> bool" where
  "crcPart flags k \<longleftrightarrow> length k = (if flagSet flags 0x02 then 2 else 0)"

definition gzHeader :: "byte list \<Rightarrow> bool" where
  "gzHeader h \<longleftrightarrow> (\<exists>flags f e n c k. h = f @ e @ n @ c @ k \<and> fixedOk f flags \<and> extraPart flags e
     \<and> stringPart (flagSet flags 0x08) n \<and> stringPart (flagSet flags 0x10) c \<and> crcPart flags k)"

text \<open>What the bytes seen so far are, in each state.\<close>

definition stageInv :: "'t GzipInflater \<Rightarrow> byte list \<Rightarrow> bool" where
  "stageInv g seen \<longleftrightarrow>
     (let flags = headerFlags g; n = unat (fieldBytes g) in
      case gzState g of
        HeaderFixed \<Rightarrow> n < 10 \<and> seen = take n (scratch g)
      | HeaderExtraLen \<Rightarrow> flagSet flags 0x04 \<and> n < 2 \<and> (\<exists>f. fixedOk f flags \<and> seen = f @ take n (scratch g))
      | HeaderExtraSkip \<Rightarrow> flagSet flags 0x04 \<and> n < unat (fieldLen g) \<and> unat (fieldLen g) < 2 ^ 16
          \<and> (\<exists>f x. fixedOk f flags \<and> length x = n \<and> seen = f @ le16Bytes (ucast (fieldLen g)) @ x)
      | HeaderName \<Rightarrow> flagSet flags 0x08 \<and> n = 0
          \<and> (\<exists>f e x. fixedOk f flags \<and> extraPart flags e \<and> 0 \<notin> set x \<and> seen = f @ e @ x)
      | HeaderComment \<Rightarrow> flagSet flags 0x10 \<and> n = 0
          \<and> (\<exists>f e s x. fixedOk f flags \<and> extraPart flags e \<and> stringPart (flagSet flags 0x08) s
               \<and> 0 \<notin> set x \<and> seen = f @ e @ s @ x)
      | HeaderCrc \<Rightarrow> flagSet flags 0x02 \<and> n < 2
          \<and> (\<exists>f e s c x. fixedOk f flags \<and> extraPart flags e \<and> stringPart (flagSet flags 0x08) s
               \<and> stringPart (flagSet flags 0x10) c \<and> length x = n \<and> seen = f @ e @ s @ c @ x)
      | Deflate \<Rightarrow> (\<exists>h body. gzHeader h \<and> seen = h @ body)
      | Trailer \<Rightarrow> n < 8 \<and> (\<exists>h body. gzHeader h \<and> seen = h @ body @ take n (trailer g))
      | GzipDone \<Rightarrow> (\<exists>h body isize pad. gzHeader h \<and> length isize = 4
          \<and> seen = h @ body @ le32Bytes (gzCrc g) @ isize @ pad)
      | GzipFailed \<Rightarrow> True)"

definition gzInv :: "'t GzipInflater \<Rightarrow> byte list \<Rightarrow> byte list \<Rightarrow> bool" where
  "gzInv g seen out \<longleftrightarrow> length (scratch g) = 10 \<and> length (trailer g) = 8 \<and> gzCrc g = mz_crc32 0 out
     \<and> stageInv g seen"

text \<open>How each state is reached.\<close>

lemma at_extra_len:
  assumes "gzState g = HeaderExtraLen" "flagSet (headerFlags g) 0x04" "fixedOk f (headerFlags g)"
    and "unat (fieldBytes g) < 2" "seen = f @ take (unat (fieldBytes g)) (scratch g)"
  shows "stageInv g seen"
  using assms unfolding stageInv_def by (auto simp: Let_def)

lemma at_extra_skip:
  assumes "gzState g = HeaderExtraSkip" "flagSet (headerFlags g) 0x04" "fixedOk f (headerFlags g)"
    and "length x = unat (fieldBytes g)" "length x < unat (fieldLen g)" "unat (fieldLen g) < 2 ^ 16"
  shows "stageInv g (f @ le16Bytes (ucast (fieldLen g)) @ x)"
  using assms unfolding stageInv_def by (simp add: Let_def del: word_size_bounds) blast

lemma at_name:
  assumes "gzState g = HeaderName" "flagSet (headerFlags g) 0x08" "fieldBytes g = 0"
    and "fixedOk f (headerFlags g)" "extraPart (headerFlags g) e" "0 \<notin> set x"
  shows "stageInv g (f @ e @ x)"
  using assms unfolding stageInv_def by (simp add: Let_def) blast

lemma at_comment:
  assumes "gzState g = HeaderComment" "flagSet (headerFlags g) 0x10" "fieldBytes g = 0"
    and "fixedOk f (headerFlags g)" "extraPart (headerFlags g) e" "stringPart (flagSet (headerFlags g) 0x08) s"
    and "0 \<notin> set x"
  shows "stageInv g (f @ e @ s @ x)"
  using assms unfolding stageInv_def by (simp add: Let_def) blast

lemma at_header_crc:
  assumes "gzState g = HeaderCrc" "flagSet (headerFlags g) 0x02" "length x = unat (fieldBytes g)" "length x < 2"
    and "fixedOk f (headerFlags g)" "extraPart (headerFlags g) e" "stringPart (flagSet (headerFlags g) 0x08) s"
    and "stringPart (flagSet (headerFlags g) 0x10) c"
  shows "stageInv g (f @ e @ s @ c @ x)"
  using assms unfolding stageInv_def by (simp add: Let_def) blast

lemma at_deflate: "gzState g = Deflate \<Longrightarrow> gzHeader h \<Longrightarrow> stageInv g (h @ body)"
  unfolding stageInv_def by (simp add: Let_def) blast

lemma at_trailer:
  assumes "gzState g = Trailer" "gzHeader h" "unat (fieldBytes g) < 8"
    and "seen = h @ body @ take (unat (fieldBytes g)) (trailer g)"
  shows "stageInv g seen"
  using assms unfolding stageInv_def by (simp add: Let_def) blast

lemma at_done:
  assumes "gzState g = GzipDone" "gzHeader h" "length isize = 4"
  shows "stageInv g (h @ body @ le32Bytes (gzCrc g) @ isize @ pad)"
  using assms unfolding stageInv_def by (simp add: Let_def) blast

lemma enter_crc:
  assumes "fixedOk f flags" "extraPart flags e" "stringPart (flagSet flags 0x08) s" "stringPart (flagSet flags 0x10) c"
    and "gzState g = afterComment flags" "headerFlags g = flags" "fieldBytes g = 0"
  shows "stageInv g (f @ e @ s @ c)"
proof (cases "flagSet flags 0x02")
  case True
  then show ?thesis using at_header_crc [of g "[]" f e s c] assms by (simp add: afterComment_def)
next
  case False
  then have "crcPart flags []" by (simp add: crcPart_def)
  then have "gzHeader (f @ e @ s @ c)" using assms(1-4) unfolding gzHeader_def by (metis append_Nil2)
  then show ?thesis using at_deflate [of g "f @ e @ s @ c" "[]"] assms False by (simp add: afterComment_def)
qed

lemma enter_comment:
  assumes "fixedOk f flags" "extraPart flags e" "stringPart (flagSet flags 0x08) s"
    and "gzState g = afterName flags" "headerFlags g = flags" "fieldBytes g = 0"
  shows "stageInv g (f @ e @ s)"
proof (cases "flagSet flags 0x10")
  case True
  then show ?thesis using at_comment [of g f e s "[]"] assms by (simp add: afterName_def)
next
  case False
  then have "stringPart (flagSet flags 0x10) []" by (simp add: stringPart_def)
  then show ?thesis using enter_crc [of f flags e s "[]" g] assms False by (simp add: afterName_def)
qed

lemma enter_name:
  assumes "fixedOk f flags" "extraPart flags e"
    and "gzState g = afterExtra flags" "headerFlags g = flags" "fieldBytes g = 0"
  shows "stageInv g (f @ e)"
proof (cases "flagSet flags 0x08")
  case True
  then show ?thesis using at_name [of g f e "[]"] assms by (simp add: afterExtra_def)
next
  case False
  then have "stringPart (flagSet flags 0x08) []" by (simp add: stringPart_def)
  then show ?thesis using enter_comment [of f flags e "[]" g] assms False by (simp add: afterExtra_def)
qed

section \<open>Each step keeps it\<close>

lemma take_snoc_update: "n < length xs \<Longrightarrow> take (Suc n) (xs[n := b]) = take n xs @ [b]"
  by (simp add: take_Suc_conv_app_nth)

lemma unat_inc: "unat n < 2 ^ 31 \<Longrightarrow> unat (n + 1 :: u32) = Suc (unat n)"
  by (subst unat_add_no_wrap) simp_all

lemma inc_eq: "unat n < 2 ^ 31 \<Longrightarrow> (n + 1 :: u32) = numeral k \<longleftrightarrow> Suc (unat n) = unat (numeral k :: u32)"
  by (simp only: word_unat_eq_iff unat_inc)

lemma list10:
  assumes "length s = 10" "s ! 0 = 0x1F" "s ! 1 = 0x8B" "s ! 2 = (8 :: byte)"
  shows "fixedOk s (s ! 3)"
  using assms by (auto simp: fixedOk_def list_eq_iff_nth_eq less_Suc_eq numeral_eq_Suc)

lemma fixed_step:
  assumes "gzInv g seen out" "gzState g = HeaderFixed" "feedFixed b g = (True, g')"
  shows "gzInv g' (seen @ [b]) out"
proof -
  define s where "s = (scratch g)[unat (fieldBytes g) := b]"
  have n: "unat (fieldBytes g) < 10" and l: "length (scratch g) = 10" and seen: "seen = take (unat (fieldBytes g)) (scratch g)"
    using assms(1, 2) by (simp_all add: gzInv_def stageInv_def Let_def)
  have i: "unat (fieldBytes g + 1) = Suc (unat (fieldBytes g))" using n by (intro unat_inc) simp
  have t: "take (Suc (unat (fieldBytes g))) s = seen @ [b]" using n l by (simp add: s_def seen take_snoc_update)
  show ?thesis
  proof (cases "fieldBytes g + 1 = 10")
    case True
    then have ten: "Suc (unat (fieldBytes g)) = 10" using i by simp
    have ok: "s ! 0 = 0x1F" "s ! 1 = 0x8B" "s ! 2 = 8"
      using assms(3) True by (auto simp: feedFixed_def gzFail_def s_def [symmetric] Let_def split: if_splits)
    have f: "fixedOk (seen @ [b]) (s ! 3)"
      using list10 [OF _ ok] t l unfolding ten by (simp add: s_def)
    have g': "g' = g\<lparr>scratch := s, headerFlags := s ! 3, fieldBytes := 0,
        gzState := (if flagSet (s ! 3) 0x04 then HeaderExtraLen else afterExtra (s ! 3))\<rparr>"
      using assms(3) True ok by (simp add: feedFixed_def s_def [symmetric] Let_def)
    have "stageInv g' (seen @ [b])"
    proof (cases "flagSet (s ! 3) 0x04")
      case True
      then show ?thesis using f by (intro at_extra_len [of _ "seen @ [b]"]) (simp_all add: g')
    next
      case False
      then have "extraPart (s ! 3) []" by (simp add: extraPart_def)
      from enter_name [OF f this, of g'] False show ?thesis by (simp add: g')
    qed
    then show ?thesis using assms(1) by (simp add: gzInv_def g' s_def)
  next
    case False
    then have "Suc (unat (fieldBytes g)) \<noteq> 10" using i by (simp add: word_unat_eq_iff)
    then show ?thesis using assms n False t i
      by (auto simp: feedFixed_def gzInv_def stageInv_def s_def [symmetric] Let_def) (simp add: s_def)
  qed
qed

lemma extra_length: "(ucast a OR push_bit 8 (ucast b) :: u32) = ucast (fromLe16 a b)"
  by (rule bit_word_eqI) (auto simp: bit_simps fromLe16_bits dest: bit_imp_le_length)

lemma extra_len_step:
  assumes "gzInv g seen out" "gzState g = HeaderExtraLen"
  shows "gzInv (feedExtraLen b g) (seen @ [b]) out"
proof -
  define s where "s = (scratch g)[unat (fieldBytes g) := b]"
  obtain f where n: "unat (fieldBytes g) < 2" and l: "length (scratch g) = 10" and f: "fixedOk f (headerFlags g)"
    and flag: "flagSet (headerFlags g) 0x04" and seen: "seen = f @ take (unat (fieldBytes g)) (scratch g)"
    using assms by (auto simp: gzInv_def stageInv_def Let_def)
  have i: "unat (fieldBytes g + 1) = Suc (unat (fieldBytes g))" using n by (intro unat_inc) simp
  have t: "f @ take (Suc (unat (fieldBytes g))) s = seen @ [b]" using n l by (simp add: s_def seen take_snoc_update)
  show ?thesis
  proof (cases "fieldBytes g + 1 = 2")
    case True
    then have two: "Suc (unat (fieldBytes g)) = 2" using i by simp
    define v where "v = fromLe16 (s ! 0) (s ! 1)"
    have e: "take 2 s = le16Bytes v"
      using l by (intro nth_equalityI) (auto simp: v_def le16Bytes_fromLe16 s_def less_Suc_eq numeral_2_eq_2)
    have zero_v: "(0 :: u32) < ucast v \<longleftrightarrow> v \<noteq> 0" for v :: u16
      by (simp add: word_less_nat_alt unat_ucast_up unat_gt_0)
    have g': "feedExtraLen b g = g\<lparr>scratch := s, fieldLen := ucast v, fieldBytes := 0,
        gzState := (if v \<noteq> 0 then HeaderExtraSkip else afterExtra (headerFlags g))\<rparr>"
      using True by (simp add: feedExtraLen_def s_def Let_def extra_length v_def zero_v)
    have "stageInv (feedExtraLen b g) (f @ le16Bytes v)"
    proof (cases "v = 0")
      case True
      then have "extraPart (headerFlags g) (le16Bytes v)" using flag by (auto simp: extraPart_def intro!: exI [of _ "[]"])
      from enter_name [OF f this, of "feedExtraLen b g"] show ?thesis by (simp add: g' True)
    next
      case False
      then have "0 < unat v" by (simp add: unat_gt_0)
      then show ?thesis using at_extra_skip [of "feedExtraLen b g" f "[]"] f flag False word_size_bounds(2) [of v]
        by (simp add: g' unat_ucast_up ucast_ucast_up del: word_size_bounds)
    qed
    then show ?thesis using assms(1) t by (simp add: gzInv_def two e) (simp add: g' s_def)
  next
    case False
    then have "Suc (unat (fieldBytes g)) \<noteq> 2" using i by (simp add: word_unat_eq_iff)
    then have "Suc (unat (fieldBytes g)) < 2" using n by simp
    moreover have g': "feedExtraLen b g = g\<lparr>scratch := s, fieldBytes := fieldBytes g + 1\<rparr>"
      using False by (simp add: feedExtraLen_def s_def [symmetric] Let_def)
    ultimately have "stageInv (feedExtraLen b g) (seen @ [b])" unfolding t [symmetric] g'
      using f flag i assms(2) by (intro at_extra_len) simp_all
    then show ?thesis using assms(1) by (simp add: gzInv_def g' s_def)
  qed
qed

lemma extra_skip_step:
  assumes "gzInv g seen out" "gzState g = HeaderExtraSkip"
  shows "gzInv (feedExtraSkip g) (seen @ [b]) out"
proof -
  obtain f x where n: "unat (fieldBytes g) < unat (fieldLen g)" and m: "unat (fieldLen g) < 2 ^ 16"
    and f: "fixedOk f (headerFlags g)" and flag: "flagSet (headerFlags g) 0x04" and x: "length x = unat (fieldBytes g)"
    and seen: "seen = f @ le16Bytes (ucast (fieldLen g)) @ x"
    using assms by (auto simp: gzInv_def stageInv_def Let_def)
  have i: "unat (fieldBytes g + 1) = Suc (unat (fieldBytes g))" using n m by (intro unat_inc) simp
  show ?thesis
  proof (cases "fieldBytes g + 1 = fieldLen g")
    case True
    then have xl: "length (x @ [b]) = unat (fieldLen g)" using i x by simp
    then have e: "extraPart (headerFlags g) (le16Bytes (ucast (fieldLen g)) @ x @ [b])"
      using flag m unfolding extraPart_def by (auto simp: of_nat_unat intro!: exI [of _ "x @ [b]"])
    from enter_name [OF f this, of "feedExtraSkip g"] True have "stageInv (feedExtraSkip g) (seen @ [b])"
      by (simp add: seen feedExtraSkip_def)
    then show ?thesis using assms(1) True by (simp add: gzInv_def feedExtraSkip_def)
  next
    case False
    then have "Suc (unat (fieldBytes g)) \<noteq> unat (fieldLen g)" using i by (simp add: word_unat_eq_iff)
    then have "Suc (unat (fieldBytes g)) < unat (fieldLen g)" using n by simp
    then have "stageInv (feedExtraSkip g) (f @ le16Bytes (ucast (fieldLen (feedExtraSkip g))) @ x @ [b])"
      using assms(2) False x m flag f i by (intro at_extra_skip) (simp_all add: feedExtraSkip_def)
    then show ?thesis using assms(1) False by (simp add: gzInv_def feedExtraSkip_def seen)
  qed
qed

lemma name_step:
  assumes "gzInv g seen out" "gzState g = HeaderName"
  shows "gzInv (feedString b g) (seen @ [b]) out"
proof -
  obtain f e x where f: "fixedOk f (headerFlags g)" "extraPart (headerFlags g) e" and flag: "flagSet (headerFlags g) 0x08"
    and fb: "fieldBytes g = 0" and x: "0 \<notin> set x" and seen: "seen = f @ e @ x"
    using assms by (auto simp: gzInv_def stageInv_def Let_def unat_eq_zero)
  show ?thesis
  proof (cases "b = 0")
    case True
    have "stringPart (flagSet (headerFlags g) 0x08) (x @ [0])" using flag x by (auto simp: stringPart_def)
    from enter_comment [OF f this, of "feedString b g"] have "stageInv (feedString b g) (seen @ [b])"
      using True fb assms(2) by (simp add: seen feedString_def)
    then show ?thesis using assms(1) by (simp add: gzInv_def feedString_def)
  next
    case False
    then have "0 \<notin> set (x @ [b])" using x by simp
    then have "stageInv g (seen @ [b])" using at_name [OF assms(2) flag fb f, of "x @ [b]"] by (simp add: seen)
    then show ?thesis using assms(1) False by (simp add: gzInv_def feedString_def)
  qed
qed

lemma comment_step:
  assumes "gzInv g seen out" "gzState g = HeaderComment"
  shows "gzInv (feedString b g) (seen @ [b]) out"
proof -
  obtain f e s x where f: "fixedOk f (headerFlags g)" "extraPart (headerFlags g) e"
      "stringPart (flagSet (headerFlags g) 0x08) s" and flag: "flagSet (headerFlags g) 0x10"
    and fb: "fieldBytes g = 0" and x: "0 \<notin> set x" and seen: "seen = f @ e @ s @ x"
    using assms by (auto simp: gzInv_def stageInv_def Let_def unat_eq_zero)
  show ?thesis
  proof (cases "b = 0")
    case True
    have "stringPart (flagSet (headerFlags g) 0x10) (x @ [0])" using flag x by (auto simp: stringPart_def)
    from enter_crc [OF f this, of "feedString b g"] have "stageInv (feedString b g) (seen @ [b])"
      using True fb assms(2) by (simp add: seen feedString_def)
    then show ?thesis using assms(1) by (simp add: gzInv_def feedString_def)
  next
    case False
    then have "0 \<notin> set (x @ [b])" using x by simp
    then have "stageInv g (seen @ [b])" using at_comment [OF assms(2) flag fb f, of "x @ [b]"] by (simp add: seen)
    then show ?thesis using assms(1) False by (simp add: gzInv_def feedString_def)
  qed
qed

lemma header_crc_step:
  assumes "gzInv g seen out" "gzState g = HeaderCrc"
  shows "gzInv (feedHeaderCrc g) (seen @ [b]) out"
proof -
  obtain f e s c x where f: "fixedOk f (headerFlags g)" "extraPart (headerFlags g) e"
      "stringPart (flagSet (headerFlags g) 0x08) s" "stringPart (flagSet (headerFlags g) 0x10) c"
    and flag: "flagSet (headerFlags g) 0x02" and n: "unat (fieldBytes g) < 2"
    and x: "length x = unat (fieldBytes g)" and seen: "seen = f @ e @ s @ c @ x"
    using assms by (auto simp: gzInv_def stageInv_def Let_def)
  have i: "unat (fieldBytes g + 1) = Suc (unat (fieldBytes g))" using n by (intro unat_inc) simp
  show ?thesis
  proof (cases "fieldBytes g + 1 = 2")
    case True
    then have "crcPart (headerFlags g) (x @ [b])" using i x flag by (simp add: crcPart_def)
    then have "gzHeader (seen @ [b])" using f unfolding gzHeader_def seen by (metis append_assoc)
    then have "stageInv (feedHeaderCrc g) ((seen @ [b]) @ [])" using True by (intro at_deflate) (simp_all add: feedHeaderCrc_def)
    then have "stageInv (feedHeaderCrc g) (seen @ [b])" by simp
    then show ?thesis using assms(1) True by (simp add: gzInv_def feedHeaderCrc_def)
  next
    case False
    then have "Suc (unat (fieldBytes g)) \<noteq> 2" using i by (simp add: word_unat_eq_iff)
    then have "Suc (unat (fieldBytes g)) < 2" using n by simp
    moreover have "length (x @ [b]) = Suc (unat (fieldBytes g))" using x by simp
    ultimately have "stageInv (feedHeaderCrc g) (f @ e @ s @ c @ x @ [b])" using assms(2) False f flag i
      by (intro at_header_crc) (simp_all add: feedHeaderCrc_def)
    then have "stageInv (feedHeaderCrc g) (seen @ [b])" by (simp add: seen)
    then show ?thesis using assms(1) False by (simp add: gzInv_def feedHeaderCrc_def)
  qed
qed

lemma trailer_step:
  assumes "gzInv g seen out" "gzState g = Trailer" "feedTrailer b g = (True, g')"
  shows "gzInv g' (seen @ [b]) out"
proof -
  define s where "s = (trailer g)[unat (fieldBytes g) := b]"
  obtain h body where n: "unat (fieldBytes g) < 8" and l: "length (trailer g) = 8" and h: "gzHeader h"
    and seen: "seen = h @ body @ take (unat (fieldBytes g)) (trailer g)"
    using assms by (auto simp: gzInv_def stageInv_def Let_def)
  have i: "unat (fieldBytes g + 1) = Suc (unat (fieldBytes g))" using n by (intro unat_inc) simp
  have t: "seen @ [b] = h @ body @ take (Suc (unat (fieldBytes g))) s" using n l by (simp add: s_def seen take_snoc_update)
  show ?thesis
  proof (cases "fieldBytes g + 1 = 8")
    case True
    then have eight: "Suc (unat (fieldBytes g)) = 8" using i by simp
    have crc: "fromLe32 (s ! 0) (s ! 1) (s ! 2) (s ! 3) = gzCrc g"
      and g': "g' = g\<lparr>trailer := s, fieldBytes := 8, gzState := GzipDone\<rparr>"
      using assms(3) True by (auto simp: feedTrailer_def gzFail_def s_def [symmetric] Let_def split: if_splits)
    have "take 4 s = [s ! 0, s ! 1, s ! 2, s ! 3]"
      using l by (intro nth_equalityI) (auto simp: s_def less_Suc_eq numeral_eq_Suc)
    then have "take 4 s = le32Bytes (gzCrc g)" by (simp add: crc [symmetric] le32Bytes_fromLe32)
    moreover have "take 8 s = take 4 s @ drop 4 s" using l by (simp add: s_def)
    ultimately have "seen @ [b] = h @ body @ le32Bytes (gzCrc g) @ drop 4 s @ []" using t eight by simp
    moreover have "length (drop 4 s) = 4" using l by (simp add: s_def)
    ultimately have "stageInv g' (seen @ [b])" using at_done [of g' h "drop 4 s" body "[]"] h by (simp add: g')
    then show ?thesis using assms(1) l by (simp add: gzInv_def g' s_def)
  next
    case False
    then have "Suc (unat (fieldBytes g)) \<noteq> 8" using i by (simp add: word_unat_eq_iff)
    then have "Suc (unat (fieldBytes g)) < 8" using n by simp
    moreover have g': "g' = g\<lparr>trailer := s, fieldBytes := fieldBytes g + 1\<rparr>"
      using assms(3) False by (simp add: feedTrailer_def s_def [symmetric] Let_def)
    ultimately have "stageInv g' (seen @ [b])" using assms(2) h i unfolding g' t by (intro at_trailer) simp_all
    then show ?thesis using assms(1) by (simp add: gzInv_def g' s_def)
  qed
qed

lemma deflate_step:
  assumes "gzInv g seen out" "gzState g = Deflate" "feedDeflate Z emit data g ctx = (True, rest, g', ctx')"
    and keeps: "\<And>c o' bs c'. R c o' \<Longrightarrow> emit c bs = (True, c') \<Longrightarrow> R c' (o' @ bs)" and "R ctx out"
  shows "\<exists>taken out'. data = taken @ rest \<and> gzInv g' (seen @ taken) out' \<and> R ctx' out'"
proof -
  obtain h body where h: "gzHeader h" and seen: "seen = h @ body"
    using assms(1, 2) by (auto simp: gzInv_def stageInv_def Let_def)
  obtain status n bs t where z: "tinfl_decompress Z (inflater g) data (dict g) (unat (dictOffset g))
      (unat (TINFL_LZ_DICT_SIZE - dictOffset g)) = (status, n, bs, t)" by (metis prod_cases4)
  define g1 where "g1 = g\<lparr>inflater := t, dict := take (unat (dictOffset g)) (dict g) @ bs
      @ drop (unat (dictOffset g) + length bs) (dict g)\<rparr>"
  obtain kept g2 c2 where em: "emitOutput emit bs g1 ctx = (kept, g2, c2)" by (metis prod_cases3)
  from assms(3) have kept and c2: "ctx' = c2" and rest: "rest = drop n data"
    and g': "g' = g2 \<or> g' = g2\<lparr>fieldBytes := 0, gzState := Trailer\<rparr>"
    by (auto simp: feedDeflate_def z g1_def [symmetric] em gzFail_def Let_def split: if_splits)
  have g2: "gzState g2 = Deflate" "scratch g2 = scratch g" "trailer g2 = trailer g" "gzCrc g2 = mz_crc32 0 (out @ bs)"
      "R c2 (out @ bs)"
    using em \<open>kept\<close> assms(1, 2, 5) keeps
    by (auto simp: emitOutput_def g1_def gzInv_def mz_crc32_append gzFail_def Let_def split: if_splits prod.splits)
  have "seen @ take n data = h @ body @ take n data" by (simp add: seen)
  then have "stageInv g' (seen @ take n data)" using g'
  proof (elim disjE)
    assume "g' = g2"
    then show ?thesis using at_deflate [of g' h "body @ take n data"] h g2(1) by (simp add: seen)
  next
    assume "g' = g2\<lparr>fieldBytes := 0, gzState := Trailer\<rparr>"
    then show ?thesis using at_trailer [of g' h "seen @ take n data" "body @ take n data"] h by (simp add: seen)
  qed
  then have "gzInv g' (seen @ take n data) (out @ bs)" using g' g2 assms(1) by (auto simp: gzInv_def)
  then show ?thesis using rest c2 g2(5) by (intro exI [of _ "take n data"] exI [of _ "out @ bs"]) simp
qed

lemma feed_step:
  assumes "gzInv g seen out" "data \<noteq> []" "feedStep Z emit data g ctx = (True, rest, g', ctx')"
    and keeps: "\<And>c o' bs c'. R c o' \<Longrightarrow> emit c bs = (True, c') \<Longrightarrow> R c' (o' @ bs)" and "R ctx out"
  shows "\<exists>taken out'. data = taken @ rest \<and> gzInv g' (seen @ taken) out' \<and> R ctx' out'"
proof -
  obtain b bs where d: "data = b # bs" using assms(2) by (cases data) auto
  have one: ?thesis if "rest = bs" "ctx' = ctx" "gzInv g' (seen @ [b]) out"
    using that d assms(5) by (intro exI [of _ "[b]"] exI [of _ out]) simp
  show ?thesis
  proof (cases "gzState g")
    case HeaderFixed
    with assms(3) have "feedFixed b g = (True, g')" "rest = bs" "ctx' = ctx"
      by (simp_all add: feedStep_def d split: prod.splits)
    then show ?thesis using one fixed_step [OF assms(1) HeaderFixed] by blast
  next
    case HeaderExtraLen
    with assms(3) show ?thesis using one extra_len_step [OF assms(1) HeaderExtraLen, of b] by (simp add: feedStep_def d)
  next
    case HeaderExtraSkip
    with assms(3) show ?thesis using one extra_skip_step [OF assms(1) HeaderExtraSkip, of b] by (simp add: feedStep_def d)
  next
    case HeaderName
    with assms(3) show ?thesis using one name_step [OF assms(1) HeaderName, of b] by (simp add: feedStep_def d)
  next
    case HeaderComment
    with assms(3) show ?thesis using one comment_step [OF assms(1) HeaderComment, of b] by (simp add: feedStep_def d)
  next
    case HeaderCrc
    with assms(3) show ?thesis using one header_crc_step [OF assms(1) HeaderCrc, of b] by (simp add: feedStep_def d)
  next
    case Deflate
    with assms(3) have "feedDeflate Z emit data g ctx = (True, rest, g', ctx')" by (simp add: feedStep_def)
    from deflate_step [OF assms(1) Deflate this, of R] keeps assms(5) show ?thesis by blast
  next
    case Trailer
    with assms(3) have "feedTrailer b g = (True, g')" "rest = bs" "ctx' = ctx"
      by (simp_all add: feedStep_def d split: prod.splits)
    then show ?thesis using one trailer_step [OF assms(1) Trailer] by blast
  next
    case GzipDone
    with assms(3) have e: "rest = []" "g' = g" "ctx' = ctx" by (simp_all add: feedStep_def)
    obtain h body isize pad where h: "gzHeader h" "length isize = 4"
      "seen = h @ body @ le32Bytes (gzCrc g) @ isize @ pad"
      using assms(1) GzipDone by (auto simp: gzInv_def stageInv_def)
    have "gzInv g' (seen @ data) out"
      using at_done [OF GzipDone h(1, 2), of body "pad @ data"] assms(1) by (simp add: gzInv_def h(3) e)
    then show ?thesis using e assms(5) by auto
  next
    case GzipFailed
    with assms(3) show ?thesis by (simp add: feedStep_def)
  qed
qed

text \<open>What holds of a consumer's context after everything the consumer took so far.\<close>

definition follows :: "('c \<Rightarrow> byte list \<Rightarrow> bool \<times> 'c) \<Rightarrow> ('c \<Rightarrow> byte list \<Rightarrow> bool) \<Rightarrow> bool" where
  "follows emit R \<longleftrightarrow> (\<forall>c out bs c'. R c out \<longrightarrow> emit c bs = (True, c') \<longrightarrow> R c' (out @ bs))"

lemma gzFeed_inv:
  assumes "gzFeed Z emit data g ctx = Some r" "follows emit R" "fst r" "gzInv g seen out" "R ctx out"
  shows "\<exists>out'. gzInv (fst (snd r)) (seen @ data) out' \<and> R (snd (snd r)) out'"
proof -
  have "\<forall>seen out. follows emit R \<longrightarrow> fst r \<longrightarrow> gzInv g seen out \<longrightarrow> R ctx out \<longrightarrow>
      (\<exists>out'. gzInv (fst (snd r)) (seen @ data) out' \<and> R (snd (snd r)) out')"
  proof (rule gzFeed.raw_induct [where P = "\<lambda>Z emit data g ctx r. \<forall>seen out. follows emit R \<longrightarrow> fst r
      \<longrightarrow> gzInv g seen out \<longrightarrow> R ctx out \<longrightarrow>
      (\<exists>out'. gzInv (fst (snd r)) (seen @ data) out' \<and> R (snd (snd r)) out')", OF _ assms(1)],
      intro allI impI, goal_cases)
    case (1 feed Z emit data g ctx r seen out)
    show ?case
    proof (cases "data = []")
      case True
      then show ?thesis using 1 by auto
    next
      case False
      obtain ok rest g1 c1 where s: "feedStep Z emit data g ctx = (ok, rest, g1, c1)" by (metis prod_cases4)
      from 1(2) False s 1(4) have ok: "ok = True" and f: "feed Z emit rest g1 c1 = Some r" by (auto split: if_splits)
      have keeps: "R c o' \<Longrightarrow> emit c bs = (True, c') \<Longrightarrow> R c' (o' @ bs)" for c o' bs c'
        using 1(3) by (auto simp: follows_def)
      obtain taken o1 where t: "data = taken @ rest" "gzInv g1 (seen @ taken) o1" "R c1 o1"
        using feed_step [OF 1(5) False s [unfolded ok], of R] keeps 1(6) by blast
      show ?thesis using 1(1) [OF f, rule_format, OF 1(3, 4) t(2, 3)] t(1) by simp
    qed
  qed
  then show ?thesis using assms(2-) by blast
qed

lemma gzFeedAll_inv:
  assumes "gzFeedAll Z emit pieces g ctx = Some (True, g', ctx')" "follows emit R" "gzInv g seen out" "R ctx out"
  shows "\<exists>out'. gzInv g' (seen @ concat pieces) out' \<and> R ctx' out'"
  using assms
proof (induction pieces arbitrary: g ctx seen out)
  case (Cons x xs)
  obtain g1 c1 where f: "gzFeed Z emit x g ctx = Some (True, g1, c1)"
    and rest: "gzFeedAll Z emit xs g1 c1 = Some (True, g', ctx')"
    using Cons.prems(1) by (auto split: option.splits if_splits prod.splits)
  obtain o1 where "gzInv g1 (seen @ x) o1" "R c1 o1" using gzFeed_inv [OF f Cons.prems(2) _ Cons.prems(3, 4)] by auto
  from Cons.IH [OF rest Cons.prems(2) this] show ?case by simp
qed auto

lemma gzInv_begin:
  assumes "length (scratch g) = 10" "length (trailer g) = 8"
  shows "gzInv (gzBegin Z g) [] []"
proof -
  have "mz_crc32 0 [] = 0" by (simp add: mz_crc32_eq)
  then show ?thesis using assms by (simp add: gzInv_def stageInv_def gzBegin_def Let_def)
qed

lemma gzFinish_done: "fst (gzFinish g) \<Longrightarrow> gzState g = GzipDone"
  by (auto simp: gzFinish_def split: if_splits)

text \<open>Whatever every call of the consumer keeps is kept by the reader.\<close>

definition keepsCtx :: "('c \<Rightarrow> byte list \<Rightarrow> bool \<times> 'c) \<Rightarrow> ('c \<Rightarrow> bool) \<Rightarrow> bool" where
  "keepsCtx emit P \<longleftrightarrow> (\<forall>c bs. P c \<longrightarrow> P (snd (emit c bs)))"

lemma feedStep_ctx:
  assumes "feedStep Z emit data g ctx = (ok, rest, g', ctx')" "keepsCtx emit P" "P ctx"
  shows "P ctx'"
proof -
  have "P c'" if "emitOutput emit out g1 ctx = (k, g2, c')" for out g1 k g2 c'
  proof -
    have "P (snd (emit ctx out))" using assms(2, 3) by (simp add: keepsCtx_def)
    then show ?thesis using that assms(3)
      by (auto simp: emitOutput_def gzFail_def Let_def split: if_splits prod.splits)
  qed
  then show ?thesis using assms(1, 3)
    by (auto simp: feedStep_def feedDeflate_def gzFail_def Let_def split: GzipState.splits if_splits prod.splits)
qed

lemma gzFeed_ctx:
  assumes "gzFeed Z emit data g ctx = Some r" "keepsCtx emit P" "P ctx"
  shows "P (snd (snd r))"
proof -
  have "keepsCtx emit P \<longrightarrow> P ctx \<longrightarrow> P (snd (snd r))"
  proof (rule gzFeed.raw_induct [where P = "\<lambda>Z emit data g ctx r. keepsCtx emit P \<longrightarrow> P ctx \<longrightarrow> P (snd (snd r))",
      OF _ assms(1)], intro impI, goal_cases)
    case (1 feed Z emit data g ctx r)
    obtain ok rest g1 c1 where s: "feedStep Z emit data g ctx = (ok, rest, g1, c1)" by (metis prod_cases4)
    then show ?case using 1 feedStep_ctx [OF s 1(3, 4)] by (auto split: if_splits)
  qed
  then show ?thesis using assms(2, 3) by blast
qed

section \<open>The loop ends\<close>

text \<open>What the decompressor documents: it takes no more than it is given and writes no more than fits;
  when it has both input and room and is not at the end or failed, it gets something done; and a
  byte of input gives only so much output, \<open>pending\<close> being what it already holds back.\<close>

lemma dict_mask: "unat (x AND (TINFL_LZ_DICT_SIZE - 1)) < 32768"
  using unat_and_mask [of x 15] by (simp add: TINFL_LZ_DICT_SIZE_def mask_eq_exp_minus_1)

locale inflate_library =
  fixes Z :: "'t Tinfl" and pending :: "'t \<Rightarrow> nat" and ratio :: nat
  assumes progress: "tinfl_decompress Z t data window at room = (status, n, out, t') \<Longrightarrow> data \<noteq> [] \<Longrightarrow> 0 < room \<Longrightarrow>
        n \<le> length data \<and> length out \<le> room \<and> (status > 0 \<longrightarrow> 0 < n \<or> out \<noteq> [])"
    and expansion: "tinfl_decompress Z t data window at room = (status, n, out, t') \<Longrightarrow>
        length out + pending t' \<le> pending t + ratio * n"
begin

definition work :: "byte list \<Rightarrow> 't GzipInflater \<Rightarrow> nat" where
  "work data g = (ratio + 2) * length data + pending (inflater g) + (if gzState g = Deflate then 1 else 0)"

lemma byte_work: "inflater g' = inflater g \<Longrightarrow> work bs g' < work (b # bs) g"
  by (simp add: work_def)

lemma deflate_work:
  assumes "feedDeflate Z emit data g ctx = (True, rest, g', ctx')" "data \<noteq> []" "gzState g = Deflate"
    and "unat (dictOffset g) < 32768"
  shows "work rest g' < work data g \<and> unat (dictOffset g') < 32768"
proof -
  obtain status n bs t where z: "tinfl_decompress Z (inflater g) data (dict g) (unat (dictOffset g))
      (unat (TINFL_LZ_DICT_SIZE - dictOffset g)) = (status, n, bs, t)" by (metis prod_cases4)
  define g1 where "g1 = g\<lparr>inflater := t, dict := take (unat (dictOffset g)) (dict g) @ bs
      @ drop (unat (dictOffset g) + length bs) (dict g)\<rparr>"
  obtain kept g2 c2 where em: "emitOutput emit bs g1 ctx = (kept, g2, c2)" by (metis prod_cases3)
  from assms(1) have kept: "kept = True" and rest: "rest = drop n data"
    and g': "status = 0 \<and> g' = g2\<lparr>fieldBytes := 0, gzState := Trailer\<rparr> \<or> status > 0 \<and> g' = g2"
    by (auto simp: feedDeflate_def z g1_def [symmetric] em gzFail_def Let_def TINFL_STATUS_DONE_def split: if_splits)
  have g2: "gzState g2 = Deflate" "inflater g2 = t" "unat (dictOffset g2) < 32768"
    using em kept assms(3, 4) by (auto simp: emitOutput_def g1_def gzFail_def Let_def dict_mask
        split: if_splits prod.splits)
  have "dictOffset g < TINFL_LZ_DICT_SIZE" using assms(4) by (simp add: word_less_nat_alt TINFL_LZ_DICT_SIZE_def)
  then have "0 < unat (TINFL_LZ_DICT_SIZE - dictOffset g)" by (simp add: unat_gt_0)
  with progress [OF z assms(2)] have n: "n \<le> length data" "status > 0 \<Longrightarrow> 0 < n \<or> bs \<noteq> []" by simp_all
  obtain m where "length data = n + m" using n(1) le_Suc_ex by blast
  then have "(ratio + 2) * (length data - n) + (ratio * n + 2 * n) = (ratio + 2) * length data"
    by (simp add: algebra_simps)
  with expansion [OF z] have "(ratio + 2) * (length data - n) + pending t + length bs + 2 * n
      \<le> (ratio + 2) * length data + pending (inflater g)" by simp
  then have less: "(ratio + 2) * (length data - n) + pending t + (if 0 < n \<or> bs \<noteq> [] then 1 else 0)
      \<le> (ratio + 2) * length data + pending (inflater g)" by (cases bs) auto
  have "work rest g' < work data g"
  proof (cases "0 < status")
    case True
    then have "0 < n \<or> bs \<noteq> []" "gzState g' = Deflate" "inflater g' = t" using g' g2 n(2) by auto
    then show ?thesis using less assms(3) by (simp only: work_def rest length_drop if_True simp_thms)
  next
    case False
    then have "gzState g' = Trailer" "inflater g' = t" using g' g2 by auto
    moreover have "(ratio + 2) * (length data - n) + pending t \<le> (ratio + 2) * length data + pending (inflater g)"
      using less by (rule add_leD1)
    ultimately show ?thesis using assms(3) by (simp add: work_def rest del: mult_Suc_right add_2_eq_Suc add_2_eq_Suc')
  qed
  then show ?thesis using g' g2 by auto
qed

lemma byte_steps:
  "inflater (snd (feedFixed b g)) = inflater g" "dictOffset (snd (feedFixed b g)) = dictOffset g"
  "inflater (feedExtraLen b g) = inflater g" "dictOffset (feedExtraLen b g) = dictOffset g"
  "inflater (feedExtraSkip g) = inflater g" "dictOffset (feedExtraSkip g) = dictOffset g"
  "inflater (feedString b g) = inflater g" "dictOffset (feedString b g) = dictOffset g"
  "inflater (feedHeaderCrc g) = inflater g" "dictOffset (feedHeaderCrc g) = dictOffset g"
  "inflater (snd (feedTrailer b g)) = inflater g" "dictOffset (snd (feedTrailer b g)) = dictOffset g"
  by (simp_all add: feedFixed_def feedExtraLen_def feedExtraSkip_def feedString_def feedHeaderCrc_def feedTrailer_def
      gzFail_def Let_def)

lemma step_work:
  assumes "feedStep Z emit data g ctx = (True, rest, g', ctx')" "data \<noteq> []" "unat (dictOffset g) < 32768"
  shows "work rest g' < work data g \<and> unat (dictOffset g') < 32768"
proof -
  obtain b bs where d: "data = b # bs" using assms(2) by (cases data) auto
  have s: "snd (feedFixed b g) = g' \<Longrightarrow> ?thesis" if "gzState g = HeaderFixed" "rest = bs"
    using that assms(3) byte_steps(1, 2) [of b g] byte_work [of g' g bs b] by (auto simp: d)
  have t: "snd (feedTrailer b g) = g' \<Longrightarrow> ?thesis" if "gzState g = Trailer" "rest = bs"
    using that assms(3) byte_steps(11, 12) [of b g] byte_work [of g' g bs b] by (auto simp: d)
  show ?thesis
  proof (cases "gzState g")
    case Deflate
    then show ?thesis using deflate_work [of emit data g ctx rest g' ctx'] assms by (simp add: feedStep_def)
  next
    case HeaderFixed
    then show ?thesis using s assms(1) by (auto simp: feedStep_def d split: prod.splits)
  next
    case Trailer
    then show ?thesis using t assms(1) by (auto simp: feedStep_def d split: prod.splits)
  qed (use assms(1, 3) byte_work [of g' g bs b] in \<open>auto simp: feedStep_def d byte_steps work_def\<close>)
qed

lemma feed_returns:
  "unat (dictOffset g) < 32768 \<Longrightarrow>
    \<exists>r. gzFeed Z emit data g ctx = Some r \<and> (fst r \<longrightarrow> unat (dictOffset (fst (snd r))) < 32768)"
proof (induction "work data g" arbitrary: data g ctx rule: less_induct)
  case less
  show ?case
  proof (cases "data = []")
    case True
    then show ?thesis using less.prems by (simp add: gzFeed.simps)
  next
    case False
    obtain ok rest g1 c1 where s: "feedStep Z emit data g ctx = (ok, rest, g1, c1)" by (metis prod_cases4)
    show ?thesis
    proof (cases ok)
      case True
      with s have "work rest g1 < work data g" "unat (dictOffset g1) < 32768"
        using step_work [of emit data g ctx rest g1 c1] False less.prems by auto
      from less.hyps [OF this, of c1] show ?thesis using s True False by (subst gzFeed.simps) simp
    next
      case False
      then show ?thesis using s \<open>data \<noteq> []\<close> by (subst gzFeed.simps) simp
    qed
  qed
qed

lemma all_return:
  "unat (dictOffset g) < 32768 \<Longrightarrow> \<exists>r. gzFeedAll Z emit pieces g ctx = Some r"
proof (induction pieces arbitrary: g ctx)
  case (Cons x xs)
  from feed_returns [OF Cons.prems, of emit x ctx] obtain r where
    r: "gzFeed Z emit x g ctx = Some r" "fst r \<Longrightarrow> unat (dictOffset (fst (snd r))) < 32768" by blast
  show ?case
  proof (cases "fst r")
    case True
    from Cons.IH [OF r(2) [OF this], of "snd (snd r)"] show ?thesis using r(1) True by (cases r) simp
  next
    case False
    then show ?thesis using r(1) by (cases r) auto
  qed
qed auto

end

section \<open>A decompressor that keeps the promises\<close>

text \<open>The stored blocks of the deflate format, a byte per call: enough to run the reader on a file that
  \<open>gzip\<close> accepts.\<close>

datatype StoredState = BlockHead | BlockLength bool "byte list" | BlockCopy bool nat | BlocksEnded

definition afterBlock :: "bool \<Rightarrow> int \<times> StoredState" where
  "afterBlock final = (if final then (0, BlocksEnded) else (1, BlockHead))"

definition storedDecompress :: "StoredState \<Rightarrow> byte list \<Rightarrow> byte list \<Rightarrow> nat \<Rightarrow> nat
    \<Rightarrow> int \<times> nat \<times> byte list \<times> StoredState" where
  "storedDecompress t data window at room =
     (if data = [] then (1, 0, [], t)
      else let b = hd data in
      case t of
        BlockHead \<Rightarrow> if b AND 6 \<noteq> 0 then (- 1, 0, [], t) else (1, 1, [], BlockLength (b AND 1 = 1) [])
      | BlockLength final bs \<Rightarrow>
          if length bs < 3 then (1, 1, [], BlockLength final (bs @ [b]))
          else let n = fromLe16 (bs ! 0) (bs ! 1) in
            if fromLe16 (bs ! 2) b \<noteq> NOT n then (- 1, 0, [], t)
            else if n = 0 then (let (st, t') = afterBlock final in (st, 1, [], t'))
            else (1, 1, [], BlockCopy final (unat n))
      | BlockCopy final n \<Rightarrow>
          if room = 0 then (2, 0, [], t)
          else let (st, t') = (if n \<le> 1 then afterBlock final else (1, BlockCopy final (n - 1))) in (st, 1, [b], t')
      | BlocksEnded \<Rightarrow> (0, 0, [], t))"

definition refInflate :: "StoredState Tinfl" where
  "refInflate = \<lparr>tinfl_init = BlockHead, tinfl_decompress = storedDecompress\<rparr>"

interpretation refUnzip: inflate_library refInflate "\<lambda>_. 0" 1
proof
  show "n \<le> length data \<and> length out \<le> room \<and> (0 < status \<longrightarrow> 0 < n \<or> out \<noteq> [])"
    if "tinfl_decompress refInflate t data window at room = (status, n, out, t')" "data \<noteq> []" "0 < room"
    for t data window at room status n out t'
  proof -
    have "1 \<le> length data" using that(2) by (cases data) auto
    then show ?thesis using that by (auto simp: refInflate_def storedDecompress_def Let_def afterBlock_def
          split: StoredState.splits if_splits)
  qed
  show "length out + 0 \<le> 0 + 1 * n" if "tinfl_decompress refInflate t data window at room = (status, n, out, t')"
    for t data window at room status n out t'
    using that by (auto simp: refInflate_def storedDecompress_def Let_def afterBlock_def
        split: StoredState.splits if_splits)
qed

definition gzCollect :: "byte list \<Rightarrow> byte list \<Rightarrow> bool \<times> byte list" where
  "gzCollect out bs = (True, out @ bs)"

lemma collect_follows: "follows gzCollect (\<lambda>out seen. out = seen)"
  by (simp add: follows_def gzCollect_def)

text \<open>The bytes \<open>hi\<close> as a gzip file with a name field, cut into two pieces.\<close>

definition exampleGzip :: "byte list list" where
  "exampleGzip = [[0x1F, 0x8B, 8, 8, 0, 0, 0, 0, 0, 3, 0x61, 0, 1, 2, 0, 0xFD],
     [0xFF, 0x68, 0x69, 0xAC, 0x2A, 0x93, 0xD8, 2, 0, 0, 0]]"

definition freshInflater :: "StoredState GzipInflater" where
  "freshInflater = \<lparr>gzState = HeaderFixed, errorMsg = [], headerFlags = 0, fieldBytes = 0, fieldLen = 0,
     scratch = replicate 10 0, inflater = BlockHead, dictOffset = 0, dict = replicate 4 0, gzCrc = 0, outTotal = 0,
     trailer = replicate 8 0\<rparr>"

lemma gzFeed_Cons:
  "gzFeed Z emit (b # bs) g ctx = (case feedStep Z emit (b # bs) g ctx of (ok, rest, g', ctx') \<Rightarrow>
     if \<not> ok then Some (False, g', ctx') else gzFeed Z emit rest g' ctx')"
  by (subst gzFeed.simps) simp

lemma gzFeed_Nil: "gzFeed Z emit [] g ctx = Some (True, g, ctx)"
  by (simp add: gzFeed.simps)

lemma example_crc: "mz_crc32 0 [0x68] = 0x916B06E7" "mz_crc32 0x916B06E7 [0x69] = 0xD8932AAC"
  by (simp_all add: mz_crc32_eq crcByte_def crcBit_eight crcBit_def)

lemmas feed_eval = gzFeed_Cons gzFeed_Nil feedStep_def feedFixed_def feedExtraLen_def feedExtraSkip_def feedString_def
  feedHeaderCrc_def feedDeflate_def feedTrailer_def emitOutput_def gzFail_def flagSet_def afterExtra_def afterName_def
  afterComment_def storedDecompress_def afterBlock_def gzCollect_def example_crc TINFL_LZ_DICT_SIZE_def
  TINFL_STATUS_DONE_def

lemma example_unpacks:
  "\<exists>g. gzFeedAll refInflate gzCollect exampleGzip (gzBegin refInflate freshInflater) [] = Some (True, g, [0x68, 0x69])
     \<and> fst (gzFinish g)"
  by (simp add: exampleGzip_def refInflate_def freshInflater_def gzBegin_def feed_eval fromLe16_def fromLe32_def
      gzFinish_def)

section \<open>Properties\<close>

text \<open>C21: unpacking an upload in pieces always returns, and a file it accepts is intact: after a header
  of the documented form and the compressed body, the file holds the checksum of exactly the bytes that
  were handed to the consumer, and the four size bytes.\<close>

theorem gunzip_accepts_only_intact:
  assumes "inflate_library Z pending ratio" "length (scratch g0) = 10" "length (trailer g0) = 8"
  shows "\<exists>ok g out. gzFeedAll Z gzCollect pieces (gzBegin Z g0) [] = Some (ok, g, out)
    \<and> (ok \<and> fst (gzFinish g) \<longrightarrow> (\<exists>h body isize pad. gzHeader h \<and> length isize = 4
          \<and> concat pieces = h @ body @ le32Bytes (otaCrc32 out) @ isize @ pad))"
proof -
  have "unat (dictOffset (gzBegin Z g0)) < 32768" by (simp add: gzBegin_def)
  from inflate_library.all_return [OF assms(1) this, of gzCollect pieces "[]"] obtain ok g out where
    r: "gzFeedAll Z gzCollect pieces (gzBegin Z g0) [] = Some (ok, g, out)" by (metis prod_cases3)
  have "\<exists>h body isize pad. gzHeader h \<and> length isize = 4 \<and> concat pieces = h @ body @ le32Bytes (otaCrc32 out) @ isize @ pad"
    if "ok" "fst (gzFinish g)"
  proof -
    have "gzInv g ([] @ concat pieces) out"
      using gzFeedAll_inv [of Z gzCollect pieces "gzBegin Z g0" "[]" g out, OF _ collect_follows gzInv_begin [OF assms(2, 3)] refl]
        r that(1) by simp
    moreover have "mz_crc32 0 out = otaCrc32 out" by (simp add: mz_crc32_eq otaCrc32_def)
    ultimately show ?thesis using gzFinish_done [OF that(2)] unfolding gzInv_def stageInv_def
      by (clarsimp simp: Let_def) blast
  qed
  then show ?thesis using r by blast
qed

lemma gunzip_accepts_only_intact_witness:
  "\<exists>g h body isize pad. gzFeedAll refInflate gzCollect exampleGzip (gzBegin refInflate freshInflater) [] = Some (True, g, [0x68, 0x69])
     \<and> gzHeader h \<and> concat exampleGzip = h @ body @ le32Bytes (otaCrc32 [0x68, 0x69]) @ isize @ pad"
proof -
  have l: "length (scratch freshInflater) = 10" "length (trailer freshInflater) = 8" by (simp_all add: freshInflater_def)
  obtain g where g: "gzFeedAll refInflate gzCollect exampleGzip (gzBegin refInflate freshInflater) [] = Some (True, g, [0x68, 0x69])"
    "fst (gzFinish g)" using example_unpacks by blast
  then have "\<exists>h body isize pad. gzHeader h \<and> length isize = 4
      \<and> concat exampleGzip = h @ body @ le32Bytes (otaCrc32 [0x68, 0x69]) @ isize @ pad"
    using gunzip_accepts_only_intact [OF refUnzip.inflate_library_axioms l, of exampleGzip] by (simp only: prod.inject option.inject) blast
  then show ?thesis using g(1) by blast
qed

end
