(* ===== verification/Waveform_Upload.thy ===== *)
theory Waveform_Upload
  imports Waveform_Parse Gzip_Stream Stream_Ring
begin

text \<open>
  \<open>src/src/waveform.cpp\<close>: the uploaded waveform. An HTTP body, packed or not, text or binary, is written to
  a staging file on the SD card, read back, and swapped in for \<open>/waveform.bin\<close> with the previous file as
  \<open>/waveform.bak\<close>; then the stored waveform is activated, from memory when it fits and through the
  double buffer of \<open>Stream_Ring\<close> when it does not.

  The file-scope variables of the module are the record \<open>Wave\<close>. \<open>pre\<close>, \<open>recBuf\<close> and \<open>line\<close> are the
  filled parts of their buffers, so their lengths are \<open>preLen\<close>, \<open>recLen\<close> and \<open>lineLen\<close>. The parser writes into
  the module's own arrays, so those are handed to each line and taken back. The card is a record of the
  calls the code makes, by path; the position of the open output file is \<open>outPos\<close>. What the stream
  returns is a list of events, each with the reading of \<open>millis\<close> that follows; a list that ends is
  a stream that stays silent. Number conversion and the deflate decompressor are parameters as in
  \<open>Waveform_Parse\<close> and \<open>Gzip_Stream\<close>; the progress callback and log lines are left out.
\<close>

record 'd WaveLib =
  wvFiles :: "'d \<Rightarrow> string \<Rightarrow> byte list option"
  wvExists :: "'d \<Rightarrow> string \<Rightarrow> bool"
  wvRemove :: "'d \<Rightarrow> string \<Rightarrow> 'd"
  wvRename :: "'d \<Rightarrow> string \<Rightarrow> string \<Rightarrow> bool \<times> 'd"
  wvOpen :: "'d \<Rightarrow> string \<Rightarrow> bool"
  wvSize :: "'d \<Rightarrow> string \<Rightarrow> nat"
  wvReadAt :: "'d \<Rightarrow> string \<Rightarrow> nat \<Rightarrow> nat \<Rightarrow> byte list"
  wvCreate :: "'d \<Rightarrow> string \<Rightarrow> bool \<times> 'd"
  wvWriteAt :: "'d \<Rightarrow> string \<Rightarrow> nat \<Rightarrow> byte list \<Rightarrow> nat \<times> 'd"
  wvSeek :: "'d \<Rightarrow> string \<Rightarrow> nat \<Rightarrow> bool"
  wvSync :: "'d \<Rightarrow> string \<Rightarrow> bool \<times> 'd"

definition WaveformFile :: string where "WaveformFile = ''/waveform.bin''"
definition WaveformStagingFile :: string where "WaveformStagingFile = ''/waveform.tmp''"
definition WaveformBackupFile :: string where "WaveformBackupFile = ''/waveform.bak''"

datatype WaveMode = ModeNone | ModeResident | ModeStreaming
datatype Stage = Detect | Text | BinPayload | BinSeqPayload | IngestFailed

definition StagingSamples :: u32 where [const_defs]: "StagingSamples = 4096"

record 'd Wave =
  card :: 'd
  waveSamples :: "nat \<Rightarrow> u16"
  liveLevels :: "nat \<Rightarrow> u16"
  liveMicros :: "nat \<Rightarrow> u32"
  storedType :: byte
  storedCount :: u32
  waveMode :: WaveMode
  streamFile :: bool
  player :: Player
  staging :: "nat \<Rightarrow> u16"
  stage :: Stage
  ingestErr :: string
  useSd :: bool
  outOpen :: bool
  outPos :: nat
  sunkSamples :: u32
  pre :: "byte list"
  binType :: byte
  binCount :: u32
  payloadGot :: u32
  recBuf :: "byte list"
  parser :: WaveParser
  line :: "byte list"

section \<open>Activation\<close>

definition deactivate :: "'d Wave \<Rightarrow> 'd Wave" where
  "deactivate s = s\<lparr>waveMode := ModeNone, storedType := WaveTypeNone, storedCount := 0, streamFile := False,
     player := (player s)\<lparr>ring := ringReset\<rparr>\<rparr>"

primrec samplesOf :: "byte list \<Rightarrow> nat \<Rightarrow> u16 list" where
  "samplesOf bs 0 = []"
| "samplesOf bs (Suc n) = samplesOf bs n @ [fromLe16 (bs ! (2 * n)) (bs ! (2 * n + 1))]"

text \<open>What reading samples from the open stream file returns.\<close>

definition streamRead :: "'d WaveLib \<Rightarrow> 'd \<Rightarrow> bool \<Rightarrow> u32 \<Rightarrow> u32 \<Rightarrow> u16 list option" where
  "streamRead D c opened off n =
     (let bs = (if opened then wvReadAt D c WaveformFile (WaveBinaryHeaderSize + unat off * 2) (unat n * 2) else []) in
      if length bs = unat n * 2 then Some (samplesOf bs (unat n)) else None)"

text \<open>A bulk read into the memory-resident store; a short read leaves the rest as it was.\<close>

definition loadSamples :: "byte list \<Rightarrow> (nat \<Rightarrow> u16) \<Rightarrow> nat \<Rightarrow> u16" where
  "loadSamples bs store i =
     (if 2 * i + 1 < length bs then fromLe16 (bs ! (2 * i)) (bs ! (2 * i + 1)) else store i)"

primrec loadSegments :: "'d WaveLib \<Rightarrow> nat \<Rightarrow> 'd Wave \<Rightarrow> bool \<times> 'd Wave" where
  "loadSegments D 0 s = (True, s)"
| "loadSegments D (Suc i) s =
     (let (ok, s) = loadSegments D i s; rec = wvReadAt D (card s) WaveformFile (WaveBinaryHeaderSize + 8 * i) 8 in
      if \<not> ok then (False, s)
      else if length rec \<noteq> 8 then (False, s)
      else let us = fromLe32 (rec ! 4) (rec ! 5) (rec ! 6) (rec ! 7) in
        (us \<noteq> 0, s\<lparr>liveLevels := (liveLevels s)(i := fromLe16 (rec ! 0) (rec ! 1)),
                    liveMicros := (liveMicros s)(i := us)\<rparr>))"

definition activateResident :: "'d WaveLib \<Rightarrow> u32 \<Rightarrow> 'd Wave \<Rightarrow> 'd Wave" where
  "activateResident D n s =
     (let bs = wvReadAt D (card s) WaveformFile WaveBinaryHeaderSize (unat n * 2);
          s = s\<lparr>waveSamples := loadSamples bs (waveSamples s)\<rparr> in
      if length bs = unat n * 2
      then s\<lparr>storedType := WaveTypeReference, storedCount := n, waveMode := ModeResident\<rparr>
      else deactivate s)"

definition activateStream :: "'d WaveLib \<Rightarrow> u32 \<Rightarrow> 'd Wave \<Rightarrow> 'd Wave option" where
  "activateStream D n s =
     (if wvSize D (card s) WaveformFile \<ge> WaveBinaryHeaderSize + unat n * 2
      then let opened = wvOpen D (card s) WaveformFile;
               s = s\<lparr>storedType := WaveTypeReference, storedCount := n, streamFile := opened\<rparr> in
        map_option (\<lambda>p. s\<lparr>player := p, waveMode := ModeStreaming\<rparr>)
          (activateStreaming n (streamRead D (card s) opened) (streamBufs (player s)))
      else Some (deactivate s))"

definition activateSequence :: "'d WaveLib \<Rightarrow> u32 \<Rightarrow> 'd Wave \<Rightarrow> 'd Wave" where
  "activateSequence D n s =
     (let (ok, s) = loadSegments D (unat n) s in
      if ok then s\<lparr>storedType := WaveTypeSequence, storedCount := n, waveMode := ModeResident\<rparr>
      else deactivate s)"

definition activateFromSd :: "'d WaveLib \<Rightarrow> bool \<Rightarrow> 'd Wave \<Rightarrow> 'd Wave option" where
  "activateFromSd D sdAvailable s =
     (if \<not> sdAvailable \<or> \<not> wvExists D (card s) WaveformFile then Some s
      else if \<not> wvOpen D (card s) WaveformFile then Some s
      else let header = wvReadAt D (card s) WaveformFile 0 WaveBinaryHeaderSize;
               (n, type) = (if length header = WaveBinaryHeaderSize then waveBinaryHeaderRead header WaveTypeNone
                            else (- 1, WaveTypeNone)) in
        if n < 0 then Some s
        else let count = word_of_int n in
          if type = WaveTypeReference \<and> count \<le> MaxWaveSamples then Some (activateResident D count s)
          else if type = WaveTypeReference then activateStream D count s
          else Some (activateSequence D count s))"

definition waveformLoadFromSd :: "'d WaveLib \<Rightarrow> bool \<Rightarrow> bool \<Rightarrow> 'd Wave \<Rightarrow> 'd Wave option" where
  "waveformLoadFromSd D psramAvailable sdAvailable s =
     (if \<not> psramAvailable then Some (deactivate s) else activateFromSd D sdAvailable s)"

section \<open>The sink\<close>

definition ingestFail :: "string \<Rightarrow> 'd Wave \<Rightarrow> bool \<times> 'd Wave" where
  "ingestFail message s = (False, s\<lparr>ingestErr := message, stage := IngestFailed\<rparr>)"

text \<open>A write at the position of the output file, which moves by what was written.\<close>

definition outWrite :: "'d WaveLib \<Rightarrow> byte list \<Rightarrow> 'd Wave \<Rightarrow> bool \<times> 'd Wave" where
  "outWrite D bs s =
     (let (n, c) = wvWriteAt D (card s) WaveformStagingFile (outPos s) bs in
      (n = length bs, s\<lparr>card := c, outPos := outPos s + n\<rparr>))"

definition sinkSamples :: "'d WaveLib \<Rightarrow> u16 list \<Rightarrow> 'd Wave \<Rightarrow> bool \<times> 'd Wave" where
  "sinkSamples D data s =
     (let n = of_nat (length data); sunk = (\<lambda>s. (True, s\<lparr>sunkSamples := sunkSamples s + n\<rparr>)) in
      if useSd s then
        if sunkSamples s + n > MaxStreamSamples then ingestFail ''too many points/segments'' s
        else let (ok, s) = outWrite D (concat (map le16Bytes data)) s in
          if \<not> ok then ingestFail ''SD write failed'' s else sunk s
      else if sunkSamples s + n > MaxWaveSamples then ingestFail ''waveform too long without an SD card'' s
      else sunk (s\<lparr>waveSamples := (\<lambda>i. if unat (sunkSamples s) \<le> i \<and> i < unat (sunkSamples s) + length data
             then data ! (i - unat (sunkSamples s)) else waveSamples s i)\<rparr>))"

definition flushParserStaging :: "'d WaveLib \<Rightarrow> 'd Wave \<Rightarrow> bool \<times> 'd Wave" where
  "flushParserStaging D s =
     (let n = wpCount (parser s) in
      if n > 0 then sinkSamples D (map (staging s) [0..<unat n]) (s\<lparr>parser := (parser s)\<lparr>wpCount := 0\<rparr>\<rparr>)
      else (True, s))"

definition openSink :: "'d WaveLib \<Rightarrow> bool \<Rightarrow> 'd Wave \<Rightarrow> bool \<times> 'd Wave" where
  "openSink D binaryWithHeader s =
     (if useSd s then
        let (opened, c) = wvCreate D (wvRemove D (card s) WaveformStagingFile) WaveformStagingFile;
            s = s\<lparr>card := c, outOpen := opened, outPos := 0\<rparr> in
        if \<not> opened then ingestFail ''SD open failed'' s
        else let (ok, s) = outWrite D (waveBinaryHeaderWrite
                   (if binaryWithHeader then binType s else WaveTypeReference) 2) s in
          if \<not> ok then ingestFail ''SD write failed'' s else (True, s)
      else (True, s))"

section \<open>Ingest\<close>

text \<open>One line through the parser, which works on the module's arrays.\<close>

definition byteChar :: "byte \<Rightarrow> char" where
  "byteChar b = char_of (unat b)"

definition parseLine :: "conversion \<Rightarrow> 'd Wave \<Rightarrow> int \<times> 'd Wave" where
  "parseLine conv s =
     (let (err, p) = waveParseLine conv (map byteChar (line s))
            ((parser s)\<lparr>wpSamples := staging s, segLevelsQ15 := liveLevels s, segMicros := liveMicros s\<rparr>) in
      (err, s\<lparr>parser := p, staging := wpSamples p, liveLevels := segLevelsQ15 p, liveMicros := segMicros p,
              line := []\<rparr>))"

definition lineError :: "int \<Rightarrow> string" where
  "lineError err =
     (if err = WaveErrNoType then ''first line must be type=reference or type=sequence''
      else if err = WaveErrBadValue then ''unparseable level value''
      else if err = WaveErrTooMany then ''too many points/segments''
      else if err = WaveErrBadDuration then ''bad or zero duration_us''
      else if err = WaveErrLineTooLong then ''text line exceeds 127 bytes''
      else ''parse error'')"

definition feedTextByte :: "'d WaveLib \<Rightarrow> conversion \<Rightarrow> byte \<Rightarrow> 'd Wave \<Rightarrow> bool \<times> 'd Wave" where
  "feedTextByte D conv c s =
     (if c \<noteq> 0x0A then
        if length (line s) \<ge> MaxWaveTextLineLength then ingestFail ''text line exceeds 127 bytes'' s
        else (True, s\<lparr>line := line s @ [c]\<rparr>)
      else let (err, s) = parseLine conv s in
        if err \<noteq> 0 then ingestFail (lineError err) s
        else if wpType (parser s) = WaveTypeReference \<and> wpCount (parser s) \<ge> StagingSamples
          then flushParserStaging D s
        else (True, s))"

definition feedSampleByte :: "'d WaveLib \<Rightarrow> byte \<Rightarrow> 'd Wave \<Rightarrow> bool \<times> 'd Wave" where
  "feedSampleByte D b s =
     (if payloadGot s \<ge> binCount s * 2 then ingestFail ''sample payload exceeds declared count'' s
      else let s = s\<lparr>recBuf := recBuf s @ [b]\<rparr> in
        if length (recBuf s) = 2 then
          let s = s\<lparr>staging := (staging s)(unat ((payloadGot s div 2) mod StagingSamples) :=
                        fromLe16 (recBuf s ! 0) (recBuf s ! 1)),
                    recBuf := [], payloadGot := payloadGot s + 2\<rparr> in
          if (payloadGot s div 2) mod StagingSamples = 0 \<or> payloadGot s = binCount s * 2
          then sinkSamples D (map (staging s) [0..<unat ((payloadGot s div 2 - 1) mod StagingSamples + 1)]) s
          else (True, s)
        else (True, s))"

definition feedSegmentByte :: "byte \<Rightarrow> 'd Wave \<Rightarrow> bool \<times> 'd Wave" where
  "feedSegmentByte b s =
     (if payloadGot s \<ge> binCount s * 8 then ingestFail ''segment payload exceeds declared count'' s
      else let s = s\<lparr>recBuf := recBuf s @ [b]\<rparr> in
        if length (recBuf s) = 8 then
          let rec = recBuf s; s = s\<lparr>recBuf := []\<rparr>; idx = payloadGot s div 8 in
          if idx \<ge> binCount s \<or> idx \<ge> MaxWaveSegments then ingestFail ''segment payload exceeds declared count'' s
          else let us = fromLe32 (rec ! 4) (rec ! 5) (rec ! 6) (rec ! 7);
                   s = s\<lparr>liveLevels := (liveLevels s)(unat idx := fromLe16 (rec ! 0) (rec ! 1)),
                         liveMicros := (liveMicros s)(unat idx := us)\<rparr> in
            if us = 0 then ingestFail ''bad or zero duration_us'' s
            else (True, s\<lparr>payloadGot := payloadGot s + 8\<rparr>)
        else (True, s))"

text \<open>A byte of the logical stream once the kind of payload is known.\<close>

definition feedPayload :: "'d WaveLib \<Rightarrow> conversion \<Rightarrow> byte \<Rightarrow> 'd Wave \<Rightarrow> bool \<times> 'd Wave" where
  "feedPayload D conv b s =
     (case stage s of
        Text \<Rightarrow> feedTextByte D conv b s
      | BinPayload \<Rightarrow> feedSampleByte D b s
      | BinSeqPayload \<Rightarrow> feedSegmentByte b s
      | _ \<Rightarrow> (False, s))"

primrec feedBytes :: "(byte \<Rightarrow> 'd Wave \<Rightarrow> bool \<times> 'd Wave) \<Rightarrow> byte list \<Rightarrow> 'd Wave \<Rightarrow> bool \<times> 'd Wave" where
  "feedBytes feed [] s = (True, s)"
| "feedBytes feed (b # bs) s = (let (ok, s) = feed b s in if ok then feedBytes feed bs s else (False, s))"

definition newParser :: "'d Wave \<Rightarrow> WaveParser" where
  "newParser s = \<lparr>wpType = WaveTypeNone, wpCount = 0, wpHasSamples = True, wpSamples = staging s,
     wpMaxSamples = StagingSamples, wpHasSegments = True, segLevelsQ15 = liveLevels s, segMicros = liveMicros s,
     wpMaxSegments = MaxWaveSegments\<rparr>"

definition leaveDetect :: "'d WaveLib \<Rightarrow> conversion \<Rightarrow> 'd Wave \<Rightarrow> bool \<times> 'd Wave" where
  "leaveDetect D conv s =
     (if length (pre s) \<ge> 4 \<and> take 4 (pre s) = [0x54, 0x45, 0x47, 0x57] then
        if length (pre s) < WaveBinaryHeaderSize then (True, s)
        else let (n, type) = waveBinaryHeaderRead (pre s) WaveTypeNone in
          if n < 0 then ingestFail ''bad TEGW binary header'' s
          else let s = s\<lparr>binType := type, binCount := word_of_int n\<rparr> in
            if \<not> useSd s \<and> binType s = WaveTypeReference \<and> binCount s > MaxWaveSamples
            then ingestFail ''waveform too long without an SD card'' s
            else let (ok, s) = openSink D True s in
              if \<not> ok then (False, s)
              else (True, s\<lparr>payloadGot := 0, recBuf := [],
                     stage := (if binType s = WaveTypeReference then BinPayload else BinSeqPayload)\<rparr>)
      else let (ok, s) = openSink D False (s\<lparr>parser := newParser s, line := []\<rparr>) in
        if \<not> ok then (False, s)
        else feedBytes (feedPayload D conv) (pre s) (s\<lparr>stage := Text\<rparr>))"

definition feedByte :: "'d WaveLib \<Rightarrow> conversion \<Rightarrow> byte \<Rightarrow> 'd Wave \<Rightarrow> bool \<times> 'd Wave" where
  "feedByte D conv b s =
     (if stage s = Detect then
        let s = s\<lparr>pre := pre s @ [b]\<rparr> in
        if length (pre s) \<ge> 4 \<and> take 4 (pre s) \<noteq> [0x54, 0x45, 0x47, 0x57]
            \<or> length (pre s) = WaveBinaryHeaderSize
        then leaveDetect D conv s else (True, s)
      else feedPayload D conv b s)"

definition feedLogical :: "'d WaveLib \<Rightarrow> conversion \<Rightarrow> byte list \<Rightarrow> 'd Wave \<Rightarrow> bool \<times> 'd Wave" where
  "feedLogical D conv data s = feedBytes (feedByte D conv) data s"

section \<open>Receiving the body\<close>

datatype BodyEvent = BodyByte u32 byte | BodyIdle u32

record 't Unpack =
  gz :: bool
  gzDecided :: bool
  gunzip :: "'t GzipInflater"

definition ChunkSize :: nat where [const_defs]: "ChunkSize = 1024"

definition gzEmit :: "'d WaveLib \<Rightarrow> conversion \<Rightarrow> 'd Wave \<Rightarrow> byte list \<Rightarrow> bool \<times> 'd Wave" where
  "gzEmit D conv s bs = feedLogical D conv bs s"

text \<open>A full or last chunk: the first one decides whether the body is packed.\<close>

definition flushChunk :: "'t Tinfl \<Rightarrow> 'd WaveLib \<Rightarrow> conversion \<Rightarrow> byte list \<Rightarrow> 't Unpack \<Rightarrow> 'd Wave
    \<Rightarrow> (bool \<times> 't Unpack \<times> 'd Wave) option" where
  "flushChunk Z D conv chunk u s =
     (let u = (if \<not> gzDecided u \<and> length chunk \<ge> 2
               then u\<lparr>gz := looksLikeGzip chunk, gzDecided := True\<rparr> else u) in
      if gz u then map_option (\<lambda>(ok, g, s). (ok, u\<lparr>gunzip := g\<rparr>, s)) (gzFeed Z (gzEmit D conv) chunk (gunzip u) s)
      else let (ok, s) = feedLogical D conv chunk s in Some (ok, u, s))"

fun receiveLoop :: "'t Tinfl \<Rightarrow> 'd WaveLib \<Rightarrow> conversion \<Rightarrow> u32 \<Rightarrow> BodyEvent list \<Rightarrow> byte list \<Rightarrow> u32 \<Rightarrow> u32
    \<Rightarrow> 't Unpack \<Rightarrow> 'd Wave \<Rightarrow> (bool \<times> 't Unpack \<times> 'd Wave) option" where
  "receiveLoop Z D conv expected [] chunk received lastByteMs u s =
     (if received < expected
      then let (ok, s) = ingestFail ''upload timed out waiting for body data'' s in Some (ok, u, s)
      else Some (True, u, s))"
| "receiveLoop Z D conv expected (BodyIdle now # es) chunk received lastByteMs u s =
     (if received < expected then
        if now - lastByteMs \<ge> 5000
        then let (ok, s) = ingestFail ''upload timed out waiting for body data'' s in Some (ok, u, s)
        else receiveLoop Z D conv expected es chunk received lastByteMs u s
      else Some (True, u, s))"
| "receiveLoop Z D conv expected (BodyByte now b # es) chunk received lastByteMs u s =
     (if received < expected then
        let received = received + 1; chunk = chunk @ [b] in
        if length chunk = ChunkSize \<or> received = expected then
          (case flushChunk Z D conv chunk u s of None \<Rightarrow> None
           | Some (ok, u, s) \<Rightarrow> if ok then receiveLoop Z D conv expected es [] received now u s
                               else Some (False, u, s))
        else receiveLoop Z D conv expected es chunk received now u s
      else Some (True, u, s))"

definition startIngest :: "'d Wave \<Rightarrow> 'd Wave" where
  "startIngest s = s\<lparr>stage := Detect, ingestErr := [], useSd := True, sunkSamples := 0, pre := [], payloadGot := 0,
     recBuf := []\<rparr>"

definition startUnpack :: "'t Tinfl \<Rightarrow> 't GzipInflater \<Rightarrow> 't Unpack" where
  "startUnpack Z g = \<lparr>gz = False, gzDecided = False, gunzip = gzBegin Z g\<rparr>"

text \<open>What is still to be done when the body has arrived: a short body is classified, a last line
  ended, the packed file checked.\<close>

definition endBody :: "'d WaveLib \<Rightarrow> conversion \<Rightarrow> 't Unpack \<Rightarrow> 'd Wave \<Rightarrow> bool \<times> 'd Wave" where
  "endBody D conv u s =
     (let (ok, s) = (if stage s = Detect \<and> 0 < length (pre s) \<and> length (pre s) < WaveBinaryHeaderSize
                     then leaveDetect D conv s else (True, s));
          (ok, s) = (if ok \<and> stage s = Text \<and> line s \<noteq> [] then feedTextByte D conv 0x0A s else (ok, s)) in
      if ok \<and> gz u \<and> \<not> fst (gzFinish (gunzip u))
      then (False, s\<lparr>ingestErr := errorMsg (snd (gzFinish (gunzip u)))\<rparr>)
      else (ok, s))"

text \<open>The type and the count of the whole upload.\<close>

definition classify :: "'d WaveLib \<Rightarrow> 'd Wave \<Rightarrow> (bool \<times> 'd Wave) \<times> byte \<times> u32" where
  "classify D s =
     (case stage s of
        Text \<Rightarrow>
          if wpType (parser s) = WaveTypeReference then
            let (ok, s) = flushParserStaging D s in
            (if ok \<and> sunkSamples s < 2 then ingestFail ''need at least 2 reference points or 1 segment'' s else (ok, s),
             WaveTypeReference, sunkSamples s)
          else if wpType (parser s) = WaveTypeSequence then
            (if wpCount (parser s) < 1 then ingestFail ''need at least 2 reference points or 1 segment'' s else (True, s),
             WaveTypeSequence, wpCount (parser s))
          else (ingestFail ''first line must be type=reference or type=sequence'' s, WaveTypeNone, 0)
      | BinPayload \<Rightarrow>
          (if payloadGot s \<noteq> binCount s * 2 then ingestFail ''truncated sample data'' s else (True, s),
           WaveTypeReference, binCount s)
      | BinSeqPayload \<Rightarrow>
          (if payloadGot s \<noteq> binCount s * 8 then ingestFail ''truncated segment data'' s else (True, s),
           WaveTypeSequence, binCount s)
      | _ \<Rightarrow> (ingestFail ''empty upload'' s, WaveTypeNone, 0))"

section \<open>Committing the staged file\<close>

definition segmentRecord :: "u16 \<Rightarrow> u32 \<Rightarrow> byte list" where
  "segmentRecord level us = le16Bytes level @ [0, 0] @ le32Bytes us"

primrec writeSegments :: "'d WaveLib \<Rightarrow> nat list \<Rightarrow> 'd Wave \<Rightarrow> bool \<times> 'd Wave" where
  "writeSegments D [] s = (True, s)"
| "writeSegments D (i # is) s =
     (let (ok, s) = outWrite D (segmentRecord (liveLevels s i) (liveMicros s i)) s in
      if ok then writeSegments D is s else ingestFail ''SD write failed'' s)"

definition closeOut :: "'d Wave \<Rightarrow> 'd Wave" where
  "closeOut s = s\<lparr>outOpen := False\<rparr>"

definition writeStaged :: "'d WaveLib \<Rightarrow> byte \<Rightarrow> u32 \<Rightarrow> 'd Wave \<Rightarrow> bool \<times> 'd Wave" where
  "writeStaged D finalType finalCount s =
     (let (ok, s) = (if finalType = WaveTypeSequence then writeSegments D [0..<unat finalCount] s else (True, s)) in
      if \<not> ok then (False, s)
      else if \<not> wvSeek D (card s) WaveformStagingFile 0 then ingestFail ''SD write failed'' s
      else let (ok, s) = outWrite D (waveBinaryHeaderWrite finalType finalCount) (s\<lparr>outPos := 0\<rparr>) in
        if \<not> ok then ingestFail ''SD write failed'' s
        else let (synced, c) = wvSync D (card s) WaveformStagingFile; s = s\<lparr>card := c\<rparr> in
          if synced then (True, s) else ingestFail ''SD write failed'' s)"

definition stagedVerified :: "'d WaveLib \<Rightarrow> 'd \<Rightarrow> byte \<Rightarrow> u32 \<Rightarrow> bool" where
  "stagedVerified D c finalType finalCount \<longleftrightarrow>
     wvOpen D c WaveformStagingFile \<and>
     (let header = wvReadAt D c WaveformStagingFile 0 WaveBinaryHeaderSize in
      length header = WaveBinaryHeaderSize \<and>
      (let (count, type) = waveBinaryHeaderRead header WaveTypeNone in
       count \<ge> 0 \<and> type = finalType \<and> word_of_int count = finalCount \<and>
       wvSize D c WaveformStagingFile
         = WaveBinaryHeaderSize + unat finalCount * (if type = WaveTypeReference then 2 else 8)))"

type_synonym 'd UploadResult = "(bool \<times> string \<times> 'd Wave) option"

definition refuse :: "'d WaveLib \<Rightarrow> bool \<Rightarrow> string \<Rightarrow> 'd Wave \<Rightarrow> 'd UploadResult" where
  "refuse D reactivate message s =
     (if reactivate then map_option (\<lambda>s. (False, message, s)) (activateFromSd D True s) else Some (False, message, s))"

text \<open>The swap: the live file becomes the backup, the staged one the live one; a failure puts the
  previous one back.\<close>

definition commitStaged :: "'d WaveLib \<Rightarrow> byte \<Rightarrow> u32 \<Rightarrow> 'd Wave \<Rightarrow> 'd UploadResult" where
  "commitStaged D finalType finalCount s =
     (if \<not> stagedVerified D (card s) finalType finalCount
      then refuse D False ''staged waveform failed read-back verification''
             (s\<lparr>card := wvRemove D (card s) WaveformStagingFile\<rparr>)
      else let s = deactivate s; c1 = wvRemove D (card s) WaveformBackupFile; hadLive = wvExists D c1 WaveformFile;
               (kept, c2) = (if hadLive then wvRename D c1 WaveformFile WaveformBackupFile else (True, c1)) in
        if \<not> kept then refuse D True ''could not preserve previous waveform'' (s\<lparr>card := c2\<rparr>)
        else let (swapped, c3) = wvRename D c2 WaveformStagingFile WaveformFile in
          if \<not> swapped
          then let c4 = (if hadLive then snd (wvRename D c3 WaveformBackupFile WaveformFile) else c3) in
            refuse D True ''could not activate staged waveform'' (s\<lparr>card := c4\<rparr>)
          else map_option (\<lambda>s. (True, [], s)) (activateFromSd D True (s\<lparr>card := c3\<rparr>)))"

text \<open>The upload once the body has been received.\<close>

definition finishUpload :: "'t Tinfl \<Rightarrow> 'd WaveLib \<Rightarrow> conversion \<Rightarrow> bool \<times> 't Unpack \<times> 'd Wave \<Rightarrow> 'd UploadResult" where
  "finishUpload Z D conv = (\<lambda>(ok, u, s).
     (let (ok, s) = (if ok then endBody D conv u s else (False, s));
          ((ok, s), finalType, finalCount) = (if ok then classify D s else ((False, s), WaveTypeNone, 0));
          (ok, s) = (if ok then writeStaged D finalType finalCount s else (False, s));
          s = closeOut s in
      if \<not> ok then refuse D False (if ingestErr s \<noteq> [] then ingestErr s else ''parse error'')
             (s\<lparr>card := wvRemove D (card s) WaveformStagingFile\<rparr>)
      else commitStaged D finalType finalCount s))"

definition waveformApplyStream :: "'t Tinfl \<Rightarrow> 'd WaveLib \<Rightarrow> conversion \<Rightarrow> bool \<Rightarrow> bool \<Rightarrow> u32 \<Rightarrow> u32 \<Rightarrow> BodyEvent list
    \<Rightarrow> 't GzipInflater \<Rightarrow> 'd Wave \<Rightarrow> 'd UploadResult" where
  "waveformApplyStream Z D conv psramAvailable sdAvailable expectedBytes now events g s =
     (if \<not> psramAvailable then refuse D False ''PSRAM unavailable'' s
      else if \<not> sdAvailable then refuse D False ''an SD card is required for atomic waveform upload'' s
      else if expectedBytes = 0 then refuse D False ''missing or empty Content-Length'' s
      else Option.bind (receiveLoop Z D conv expectedBytes events [] 0 now (startUnpack Z g) (startIngest s))
             (finishUpload Z D conv))"

section \<open>Accessors\<close>

definition waveformSegments :: "'d Wave \<Rightarrow> u32 \<times> (nat \<Rightarrow> u16) \<times> (nat \<Rightarrow> u32)" where
  "waveformSegments s =
     (if storedType s = WaveTypeSequence then storedCount s else 0, liveLevels s, liveMicros s)"

definition previewIndex :: "u32 \<Rightarrow> u32 \<Rightarrow> nat \<Rightarrow> nat" where
  "previewIndex count points i = unat ((of_nat i * ucast count) div ucast points :: u64)"

definition waveformPreview :: "'d WaveLib \<Rightarrow> u32 \<Rightarrow> 'd Wave \<Rightarrow> u16 list option" where
  "waveformPreview D points s =
     (if storedType s \<noteq> WaveTypeReference \<or> storedCount s = 0 then None
      else if waveMode s = ModeResident
        then Some (map (\<lambda>i. waveSamples s (previewIndex (storedCount s) points i)) [0..<unat points])
      else if \<not> wvOpen D (card s) WaveformFile then None
      else Some (map (\<lambda>i.
          let b = wvReadAt D (card s) WaveformFile (WaveBinaryHeaderSize + previewIndex (storedCount s) points i * 2) 2;
              b = b @ replicate (2 - length b) 0 in
          fromLe16 (b ! 0) (b ! 1)) [0..<unat points]))"

section \<open>What the code relies on of the card\<close>

text \<open>Removing leaves or deletes that file, renaming moves onto a free name or changes nothing, the output
  file is the only one that opening it for writing and writing touch, and reading returns a prefix of
  what is there.\<close>

locale wave_card =
  fixes D :: "'d WaveLib"
  assumes exists_file: "wvExists D c p \<longleftrightarrow> wvFiles D c p \<noteq> None"
    and open_file: "wvOpen D c p \<Longrightarrow> wvFiles D c p \<noteq> None"
    and size_file: "wvFiles D c p = Some bs \<Longrightarrow> wvSize D c p = length bs"
    and read_file: "wvFiles D c p = Some bs \<Longrightarrow> \<exists>k. wvReadAt D c p at n = take k (take n (drop at bs))"
    and remove_file: "wvFiles D (wvRemove D c p) \<in> {wvFiles D c, (wvFiles D c)(p := None)}"
    and rename_file: "wvRename D c p q = (ok, c') \<Longrightarrow>
          (if ok then wvFiles D c p \<noteq> None \<and> wvFiles D c q = None
             \<and> wvFiles D c' = (wvFiles D c)(q := wvFiles D c p, p := None)
           else wvFiles D c' = wvFiles D c)"
    and create_file: "wvCreate D c p = (ok, c') \<Longrightarrow>
          wvFiles D c' = (if ok then (wvFiles D c)(p := Some []) else wvFiles D c)"
    and write_file: "wvWriteAt D c p at bs = (n, c') \<Longrightarrow> n \<le> length bs \<and> (\<forall>q. q \<noteq> p \<longrightarrow> wvFiles D c' q = wvFiles D c q)
          \<and> (\<forall>old. wvFiles D c p = Some old \<longrightarrow> at \<le> length old \<longrightarrow>
               wvFiles D c' p = Some (take at old @ take n bs @ drop (at + n) old))"
    and sync_file: "wvSync D c p = (ok, c') \<Longrightarrow> wvFiles D c' = wvFiles D c"
begin

lemma removed_other: "q \<noteq> p \<Longrightarrow> wvFiles D (wvRemove D c p) q = wvFiles D c q"
  using remove_file [of c p] by auto

end

text \<open>A card on which nothing fails.\<close>

locale working_card = wave_card D for D :: "'d WaveLib" +
  assumes opens: "wvFiles D c p \<noteq> None \<Longrightarrow> wvOpen D c p"
    and reads_all: "wvFiles D c p = Some bs \<Longrightarrow> wvReadAt D c p at n = take n (drop at bs)"
    and removes: "wvFiles D (wvRemove D c p) p = None"
    and renames: "wvFiles D c p \<noteq> None \<Longrightarrow> wvFiles D c q = None \<Longrightarrow> fst (wvRename D c p q)"
    and creates: "fst (wvCreate D c p)"
    and writes_all: "wvFiles D c p \<noteq> None \<Longrightarrow> fst (wvWriteAt D c p at bs) = length bs"
    and seeks: "wvFiles D c p \<noteq> None \<Longrightarrow> wvSeek D c p at"
    and syncs: "fst (wvSync D c p)"

text \<open>A card that keeps the promises.\<close>

definition refWave :: "(string \<Rightarrow> byte list option) WaveLib" where
  "refWave = \<lparr>wvFiles = (\<lambda>c. c), wvExists = (\<lambda>c p. c p \<noteq> None), wvRemove = (\<lambda>c p. c(p := None)),
     wvRename = (\<lambda>c p q. if c p \<noteq> None \<and> c q = None then (True, c(q := c p, p := None)) else (False, c)),
     wvOpen = (\<lambda>c p. c p \<noteq> None), wvSize = (\<lambda>c p. case c p of None \<Rightarrow> 0 | Some bs \<Rightarrow> length bs),
     wvReadAt = (\<lambda>c p at n. case c p of None \<Rightarrow> [] | Some bs \<Rightarrow> take n (drop at bs)),
     wvCreate = (\<lambda>c p. (True, c(p := Some []))),
     wvWriteAt = (\<lambda>c p at bs. case c p of None \<Rightarrow> (0, c)
       | Some old \<Rightarrow> (length bs, c(p := Some (take at old @ bs @ drop (at + length bs) old)))),
     wvSeek = (\<lambda>c p at. True), wvSync = (\<lambda>c p. (True, c))\<rparr>"

interpretation refWaves: working_card refWave
proof
  show "\<exists>k. wvReadAt refWave c p at n = take k (take n (drop at bs))" if "wvFiles refWave c p = Some bs"
    for c :: "string \<Rightarrow> byte list option" and p at n bs
    using that by (intro exI [of _ n]) (simp add: refWave_def)
qed (auto simp: refWave_def split: if_splits option.splits)

section \<open>What receiving an upload leaves alone\<close>

definition sameActive :: "'d Wave \<Rightarrow> 'd Wave \<Rightarrow> bool" where
  "sameActive s s' \<longleftrightarrow> waveSamples s' = waveSamples s \<and> storedType s' = storedType s \<and> storedCount s' = storedCount s
     \<and> waveMode s' = waveMode s \<and> streamFile s' = streamFile s \<and> player s' = player s"

definition otherFiles :: "'d WaveLib \<Rightarrow> 'd \<Rightarrow> 'd \<Rightarrow> bool" where
  "otherFiles D c c' \<longleftrightarrow> (\<forall>p. p \<noteq> WaveformStagingFile \<longrightarrow> wvFiles D c' p = wvFiles D c p)"

definition ingestFrame :: "'d WaveLib \<Rightarrow> 'd Wave \<Rightarrow> 'd Wave \<Rightarrow> bool" where
  "ingestFrame D s s' \<longleftrightarrow> sameActive s s' \<and> otherFiles D (card s) (card s') \<and> (useSd s \<longrightarrow> useSd s')"

lemma otherFiles_refl [simp]: "otherFiles D c c"
  by (simp add: otherFiles_def)

lemma ingestFrame_refl [simp]: "ingestFrame D s s"
  by (simp add: ingestFrame_def sameActive_def)

lemma ingestFrame_trans: "ingestFrame D s s' \<Longrightarrow> ingestFrame D s' s'' \<Longrightarrow> ingestFrame D s s''"
  by (simp add: ingestFrame_def sameActive_def otherFiles_def)

lemma frame_fields [simp]:
  "ingestFrame D s (t\<lparr>ingestErr := x0\<rparr>) = ingestFrame D s t"
  "ingestFrame D s (t\<lparr>stage := x1\<rparr>) = ingestFrame D s t"
  "ingestFrame D s (t\<lparr>pre := x2\<rparr>) = ingestFrame D s t"
  "ingestFrame D s (t\<lparr>recBuf := x3\<rparr>) = ingestFrame D s t"
  "ingestFrame D s (t\<lparr>binType := x4\<rparr>) = ingestFrame D s t"
  "ingestFrame D s (t\<lparr>binCount := x5\<rparr>) = ingestFrame D s t"
  "ingestFrame D s (t\<lparr>payloadGot := x6\<rparr>) = ingestFrame D s t"
  "ingestFrame D s (t\<lparr>parser := x7\<rparr>) = ingestFrame D s t"
  "ingestFrame D s (t\<lparr>line := x8\<rparr>) = ingestFrame D s t"
  "ingestFrame D s (t\<lparr>staging := x9\<rparr>) = ingestFrame D s t"
  "ingestFrame D s (t\<lparr>outOpen := x10\<rparr>) = ingestFrame D s t"
  "ingestFrame D s (t\<lparr>outPos := x11\<rparr>) = ingestFrame D s t"
  "ingestFrame D s (t\<lparr>sunkSamples := x12\<rparr>) = ingestFrame D s t"
  "ingestFrame D s (t\<lparr>liveLevels := x13\<rparr>) = ingestFrame D s t"
  "ingestFrame D s (t\<lparr>liveMicros := x14\<rparr>) = ingestFrame D s t"
  by (simp_all add: ingestFrame_def sameActive_def)

lemma frame_fail: "ingestFrame D s (snd (ingestFail m s))"
  by (simp add: ingestFail_def ingestFrame_def sameActive_def)

text \<open>The state with the fields only an upload uses taken from elsewhere.\<close>

lemma frame_local:
  assumes "card s' = card s" "useSd s' = useSd s" "sameActive s s'"
  shows "ingestFrame D s s'"
  using assms by (simp add: ingestFrame_def)

context wave_card begin

lemma frame_write: "outWrite D bs s = (ok, s') \<Longrightarrow> ingestFrame D s s'"
  using write_file [of "card s" WaveformStagingFile "outPos s" bs]
  by (auto simp: outWrite_def ingestFrame_def sameActive_def otherFiles_def split: prod.splits)

lemma frame_sink: "useSd s \<Longrightarrow> sinkSamples D data s = (ok, s') \<Longrightarrow> ingestFrame D s s'"
  using frame_write [of "concat (map le16Bytes data)" s]
  by (auto simp: sinkSamples_def ingestFail_def ingestFrame_def sameActive_def Let_def split: prod.splits if_splits)

lemma frame_flush: "useSd s \<Longrightarrow> flushParserStaging D s = (ok, s') \<Longrightarrow> ingestFrame D s s'"
  using frame_sink [of "s\<lparr>parser := (parser s)\<lparr>wpCount := 0\<rparr>\<rparr>" _ ok s']
  by (auto simp: flushParserStaging_def ingestFrame_def sameActive_def Let_def split: if_splits)

lemma frame_open: "openSink D b s = (ok, s') \<Longrightarrow> ingestFrame D s s'"
proof -
  assume o: "openSink D b s = (ok, s')"
  obtain opened c where c: "wvCreate D (wvRemove D (card s) WaveformStagingFile) WaveformStagingFile = (opened, c)"
    by (cases "wvCreate D (wvRemove D (card s) WaveformStagingFile) WaveformStagingFile")
  have "otherFiles D (card s) c"
    using create_file [OF c] removed_other [of _ WaveformStagingFile "card s"] by (auto simp: otherFiles_def)
  then have f: "ingestFrame D s (s\<lparr>card := c, outOpen := opened, outPos := 0\<rparr>)"
    by (simp add: ingestFrame_def sameActive_def)
  obtain w s2 where w: "outWrite D (waveBinaryHeaderWrite (if b then binType s else WaveTypeReference) 2)
      (s\<lparr>card := c, outOpen := opened, outPos := 0\<rparr>) = (w, s2)" by fastforce
  from ingestFrame_trans [OF f frame_write [OF w]] have f2: "ingestFrame D s s2" .
  show ?thesis
    using o f f2 w ingestFrame_trans [OF f frame_fail] ingestFrame_trans [OF f2 frame_fail]
    by (auto simp: openSink_def c Let_def ingestFail_def split: if_splits)
qed

lemma frame_text: "useSd s \<Longrightarrow> feedTextByte D conv b s = (ok, s') \<Longrightarrow> ingestFrame D s s'"
proof -
  assume u: "useSd s" and f: "feedTextByte D conv b s = (ok, s')"
  obtain err s1 where p: "parseLine conv s = (err, s1)" by fastforce
  then have 1: "ingestFrame D s s1" "useSd s1"
    using u by (auto simp: parseLine_def ingestFrame_def sameActive_def split: prod.splits)
  show ?thesis
    using f 1 p ingestFrame_trans [OF 1(1) frame_fail] ingestFrame_trans [OF 1(1) frame_flush [OF 1(2)]]
      frame_fail [of D s]
    by (auto simp: feedTextByte_def Let_def ingestFail_def ingestFrame_def sameActive_def split: if_splits)
qed

lemma frame_sample: "useSd s \<Longrightarrow> feedSampleByte D b s = (ok, s') \<Longrightarrow> ingestFrame D s s'"
proof -
  assume u: "useSd s" and f: "feedSampleByte D b s = (ok, s')"
  have sink: "sinkSamples D data t = (ok, s') \<Longrightarrow> card t = card s \<Longrightarrow> useSd t = useSd s \<Longrightarrow> sameActive s t \<Longrightarrow> ?thesis"
    for data t using frame_sink [of t data ok s'] u ingestFrame_trans [OF frame_local [of t s]] by metis
  show ?thesis
    using f sink by (auto simp: feedSampleByte_def ingestFail_def Let_def sameActive_def
        intro!: frame_local split: if_splits)
qed

lemma frame_segment: "feedSegmentByte b s = (ok, s') \<Longrightarrow> ingestFrame D s s'"
  by (auto simp: feedSegmentByte_def ingestFail_def Let_def sameActive_def intro!: frame_local split: if_splits)

lemma frame_payload: "useSd s \<Longrightarrow> feedPayload D conv b s = (ok, s') \<Longrightarrow> ingestFrame D s s'"
  using frame_text frame_sample frame_segment by (auto simp: feedPayload_def split: Stage.splits)

lemma frame_bytes:
  assumes "\<And>b s ok s'. useSd s \<Longrightarrow> feed b s = (ok, s') \<Longrightarrow> ingestFrame D s s'"
  shows "useSd s \<Longrightarrow> feedBytes feed bs s = (ok, s') \<Longrightarrow> ingestFrame D s s'"
proof (induction bs arbitrary: s)
  case (Cons b bs)
  obtain ok1 s1 where f: "feed b s = (ok1, s1)" by fastforce
  from assms [OF Cons.prems(1) f] have 1: "ingestFrame D s s1" .
  then have "useSd s1" using Cons.prems(1) by (simp add: ingestFrame_def)
  then show ?case using Cons.prems(2) f 1 Cons.IH [of s1] ingestFrame_trans [OF 1] by (auto split: if_splits)
qed simp

lemma frame_detect: "useSd s \<Longrightarrow> leaveDetect D conv s = (ok, s') \<Longrightarrow> ingestFrame D s s'"
proof -
  assume u: "useSd s" and l: "leaveDetect D conv s = (ok, s')"
  have bin: "openSink D True t = (ok1, s1) \<Longrightarrow> card t = card s \<Longrightarrow> useSd t = useSd s \<Longrightarrow> sameActive s t \<Longrightarrow> ingestFrame D s s1"
    for t ok1 s1 using frame_open [of True t ok1 s1] ingestFrame_trans [OF frame_local [of t s]] by blast
  obtain ok1 s1 where o: "openSink D False (s\<lparr>parser := newParser s, line := []\<rparr>) = (ok1, s1)" by fastforce
  have 1: "ingestFrame D s s1"
    using frame_open [OF o] by (simp add: ingestFrame_def sameActive_def)
  have u1: "useSd (s1\<lparr>stage := Text\<rparr>)" using 1 u by (simp add: ingestFrame_def)
  have 2: "ingestFrame D s (s1\<lparr>stage := Text\<rparr>)" using 1 by (simp add: ingestFrame_def sameActive_def)
  have replay: "feedBytes (feedPayload D conv) (pre s1) (s1\<lparr>stage := Text\<rparr>) = (ok, s') \<Longrightarrow> ingestFrame D s s'"
    by (rule ingestFrame_trans [OF 2]) (rule frame_bytes [OF frame_payload u1])
  obtain n type where h: "waveBinaryHeaderRead (pre s) WaveTypeNone = (n, type)" by fastforce
  obtain ok2 s2 where b: "openSink D True (s\<lparr>binType := type, binCount := word_of_int n\<rparr>) = (ok2, s2)" by fastforce
  have 3: "ingestFrame D s s2" using bin [OF b] by (simp add: sameActive_def)
  show ?thesis
    using l o 1 replay h b 3 by (auto simp: leaveDetect_def Let_def ingestFail_def split: if_splits)
qed

lemma frame_byte: "useSd s \<Longrightarrow> feedByte D conv b s = (ok, s') \<Longrightarrow> ingestFrame D s s'"
proof -
  assume u: "useSd s" and f: "feedByte D conv b s = (ok, s')"
  have 1: "ingestFrame D s (s\<lparr>pre := pre s @ [b]\<rparr>)" by (simp add: ingestFrame_def sameActive_def)
  show ?thesis
    using f u frame_payload [of s conv b ok s'] ingestFrame_trans [OF 1 frame_detect] 1
    by (auto simp: feedByte_def Let_def split: if_splits)
qed

lemma frame_logical: "useSd s \<Longrightarrow> feedLogical D conv bs s = (ok, s') \<Longrightarrow> ingestFrame D s s'"
  unfolding feedLogical_def by (rule frame_bytes) (rule frame_byte)

end

context wave_card begin

lemma frame_chunk:
  assumes "useSd s" "flushChunk Z D conv chunk u s = Some (ok, u', s')"
  shows "ingestFrame D s s'"
proof -
  have keeps: "keepsCtx (gzEmit D conv) (\<lambda>t. ingestFrame D s t \<and> useSd t)"
  proof -
    have "ingestFrame D s t' \<and> useSd t'" if "ingestFrame D s t" "useSd t" "feedLogical D conv bs t = (k, t')" for t bs k t'
      using ingestFrame_trans [OF that(1) frame_logical [OF that(2, 3)]] frame_logical [OF that(2, 3)] that(2)
      by (simp add: ingestFrame_def)
    then show ?thesis unfolding keepsCtx_def gzEmit_def by (metis prod.collapse)
  qed
  from assms show ?thesis
    using gzFeed_ctx [OF _ keeps, of Z chunk] frame_logical [of s conv chunk]
    by (fastforce simp: flushChunk_def Let_def split: if_splits prod.splits)
qed

lemma frame_receive:
  "receiveLoop Z D conv expected es chunk received lastMs u s = Some (ok, u', s') \<Longrightarrow> useSd s \<Longrightarrow> ingestFrame D s s'"
proof (induction es arbitrary: chunk received lastMs u s)
  case (Cons e es)
  show ?case
  proof (cases e)
    case (BodyIdle now)
    then show ?thesis using Cons by (auto simp: ingestFail_def Let_def split: if_splits)
  next
    case (BodyByte now b)
    show ?thesis
    proof (cases "received < expected \<and> (length (chunk @ [b]) = ChunkSize \<or> received + 1 = expected)")
      case True
      with Cons.prems(1) BodyByte obtain ok1 u1 s1 where f: "flushChunk Z D conv (chunk @ [b]) u s = Some (ok1, u1, s1)"
        and r: "if ok1 then receiveLoop Z D conv expected es [] (received + 1) now u1 s1 = Some (ok, u', s') else s' = s1"
        by (auto simp: Let_def split: option.splits if_splits prod.splits)
      have 1: "ingestFrame D s s1" "useSd s1" using frame_chunk [OF Cons.prems(2) f] Cons.prems(2) by (simp_all add: ingestFrame_def)
      show ?thesis
      proof (cases ok1)
        case True
        with r have "receiveLoop Z D conv expected es [] (received + 1) now u1 s1 = Some (ok, u', s')" by simp
        from ingestFrame_trans [OF 1(1) Cons.IH [OF this 1(2)]] show ?thesis .
      qed (use r 1 in simp)
    next
      case False
      then show ?thesis using Cons BodyByte by (auto simp: Let_def split: if_splits)
    qed
  qed
qed (auto simp: ingestFail_def Let_def split: if_splits)

lemma frame_end:
  assumes "useSd s" "endBody D conv u s = (ok, s')"
  shows "ingestFrame D s s'"
proof -
  obtain ok1 s1 where 1: "(if stage s = Detect \<and> 0 < length (pre s) \<and> length (pre s) < WaveBinaryHeaderSize
      then leaveDetect D conv s else (True, s)) = (ok1, s1)" by fastforce
  have f1: "ingestFrame D s s1" using 1 frame_detect [OF assms(1)] by (auto split: if_splits)
  then have u1: "useSd s1" using assms(1) by (simp add: ingestFrame_def)
  obtain ok2 s2 where 2: "(if ok1 \<and> stage s1 = Text \<and> line s1 \<noteq> [] then feedTextByte D conv 0x0A s1 else (ok1, s1))
      = (ok2, s2)" by fastforce
  have "ingestFrame D s1 s2" using 2 frame_text [OF u1] by (auto split: if_splits)
  with f1 have "ingestFrame D s s2" by (rule ingestFrame_trans)
  then show ?thesis using assms(2) unfolding endBody_def 1 Let_def prod.case 2 by (auto split: if_splits)
qed

lemma frame_classify:
  assumes "useSd s" "classify D s = ((ok, s'), type, count)"
  shows "ingestFrame D s s'"
proof -
  obtain ok1 s1 where "flushParserStaging D s = (ok1, s1)" by fastforce
  with frame_flush [OF assms(1) this] show ?thesis using assms(2)
    by (auto simp: classify_def ingestFail_def Let_def split: Stage.splits if_splits)
qed

lemma frame_segments: "writeSegments D is s = (ok, s') \<Longrightarrow> ingestFrame D s s'"
proof (induction "is" arbitrary: s)
  case (Cons i js)
  obtain ok1 s1 where w: "outWrite D (segmentRecord (liveLevels s i) (liveMicros s i)) s = (ok1, s1)" by fastforce
  show ?case using Cons.prems Cons.IH [of s1] w ingestFrame_trans [OF frame_write [OF w]] frame_write [OF w]
    by (auto simp: ingestFail_def split: if_splits)
qed simp

lemma frame_staged:
  assumes "writeStaged D type count s = (ok, s')"
  shows "ingestFrame D s s'"
proof -
  obtain ok1 s1 where 1: "(if type = WaveTypeSequence then writeSegments D [0..<unat count] s else (True, s)) = (ok1, s1)"
    by fastforce
  have f1: "ingestFrame D s s1" using 1 frame_segments by (auto split: if_splits)
  obtain ok2 s2 where 2: "outWrite D (waveBinaryHeaderWrite type count) (s1\<lparr>outPos := 0\<rparr>) = (ok2, s2)" by fastforce
  have f2: "ingestFrame D s s2" using ingestFrame_trans [OF _ frame_write [OF 2]] f1 by simp
  obtain y c where y: "wvSync D (card s2) WaveformStagingFile = (y, c)" by fastforce
  have f3: "ingestFrame D s (s2\<lparr>card := c\<rparr>)"
    using f2 sync_file [OF y] by (simp add: ingestFrame_def sameActive_def otherFiles_def)
  show ?thesis using assms f1 f2 f3 y by (auto simp: writeStaged_def 1 2 Let_def ingestFail_def split: if_splits)
qed

text \<open>Activation never writes.\<close>

lemma loadSegments_card: "card (snd (loadSegments D n s)) = card s"
  by (induction n) (auto simp: Let_def split: prod.splits)

lemma activate_parts_card:
  "card (activateResident D n s) = card s" "card (activateSequence D n s) = card s"
  "activateStream D n s = Some s' \<Longrightarrow> card s' = card s"
proof -
  show "card (activateSequence D n s) = card s"
    using loadSegments_card [of "unat n" s] by (auto simp: activateSequence_def deactivate_def split: prod.splits)
qed (auto simp: activateResident_def activateStream_def deactivate_def Let_def split: if_splits)

lemma activate_card: "activateFromSd D av s = Some s' \<Longrightarrow> card s' = card s"
  using activate_parts_card by (auto simp: activateFromSd_def Let_def split: if_splits prod.splits)

lemma refuse_card: "refuse D r m s = Some (ok, m', s') \<Longrightarrow> \<not> ok \<and> m' = m \<and> card s' = card s \<and> (\<not> r \<longrightarrow> s' = s)"
  by (auto simp: refuse_def split: if_splits dest: activate_card)

end

lemma names [simp]:
  "WaveformFile \<noteq> WaveformStagingFile" "WaveformFile \<noteq> WaveformBackupFile" "WaveformStagingFile \<noteq> WaveformBackupFile"
  "WaveformStagingFile \<noteq> WaveformFile" "WaveformBackupFile \<noteq> WaveformFile" "WaveformBackupFile \<noteq> WaveformStagingFile"
  by (simp_all add: WaveformFile_def WaveformStagingFile_def WaveformBackupFile_def)

text \<open>A file of the documented binary form, of the length its header declares.\<close>

definition validWaveFile :: "byte list \<Rightarrow> bool" where
  "validWaveFile bs \<longleftrightarrow> (\<exists>type count. countOk type count \<and> waveBinaryHeaderRead bs WaveTypeNone = (int (unat count), type)
     \<and> length bs = WaveBinaryHeaderSize + unat count * (if type = WaveTypeReference then 2 else 8))"

text \<open>The files an upload may touch, and what a failed one keeps of the previous waveform.\<close>

definition onlyWaveFiles :: "(string \<Rightarrow> byte list option) \<Rightarrow> (string \<Rightarrow> byte list option) \<Rightarrow> bool" where
  "onlyWaveFiles before after \<longleftrightarrow>
     (\<forall>p. p \<notin> {WaveformFile, WaveformStagingFile, WaveformBackupFile} \<longrightarrow> after p = before p)"

definition previousKept :: "(string \<Rightarrow> byte list option) \<Rightarrow> (string \<Rightarrow> byte list option) \<Rightarrow> bool" where
  "previousKept before after \<longleftrightarrow> after WaveformFile = before WaveformFile
     \<or> after WaveformFile = None \<and> after WaveformBackupFile = before WaveformFile"

lemma header_take: "waveBinaryHeaderRead (take 12 bs) t = waveBinaryHeaderRead bs t"
  by (simp add: waveBinaryHeaderRead_def)

context wave_card begin

lemma verified_file:
  assumes "stagedVerified D c type count"
  shows "\<exists>bs. wvFiles D c WaveformStagingFile = Some bs \<and> validWaveFile bs"
proof -
  let ?h = "wvReadAt D c WaveformStagingFile 0 12"
  obtain n t where h: "waveBinaryHeaderRead ?h WaveTypeNone = (n, t)" by fastforce
  from assms have v: "wvOpen D c WaveformStagingFile" "length ?h = 12" "0 \<le> n" "t = type" "word_of_int n = count"
      "wvSize D c WaveformStagingFile = 12 + unat count * (if type = WaveTypeReference then 2 else 8)"
    by (auto simp: stagedVerified_def h Let_def WaveBinaryHeaderSize_def)
  obtain bs where f: "wvFiles D c WaveformStagingFile = Some bs" using open_file [OF v(1)] by auto
  obtain k where "?h = take k (take 12 (drop 0 bs))" using read_file [OF f, of 0 12] by (auto simp: WaveBinaryHeaderSize_def)
  then have "?h = take 12 bs" using v(2) by (auto simp: min_def split: if_splits)
  with h have r: "waveBinaryHeaderRead bs WaveTypeNone = (n, t)" by (simp add: header_take)
  then obtain count' where c: "countOk t count'" "n = int (unat count')"
    using v(3) by (auto simp: header_read Let_def WaveErrBadBinary_def split: if_splits)
  then have "count' = count" using v(5) by simp
  then have "validWaveFile bs" using c r v(4, 6) size_file [OF f] unfolding validWaveFile_def
    by (intro exI [of _ t] exI [of _ count]) (simp add: WaveBinaryHeaderSize_def)
  with f show ?thesis by blast
qed

lemma removed: "wvFiles D (wvRemove D c p) p \<in> {wvFiles D c p, None}"
  using remove_file [of c p] by auto

lemma commit_outcome:
  assumes "commitStaged D type count s = Some (ok, m, s')"
  shows "(ok \<longrightarrow> (\<exists>bs. wvFiles D (card s') WaveformFile = Some bs \<and> validWaveFile bs)
        \<and> (wvFiles D (card s) WaveformFile \<noteq> None \<longrightarrow>
             wvFiles D (card s') WaveformBackupFile = wvFiles D (card s) WaveformFile))
    \<and> (\<not> ok \<longrightarrow> previousKept (wvFiles D (card s)) (wvFiles D (card s')) \<and> m \<noteq> []
        \<and> (sameActive s s' \<or> m \<in> {''could not preserve previous waveform'', ''could not activate staged waveform''}))
    \<and> onlyWaveFiles (wvFiles D (card s)) (wvFiles D (card s'))"
proof (cases "stagedVerified D (card s) type count")
  case False
  with assms have r: "\<not> ok" "m = ''staged waveform failed read-back verification''"
      "s' = s\<lparr>card := wvRemove D (card s) WaveformStagingFile\<rparr>"
    by (auto simp: commitStaged_def refuse_def)
  then show ?thesis
    using removed_other [of _ WaveformStagingFile "card s"]
    by (simp add: previousKept_def onlyWaveFiles_def sameActive_def)
next
  case True
  obtain bs where bs: "wvFiles D (card s) WaveformStagingFile = Some bs" "validWaveFile bs"
    using verified_file [OF True] by blast
  define c1 where "c1 = wvRemove D (card s) WaveformBackupFile"
  note c1 = removed_other [of _ WaveformBackupFile "card s", folded c1_def]
  define had where "had = wvExists D c1 WaveformFile"
  have had: "had \<longleftrightarrow> wvFiles D (card s) WaveformFile \<noteq> None" using exists_file c1 by (simp add: had_def)
  obtain kept c2 where k: "(if had then wvRename D c1 WaveformFile WaveformBackupFile else (True, c1)) = (kept, c2)"
    by fastforce
  obtain swapped c3 where w: "wvRename D c2 WaveformStagingFile WaveformFile = (swapped, c3)" by fastforce
  define c4 where "c4 = (if had then snd (wvRename D c3 WaveformBackupFile WaveformFile) else c3)"
  have dc: "card (deactivate s) = card s" by (simp add: deactivate_def)
  have eq: "commitStaged D type count s =
      (if \<not> kept then refuse D True ''could not preserve previous waveform'' ((deactivate s)\<lparr>card := c2\<rparr>)
       else if \<not> swapped then refuse D True ''could not activate staged waveform'' ((deactivate s)\<lparr>card := c4\<rparr>)
       else map_option (\<lambda>s. (True, [], s)) (activateFromSd D True ((deactivate s)\<lparr>card := c3\<rparr>)))"
    unfolding commitStaged_def Let_def dc c1_def [symmetric] had_def [symmetric] k prod.case w using True
    by (simp add: c4_def)
  have k2: "wvFiles D c2 = (if \<not> kept \<or> \<not> had then wvFiles D c1
      else (wvFiles D c1)(WaveformBackupFile := wvFiles D c1 WaveformFile, WaveformFile := None))"
    using k rename_file [of c1 WaveformFile WaveformBackupFile kept c2] by (auto split: if_splits)
  have k3: "wvFiles D c3 = (if \<not> swapped then wvFiles D c2
      else (wvFiles D c2)(WaveformFile := wvFiles D c2 WaveformStagingFile, WaveformStagingFile := None))"
    using rename_file [OF w] by (auto split: if_splits)
  obtain restored c4' where b: "wvRename D c3 WaveformBackupFile WaveformFile = (restored, c4')" by fastforce
  have k4: "wvFiles D c4 = (if \<not> had \<or> \<not> restored then wvFiles D c3
      else (wvFiles D c3)(WaveformFile := wvFiles D c3 WaveformBackupFile, WaveformBackupFile := None))"
    using rename_file [OF b] b by (auto simp: c4_def)
  consider "\<not> kept" | "kept" "\<not> swapped" | "kept" "swapped" by blast
  then show ?thesis
  proof cases
    case 1
    then have "\<not> ok" "m = ''could not preserve previous waveform''" "card s' = c2"
      using assms eq refuse_card [of True _ _ ok m s'] by auto
    then show ?thesis using 1 k2 c1 by (simp add: previousKept_def onlyWaveFiles_def)
  next
    case 2
    then have "\<not> ok" "m = ''could not activate staged waveform''" "card s' = c4"
      using assms eq refuse_card [of True _ _ ok m s'] by auto
    then show ?thesis using 2 k2 k3 k4 c1 had by (auto simp: previousKept_def onlyWaveFiles_def)
  next
    case 3
    then have "ok" "card s' = c3" using assms eq by (auto dest: activate_card)
    then show ?thesis using 3 k2 k3 c1 had bs by (auto simp: onlyWaveFiles_def)
  qed
qed

lemma upload_outcome_card:
  assumes "waveformApplyStream Z D conv psram sdAvailable expected now events g s = Some (ok, m, s')"
  shows "(ok \<longrightarrow> (\<exists>bs. wvFiles D (card s') WaveformFile = Some bs \<and> validWaveFile bs)
        \<and> (wvFiles D (card s) WaveformFile \<noteq> None \<longrightarrow>
             wvFiles D (card s') WaveformBackupFile = wvFiles D (card s) WaveformFile))
    \<and> (\<not> ok \<longrightarrow> previousKept (wvFiles D (card s)) (wvFiles D (card s')) \<and> m \<noteq> []
        \<and> (sameActive s s' \<or> m \<in> {''could not preserve previous waveform'', ''could not activate staged waveform''}))
    \<and> onlyWaveFiles (wvFiles D (card s)) (wvFiles D (card s'))"
proof (cases "psram \<and> sdAvailable \<and> expected \<noteq> 0")
  case False
  with assms have "\<not> ok" "s' = s" "m \<noteq> []"
    by (auto simp: waveformApplyStream_def refuse_def split: if_splits)
  then show ?thesis by (simp add: previousKept_def onlyWaveFiles_def sameActive_def)
next
  case True
  with assms obtain ok1 u s1 where
    r: "receiveLoop Z D conv expected events [] 0 now (startUnpack Z g) (startIngest s) = Some (ok1, u, s1)"
    and f: "finishUpload Z D conv (ok1, u, s1) = Some (ok, m, s')"
    by (auto simp: waveformApplyStream_def bind_eq_Some_conv)
  have "useSd (startIngest s)" by (simp add: startIngest_def)
  from frame_receive [OF r this] this have f1: "ingestFrame D s s1" "useSd s1"
    by (simp_all add: ingestFrame_def sameActive_def startIngest_def)
  obtain ok2 s2 where e: "(if ok1 then endBody D conv u s1 else (False, s1)) = (ok2, s2)" by fastforce
  have "ingestFrame D s1 s2" using e frame_end [OF f1(2)] by (auto split: if_splits)
  from ingestFrame_trans [OF f1(1) this] this f1(2) have f2: "ingestFrame D s s2" "useSd s2"
    by (simp_all add: ingestFrame_def)
  obtain ok3 s3 type count where c: "(if ok2 then classify D s2 else ((False, s2), WaveTypeNone, 0)) = ((ok3, s3), type, count)"
    by (metis prod.exhaust)
  have "ingestFrame D s2 s3" using c frame_classify [OF f2(2)] by (auto split: if_splits)
  with f2(1) have f3: "ingestFrame D s s3" by (rule ingestFrame_trans)
  obtain ok4 s4 where w: "(if ok3 then writeStaged D type count s3 else (False, s3)) = (ok4, s4)" by fastforce
  have "ingestFrame D s3 s4" using w frame_staged by (auto split: if_splits)
  with f3 have "ingestFrame D s s4" by (rule ingestFrame_trans)
  then have f4: "ingestFrame D s (closeOut s4)" by (simp add: closeOut_def)
  define t where "t = closeOut s4"
  have o: "wvFiles D (card t) p = wvFiles D (card s) p" if "p \<noteq> WaveformStagingFile" for p
    using f4 that by (simp add: ingestFrame_def otherFiles_def t_def)
  have act: "sameActive s t" using f4 by (simp add: ingestFrame_def t_def)
  have fin: "(if \<not> ok4 then refuse D False (if ingestErr t \<noteq> [] then ingestErr t else ''parse error'')
        (t\<lparr>card := wvRemove D (card t) WaveformStagingFile\<rparr>) else commitStaged D type count t) = Some (ok, m, s')"
    using f unfolding finishUpload_def prod.case e Let_def c w t_def [symmetric] .
  show ?thesis
  proof (cases ok4)
    case False
    with fin have "\<not> ok" "m \<noteq> []" "s' = t\<lparr>card := wvRemove D (card t) WaveformStagingFile\<rparr>"
      by (auto simp: refuse_def split: if_splits)
    then show ?thesis using o act removed_other [of _ WaveformStagingFile "card t"]
      by (simp add: previousKept_def onlyWaveFiles_def sameActive_def)
  next
    case True
    with fin have "commitStaged D type count t = Some (ok, m, s')" by simp
    from commit_outcome [OF this] show ?thesis using o act
      by (auto simp: previousKept_def onlyWaveFiles_def sameActive_def)
  qed
qed

end

section \<open>Samples as bytes\<close>

definition sampleBytes :: "u16 list \<Rightarrow> byte list" where
  "sampleBytes ws = concat (map le16Bytes ws)"

lemma sampleBytes_simps [simp]:
  "sampleBytes [] = []" "sampleBytes (w # ws) = le16Bytes w @ sampleBytes ws"
  "sampleBytes (xs @ ys) = sampleBytes xs @ sampleBytes ys" "length (sampleBytes ws) = 2 * length ws"
proof -
  show "length (sampleBytes ws) = 2 * length ws" by (induction ws) (simp_all add: sampleBytes_def)
qed (simp_all add: sampleBytes_def)

lemma sampleBytes_take: "take (2 * n) (sampleBytes ws) = sampleBytes (take n ws)"
proof (induction ws arbitrary: n)
  case (Cons w ws)
  show ?case by (cases n) (simp_all add: Cons le16Bytes_def)
qed simp

lemma sampleBytes_drop: "drop (2 * n) (sampleBytes ws) = sampleBytes (drop n ws)"
proof (induction ws arbitrary: n)
  case (Cons w ws)
  show ?case by (cases n) (simp_all add: Cons le16Bytes_def)
qed simp

lemma sampleBytes_nth:
  "i < length ws \<Longrightarrow> fromLe16 (sampleBytes ws ! (2 * i)) (sampleBytes ws ! (2 * i + 1)) = ws ! i"
proof (induction ws arbitrary: i)
  case (Cons w ws)
  show ?case
  proof (cases i)
    case 0
    then show ?thesis by (simp add: le16Bytes_def)
  next
    case (Suc j)
    then show ?thesis using Cons by (simp add: le16Bytes_def)
  qed
qed simp

lemma samplesOf_bytes: "n \<le> length ws \<Longrightarrow> samplesOf (sampleBytes ws) n = take n ws"
  by (induction n) (simp_all add: sampleBytes_nth [simplified] take_Suc_conv_app_nth)

section \<open>Activating a stored reference\<close>

definition waveFile :: "u32 \<Rightarrow> u16 list \<Rightarrow> byte list" where
  "waveFile n ws = waveBinaryHeaderWrite WaveTypeReference n @ sampleBytes ws"

lemma length_header [simp]: "length (waveBinaryHeaderWrite t n) = 12"
  by (simp add: waveBinaryHeaderWrite_def)

lemma waveFile_parts:
  "take 12 (waveFile n ws) = waveBinaryHeaderWrite WaveTypeReference n" "drop 12 (waveFile n ws) = sampleBytes ws"
  "length (waveFile n ws) = 12 + 2 * length ws"
  by (simp_all add: waveFile_def)

text \<open>The active waveform is the given one: in memory, or streaming from its first sample on.\<close>

definition plays :: "'d WaveLib \<Rightarrow> 'd Wave \<Rightarrow> u16 list \<Rightarrow> bool" where
  "plays D s ws \<longleftrightarrow> storedType s = WaveTypeReference \<and> unat (storedCount s) = length ws
     \<and> (if length ws \<le> 2 ^ 21 then waveMode s = ModeResident \<and> map (waveSamples s) [0..<length ws] = ws
        else waveMode s = ModeStreaming \<and> playReach ws (streamRead D (card s) True) (playStart (player s)))"


context working_card begin

lemma stream_reads:
  assumes "wvFiles D c WaveformFile = Some (waveFile n ws)"
  shows "reads_wave ws (streamRead D c opened)"
  unfolding reads_wave_def
proof (intro allI impI)
  fix off n1 :: u32 and xs
  assume r: "streamRead D c opened off n1 = Some xs" and b: "unat off + unat n1 \<le> length ws"
  let ?bs = "wvReadAt D c WaveformFile (12 + unat off * 2) (unat n1 * 2)"
  have "?bs = take (2 * unat n1) (drop (2 * unat off) (drop 12 (waveFile n ws)))"
    by (simp add: reads_all [OF assms] mult.commute add.commute)
  also have "\<dots> = sampleBytes (take (unat n1) (drop (unat off) ws))"
    by (simp add: waveFile_parts sampleBytes_drop sampleBytes_take)
  finally have bs: "?bs = sampleBytes (take (unat n1) (drop (unat off) ws))" .
  have "samplesOf ?bs (unat n1) = take (unat n1) (drop (unat off) ws)"
    unfolding bs using b by (subst samplesOf_bytes) simp_all
  then show "xs = take (unat n1) (drop (unat off) ws)"
    using r by (auto simp: streamRead_def WaveBinaryHeaderSize_def Let_def split: if_splits)
qed

lemma activate_reference:
  assumes f: "wvFiles D (card s) WaveformFile = Some (waveFile n ws)" and n: "unat n = length ws"
    and ok: "2 \<le> length ws" "length ws \<le> 2 ^ 29"
    and bufs: "length (streamBufs (player s) 0) = 16384" "length (streamBufs (player s) 1) = 16384"
  shows "\<exists>s'. activateFromSd D True s = Some s' \<and> card s' = card s \<and> plays D s' ws"
proof -
  have c: "countOk WaveTypeReference n" using ok n by (simp add: countOk_def)
  have h: "wvReadAt D (card s) WaveformFile 0 WaveBinaryHeaderSize = waveBinaryHeaderWrite WaveTypeReference n"
    by (simp add: reads_all [OF f] WaveBinaryHeaderSize_def waveFile_parts)
  have rd: "waveBinaryHeaderRead (waveBinaryHeaderWrite WaveTypeReference n) WaveTypeNone = (int (unat n), WaveTypeReference)"
    using header_round_trip [OF c, of "[]"] by simp
  have small: "n \<le> MaxWaveSamples \<longleftrightarrow> length ws \<le> 2 ^ 21" by (simp add: word_le_nat_alt MaxWaveSamples_def n)
  have e: "activateFromSd D True s = (if n \<le> MaxWaveSamples then Some (activateResident D n s) else activateStream D n s)"
    using exists_file f opens [of "card s" WaveformFile] h rd
    by (simp add: activateFromSd_def WaveBinaryHeaderSize_def)
  show ?thesis
  proof (cases "n \<le> MaxWaveSamples")
    case True
    have bs: "wvReadAt D (card s) WaveformFile WaveBinaryHeaderSize (unat n * 2) = sampleBytes ws"
      by (simp add: reads_all [OF f] WaveBinaryHeaderSize_def waveFile_parts n)
    have "activateResident D n s = s\<lparr>waveSamples := loadSamples (sampleBytes ws) (waveSamples s),
        storedType := WaveTypeReference, storedCount := n, waveMode := ModeResident\<rparr>"
      by (simp add: activateResident_def bs [unfolded n] n Let_def mult.commute)
    moreover have "map (loadSamples (sampleBytes ws) (waveSamples s)) [0..<length ws] = ws"
      by (rule nth_equalityI) (simp_all add: loadSamples_def sampleBytes_nth [simplified])
    ultimately show ?thesis using True small n e by (simp add: plays_def)
  next
    case False
    have "fileOk ws" using ok by (auto simp: fileOk_def)
    from play_start [OF this stream_reads [OF f, of True] bufs] obtain p where
      p: "activateStreaming n (streamRead D (card s) True) (streamBufs (player s)) = Some p" by (auto simp: n [symmetric])
    have "playReach ws (streamRead D (card s) True) (playStart p)"
      by (rule playReach.start [where bufs = "streamBufs (player s)"]) (use p bufs in \<open>simp_all add: n [symmetric] StreamBufSamples_def\<close>)
    moreover have "wvSize D (card s) WaveformFile = 12 + 2 * length ws" using size_file [OF f] by (simp add: waveFile_parts)
    moreover have "wvOpen D (card s) WaveformFile" using opens f by simp
    ultimately show ?thesis using False small n e p
      by (simp add: activateStream_def plays_def WaveBinaryHeaderSize_def)
  qed
qed

end

section \<open>A body that arrives in time\<close>

fun bodyOf :: "BodyEvent list \<Rightarrow> byte list" where
  "bodyOf [] = []"
| "bodyOf (BodyByte now b # es) = b # bodyOf es"
| "bodyOf (BodyIdle now # es) = bodyOf es"

text \<open>No silence of five seconds while bytes are outstanding.\<close>

fun promptBody :: "u32 \<Rightarrow> BodyEvent list \<Rightarrow> bool" where
  "promptBody lastMs [] = True"
| "promptBody lastMs (BodyByte now b # es) = promptBody now es"
| "promptBody lastMs (BodyIdle now # es) = (now - lastMs < 5000 \<and> promptBody lastMs es)"

lemma feedBytes_append:
  "feedBytes f (xs @ ys) s = (case feedBytes f xs s of (ok, s1) \<Rightarrow> if ok then feedBytes f ys s1 else (False, s1))"
  by (induction xs arbitrary: s) (auto simp: Let_def split: prod.splits)

lemma feedBytes_True: "feedBytes f (xs @ ys) s = (True, s') \<Longrightarrow>
    \<exists>s1. feedBytes f xs s = (True, s1) \<and> feedBytes f ys s1 = (True, s')"
  by (auto simp: feedBytes_append split: prod.splits if_splits)

lemma receive_plain:
  assumes "promptBody lastMs es" "unat expected = unat received + length (bodyOf es)" "\<not> gz u"
    and "gzDecided u \<or> (2 \<le> length (chunk @ bodyOf es) \<and> \<not> looksLikeGzip (chunk @ bodyOf es))"
    and "feedLogical D conv (chunk @ bodyOf es) s = (True, s')" "length chunk < ChunkSize" "bodyOf es = [] \<longrightarrow> chunk = []"
  shows "\<exists>u'. receiveLoop Z D conv expected es chunk received lastMs u s = Some (True, u', s') \<and> \<not> gz u'"
  using assms
proof (induction es arbitrary: chunk received lastMs u s)
  case Nil
  then have "\<not> received < expected" by (simp add: word_less_nat_alt)
  then show ?case using Nil by (auto simp: feedLogical_def)
next
  case (Cons e es)
  show ?case
  proof (cases e)
    case (BodyIdle now)
    then have p: "now - lastMs < 5000" "promptBody lastMs es" using Cons.prems(1) by simp_all
    show ?thesis
    proof (cases "received < expected")
      case True
      moreover have "\<not> 5000 \<le> now - lastMs" using p(1) by (simp only: not_le)
      ultimately show ?thesis using Cons.IH [OF p(2), of received u chunk s] Cons.prems BodyIdle by simp
    next
      case False
      then have "bodyOf es = []" using Cons.prems(2) BodyIdle by (simp add: word_less_nat_alt)
      then show ?thesis using False Cons.prems BodyIdle by (simp add: feedLogical_def)
    qed
  next
    case (BodyByte now b)
    have len: "unat expected = unat received + Suc (length (bodyOf es))" using Cons.prems(2) BodyByte by simp
    then have lt: "received < expected" by (simp add: word_less_nat_alt)
    have inc: "unat (received + 1) = Suc (unat received)"
      using len word_size_bounds(3) [of expected] by (subst unat_add_no_wrap) (simp_all del: word_size_bounds)
    have len': "unat expected = unat (received + 1) + length (bodyOf es)" using len inc by simp
    have feed: "feedLogical D conv ((chunk @ [b]) @ bodyOf es) s = (True, s')" using Cons.prems(5) BodyByte by simp
    have p: "promptBody now es" using Cons.prems(1) BodyByte by simp
    show ?thesis
    proof (cases "length (chunk @ [b]) = ChunkSize \<or> received + 1 = expected")
      case True
      obtain s1 where s1: "feedLogical D conv (chunk @ [b]) s = (True, s1)" "feedLogical D conv (bodyOf es) s1 = (True, s')"
        using feedBytes_True [OF feed [unfolded feedLogical_def]] by (auto simp: feedLogical_def)
      define u1 where "u1 = (if \<not> gzDecided u \<and> length (chunk @ [b]) \<ge> 2
          then u\<lparr>gz := looksLikeGzip (chunk @ [b]), gzDecided := True\<rparr> else u)"
      have two: "length (chunk @ [b]) \<ge> 2" if "\<not> gzDecided u"
      proof (cases "received + 1 = expected")
        case True
        then have "bodyOf es = []" using len' by simp
        then show ?thesis using Cons.prems(4) that BodyByte by simp
      next
        case False
        then show ?thesis using \<open>length (chunk @ [b]) = ChunkSize \<or> received + 1 = expected\<close> by (simp add: ChunkSize_def)
      qed
      have "\<not> gz u1"
      proof (cases "gzDecided u")
        case False
        then have "\<not> looksLikeGzip ((chunk @ [b]) @ bodyOf es)" using Cons.prems(4) BodyByte by simp
        then have "\<not> looksLikeGzip (chunk @ [b])"
          using two [OF False] nth_append [of "chunk @ [b]" "bodyOf es" 0] nth_append [of "chunk @ [b]" "bodyOf es" 1]
          by (cases chunk) (simp_all add: looksLikeGzip_def)
        then show ?thesis using Cons.prems(3) by (simp add: u1_def)
      qed (use Cons.prems(3) in \<open>simp add: u1_def\<close>)
      moreover have "gzDecided u1" using two by (auto simp: u1_def)
      moreover have f: "flushChunk Z D conv (chunk @ [b]) u s = Some (True, u1, s1)"
        unfolding flushChunk_def Let_def u1_def [symmetric] using \<open>\<not> gz u1\<close> s1(1) by simp
      ultimately show ?thesis
        using Cons.IH [OF p len', of u1 "[]" s1] s1(2) True lt BodyByte by (simp add: Let_def ChunkSize_def)
    next
      case False
      then have ne: "bodyOf es \<noteq> []" using len' by (auto simp: word_unat_eq_iff)
      have "length (chunk @ [b]) < ChunkSize" using False Cons.prems(6) by simp
      then show ?thesis
        using Cons.IH [OF p len' Cons.prems(3) _ feed] Cons.prems(4) False lt ne BodyByte by (simp add: Let_def)
    qed
  qed
qed

section \<open>A binary upload\<close>

lemma unat_of_small: "m < 2 ^ 32 \<Longrightarrow> unat (of_nat m :: u32) = m"
  by (simp add: unat_of_nat)

text \<open>How many of the samples are in the file after \<open>k\<close> of them: whole staging buffers, all at the end.\<close>

definition sunk :: "u16 list \<Rightarrow> nat \<Rightarrow> nat" where
  "sunk ws k = (if k = length ws then k else 4096 * (k div 4096))"

definition placeholder :: "byte list" where
  "placeholder = waveBinaryHeaderWrite WaveTypeReference 2"

definition binAt :: "'d WaveLib \<Rightarrow> u32 \<Rightarrow> u16 list \<Rightarrow> nat \<Rightarrow> 'd Wave \<Rightarrow> bool" where
  "binAt D n ws k s \<longleftrightarrow> stage s = BinPayload \<and> useSd s \<and> binType s = WaveTypeReference \<and> binCount s = n
     \<and> payloadGot s = of_nat (2 * k) \<and> recBuf s = [] \<and> sunkSamples s = of_nat (sunk ws k)
     \<and> outPos s = 12 + 2 * sunk ws k
     \<and> wvFiles D (card s) WaveformStagingFile = Some (placeholder @ sampleBytes (take (sunk ws k) ws))
     \<and> (\<forall>i. sunk ws k + i < k \<longrightarrow> staging s i = ws ! (sunk ws k + i))"

lemma sunk_start: "k < length ws \<Longrightarrow> sunk ws k + k mod 4096 = k"
  by (simp add: sunk_def)

lemma sunk_next:
  assumes "k < length ws"
  shows "sunk ws (Suc k) = (if Suc k mod 4096 = 0 \<or> Suc k = length ws then Suc k else sunk ws k)"
proof -
  have "4096 * (Suc k div 4096) = Suc k" if "Suc k mod 4096 = 0" using that by (simp add: mult_div_mod_eq minus_mod_eq_mult_div [symmetric])
  moreover have "Suc k div 4096 = k div 4096" if "Suc k mod 4096 \<noteq> 0" using that by (simp add: div_Suc mod_Suc split: if_splits)
  ultimately show ?thesis using assms by (auto simp: sunk_def)
qed

context working_card begin

lemma out_append:
  assumes "wvFiles D (card s) WaveformStagingFile = Some old" "outPos s = length old"
  shows "\<exists>c. outWrite D bs s = (True, s\<lparr>card := c, outPos := length old + length bs\<rparr>)
    \<and> wvFiles D c WaveformStagingFile = Some (old @ bs)"
proof -
  obtain n c where w: "wvWriteAt D (card s) WaveformStagingFile (outPos s) bs = (n, c)" by fastforce
  have "n = length bs" using writes_all [of "card s" WaveformStagingFile "outPos s" bs] w assms(1) by simp
  then show ?thesis using write_file [OF w] w assms by (auto simp: outWrite_def)
qed

lemma sink_append:
  assumes "useSd s" "wvFiles D (card s) WaveformStagingFile = Some old" "outPos s = length old"
    and "sunkSamples s = of_nat m" "m + length data \<le> 2 ^ 29"
  shows "\<exists>c. sinkSamples D data s = (True, s\<lparr>card := c, outPos := length old + 2 * length data,
        sunkSamples := of_nat (m + length data)\<rparr>)
    \<and> wvFiles D c WaveformStagingFile = Some (old @ sampleBytes data)"
proof -
  obtain c where c: "outWrite D (sampleBytes data) s = (True, s\<lparr>card := c, outPos := length old + 2 * length data\<rparr>)"
    "wvFiles D c WaveformStagingFile = Some (old @ sampleBytes data)"
    using out_append [OF assms(2, 3), of "sampleBytes data"] by auto
  have "unat (of_nat (m + length data) :: u32) = m + length data" using assms(5) by (intro unat_of_small) simp
  then have "\<not> sunkSamples s + of_nat (length data) > MaxStreamSamples"
    using assms(4, 5) by (simp add: word_less_nat_alt MaxStreamSamples_def)
  then show ?thesis using c assms(1, 4)
    by (auto simp: sinkSamples_def sampleBytes_def [symmetric] Let_def)
qed

lemma sample_step:
  assumes b: "binAt D n ws k s" and k: "k < length ws" and n: "unat n = length ws" "length ws \<le> 2 ^ 29"
  shows "\<exists>s'. feedBytes (feedByte D conv) (le16Bytes (ws ! k)) s = (True, s') \<and> binAt D n ws (Suc k) s'"
proof -
  have u: "unat (of_nat m :: u32) = m" if "m \<le> 2 * length ws" for m using that n(2) by (intro unat_of_small) simp
  have p: "payloadGot s = of_nat (2 * k)" "unat (payloadGot s) = 2 * k" using b k u [of "2 * k"] by (simp_all add: binAt_def)
  have total: "unat (n * 2) = 2 * length ws" using n by (subst unat_mult_no_wrap) simp_all
  have more: "\<not> binCount s * 2 \<le> payloadGot s" using b k total p by (simp add: binAt_def word_le_nat_alt)
  have half: "unat (payloadGot s div 2 mod StagingSamples) = k mod 4096"
    using p(2) by (simp add: unat_div_distrib unat_mod_distrib StagingSamples_def)
  define t where "t = s\<lparr>staging := (staging s)(k mod 4096 := ws ! k), recBuf := [], payloadGot := of_nat (2 * Suc k)\<rparr>"
  have got: "payloadGot s + 2 = of_nat (2 * Suc k)" by (simp add: p)
  have u2: "unat (of_nat (2 * Suc k) :: u32) = 2 * Suc k" using k by (intro u) simp
  have stg: "unat StagingSamples = 4096" by (simp add: StagingSamples_def)
  have cond1: "of_nat (2 * Suc k) div 2 mod StagingSamples = 0 \<longleftrightarrow> Suc k mod 4096 = 0"
    by (simp add: word_unat_eq_iff unat_div_distrib unat_mod_distrib stg u2 del: of_nat_mult of_nat_Suc mult_Suc_right)
  have cond2: "of_nat (2 * Suc k) = binCount s * 2 \<longleftrightarrow> Suc k = length ws"
  proof -
    have "unat (binCount s * 2) = 2 * length ws" using b total by (simp add: binAt_def)
    then show ?thesis unfolding word_unat_eq_iff u2 by (simp only:) arith
  qed
  have cnt: "unat ((of_nat (2 * Suc k) div 2 - 1) mod StagingSamples + 1 :: u32) = Suc (k mod 4096)"
  proof -
    have d: "(of_nat (2 * Suc k) div 2 :: u32) = of_nat (Suc k)"
      using u2 u [of "Suc k"] k by (simp add: word_unat_eq_iff unat_div_distrib del: of_nat_mult of_nat_Suc mult_Suc_right)
    have "unat (of_nat (Suc k) - 1 :: u32) = k" using u [of k] k by simp
    then have "unat ((of_nat (Suc k) - 1) mod StagingSamples :: u32) = k mod 4096"
      by (simp add: unat_mod_distrib StagingSamples_def)
    then show ?thesis unfolding d by (subst unat_add_no_wrap) (simp_all add: less_Suc_eq)
  qed
  have feed: "feedBytes (feedByte D conv) (le16Bytes (ws ! k)) s =
      (if Suc k mod 4096 = 0 \<or> Suc k = length ws then sinkSamples D (map (staging t) [0..<Suc (k mod 4096)]) t else (True, t))"
  proof -
    define a1 where "a1 = (ucast (ws ! k) :: byte)"
    define a2 where "a2 = (ucast (drop_bit 8 (ws ! k)) :: byte)"
    have st: "stage s = BinPayload" "recBuf s = []" using b by (simp_all add: binAt_def)
    have one: "feedByte D conv a1 s = (True, s\<lparr>recBuf := [a1]\<rparr>)"
      using more by (simp add: feedByte_def feedPayload_def feedSampleByte_def st)
    have v: "fromLe16 a1 a2 = ws ! k" by (simp add: a1_def a2_def)
    have "feedSampleByte D a2 (s\<lparr>recBuf := [a1]\<rparr>) =
        (if of_nat (2 * Suc k) div 2 mod StagingSamples = 0 \<or> of_nat (2 * Suc k) = binCount s * 2
         then sinkSamples D (map (staging t) [0..<unat ((of_nat (2 * Suc k) div 2 - 1) mod StagingSamples + 1 :: u32)]) t
         else (True, t))"
      unfolding feedSampleByte_def Let_def t_def got [symmetric]
      using more by (simp add: v half st)
    then have two: "feedByte D conv a2 (s\<lparr>recBuf := [a1]\<rparr>) =
        (if Suc k mod 4096 = 0 \<or> Suc k = length ws then sinkSamples D (map (staging t) [0..<Suc (k mod 4096)]) t else (True, t))"
      unfolding cond1 cond2 cnt by (simp add: feedByte_def feedPayload_def st)
    have "le16Bytes (ws ! k) = [a1, a2]" by (simp add: le16Bytes_def a1_def a2_def)
    then show ?thesis by (simp add: one two split: prod.splits del: upt_Suc)
  qed
  have S: "sunk ws k + k mod 4096 = k" by (rule sunk_start [OF k])
  have staged: "staging t i = ws ! (sunk ws k + i)" if "sunk ws k + i < Suc k" for i
    using that b S by (cases "i = k mod 4096") (auto simp: t_def binAt_def)
  show ?thesis
  proof (cases "Suc k mod 4096 = 0 \<or> Suc k = length ws")
    case True
    define data where "data = map (staging t) [0..<Suc (k mod 4096)]"
    have data: "take (sunk ws k) ws @ data = take (Suc k) ws" and len: "sunk ws k + length data = Suc k"
    proof -
      show "sunk ws k + length data = Suc k" using S by (simp add: data_def)
      have "data = map (\<lambda>i. ws ! (sunk ws k + i)) [0..<Suc (k mod 4096)]"
        unfolding data_def using S by (intro map_cong refl staged) auto
      also have "\<dots> = take (Suc (k mod 4096)) (drop (sunk ws k) ws)"
      proof -
        have "Suc (k mod 4096) \<le> length ws - sunk ws k" using S k by arith
        then show ?thesis by (intro nth_equalityI) (simp_all add: min_absorb2 nth_append del: upt_Suc)
      qed
      finally show "take (sunk ws k) ws @ data = take (Suc k) ws" using S by (simp add: take_add [symmetric])
    qed
    obtain c where c: "sinkSamples D data t = (True, t\<lparr>card := c, outPos := length (placeholder @ sampleBytes (take (sunk ws k) ws))
          + 2 * length data, sunkSamples := of_nat (sunk ws k + length data)\<rparr>)"
      "wvFiles D c WaveformStagingFile = Some ((placeholder @ sampleBytes (take (sunk ws k) ws)) @ sampleBytes data)"
      using sink_append [of t "placeholder @ sampleBytes (take (sunk ws k) ws)" "sunk ws k" data] b len k n(2) S
      by (auto simp: t_def binAt_def placeholder_def min_def)
    have len2: "2 * sunk ws k + 2 * length data = 2 * Suc k" using len by arith
    have s': "sunk ws (Suc k) = Suc k" using sunk_next [OF k] True by simp
    have "sampleBytes (take (sunk ws k) ws) @ sampleBytes data = sampleBytes (take (Suc k) ws)"
      unfolding data [symmetric] by simp
    then have "binAt D n ws (Suc k) (t\<lparr>card := c, outPos := length (placeholder @ sampleBytes (take (sunk ws k) ws))
          + 2 * length data, sunkSamples := of_nat (sunk ws k + length data)\<rparr>)"
      using b c(2) len k S unfolding binAt_def s'
      by (simp add: t_def placeholder_def min_def len2 del: of_nat_mult of_nat_Suc mult_Suc_right)
    then show ?thesis using feed c(1) True unfolding data_def by (metis (full_types))
  next
    case False
    then have s': "sunk ws (Suc k) = sunk ws k" using sunk_next [OF k] by simp
    have "binAt D n ws (Suc k) t" using b staged unfolding binAt_def s'
      by (simp add: t_def del: of_nat_mult of_nat_Suc mult_Suc_right)
    then show ?thesis using feed False by auto
  qed
qed

lemma samples_fed:
  assumes "binAt D n ws k s" "k \<le> length ws" "unat n = length ws" "length ws \<le> 2 ^ 29"
  shows "\<exists>s'. feedBytes (feedByte D conv) (sampleBytes (drop k ws)) s = (True, s') \<and> binAt D n ws (length ws) s'"
  using assms
proof (induction "length ws - k" arbitrary: k s)
  case 0
  then show ?case by auto
next
  case (Suc m)
  then have k: "k < length ws" by simp
  obtain s1 where 1: "feedBytes (feedByte D conv) (le16Bytes (ws ! k)) s = (True, s1)" "binAt D n ws (Suc k) s1"
    using sample_step [OF Suc.prems(1) k Suc.prems(3, 4)] by blast
  have m: "m = length ws - Suc k" using Suc.hyps(2) by simp
  obtain s2 where 2: "feedBytes (feedByte D conv) (sampleBytes (drop (Suc k) ws)) s1 = (True, s2)" "binAt D n ws (length ws) s2"
    using Suc.hyps(1) [OF m 1(2)] k Suc.prems(3, 4) by auto
  have "sampleBytes (drop k ws) = le16Bytes (ws ! k) @ sampleBytes (drop (Suc k) ws)"
    using k by (simp flip: Cons_nth_drop_Suc)
  then show ?case using 1 2 by (simp add: feedBytes_append)
qed

lemma header_any:
  assumes "countOk type n"
  shows "\<exists>c. feedLogical D conv (waveBinaryHeaderWrite type n) (startIngest s) = (True, (startIngest s)\<lparr>
        pre := waveBinaryHeaderWrite type n, binType := type, binCount := n, outOpen := True, card := c, outPos := 12,
        payloadGot := 0, recBuf := [], stage := (if type = WaveTypeReference then BinPayload else BinSeqPayload)\<rparr>)
    \<and> wvFiles D c WaveformStagingFile = Some (waveBinaryHeaderWrite type 2)"
proof -
  define h where "h = waveBinaryHeaderWrite type n"
  obtain a b c d where le: "le32Bytes n = [a, b, c, d]" by (simp add: le32Bytes_def)
  then have h: "h = [0x54, 0x45, 0x47, 0x57, 1, type, 0, 0, a, b, c, d]"
    by (simp add: h_def waveBinaryHeaderWrite_def)
  define t where "t = (startIngest s)\<lparr>pre := h\<rparr>"
  have collect: "feedLogical D conv h (startIngest s) = leaveDetect D conv t"
    unfolding h feedLogical_def
    by (simp add: feedByte_def startIngest_def WaveBinaryHeaderSize_def t_def h split: prod.splits)
  from header_round_trip [OF assms, of "[]"] have rd: "waveBinaryHeaderRead h WaveTypeNone = (int (unat n), type)"
    by (simp add: h_def)
  define t2 where "t2 = t\<lparr>binType := type, binCount := n\<rparr>"
  obtain c1 where cr: "wvCreate D (wvRemove D (card t2) WaveformStagingFile) WaveformStagingFile = (True, c1)"
    using creates [of "wvRemove D (card t2) WaveformStagingFile" WaveformStagingFile] by (metis prod.collapse)
  then have "wvFiles D c1 WaveformStagingFile = Some []" using create_file [OF cr] by simp
  then obtain c2 where w: "outWrite D (waveBinaryHeaderWrite type 2) (t2\<lparr>card := c1, outOpen := True, outPos := 0\<rparr>)
        = (True, t2\<lparr>outOpen := True, card := c2, outPos := 12\<rparr>)"
      "wvFiles D c2 WaveformStagingFile = Some (waveBinaryHeaderWrite type 2)"
    using out_append [of "t2\<lparr>card := c1, outOpen := True, outPos := 0\<rparr>" "[]" "waveBinaryHeaderWrite type 2"] by auto
  have bt: "binType t2 = type" by (simp add: t2_def)
  have us: "useSd t2" by (simp add: t2_def t_def startIngest_def)
  have op: "openSink D True t2 = (True, t2\<lparr>outOpen := True, card := c2, outPos := 12\<rparr>)"
    using us w(1) by (simp add: openSink_def cr bt Let_def)
  have ut: "useSd t" by (simp add: t_def startIngest_def)
  have pt: "pre t = h" by (simp add: t_def)
  have lh: "length h = 12" "take 4 h = [0x54, 0x45, 0x47, 0x57]" by (simp_all add: h)
  have ld: "leaveDetect D conv t = (True, t2\<lparr>outOpen := True, card := c2, outPos := 12, payloadGot := 0, recBuf := [],
      stage := (if type = WaveTypeReference then BinPayload else BinSeqPayload)\<rparr>)"
    using op us ut bt by (simp add: leaveDetect_def pt rd lh Let_def WaveBinaryHeaderSize_def t2_def [symmetric])
  show ?thesis using w(2) collect ld unfolding h_def [symmetric] t2_def t_def by (intro exI [of _ c2]) simp
qed

lemma header_fed:
  assumes "2 \<le> unat n" "unat n = length ws" "length ws \<le> 2 ^ 29"
  shows "\<exists>s'. feedLogical D conv (waveBinaryHeaderWrite WaveTypeReference n) (startIngest s) = (True, s') \<and> binAt D n ws 0 s'"
proof -
  have "countOk WaveTypeReference n" using assms by (simp add: countOk_def)
  moreover have "sunk ws 0 = 0" by (simp add: sunk_def)
  ultimately show ?thesis using header_any [of WaveTypeReference n conv s]
    by (auto simp: binAt_def placeholder_def startIngest_def)
qed

end

context working_card begin

lemma staged_written:
  assumes "binAt D n ws (length ws) s" "unat n = length ws"
  shows "classify D s = ((True, s), WaveTypeReference, n)"
    and "\<exists>s'. writeStaged D WaveTypeReference n s = (True, s') \<and> wvFiles D (card s') WaveformStagingFile = Some (waveFile n ws)
      \<and> ingestFrame D s s'"
proof -
  have nn: "of_nat (length ws) = n" by (simp flip: assms(2))
  have "payloadGot s = binCount s * 2" using assms(1) by (simp add: binAt_def nn mult.commute)
  then show "classify D s = ((True, s), WaveTypeReference, n)" using assms(1) by (simp add: classify_def binAt_def)
  have f: "wvFiles D (card s) WaveformStagingFile = Some (placeholder @ sampleBytes ws)"
    using assms(1) by (simp add: binAt_def sunk_def)
  let ?h = "waveBinaryHeaderWrite WaveTypeReference n"
  obtain m c where w: "wvWriteAt D (card s) WaveformStagingFile 0 ?h = (m, c)" by fastforce
  have m: "m = 12" using writes_all [of "card s" WaveformStagingFile 0 ?h] w f by simp
  have c: "wvFiles D c WaveformStagingFile = Some (waveFile n ws)"
    using write_file [OF w] f m by (simp add: waveFile_def placeholder_def)
  obtain y c2 where y: "wvSync D c WaveformStagingFile = (y, c2)" by fastforce
  have yy: "y" using syncs [of c WaveformStagingFile] y by simp
  have t: "WaveTypeReference \<noteq> WaveTypeSequence" by (simp add: WaveTypeReference_def WaveTypeSequence_def)
  have r: "writeStaged D WaveTypeReference n s = (True, s\<lparr>outPos := 12, card := c2\<rparr>)"
    using seeks [of "card s" WaveformStagingFile 0] f w m y yy t by (simp add: writeStaged_def outWrite_def Let_def)
  then show "\<exists>s'. writeStaged D WaveTypeReference n s = (True, s') \<and> wvFiles D (card s') WaveformStagingFile = Some (waveFile n ws)
      \<and> ingestFrame D s s'" using c sync_file [OF y] frame_staged [OF r] by simp
qed

lemma commit_works:
  assumes f: "wvFiles D (card s) WaveformStagingFile = Some (waveFile n ws)" and n: "unat n = length ws"
    and ok: "2 \<le> length ws" "length ws \<le> 2 ^ 29"
    and bufs: "length (streamBufs (player s) 0) = 16384" "length (streamBufs (player s) 1) = 16384"
  shows "\<exists>s'. commitStaged D WaveTypeReference n s = Some (True, [], s') \<and> plays D s' ws
    \<and> wvFiles D (card s') WaveformFile = Some (waveFile n ws)"
proof -
  have c: "countOk WaveTypeReference n" using ok n by (simp add: countOk_def)
  have rd: "waveBinaryHeaderRead (waveBinaryHeaderWrite WaveTypeReference n) WaveTypeNone = (int (unat n), WaveTypeReference)"
    using header_round_trip [OF c, of "[]"] by simp
  have h: "wvReadAt D (card s) WaveformStagingFile 0 12 = waveBinaryHeaderWrite WaveTypeReference n"
    by (simp add: reads_all [OF f] waveFile_parts)
  have nn: "of_nat (length ws) = n" by (simp flip: n)
  have v: "stagedVerified D (card s) WaveTypeReference n"
    using opens f size_file [OF f] rd h n by (simp add: stagedVerified_def nn WaveBinaryHeaderSize_def waveFile_parts mult.commute)
  define c1 where "c1 = wvRemove D (card s) WaveformBackupFile"
  have c1: "wvFiles D c1 p = (if p = WaveformBackupFile then None else wvFiles D (card s) p)" for p
    using removed_other [of p WaveformBackupFile "card s"] removes by (simp add: c1_def)
  define had where "had = wvExists D c1 WaveformFile"
  obtain kept c2 where k: "(if had then wvRename D c1 WaveformFile WaveformBackupFile else (True, c1)) = (kept, c2)" by fastforce
  have kept and c2: "wvFiles D c2 WaveformFile = None" "wvFiles D c2 WaveformStagingFile = Some (waveFile n ws)"
  proof -
    show kept using k renames [of c1 WaveformFile WaveformBackupFile] exists_file [of c1 WaveformFile] c1
      by (auto simp: had_def split: if_splits)
    then show "wvFiles D c2 WaveformFile = None" "wvFiles D c2 WaveformStagingFile = Some (waveFile n ws)"
      using k rename_file [of c1 WaveformFile WaveformBackupFile kept c2] exists_file [of c1 WaveformFile] c1 f
      by (auto simp: had_def split: if_splits)
  qed
  obtain swapped c3 where w: "wvRename D c2 WaveformStagingFile WaveformFile = (swapped, c3)" by fastforce
  have swapped using renames [of c2 WaveformStagingFile WaveformFile] c2 w by simp
  with rename_file [OF w] c2 have c3: "wvFiles D c3 WaveformFile = Some (waveFile n ws)" by simp
  define t where "t = (deactivate s)\<lparr>card := c3\<rparr>"
  have dc: "card (deactivate s) = card s" by (simp add: deactivate_def)
  have eq: "commitStaged D WaveTypeReference n s = map_option (\<lambda>s. (True, [], s)) (activateFromSd D True t)"
    unfolding commitStaged_def Let_def dc c1_def [symmetric] had_def [symmetric] k prod.case w t_def
    using v \<open>kept\<close> \<open>swapped\<close> by simp
  have "wvFiles D (card t) WaveformFile = Some (waveFile n ws)" "length (streamBufs (player t) 0) = 16384"
    "length (streamBufs (player t) 1) = 16384" using c3 bufs by (simp_all add: t_def deactivate_def)
  from activate_reference [OF this(1) n ok this(2, 3)] obtain s' where
    "activateFromSd D True t = Some s'" "card s' = card t" "plays D s' ws" by blast
  then show ?thesis using eq c3 by (simp add: t_def)
qed

lemma upload_installs:
  assumes n: "unat n = length ws" and ok: "2 \<le> length ws" "length ws \<le> 2 ^ 29"
    and body: "bodyOf es = waveFile n ws" "unat expected = length (waveFile n ws)" "promptBody now es"
    and bufs: "length (streamBufs (player s) 0) = 16384" "length (streamBufs (player s) 1) = 16384"
  shows "\<exists>s'. waveformApplyStream Z D conv True True expected now es g s = Some (True, [], s') \<and> plays D s' ws
    \<and> wvFiles D (card s') WaveformFile = Some (waveFile n ws)"
proof -
  obtain s0 where s0: "feedLogical D conv (waveBinaryHeaderWrite WaveTypeReference n) (startIngest s) = (True, s0)" "binAt D n ws 0 s0"
    using header_fed [of n ws conv s] n ok by auto
  obtain s1 where s1: "feedBytes (feedByte D conv) (sampleBytes ws) s0 = (True, s1)" "binAt D n ws (length ws) s1"
    using samples_fed [OF s0(2) _ n ok(2), of conv] by auto
  have fed: "feedLogical D conv ([] @ bodyOf es) (startIngest s) = (True, s1)"
    using s0(1) s1(1) by (simp add: body(1) waveFile_def feedLogical_def feedBytes_append)
  have len: "unat expected = unat (0 :: u32) + length (bodyOf es)" using body by simp
  have plain: "2 \<le> length ([] @ bodyOf es) \<and> \<not> looksLikeGzip ([] @ bodyOf es)"
    by (simp add: body(1) waveFile_def waveBinaryHeaderWrite_def looksLikeGzip_def)
  obtain u where u: "receiveLoop Z D conv expected es [] 0 now (startUnpack Z g) (startIngest s) = Some (True, u, s1)" "\<not> gz u"
    using receive_plain [OF body(3) len _ _ fed, of "startUnpack Z g" Z] plain by (auto simp: startUnpack_def ChunkSize_def)
  have e: "endBody D conv u s1 = (True, s1)" using s1(2) u(2) by (simp add: endBody_def binAt_def)
  obtain s2 where s2: "writeStaged D WaveTypeReference n s1 = (True, s2)" "wvFiles D (card s2) WaveformStagingFile = Some (waveFile n ws)"
      "ingestFrame D s1 s2" using staged_written(2) [OF s1(2) n] by blast
  define t where "t = closeOut s2"
  have fin: "finishUpload Z D conv (True, u, s1) = commitStaged D WaveTypeReference n t"
    using staged_written(1) [OF s1(2) n] by (simp add: finishUpload_def e s2(1) t_def)
  have "useSd (startIngest s)" by (simp add: startIngest_def)
  from frame_receive [OF u(1) this] s2(3) have "player t = player s"
    by (simp add: ingestFrame_def sameActive_def t_def closeOut_def startIngest_def)
  moreover have "wvFiles D (card t) WaveformStagingFile = Some (waveFile n ws)" using s2(2) by (simp add: t_def closeOut_def)
  ultimately obtain s' where "commitStaged D WaveTypeReference n t = Some (True, [], s')" "plays D s' ws"
      "wvFiles D (card s') WaveformFile = Some (waveFile n ws)"
    using commit_works [OF _ n ok, of t] bufs by auto
  moreover have "expected \<noteq> 0" using body(2) by (auto simp: waveFile_parts)
  ultimately show ?thesis using fin u(1) by (simp add: waveformApplyStream_def)
qed

end

section \<open>Every upload returns\<close>

lemma samplesOf_map: "samplesOf bs n = map (\<lambda>i. fromLe16 (bs ! (2 * i)) (bs ! (2 * i + 1))) [0..<n]"
  by (induction n) simp_all

lemma samplesOf_part:
  assumes "2 * (at + m) \<le> length bs" "at + m \<le> n"
  shows "samplesOf (take (2 * m) (drop (2 * at) bs)) m = take m (drop at (samplesOf bs n))"
  using assms by (intro nth_equalityI) (simp_all add: samplesOf_map add.assoc [symmetric] distrib_left)

definition bufsOk :: "'d Wave \<Rightarrow> bool" where
  "bufsOk s \<longleftrightarrow> length (streamBufs (player s) 0) = 16384 \<and> length (streamBufs (player s) 1) = 16384"

context wave_card begin

lemma stream_reads_file:
  assumes f: "wvFiles D c WaveformFile = Some bs" and len: "12 + 2 * n \<le> length bs"
  shows "reads_wave (samplesOf (drop 12 bs) n) (streamRead D c opened)"
  unfolding reads_wave_def
proof (intro allI impI)
  fix off m :: u32 and xs
  assume r: "streamRead D c opened off m = Some xs" and b: "unat off + unat m \<le> length (samplesOf (drop 12 bs) n)"
  let ?r = "wvReadAt D c WaveformFile (12 + unat off * 2) (unat m * 2)"
  have b': "unat off + unat m \<le> n" using b by (simp add: samplesOf_map)
  have rd: "length (if opened then ?r else []) = unat m * 2" "xs = samplesOf (if opened then ?r else []) (unat m)"
    using r by (auto simp: streamRead_def WaveBinaryHeaderSize_def Let_def split: if_splits)
  show "xs = take (unat m) (drop (unat off) (samplesOf (drop 12 bs) n))"
  proof (cases "unat m = 0")
    case True
    then show ?thesis using rd by simp
  next
    case False
    then have opened using rd(1) by (auto split: if_splits)
    obtain k where k: "?r = take k (take (unat m * 2) (drop (12 + unat off * 2) bs))" using read_file [OF f] by blast
    have "unat m * 2 \<le> k" using rd(1) \<open>opened\<close> by (simp add: k)
    then have "?r = take (2 * unat m) (drop (2 * unat off) (drop 12 bs))"
      by (simp add: k min_absorb2 mult.commute add.commute)
    then have "samplesOf ?r (unat m) = take (unat m) (drop (unat off) (samplesOf (drop 12 bs) n))"
      using samplesOf_part [of "unat off" "unat m" "drop 12 bs" n] b' len by simp
    then show ?thesis using rd(2) \<open>opened\<close> by simp
  qed
qed

lemma activate_returns:
  assumes "bufsOk s"
  shows "\<exists>s'. activateFromSd D av s = Some s'"
proof -
  have stream: "\<exists>s'. activateStream D n s = Some s'" if n: "2 \<le> unat n" "unat n \<le> 2 ^ 29" and f: "wvExists D (card s) WaveformFile" for n
  proof (cases "wvSize D (card s) WaveformFile \<ge> WaveBinaryHeaderSize + unat n * 2")
    case True
    obtain bs where bs: "wvFiles D (card s) WaveformFile = Some bs" using f exists_file by auto
    have len: "12 + 2 * unat n \<le> length bs" using True size_file [OF bs] by (simp add: WaveBinaryHeaderSize_def)
    have l: "length (samplesOf (drop 12 bs) (unat n)) = unat n" by (simp add: samplesOf_map)
    then have "samplesOf (drop 12 bs) (unat n) \<noteq> []" using n(1) by fastforce
    then have "fileOk (samplesOf (drop 12 bs) (unat n))" using n(2) l by (simp add: fileOk_def)
    from play_start [OF this stream_reads_file [OF bs len]] assms l show ?thesis
      using True by (fastforce simp: activateStream_def bufsOk_def Let_def)
  qed (simp add: activateStream_def)
  have "\<exists>s'. (if t = WaveTypeReference \<and> word_of_int n \<le> MaxWaveSamples then Some (activateResident D (word_of_int n) s)
      else if t = WaveTypeReference then activateStream D (word_of_int n) s else Some (activateSequence D (word_of_int n) s)) = Some s'"
    if "waveBinaryHeaderRead h WaveTypeNone = (n, t)" "\<not> n < 0" "wvExists D (card s) WaveformFile" for h n t
  proof -
    from that(1, 2) obtain c where c: "countOk t c" "n = int (unat c)"
      by (auto simp: header_read Let_def WaveErrBadBinary_def split: if_splits)
    then show ?thesis using stream [of c] that(3) by (auto simp: countOk_def WaveTypeReference_def WaveTypeSequence_def)
  qed
  then show ?thesis by (auto simp: activateFromSd_def Let_def split: prod.splits)
qed

lemma frame_bufs: "ingestFrame D s s' \<Longrightarrow> bufsOk s \<Longrightarrow> bufsOk s'"
  by (simp add: ingestFrame_def sameActive_def bufsOk_def)

lemma refuse_returns: "bufsOk s \<Longrightarrow> \<exists>r. refuse D b m s = Some r"
  using activate_returns [of s True] by (auto simp: refuse_def)

lemma commit_returns:
  assumes "bufsOk s"
  shows "\<exists>r. commitStaged D type count s = Some r"
proof -
  have b: "bufsOk ((deactivate s)\<lparr>card := c\<rparr>)" for c using assms by (simp add: bufsOk_def deactivate_def)
  show ?thesis using refuse_returns [OF b] activate_returns [OF b, of True] assms refuse_returns [of "s\<lparr>card := c\<rparr>" for c]
    by (auto simp: commitStaged_def bufsOk_def Let_def split: prod.splits)
qed

lemma finish_returns:
  assumes "bufsOk s" "useSd s"
  shows "\<exists>r. finishUpload Z D conv (ok1, u, s) = Some r"
proof -
  obtain ok2 s2 where e: "(if ok1 then endBody D conv u s else (False, s)) = (ok2, s2)" by fastforce
  have f2: "ingestFrame D s s2" using e frame_end [OF assms(2)] by (auto split: if_splits)
  then have "useSd s2" using assms(2) by (simp add: ingestFrame_def)
  obtain ok3 s3 type count where c: "(if ok2 then classify D s2 else ((False, s2), WaveTypeNone, 0)) = ((ok3, s3), type, count)"
    by (metis prod.exhaust)
  have f3: "ingestFrame D s2 s3" using c frame_classify [OF \<open>useSd s2\<close>] by (auto split: if_splits)
  obtain ok4 s4 where w: "(if ok3 then writeStaged D type count s3 else (False, s3)) = (ok4, s4)" by fastforce
  have "ingestFrame D s3 s4" using w frame_staged by (auto split: if_splits)
  from frame_bufs [OF ingestFrame_trans [OF ingestFrame_trans [OF f2 f3] this] assms(1)]
  have b: "bufsOk (closeOut s4)" "bufsOk ((closeOut s4)\<lparr>card := x\<rparr>)" for x by (simp_all add: bufsOk_def closeOut_def)
  show ?thesis unfolding finishUpload_def prod.case e Let_def c w using refuse_returns [OF b(2)] commit_returns [OF b(1)] by auto
qed

lemma receive_returns:
  assumes "inflate_library Z pending ratio"
  shows "unat (dictOffset (gunzip u)) < 32768 \<Longrightarrow> useSd s \<Longrightarrow> bufsOk s \<Longrightarrow>
    \<exists>ok u' s'. receiveLoop Z D conv expected es chunk received lastMs u s = Some (ok, u', s') \<and> useSd s' \<and> bufsOk s'"
proof (induction es arbitrary: chunk received lastMs u s)
  case Nil
  then show ?case by (auto simp: ingestFail_def bufsOk_def)
next
  case (Cons e es)
  show ?case
  proof (cases e)
    case (BodyIdle now)
    then show ?thesis using Cons by (auto simp: ingestFail_def bufsOk_def)
  next
    case (BodyByte now b)
    obtain ok u1 s1 where f: "flushChunk Z D conv (chunk @ [b]) u s = Some (ok, u1, s1)"
      and d: "ok \<Longrightarrow> unat (dictOffset (gunzip u1)) < 32768"
    proof -
      from inflate_library.feed_returns [OF assms Cons.prems(1), of "gzEmit D conv" "chunk @ [b]" s] obtain r where
        r: "gzFeed Z (gzEmit D conv) (chunk @ [b]) (gunzip u) s = Some r"
          "fst r \<longrightarrow> unat (dictOffset (fst (snd r))) < 32768" by (elim exE conjE)
      obtain k t where k: "feedLogical D conv (chunk @ [b]) s = (k, t)" by fastforce
      have "\<exists>ok u1 s1. flushChunk Z D conv (chunk @ [b]) u s = Some (ok, u1, s1)
          \<and> (ok \<longrightarrow> unat (dictOffset (gunzip u1)) < 32768)"
      proof (cases "gz (if \<not> gzDecided u \<and> length (chunk @ [b]) \<ge> 2
          then u\<lparr>gz := looksLikeGzip (chunk @ [b]), gzDecided := True\<rparr> else u)")
        case True
        obtain k1 g1 t1 where "r = (k1, g1, t1)" by (cases r)
        then show ?thesis using r True unfolding flushChunk_def Let_def by simp
      next
        case False
        then show ?thesis using k Cons.prems(1) unfolding flushChunk_def Let_def by simp
      qed
      then show ?thesis using that by blast
    qed
    from frame_chunk [OF Cons.prems(2) f] have s1: "useSd s1" "bufsOk s1"
      using Cons.prems(2, 3) frame_bufs by (auto simp: ingestFrame_def)
    show ?thesis
    proof (cases "received < expected \<and> (length (chunk @ [b]) = ChunkSize \<or> received + 1 = expected)")
      case True
      then show ?thesis using Cons.IH [OF d s1, of "[]" "received + 1" now] f s1 BodyByte by (cases ok) (auto simp: Let_def)
    next
      case False
      then show ?thesis using Cons.prems Cons.IH [OF Cons.prems, of "chunk @ [b]" "received + 1" now] BodyByte
        by (auto simp: Let_def)
    qed
  qed
qed

lemma upload_returns:
  assumes "inflate_library Z pending ratio" "bufsOk s"
  shows "\<exists>r. waveformApplyStream Z D conv psram sdAvailable expected now events g s = Some r"
proof -
  have "unat (dictOffset (gunzip (startUnpack Z g))) < 32768" "useSd (startIngest s)" "bufsOk (startIngest s)"
    using assms(2) by (simp_all add: startUnpack_def gzBegin_def startIngest_def bufsOk_def)
  from receive_returns [OF assms(1) this, of conv expected events "[]" 0 now] obtain ok u s1 where
    "receiveLoop Z D conv expected events [] 0 now (startUnpack Z g) (startIngest s) = Some (ok, u, s1)" "useSd s1" "bufsOk s1" by blast
  then show ?thesis using finish_returns [of s1 Z conv ok u] refuse_returns [OF assms(2)]
    by (auto simp: waveformApplyStream_def)
qed

end

section \<open>Properties\<close>

definition emptyPlayer :: Player where
  "emptyPlayer = \<lparr>ring = ringReset, streamBufs = (\<lambda>_. replicate 16384 0), streamNextSample = 0\<rparr>"

text \<open>A device that plays a stored sequence of one segment.\<close>

definition exampleWave :: "(string \<Rightarrow> byte list option) Wave" where
  "exampleWave = \<lparr>card = (\<lambda>_. None)(WaveformFile := Some (waveBinaryHeaderWrite WaveTypeSequence 1 @ segmentRecord 100 50)),
     waveSamples = (\<lambda>_. 0), liveLevels = (\<lambda>_. 0)(0 := 100), liveMicros = (\<lambda>_. 0)(0 := 50),
     storedType = WaveTypeSequence, storedCount = 1, waveMode = ModeResident, streamFile = False, player = emptyPlayer,
     staging = (\<lambda>_. 0), stage = Detect, ingestErr = [], useSd = False, outOpen = False, outPos = 0, sunkSamples = 0,
     pre = [], binType = 0, binCount = 0, payloadGot = 0, recBuf = [],
     parser = \<lparr>wpType = 0, wpCount = 0, wpHasSamples = False, wpSamples = (\<lambda>_. 0), wpMaxSamples = 0,
       wpHasSegments = False, segLevelsQ15 = (\<lambda>_. 0), segMicros = (\<lambda>_. 0), wpMaxSegments = 0\<rparr>, line = []\<rparr>"

definition allAtOnce :: "byte list \<Rightarrow> BodyEvent list" where
  "allAtOnce bs = map (BodyByte 0) bs"

lemma allAtOnce [simp]: "bodyOf (allAtOnce bs) = bs" "promptBody 0 (allAtOnce bs)"
  by (induction bs) (simp_all add: allAtOnce_def)

lemma example_card: "card exampleWave = (\<lambda>_. None)(WaveformFile := Some (waveBinaryHeaderWrite WaveTypeSequence 1 @ segmentRecord 100 50))"
  by (simp add: exampleWave_def)

lemma example_bufs: "bufsOk exampleWave"
  by (simp add: bufsOk_def exampleWave_def emptyPlayer_def)

text \<open>A sequence upload cut short after its first segment.\<close>

context working_card begin

lemma segment_fed:
  assumes "stage s = BinSeqPayload" "payloadGot s = 0" "recBuf s = []" "2 \<le> unat (binCount s)" "unat (binCount s) \<le> 64" "us \<noteq> 0"
  shows "feedLogical D conv (segmentRecord level us) s = (True, s\<lparr>recBuf := [],
     liveLevels := (liveLevels s)(0 := level), liveMicros := (liveMicros s)(0 := us), payloadGot := 8\<rparr>)"
proof -
  obtain a b c d where us: "le32Bytes us = [a, b, c, d]" "fromLe32 a b c d = us" by (simp add: le32Bytes_def)
  obtain e f where lv: "le16Bytes level = [e, f]" "fromLe16 e f = level" by (simp add: le16Bytes_def)
  have m: "unat (binCount s * 8) = unat (binCount s) * 8" using assms(5) by (subst unat_mult_no_wrap) simp_all
  have pos: "binCount s * 8 \<noteq> 0" "binCount s \<noteq> 0" "MaxWaveSegments \<noteq> 0"
    using assms(4) m by (auto simp: word_unat_eq_iff MaxWaveSegments_def)
  show ?thesis
    by (simp add: segmentRecord_def us lv feedLogical_def feedByte_def feedPayload_def feedSegmentByte_def assms pos)
qed

lemma short_upload_fails:
  assumes n: "2 \<le> unat n" "unat n \<le> 64" and us: "us \<noteq> 0"
    and body: "bodyOf es = waveBinaryHeaderWrite WaveTypeSequence n @ segmentRecord level us" "promptBody now es"
  shows "\<exists>s'. waveformApplyStream Z D conv True True 20 now es g s = Some (False, ''truncated segment data'', s')
    \<and> liveLevels s' = (liveLevels s)(0 := level) \<and> liveMicros s' = (liveMicros s)(0 := us) \<and> sameActive s s'"
proof -
  have tt: "WaveTypeSequence \<noteq> WaveTypeReference" by (simp add: WaveTypeReference_def WaveTypeSequence_def)
  have "countOk WaveTypeSequence n" using n by (simp add: countOk_def)
  from header_any [OF this, of conv s] obtain c where h:
    "feedLogical D conv (waveBinaryHeaderWrite WaveTypeSequence n) (startIngest s) = (True, (startIngest s)\<lparr>
        pre := waveBinaryHeaderWrite WaveTypeSequence n, binType := WaveTypeSequence, binCount := n, outOpen := True,
        card := c, outPos := 12, payloadGot := 0, recBuf := [], stage := BinSeqPayload\<rparr>)" using tt by auto
  define t where "t = (startIngest s)\<lparr>
        pre := waveBinaryHeaderWrite WaveTypeSequence n, binType := WaveTypeSequence, binCount := n, outOpen := True,
        card := c, outPos := 12, payloadGot := 0, recBuf := [], stage := BinSeqPayload\<rparr>"
  define s1 where "s1 = t\<lparr>recBuf := [], liveLevels := (liveLevels t)(0 := level),
     liveMicros := (liveMicros t)(0 := us), payloadGot := 8\<rparr>"
  have f: "feedLogical D conv (segmentRecord level us) t = (True, s1)"
    unfolding s1_def using n us by (intro segment_fed) (simp_all add: t_def)
  have fed: "feedLogical D conv ([] @ bodyOf es) (startIngest s) = (True, s1)"
    using h f by (simp add: body(1) feedLogical_def feedBytes_append t_def)
  have len: "unat (20 :: u32) = unat (0 :: u32) + length (bodyOf es)" by (simp add: body(1) segmentRecord_def)
  have plain: "2 \<le> length ([] @ bodyOf es) \<and> \<not> looksLikeGzip ([] @ bodyOf es)"
    by (simp add: body(1) waveBinaryHeaderWrite_def looksLikeGzip_def)
  obtain u where u: "receiveLoop Z D conv 20 es [] 0 now (startUnpack Z g) (startIngest s) = Some (True, u, s1)" "\<not> gz u"
    using receive_plain [OF body(2) len _ _ fed, of "startUnpack Z g" Z] plain by (auto simp: startUnpack_def ChunkSize_def)
  have m: "unat (n * 8) = unat n * 8" using n by (subst unat_mult_no_wrap) simp_all
  then have "(8 :: u32) \<noteq> n * 8" using n by (auto simp: word_unat_eq_iff)
  then have cl: "classify D s1 = (ingestFail ''truncated segment data'' s1, WaveTypeSequence, n)"
    by (simp add: classify_def s1_def t_def)
  have e: "endBody D conv u s1 = (True, s1)" using u(2) by (simp add: endBody_def s1_def t_def)
  show ?thesis using u(1)
    by (simp add: waveformApplyStream_def finishUpload_def e cl ingestFail_def closeOut_def refuse_def)
      (simp add: s1_def t_def startIngest_def sameActive_def)
qed

end

text \<open>C23: a binary upload of at least two samples, delivered without a silence of five seconds to a working
  card, installs exactly those samples: \<open>/waveform.bin\<close> holds the upload, and the samples are active, in
  memory when they fit, otherwise streaming from the first one in a state the interleaved playback
  starts from.\<close>

theorem waveform_upload_round_trip:
  assumes "working_card D" "bufsOk s" "unat n = length ws" "2 \<le> length ws" "length ws \<le> 2 ^ 29"
    and "bodyOf es = waveFile n ws" "unat expected = length (waveFile n ws)" "promptBody now es"
  shows "\<exists>s'. waveformApplyStream Z D conv True True expected now es g s = Some (True, [], s') \<and> plays D s' ws
    \<and> wvFiles D (card s') WaveformFile = Some (waveFile n ws)"
  using working_card.upload_installs [OF assms(1, 3-8)] assms(2) unfolding bufsOk_def by blast

lemma waveform_upload_round_trip_witness:
  "\<exists>s'. waveformApplyStream refInflate refWave (\<lambda>_. (0, None)) True True 16 0 (allAtOnce (waveFile 2 [5, 6])) freshInflater
      exampleWave = Some (True, [], s') \<and> plays refWave s' [5, 6] \<and> wvFiles refWave (card s') WaveformFile = Some (waveFile 2 [5, 6])"
  by (rule waveform_upload_round_trip [OF refWaves.working_card_axioms]) (simp_all add: example_bufs waveFile_parts)

text \<open>C13: every upload returns, whatever arrives and whatever the card refuses. An accepted one leaves a
  well-formed \<open>/waveform.bin\<close> of the length its header declares and the previous one as the backup. A
  refused one gives a reason and the previous file is still there, live or, when the card refused to put it
  back, as the backup; unless the swap had begun, the active samples, their type, count and
  playback state are untouched. No other file changes.\<close>

theorem waveform_upload_outcome:
  assumes "wave_card D" "inflate_library Z pending ratio" "bufsOk s"
  shows "\<exists>ok m s'. waveformApplyStream Z D conv psram sdAvailable expected now events g s = Some (ok, m, s')
    \<and> (if ok then (\<exists>bs. wvFiles D (card s') WaveformFile = Some bs \<and> validWaveFile bs)
          \<and> (wvFiles D (card s) WaveformFile = None \<or> wvFiles D (card s') WaveformBackupFile = wvFiles D (card s) WaveformFile)
       else previousKept (wvFiles D (card s)) (wvFiles D (card s')) \<and> m \<noteq> []
          \<and> (sameActive s s' \<or> m \<in> {''could not preserve previous waveform'', ''could not activate staged waveform''}))
    \<and> onlyWaveFiles (wvFiles D (card s)) (wvFiles D (card s'))"
proof -
  obtain ok m s' where r: "waveformApplyStream Z D conv psram sdAvailable expected now events g s = Some (ok, m, s')"
    using wave_card.upload_returns [OF assms] by (metis prod_cases3)
  show ?thesis using wave_card.upload_outcome_card [OF assms(1) r] r by (auto split: if_splits)
qed

lemma waveform_upload_outcome_witness:
  "\<exists>ok m s'. waveformApplyStream refInflate refWave (\<lambda>_. (0, None)) True True 16 0 [BodyIdle 5000] freshInflater exampleWave
      = Some (ok, m, s') \<and> onlyWaveFiles (wvFiles refWave (card exampleWave)) (wvFiles refWave (card s'))"
  using waveform_upload_outcome [OF refWaves.wave_card_axioms refUnzip.inflate_library_axioms example_bufs] by blast

text \<open>A refused upload can still change what the device plays. A sequence that is cut short after its first
  segment is refused with "truncated segment data" and the stored sequence stays the active one, but
  the level and the duration of its first segment are those of the refused upload.\<close>

theorem refused_sequence_changes_live_segments:
  "\<exists>s'. waveformApplyStream refInflate refWave (\<lambda>_. (0, None)) True True 20 0
        (allAtOnce (waveBinaryHeaderWrite WaveTypeSequence 2 @ segmentRecord 7 9)) freshInflater exampleWave
      = Some (False, ''truncated segment data'', s')
    \<and> storedType s' = WaveTypeSequence \<and> storedCount s' = 1 \<and> (liveLevels s' 0, liveMicros s' 0) = (7, 9)
    \<and> (liveLevels exampleWave 0, liveMicros exampleWave 0) = (100, 50)"
  using refWaves.short_upload_fails [of 2 9 "allAtOnce (waveBinaryHeaderWrite WaveTypeSequence 2 @ segmentRecord 7 9)" 7 0
      refInflate "\<lambda>_. (0, None)" freshInflater exampleWave]
  by (auto simp: sameActive_def) (auto simp: exampleWave_def)

end
