(* ===== verification/Mppt.thy ===== *)
theory Mppt
  imports Pwm_Setup Config_Validate
begin

text \<open>
  \<open>src/src/mppt_math.h\<close> and \<open>src/src/mppt.cpp\<close>: maximum power point tracking. \<open>mpptStep\<close> perturbs the
  modulation index and observes the power; \<open>mpptConfigure\<close> and \<open>mpptTask\<close> own the cadence, the gating and
  the write of the index target, which is that of \<open>Pwm_Setup\<close>.

  Signed integers of the source are \<open>int\<close>. An \<open>elapsedMillis\<close> is the reading of \<open>millis()\<close> at which it was zero, so
  its value is the word difference to the present reading. What the meter, the thermal module and the
  modulation report at a task is its argument.
\<close>

section \<open>The tracker\<close>

record MpptParams =
  minIndexMilli :: u16
  maxIndexMilli :: u16
  stepMaxMilli :: u16
  stepMinMilli :: u16
  deadbandMw :: u16
  restartDeltaMw :: u32

record MpptState =
  prevPowerMw :: int
  dir :: int
  stepMilli :: u16
  indexMilli :: u16
  growCnt :: byte
  flatCnt :: byte
  primed :: bool

definition MpptFlatCap :: byte where [const_defs]: "MpptFlatCap = 4"

definition freshMppt :: MpptState where
  "freshMppt = \<lparr>prevPowerMw = 0, dir = 1, stepMilli = 20, indexMilli = 500, growCnt = 0, flatCnt = 0, primed = False\<rparr>"

definition mpptInit :: "u16 \<Rightarrow> MpptParams \<Rightarrow> MpptState" where
  "mpptInit startIndexMilli p =
     (let i = startIndexMilli; i = (if i < minIndexMilli p then minIndexMilli p else i);
          i = (if i > maxIndexMilli p then maxIndexMilli p else i)
      in freshMppt\<lparr>stepMilli := stepMaxMilli p, indexMilli := i\<rparr>)"

text \<open>The four verdicts on a change of power.\<close>

definition onRestart :: "MpptParams \<Rightarrow> int \<Rightarrow> MpptState \<Rightarrow> MpptState" where
  "onRestart p delta s = s\<lparr>stepMilli := stepMaxMilli p, growCnt := 0, flatCnt := 0,
     dir := (if delta < 0 then - dir s else dir s)\<rparr>"

definition onFlat :: "MpptState \<Rightarrow> MpptState" where
  "onFlat s =
     (let s = s\<lparr>growCnt := 0, flatCnt := flatCnt s + 1\<rparr> in
      if flatCnt s \<ge> MpptFlatCap then s\<lparr>flatCnt := 0, dir := - dir s\<rparr> else s)"

definition onBetter :: "MpptParams \<Rightarrow> MpptState \<Rightarrow> MpptState" where
  "onBetter p s =
     (let s = s\<lparr>flatCnt := 0, growCnt := growCnt s + 1\<rparr> in
      if growCnt s \<ge> 2
      then let doubled = 2 * ucast (stepMilli s) :: u32 in
        s\<lparr>stepMilli := (if doubled > ucast (stepMaxMilli p) then stepMaxMilli p else ucast doubled), growCnt := 0\<rparr>
      else s)"

definition onWorse :: "MpptParams \<Rightarrow> MpptState \<Rightarrow> MpptState" where
  "onWorse p s =
     (let halved = stepMilli s div 2 in
      s\<lparr>dir := - dir s, stepMilli := (if halved < stepMinMilli p then stepMinMilli p else halved),
        growCnt := 0, flatCnt := 0\<rparr>)"

definition judge :: "MpptParams \<Rightarrow> int \<Rightarrow> MpptState \<Rightarrow> MpptState" where
  "judge p powerMw s =
     (let delta = powerMw - prevPowerMw s; mag = (if delta \<ge> 0 then delta else - delta);
          s = s\<lparr>prevPowerMw := powerMw\<rparr> in
      if mag > sint (restartDeltaMw p) then onRestart p delta s
      else if mag \<le> uint (deadbandMw p) then onFlat s
      else if delta > 0 then onBetter p s else onWorse p s)"

definition moveIndex :: "MpptParams \<Rightarrow> MpptState \<Rightarrow> MpptState" where
  "moveIndex p s =
     (let next = uint (indexMilli s) + dir s * uint (stepMilli s);
          lo = uint (minIndexMilli p); hi = uint (maxIndexMilli p);
          (next, s) = (if next \<le> lo then (lo, s\<lparr>dir := 1\<rparr>) else (next, s));
          (next, s) = (if next \<ge> hi then (hi, s\<lparr>dir := - 1\<rparr>) else (next, s))
      in s\<lparr>indexMilli := word_of_int next\<rparr>)"

definition mpptStep :: "MpptParams \<Rightarrow> int \<Rightarrow> MpptState \<Rightarrow> u16 \<times> MpptState" where
  "mpptStep p powerMw s =
     (let s = (if \<not> primed s then s\<lparr>prevPowerMw := powerMw, primed := True\<rparr> else judge p powerMw s);
          s = moveIndex p s
      in (indexMilli s, s))"

section \<open>The task\<close>

record Mppt =
  params :: MpptParams
  st :: MpptState
  stepping :: bool
  lastDeltaMw :: int
  sinceStep :: u32

definition defaultParams :: MpptParams where
  "defaultParams = \<lparr>minIndexMilli = 50, maxIndexMilli = 1000, stepMaxMilli = 20, stepMinMilli = 5, deadbandMw = 10,
     restartDeltaMw = 1000\<rparr>"

definition mpptBoot :: Mppt where
  "mpptBoot = \<lparr>params = defaultParams, st = freshMppt, stepping = False, lastDeltaMw = 0, sinceStep = 0\<rparr>"

definition modulationIndexTargetMilli :: "Modulator \<Rightarrow> u32" where
  "modulationIndexTargetMilli m = drop_bit 15 (vIndexTargetQ15 m * 1000)"

definition configuredIndex :: "MainConfig \<Rightarrow> u16" where
  "configuredIndex c =
     (let i = ModulationIndexMilli (Tm2 (Pwm c)) in if i > MaxModulationIndexMilli then MaxModulationIndexMilli else i)"

definition mpptConfigure :: "MainConfig \<Rightarrow> u32 \<Rightarrow> Mppt \<times> Modulator \<Rightarrow> Mppt \<times> Modulator" where
  "mpptConfigure c now = (\<lambda>(t, m).
     let wasStepping = stepping t; t = t\<lparr>stepping := False\<rparr> in
     if \<not> mpEnabled (Mppt c)
     then (t, if wasStepping then setModulationIndexTargetQ15 (indexMilliToQ15 (configuredIndex c)) m else m)
     else let p = \<lparr>minIndexMilli = MinIndexMilli (Mppt c), maxIndexMilli = MaxIndexMilli (Mppt c),
                    stepMaxMilli = StepMilli (Mppt c), stepMinMilli = MinStepMilli (Mppt c),
                    deadbandMw = DeadbandMw (Mppt c), restartDeltaMw = RestartDeltaMw (Mppt c)\<rparr> in
       (t\<lparr>params := p, st := mpptInit (ucast (modulationIndexTargetMilli m)) p, sinceStep := now\<rparr>, m))"

definition mpptHold :: "u32 \<Rightarrow> Mppt \<Rightarrow> Mppt" where
  "mpptHold now t = t\<lparr>stepping := False, st := (st t)\<lparr>primed := False\<rparr>, sinceStep := now\<rparr>"

definition mpptEvaluate :: "int \<Rightarrow> u16 \<Rightarrow> u32 \<Rightarrow> Mppt \<Rightarrow> u16 \<times> Mppt" where
  "mpptEvaluate powerMw derateMilli now t =
     (let wasPrimed = primed (st t); before = prevPowerMw (st t);
          (next, s) = mpptStep (params t) powerMw (st t);
          delta = (if wasPrimed then powerMw - before else 0);
          derateCap = ucast (ucast MaxModulationIndexMilli * ucast derateMilli div 1000 :: u32);
          (next, s) = (if next > derateCap then (derateCap, s\<lparr>indexMilli := derateCap, dir := - 1\<rparr>) else (next, s))
      in (next, t\<lparr>st := s, lastDeltaMw := delta, sinceStep := now, stepping := True\<rparr>))"

text \<open>\<open>meter\<close> is the reading of the meter, None when it is not valid.\<close>

definition mpptTask :: "MainConfig \<Rightarrow> int option \<Rightarrow> u16 \<Rightarrow> u32 \<Rightarrow> Mppt \<times> Modulator \<Rightarrow> Mppt \<times> Modulator" where
  "mpptTask c meter derateMilli now = (\<lambda>(t, m).
     if \<not> mpEnabled (Mppt c) \<or> \<not> spwmActive (Tm2 (Pwm c)) then (mpptHold now t, m)
     else case meter of
         None \<Rightarrow> (mpptHold now t, m)
       | Some powerMw \<Rightarrow>
           if now - sinceStep t < ucast (mpIntervalMs (Mppt c)) then (t, m)
           else let (next, t) = mpptEvaluate powerMw derateMilli now t
             in (t, setModulationIndexTargetQ15 (indexMilliToQ15 next) m))"


section \<open>One evaluation\<close>

definition paramsOk :: "MpptParams \<Rightarrow> bool" where
  "paramsOk p \<longleftrightarrow> minIndexMilli p < maxIndexMilli p \<and> maxIndexMilli p \<le> MaxModulationIndexMilli
     \<and> 1 \<le> stepMinMilli p \<and> stepMinMilli p \<le> stepMaxMilli p \<and> stepMaxMilli p \<le> 200"

definition trackerOk :: "MpptParams \<Rightarrow> MpptState \<Rightarrow> bool" where
  "trackerOk p s \<longleftrightarrow> (dir s = 1 \<or> dir s = - 1) \<and> uint (indexMilli s) \<le> uint (maxIndexMilli p)
     \<and> uint (stepMinMilli p) \<le> uint (stepMilli s) \<and> uint (stepMilli s) \<le> uint (stepMaxMilli p)
     \<and> uint (flatCnt s) < 4 \<and> uint (growCnt s) < 2"

lemma paramsOk_uint:
  assumes "paramsOk p"
  shows "uint (minIndexMilli p) < uint (maxIndexMilli p)" "uint (maxIndexMilli p) \<le> 1155"
    "1 \<le> uint (stepMinMilli p)" "uint (stepMinMilli p) \<le> uint (stepMaxMilli p)" "uint (stepMaxMilli p) \<le> 200"
  using assms by (simp_all add: paramsOk_def word_less_def word_le_def const_defs)

lemma uint_doubled: "uint (2 * ucast (w :: u16) :: u32) = 2 * uint w"
proof -
  have "uint w < 65536" using uint_lt2p [of w] by simp
  then show ?thesis by (simp add: uint_word_ariths uint_up_ucast is_up)
qed

lemma uint_small_ucast: "uint (x :: u32) < 65536 \<Longrightarrow> uint (ucast x :: u16) = uint x"
  by (simp add: unsigned_ucast_eq take_bit_int_eq_self_iff)

lemma uint_half: "uint ((w :: u16) div 2) = uint w div 2"
  by (simp add: uint_div)

lemma flat_cases:
  assumes "uint (flatCnt s) < 4"
  shows "onFlat s = (if uint (flatCnt s) = 3 then s\<lparr>growCnt := 0, flatCnt := 0, dir := - dir s\<rparr>
           else s\<lparr>growCnt := 0, flatCnt := flatCnt s + 1\<rparr>)"
    "uint (flatCnt s) < 3 \<Longrightarrow> uint (flatCnt s + 1) = uint (flatCnt s) + 1"
proof -
  have u: "uint (flatCnt s + 1) = uint (flatCnt s) + 1" using assms by (simp add: uint_word_ariths)
  then show "uint (flatCnt s) < 3 \<Longrightarrow> uint (flatCnt s + 1) = uint (flatCnt s) + 1" by simp
  show "onFlat s = (if uint (flatCnt s) = 3 then s\<lparr>growCnt := 0, flatCnt := 0, dir := - dir s\<rparr>
           else s\<lparr>growCnt := 0, flatCnt := flatCnt s + 1\<rparr>)"
    using assms u by (simp add: onFlat_def Let_def word_le_def const_defs)
qed

lemma judge_ok:
  assumes "trackerOk p s" "paramsOk p"
  shows "trackerOk p (judge p w s)" "indexMilli (judge p w s) = indexMilli s" "prevPowerMw (judge p w s) = w"
    "primed (judge p w s) = primed s"
proof -
  note p = paramsOk_uint [OF assms(2)]
  have g: "uint (growCnt s + 1) = uint (growCnt s) + 1"
    using assms(1) by (simp add: trackerOk_def uint_word_ariths)
  have f: "trackerOk p (onFlat s')" if "trackerOk p s'" for s'
    using that flat_cases [of s'] by (auto simp: trackerOk_def)
  have b: "trackerOk p (onBetter p (s\<lparr>prevPowerMw := w\<rparr>))"
    using assms(1) g p
    by (auto simp: trackerOk_def onBetter_def Let_def word_le_def word_less_def uint_doubled uint_small_ucast
        uint_up_ucast is_up)
  have r: "trackerOk p (onRestart p d (s\<lparr>prevPowerMw := w\<rparr>))" for d
    using assms(1) p by (auto simp: trackerOk_def onRestart_def)
  have o: "trackerOk p (onWorse p (s\<lparr>prevPowerMw := w\<rparr>))"
    using assms(1) p by (auto simp: trackerOk_def onWorse_def Let_def word_less_def uint_half)
  have s: "trackerOk p (s\<lparr>prevPowerMw := w\<rparr>)" using assms(1) by (simp add: trackerOk_def)
  show "trackerOk p (judge p w s)" using b r o f [OF s] by (simp add: judge_def Let_def)
  show "indexMilli (judge p w s) = indexMilli s" "prevPowerMw (judge p w s) = w" "primed (judge p w s) = primed s"
    by (simp_all add: judge_def onRestart_def onFlat_def onBetter_def onWorse_def Let_def)
qed

text \<open>The move: one step in the present direction, stopped and turned at the two limits.\<close>

lemma moveIndex_eq:
  assumes "paramsOk p"
  shows "uint (indexMilli (moveIndex p s))
       = max (uint (minIndexMilli p)) (min (uint (maxIndexMilli p)) (uint (indexMilli s) + dir s * uint (stepMilli s)))"
    "dir (moveIndex p s) = (if uint (indexMilli s) + dir s * uint (stepMilli s) \<le> uint (minIndexMilli p) then 1
       else if uint (indexMilli s) + dir s * uint (stepMilli s) \<ge> uint (maxIndexMilli p) then - 1 else dir s)"
    "stepMilli (moveIndex p s) = stepMilli s" "flatCnt (moveIndex p s) = flatCnt s"
    "growCnt (moveIndex p s) = growCnt s" "prevPowerMw (moveIndex p s) = prevPowerMw s" "primed (moveIndex p s) = primed s"
proof -
  note p = paramsOk_uint [OF assms(1)]
  define n where "n = uint (indexMilli s) + dir s * uint (stepMilli s)"
  have w: "uint (word_of_int x :: u16) = x" if "uint (minIndexMilli p) \<le> x" "x \<le> 1155" for x
    using that order_trans [OF uint_ge_0 that(1)] by (simp add: uint_word_of_int)
  have "uint (indexMilli (moveIndex p s)) = max (uint (minIndexMilli p)) (min (uint (maxIndexMilli p)) n)"
    using p by (auto simp: moveIndex_def Let_def w simp flip: n_def)
  then show "uint (indexMilli (moveIndex p s))
       = max (uint (minIndexMilli p)) (min (uint (maxIndexMilli p)) (uint (indexMilli s) + dir s * uint (stepMilli s)))"
    by (simp add: n_def)
qed (use paramsOk_uint [OF assms(1)] in \<open>simp_all add: moveIndex_def Let_def\<close>)

lemma moveIndex_ok:
  assumes "trackerOk p s" "paramsOk p"
  shows "trackerOk p (moveIndex p s)"
  using assms paramsOk_uint [OF assms(2)] moveIndex_eq [OF assms(2), of s] by (auto simp: trackerOk_def)


lemma mpptStep_ok:
  assumes "trackerOk p s" "paramsOk p"
  shows "trackerOk p (snd (mpptStep p w s))" "fst (mpptStep p w s) = indexMilli (snd (mpptStep p w s))"
    "minIndexMilli p \<le> fst (mpptStep p w s)" "fst (mpptStep p w s) \<le> maxIndexMilli p"
    "primed (snd (mpptStep p w s))" "prevPowerMw (snd (mpptStep p w s)) = w"
proof -
  let ?s = "if \<not> primed s then s\<lparr>prevPowerMw := w, primed := True\<rparr> else judge p w s"
  have ok: "trackerOk p ?s" "primed ?s" "prevPowerMw ?s = w"
    using judge_ok [OF assms, of w] assms(1) by (auto simp: trackerOk_def)
  have e: "mpptStep p w s = (indexMilli (moveIndex p ?s), moveIndex p ?s)" by (simp add: mpptStep_def Let_def)
  show "trackerOk p (snd (mpptStep p w s))" "fst (mpptStep p w s) = indexMilli (snd (mpptStep p w s))"
    "primed (snd (mpptStep p w s))" "prevPowerMw (snd (mpptStep p w s)) = w"
    using ok moveIndex_ok [OF ok(1) assms(2)] by (simp_all add: e moveIndex_eq [OF assms(2)])
  show "minIndexMilli p \<le> fst (mpptStep p w s)" "fst (mpptStep p w s) \<le> maxIndexMilli p"
    using paramsOk_uint [OF assms(2)] unfolding e word_le_def fst_conv moveIndex_eq(1) [OF assms(2)] by auto
qed

section \<open>A plateau\<close>

text \<open>While the power stays within the deadband the direction turns after every fourth evaluation. The top of
  the excursion, one step after the other from the present state, does not move, and neither does its bottom,
  except at the limits of the index, where it moves inwards.\<close>

primrec plateau :: "int \<Rightarrow> int \<Rightarrow> int list \<Rightarrow> bool" where
  "plateau deadband before [] = True"
| "plateau deadband before (w # ws) = (\<bar>w - before\<bar> \<le> deadband \<and> plateau deadband w ws)"

definition runMppt :: "MpptParams \<Rightarrow> int list \<Rightarrow> MpptState \<Rightarrow> MpptState" where
  "runMppt p ws s = foldl (\<lambda>s w. snd (mpptStep p w s)) s ws"

definition excursionTop :: "MpptState \<Rightarrow> int" where
  "excursionTop s = uint (indexMilli s)
     + (if dir s = 1 then 3 - uint (flatCnt s) else 1 + uint (flatCnt s)) * uint (stepMilli s)"

definition excursionBottom :: "MpptState \<Rightarrow> int" where
  "excursionBottom s = uint (indexMilli s)
     - (if dir s = 1 then 1 + uint (flatCnt s) else 3 - uint (flatCnt s)) * uint (stepMilli s)"

lemma flat_judge:
  assumes "\<bar>w - prevPowerMw s\<bar> \<le> uint (deadbandMw p)" "uint (deadbandMw p) < sint (restartDeltaMw p)"
  shows "judge p w s = onFlat (s\<lparr>prevPowerMw := w\<rparr>)"
  using assms by (auto simp: judge_def Let_def)

lemma flat_step:
  assumes "trackerOk p s" "paramsOk p" "primed s" "minIndexMilli p \<le> indexMilli s"
    "\<bar>w - prevPowerMw s\<bar> \<le> uint (deadbandMw p)" "uint (deadbandMw p) < sint (restartDeltaMw p)"
    "excursionTop s \<le> hi \<or> uint (maxIndexMilli p) \<le> hi"
    "uint (minIndexMilli p) + 3 * uint (stepMilli s) \<le> hi"
    "lo \<le> excursionBottom s \<or> lo \<le> uint (minIndexMilli p)"
    "lo \<le> uint (maxIndexMilli p) - 3 * uint (stepMilli s)"
  defines "s' \<equiv> snd (mpptStep p w s)"
  shows "stepMilli s' = stepMilli s" "excursionTop s' \<le> hi \<or> uint (maxIndexMilli p) \<le> hi"
    "lo \<le> excursionBottom s' \<or> lo \<le> uint (minIndexMilli p)"
proof -
  define f d k x where "f = uint (flatCnt s)" and "d = dir s" and "k = uint (stepMilli s)" and "x = uint (indexMilli s)"
  note p = paramsOk_uint [OF assms(2)]
  have ok: "f < 4" "0 \<le> f" "d = 1 \<or> d = - 1" "1 \<le> k" "uint (minIndexMilli p) \<le> x" "x \<le> uint (maxIndexMilli p)"
    using assms(1,4) p by (auto simp: trackerOk_def f_def d_def k_def x_def word_le_def)
  define d' f' where "d' = (if f = 3 then - d else d)" and "f' = (if f = 3 then 0 else f + 1)"
  define t where "t = judge p w s"
  have t: "t = onFlat (s\<lparr>prevPowerMw := w\<rparr>)" using flat_judge [OF assms(5,6)] by (simp add: t_def)
  have tf: "dir t = d'" "uint (flatCnt t) = f'" "indexMilli t = indexMilli s" "stepMilli t = stepMilli s"
    using flat_cases [of "s\<lparr>prevPowerMw := w\<rparr>"] ok by (auto simp: t d'_def f'_def d_def f_def)
  have s': "s' = moveIndex p t" using assms(3) by (simp add: s'_def mpptStep_def Let_def t_def)
  define n where "n = x + d' * k"
  have m: "uint (indexMilli s') = max (uint (minIndexMilli p)) (min (uint (maxIndexMilli p)) n)"
    "dir s' = (if n \<le> uint (minIndexMilli p) then 1 else if n \<ge> uint (maxIndexMilli p) then - 1 else d')"
    "uint (stepMilli s') = k" "uint (flatCnt s') = f'"
    by (simp_all add: s' moveIndex_eq [OF assms(2)] tf n_def x_def k_def)
  have fs: "f = 0 \<or> f = 1 \<or> f = 2 \<or> f = 3" using ok by auto
  show "stepMilli s' = stepMilli s" by (simp add: s' moveIndex_eq [OF assms(2)] tf)
  show "excursionTop s' \<le> hi \<or> uint (maxIndexMilli p) \<le> hi"
    using assms(7,8) fs ok p unfolding excursionTop_def m f_def [symmetric] d_def [symmetric] k_def [symmetric] x_def [symmetric]
    by (auto simp: d'_def f'_def n_def max_def min_def)
  show "lo \<le> excursionBottom s' \<or> lo \<le> uint (minIndexMilli p)"
    using assms(9,10) fs ok p unfolding excursionBottom_def m f_def [symmetric] d_def [symmetric] k_def [symmetric] x_def [symmetric]
    by (auto simp: d'_def f'_def n_def max_def min_def)
qed


lemma runMppt_Cons: "runMppt p (w # ws) s = runMppt p ws (snd (mpptStep p w s))"
  by (simp add: runMppt_def)

lemma excursion_bounds:
  assumes "trackerOk p s"
  shows "uint (indexMilli s) \<le> excursionTop s" "excursionBottom s \<le> uint (indexMilli s)"
    "excursionTop s \<le> uint (indexMilli s) + 4 * uint (stepMilli s)"
    "uint (indexMilli s) - 4 * uint (stepMilli s) \<le> excursionBottom s"
proof -
  define f k where "f = uint (flatCnt s)" and "k = uint (stepMilli s)"
  have f: "f = 0 \<or> f = 1 \<or> f = 2 \<or> f = 3" and k: "0 \<le> k"
    using assms uint_ge_0 [of "flatCnt s"] unfolding trackerOk_def f_def k_def by (arith, simp)
  show "uint (indexMilli s) \<le> excursionTop s" "excursionBottom s \<le> uint (indexMilli s)"
    "excursionTop s \<le> uint (indexMilli s) + 4 * uint (stepMilli s)"
    "uint (indexMilli s) - 4 * uint (stepMilli s) \<le> excursionBottom s"
    using f k unfolding excursionTop_def excursionBottom_def f_def [symmetric] k_def [symmetric] by auto
qed

lemma plateau_run:
  assumes "trackerOk p s" "paramsOk p" "primed s" "minIndexMilli p \<le> indexMilli s"
    "plateau (uint (deadbandMw p)) (prevPowerMw s) ws" "uint (deadbandMw p) < sint (restartDeltaMw p)"
    "excursionTop s \<le> hi \<or> uint (maxIndexMilli p) \<le> hi"
    "uint (minIndexMilli p) + 3 * uint (stepMilli s) \<le> hi"
    "lo \<le> excursionBottom s \<or> lo \<le> uint (minIndexMilli p)"
    "lo \<le> uint (maxIndexMilli p) - 3 * uint (stepMilli s)"
  shows "lo \<le> uint (indexMilli (runMppt p ws s)) \<and> uint (indexMilli (runMppt p ws s)) \<le> hi
    \<and> stepMilli (runMppt p ws s) = stepMilli s"
  using assms
proof (induction ws arbitrary: s)
  case Nil
  have "uint (indexMilli s) \<le> uint (maxIndexMilli p)" "uint (minIndexMilli p) \<le> uint (indexMilli s)"
    using Nil(1,4) by (auto simp: trackerOk_def word_le_def)
  then show ?case
    using excursion_bounds [OF Nil(1)] Nil(7,9) by (auto simp: runMppt_def)
next
  case (Cons w ws)
  let ?s = "snd (mpptStep p w s)"
  have d: "\<bar>w - prevPowerMw s\<bar> \<le> uint (deadbandMw p)" "plateau (uint (deadbandMw p)) w ws"
    using Cons(6) by simp_all
  note f = flat_step [OF Cons(2-5) d(1) Cons(7-11)]
  note o = mpptStep_ok [OF Cons(2,3), of w]
  have i: "minIndexMilli p \<le> indexMilli ?s" using o(2,3) by simp
  have st: "uint (minIndexMilli p) + 3 * uint (stepMilli ?s) \<le> hi"
    "lo \<le> uint (maxIndexMilli p) - 3 * uint (stepMilli ?s)"
    using Cons(9,11) f(1) by simp_all
  have pl: "plateau (uint (deadbandMw p)) (prevPowerMw ?s) ws" using d(2) o(6) by simp
  show ?case
    using Cons.IH [OF o(1) Cons(3) o(5) i pl Cons(7) f(2) st(1) f(3) st(2)] f(1) by (simp add: runMppt_Cons)
qed

text \<open>On a plateau the tracker stays put. While the measured power changes by no more than the deadband
  from one evaluation to the next, however long that lasts, the index never strays more than four
  steps from where the plateau was entered, in either direction, and the step stays as it was.\<close>

theorem mppt_plateau_bounded:
  assumes "paramsOk p" "uint (deadbandMw p) < sint (restartDeltaMw p)"
    "trackerOk p s" "primed s" "minIndexMilli p \<le> indexMilli s"
    "plateau (uint (deadbandMw p)) (prevPowerMw s) ws"
  shows "\<bar>uint (indexMilli (runMppt p ws s)) - uint (indexMilli s)\<bar> \<le> 4 * uint (stepMilli s)
    \<and> stepMilli (runMppt p ws s) = stepMilli s"
proof -
  have x: "uint (indexMilli s) \<le> uint (maxIndexMilli p)" "uint (minIndexMilli p) \<le> uint (indexMilli s)"
    using assms(3,5) by (auto simp: trackerOk_def word_le_def)
  let ?hi = "uint (indexMilli s) + 4 * uint (stepMilli s)" and ?lo = "uint (indexMilli s) - 4 * uint (stepMilli s)"
  have b: "uint (minIndexMilli p) + 3 * uint (stepMilli s) \<le> ?hi" "?lo \<le> uint (maxIndexMilli p) - 3 * uint (stepMilli s)"
    using x uint_ge_0 [of "stepMilli s"] by linarith+
  show ?thesis
    using plateau_run [OF assms(3,1,4-6,2) disjI1 [OF excursion_bounds(3) [OF assms(3)]] b(1)
        disjI1 [OF excursion_bounds(4) [OF assms(3)]] b(2)] by auto
qed

definition exampleParams :: MpptParams where
  "exampleParams = \<lparr>minIndexMilli = 50, maxIndexMilli = 1000, stepMaxMilli = 20, stepMinMilli = 5, deadbandMw = 10,
     restartDeltaMw = 1000\<rparr>"

lemma example_params: "paramsOk exampleParams"
  "uint (deadbandMw exampleParams) < sint (restartDeltaMw exampleParams)"
  by (simp_all add: paramsOk_def exampleParams_def const_defs)

lemma mppt_plateau_bounded_witness:
  "\<bar>uint (indexMilli (runMppt exampleParams [5, 0, 7, 9, 2] (freshMppt\<lparr>primed := True\<rparr>))) - 500\<bar> \<le> 80"
  using mppt_plateau_bounded [OF example_params, of "freshMppt\<lparr>primed := True\<rparr>" "[5, 0, 7, 9, 2]"]
  by (simp add: trackerOk_def freshMppt_def exampleParams_def word_le_def)


section \<open>A slope\<close>

text \<open>The measured power is a function of the index alone, here on a slope that climbs by more than the
  deadband over every smallest step below the peak.\<close>

definition climbsTo :: "MpptParams \<Rightarrow> (int \<Rightarrow> int) \<Rightarrow> int \<Rightarrow> bool" where
  "climbsTo p P peak \<longleftrightarrow>
     (\<forall>a b. a \<le> peak \<longrightarrow> b \<le> peak \<longrightarrow> uint (stepMinMilli p) \<le> b - a \<longrightarrow> uint (deadbandMw p) < P b - P a)"

fun trackMppt :: "MpptParams \<Rightarrow> (int \<Rightarrow> int) \<Rightarrow> nat \<Rightarrow> MpptState \<Rightarrow> MpptState" where
  "trackMppt p P 0 s = s"
| "trackMppt p P (Suc n) s = trackMppt p P n (snd (mpptStep p (P (uint (indexMilli s))) s))"

definition climbing :: "MpptParams \<Rightarrow> (int \<Rightarrow> int) \<Rightarrow> MpptState \<Rightarrow> bool" where
  "climbing p P s \<longleftrightarrow> trackerOk p s \<and> minIndexMilli p \<le> indexMilli s \<and> dir s = 1
     \<and> (primed s \<longrightarrow> (\<exists>y. prevPowerMw s = P y \<and> uint (stepMinMilli p) \<le> uint (indexMilli s) - y))"

lemma climb_judge:
  assumes "climbing p P s" "paramsOk p" "climbsTo p P peak" "uint (indexMilli s) \<le> peak"
  defines "t \<equiv> (if \<not> primed s then s\<lparr>prevPowerMw := P (uint (indexMilli s)), primed := True\<rparr>
                else judge p (P (uint (indexMilli s))) s)"
  shows "dir t = 1" "trackerOk p t" "indexMilli t = indexMilli s" "prevPowerMw t = P (uint (indexMilli s))" "primed t"
proof -
  have ok: "trackerOk p s" "dir s = 1" using assms(1) by (simp_all add: climbing_def)
  note j = judge_ok [OF ok(1) assms(2), of "P (uint (indexMilli s))"]
  show "trackerOk p t" "indexMilli t = indexMilli s" "prevPowerMw t = P (uint (indexMilli s))" "primed t"
    using j ok(1) by (auto simp: t_def trackerOk_def)
  show "dir t = 1"
  proof (cases "primed s")
    case True
    then obtain y where y: "prevPowerMw s = P y" "uint (stepMinMilli p) \<le> uint (indexMilli s) - y"
      using assms(1) by (auto simp: climbing_def)
    then have "y \<le> peak" using assms(4) paramsOk_uint(3) [OF assms(2)] by linarith
    then have "uint (deadbandMw p) < P (uint (indexMilli s)) - prevPowerMw s"
      using assms(3,4) y by (simp add: climbsTo_def)
    moreover have "0 \<le> uint (deadbandMw p)" by simp
    ultimately have "\<not> P (uint (indexMilli s)) - prevPowerMw s < 0"
      "\<not> P (uint (indexMilli s)) - prevPowerMw s \<le> uint (deadbandMw p)" "P (uint (indexMilli s)) - prevPowerMw s > 0"
      by linarith+
    then show ?thesis using True ok(2)
      by (auto simp: t_def judge_def Let_def onRestart_def onBetter_def)
  qed (simp add: t_def ok(2))
qed

lemma climb_step:
  assumes "climbing p P s" "paramsOk p" "climbsTo p P peak" "uint (indexMilli s) \<le> peak"
  defines "s' \<equiv> snd (mpptStep p (P (uint (indexMilli s))) s)"
  shows "uint (indexMilli s') = uint (maxIndexMilli p)
       \<or> uint (indexMilli s) + uint (stepMinMilli p) \<le> uint (indexMilli s') \<and> climbing p P s'"
    "uint (indexMilli s') \<le> uint (indexMilli s) + uint (stepMaxMilli p)" "trackerOk p s'"
proof -
  let ?t = "if \<not> primed s then s\<lparr>prevPowerMw := P (uint (indexMilli s)), primed := True\<rparr>
            else judge p (P (uint (indexMilli s))) s"
  note t = climb_judge [OF assms(1-4)]
  have s': "s' = moveIndex p ?t" by (simp add: s'_def mpptStep_def Let_def)
  note m = moveIndex_eq [OF assms(2), of ?t]
  have b: "uint (stepMinMilli p) \<le> uint (stepMilli ?t)" "uint (stepMilli ?t) \<le> uint (stepMaxMilli p)"
    using t(2) by (simp_all add: trackerOk_def)
  have x: "uint (minIndexMilli p) \<le> uint (indexMilli s)" "uint (indexMilli s) \<le> uint (maxIndexMilli p)"
    using assms(1) by (simp_all add: climbing_def trackerOk_def word_le_def)
  note p = paramsOk_uint [OF assms(2)]
  show ok: "trackerOk p s'" using moveIndex_ok [OF t(2) assms(2)] by (simp add: s')
  have i: "uint (indexMilli s') = min (uint (maxIndexMilli p)) (uint (indexMilli s) + uint (stepMilli ?t))"
    using m(1) t(1,3) b x p by (simp add: s')
  show "uint (indexMilli s') \<le> uint (indexMilli s) + uint (stepMaxMilli p)" using i b by simp
  show "uint (indexMilli s') = uint (maxIndexMilli p)
       \<or> uint (indexMilli s) + uint (stepMinMilli p) \<le> uint (indexMilli s') \<and> climbing p P s'"
  proof (cases "uint (indexMilli s) + uint (stepMilli ?t) \<ge> uint (maxIndexMilli p)")
    case True
    then show ?thesis using i by simp
  next
    case False
    then have n: "uint (indexMilli s') = uint (indexMilli s) + uint (stepMilli ?t)" using i by simp
    have "dir s' = 1" using m(2) t(1,3) b x p False by (simp add: s')
    moreover have "prevPowerMw s' = P (uint (indexMilli s))" using m(6) t(4) by (simp add: s')
    moreover have "uint (stepMinMilli p) \<le> uint (indexMilli s') - uint (indexMilli s)" using n b by linarith
    moreover have "minIndexMilli p \<le> indexMilli s'" using n x b p by (simp add: word_le_def)
    ultimately show ?thesis using ok by (auto simp: climbing_def)
  qed
qed


lemma climb_run:
  assumes "paramsOk p" "climbsTo p P peak" "climbing p P s" "uint (indexMilli s) \<le> peak"
    "peak - uint (indexMilli s) < int (Suc k) * uint (stepMinMilli p)"
  shows "\<exists>n \<le> Suc k. let x = uint (indexMilli (trackMppt p P n s)) in
    (x = uint (maxIndexMilli p) \<or> peak < x) \<and> x \<le> peak + uint (stepMaxMilli p)"
  using assms(3-)
proof (induction k arbitrary: s)
  case 0
  note c = climb_step [OF 0(1) assms(1,2) 0(2)]
  let ?s = "snd (mpptStep p (P (uint (indexMilli s))) s)"
  have "uint (indexMilli ?s) = uint (maxIndexMilli p) \<or> peak < uint (indexMilli ?s)"
    "uint (indexMilli ?s) \<le> peak + uint (stepMaxMilli p)"
    using c(1,2) 0(2,3) by auto
  then show ?case by (intro exI [of _ 1]) (simp add: Let_def)
next
  case (Suc k)
  note c = climb_step [OF Suc(2) assms(1,2) Suc(3)]
  let ?s = "snd (mpptStep p (P (uint (indexMilli s))) s)"
  have up: "uint (indexMilli ?s) \<le> peak + uint (stepMaxMilli p)" using c(2) Suc(3) by linarith
  show ?case
  proof (cases "uint (indexMilli ?s) = uint (maxIndexMilli p) \<or> peak < uint (indexMilli ?s)")
    case True
    then show ?thesis using up by (intro exI [of _ 1]) (simp add: Let_def)
  next
    case False
    then have n: "climbing p P ?s" "uint (indexMilli ?s) \<le> peak"
      "peak - uint (indexMilli ?s) < int (Suc k) * uint (stepMinMilli p)"
      using c(1) Suc(4) by (auto simp: algebra_simps)
    obtain n where "n \<le> Suc k" "let x = uint (indexMilli (trackMppt p P n ?s)) in
        (x = uint (maxIndexMilli p) \<or> peak < x) \<and> x \<le> peak + uint (stepMaxMilli p)"
      using Suc.IH [OF n] by auto
    then show ?thesis by (intro exI [of _ "Suc n"]) simp
  qed
qed

lemma mpptInit_ok:
  assumes "paramsOk p"
  shows "trackerOk p (mpptInit start p)" "minIndexMilli p \<le> indexMilli (mpptInit start p)"
    "dir (mpptInit start p) = 1" "\<not> primed (mpptInit start p)"
  using assms by (auto simp: paramsOk_def trackerOk_def mpptInit_def Let_def freshMppt_def word_le_def word_less_def)

text \<open>C28: the tracker finds the peak. Started anywhere below it, on a power curve that rises by more than
  the deadband over every smallest step, it climbs without turning back: after at most one evaluation for
  every smallest step of the way, and one more, the index has reached the upper limit or passed the
  peak, and not by more than one largest step.\<close>

theorem mppt_climbs_to_peak:
  assumes "paramsOk p" "climbsTo p P peak" "uint (indexMilli (mpptInit start p)) \<le> peak"
  shows "\<exists>n. int n \<le> (peak - uint (indexMilli (mpptInit start p))) div uint (stepMinMilli p) + 1 \<and>
    (let x = uint (indexMilli (trackMppt p P n (mpptInit start p))) in
      (x = uint (maxIndexMilli p) \<or> peak < x) \<and> x \<le> peak + uint (stepMaxMilli p))"
proof -
  let ?s = "mpptInit start p"
  define w where "w = peak - uint (indexMilli ?s)"
  have m: "1 \<le> uint (stepMinMilli p)" by (rule paramsOk_uint(3) [OF assms(1)])
  have w: "0 \<le> w div uint (stepMinMilli p)" using assms(3) m by (simp add: w_def pos_imp_zdiv_nonneg_iff)
  have "w mod uint (stepMinMilli p) < uint (stepMinMilli p)" using m by (intro pos_mod_bound) simp
  moreover have "int (Suc (nat (w div uint (stepMinMilli p)))) = w div uint (stepMinMilli p) + 1" using w by simp
  ultimately have "w < int (Suc (nat (w div uint (stepMinMilli p)))) * uint (stepMinMilli p)"
    using div_mult_mod_eq [of w "uint (stepMinMilli p)"] by (simp only: distrib_right mult_1)
  moreover have "climbing p P ?s" using mpptInit_ok [OF assms(1)] by (simp add: climbing_def)
  ultimately obtain n where n: "n \<le> Suc (nat (w div uint (stepMinMilli p)))"
      "let x = uint (indexMilli (trackMppt p P n ?s)) in
        (x = uint (maxIndexMilli p) \<or> peak < x) \<and> x \<le> peak + uint (stepMaxMilli p)"
    using climb_run [OF assms(1,2) _ assms(3)] unfolding w_def by blast
  have "int n \<le> w div uint (stepMinMilli p) + 1" using n(1) w by linarith
  then show ?thesis using n(2) unfolding w_def by blast
qed

lemma mppt_climbs_to_peak_witness:
  "\<exists>n. int n \<le> 61 \<and> (let x = uint (indexMilli (trackMppt exampleParams (\<lambda>x. 3 * x) n (mpptInit 500 exampleParams))) in
      (x = 1000 \<or> 800 < x) \<and> x \<le> 820)"
proof -
  have "climbsTo exampleParams (\<lambda>x. 3 * x) 800" by (simp add: climbsTo_def exampleParams_def)
  moreover have "uint (indexMilli (mpptInit 500 exampleParams)) = 500"
    by (simp add: mpptInit_def exampleParams_def Let_def)
  ultimately show ?thesis
    using mppt_climbs_to_peak [OF example_params(1), of "\<lambda>x. 3 * x" 800 500] by (simp add: exampleParams_def)
qed


section \<open>The task in its surroundings\<close>

definition paramsOf :: "MpptConfig \<Rightarrow> MpptParams" where
  "paramsOf c = \<lparr>minIndexMilli = MinIndexMilli c, maxIndexMilli = MaxIndexMilli c, stepMaxMilli = StepMilli c,
     stepMinMilli = MinStepMilli c, deadbandMw = DeadbandMw c, restartDeltaMw = RestartDeltaMw c\<rparr>"

definition applyMppt :: "MainConfig \<Rightarrow> MainConfig \<Rightarrow> u32 \<Rightarrow> Mppt \<times> Modulator \<Rightarrow> Mppt \<times> Modulator" where
  "applyMppt previous c now s =
     (if \<not> equalMppt (Mppt previous) (Mppt c) \<or> \<not> equalFeedback (Feedback previous) (Feedback c)
         \<or> \<not> equalModule2 (Tm2 (Pwm previous)) (Tm2 (Pwm c))
      then mpptConfigure c now s else s)"

text \<open>What happens to the tracker and to the index it shares: a new configuration, a pass of the task, and every
  other writer and reader of the modulator.\<close>

datatype MpptEvent = ApplyConfig MainConfig u32 | RunTask "int option" u16 u32 | OtherOp ModOp

definition mpptEvent :: "(byte \<Rightarrow> bool \<Rightarrow> int list) \<Rightarrow> u32 \<Rightarrow> u32 \<Rightarrow> MpptEvent
    \<Rightarrow> MainConfig \<times> Mppt \<times> Modulator \<Rightarrow> MainConfig \<times> Mppt \<times> Modulator" where
  "mpptEvent unitLut cpuHz clk e = (\<lambda>(c, t, m). case e of
     ApplyConfig c' now \<Rightarrow> (c', applyMppt c c' now (t, m))
   | RunTask meter derateMilli now \<Rightarrow> (c, mpptTask c meter derateMilli now (t, m))
   | OtherOp oper \<Rightarrow> (c, t, modOp unitLut cpuHz clk oper m))"

definition settledFor :: "MainConfig \<Rightarrow> bool" where
  "settledFor c \<longleftrightarrow> settledMppt (SoftStartMs (Tm2 (Pwm c))) (fbEnabled (Feedback c)) (Mppt c)"

fun validEvent :: "MpptEvent \<Rightarrow> bool" where
  "validEvent (ApplyConfig c now) = settledFor c"
| "validEvent e = True"

definition mpptInv :: "MainConfig \<times> Mppt \<times> Modulator \<Rightarrow> bool" where
  "mpptInv = (\<lambda>(c, t, m). settledFor c \<and> indexOk m
     \<and> (mpEnabled (Mppt c) \<longrightarrow> params t = paramsOf (Mppt c) \<and> trackerOk (params t) (st t)))"

lemma equalMppt_iff: "equalMppt l r \<longleftrightarrow> l = r"
  by (cases l; cases r) (auto simp: equalMppt_def)

lemma settled_params: "settledFor c \<Longrightarrow> paramsOk (paramsOf (Mppt c))"
  by (auto simp: settledFor_def settledMppt_def paramsOk_def paramsOf_def)

lemma setTarget_ok: "indexOk m \<Longrightarrow> indexOk (setModulationIndexTargetQ15 x m)"
  using modOp_index [of m "\<lambda>_ _. []" 0 0 "SetTarget x"] by (simp add: modOp_def)

lemma mpptConfigure_inv:
  assumes "settledFor c" "indexOk m"
  shows "mpptInv (c, mpptConfigure c now (t, m))"
  using assms mpptInit_ok(1) [OF settled_params [OF assms(1)]] setTarget_ok [OF assms(2)]
  by (simp add: mpptConfigure_def mpptInv_def Let_def paramsOf_def)

lemma mpptEvaluate_ok:
  assumes "trackerOk (params t) (st t)" "paramsOk (params t)"
  shows "trackerOk (params t) (st (snd (mpptEvaluate w d now t)))" "params (snd (mpptEvaluate w d now t)) = params t"
    "fst (mpptEvaluate w d now t) \<le> maxIndexMilli (params t)" "sinceStep (snd (mpptEvaluate w d now t)) = now"
    "minIndexMilli (params t) \<le> fst (mpptEvaluate w d now t)
       \<or> fst (mpptEvaluate w d now t) = ucast (ucast MaxModulationIndexMilli * ucast d div 1000 :: u32)"
proof -
  let ?cap = "ucast (ucast MaxModulationIndexMilli * ucast d div 1000 :: u32) :: u16"
  note o = mpptStep_ok [OF assms, of w]
  define x s where "x = fst (mpptStep (params t) w (st t))" and "s = snd (mpptStep (params t) w (st t))"
  have e: "mpptStep (params t) w (st t) = (x, s)" by (simp add: x_def s_def)
  have le: "x \<le> maxIndexMilli (params t)" "minIndexMilli (params t) \<le> x" using o(3,4) by (simp_all add: x_def)
  have v: "fst (mpptEvaluate w d now t) = (if x > ?cap then ?cap else x)"
    "st (snd (mpptEvaluate w d now t)) = (if x > ?cap then s\<lparr>indexMilli := ?cap, dir := - 1\<rparr> else s)"
    by (simp_all add: mpptEvaluate_def Let_def e)
  show "params (snd (mpptEvaluate w d now t)) = params t" "sinceStep (snd (mpptEvaluate w d now t)) = now"
    by (simp_all add: mpptEvaluate_def Let_def e)
  have "uint ?cap \<le> uint (maxIndexMilli (params t))" if "x > ?cap"
    using that le(1) unfolding word_le_def word_less_def by linarith
  then show "trackerOk (params t) (st (snd (mpptEvaluate w d now t)))"
    using o(1) unfolding v s_def [symmetric] by (simp add: trackerOk_def)
  show "fst (mpptEvaluate w d now t) \<le> maxIndexMilli (params t)"
    "minIndexMilli (params t) \<le> fst (mpptEvaluate w d now t) \<or> fst (mpptEvaluate w d now t) = ?cap"
    using le unfolding v by auto
qed

lemma mpptTask_cases:
  obtains (hold) "mpptTask c meter d now (t, m) = (mpptHold now t, m)"
  | (wait) "mpptTask c meter d now (t, m) = (t, m)"
  | (evaluate) w where "mpEnabled (Mppt c)" "spwmActive (Tm2 (Pwm c))" "meter = Some w"
      "ucast (mpIntervalMs (Mppt c)) \<le> now - sinceStep t"
      "mpptTask c meter d now (t, m) = (snd (mpptEvaluate w d now t),
         setModulationIndexTargetQ15 (indexMilliToQ15 (fst (mpptEvaluate w d now t))) m)"
proof -
  have eq: "mpptTask c meter d now (t, m) =
     (if \<not> mpEnabled (Mppt c) \<or> \<not> spwmActive (Tm2 (Pwm c)) then (mpptHold now t, m)
      else case meter of None \<Rightarrow> (mpptHold now t, m)
      | Some w \<Rightarrow> if now - sinceStep t < ucast (mpIntervalMs (Mppt c)) then (t, m)
                 else (snd (mpptEvaluate w d now t),
                       setModulationIndexTargetQ15 (indexMilliToQ15 (fst (mpptEvaluate w d now t))) m))"
    unfolding mpptTask_def prod.case by (simp add: split_def Let_def split: option.split)
  show thesis
  proof (cases "mpEnabled (Mppt c) \<and> spwmActive (Tm2 (Pwm c)) \<and> meter \<noteq> None")
    case True
    then obtain w where w: "meter = Some w" by auto
    show thesis
    proof (cases "now - sinceStep t < ucast (mpIntervalMs (Mppt c))")
      case False
      then show thesis using True w eq by (intro evaluate [of w]) (simp_all add: not_less)
    qed (use True w eq in \<open>intro wait, simp\<close>)
  qed (use eq in \<open>intro hold, auto split: option.split\<close>)
qed

lemma mpptTask_inv:
  assumes "mpptInv (c, t, m)"
  shows "mpptInv (c, mpptTask c meter d now (t, m))"
proof (cases rule: mpptTask_cases [of c meter d now t m])
  case hold
  then show ?thesis using assms by (auto simp: mpptInv_def mpptHold_def trackerOk_def)
next
  case wait
  then show ?thesis using assms by simp
next
  case (evaluate w)
  have p: "paramsOk (params t)" "trackerOk (params t) (st t)"
    using assms evaluate(1) settled_params [of c] by (auto simp: mpptInv_def)
  show ?thesis using assms evaluate(1) mpptEvaluate_ok(1,2) [OF p(2,1), of w d now] setTarget_ok
    by (simp add: evaluate(5) mpptInv_def)
qed

lemma mpptEvent_inv:
  assumes "mpptInv s" "validEvent e"
  shows "mpptInv (mpptEvent unitLut cpuHz clk e s)"
proof -
  obtain c t m where s: "s = (c, t, m)" by (cases s)
  show ?thesis
  proof (cases e)
    case (ApplyConfig c' now)
    then show ?thesis
      using assms mpptConfigure_inv [of c' m now t]
      by (auto simp: s mpptEvent_def applyMppt_def equalMppt_iff mpptInv_def)
  next
    case (RunTask meter d now)
    then show ?thesis using assms mpptTask_inv by (simp add: s mpptEvent_def)
  next
    case (OtherOp oper)
    then show ?thesis using assms modOp_index by (auto simp: s mpptEvent_def mpptInv_def)
  qed
qed


definition mpptRun :: "(byte \<Rightarrow> bool \<Rightarrow> int list) \<Rightarrow> u32 \<Rightarrow> u32 \<Rightarrow> MpptEvent list
    \<Rightarrow> MainConfig \<times> Mppt \<times> Modulator \<Rightarrow> MainConfig \<times> Mppt \<times> Modulator" where
  "mpptRun unitLut cpuHz clk es s = foldl (\<lambda>s e. mpptEvent unitLut cpuHz clk e s) s es"

lemma mpptRun_inv: "mpptInv s \<Longrightarrow> list_all validEvent es \<Longrightarrow> mpptInv (mpptRun unitLut cpuHz clk es s)"
  by (induction es arbitrary: s) (simp_all add: mpptRun_def mpptEvent_inv)



definition exampleMppt :: MainConfig where
  "exampleMppt = defaultConfig\<lparr>Mppt := defaultMppt\<lparr>mpEnabled := True\<rparr>,
     Pwm := (Pwm defaultConfig)\<lparr>Tm2 := (Tm2 (Pwm defaultConfig))\<lparr>UseSpwm := True, ModulationScheme := ModSchemeSpwmUnipolar\<rparr>\<rparr>\<rparr>"

lemma example_settled: "settledFor exampleMppt"
  by (simp add: settledFor_def settledMppt_def exampleMppt_def defaultConfig_def defaultMppt_def defaultFeedback_def
      defaultPwm_def defaultModule2_def Let_def const_defs)

lemma boot_index: "indexOk bootModulator"
  by (simp add: indexOk_def bootModulator_def)


section \<open>What the interface does not keep\<close>

text \<open>The comment of \<open>mpptConfigure\<close> promises that switching tracking off restores the configured index. It does
  when the tracker had moved the index since the last configuration; a change of any tracking setting before that,
  or a meter that was not ready at the last pass, makes it forget, and the output stays where the tracker had left it.\<close>

lemma mppt_hand_back:
  assumes "mpEnabled (Mppt c1)" "\<not> mpEnabled (Mppt c2)"
  shows "stepping t \<Longrightarrow> snd (mpptConfigure c2 now (t, m))
       = setModulationIndexTargetQ15 (indexMilliToQ15 (configuredIndex c2)) m"
    "snd (mpptConfigure c2 now2 (mpptConfigure c1 now1 (t, m))) = m"
    "spwmActive (Tm2 (Pwm c1)) \<Longrightarrow> snd (mpptConfigure c2 now2 (mpptTask c1 None d now1 (t, m))) = m"
  using assms by (simp_all add: mpptConfigure_def mpptTask_def mpptHold_def Let_def)

text \<open>Validation has no upper bound for the restart threshold, and a value of 2 ^ 31 or more is negative in the
  comparison: every evaluation then restarts the tracker, so it never refines its step.\<close>

lemma huge_restart_threshold:
  "sint (restartDeltaMw p) < 0 \<Longrightarrow> judge p w s = onRestart p (w - prevPowerMw s) (s\<lparr>prevPowerMw := w\<rparr>)"
  by (auto simp: judge_def Let_def)

end
