(* ===== verification/Acmp.thy ===== *)
theory Acmp
  imports Pwm_Protection Config_Validate
begin

unbundle bit_operations_syntax

text \<open>
  \<open>src/src/acmp_math.h\<close> and \<open>src/src/acmp.cpp\<close>: the hardware over-current trip. The sensor pin feeds a comparator,
  whose output two crossbar selectors carry to fault input 0 of FlexPWM1 and FlexPWM2, which switch the
  outputs off without software. \<open>acmpConfigure\<close> builds this path and reads it back; \<open>Pwm_Protection\<close>
  sees only what it reports.

  Registers are reached through a record of the two accesses, a read and a write, on an abstract
  device: what a write leaves in a register is the device's business, which is why the code reads back. The
  locales say what it relies on. The fields of the fault status register are those of the chip's
  manual: FFLAG in bits 0 to 3, cleared by writing ones, FFULL in 4 to 7, FFPIN in 8 to 11, FHALF in 12 to 15.
  The effects on the outputs and on the interrupt controller are those of \<open>Pwm_Protection\<close>. Clock gates, the
  pad's keeper, the interrupt vector, the delay and the log lines are left out.
\<close>

section \<open>Tables and codes\<close>

record AcmpPwmTarget =
  tgModule :: byte
  submoduleMask :: byte
  xbarFault0Output :: byte
  irqOwner :: bool

definition AcmpPwmTargets :: "AcmpPwmTarget list" where
  "AcmpPwmTargets =
     [\<lparr>tgModule = 1, submoduleMask = 0x08, xbarFault0Output = 35, irqOwner = False\<rparr>,
      \<lparr>tgModule = 2, submoduleMask = 0x0F, xbarFault0Output = 49, irqOwner = True\<rparr>]"

definition AcmpFault0DisA :: u16 where [const_defs]: "AcmpFault0DisA = 0x0001"
definition AcmpFault0DisB :: u16 where [const_defs]: "AcmpFault0DisB = 0x0010"
definition AcmpFault0DisX :: u16 where [const_defs]: "AcmpFault0DisX = 0x0100"

definition acmpMapFault0ToAb :: "u16 \<Rightarrow> u16" where
  "acmpMapFault0ToAb dismap = ((dismap AND NOT AcmpFault0DisX) OR AcmpFault0DisA) OR AcmpFault0DisB"

definition AcmpFault0Fie :: u16 where [const_defs]: "AcmpFault0Fie = 0x0001"
definition AcmpFault0Fsafe :: u16 where [const_defs]: "AcmpFault0Fsafe = 0x0010"
definition AcmpFault0Fauto :: u16 where [const_defs]: "AcmpFault0Fauto = 0x0100"
definition AcmpFault0Flvl :: u16 where [const_defs]: "AcmpFault0Flvl = 0x1000"
definition AcmpFault0ControlMask :: u16 where
  "AcmpFault0ControlMask = ((AcmpFault0Fie OR AcmpFault0Fsafe) OR AcmpFault0Fauto) OR AcmpFault0Flvl"

definition AcmpFaultGlitchStretch :: u16 where [const_defs]: "AcmpFaultGlitchStretch = 0x8000"

definition acmpFaultFilterAvailable :: "u16 \<Rightarrow> bool" where
  "acmpFaultFilterAvailable current \<longleftrightarrow> current AND NOT AcmpFaultGlitchStretch = 0"

definition acmpFaultFilterWithGlitchStretch :: "u16 \<Rightarrow> u16" where
  "acmpFaultFilterWithGlitchStretch current = current OR AcmpFaultGlitchStretch"

definition acmpFault0Control :: "u16 \<Rightarrow> bool \<Rightarrow> bool \<Rightarrow> u16" where
  "acmpFault0Control current cycleByCycle interruptOwner =
     (let current = (current AND NOT AcmpFault0ControlMask) OR AcmpFault0Flvl in
      if cycleByCycle then current OR AcmpFault0Fauto
      else (current OR AcmpFault0Fsafe) OR (if interruptOwner then AcmpFault0Fie else 0))"

definition acmpXbarInputForCmp :: "byte \<Rightarrow> byte" where
  "acmpXbarInputForCmp c = 25 + c"

definition AcmpDacVinMv :: u16 where [const_defs]: "AcmpDacVinMv = 3300"

definition acmpThresholdToDacCode :: "u16 \<Rightarrow> u16 \<Rightarrow> byte" where
  "acmpThresholdToDacCode thresholdMv vinMv =
     (if vinMv = 0 then 0
      else let code = (uint thresholdMv * 64 + uint vinMv div 2) div uint vinMv - 1 in
        if code < 0 then 0 else if code > 63 then 63 else word_of_int code)"

definition acmpDacCodeToMv :: "byte \<Rightarrow> u16 \<Rightarrow> u16" where
  "acmpDacCodeToMv code vinMv =
     (let code = (if code > 63 then 63 else code) in ucast ((ucast code + 1) * ucast vinMv div 64 :: u32))"

definition acmpFilterGlitchNanos :: "byte \<Rightarrow> byte \<Rightarrow> u32 \<Rightarrow> u32" where
  "acmpFilterGlitchNanos filterCount filterPeriod busHz =
     (if filterCount = 0 \<or> filterPeriod = 0 \<or> busHz = 0 then 0
      else ucast (ucast filterCount * ucast filterPeriod * 1000000000 div ucast busHz :: u64))"

section \<open>Registers\<close>

datatype Reg = FSTS0 byte | FCTRL0 byte | FFILT0 byte | FCTRL20 byte | DISMAP0 byte nat | XbarSel nat
  | CmpCR0 byte | CmpCR1 byte | CmpFPR byte | CmpSCR byte | CmpDACCR byte | CmpMUXCR byte

record 'h Regs =
  rd :: "'h \<Rightarrow> Reg \<Rightarrow> u16"
  wr :: "Reg \<Rightarrow> u16 \<Rightarrow> 'h \<Rightarrow> 'h"

definition RecoveryMask :: u16 where [const_defs]: "RecoveryMask = 0x1010"
definition FaultFlag0 :: u16 where [const_defs]: "FaultFlag0 = 0x0001"
definition FaultPin0 :: u16 where [const_defs]: "FaultPin0 = 0x0100"
definition FlagNibble :: u16 where [const_defs]: "FlagNibble = 0x000F"

definition writeFsts :: "'h Regs \<Rightarrow> byte \<Rightarrow> u16 \<Rightarrow> u16 \<Rightarrow> 'h \<Rightarrow> 'h" where
  "writeFsts R m recoveryBits clearFlags h =
     (let s = rd R h (FSTS0 m); s = s AND NOT FlagNibble; s = s AND NOT RecoveryMask;
          s = s OR (recoveryBits OR (clearFlags AND FlagNibble))
      in wr R (FSTS0 m) s h)"

definition xbarSelectionMatches :: "'h Regs \<Rightarrow> byte \<Rightarrow> byte \<Rightarrow> 'h \<Rightarrow> bool" where
  "xbarSelectionMatches R input output h \<longleftrightarrow>
     (if input \<ge> 88 \<or> output \<ge> 132 then False
      else let value = rd R h (XbarSel (unat output div 2));
               selected = (if odd output then ucast (drop_bit 8 value AND 0x7F) else ucast (value AND 0x7F))
        in selected = input)"

definition xbarConnect :: "'h Regs \<Rightarrow> byte \<Rightarrow> byte \<Rightarrow> 'h \<Rightarrow> bool \<times> 'h" where
  "xbarConnect R input output h =
     (if input \<ge> 88 \<or> output \<ge> 132 then (False, h)
      else let reg = XbarSel (unat output div 2); val = rd R h reg;
               val = (if odd output then (val AND 0x00FF) OR push_bit 8 (ucast input)
                      else (val AND 0xFF00) OR ucast input)
        in (True, wr R reg val h))"

definition connectXbarVerified :: "'h Regs \<Rightarrow> byte \<Rightarrow> byte \<Rightarrow> 'h \<Rightarrow> bool \<times> 'h" where
  "connectXbarVerified R input output h =
     (let (ok, h) = xbarConnect R input output h in
      if \<not> ok then (False, h) else (xbarSelectionMatches R input output h, h))"

text \<open>Both selectors are always written, whatever the first read-back says.\<close>

definition connectAll :: "'h Regs \<Rightarrow> byte \<Rightarrow> 'h \<Rightarrow> bool \<times> 'h" where
  "connectAll R input h =
     foldl (\<lambda>(ok, h) target. let (connected, h) = connectXbarVerified R input (xbarFault0Output target) h
        in (connected \<and> ok, h)) (True, h) AcmpPwmTargets"

definition XBARA1_IN_LOGIC_LOW :: byte where [const_defs]: "XBARA1_IN_LOGIC_LOW = 0"

definition parkFaultRoutes :: "'h Regs \<Rightarrow> 'h \<Rightarrow> bool \<times> 'h" where
  "parkFaultRoutes R h = connectAll R XBARA1_IN_LOGIC_LOW h"

definition prepareParkedFaultControls :: "'h Regs \<Rightarrow> 'h \<Rightarrow> 'h" where
  "prepareParkedFaultControls R h =
     foldl (\<lambda>h target. wr R (FCTRL0 (tgModule target))
        ((rd R h (FCTRL0 (tgModule target)) OR AcmpFault0Flvl) AND NOT AcmpFault0Fie) h) h AcmpPwmTargets"

definition parkedFaultControlsMatch :: "'h Regs \<Rightarrow> 'h \<Rightarrow> bool" where
  "parkedFaultControlsMatch R h \<longleftrightarrow>
     rd R h (FCTRL0 1) AND (AcmpFault0Flvl OR AcmpFault0Fie) = AcmpFault0Flvl
     \<and> rd R h (FCTRL0 2) AND (AcmpFault0Flvl OR AcmpFault0Fie) = AcmpFault0Flvl"

definition recoveryBits :: "bool \<Rightarrow> u16" where
  "recoveryBits cycleByCycle = (if cycleByCycle then 0x1010 else 0x0010)"

definition Fault0MapMask :: u16 where
  "Fault0MapMask = (AcmpFault0DisA OR AcmpFault0DisB) OR AcmpFault0DisX"

definition ExpectedFault0Map :: u16 where
  "ExpectedFault0Map = AcmpFault0DisA OR AcmpFault0DisB"

primrec mapSubmodules :: "'h Regs \<Rightarrow> AcmpPwmTarget \<Rightarrow> nat list \<Rightarrow> 'h \<Rightarrow> bool \<times> 'h" where
  "mapSubmodules R target [] h = (True, h)"
| "mapSubmodules R target (sm # sms) h =
     (let reg = DISMAP0 (tgModule target) sm in
      if \<not> bit (submoduleMask target) sm
      then if rd R h reg AND Fault0MapMask \<noteq> 0 then (False, h) else mapSubmodules R target sms h
      else mapSubmodules R target sms (wr R reg (acmpMapFault0ToAb (rd R h reg)) h))"

definition targetReadsBack :: "'h Regs \<Rightarrow> AcmpPwmTarget \<Rightarrow> bool \<Rightarrow> 'h \<Rightarrow> bool" where
  "targetReadsBack R target cycleByCycle h \<longleftrightarrow>
     (let m = tgModule target in
      rd R h (FFILT0 m) AND AcmpFaultGlitchStretch \<noteq> 0 \<and> acmpFaultFilterAvailable (rd R h (FFILT0 m))
      \<and> rd R h (FCTRL20 m) AND 0x0001 = 0
      \<and> rd R h (FCTRL0 m) AND AcmpFault0ControlMask
          = acmpFault0Control 0 cycleByCycle (irqOwner target \<and> \<not> cycleByCycle)
      \<and> rd R h (FSTS0 m) AND RecoveryMask = recoveryBits cycleByCycle
      \<and> (\<forall>sm < 4. bit (submoduleMask target) sm \<longrightarrow> rd R h (DISMAP0 m sm) AND Fault0MapMask = ExpectedFault0Map))"

definition configureFaultTarget :: "'h Regs \<Rightarrow> AcmpPwmTarget \<Rightarrow> bool \<Rightarrow> 'h \<Rightarrow> bool \<times> 'h" where
  "configureFaultTarget R target cycleByCycle h =
     (let m = tgModule target; faultFilter = rd R h (FFILT0 m) in
      if \<not> acmpFaultFilterAvailable faultFilter then (False, h)
      else let h = wr R (FFILT0 m) (acmpFaultFilterWithGlitchStretch faultFilter) h;
               (ok, h) = mapSubmodules R target [0..<4] h in
        if \<not> ok then (False, h)
        else let h = wr R (FCTRL20 m) (rd R h (FCTRL20 m) AND NOT 0x0001) h;
                 h = wr R (FCTRL0 m) (acmpFault0Control (rd R h (FCTRL0 m)) cycleByCycle
                        (irqOwner target \<and> \<not> cycleByCycle)) h;
                 h = writeFsts R m (recoveryBits cycleByCycle) 0x1 h
          in (targetReadsBack R target cycleByCycle h, h))"

definition configureTargets :: "'h Regs \<Rightarrow> bool \<Rightarrow> 'h \<Rightarrow> bool \<times> 'h" where
  "configureTargets R cycleByCycle h =
     foldl (\<lambda>(ok, h) target. let (configured, h) = configureFaultTarget R target cycleByCycle h
        in (configured \<and> ok, h)) (True, h) AcmpPwmTargets"

section \<open>Configuration\<close>

record 'h Acmp =
  hw :: 'h
  vCbcEnabled :: bool
  vLatchedArmed :: bool
  vProtectionReady :: bool
  vCbcTrips :: u32
  tripsAtLastSecond :: u32
  tripsPerSec :: u32
  activeCmp :: byte
  actualThresholdMv :: u16
  faultIrqPending :: bool
  sinceRate :: u32
  pwm :: Pwm

definition acmpFaultPinActive :: "'h Regs \<Rightarrow> 'h Acmp \<Rightarrow> bool" where
  "acmpFaultPinActive R s \<longleftrightarrow> activeCmp s \<noteq> 0
     \<and> (rd R (hw s) (FSTS0 1) OR rd R (hw s) (FSTS0 2)) AND FaultPin0 \<noteq> 0"

definition acmpFaultLatched :: "'h Regs \<Rightarrow> 'h Acmp \<Rightarrow> bool" where
  "acmpFaultLatched R s \<longleftrightarrow> activeCmp s \<noteq> 0 \<and> vLatchedArmed s
     \<and> (rd R (hw s) (FSTS0 1) OR rd R (hw s) (FSTS0 2)) AND FaultFlag0 \<noteq> 0"

definition disableActiveComparator :: "'h Regs \<Rightarrow> 'h Acmp \<Rightarrow> 'h Acmp" where
  "disableActiveComparator R s =
     (if activeCmp s \<noteq> 0 then s\<lparr>hw := wr R (CmpCR1 (activeCmp s)) 0 (hw s), activeCmp := 0\<rparr> else s)"

definition disarm :: "'h Acmp \<Rightarrow> 'h Acmp" where
  "disarm s = s\<lparr>vCbcEnabled := False, vLatchedArmed := False, vProtectionReady := False,
     pwm := (pwm s)\<lparr>faultIrq := False\<rparr>\<rparr>"

definition failArm :: "'h Regs \<Rightarrow> 'h Acmp \<Rightarrow> 'h Acmp" where
  "failArm R s =
     (let s = disableActiveComparator R (disarm s);
          h = snd (parkFaultRoutes R (prepareParkedFaultControls R (hw s)))
      in s\<lparr>hw := h, pwm := (maskAllOutputsSafely (pwm s))\<lparr>vFaultTripped := True\<rparr>\<rparr>)"

text \<open>Fault flag 0 of both modules is cleared and full-cycle recovery selected.\<close>

definition clearFlags :: "'h Regs \<Rightarrow> 'h \<Rightarrow> 'h" where
  "clearFlags R h = writeFsts R 2 0x0010 0x1 (writeFsts R 1 0x0010 0x1 h)"

definition comparatorRegs :: "'h Regs \<Rightarrow> CurrentLimitConfig \<Rightarrow> AcmpRoute \<Rightarrow> byte \<Rightarrow> 'h \<Rightarrow> 'h" where
  "comparatorRegs R cl route code h =
     (let c = cmp route; h = wr R (CmpCR1 c) 0 h; h = wr R (CmpCR0 c) 0 h; h = wr R (CmpFPR c) 0 h;
          h = wr R (CmpDACCR c) (ucast (0x80 OR code)) h;
          h = wr R (CmpMUXCR c) (ucast (push_bit 3 (psel route) OR 0x07)) h;
          filtCnt = FilterCount cl AND 0x07; filtPer = FilterPeriod cl;
          h = wr R (CmpFPR c) (ucast filtPer) h;
          h = wr R (CmpCR0 c) (ucast (push_bit 4 (if filtPer \<noteq> 0 then filtCnt else 0) OR 0x01)) h;
          h = wr R (CmpCR1 c) 0x11 h
      in wr R (CmpSCR c) 0x06 h)"

definition programComparator :: "'h Regs \<Rightarrow> CurrentLimitConfig \<Rightarrow> AcmpRoute \<Rightarrow> 'h Acmp \<Rightarrow> 'h Acmp" where
  "programComparator R cl route s =
     (let code = acmpThresholdToDacCode (ThresholdMillivolts cl) AcmpDacVinMv in
      s\<lparr>hw := comparatorRegs R cl route code (hw s), activeCmp := cmp route,
        actualThresholdMv := acmpDacCodeToMv code AcmpDacVinMv\<rparr>)"

definition armed :: "'h Regs \<Rightarrow> bool \<Rightarrow> 'h Acmp \<Rightarrow> 'h Acmp" where
  "armed R cycleByCycle s =
     (let s = s\<lparr>vLatchedArmed := \<not> cycleByCycle, vCbcEnabled := cycleByCycle, vProtectionReady := True, vCbcTrips := 0,
                tripsAtLastSecond := 0, tripsPerSec := 0\<rparr> in
      if \<not> vLatchedArmed s then s
      else if acmpFaultLatched R s
        then s\<lparr>pwm := (maskAllOutputsSafely ((pwm s)\<lparr>vFaultTripped := True\<rparr>))\<lparr>moduleIrq := False\<rparr>\<rparr>
      else s\<lparr>pwm := (pwm s)\<lparr>faultIrq := True\<rparr>\<rparr>)"

text \<open>\<open>sm13\<close> is the output control register of the harness submodule, whose fault state is checked too.\<close>

definition acmpArm :: "'h Regs \<Rightarrow> u16 \<Rightarrow> CurrentLimitConfig \<Rightarrow> 'h Acmp \<Rightarrow> 'h Acmp" where
  "acmpArm R sm13 cl s =
     (let route = acmpRouteForPin (clPin cl) in
      if cmp route = 0 then failArm R s
      else let (configured, h) = configureTargets R (CycleByCycle cl) (hw s); s = s\<lparr>hw := h\<rparr> in
        if \<not> configured
           \<or> \<not> pwmFaultStatesSafeForConfiguredPolarity sm13 (vInvertedCellMask (pwm s)) (octrl (pwm s))
        then failArm R s
        else let s = programComparator R cl route s;
                 (routed, h) = connectAll R (acmpXbarInputForCmp (cmp route)) (hw s); s = s\<lparr>hw := h\<rparr> in
          if \<not> routed then failArm R s else armed R (CycleByCycle cl) s)"

definition acmpConfigure :: "'h Regs \<Rightarrow> u16 \<Rightarrow> CurrentLimitConfig \<Rightarrow> 'h Acmp \<Rightarrow> 'h Acmp" where
  "acmpConfigure R sm13 cl s =
     (let s = disableActiveComparator R (disarm s);
          (parked, h) = parkFaultRoutes R (prepareParkedFaultControls R (hw s));
          h = clearFlags R h; s = s\<lparr>hw := h, faultIrqPending := False\<rparr>;
          recoveryReady = (rd R h (FSTS0 1) AND RecoveryMask = 0x0010 \<and> rd R h (FSTS0 2) AND RecoveryMask = 0x0010) in
      if \<not> parked \<or> \<not> parkedFaultControlsMatch R h \<or> \<not> recoveryReady then failArm R s
      else if \<not> clEnabled cl then s\<lparr>vProtectionReady := True\<rparr>
      else acmpArm R sm13 cl s)"

section \<open>At run time\<close>

definition clearFlag :: "'h Regs \<Rightarrow> byte \<Rightarrow> u16 \<Rightarrow> 'h \<Rightarrow> 'h" where
  "clearFlag R m s h = (if s AND FaultFlag0 \<noteq> 0 then wr R (FSTS0 m) ((s AND NOT FlagNibble) OR FaultFlag0) h else h)"

definition acmpCbcTick :: "'h Regs \<Rightarrow> 'h Acmp \<Rightarrow> 'h Acmp" where
  "acmpCbcTick R s =
     (if \<not> vCbcEnabled s then s
      else let s1 = rd R (hw s) (FSTS0 1); s2 = rd R (hw s) (FSTS0 2) in
        if (s1 OR s2) AND FaultFlag0 = 0 then s
        else s\<lparr>vCbcTrips := vCbcTrips s + 1, hw := clearFlag R 2 s2 (clearFlag R 1 s1 (hw s))\<rparr>)"

definition acmpTask :: "u32 \<Rightarrow> 'h Acmp \<Rightarrow> 'h Acmp" where
  "acmpTask now s =
     (if \<not> vCbcEnabled s then s
      else if now - sinceRate s \<ge> 1000
        then s\<lparr>sinceRate := now, tripsPerSec := vCbcTrips s - tripsAtLastSecond s, tripsAtLastSecond := vCbcTrips s\<rparr>
      else s)"

definition acmpClearLatch :: "'h Regs \<Rightarrow> 'h Acmp \<Rightarrow> 'h Acmp" where
  "acmpClearLatch R s =
     (if \<not> vLatchedArmed s then s else s\<lparr>hw := clearFlags R (hw s), faultIrqPending := False\<rparr>)"

definition acmpRearmFaultIrq :: "'h Acmp \<Rightarrow> 'h Acmp" where
  "acmpRearmFaultIrq s = (if vLatchedArmed s then s\<lparr>pwm := (pwm s)\<lparr>faultIrq := True\<rparr>\<rparr> else s)"

definition acmpActualThresholdMv :: "'h Acmp \<Rightarrow> u16" where
  "acmpActualThresholdMv s = (if activeCmp s \<noteq> 0 then actualThresholdMv s else 0)"


section \<open>What the code relies on of the registers\<close>

text \<open>What stays in a register until it is written: everything but the flags and pin levels of the status registers.\<close>

definition stable :: "'h Regs \<Rightarrow> 'h \<Rightarrow> Reg \<Rightarrow> u16" where
  "stable R h r = (case r of FSTS0 m \<Rightarrow> rd R h r AND RecoveryMask | _ \<Rightarrow> rd R h r)"

lemma stable_simps [simp]:
  "stable R h (FSTS0 m) = rd R h (FSTS0 m) AND RecoveryMask" "stable R h (FCTRL0 m) = rd R h (FCTRL0 m)"
  "stable R h (FFILT0 m) = rd R h (FFILT0 m)" "stable R h (FCTRL20 m) = rd R h (FCTRL20 m)"
  "stable R h (DISMAP0 m sm) = rd R h (DISMAP0 m sm)" "stable R h (XbarSel i) = rd R h (XbarSel i)"
  "stable R h (CmpCR0 c) = rd R h (CmpCR0 c)" "stable R h (CmpCR1 c) = rd R h (CmpCR1 c)"
  "stable R h (CmpFPR c) = rd R h (CmpFPR c)" "stable R h (CmpSCR c) = rd R h (CmpSCR c)"
  "stable R h (CmpDACCR c) = rd R h (CmpDACCR c)" "stable R h (CmpMUXCR c) = rd R h (CmpMUXCR c)"
  by (simp_all add: stable_def)

text \<open>A write may go wrong, but it changes no other register.\<close>

locale register_file =
  fixes R :: "'h Regs"
  assumes frame: "r' \<noteq> r \<Longrightarrow> stable R (wr R r v h) r' = stable R h r'"

definition untouched :: "'h Regs \<Rightarrow> Reg set \<Rightarrow> 'h \<Rightarrow> 'h \<Rightarrow> bool" where
  "untouched R S h h' \<longleftrightarrow> (\<forall>r. r \<notin> S \<longrightarrow> stable R h' r = stable R h r)"

lemma untouchedD: "untouched R S h h' \<Longrightarrow> r \<notin> S \<Longrightarrow> stable R h' r = stable R h r"
  by (simp add: untouched_def)

lemma untouched_refl [simp]: "untouched R S h h"
  by (simp add: untouched_def)

lemma untouched_trans: "untouched R S h h' \<Longrightarrow> untouched R S h' h'' \<Longrightarrow> untouched R S h h''"
  by (simp add: untouched_def)

lemma untouched_mono: "untouched R S h h' \<Longrightarrow> S \<subseteq> T \<Longrightarrow> untouched R T h h'"
  by (auto simp: untouched_def)

definition pwmRegs :: "byte \<Rightarrow> Reg set" where
  "pwmRegs m = {FFILT0 m, FCTRL20 m, FCTRL0 m, FSTS0 m} \<union> range (DISMAP0 m)"

definition cmpRegs :: "byte \<Rightarrow> Reg set" where
  "cmpRegs c = {CmpCR0 c, CmpCR1 c, CmpFPR c, CmpSCR c, CmpDACCR c, CmpMUXCR c}"

lemma not_selector [simp]:
  "FSTS0 m \<notin> range XbarSel" "FCTRL0 m \<notin> range XbarSel" "FFILT0 m \<notin> range XbarSel" "FCTRL20 m \<notin> range XbarSel"
  "DISMAP0 m sm \<notin> range XbarSel" "CmpCR1 m \<notin> range XbarSel" "CmpMUXCR m \<notin> range XbarSel"
  "CmpDACCR m \<notin> range XbarSel"
  by auto

lemma targetReadsBack_cong:
  assumes "untouched R S h h'" "pwmRegs (tgModule target) \<inter> S = {}"
  shows "targetReadsBack R target c h' = targetReadsBack R target c h"
proof -
  let ?m = "tgModule target"
  have s: "stable R h' r = stable R h r" if "r \<in> pwmRegs ?m" for r
    using assms that by (auto simp: untouched_def)
  have "rd R h' (FFILT0 ?m) = rd R h (FFILT0 ?m)" "rd R h' (FCTRL20 ?m) = rd R h (FCTRL20 ?m)"
    "rd R h' (FCTRL0 ?m) = rd R h (FCTRL0 ?m)" "rd R h' (FSTS0 ?m) AND RecoveryMask = rd R h (FSTS0 ?m) AND RecoveryMask"
    "rd R h' (DISMAP0 ?m sm) = rd R h (DISMAP0 ?m sm)" for sm
    using s [of "FFILT0 ?m"] s [of "FCTRL20 ?m"] s [of "FCTRL0 ?m"] s [of "FSTS0 ?m"] s [of "DISMAP0 ?m sm"]
    by (simp_all add: pwmRegs_def)
  then show ?thesis by (simp add: targetReadsBack_def Let_def)
qed

lemma xbarMatches_cong:
  "untouched R S h h' \<Longrightarrow> XbarSel (unat output div 2) \<notin> S
    \<Longrightarrow> xbarSelectionMatches R input output h' = xbarSelectionMatches R input output h"
  using untouchedD [of R S h h' "XbarSel (unat output div 2)"] by (simp add: xbarSelectionMatches_def)

definition unmapped :: "'h Regs \<Rightarrow> AcmpPwmTarget \<Rightarrow> 'h \<Rightarrow> bool" where
  "unmapped R target h \<longleftrightarrow>
     (\<forall>sm < 4. \<not> bit (submoduleMask target) sm \<longrightarrow> rd R h (DISMAP0 (tgModule target) sm) AND Fault0MapMask = 0)"

lemma unmapped_cong:
  "untouched R S h h' \<Longrightarrow> pwmRegs (tgModule target) \<inter> S = {} \<Longrightarrow> unmapped R target h' = unmapped R target h"
proof -
  assume a: "untouched R S h h'" "pwmRegs (tgModule target) \<inter> S = {}"
  have "rd R h' (DISMAP0 (tgModule target) sm) = rd R h (DISMAP0 (tgModule target) sm)" for sm
    using untouchedD [OF a(1), of "DISMAP0 (tgModule target) sm"] a(2) by (auto simp: pwmRegs_def)
  then show "unmapped R target h' = unmapped R target h" by (simp add: unmapped_def)
qed

context register_file
begin

lemma wr_untouched: "r \<in> S \<Longrightarrow> untouched R S h (wr R r v h)"
  unfolding untouched_def using frame by metis

lemma writeFsts_untouched: "FSTS0 m \<in> S \<Longrightarrow> untouched R S h (writeFsts R m x y h)"
  by (simp add: writeFsts_def Let_def wr_untouched)

lemma connect_untouched:
  "XbarSel (unat output div 2) \<in> S \<Longrightarrow> untouched R S h (snd (connectXbarVerified R input output h))"
  by (simp add: connectXbarVerified_def xbarConnect_def Let_def wr_untouched)

lemma connectAll_untouched: "untouched R (range XbarSel) h (snd (connectAll R input h))"
  unfolding connectAll_def AcmpPwmTargets_def
  by (simp add: split_def Let_def untouched_trans [OF connect_untouched connect_untouched])

lemma connectAll_matches:
  assumes "connectAll R input h = (True, h')" "target \<in> set AcmpPwmTargets"
  shows "xbarSelectionMatches R input (xbarFault0Output target) h'"
proof -
  define a where "a = connectXbarVerified R input 35 h"
  define b where "b = connectXbarVerified R input 49 (snd a)"
  have e: "fst a" "fst b" "h' = snd b"
    using assms(1) unfolding connectAll_def AcmpPwmTargets_def
    by (simp_all add: split_def Let_def flip: a_def b_def)
  have m: "fst (connectXbarVerified R input p g) \<Longrightarrow> xbarSelectionMatches R input p (snd (connectXbarVerified R input p g))"
    for p g by (simp add: connectXbarVerified_def split_def Let_def split: if_splits)
  have "untouched R {XbarSel 24} (snd a) h'" unfolding e(3) b_def by (rule connect_untouched) simp
  then have "xbarSelectionMatches R input 35 h' = xbarSelectionMatches R input 35 (snd a)"
    by (rule xbarMatches_cong) simp
  moreover have "xbarSelectionMatches R input 35 (snd a)" using m e(1) by (simp add: a_def)
  moreover have "xbarSelectionMatches R input 49 h'" using m e(2,3) by (simp add: b_def)
  ultimately show ?thesis using assms(2) by (auto simp: AcmpPwmTargets_def)
qed

lemma mapSubmodules_untouched:
  "untouched R (DISMAP0 (tgModule target) ` {sm. bit (submoduleMask target) sm}) h (snd (mapSubmodules R target sms h))"
proof (induction sms arbitrary: h)
  case (Cons sm sms)
  show ?case
    using Cons [of h] untouched_trans [OF wr_untouched Cons, of "DISMAP0 (tgModule target) sm"] by (simp add: Let_def)
qed simp

lemma mapSubmodules_unmapped:
  assumes "mapSubmodules R target sms h = (True, h')" "sm \<in> set sms" "\<not> bit (submoduleMask target) sm"
  shows "rd R h' (DISMAP0 (tgModule target) sm) AND Fault0MapMask = 0"
proof -
  have "rd R h (DISMAP0 (tgModule target) sm) AND Fault0MapMask = 0"
    if "fst (mapSubmodules R target sms h)" "sm \<in> set sms" for h
    using that
  proof (induction sms arbitrary: h)
    case (Cons a sms)
    let ?g = "wr R (DISMAP0 (tgModule target) a) (acmpMapFault0ToAb (rd R h (DISMAP0 (tgModule target) a))) h"
    show ?case
    proof (cases "a = sm")
      case True
      then show ?thesis using Cons(2) assms(3) by (simp add: Let_def split: if_splits)
    next
      case False
      then have "rd R ?g (DISMAP0 (tgModule target) sm) = rd R h (DISMAP0 (tgModule target) sm)"
        using frame [of "DISMAP0 (tgModule target) sm" "DISMAP0 (tgModule target) a"] by simp
      then show ?thesis using Cons.IH [of h] Cons.IH [of ?g] Cons(2,3) False by (simp add: Let_def split: if_splits)
    qed
  qed simp
  then have "rd R h (DISMAP0 (tgModule target) sm) AND Fault0MapMask = 0" using assms by simp
  moreover have "stable R h' (DISMAP0 (tgModule target) sm) = stable R h (DISMAP0 (tgModule target) sm)"
    using mapSubmodules_untouched [of target h sms] assms(1,3) by (auto simp: untouched_def)
  ultimately show ?thesis by simp
qed

end


context register_file
begin

lemma configureFaultTarget_untouched:
  "untouched R (pwmRegs (tgModule target)) h (snd (configureFaultTarget R target c h))"
proof -
  let ?m = "tgModule target" and ?S = "pwmRegs (tgModule target)"
  have in_S: "FFILT0 ?m \<in> ?S" "FCTRL20 ?m \<in> ?S" "FCTRL0 ?m \<in> ?S" "FSTS0 ?m \<in> ?S"
    "DISMAP0 ?m ` {sm. bit (submoduleMask target) sm} \<subseteq> ?S" by (auto simp: pwmRegs_def)
  have map: "untouched R ?S h (snd (mapSubmodules R target sms h))" for sms h
    by (rule untouched_mono [OF mapSubmodules_untouched in_S(5)])
  note w = in_S(1-4) [THEN wr_untouched] writeFsts_untouched [OF in_S(4)]
  show ?thesis
    unfolding configureFaultTarget_def Let_def split_def
    by (simp add: w map untouched_trans [OF _ map] untouched_trans [OF _ w(2)] untouched_trans [OF _ w(3)]
        untouched_trans [OF _ w(5)])
qed

lemma configureFaultTarget_ok:
  assumes "configureFaultTarget R target c h = (True, h')"
  shows "targetReadsBack R target c h'" "unmapped R target h'"
proof -
  let ?m = "tgModule target"
  define a where "a = wr R (FFILT0 ?m) (acmpFaultFilterWithGlitchStretch (rd R h (FFILT0 ?m))) h"
  obtain ok b where b: "mapSubmodules R target [0..<4] a = (ok, b)" by (rule prod.exhaust)
  define d where "d = wr R (FCTRL20 ?m) (rd R b (FCTRL20 ?m) AND NOT 0x0001) b"
  define e where "e = wr R (FCTRL0 ?m) (acmpFault0Control (rd R d (FCTRL0 ?m)) c (irqOwner target \<and> \<not> c)) d"
  have r: ok "h' = writeFsts R ?m (recoveryBits c) 0x1 e" "targetReadsBack R target c h'"
  proof -
    have "configureFaultTarget R target c h =
        (if \<not> acmpFaultFilterAvailable (rd R h (FFILT0 ?m)) then (False, h) else if \<not> ok then (False, b)
         else (targetReadsBack R target c (writeFsts R ?m (recoveryBits c) 0x1 e), writeFsts R ?m (recoveryBits c) 0x1 e))"
      by (simp only: configureFaultTarget_def Let_def a_def [symmetric] b prod.case d_def [symmetric] e_def [symmetric])
    then show ok "h' = writeFsts R ?m (recoveryBits c) 0x1 e" "targetReadsBack R target c h'"
      using assms by (auto split: if_splits)
  qed
  then show "targetReadsBack R target c h'" by simp
  let ?S = "{FCTRL20 ?m, FCTRL0 ?m, FSTS0 ?m}"
  have "untouched R ?S b d" unfolding d_def by (rule wr_untouched) simp
  moreover have "untouched R ?S d e" unfolding e_def by (rule wr_untouched) simp
  moreover have "untouched R ?S e h'" unfolding r(2) by (rule writeFsts_untouched) simp
  ultimately have "untouched R ?S b h'" by (blast intro: untouched_trans)
  then have "rd R h' (DISMAP0 ?m sm) = rd R b (DISMAP0 ?m sm)" for sm
    using untouchedD [of R _ b h' "DISMAP0 ?m sm"] by auto
  then show "unmapped R target h'"
    using mapSubmodules_unmapped [OF b [unfolded r(1) [THEN eqTrueI]]] by (simp add: unmapped_def)
qed

lemma configureTargets_ok:
  assumes "configureTargets R c h = (True, h')" "target \<in> set AcmpPwmTargets"
  shows "targetReadsBack R target c h'" "unmapped R target h'"
proof -
  let ?t1 = "\<lparr>tgModule = 1, submoduleMask = 0x08, xbarFault0Output = 35, irqOwner = False\<rparr>"
  let ?t2 = "\<lparr>tgModule = 2, submoduleMask = 0x0F, xbarFault0Output = 49, irqOwner = True\<rparr>"
  obtain a g where g: "configureFaultTarget R ?t1 c h = (a, g)" by (rule prod.exhaust)
  obtain b g' where g': "configureFaultTarget R ?t2 c g = (b, g')" by (rule prod.exhaust)
  have e: a b "g' = h'"
    using assms(1) unfolding configureTargets_def AcmpPwmTargets_def by (simp_all add: split_def Let_def g g')
  have u: "untouched R (pwmRegs 2) g h'" using configureFaultTarget_untouched [of ?t2 g c] by (simp add: g' e(3))
  have d: "pwmRegs (tgModule ?t1) \<inter> pwmRegs 2 = {}" by (auto simp: pwmRegs_def)
  have "targetReadsBack R ?t1 c h'" "unmapped R ?t1 h'"
    using configureFaultTarget_ok [OF g [unfolded e(1) [THEN eqTrueI]]] targetReadsBack_cong [OF u d] unmapped_cong [OF u d]
    by auto
  moreover have "targetReadsBack R ?t2 c h'" "unmapped R ?t2 h'"
    using configureFaultTarget_ok [OF g' [unfolded e(2) [THEN eqTrueI] e(3)]] by auto
  ultimately show "targetReadsBack R target c h'" "unmapped R target h'"
    using assms(2) by (auto simp: AcmpPwmTargets_def)
qed

lemma comparatorRegs_untouched: "untouched R (cmpRegs (cmp route)) h (comparatorRegs R cl route code h)"
proof -
  let ?S = "cmpRegs (cmp route)"
  have w: "untouched R ?S g h \<Longrightarrow> r \<in> ?S \<Longrightarrow> untouched R ?S g (wr R r v h)" for g h r v
    by (rule untouched_trans [OF _ wr_untouched])
  show ?thesis unfolding comparatorRegs_def Let_def by (intro w untouched_refl; simp add: cmpRegs_def)
qed

end

section \<open>Ready means protected\<close>

text \<open>The path from the comparator to both modules, as the registers read.\<close>

definition tripPath :: "'h Regs \<Rightarrow> CurrentLimitConfig \<Rightarrow> 'h Acmp \<Rightarrow> bool" where
  "tripPath R cl s \<longleftrightarrow> activeCmp s = cmp (acmpRouteForPin (clPin cl)) \<and> activeCmp s \<noteq> 0
     \<and> (\<forall>target \<in> set AcmpPwmTargets. targetReadsBack R target (CycleByCycle cl) (hw s) \<and> unmapped R target (hw s)
          \<and> xbarSelectionMatches R (acmpXbarInputForCmp (activeCmp s)) (xbarFault0Output target) (hw s))"

definition darkAfterFailure :: "'h Acmp \<Rightarrow> bool" where
  "darkAfterFailure s \<longleftrightarrow> outen (pwm s) = (\<lambda>_. 0) \<and> \<not> timersEnabled (pwm s) \<and> vFaultTripped (pwm s)
     \<and> vOutputInhibited (pwm s) \<and> \<not> faultIrq (pwm s) \<and> \<not> vLatchedArmed s \<and> \<not> vCbcEnabled s \<and> activeCmp s = 0"

lemma failArm_dark:
  "darkAfterFailure (failArm R s)" "\<not> vProtectionReady (failArm R s)"
  by (simp_all add: failArm_def darkAfterFailure_def disarm_def disableActiveComparator_def maskAllOutputsSafely_def
      disconnectAllOutputDrivers_def Let_def)


lemma armed_fields:
  "hw (armed R c s) = hw s" "activeCmp (armed R c s) = activeCmp s" "vProtectionReady (armed R c s)"
  "vLatchedArmed (armed R c s) = (\<not> c)" "vCbcEnabled (armed R c s) = c" "actualThresholdMv (armed R c s) = actualThresholdMv s"
  by (simp_all add: armed_def Let_def)

context register_file
begin

lemma acmpArm_cases:
  obtains (failed) t where "acmpArm R sm13 cl s = failArm R t" "pwm t = pwm s"
  | (armed) h t where "acmpArm R sm13 cl s = armed R (CycleByCycle cl) t" "tripPath R cl t"
      "pwmFaultStatesSafeForConfiguredPolarity sm13 (vInvertedCellMask (pwm s)) (octrl (pwm s))" "pwm t = pwm s"
      "actualThresholdMv t = acmpDacCodeToMv (acmpThresholdToDacCode (ThresholdMillivolts cl) AcmpDacVinMv) AcmpDacVinMv"
      "configureTargets R (CycleByCycle cl) (hw s) = (True, h)"
      "hw t = snd (connectAll R (acmpXbarInputForCmp (cmp (acmpRouteForPin (clPin cl))))
          (comparatorRegs R cl (acmpRouteForPin (clPin cl))
             (acmpThresholdToDacCode (ThresholdMillivolts cl) AcmpDacVinMv) h))"
proof -
  define route where "route = acmpRouteForPin (clPin cl)"
  obtain conf h where h: "configureTargets R (CycleByCycle cl) (hw s) = (conf, h)" by (rule prod.exhaust)
  define p where "p = programComparator R cl route (s\<lparr>hw := h\<rparr>)"
  obtain routed g where g: "connectAll R (acmpXbarInputForCmp (cmp route)) (hw p) = (routed, g)" by (rule prod.exhaust)
  define safe where "safe = pwmFaultStatesSafeForConfiguredPolarity sm13 (vInvertedCellMask (pwm s)) (octrl (pwm s))"
  have e: "acmpArm R sm13 cl s = (if cmp route = 0 then failArm R s
      else if \<not> conf \<or> \<not> safe then failArm R (s\<lparr>hw := h\<rparr>)
      else if \<not> routed then failArm R (p\<lparr>hw := g\<rparr>) else armed R (CycleByCycle cl) (p\<lparr>hw := g\<rparr>))"
    by (simp add: acmpArm_def Let_def h g safe_def flip: route_def p_def)
  have p: "pwm p = pwm s" "activeCmp p = cmp route"
    "actualThresholdMv p = acmpDacCodeToMv (acmpThresholdToDacCode (ThresholdMillivolts cl) AcmpDacVinMv) AcmpDacVinMv"
    "hw p = comparatorRegs R cl route (acmpThresholdToDacCode (ThresholdMillivolts cl) AcmpDacVinMv) h"
    by (simp_all add: p_def programComparator_def Let_def)
  show thesis
  proof (cases "cmp route \<noteq> 0 \<and> conf \<and> safe \<and> routed")
    case True
    have u: "untouched R (cmpRegs (cmp route) \<union> range XbarSel) h g"
      using untouched_trans [OF untouched_mono [OF comparatorRegs_untouched] untouched_mono [OF connectAll_untouched]]
        g p(4) by (metis Un_upper1 Un_upper2 snd_conv)
    have d: "pwmRegs m \<inter> (cmpRegs (cmp route) \<union> range XbarSel) = {}" for m
      by (auto simp: pwmRegs_def cmpRegs_def)
    have h': "configureTargets R (CycleByCycle cl) (hw s) = (True, h)" using h True by simp
    have "targetReadsBack R target (CycleByCycle cl) g" "unmapped R target g"
      if "target \<in> set AcmpPwmTargets" for target
      using configureTargets_ok [OF h' that] targetReadsBack_cong [OF u d] unmapped_cong [OF u d] by simp_all
    moreover have "xbarSelectionMatches R (acmpXbarInputForCmp (cmp route)) (xbarFault0Output target) g"
      if "target \<in> set AcmpPwmTargets" for target
      using connectAll_matches [OF _ that, of "acmpXbarInputForCmp (cmp route)" "hw p" g] g True by simp
    ultimately have "tripPath R cl (p\<lparr>hw := g\<rparr>)" using True p(2) by (simp add: tripPath_def flip: route_def)
    then show thesis
      using True g p by (intro armed [of "p\<lparr>hw := g\<rparr>" h]) (simp_all add: e h safe_def [symmetric] flip: route_def)
  next
    case False
    then show thesis using e p(1) by (auto intro: failed split: if_splits)
  qed
qed

lemma acmpConfigure_cases:
  obtains (failed) t where "acmpConfigure R sm13 cl s = failArm R t" "pwm t = (pwm s)\<lparr>faultIrq := False\<rparr>"
  | (idle) t where "\<not> clEnabled cl" "acmpConfigure R sm13 cl s = t\<lparr>vProtectionReady := True\<rparr>"
      "pwm t = (pwm s)\<lparr>faultIrq := False\<rparr>" "parkedFaultControlsMatch R (hw t)" "activeCmp t = 0" "\<not> vLatchedArmed t"
      "\<not> vCbcEnabled t" "\<forall>target \<in> set AcmpPwmTargets. xbarSelectionMatches R XBARA1_IN_LOGIC_LOW (xbarFault0Output target) (hw t)"
  | (arm) t where "clEnabled cl" "acmpConfigure R sm13 cl s = acmpArm R sm13 cl t" "pwm t = (pwm s)\<lparr>faultIrq := False\<rparr>"
      "\<not> vLatchedArmed t" "\<not> vCbcEnabled t" "activeCmp t = 0"
      "hw t = clearFlags R (snd (parkFaultRoutes R (prepareParkedFaultControls R (hw (disableActiveComparator R (disarm s))))))"
proof -
  define a where "a = disableActiveComparator R (disarm s)"
  have a: "pwm a = (pwm s)\<lparr>faultIrq := False\<rparr>" "activeCmp a = 0" "\<not> vLatchedArmed a" "\<not> vCbcEnabled a"
    by (simp_all add: a_def disableActiveComparator_def disarm_def)
  obtain parked g where g: "parkFaultRoutes R (prepareParkedFaultControls R (hw a)) = (parked, g)" by (rule prod.exhaust)
  define h where "h = clearFlags R g"
  define t where "t = a\<lparr>hw := h, faultIrqPending := False\<rparr>"
  have t: "pwm t = (pwm s)\<lparr>faultIrq := False\<rparr>" "activeCmp t = 0" "\<not> vLatchedArmed t" "\<not> vCbcEnabled t" "hw t = h"
    by (simp_all add: t_def a)
  define good where "good = (parked \<and> parkedFaultControlsMatch R h
      \<and> rd R h (FSTS0 1) AND RecoveryMask = 0x0010 \<and> rd R h (FSTS0 2) AND RecoveryMask = 0x0010)"
  have e: "acmpConfigure R sm13 cl s = (if \<not> good then failArm R t
      else if \<not> clEnabled cl then t\<lparr>vProtectionReady := True\<rparr> else acmpArm R sm13 cl t)"
    by (simp add: acmpConfigure_def Let_def g good_def t_def flip: a_def h_def)
  have "untouched R {FSTS0 1, FSTS0 2} g h"
    unfolding h_def clearFlags_def by (rule untouched_trans; rule writeFsts_untouched) simp_all
  then have m: "xbarSelectionMatches R XBARA1_IN_LOGIC_LOW (xbarFault0Output target) h"
    if "good" "target \<in> set AcmpPwmTargets" for target
    using that connectAll_matches [OF _ that(2), of XBARA1_IN_LOGIC_LOW "prepareParkedFaultControls R (hw a)" g] g
      xbarMatches_cong [of R "{FSTS0 1, FSTS0 2}" g h "xbarFault0Output target"]
    by (simp add: good_def parkFaultRoutes_def)
  show thesis
  proof (cases good)
    case True
    then have "parkedFaultControlsMatch R (hw t)" by (simp add: good_def t(5))
    then show thesis
      using True e t m arm [of t] idle [of t] g by (cases "clEnabled cl") (auto simp: h_def a_def)
  next
    case False
    then show thesis using e t(1) by (intro failed [of t]) simp_all
  qed
qed

end


text \<open>C3: the over-current protection is never reported ready without being there. Whatever the registers make of
  the writes, as long as a write changes no other register: when \<open>acmpConfigure\<close> reports ready with the
  limit enabled, both crossbar selectors read back the comparator of the configured pin, and in both modules
  fault 0 maps to the A and B outputs of every protected submodule and to no other, is not
  filtered, acts without the clock, and recovers as the mode asks. With the limit disabled both
  selectors are parked. When it does not report ready the outputs are disconnected, the
  timers stopped, the trip latched and the comparator given up. The trip interrupt is on only while a latched limit is armed.\<close>

theorem acmp_ready_means_protected:
  fixes R :: "'h Regs" and s :: "'h Acmp" and cl :: CurrentLimitConfig and sm13 :: u16
  assumes "register_file R"
  defines "s' \<equiv> acmpConfigure R sm13 cl s"
  shows "(if \<not> vProtectionReady s' then darkAfterFailure s'
     else if clEnabled cl
       then tripPath R cl s' \<and> pwmFaultStatesSafeForConfiguredPolarity sm13 (vInvertedCellMask (pwm s)) (octrl (pwm s))
         \<and> vLatchedArmed s' = (\<not> CycleByCycle cl) \<and> vCbcEnabled s' = CycleByCycle cl
         \<and> (acmpFaultLatched R s' \<or> faultIrq (pwm s') = vLatchedArmed s')
         \<and> (\<not> acmpFaultLatched R s' \<or> outen (pwm s') = (\<lambda>_. 0) \<and> vFaultTripped (pwm s'))
     else parkedFaultControlsMatch R (hw s') \<and> activeCmp s' = 0 \<and> \<not> vLatchedArmed s' \<and> \<not> vCbcEnabled s'
         \<and> \<not> faultIrq (pwm s')
         \<and> (\<forall>target \<in> set AcmpPwmTargets. xbarSelectionMatches R XBARA1_IN_LOGIC_LOW (xbarFault0Output target) (hw s')))"
proof -
  show ?thesis
  proof (cases rule: register_file.acmpConfigure_cases [OF assms(1), of sm13 cl s])
    case failed: (1 t)
    then show ?thesis using failArm_dark [of R t] by (simp add: s'_def)
  next
    case idle: (2 t)
    then show ?thesis by (simp add: s'_def)
  next
    case arm: (3 t)
    show ?thesis
    proof (cases rule: register_file.acmpArm_cases [OF assms(1), of sm13 cl t])
      case failed: (1 u)
      then show ?thesis using failArm_dark [of R u] arm(2) by (simp add: s'_def)
    next
      case armed: (2 h u)
      have s': "s' = Acmp.armed R (CycleByCycle cl) u" using armed(1) arm(2) by (simp add: s'_def)
      have "tripPath R cl s'" using armed(2) by (auto simp: s' tripPath_def armed_fields)
      moreover have "acmpFaultLatched R s' \<or> faultIrq (pwm s') = vLatchedArmed s'"
        "\<not> acmpFaultLatched R s' \<or> outen (pwm s') = (\<lambda>_. 0) \<and> vFaultTripped (pwm s')"
        using arm(3) armed(4)
        by (auto simp: s' Acmp.armed_def Let_def acmpFaultLatched_def maskAllOutputsSafely_def disconnectAllOutputDrivers_def)
      ultimately show ?thesis using armed(3) arm(1,3) by (simp add: s' armed_fields)
    qed
  qed
qed

text \<open>C18: \<open>Pwm_Protection\<close> saw the comparator as one step that depends on what it reports afterwards. The register level
  implements that step: the effect of \<open>acmpConfigure\<close> on the outputs is that of \<open>armCurrentLimit\<close> for inputs that read
  the protection as it then is.\<close>

theorem acmp_refines_protection:
  fixes R :: "'h Regs" and s :: "'h Acmp" and cl :: CurrentLimitConfig and sm13 :: u16
  assumes "register_file R"
  defines "s' \<equiv> acmpConfigure R sm13 cl s"
  assumes "acmpArmOk i = vProtectionReady s'" "acmpArmed i = vLatchedArmed s'" "acmpLatched i = acmpFaultLatched R s'"
  shows "pwm s' = armCurrentLimit i (pwm s)"
proof (cases rule: register_file.acmpConfigure_cases [OF assms(1), of sm13 cl s])
  case failed: (1 t)
  then show ?thesis using assms(3) failArm_dark [of R t]
    by (simp add: s'_def armCurrentLimit_def failCurrentLimitArm_def failArm_def disarm_def disableActiveComparator_def)
next
  case idle: (2 t)
  then show ?thesis using assms(3,4) by (simp add: s'_def armCurrentLimit_def)
next
  case arm: (3 t)
  show ?thesis
  proof (cases rule: register_file.acmpArm_cases [OF assms(1), of sm13 cl t])
    case failed: (1 u)
    then show ?thesis using assms(3) failArm_dark [of R u] arm(2,3)
      by (simp add: s'_def armCurrentLimit_def failCurrentLimitArm_def failArm_def disarm_def disableActiveComparator_def)
  next
    case armed: (2 h u)
    have s': "s' = Acmp.armed R (CycleByCycle cl) u" using armed(1) arm(2) by (simp add: s'_def)
    show ?thesis using assms(3-5) arm(3) armed(4)
      by (auto simp: s' Acmp.armed_def Let_def acmpFaultLatched_def armCurrentLimit_def)
  qed
qed


section \<open>Registers that store what is written\<close>

locale working_registers = register_file R for R :: "'h Regs" +
  assumes stores: "\<forall>m. r \<noteq> FSTS0 m \<Longrightarrow> rd R (wr R r v h) r = v"
    and stores_recovery: "rd R (wr R (FSTS0 m) v h) (FSTS0 m) AND RecoveryMask = v AND RecoveryMask"

lemma mask_merge: "((x AND NOT m) OR a) AND m = a AND m" "((x AND NOT m) OR a) AND NOT m = (x AND NOT m) OR (a AND NOT m)"
  for x :: u16
  by (auto simp: bit_eq_iff bit_simps)

lemma control_reads_back:
  "acmpFault0Control x c own AND AcmpFault0ControlMask = acmpFault0Control 0 c own"
  "acmpFault0Control x c own AND NOT AcmpFault0ControlMask = x AND NOT AcmpFault0ControlMask"
proof -
  define a where "a = acmpFault0Control 0 c own"
  have e: "acmpFault0Control x c own = (x AND NOT AcmpFault0ControlMask) OR a"
    by (simp add: acmpFault0Control_def a_def Let_def or.assoc)
  have "a AND AcmpFault0ControlMask = a" "a AND NOT AcmpFault0ControlMask = 0"
    by (simp_all add: a_def acmpFault0Control_def Let_def AcmpFault0ControlMask_def const_defs)
  then show "acmpFault0Control x c own AND AcmpFault0ControlMask = acmpFault0Control 0 c own"
    "acmpFault0Control x c own AND NOT AcmpFault0ControlMask = x AND NOT AcmpFault0ControlMask"
    unfolding e mask_merge by (simp_all add: a_def)
qed

lemma map_reads_back:
  "acmpMapFault0ToAb x AND Fault0MapMask = ExpectedFault0Map"
  "acmpMapFault0ToAb x AND NOT Fault0MapMask = x AND NOT Fault0MapMask"
proof -
  have e: "acmpMapFault0ToAb x = (x AND NOT Fault0MapMask) OR ExpectedFault0Map"
    unfolding acmpMapFault0ToAb_def Fault0MapMask_def ExpectedFault0Map_def by (auto simp: bit_eq_iff bit_simps)
  have "ExpectedFault0Map AND Fault0MapMask = ExpectedFault0Map" "ExpectedFault0Map AND NOT Fault0MapMask = 0"
    by (simp_all add: Fault0MapMask_def ExpectedFault0Map_def const_defs)
  then show "acmpMapFault0ToAb x AND Fault0MapMask = ExpectedFault0Map"
    "acmpMapFault0ToAb x AND NOT Fault0MapMask = x AND NOT Fault0MapMask"
    unfolding e mask_merge by simp_all
qed

lemma filter_reads_back:
  "acmpFaultFilterWithGlitchStretch x AND AcmpFaultGlitchStretch \<noteq> 0"
  "acmpFaultFilterAvailable x \<Longrightarrow> acmpFaultFilterAvailable (acmpFaultFilterWithGlitchStretch x)"
proof -
  have "bit (acmpFaultFilterWithGlitchStretch x AND AcmpFaultGlitchStretch) 15"
    by (simp add: acmpFaultFilterWithGlitchStretch_def AcmpFaultGlitchStretch_def bit_simps)
  then show "acmpFaultFilterWithGlitchStretch x AND AcmpFaultGlitchStretch \<noteq> 0" by auto
  show "acmpFaultFilterAvailable x \<Longrightarrow> acmpFaultFilterAvailable (acmpFaultFilterWithGlitchStretch x)"
    by (auto simp: acmpFaultFilterAvailable_def acmpFaultFilterWithGlitchStretch_def bit_eq_iff bit_simps)
qed

lemma select_reads_back:
  fixes v :: u16 and input :: byte
  assumes "input < 88"
  shows "ucast (drop_bit 8 ((v AND 0x00FF) OR push_bit 8 (ucast input)) AND 0x7F) = input"
proof -
  have "unat input < 2 ^ 7" using assms by (simp add: word_less_nat_alt)
  then have "unat (take_bit 7 input) = unat input" by (simp add: unsigned_take_bit_eq take_bit_nat_eq_self_iff)
  then have "take_bit 7 input = input" by (rule word_unat_eq_iff [THEN iffD2])
  then have i: "bit input n \<longleftrightarrow> bit input n \<and> n < 7" for n by (metis bit_take_bit_iff)
  have m: "(0x7F :: u16) = Bit_Operations.mask 7" "(0xFF :: u16) = Bit_Operations.mask 8" by (simp_all add: mask_numeral)
  show ?thesis
    unfolding m by (rule bit_word_eqI) (use i in \<open>auto simp: bit_simps\<close>)
qed


context working_registers
begin

lemma connect_ok:
  assumes "input < 88" "output < 132" "odd output"
  shows "fst (connectXbarVerified R input output h)"
proof -
  have n: "\<not> input \<ge> 88" "\<not> output \<ge> 132" using assms by (simp_all add: not_le)
  let ?r = "XbarSel (unat output div 2)"
  have "rd R (wr R ?r v h) ?r = v" for v by (rule stores) simp
  then show ?thesis
    using n assms(3) select_reads_back [OF assms(1), of "rd R h ?r"]
    by (simp add: connectXbarVerified_def xbarConnect_def xbarSelectionMatches_def Let_def)
qed

lemma connectAll_ok: "input < 88 \<Longrightarrow> fst (connectAll R input h)"
  by (simp add: connectAll_def AcmpPwmTargets_def split_def Let_def connect_ok)

lemma mapSubmodules_ok:
  assumes "\<And>sm. sm \<in> set sms \<Longrightarrow> \<not> bit (submoduleMask target) sm
      \<Longrightarrow> rd R h (DISMAP0 (tgModule target) sm) AND Fault0MapMask = 0" "distinct sms"
  shows "fst (mapSubmodules R target sms h) \<and> (\<forall>sm. rd R (snd (mapSubmodules R target sms h)) (DISMAP0 (tgModule target) sm)
       = (if sm \<in> set sms \<and> bit (submoduleMask target) sm then acmpMapFault0ToAb (rd R h (DISMAP0 (tgModule target) sm))
          else rd R h (DISMAP0 (tgModule target) sm)))"
  using assms
proof (induction sms arbitrary: h)
  case (Cons a sms)
  let ?D = "DISMAP0 (tgModule target)"
  let ?g = "if bit (submoduleMask target) a then wr R (?D a) (acmpMapFault0ToAb (rd R h (?D a))) h else h"
  have e: "mapSubmodules R target (a # sms) h = mapSubmodules R target sms ?g"
    using Cons.prems(1) by (auto simp: Let_def)
  have st: "rd R (wr R (?D a) v h) (?D a) = v" for v by (rule stores) simp
  have fr: "sm \<noteq> a \<Longrightarrow> rd R (wr R (?D a) v h) (?D sm) = rd R h (?D sm)" for sm v
    using frame [of "?D sm" "?D a" v h] by simp
  have d: "rd R ?g (?D sm) = (if sm = a \<and> bit (submoduleMask target) a then acmpMapFault0ToAb (rd R h (?D sm))
      else rd R h (?D sm))" for sm
    by (simp add: st fr)
  have ih: "fst (mapSubmodules R target sms ?g) \<and> (\<forall>sm. rd R (snd (mapSubmodules R target sms ?g)) (?D sm)
       = (if sm \<in> set sms \<and> bit (submoduleMask target) sm then acmpMapFault0ToAb (rd R ?g (?D sm)) else rd R ?g (?D sm)))"
    by (rule Cons.IH) (use Cons.prems d in \<open>auto simp del: if_split split: if_splits\<close>)
  have "a \<notin> set sms" using Cons.prems(2) by simp
  then show ?case using ih unfolding e d by auto
qed simp

end


text \<open>The bits of a module's fault registers that belong to other users of its fault inputs.\<close>

definition othersKept :: "'h Regs \<Rightarrow> byte \<Rightarrow> 'h \<Rightarrow> 'h \<Rightarrow> bool" where
  "othersKept R m h h' \<longleftrightarrow>
     (\<forall>sm. rd R h' (DISMAP0 m sm) AND NOT Fault0MapMask = rd R h (DISMAP0 m sm) AND NOT Fault0MapMask)
     \<and> rd R h' (FCTRL0 m) AND NOT AcmpFault0ControlMask = rd R h (FCTRL0 m) AND NOT AcmpFault0ControlMask
     \<and> rd R h' (FCTRL20 m) AND NOT 1 = rd R h (FCTRL20 m) AND NOT 1"

lemma othersKept_trans: "othersKept R m h g \<Longrightarrow> othersKept R m g h' \<Longrightarrow> othersKept R m h h'"
  by (simp add: othersKept_def)

lemma othersKept_untouched: "untouched R S h h' \<Longrightarrow> pwmRegs m \<inter> S = {} \<Longrightarrow> othersKept R m h h'"
proof -
  assume a: "untouched R S h h'" "pwmRegs m \<inter> S = {}"
  have s: "r \<in> pwmRegs m \<Longrightarrow> stable R h' r = stable R h r" for r using untouchedD [OF a(1)] a(2) by auto
  have "rd R h' (DISMAP0 m sm) = rd R h (DISMAP0 m sm)" for sm using s [of "DISMAP0 m sm"] by (simp add: pwmRegs_def)
  then show "othersKept R m h h'"
    using s [of "FCTRL0 m"] s [of "FCTRL20 m"] by (simp add: othersKept_def pwmRegs_def)
qed

context working_registers
begin

lemma recovery_written: "rd R (writeFsts R m (recoveryBits c) x h) (FSTS0 m) AND RecoveryMask = recoveryBits c"
proof -
  have "((s AND NOT FlagNibble) AND NOT RecoveryMask OR (r OR x AND FlagNibble)) AND RecoveryMask = r AND RecoveryMask" for s r :: u16
  proof -
    have "FlagNibble AND RecoveryMask = 0" by (simp add: const_defs)
    then have "(x AND FlagNibble) AND RecoveryMask = 0" by (simp only: and.assoc) simp
    moreover have "((s AND NOT FlagNibble) AND NOT RecoveryMask) AND RecoveryMask = 0" by (simp add: and.assoc)
    ultimately show ?thesis by (simp add: bit.conj_disj_distrib2)
  qed
  moreover have "recoveryBits c AND RecoveryMask = recoveryBits c" by (simp add: recoveryBits_def const_defs)
  ultimately show ?thesis by (simp only: writeFsts_def Let_def stores_recovery)
qed

lemma configureFaultTarget_works:
  assumes "acmpFaultFilterAvailable (rd R h (FFILT0 (tgModule target)))" "unmapped R target h"
  shows "fst (configureFaultTarget R target c h)" "othersKept R (tgModule target) h (snd (configureFaultTarget R target c h))"
proof -
  let ?m = "tgModule target" and ?own = "irqOwner target \<and> \<not> c"
  define a where "a = wr R (FFILT0 ?m) (acmpFaultFilterWithGlitchStretch (rd R h (FFILT0 ?m))) h"
  define b where "b = snd (mapSubmodules R target [0..<4] a)"
  define d where "d = wr R (FCTRL20 ?m) (rd R b (FCTRL20 ?m) AND NOT 0x0001) b"
  define e where "e = wr R (FCTRL0 ?m) (acmpFault0Control (rd R d (FCTRL0 ?m)) c ?own) d"
  define g where "g = writeFsts R ?m (recoveryBits c) 0x1 e"
  have ua: "untouched R {FFILT0 ?m} h a" unfolding a_def by (rule wr_untouched) simp
  have ub: "untouched R (range (DISMAP0 ?m)) a b"
    unfolding b_def by (rule untouched_mono [OF mapSubmodules_untouched]) auto
  have ud: "untouched R {FCTRL20 ?m} b d" unfolding d_def by (rule wr_untouched) simp
  have ue: "untouched R {FCTRL0 ?m} d e" unfolding e_def by (rule wr_untouched) simp
  have ug: "untouched R {FSTS0 ?m} e g" unfolding g_def by (rule writeFsts_untouched) simp
  note D = untouchedD [OF ua] untouchedD [OF ub] untouchedD [OF ud] untouchedD [OF ue] untouchedD [OF ug]
  have la: "rd R a (DISMAP0 ?m sm) = rd R h (DISMAP0 ?m sm)" for sm using D(1) [of "DISMAP0 ?m sm"] by simp
  have map: "fst (mapSubmodules R target [0..<4] a)"
    "rd R b (DISMAP0 ?m sm) = (if sm \<in> set [0..<4] \<and> bit (submoduleMask target) sm
        then acmpMapFault0ToAb (rd R h (DISMAP0 ?m sm)) else rd R h (DISMAP0 ?m sm))" for sm
    using mapSubmodules_ok [of "[0..<4]" target a] assms(2) by (simp_all add: la unmapped_def b_def)
  have dis: "rd R g (DISMAP0 ?m sm) = rd R b (DISMAP0 ?m sm)" for sm
    using D(3-5) [of "DISMAP0 ?m sm"] by simp
  have filt: "rd R g (FFILT0 ?m) = acmpFaultFilterWithGlitchStretch (rd R h (FFILT0 ?m))"
    using D(2-5) [of "FFILT0 ?m"] stores [of "FFILT0 ?m"] by (auto simp: a_def)
  have nr: "FFILT0 ?m \<notin> range (DISMAP0 ?m)" "FCTRL20 ?m \<notin> range (DISMAP0 ?m)" "FCTRL0 ?m \<notin> range (DISMAP0 ?m)"
    by auto
  have ctl2: "rd R g (FCTRL20 ?m) = rd R h (FCTRL20 ?m) AND NOT 0x0001"
    using D(1,4,5) [of "FCTRL20 ?m"] D(2) [OF nr(2)] stores [of "FCTRL20 ?m"] by (auto simp: d_def)
  have ctl: "rd R g (FCTRL0 ?m) = acmpFault0Control (rd R h (FCTRL0 ?m)) c ?own"
    using D(1,3,5) [of "FCTRL0 ?m"] D(2) [OF nr(3)] stores [of "FCTRL0 ?m"] by (auto simp: e_def)
  have rec: "rd R g (FSTS0 ?m) AND RecoveryMask = recoveryBits c" unfolding g_def by (rule recovery_written)
  have reads: "targetReadsBack R target c g"
    using filter_reads_back [of "rd R h (FFILT0 ?m)"] assms(1)
    by (simp add: targetReadsBack_def Let_def filt ctl2 ctl rec dis map(2) control_reads_back map_reads_back and.assoc)
  have r: "configureFaultTarget R target c h = (targetReadsBack R target c g, g)"
    using assms(1) map(1)
    by (simp only: configureFaultTarget_def Let_def a_def [symmetric] split_def b_def [symmetric] d_def [symmetric]
        e_def [symmetric] g_def [symmetric] not_True_eq_False if_False)
  show "fst (configureFaultTarget R target c h)" using reads by (simp add: r)
  show "othersKept R ?m h (snd (configureFaultTarget R target c h))"
    by (simp add: r othersKept_def dis map(2) map_reads_back ctl control_reads_back ctl2 and.assoc)
qed

end


lemma u16_of_small: "uint (x :: u32) < 65536 \<Longrightarrow> uint (ucast x :: u16) = uint x"
  by (simp add: unsigned_ucast_eq take_bit_int_eq_self_iff)

lemma dac_near:
  assumes "26 \<le> uint t" "uint t \<le> 3300"
  shows "\<bar>uint (acmpDacCodeToMv (acmpThresholdToDacCode t AcmpDacVinMv) AcmpDacVinMv) - uint t\<bar> \<le> 26"
proof -
  define k where "k = (uint t * 64 + 1650) div 3300 - 1"
  define r where "r = (uint t * 64 + 1650) mod 3300"
  have "uint t * 64 + 1650 = 3300 * (k + 1) + r" "0 \<le> r" "r < 3300"
    by (simp_all add: k_def r_def)
  then have k: "0 \<le> k" "k \<le> 63" "3300 * k + 3300 \<le> uint t * 64 + 1650" "uint t * 64 + 1650 < 3300 * k + 6600"
    using assms by (simp_all add: algebra_simps)
  have c: "acmpThresholdToDacCode t AcmpDacVinMv = word_of_int k"
    using k(1,2) by (simp add: acmpThresholdToDacCode_def Let_def const_defs flip: k_def)
  have u: "uint (word_of_int k :: byte) = k" using k(1,2) by (simp add: uint_word_of_int)
  have n: "\<not> (word_of_int k :: byte) > 63" using u k(2) by (simp add: word_less_def)
  have m: "uint ((ucast (word_of_int k :: byte) + 1) * ucast AcmpDacVinMv :: u32) = (k + 1) * 3300"
    using k(1,2) u by (simp add: uint_word_ariths uint_up_ucast is_up const_defs)
  have "uint (acmpDacCodeToMv (word_of_int k) AcmpDacVinMv) = (k + 1) * 3300 div 64"
    using k(1,2) n by (simp add: acmpDacCodeToMv_def Let_def u16_of_small uint_div m)
  moreover define d where "d = (k + 1) * 3300 div 64"
  define e where "e = (k + 1) * 3300 mod 64"
  have "(k + 1) * 3300 = 64 * d + e" "0 \<le> e" "e < 64" by (simp_all add: d_def e_def)
  then have "\<bar>d - uint t\<bar> \<le> 26" using k by (simp add: abs_le_iff)
  ultimately show ?thesis by (simp add: c d_def)
qed

context working_registers
begin

lemma configureTargets_works:
  assumes "\<And>target. target \<in> set AcmpPwmTargets \<Longrightarrow> acmpFaultFilterAvailable (rd R h (FFILT0 (tgModule target)))
      \<and> unmapped R target h"
  shows "fst (configureTargets R c h)"
    "target \<in> set AcmpPwmTargets \<Longrightarrow> othersKept R (tgModule target) h (snd (configureTargets R c h))"
proof -
  let ?t1 = "\<lparr>tgModule = 1, submoduleMask = 0x08, xbarFault0Output = 35, irqOwner = False\<rparr>"
  let ?t2 = "\<lparr>tgModule = 2, submoduleMask = 0x0F, xbarFault0Output = 49, irqOwner = True\<rparr>"
  define g where "g = snd (configureFaultTarget R ?t1 c h)"
  have a1: "acmpFaultFilterAvailable (rd R h (FFILT0 (tgModule ?t1)))" "unmapped R ?t1 h"
    and a2: "acmpFaultFilterAvailable (rd R h (FFILT0 (tgModule ?t2)))" "unmapped R ?t2 h"
    using assms [of ?t1] assms [of ?t2] by (simp_all add: AcmpPwmTargets_def)
  note w1 = configureFaultTarget_works [OF a1, of c]
  have u: "untouched R (pwmRegs 1) h g" using configureFaultTarget_untouched [of ?t1 h c] by (simp add: g_def)
  have d: "pwmRegs 2 \<inter> pwmRegs 1 = {}" "pwmRegs 1 \<inter> pwmRegs 2 = {}" by (auto simp: pwmRegs_def)
  have "FFILT0 2 \<notin> pwmRegs 1" by (auto simp: pwmRegs_def)
  then have "rd R g (FFILT0 2) = rd R h (FFILT0 2)" using untouchedD [OF u, of "FFILT0 2"] by simp
  then have b2: "acmpFaultFilterAvailable (rd R g (FFILT0 (tgModule ?t2)))" "unmapped R ?t2 g"
    using a2 unmapped_cong [OF u, of ?t2] d(1) by simp_all
  note w2 = configureFaultTarget_works [OF b2, of c]
  have e: "configureTargets R c h = (fst (configureFaultTarget R ?t2 c g) \<and> fst (configureFaultTarget R ?t1 c h),
      snd (configureFaultTarget R ?t2 c g))"
    by (simp add: configureTargets_def AcmpPwmTargets_def split_def Let_def g_def)
  show "fst (configureTargets R c h)" using w1 w2 by (simp add: e)
  have v: "untouched R (pwmRegs 2) g (snd (configureFaultTarget R ?t2 c g))"
    using configureFaultTarget_untouched [of ?t2 g c] by simp
  have "othersKept R 1 h (snd (configureFaultTarget R ?t2 c g))"
    using othersKept_trans [OF _ othersKept_untouched [OF v d(2)]] w1(2) by (simp add: g_def)
  moreover have "othersKept R 2 h (snd (configureFaultTarget R ?t2 c g))"
    using othersKept_trans [OF othersKept_untouched [OF u d(1)]] w2(2) by simp
  ultimately show "othersKept R (tgModule target) h (snd (configureTargets R c h))" if "target \<in> set AcmpPwmTargets"
    using that by (auto simp: e AcmpPwmTargets_def)
qed

lemma prepare_eq:
  "rd R (prepareParkedFaultControls R h) (FCTRL0 m)
     = (if m \<in> {1, 2} then (rd R h (FCTRL0 m) OR AcmpFault0Flvl) AND NOT AcmpFault0Fie else rd R h (FCTRL0 m))"
  "untouched R {FCTRL0 1, FCTRL0 2} h (prepareParkedFaultControls R h)"
proof -
  have st: "rd R (wr R (FCTRL0 k) v h) (FCTRL0 k) = v" for k v h by (rule stores) simp
  have fr: "k \<noteq> m \<Longrightarrow> rd R (wr R (FCTRL0 k) v h) (FCTRL0 m) = rd R h (FCTRL0 m)" for k v h m
    using frame [of "FCTRL0 m" "FCTRL0 k" v h] by simp
  show "rd R (prepareParkedFaultControls R h) (FCTRL0 m)
     = (if m \<in> {1, 2} then (rd R h (FCTRL0 m) OR AcmpFault0Flvl) AND NOT AcmpFault0Fie else rd R h (FCTRL0 m))"
    unfolding prepareParkedFaultControls_def AcmpPwmTargets_def by (cases "m = 1"; cases "m = 2") (simp_all add: st fr)
  show "untouched R {FCTRL0 1, FCTRL0 2} h (prepareParkedFaultControls R h)"
    unfolding prepareParkedFaultControls_def AcmpPwmTargets_def
    by (simp, rule untouched_trans; rule wr_untouched) simp_all
qed

lemma prepare_works:
  "rd R (prepareParkedFaultControls R h) (FCTRL0 1) AND (AcmpFault0Flvl OR AcmpFault0Fie) = AcmpFault0Flvl"
  "rd R (prepareParkedFaultControls R h) (FCTRL0 2) AND (AcmpFault0Flvl OR AcmpFault0Fie) = AcmpFault0Flvl"
  "othersKept R m h (prepareParkedFaultControls R h)"
proof -
  have n: "AcmpFault0Flvl AND AcmpFault0Fie = 0" by (simp add: const_defs)
  have "((x OR AcmpFault0Flvl) AND NOT AcmpFault0Fie) AND (AcmpFault0Flvl OR AcmpFault0Fie) = AcmpFault0Flvl" for x
    using n by (auto simp: bit_eq_iff bit_simps)
  then show "rd R (prepareParkedFaultControls R h) (FCTRL0 1) AND (AcmpFault0Flvl OR AcmpFault0Fie) = AcmpFault0Flvl"
    "rd R (prepareParkedFaultControls R h) (FCTRL0 2) AND (AcmpFault0Flvl OR AcmpFault0Fie) = AcmpFault0Flvl"
    by (simp_all add: prepare_eq)
  have "((x OR AcmpFault0Flvl) AND NOT AcmpFault0Fie) AND NOT AcmpFault0ControlMask = x AND NOT AcmpFault0ControlMask" for x
    by (auto simp: bit_eq_iff bit_simps AcmpFault0ControlMask_def)
  moreover have "rd R (prepareParkedFaultControls R h) (DISMAP0 m sm) = rd R h (DISMAP0 m sm)"
    "rd R (prepareParkedFaultControls R h) (FCTRL20 m) = rd R h (FCTRL20 m)" for sm
    using untouchedD [OF prepare_eq(2), of "DISMAP0 m sm" h] untouchedD [OF prepare_eq(2), of "FCTRL20 m" h] by simp_all
  ultimately show "othersKept R m h (prepareParkedFaultControls R h)" by (simp add: othersKept_def prepare_eq)
qed

lemma comparator_programmed:
  "rd R (comparatorRegs R cl route code h) (CmpCR1 (cmp route)) = 0x11"
  "rd R (comparatorRegs R cl route code h) (CmpDACCR (cmp route)) = ucast (0x80 OR code)"
  "rd R (comparatorRegs R cl route code h) (CmpMUXCR (cmp route)) = ucast (push_bit 3 (psel route) OR 0x07)"
proof -
  have st: "\<forall>m. r \<noteq> FSTS0 m \<Longrightarrow> rd R (wr R r v h) r = v" for r v h by (rule stores)
  have fr: "r' \<noteq> r \<Longrightarrow> \<forall>m. r' \<noteq> FSTS0 m \<Longrightarrow> rd R (wr R r v h) r' = rd R h r'" for r r' v h
    using frame [of r' r v h] by (cases r') simp_all
  show "rd R (comparatorRegs R cl route code h) (CmpCR1 (cmp route)) = 0x11"
    "rd R (comparatorRegs R cl route code h) (CmpDACCR (cmp route)) = ucast (0x80 OR code)"
    "rd R (comparatorRegs R cl route code h) (CmpMUXCR (cmp route)) = ucast (push_bit 3 (psel route) OR 0x07)"
    unfolding comparatorRegs_def Let_def by (simp_all add: st fr)
qed

end


context working_registers
begin

lemma clearFlags_recovery:
  "rd R (clearFlags R h) (FSTS0 1) AND RecoveryMask = 0x0010" "rd R (clearFlags R h) (FSTS0 2) AND RecoveryMask = 0x0010"
proof -
  have r: "rd R (writeFsts R m 0x0010 x g) (FSTS0 m) AND RecoveryMask = 0x0010" for m x g
    using recovery_written [of m False x g] by (simp add: recoveryBits_def)
  show "rd R (clearFlags R h) (FSTS0 2) AND RecoveryMask = 0x0010" unfolding clearFlags_def by (rule r)
  have "rd R (clearFlags R h) (FSTS0 1) AND RecoveryMask = rd R (writeFsts R 1 0x0010 0x1 h) (FSTS0 1) AND RecoveryMask"
    unfolding clearFlags_def using untouchedD [OF writeFsts_untouched [of 2 "{FSTS0 2}"], of "FSTS0 1"] by simp
  then show "rd R (clearFlags R h) (FSTS0 1) AND RecoveryMask = 0x0010" by (simp add: r)
qed

text \<open>Tearing down and parking always succeeds and disturbs nobody.\<close>

lemma parking_works:
  fixes s :: "'h Acmp"
  defines "a \<equiv> disableActiveComparator R (disarm s)"
  defines "h \<equiv> clearFlags R (snd (parkFaultRoutes R (prepareParkedFaultControls R (hw a))))"
  shows "fst (parkFaultRoutes R (prepareParkedFaultControls R (hw a)))" "parkedFaultControlsMatch R h"
    "rd R h (FSTS0 1) AND RecoveryMask = 0x0010" "rd R h (FSTS0 2) AND RecoveryMask = 0x0010"
    "othersKept R m (hw s) h" "rd R h (FFILT0 m) = rd R (hw s) (FFILT0 m)"
    "rd R h (DISMAP0 m sm) = rd R (hw s) (DISMAP0 m sm)"
proof -
  let ?p = "prepareParkedFaultControls R (hw a)" and ?S = "range XbarSel \<union> {FSTS0 1, FSTS0 2}"
  let ?g = "snd (parkFaultRoutes R ?p)"
  show "fst (parkFaultRoutes R ?p)" by (simp add: parkFaultRoutes_def connectAll_ok const_defs)
  have s1: "untouched R (range CmpCR1) (hw s) (hw a)"
    by (simp add: a_def disableActiveComparator_def disarm_def wr_untouched)
  have "untouched R ?S ?p ?g"
    unfolding parkFaultRoutes_def by (rule untouched_mono [OF connectAll_untouched]) auto
  moreover have "untouched R ?S ?g h"
    unfolding h_def clearFlags_def by (rule untouched_trans; rule writeFsts_untouched) simp_all
  ultimately have s3: "untouched R ?S ?p h" by (rule untouched_trans)
  have "FCTRL0 1 \<notin> ?S" "FCTRL0 2 \<notin> ?S" by auto
  then show "parkedFaultControlsMatch R h"
    using untouchedD [OF s3, of "FCTRL0 1"] untouchedD [OF s3, of "FCTRL0 2"] prepare_works(1,2)
    by (simp add: parkedFaultControlsMatch_def)
  show "rd R h (FSTS0 1) AND RecoveryMask = 0x0010" "rd R h (FSTS0 2) AND RecoveryMask = 0x0010"
    unfolding h_def by (rule clearFlags_recovery)+
  have all: "untouched R (range CmpCR1 \<union> {FCTRL0 1, FCTRL0 2} \<union> ?S) (hw s) h"
    by (rule untouched_trans [OF untouched_mono [OF s1] untouched_trans [OF untouched_mono [OF prepare_eq(2)] untouched_mono [OF s3]]])
      auto
  then show f: "rd R h (FFILT0 m) = rd R (hw s) (FFILT0 m)" "rd R h (DISMAP0 m sm) = rd R (hw s) (DISMAP0 m sm)" for m sm
    using untouchedD [OF all, of "FFILT0 m"] untouchedD [OF all, of "DISMAP0 m sm"] by auto
  have "stable R (hw a) r = stable R (hw s) r" if "r \<in> pwmRegs m" for r
    using untouchedD [OF s1, of r] that by (auto simp: pwmRegs_def)
  then have k1: "othersKept R m (hw s) (hw a)" by (intro othersKept_untouched [of _ "- pwmRegs m"]) (auto simp: untouched_def)
  have k3: "othersKept R m ?p h"
    using untouchedD [OF s3, of "FCTRL0 m"] untouchedD [OF s3, of "FCTRL20 m"] untouchedD [OF s3, of "DISMAP0 m sm" for sm]
    by (auto simp: othersKept_def)
  show "othersKept R m (hw s) h" by (rule othersKept_trans [OF k1 othersKept_trans [OF prepare_works(3) k3]])
qed

end


lemma route_cmp: "cmp (acmpRouteForPin pin) \<le> 4"
  by (simp add: acmpRouteForPin_def Let_def)

context working_registers
begin

lemma arms:
  fixes s :: "'h Acmp"
  assumes "clEnabled cl" "cmp (acmpRouteForPin (clPin cl)) \<noteq> 0"
    "pwmFaultStatesSafeForConfiguredPolarity sm13 (vInvertedCellMask (pwm s)) (octrl (pwm s))"
    "\<forall>target \<in> set AcmpPwmTargets. acmpFaultFilterAvailable (rd R (hw s) (FFILT0 (tgModule target)))
       \<and> unmapped R target (hw s)"
  defines "s' \<equiv> acmpConfigure R sm13 cl s" and "route \<equiv> acmpRouteForPin (clPin cl)"
    and "code \<equiv> acmpThresholdToDacCode (ThresholdMillivolts cl) AcmpDacVinMv"
  shows "vProtectionReady s'" "activeCmp s' = cmp route" "actualThresholdMv s' = acmpDacCodeToMv code AcmpDacVinMv"
    "rd R (hw s') (CmpCR1 (cmp route)) = 0x11"
    "rd R (hw s') (CmpMUXCR (cmp route)) = ucast (push_bit 3 (psel route) OR 0x07)"
    "rd R (hw s') (CmpDACCR (cmp route)) = ucast (0x80 OR code)"
    "target \<in> set AcmpPwmTargets \<Longrightarrow> othersKept R (tgModule target) (hw s) (hw s')"
proof -
  define a where "a = disableActiveComparator R (disarm s)"
  define h where "h = clearFlags R (snd (parkFaultRoutes R (prepareParkedFaultControls R (hw a))))"
  note p = parking_works [where s = s, folded a_def, folded h_def]
  define t where "t = a\<lparr>hw := h, faultIrqPending := False\<rparr>"
  have t: "hw t = h" "pwm t = (pwm s)\<lparr>faultIrq := False\<rparr>"
    by (simp_all add: t_def a_def disableActiveComparator_def disarm_def)
  obtain g where g: "parkFaultRoutes R (prepareParkedFaultControls R (hw a)) = (True, g)"
    using p(1) by (metis prod.collapse)
  have e: "s' = acmpArm R sm13 cl t"
    using p(2-4) assms(1) g by (simp add: s'_def acmpConfigure_def Let_def t_def h_def flip: a_def)
  have pre: "acmpFaultFilterAvailable (rd R h (FFILT0 (tgModule target))) \<and> unmapped R target h"
    if "target \<in> set AcmpPwmTargets" for target
    using assms(4) that by (simp add: p(6,7) unmapped_def)
  define j where "j = snd (configureTargets R (CycleByCycle cl) h)"
  have j: "configureTargets R (CycleByCycle cl) h = (True, j)"
    using configureTargets_works(1) [OF pre, of "CycleByCycle cl"] by (metis j_def prod.collapse)
  define k where "k = comparatorRegs R cl route code j"
  have "cmp route < 63" using order_le_less_trans [OF route_cmp] by (simp add: route_def)
  then have "unat (25 + cmp route) = 25 + unat (cmp route)" "unat (cmp route) < 63"
    by (simp_all add: unat_word_ariths word_less_nat_alt)
  then have "acmpXbarInputForCmp (cmp route) < 88" by (simp add: acmpXbarInputForCmp_def word_less_nat_alt)
  then have "fst (connectAll R (acmpXbarInputForCmp (cmp route)) k)" by (rule connectAll_ok)
  then obtain l where l: "connectAll R (acmpXbarInputForCmp (cmp route)) k = (True, l)" by (metis prod.collapse)
  define q where "q = (programComparator R cl route (t\<lparr>hw := j\<rparr>))\<lparr>hw := l\<rparr>"
  have q: "hw (programComparator R cl route (t\<lparr>hw := j\<rparr>)) = k" "hw q = l" "activeCmp q = cmp route"
    "actualThresholdMv q = acmpDacCodeToMv code AcmpDacVinMv"
    by (simp_all add: q_def programComparator_def Let_def k_def code_def)
  have s': "s' = armed R (CycleByCycle cl) q"
    using assms(2,3) by (simp add: e acmpArm_def Let_def t j q(1) l q_def flip: route_def)
  show "vProtectionReady s'" "activeCmp s' = cmp route" "actualThresholdMv s' = acmpDacCodeToMv code AcmpDacVinMv"
    by (simp_all add: s' armed_fields q)
  have hw: "hw s' = l" by (simp add: s' armed_fields q)
  have u: "untouched R (range XbarSel) k l" using connectAll_untouched [of k "acmpXbarInputForCmp (cmp route)"] by (simp add: l)
  have "CmpCR1 c \<notin> range XbarSel" "CmpMUXCR c \<notin> range XbarSel" "CmpDACCR c \<notin> range XbarSel" for c by auto
  then show "rd R (hw s') (CmpCR1 (cmp route)) = 0x11"
    "rd R (hw s') (CmpMUXCR (cmp route)) = ucast (push_bit 3 (psel route) OR 0x07)"
    "rd R (hw s') (CmpDACCR (cmp route)) = ucast (0x80 OR code)"
    using untouchedD [OF u, of "CmpCR1 (cmp route)"] untouchedD [OF u, of "CmpMUXCR (cmp route)"]
      untouchedD [OF u, of "CmpDACCR (cmp route)"] comparator_programmed [where route = route and code = code and h = j and cl = cl]
    by (simp_all add: hw k_def)
  have "untouched R (cmpRegs (cmp route) \<union> range XbarSel) j l"
    by (rule untouched_trans [OF untouched_mono [OF comparatorRegs_untouched] untouched_mono [OF u, unfolded k_def]]) auto
  moreover have "pwmRegs m \<inter> (cmpRegs (cmp route) \<union> range XbarSel) = {}" for m by (auto simp: pwmRegs_def cmpRegs_def)
  ultimately have "othersKept R m j l" for m by (rule othersKept_untouched)
  then show "othersKept R (tgModule target) (hw s) (hw s')" if "target \<in> set AcmpPwmTargets"
    unfolding hw using configureTargets_works(2) [OF pre that, of "CycleByCycle cl"]
    by (intro othersKept_trans [OF p(5)]) (rule othersKept_trans, simp_all add: j_def)
qed

end

text \<open>C27: on registers that store what is written, the limit arms for every comparator-capable pin, whatever was
  configured before, unless another user filters the fault inputs, already maps fault 0 on an unprotected
  submodule, or an output would not be low in its fault state. The comparator then compares the pin with a
  threshold within 26 mV of the configured one, and the mapping and control bits of the other fault inputs
  are as they were.\<close>

theorem acmp_arms:
  fixes R :: "'h Regs" and s :: "'h Acmp" and cl :: CurrentLimitConfig and sm13 :: u16
  assumes "working_registers R" "clEnabled cl" "cmp (acmpRouteForPin (clPin cl)) \<noteq> 0"
    "26 \<le> uint (ThresholdMillivolts cl)" "uint (ThresholdMillivolts cl) \<le> 3300"
    "pwmFaultStatesSafeForConfiguredPolarity sm13 (vInvertedCellMask (pwm s)) (octrl (pwm s))"
    "\<forall>target \<in> set AcmpPwmTargets. acmpFaultFilterAvailable (rd R (hw s) (FFILT0 (tgModule target)))
       \<and> unmapped R target (hw s)"
  defines "s' \<equiv> acmpConfigure R sm13 cl s" and "route \<equiv> acmpRouteForPin (clPin cl)"
  shows "vProtectionReady s' \<and> rd R (hw s') (CmpCR1 (cmp route)) = 0x11
    \<and> rd R (hw s') (CmpMUXCR (cmp route)) = ucast (push_bit 3 (psel route) OR 0x07)
    \<and> rd R (hw s') (CmpDACCR (cmp route)) = ucast (0x80 OR acmpThresholdToDacCode (ThresholdMillivolts cl) AcmpDacVinMv)
    \<and> \<bar>uint (acmpActualThresholdMv s') - uint (ThresholdMillivolts cl)\<bar> \<le> 26
    \<and> (\<forall>target \<in> set AcmpPwmTargets. othersKept R (tgModule target) (hw s) (hw s'))"
proof -
  note a = working_registers.arms [OF assms(1-3,6,7)]
  show ?thesis
    using a assms(3) dac_near [OF assms(4,5)] unfolding s'_def route_def by (simp add: acmpActualThresholdMv_def)
qed

text \<open>Registers that keep what is written, with flags that ones clear.\<close>

definition refRegs :: "(Reg \<Rightarrow> u16) Regs" where
  "refRegs = \<lparr>rd = (\<lambda>h r. h r), wr = (\<lambda>r v h. case r of
       FSTS0 m \<Rightarrow> h(r := ((h r AND NOT v) AND 0x000F) OR (h r AND 0x0F00) OR (v AND 0xF0F0))
     | _ \<Rightarrow> h(r := v))\<rparr>"

interpretation refReg: working_registers refRegs
proof
  show "stable refRegs (wr refRegs r v h) r' = stable refRegs h r'" if "r' \<noteq> r" for r r' v h
    using that by (auto simp: refRegs_def stable_def split: Reg.split)
  show "rd refRegs (wr refRegs r v h) r = v" if "\<forall>m. r \<noteq> FSTS0 m" for r v h
    using that by (simp add: refRegs_def split: Reg.split)
  show "rd refRegs (wr refRegs (FSTS0 m) v h) (FSTS0 m) AND RecoveryMask = v AND RecoveryMask" for m v h
    by (simp add: refRegs_def const_defs bit.conj_disj_distrib2 and.assoc)
qed


definition exampleLimit :: CurrentLimitConfig where
  "exampleLimit = defaultCurrentLimit\<lparr>clEnabled := True\<rparr>"

definition exampleAcmp :: "(Reg \<Rightarrow> u16) Acmp" where
  "exampleAcmp = \<lparr>hw = (\<lambda>_. 0), vCbcEnabled = False, vLatchedArmed = False, vProtectionReady = False, vCbcTrips = 0,
     tripsAtLastSecond = 0, tripsPerSec = 0, activeCmp = 0, actualThresholdMv = 0, faultIrqPending = False, sinceRate = 0,
     pwm = pwmBoot\<rparr>"

lemma example_preconditions:
  "clEnabled exampleLimit" "cmp (acmpRouteForPin (clPin exampleLimit)) \<noteq> 0"
  "26 \<le> uint (ThresholdMillivolts exampleLimit)" "uint (ThresholdMillivolts exampleLimit) \<le> 3300"
  "pwmFaultStatesSafeForConfiguredPolarity 0 (vInvertedCellMask (pwm exampleAcmp)) (octrl (pwm exampleAcmp))"
  "\<forall>target \<in> set AcmpPwmTargets. acmpFaultFilterAvailable (rd refRegs (hw exampleAcmp) (FFILT0 (tgModule target)))
       \<and> unmapped refRegs target (hw exampleAcmp)"
  by (simp_all add: exampleLimit_def defaultCurrentLimit_def acmpRouteForPin_def exampleAcmp_def pwmBoot_def refRegs_def
      pwmFaultStatesSafeForConfiguredPolarity_def faultStateDrivesLowForPolarity_def acmpFaultFilterAvailable_def
      unmapped_def list_all_iff)

lemma acmp_arms_witness:
  "vProtectionReady (acmpConfigure refRegs 0 exampleLimit exampleAcmp)
   \<and> \<bar>uint (acmpActualThresholdMv (acmpConfigure refRegs 0 exampleLimit exampleAcmp)) - 2475\<bar> \<le> 26"
  using acmp_arms [OF refReg.working_registers_axioms example_preconditions(1-6)]
  by (simp add: exampleLimit_def defaultCurrentLimit_def)

lemma acmp_ready_means_protected_witness:
  "tripPath refRegs exampleLimit (acmpConfigure refRegs 0 exampleLimit exampleAcmp)"
  using acmp_ready_means_protected [OF refReg.register_file_axioms, of 0 exampleLimit exampleAcmp]
    refReg.arms(1) [OF example_preconditions(1,2,5,6)] example_preconditions(1) by simp

lemma acmp_refines_protection_witness:
  "\<exists>i. pwm (acmpConfigure refRegs 0 exampleLimit exampleAcmp) = armCurrentLimit i pwmBoot"
proof -
  let ?s = "acmpConfigure refRegs 0 exampleLimit exampleAcmp"
  let ?i = "quietSense\<lparr>acmpArmOk := vProtectionReady ?s, acmpArmed := vLatchedArmed ?s,
     acmpLatched := acmpFaultLatched refRegs ?s\<rparr>"
  have "pwm ?s = armCurrentLimit ?i (pwm exampleAcmp)"
    by (rule acmp_refines_protection [OF refReg.register_file_axioms]) simp_all
  then show ?thesis by (auto simp: exampleAcmp_def)
qed

end
