(* ===== verification/Thermal_Derate.thy ===== *)
theory Thermal_Derate
  imports Mppt Pwm_Protection
begin

text \<open>
  \<open>src/src/thermal_math.h\<close> and \<open>src/src/thermal.cpp\<close>: two DS18B20 probes on a OneWire bus and the die temperature
  set the ceiling of the modulation index. Bit slots on the bus mask interrupts, so the bus is used only while
  the outputs are inhibited; without a sample of a probe the ceiling is zero and the release of the outputs refused.

  Temperatures are tenths of a degree, \<open>Missing\<close> (the source's INT16_MIN) for none. What the bus library finds
  and reads is the record \<open>Probes\<close>; every call that uses the bus is an event in the list that the operations return.
  The source computes the curve in \<open>float\<close>; here it is exact, so the source may be one thousandth off.
  The effect on the index is that of \<open>Pwm_Setup\<close>, the effect on the outputs that of \<open>Pwm_Protection\<close>. Re-creating
  the bus object and log lines are left out.
\<close>

section \<open>The curve\<close>

definition Missing :: int where [const_defs]: "Missing = - 32768"

definition thermalDerateMilli :: "int \<Rightarrow> byte \<Rightarrow> byte \<Rightarrow> u16" where
  "thermalDerateMilli deciC startC endC =
     (if deciC \<le> 10 * uint startC then 1000
      else if endC \<le> startC \<or> deciC \<ge> 10 * uint endC then 0
      else word_of_int (1000 * (10 * uint endC - deciC) div (10 * (uint endC - uint startC))))"

definition toDeciC :: "rat \<Rightarrow> int" where
  "toDeciC c = (if c < - 100 \<or> c > 300 then Missing else (if c < 0 then - \<lfloor>- c * 10\<rfloor> else \<lfloor>c * 10\<rfloor>))"

section \<open>State\<close>

type_synonym Rom = "byte list"

datatype BusEvent = BusSearch | BusRequest | BusRead Rom

record Probes =
  romsFound :: "Rom list"
  tempC :: "Rom \<Rightarrow> rat"
  dieTempC :: rat
  missedNow :: u32

record Thermal =
  activePin :: byte
  derateMilli :: u16
  hotDeciC :: int
  coldDeciC :: int
  chipDeciC :: int
  hotAddr :: Rom
  coldAddr :: Rom
  hotAddrValid :: bool
  coldAddrValid :: bool
  harvestMissedCycles :: u32
  sinceRequest :: u32
  sinceRescan :: u32
  conversionPending :: bool
  missedAtRequest :: u32
  haveValidExternalSample :: bool
  thermalEnabledApplied :: bool

definition thermalBoot :: Thermal where
  "thermalBoot = \<lparr>activePin = 255, derateMilli = 1000, hotDeciC = Missing, coldDeciC = Missing, chipDeciC = Missing,
     hotAddr = replicate 8 0, coldAddr = replicate 8 0, hotAddrValid = False, coldAddrValid = False,
     harvestMissedCycles = 0, sinceRequest = 0, sinceRescan = 0, conversionPending = False, missedAtRequest = 0,
     haveValidExternalSample = False, thermalEnabledApplied = False\<rparr>"

fun compareRom :: "Rom \<Rightarrow> Rom \<Rightarrow> int" where
  "compareRom (a # as) (b # bs) = (if a < b then - 1 else if a > b then 1 else compareRom as bs)"
| "compareRom _ _ = 0"

definition cacheProbeAddresses :: "Probes \<Rightarrow> Thermal \<Rightarrow> Thermal" where
  "cacheProbeAddresses e t =
     (let haveA = 0 < length (romsFound e); haveB = 1 < length (romsFound e); a = romsFound e ! 0; b = romsFound e ! 1;
          t = t\<lparr>hotAddrValid := haveA, coldAddrValid := haveB\<rparr> in
      if haveA \<and> haveB \<and> compareRom a b > 0 then t\<lparr>hotAddr := b, coldAddr := a\<rparr>
      else let t = (if haveA then t\<lparr>hotAddr := a\<rparr> else t) in if haveB then t\<lparr>coldAddr := b\<rparr> else t)"

definition worstValidTempC :: "Thermal \<Rightarrow> int" where
  "worstValidTempC t =
     (let worstC = - 10000; worstC = (if hotDeciC t \<noteq> Missing then hotDeciC t else worstC);
          worstC = (if coldDeciC t \<noteq> Missing \<and> coldDeciC t > worstC then coldDeciC t else worstC)
      in if chipDeciC t \<noteq> Missing \<and> chipDeciC t > worstC then chipDeciC t else worstC)"

definition curveOf :: "ThermalConfig \<Rightarrow> Thermal \<Rightarrow> u16" where
  "curveOf c t = thermalDerateMilli (worstValidTempC t) (DerateStartC c) (DerateEndC c)"

section \<open>Operations\<close>

definition adoptPin :: "ThermalConfig \<Rightarrow> Probes \<Rightarrow> Thermal \<Rightarrow> BusEvent list \<times> Thermal" where
  "adoptPin c e t =
     (if OneWirePin c \<noteq> activePin t
      then ([BusSearch], (cacheProbeAddresses e (t\<lparr>activePin := OneWirePin c, hotAddrValid := False,
              coldAddrValid := False\<rparr>))\<lparr>conversionPending := False\<rparr>)
      else ([], t))"

definition keepsSample :: "ThermalConfig \<Rightarrow> Thermal \<Rightarrow> bool" where
  "keepsSample c t \<longleftrightarrow> thermalEnabledApplied t \<and> \<not> OneWirePin c \<noteq> activePin t \<and> haveValidExternalSample t"

definition thermalReconfigure :: "ThermalConfig \<Rightarrow> Probes \<Rightarrow> Thermal \<times> Modulator \<times> Pwm
    \<Rightarrow> BusEvent list \<times> Thermal \<times> Modulator \<times> Pwm" where
  "thermalReconfigure c e = (\<lambda>(t, m, p).
     if \<not> thEnabled c
     then ([], t\<lparr>derateMilli := 1000, haveValidExternalSample := True, thermalEnabledApplied := False,
                hotDeciC := Missing, coldDeciC := Missing, chipDeciC := Missing, conversionPending := False\<rparr>,
           setThermalDerateMilli 1000 m, p)
     else let keepSample = keepsSample c t;
              p = (if \<not> keepSample \<and> \<not> vOutputInhibited p
                   then (maskAllOutputsSafely (p\<lparr>vFaultTripped := True\<rparr>))\<lparr>moduleIrq := False\<rparr> else p);
              (evs, t) = adoptPin c e t; t = t\<lparr>thermalEnabledApplied := True\<rparr> in
       if keepSample then (evs, t\<lparr>derateMilli := curveOf c t\<rparr>, setThermalDerateMilli (curveOf c t) m, p)
       else (evs, t\<lparr>haveValidExternalSample := False, derateMilli := 0\<rparr>, setThermalDerateMilli 0 m, p))"

definition rescan :: "Probes \<Rightarrow> u32 \<Rightarrow> Thermal \<Rightarrow> BusEvent list \<times> Thermal" where
  "rescan e now t =
     (if (\<not> hotAddrValid t \<or> \<not> coldAddrValid t) \<and> now - sinceRescan t \<ge> 30000
      then ([BusSearch], cacheProbeAddresses e (t\<lparr>sinceRescan := now\<rparr>)) else ([], t))"

definition readProbes :: "Probes \<Rightarrow> Thermal \<Rightarrow> BusEvent list \<times> Thermal" where
  "readProbes e t =
     (let evs = (if hotAddrValid t then [BusRead (hotAddr t)] else []) @ (if coldAddrValid t then [BusRead (coldAddr t)] else []);
          hot = (if hotAddrValid t then toDeciC (tempC e (hotAddr t)) else Missing);
          cold = (if coldAddrValid t then toDeciC (tempC e (coldAddr t)) else Missing)
      in (evs, t\<lparr>hotDeciC := hot, coldDeciC := cold, hotAddrValid := hotAddrValid t \<and> hot \<noteq> Missing,
                 coldAddrValid := coldAddrValid t \<and> cold \<noteq> Missing, chipDeciC := toDeciC (dieTempC e)\<rparr>))"

definition harvest :: "MainConfig \<Rightarrow> Probes \<Rightarrow> u32 \<Rightarrow> Thermal \<times> Modulator \<Rightarrow> BusEvent list \<times> Thermal \<times> Modulator" where
  "harvest c e now = (\<lambda>(t, m).
     let (evs1, t) = rescan e now (t\<lparr>conversionPending := False\<rparr>); (evs2, t) = readProbes e t;
         t = t\<lparr>harvestMissedCycles := missedNow e - missedAtRequest t,
               haveValidExternalSample := hotDeciC t \<noteq> Missing \<or> coldDeciC t \<noteq> Missing\<rparr>;
         t = t\<lparr>derateMilli := (if haveValidExternalSample t then curveOf (Thermal c) t else 0)\<rparr>;
         m = setThermalDerateMilli (derateMilli t) m
     in (evs1 @ evs2, t,
         if \<not> fbEnabled (Feedback c) \<and> \<not> mpEnabled (Mppt c) \<and> spwmActive (Tm2 (Pwm c))
         then setModulationIndexTargetQ15 (indexMilliToQ15 (configuredIndex c)) m else m))"

definition requestMs :: "MainConfig \<Rightarrow> u32" where
  "requestMs c = (if SpwmCarrierFrequency (Tm2 (Pwm c)) \<ge> 10000 then 4000 else 2000)"

definition thermalTask :: "MainConfig \<Rightarrow> bool \<Rightarrow> Probes \<Rightarrow> u32 \<Rightarrow> Thermal \<times> Modulator
    \<Rightarrow> BusEvent list \<times> Thermal \<times> Modulator" where
  "thermalTask c inhibited e now = (\<lambda>(t, m).
     if \<not> thEnabled (Thermal c) then ([], t, m)
     else if \<not> inhibited then ([], t, m)
     else if \<not> conversionPending t \<and> now - sinceRequest t \<ge> requestMs c
       then ([BusRequest], t\<lparr>missedAtRequest := vMissedIsrCycles m, conversionPending := True, sinceRequest := now\<rparr>, m)
     else if \<not> (conversionPending t \<and> now - sinceRequest t \<ge> 800) then ([], t, m)
     else harvest c e now (t, m))"

definition thermalAllowsPwmRelease :: "ThermalConfig \<Rightarrow> Thermal \<Rightarrow> bool" where
  "thermalAllowsPwmRelease c t \<longleftrightarrow> \<not> thEnabled c \<or> haveValidExternalSample t"


section \<open>The curve is a ceiling\<close>

lemma curve_window:
  assumes "\<not> deciC \<le> 10 * uint startC" "\<not> (endC \<le> startC \<or> deciC \<ge> 10 * uint endC)"
  shows "uint (thermalDerateMilli deciC startC endC)
      = 1000 * (10 * uint endC - deciC) div (10 * (uint endC - uint startC))"
    "1000 * (10 * uint endC - deciC) div (10 * (uint endC - uint startC)) \<le> 1000"
    "0 \<le> 1000 * (10 * uint endC - deciC) div (10 * (uint endC - uint startC))"
proof -
  define k w where "k = 10 * uint endC - deciC" and "w = 10 * (uint endC - uint startC)"
  have k: "0 < k" "k < w" "0 < w" using assms by (auto simp: k_def w_def word_le_def not_le)
  have "1000 * k div w \<le> 1000 * w div w" using k by (intro zdiv_mono1) auto
  then show b: "1000 * (10 * uint endC - deciC) div (10 * (uint endC - uint startC)) \<le> 1000"
    unfolding k_def [symmetric] w_def [symmetric] using k by simp
  show p: "0 \<le> 1000 * (10 * uint endC - deciC) div (10 * (uint endC - uint startC))"
    unfolding k_def [symmetric] w_def [symmetric] using k by (simp add: pos_imp_zdiv_nonneg_iff)
  have "thermalDerateMilli deciC startC endC
      = word_of_int (1000 * (10 * uint endC - deciC) div (10 * (uint endC - uint startC)))"
    unfolding thermalDerateMilli_def by (simp only: assms if_False)
  then show "uint (thermalDerateMilli deciC startC endC)
      = 1000 * (10 * uint endC - deciC) div (10 * (uint endC - uint startC))"
    using b p by (simp add: uint_word_of_int)
qed

lemma curve_max: "uint (thermalDerateMilli deciC startC endC) \<le> 1000"
  using curve_window [of deciC startC endC]
  by (cases "deciC \<le> 10 * uint startC"; cases "endC \<le> startC \<or> deciC \<ge> 10 * uint endC")
    (simp_all add: thermalDerateMilli_def)

lemma curve_antitone:
  assumes "x \<le> y"
  shows "uint (thermalDerateMilli y startC endC) \<le> uint (thermalDerateMilli x startC endC)"
proof (cases "x \<le> 10 * uint startC")
  case True
  then show ?thesis using curve_max [of y startC endC] by (simp add: thermalDerateMilli_def)
next
  case x: False
  show ?thesis
  proof (cases "endC \<le> startC \<or> y \<ge> 10 * uint endC")
    case True
    then have "uint (thermalDerateMilli y startC endC) = 0" using assms x by (auto simp: thermalDerateMilli_def)
    then show ?thesis by simp
  next
    case False
    then have "0 < 10 * (uint endC - uint startC)" by (simp add: word_le_def)
    then have "1000 * (10 * uint endC - y) div (10 * (uint endC - uint startC))
        \<le> 1000 * (10 * uint endC - x) div (10 * (uint endC - uint startC))"
      using assms by (intro zdiv_mono1) auto
    moreover have "uint (thermalDerateMilli y startC endC) = 1000 * (10 * uint endC - y) div (10 * (uint endC - uint startC))"
      "uint (thermalDerateMilli x startC endC) = 1000 * (10 * uint endC - x) div (10 * (uint endC - uint startC))"
      by (rule curve_window(1); use assms x False in simp)+
    ultimately show ?thesis by simp
  qed
qed

section \<open>The ceiling of every state\<close>

text \<open>A reading is missing or at least -100 degrees.\<close>

definition readingOk :: "int \<Rightarrow> bool" where
  "readingOk x \<longleftrightarrow> x = Missing \<or> - 1000 \<le> x"

lemma toDeciC_ok: "readingOk (toDeciC x)" "readingOk Missing"
proof -
  have "\<lfloor>- x * 10\<rfloor> \<le> 1000" if "\<not> x < - 100"
    using that of_int_floor_le [of "- x * 10"] by linarith
  moreover have "0 \<le> \<lfloor>x * 10\<rfloor>" if "\<not> x < 0" using that by simp
  ultimately show "readingOk (toDeciC x)" by (force simp: readingOk_def toDeciC_def)
qed (simp add: readingOk_def)

definition readingsOk :: "Thermal \<Rightarrow> bool" where
  "readingsOk t \<longleftrightarrow> readingOk (hotDeciC t) \<and> readingOk (coldDeciC t) \<and> readingOk (chipDeciC t)"

lemma readings_update [simp]:
  "readingsOk (t\<lparr>derateMilli := x1\<rparr>) = readingsOk t" "readingsOk (t\<lparr>haveValidExternalSample := x2\<rparr>) = readingsOk t"
  "readingsOk (t\<lparr>thermalEnabledApplied := x3\<rparr>) = readingsOk t" "readingsOk (t\<lparr>conversionPending := x4\<rparr>) = readingsOk t"
  "readingsOk (t\<lparr>missedAtRequest := x5\<rparr>) = readingsOk t" "readingsOk (t\<lparr>sinceRequest := x6\<rparr>) = readingsOk t"
  "readingsOk (t\<lparr>harvestMissedCycles := x7\<rparr>) = readingsOk t"
  "readingsOk (t\<lparr>hotDeciC := Missing, coldDeciC := Missing, chipDeciC := Missing\<rparr>)" "readingsOk thermalBoot"
  by (simp_all add: readingsOk_def toDeciC_ok thermalBoot_def)

lemma worst_is_max:
  assumes "readingsOk t" "hotDeciC t \<noteq> Missing \<or> coldDeciC t \<noteq> Missing"
  shows "worstValidTempC t = Max ({hotDeciC t, coldDeciC t, chipDeciC t} - {Missing})"
proof (rule Max_eqI [symmetric])
  show "x \<le> worstValidTempC t" if "x \<in> {hotDeciC t, coldDeciC t, chipDeciC t} - {Missing}" for x
    using that assms by (auto simp: worstValidTempC_def Let_def)
  show "worstValidTempC t \<in> {hotDeciC t, coldDeciC t, chipDeciC t} - {Missing}"
    using assms by (auto simp: worstValidTempC_def Let_def readingsOk_def readingOk_def)
qed simp

definition thermalInv :: "MainConfig \<times> Thermal \<times> Modulator \<Rightarrow> bool" where
  "thermalInv = (\<lambda>(c, t, m). indexOk m \<and> vThermalDerateMilli m = derateMilli t \<and> readingsOk t
     \<and> (if \<not> thEnabled (Thermal c) then derateMilli t = 1000 \<and> \<not> thermalEnabledApplied t
        else thermalEnabledApplied t \<and> activePin t = OneWirePin (Thermal c)
          \<and> (if haveValidExternalSample t
             then (hotDeciC t \<noteq> Missing \<or> coldDeciC t \<noteq> Missing) \<and> derateMilli t = curveOf (Thermal c) t
             else derateMilli t = 0)))"

datatype ThermalEvent = ApplyThermal MainConfig Probes Pwm | ThermalPass bool Probes u32 | OtherWriter ModOp

text \<open>Nobody else sets the thermal ceiling.\<close>

fun foreign :: "ThermalEvent \<Rightarrow> bool" where
  "foreign (OtherWriter (Derate d)) = False"
| "foreign _ = True"

definition thermalEvent :: "(byte \<Rightarrow> bool \<Rightarrow> int list) \<Rightarrow> u32 \<Rightarrow> u32 \<Rightarrow> ThermalEvent
    \<Rightarrow> MainConfig \<times> Thermal \<times> Modulator \<Rightarrow> MainConfig \<times> Thermal \<times> Modulator" where
  "thermalEvent unitLut cpuHz clk e = (\<lambda>(c, t, m). case e of
     ApplyThermal c' pr p \<Rightarrow> (let (evs, t, m, p) = thermalReconfigure (Thermal c') pr (t, m, p) in (c', t, m))
   | ThermalPass inhibited pr now \<Rightarrow> (let (evs, t, m) = thermalTask c inhibited pr now (t, m) in (c, t, m))
   | OtherWriter oper \<Rightarrow> (c, t, modOp unitLut cpuHz clk oper m))"

lemma setDerate_ok:
  assumes "indexOk m" "uint d \<le> 1000"
  shows "indexOk (setThermalDerateMilli d m)" "vThermalDerateMilli (setThermalDerateMilli d m) = d"
proof -
  show "indexOk (setThermalDerateMilli d m)"
    using modOp_index [OF assms(1), of "\<lambda>_ _. []" 0 0 "Derate d"] by (simp add: modOp_def)
  show "vThermalDerateMilli (setThermalDerateMilli d m) = d"
    using assms(2) by (simp add: setThermalDerateMilli_def Let_def word_less_def)
qed

lemma curveOf_max: "uint (curveOf c t) \<le> 1000"
  unfolding curveOf_def by (rule curve_max)

lemma curveOf_fields [simp]:
  "curveOf c (t\<lparr>derateMilli := x1\<rparr>) = curveOf c t" "curveOf c (t\<lparr>haveValidExternalSample := x2\<rparr>) = curveOf c t"
  "curveOf c (t\<lparr>harvestMissedCycles := x3\<rparr>) = curveOf c t" "curveOf c (t\<lparr>thermalEnabledApplied := x4\<rparr>) = curveOf c t"
  "curveOf c (t\<lparr>conversionPending := x5\<rparr>) = curveOf c t" "curveOf c (t\<lparr>missedAtRequest := x6\<rparr>) = curveOf c t"
  "curveOf c (t\<lparr>sinceRequest := x7\<rparr>) = curveOf c t"
  by (simp_all add: curveOf_def worstValidTempC_def Let_def)

lemma cache_fields [simp]:
  "hotDeciC (cacheProbeAddresses e t) = hotDeciC t" "coldDeciC (cacheProbeAddresses e t) = coldDeciC t"
  "chipDeciC (cacheProbeAddresses e t) = chipDeciC t" "activePin (cacheProbeAddresses e t) = activePin t"
  "haveValidExternalSample (cacheProbeAddresses e t) = haveValidExternalSample t"
  "thermalEnabledApplied (cacheProbeAddresses e t) = thermalEnabledApplied t"
  by (simp_all add: cacheProbeAddresses_def Let_def)

lemma readings_bus [simp]:
  "readingsOk (snd (adoptPin c e t)) = readingsOk t" "readingsOk (snd (readProbes e t))"
  by (simp_all add: readingsOk_def adoptPin_def readProbes_def toDeciC_ok Let_def)

lemma adoptPin_fields:
  "activePin (snd (adoptPin c e t)) = OneWirePin c"
  "OneWirePin c = activePin t \<Longrightarrow> adoptPin c e t = ([], t)"
  by (simp_all add: adoptPin_def)

lemma reconfigure_inv:
  assumes "thermalInv (c0, t, m)" "thermalReconfigure (Thermal c) e (t, m, p) = (evs, t', m', p')"
  shows "thermalInv (c, t', m')"
proof -
  have i: "indexOk m" "readingsOk t" "thermalEnabledApplied t \<Longrightarrow> haveValidExternalSample t \<Longrightarrow> hotDeciC t \<noteq> Missing \<or> coldDeciC t \<noteq> Missing"
    using assms(1) by (auto simp: thermalInv_def split: if_splits)
  show ?thesis
  proof (cases "thEnabled (Thermal c)")
    case False
    then show ?thesis using assms(2) setDerate_ok [OF i(1), of 1000] by (auto simp: thermalReconfigure_def thermalInv_def)
  next
    case True
    show ?thesis
    proof (cases "keepsSample (Thermal c) t")
      case keep: True
      then have "t' = t\<lparr>thermalEnabledApplied := True, derateMilli := curveOf (Thermal c) (t\<lparr>thermalEnabledApplied := True\<rparr>)\<rparr>"
        "m' = setThermalDerateMilli (curveOf (Thermal c) (t\<lparr>thermalEnabledApplied := True\<rparr>)) m"
        using assms(2) True adoptPin_fields(2) [of "Thermal c" t e]
        by (auto simp: thermalReconfigure_def Let_def keepsSample_def)
      then show ?thesis
        using True keep i setDerate_ok [OF i(1) curveOf_max] by (simp add: thermalInv_def keepsSample_def)
    next
      case fresh: False
      then have "t' = (snd (adoptPin (Thermal c) e t))\<lparr>thermalEnabledApplied := True, haveValidExternalSample := False,
            derateMilli := 0\<rparr>" "m' = setThermalDerateMilli 0 m"
        using assms(2) True by (auto simp: thermalReconfigure_def Let_def split_def)
      then show ?thesis
        using True setDerate_ok [OF i(1), of 0] adoptPin_fields(1) [of "Thermal c" e t] i(2) by (simp add: thermalInv_def)
    qed
  qed
qed


lemma rescan_fields:
  "activePin (snd (rescan e now t)) = activePin t" "thermalEnabledApplied (snd (rescan e now t)) = thermalEnabledApplied t"
  by (simp_all add: rescan_def)

lemma readProbes_fields:
  "activePin (snd (readProbes e t)) = activePin t" "thermalEnabledApplied (snd (readProbes e t)) = thermalEnabledApplied t"
  by (simp_all add: readProbes_def Let_def)

lemma task_inv:
  assumes "thermalInv (c, t, m)" "thermalTask c inhibited e now (t, m) = (evs, t', m')"
  shows "thermalInv (c, t', m')"
proof (cases "thEnabled (Thermal c) \<and> inhibited \<and> conversionPending t \<and> now - sinceRequest t \<ge> 800")
  case False
  then have r: "m' = m" "t' = t \<or> t' = t\<lparr>missedAtRequest := vMissedIsrCycles m, conversionPending := True, sinceRequest := now\<rparr>"
    using assms(2) by (auto simp: thermalTask_def split: if_splits)
  then show ?thesis using assms(1) r(2) unfolding r(1) thermalInv_def by auto
next
  case True
  define u where "u = snd (readProbes e (snd (rescan e now (t\<lparr>conversionPending := False\<rparr>))))"
  have u: "activePin u = activePin t" "thermalEnabledApplied u = thermalEnabledApplied t" "readingsOk u"
    by (simp_all add: u_def readProbes_fields rescan_fields)
  define v where "v = u\<lparr>harvestMissedCycles := missedNow e - missedAtRequest u,
     haveValidExternalSample := hotDeciC u \<noteq> Missing \<or> coldDeciC u \<noteq> Missing\<rparr>"
  define d where "d = (if haveValidExternalSample v then curveOf (Thermal c) v else 0)"
  define n where "n = setThermalDerateMilli d m"
  have r: "t' = v\<lparr>derateMilli := d\<rparr>" "m' = (if \<not> fbEnabled (Feedback c) \<and> \<not> mpEnabled (Mppt c) \<and> spwmActive (Tm2 (Pwm c))
         then setModulationIndexTargetQ15 (indexMilliToQ15 (configuredIndex c)) n else n)"
    using assms(2) True by (auto simp: thermalTask_def harvest_def Let_def split_def u_def v_def d_def n_def)
  have i: "indexOk m" using assms(1) by (simp add: thermalInv_def)
  have "uint d \<le> 1000" using curveOf_max [of "Thermal c" v] by (simp add: d_def)
  note n = setDerate_ok [OF i this, folded n_def]
  have m: "indexOk m'" "vThermalDerateMilli m' = d"
    using n setTarget_ok [OF n(1)] by (simp_all add: r setModulationIndexTargetQ15_def Let_def)
  then show ?thesis
    using m True assms(1) u by (simp add: thermalInv_def r(1) v_def d_def)
qed

lemma other_inv:
  assumes "thermalInv (c, t, m)" "foreign (OtherWriter oper)"
  shows "thermalInv (c, t, modOp unitLut cpuHz clk oper m)"
proof -
  have "vThermalDerateMilli (modOp unitLut cpuHz clk oper m) = vThermalDerateMilli m"
    using assms(2)
    by (cases oper) (simp_all add: modOp_def setModulationIndexTargetQ15_def Let_def configure_index(1) tick_fields(2))
  then show ?thesis using assms(1) modOp_index [of m] unfolding thermalInv_def by auto
qed

lemma thermalEvent_inv:
  assumes "thermalInv s" "foreign e"
  shows "thermalInv (thermalEvent unitLut cpuHz clk e s)"
proof -
  obtain c t m where s: "s = (c, t, m)" by (cases s)
  show ?thesis
  proof (cases e)
    case (ApplyThermal c' pr p)
    then show ?thesis using assms(1) reconfigure_inv by (auto simp: s thermalEvent_def split: prod.split)
  next
    case (ThermalPass inhibited pr now)
    then show ?thesis using assms(1) task_inv by (auto simp: s thermalEvent_def split: prod.split)
  next
    case (OtherWriter oper)
    then show ?thesis using assms other_inv by (simp add: s thermalEvent_def)
  qed
qed

definition thermalRun :: "(byte \<Rightarrow> bool \<Rightarrow> int list) \<Rightarrow> u32 \<Rightarrow> u32 \<Rightarrow> ThermalEvent list
    \<Rightarrow> MainConfig \<times> Thermal \<times> Modulator \<Rightarrow> MainConfig \<times> Thermal \<times> Modulator" where
  "thermalRun unitLut cpuHz clk es s = foldl (\<lambda>s e. thermalEvent unitLut cpuHz clk e s) s es"

lemma thermalRun_inv: "thermalInv s \<Longrightarrow> list_all foreign es \<Longrightarrow> thermalInv (thermalRun unitLut cpuHz clk es s)"
  by (induction es arbitrary: s) (simp_all add: thermalRun_def thermalEvent_inv)

lemma boot_inv: "thermalReconfigure (Thermal c) e (thermalBoot, m, p) = (evs, t', m', p') \<Longrightarrow> indexOk m
    \<Longrightarrow> thermalInv (c, t', m')"
proof -
  assume a: "thermalReconfigure (Thermal c) e (thermalBoot, m, p) = (evs, t', m', p')" "indexOk m"
  have k: "\<not> keepsSample (Thermal c) thermalBoot" by (simp add: keepsSample_def thermalBoot_def)
  show "thermalInv (c, t', m')"
    using a(1) k setDerate_ok [OF a(2), of 0] setDerate_ok [OF a(2), of 1000] adoptPin_fields(1) [of "Thermal c" e thermalBoot]
    by (auto simp: thermalReconfigure_def thermalInv_def Let_def split_def split: if_splits)
qed

text \<open>C8: the thermal ceiling fails closed and is the curve at the hottest reading. After start-up and any sequence
  of configurations, task passes and writes of the index, in any order, the modulator uses the ceiling that the task
  keeps, and the index target is not above it. With the protection enabled: while no probe has given a sample, the
  release of the outputs is refused and ceiling and index target are zero; with a sample, a probe was read, and the
  ceiling is exactly the derating curve of the configuration in force at the highest of the readings that
  are present, of both probes and the die, whichever connector a probe sits on. With the protection switched
  off the ceiling is the full 1000 and the release is not held back.\<close>

theorem thermal_fails_closed:
  assumes "indexOk m0" "thermalReconfigure (Thermal c0) pr0 (thermalBoot, m0, p0) = (evs, t0, m1, p1)"
    "list_all foreign es" "thermalRun unitLut cpuHz clk es (c0, t0, m1) = (c, t, m)"
  shows "unat (vIndexTargetQ15 m) \<le> 37847 * unat (derateMilli t) div 1000 \<and> vThermalDerateMilli m = derateMilli t
    \<and> (if \<not> thEnabled (Thermal c) then derateMilli t = 1000 \<and> thermalAllowsPwmRelease (Thermal c) t
       else if thermalAllowsPwmRelease (Thermal c) t
       then (hotDeciC t \<noteq> Missing \<or> coldDeciC t \<noteq> Missing)
         \<and> derateMilli t = thermalDerateMilli (Max ({hotDeciC t, coldDeciC t, chipDeciC t} - {Missing}))
             (DerateStartC (Thermal c)) (DerateEndC (Thermal c))
       else derateMilli t = 0 \<and> vIndexTargetQ15 m = 0)"
proof -
  have i: "thermalInv (c, t, m)"
    using thermalRun_inv [OF boot_inv [OF assms(2,1)] assms(3)] assms(4) by metis
  have le: "unat (vThermalDerateMilli m) \<le> 1000" "unat (vIndexTargetQ15 m) \<le> unat (indexCapQ15 (vThermalDerateMilli m))"
    using i unfolding thermalInv_def indexOk_def by auto
  have d: "vThermalDerateMilli m = derateMilli t" using i by (simp add: thermalInv_def)
  have cap: "unat (vIndexTargetQ15 m) \<le> 37847 * unat (derateMilli t) div 1000"
    using le(2) unat_indexCap [OF le(1)] by (simp add: d)
  consider "\<not> thEnabled (Thermal c)" | "thEnabled (Thermal c)" "haveValidExternalSample t"
    | "thEnabled (Thermal c)" "\<not> haveValidExternalSample t" by blast
  then show ?thesis
  proof cases
    case 1
    then show ?thesis using i cap d by (simp add: thermalInv_def thermalAllowsPwmRelease_def)
  next
    case 2
    then have r: "readingsOk t" "hotDeciC t \<noteq> Missing \<or> coldDeciC t \<noteq> Missing" "derateMilli t = curveOf (Thermal c) t"
      using i by (simp_all add: thermalInv_def)
    then show ?thesis
      using 2 cap d worst_is_max [OF r(1,2)] by (simp add: thermalAllowsPwmRelease_def curveOf_def)
  next
    case 3
    then have "derateMilli t = 0" using i by (simp add: thermalInv_def)
    then show ?thesis using cap 3 d by (simp add: thermalAllowsPwmRelease_def unat_eq_zero)
  qed
qed


definition exampleThermal :: MainConfig where
  "exampleThermal = exampleMppt\<lparr>Thermal := defaultThermal\<lparr>thEnabled := True\<rparr>\<rparr>"

definition exampleProbes :: Probes where
  "exampleProbes = \<lparr>romsFound = [[40, 1], [40, 2]], tempC = (\<lambda>_. 80), dieTempC = 45, missedNow = 0\<rparr>"

lemma thermal_fails_closed_witness:
  "\<exists>t m. thermalRun (\<lambda>_ _. []) 0 0 [ThermalPass True exampleProbes 4000, ThermalPass True exampleProbes 4800]
      (exampleThermal, fst (snd (thermalReconfigure (Thermal exampleThermal) exampleProbes (thermalBoot, bootModulator, pwmBoot))),
       fst (snd (snd (thermalReconfigure (Thermal exampleThermal) exampleProbes (thermalBoot, bootModulator, pwmBoot)))))
     = (exampleThermal, t, m) \<and> unat (vIndexTargetQ15 m) \<le> 37847 * unat (derateMilli t) div 1000"
proof -
  obtain evs t0 m1 p1 where a: "thermalReconfigure (Thermal exampleThermal) exampleProbes (thermalBoot, bootModulator, pwmBoot)
      = (evs, t0, m1, p1)" by (metis prod.exhaust)
  let ?es = "[ThermalPass True exampleProbes 4000, ThermalPass True exampleProbes 4800]"
  obtain c t m where b: "thermalRun (\<lambda>_ _. []) 0 0 ?es (exampleThermal, t0, m1) = (c, t, m)" by (metis prod.exhaust)
  then have c: "c = exampleThermal" by (simp add: thermalRun_def thermalEvent_def split_def)
  show ?thesis
    using thermal_fails_closed [OF boot_index a _ b] b by (auto simp: c a)
qed

section \<open>The bus is used only while the outputs are off\<close>

text \<open>No bit slot disturbs a running output. Whenever a task pass or a new configuration touches the OneWire bus, the
  outputs are inhibited; where a new configuration must scan the bus while they run, it has disconnected them
  and latched the trip, which is the step that \<open>Pwm_Protection\<close> takes for it.\<close>

theorem thermal_bus_only_while_inhibited:
  assumes "thermalReconfigure c pr (t, m, p) = (evs1, t1, m1, p1)" "thermalTask cfg inhibited pr2 now (t2, m2) = (evs2, s2)"
    "thermalKeepsSample i = (\<not> thEnabled c \<or> keepsSample c t)"
  shows "(evs1 = [] \<or> vOutputInhibited p1) \<and> p1 = Pwm_Protection.thermalConfigure i p \<and> (evs2 = [] \<or> inhibited)"
proof -
  have "evs1 = [] \<or> vOutputInhibited p1"
    using assms(1) adoptPin_fields(2) [of c t pr]
    by (auto simp: thermalReconfigure_def keepsSample_def Let_def split_def maskAllOutputsSafely_def
        disconnectAllOutputDrivers_def split: if_splits)
  moreover have "p1 = Pwm_Protection.thermalConfigure i p"
    using assms(1,3) by (auto simp: thermalReconfigure_def Pwm_Protection.thermalConfigure_def Let_def split_def split: if_splits)
  moreover have "evs2 = [] \<or> inhibited" using assms(2) by (auto simp: thermalTask_def split: if_splits)
  ultimately show ?thesis by blast
qed

lemma thermal_bus_only_while_inhibited_witness:
  "snd (snd (snd (thermalReconfigure (Thermal exampleThermal) exampleProbes (thermalBoot, bootModulator, pwmBoot))))
     = Pwm_Protection.thermalConfigure (quietSense\<lparr>thermalKeepsSample := False\<rparr>) pwmBoot"
proof -
  obtain evs t m p where a: "thermalReconfigure (Thermal exampleThermal) exampleProbes (thermalBoot, bootModulator, pwmBoot)
      = (evs, t, m, p)" by (metis prod.exhaust)
  obtain evs2 s2 where b: "thermalTask exampleThermal True exampleProbes 0 (thermalBoot, bootModulator) = (evs2, s2)"
    by (metis prod.exhaust)
  have "thermalKeepsSample (quietSense\<lparr>thermalKeepsSample := False\<rparr>)
      = (\<not> thEnabled (Thermal exampleThermal) \<or> keepsSample (Thermal exampleThermal) thermalBoot)"
    by (simp add: exampleThermal_def keepsSample_def thermalBoot_def)
  from thermal_bus_only_while_inhibited [OF a b this] show ?thesis by (simp add: a)
qed

section \<open>Probes\<close>

text \<open>Which probe is first does not depend on the order in which the bus search finds them.\<close>

lemma compareRom_flip: "compareRom b a = - compareRom a b"
  by (induction a b rule: compareRom.induct) auto

lemma compareRom_zero: "length a = length b \<Longrightarrow> compareRom a b = 0 \<Longrightarrow> a = b"
  by (induction a b rule: compareRom.induct) (auto split: if_splits)

lemma probe_order:
  assumes "romsFound e = [a, b]" "romsFound e' = [b, a]" "length a = length b"
  shows "cacheProbeAddresses e' t = cacheProbeAddresses e t"
    "compareRom (hotAddr (cacheProbeAddresses e t)) (coldAddr (cacheProbeAddresses e t)) \<le> 0"
  using assms compareRom_flip [of a b] compareRom_zero [OF assms(3)]
  by (auto simp: cacheProbeAddresses_def Let_def)

text \<open>A sample arrives: with a probe known and plausible, one request and one pass 800 ms later allow the release.\<close>

lemma thermal_sample_arrives:
  assumes "thEnabled (Thermal c)" "\<not> conversionPending t" "now1 - sinceRequest t \<ge> requestMs c" "now2 - now1 \<ge> 800"
    "hotAddrValid t" "coldAddrValid t" "- 100 \<le> tempC e2 (hotAddr t)" "tempC e2 (hotAddr t) \<le> 300"
    "thermalTask c True e1 now1 (t, m) = (evs1, s)" "thermalTask c True e2 now2 s = (evs2, t2, m2)"
  shows "thermalAllowsPwmRelease (Thermal c) t2" "evs1 @ evs2 = [BusRequest, BusRead (hotAddr t), BusRead (coldAddr t)]"
proof -
  have s: "s = (t\<lparr>missedAtRequest := vMissedIsrCycles m, conversionPending := True, sinceRequest := now1\<rparr>, m)"
    "evs1 = [BusRequest]"
    using assms(9) assms(1-3) by (auto simp: thermalTask_def)
  have n: "\<lfloor>- (tempC e2 (hotAddr t) * 10)\<rfloor> \<noteq> 32768"
    using assms(7) of_int_floor_le [of "- (tempC e2 (hotAddr t) * 10)"] by (intro notI) simp
  have p: "\<lfloor>tempC e2 (hotAddr t) * 10\<rfloor> \<noteq> - 32768" if "\<not> tempC e2 (hotAddr t) < 0"
    using that zero_le_floor [of "tempC e2 (hotAddr t) * 10"] by (intro notI) simp
  have h: "toDeciC (tempC e2 (hotAddr t)) \<noteq> Missing"
    using assms(7,8) n p by (auto simp: toDeciC_def Missing_def)
  show "thermalAllowsPwmRelease (Thermal c) t2" "evs1 @ evs2 = [BusRequest, BusRead (hotAddr t), BusRead (coldAddr t)]"
    using assms(10) assms(1,4-6) h
    by (auto simp: s thermalTask_def harvest_def rescan_def readProbes_def Let_def thermalAllowsPwmRelease_def)
qed

end
