(* ===== verification/Web_Pool.thy ===== *)
theory Web_Pool
  imports Prelude "HOL-Library.Multiset"
begin

text \<open>
  The connections the web server holds (\<open>processWebServer\<close> of \<open>web_handlers.cpp\<close>). The network stack has
  eight connections for everything, so a client that connects and says nothing must not keep one for
  ever: an accepted connection waits in one of four slots until it speaks or has been
  silent too long.

  A connection is a value of any type; \<open>Pass\<close> holds what one pass of the loop finds: the connection the stack hands
  over, which connections have data or are still open, and the time at each slot, because a request that
  is answered takes a while. What a pass does to connections is the list of its events. The answer itself,
  \<open>app.process\<close>, is in \<open>Web_Api\<close>.
\<close>

section \<open>The pool\<close>

record 'c Slot =
  pendingClient :: "'c option"
  pendingSince :: u32
  pendingUsed :: bool

datatype 'c PoolEvent = Handled 'c | Stopped 'c

record 'c Pass =
  incoming :: "'c option"
  acceptAt :: u32
  hasData :: "'c \<Rightarrow> bool"
  isOpen :: "'c \<Rightarrow> bool"
  slotAt :: "nat \<Rightarrow> u32"

definition MaxPendingClients :: byte where [const_defs]: "MaxPendingClients = 4"
definition IdleClientTimeoutMs :: u32 where [const_defs]: "IdleClientTimeoutMs = 5000"

definition freeSlot :: "'c Slot" where
  "freeSlot = \<lparr>pendingClient = None, pendingSince = 0, pendingUsed = False\<rparr>"

definition bootPool :: "'c Slot list" where
  "bootPool = replicate (unat MaxPendingClients) freeSlot"

definition releasePending :: "'c Slot \<Rightarrow> 'c PoolEvent list \<times> 'c Slot" where
  "releasePending s =
     (case pendingClient s of None \<Rightarrow> [] | Some c \<Rightarrow> [Stopped c], s\<lparr>pendingClient := None, pendingUsed := False\<rparr>)"

primrec placeIn :: "'c \<Rightarrow> u32 \<Rightarrow> 'c Slot list \<Rightarrow> bool \<times> 'c Slot list" where
  "placeIn c now [] = (False, [])"
| "placeIn c now (s # ss) =
     (if \<not> pendingUsed s then (True, s\<lparr>pendingClient := Some c, pendingSince := now, pendingUsed := True\<rparr> # ss)
      else let (placed, ss) = placeIn c now ss in (placed, s # ss))"

definition takeIncoming :: "'c Pass \<Rightarrow> 'c Slot list \<Rightarrow> 'c PoolEvent list \<times> 'c Slot list" where
  "takeIncoming e ss =
     (case incoming e of
        None \<Rightarrow> ([], ss)
      | Some c \<Rightarrow> let (placed, ss) = placeIn c (acceptAt e) ss in (if placed then [] else [Stopped c], ss))"

definition slotReady :: "'c Pass \<Rightarrow> 'c Slot \<Rightarrow> bool" where
  "slotReady e s \<longleftrightarrow> (case pendingClient s of None \<Rightarrow> False | Some c \<Rightarrow> hasData e c)"

definition slotConnected :: "'c Pass \<Rightarrow> 'c Slot \<Rightarrow> bool" where
  "slotConnected e s \<longleftrightarrow> (case pendingClient s of None \<Rightarrow> False | Some c \<Rightarrow> isOpen e c)"

definition idleTooLong :: "u32 \<Rightarrow> 'c Slot \<Rightarrow> bool" where
  "idleTooLong now s \<longleftrightarrow> sint (now - (pendingSince s + IdleClientTimeoutMs)) \<ge> 0"

definition handle :: "'c Slot \<Rightarrow> 'c PoolEvent list" where
  "handle s = (case pendingClient s of None \<Rightarrow> [] | Some c \<Rightarrow> [Handled c])"

definition serviceSlot :: "'c Pass \<Rightarrow> nat \<Rightarrow> bool \<Rightarrow> 'c Slot \<Rightarrow> 'c PoolEvent list \<times> bool \<times> 'c Slot" where
  "serviceSlot e i served s =
     (if \<not> pendingUsed s then ([], served, s)
      else if slotReady e s
        then if \<not> served then let (evs, s') = releasePending s in (handle s @ evs, True, s') else ([], served, s)
      else if \<not> slotConnected e s \<or> idleTooLong (slotAt e i) s
        then let (evs, s') = releasePending s in (evs, served, s')
      else ([], served, s))"

primrec serviceSlots :: "'c Pass \<Rightarrow> nat \<Rightarrow> bool \<Rightarrow> 'c Slot list \<Rightarrow> 'c PoolEvent list \<times> 'c Slot list" where
  "serviceSlots e i served [] = ([], [])"
| "serviceSlots e i served (s # ss) =
     (let (evs, served, s) = serviceSlot e i served s; (evs', ss) = serviceSlots e (Suc i) served ss in (evs @ evs', s # ss))"

definition processWebServer :: "'c Pass \<Rightarrow> 'c Slot list \<Rightarrow> 'c PoolEvent list \<times> 'c Slot list" where
  "processWebServer e ss =
     (let (evs, ss) = takeIncoming e ss; (evs', ss) = serviceSlots e 0 False ss in (evs @ evs', ss))"

primrec webPasses :: "'c Pass list \<Rightarrow> 'c Slot list \<Rightarrow> 'c PoolEvent list \<times> 'c Slot list" where
  "webPasses [] ss = ([], ss)"
| "webPasses (e # es) ss =
     (let (evs, ss) = processWebServer e ss; (evs', ss) = webPasses es ss in (evs @ evs', ss))"

section \<open>Every connection is accounted for\<close>

definition slotOk :: "'c Slot \<Rightarrow> bool" where
  "slotOk s \<longleftrightarrow> pendingUsed s = (pendingClient s \<noteq> None)"

definition heldIn :: "'c Slot list \<Rightarrow> 'c list" where
  "heldIn ss = concat (map (\<lambda>s. case pendingClient s of None \<Rightarrow> [] | Some c \<Rightarrow> [c]) ss)"

definition stopped :: "'c PoolEvent list \<Rightarrow> 'c list" where
  "stopped evs = concat (map (\<lambda>ev. case ev of Stopped c \<Rightarrow> [c] | Handled c \<Rightarrow> []) evs)"

definition handled :: "'c PoolEvent list \<Rightarrow> 'c list" where
  "handled evs = concat (map (\<lambda>ev. case ev of Handled c \<Rightarrow> [c] | Stopped c \<Rightarrow> []) evs)"

definition accepted :: "'c Pass list \<Rightarrow> 'c list" where
  "accepted es = concat (map (\<lambda>e. case incoming e of None \<Rightarrow> [] | Some c \<Rightarrow> [c]) es)"

lemmas pool_views = heldIn_def stopped_def handled_def accepted_def

lemma pool_views_append [simp]:
  "stopped (xs @ ys) = stopped xs @ stopped ys" "handled (xs @ ys) = handled xs @ handled ys"
  "stopped [] = []" "handled [] = []" "heldIn [] = []" "accepted [] = []"
  "accepted (e # es) = (case incoming e of None \<Rightarrow> [] | Some c \<Rightarrow> [c]) @ accepted es"
  "heldIn (s # ss) = (case pendingClient s of None \<Rightarrow> [] | Some c \<Rightarrow> [c]) @ heldIn ss"
  by (simp_all add: pool_views)

lemma placeIn_ok:
  assumes "placeIn c now ss = (placed, ss')" "list_all slotOk ss"
  shows "list_all slotOk ss' \<and> length ss' = length ss
    \<and> mset (heldIn ss') = mset (heldIn ss) + (if placed then {#c#} else {#})"
  using assms
  by (induction ss arbitrary: placed ss') (auto simp: slotOk_def split: if_splits prod.splits option.splits)

lemma takeIncoming_ok:
  assumes "takeIncoming e ss = (evs, ss')" "list_all slotOk ss"
  shows "list_all slotOk ss' \<and> length ss' = length ss \<and> handled evs = []
    \<and> mset (heldIn ss) + mset (accepted [e]) = mset (heldIn ss') + mset (stopped evs)"
proof (cases "incoming e")
  case None
  then show ?thesis using assms by (simp add: takeIncoming_def)
next
  case (Some c)
  obtain placed s1 where p: "placeIn c (acceptAt e) ss = (placed, s1)" by (metis prod.exhaust)
  show ?thesis
    using placeIn_ok [OF p assms(2)] assms(1) Some p
    by (auto simp: takeIncoming_def stopped_def handled_def split: if_splits)
qed

lemma serviceSlot_ok:
  assumes "serviceSlot e i served s = (evs, served', s')" "slotOk s"
  shows "slotOk s' \<and> mset (heldIn [s]) = mset (heldIn [s']) + mset (stopped evs)
    \<and> set (handled evs) \<subseteq> set (stopped evs) \<and> length (handled evs) = of_bool (served' \<and> \<not> served) \<and> (served \<longrightarrow> served')"
  using assms
  by (auto simp: serviceSlot_def releasePending_def handle_def slotOk_def slotReady_def pool_views Let_def
      split: if_splits option.splits)

lemma serviceSlots_ok:
  assumes "serviceSlots e i served ss = (evs, ss')" "list_all slotOk ss"
  shows "list_all slotOk ss' \<and> length ss' = length ss \<and> mset (heldIn ss) = mset (heldIn ss') + mset (stopped evs)
    \<and> set (handled evs) \<subseteq> set (stopped evs) \<and> length (handled evs) \<le> of_bool (\<not> served)"
  using assms
proof (induction ss arbitrary: i served evs ss')
  case Nil
  then show ?case by simp
next
  case (Cons s ss)
  obtain ev1 sv s1 where a: "serviceSlot e i served s = (ev1, sv, s1)" by (metis prod.exhaust)
  obtain ev2 ss1 where b: "serviceSlots e (Suc i) sv ss = (ev2, ss1)" by (metis prod.exhaust)
  have eq: "evs = ev1 @ ev2" "ss' = s1 # ss1" using Cons.prems(1) a b by simp_all
  have ok: "slotOk s" "list_all slotOk ss" using Cons.prems(2) by simp_all
  show ?case
    using serviceSlot_ok [OF a ok(1)] Cons.IH [OF b ok(2)] by (auto simp: eq split: if_splits)
qed

lemma processWebServer_ok:
  assumes "processWebServer e ss = (evs, ss')" "list_all slotOk ss"
  shows "list_all slotOk ss' \<and> length ss' = length ss
    \<and> mset (heldIn ss) + mset (accepted [e]) = mset (heldIn ss') + mset (stopped evs)
    \<and> set (handled evs) \<subseteq> set (stopped evs) \<and> length (handled evs) \<le> 1"
proof -
  obtain ev1 s1 where a: "takeIncoming e ss = (ev1, s1)" by (metis prod.exhaust)
  obtain ev2 s2 where b: "serviceSlots e 0 False s1 = (ev2, s2)" by (metis prod.exhaust)
  have eq: "evs = ev1 @ ev2" "ss' = s2" using assms(1) a b by (simp_all add: processWebServer_def)
  note t = takeIncoming_ok [OF a assms(2)]
  show ?thesis using t serviceSlots_ok [OF b] by (auto simp: eq)
qed

lemma webPasses_ok:
  assumes "webPasses es ss = (evs, ss')" "list_all slotOk ss"
  shows "list_all slotOk ss' \<and> length ss' = length ss
    \<and> mset (heldIn ss) + mset (accepted es) = mset (heldIn ss') + mset (stopped evs)
    \<and> set (handled evs) \<subseteq> set (stopped evs) \<and> length (handled evs) \<le> length es"
  using assms
proof (induction es arbitrary: ss evs)
  case Nil
  then show ?case by simp
next
  case (Cons e es)
  obtain ev1 s1 where a: "processWebServer e ss = (ev1, s1)" by (metis prod.exhaust)
  obtain ev2 s2 where b: "webPasses es s1 = (ev2, s2)" by (metis prod.exhaust)
  have eq: "evs = ev1 @ ev2" "ss' = s2" using Cons.prems(1) a b by simp_all
  note p = processWebServer_ok [OF a Cons.prems(2)]
  have i: "list_all slotOk s2 \<and> length s2 = length s1
      \<and> mset (heldIn s1) + mset (accepted es) = mset (heldIn s2) + mset (stopped ev2)
      \<and> set (handled ev2) \<subseteq> set (stopped ev2) \<and> length (handled ev2) \<le> length es"
    using p Cons.IH [of s1 ev2] b eq by simp
  have "mset (heldIn ss) + mset (accepted (e # es)) = mset (heldIn s1) + mset (stopped ev1) + mset (accepted es)"
    using p by (simp add: union_assoc [symmetric])
  also have "\<dots> = mset (heldIn s2) + mset (stopped ev2) + mset (stopped ev1)"
    using i by (metis union_assoc union_commute)
  finally have m: "mset (heldIn ss) + mset (accepted (e # es)) = mset (heldIn ss') + mset (stopped evs)"
    by (simp add: eq ac_simps)
  have "set (handled evs) \<subseteq> set (stopped evs) \<and> length (handled evs) \<le> length (e # es)"
    using p i by (auto simp: eq)
  then show ?case using m p i by (simp add: eq)
qed

lemma heldIn_length: "length (heldIn ss) \<le> length ss"
  by (induction ss) (auto split: option.splits)

lemma bootPool_ok: "list_all slotOk bootPool" "heldIn bootPool = []" "length bootPool = 4"
  by (simp_all add: bootPool_def const_defs slotOk_def freeSlot_def heldIn_def list_all_iff)

text \<open>No connection is lost and none is kept beyond the pool. Whatever connects, and whatever the
  connections do, after any number of passes every connection the stack handed over is either in one of the four
  slots or has been stopped, exactly once for every time it was handed over; a pass
  answers at most one request, and an answered connection is stopped.\<close>

theorem web_connections_accounted:
  "let (evs, ss) = webPasses es bootPool in
     mset (accepted es) = mset (heldIn ss) + mset (stopped evs) \<and> length (heldIn ss) \<le> unat MaxPendingClients
     \<and> set (handled evs) \<subseteq> set (stopped evs) \<and> length (handled evs) \<le> length es"
proof -
  obtain evs ss where r: "webPasses es bootPool = (evs, ss)" by (metis prod.exhaust)
  have ok: "list_all slotOk (bootPool :: 'a Slot list)" "length (bootPool :: 'a Slot list) = 4" "heldIn (bootPool :: 'a Slot list) = []"
    by (rule bootPool_ok)+
  show ?thesis
    using webPasses_ok [OF r ok(1)] heldIn_length [of ss] r ok(2,3) by (simp add: const_defs)
qed

section \<open>One slot through a pass\<close>

lemma placeIn_keeps:
  assumes "placeIn c now ss = (placed, ss')" "i < length ss" "pendingUsed (ss ! i)"
  shows "ss' ! i = ss ! i"
  using assms by (induction ss arbitrary: placed ss' i) (auto simp: nth_Cons split: if_splits prod.splits nat.splits)

lemma serviceSlots_nth:
  assumes "serviceSlots e k served ss = (evs, ss')" "i < length ss"
  shows "\<exists>evsi sv. serviceSlot e (k + i) (served \<or> (\<exists>j < i. pendingUsed (ss ! j) \<and> slotReady e (ss ! j))) (ss ! i)
      = (evsi, sv, ss' ! i) \<and> set evsi \<subseteq> set evs"
  using assms
proof (induction ss arbitrary: k served evs ss' i)
  case Nil
  then show ?case by simp
next
  case (Cons s ss)
  obtain ev1 sv s1 where a: "serviceSlot e k served s = (ev1, sv, s1)" by (metis prod.exhaust)
  obtain ev2 ss1 where b: "serviceSlots e (Suc k) sv ss = (ev2, ss1)" by (metis prod.exhaust)
  have eq: "evs = ev1 @ ev2" "ss' = s1 # ss1" using Cons.prems(1) a b by simp_all
  have sv: "sv \<longleftrightarrow> served \<or> pendingUsed s \<and> slotReady e s"
    using a by (auto simp: serviceSlot_def Let_def split: if_splits prod.splits)
  show ?case
  proof (cases i)
    case 0
    then show ?thesis using a by (auto simp: eq)
  next
    case (Suc j)
    have "(sv \<or> (\<exists>m < j. pendingUsed (ss ! m) \<and> slotReady e (ss ! m)))
        = (served \<or> (\<exists>m < i. pendingUsed ((s # ss) ! m) \<and> slotReady e ((s # ss) ! m)))"
      by (auto simp: sv Suc less_Suc_eq_0_disj)
    then show ?thesis using Cons.IH [OF b, of j] Cons.prems(2) by (auto simp: eq Suc)
  qed
qed

lemma processWebServer_nth:
  assumes "processWebServer e ss = (evs, ss')" "i < length ss" "pendingUsed (ss ! i)" "list_all slotOk ss"
  shows "\<exists>evsi served sv. serviceSlot e i served (ss ! i) = (evsi, sv, ss' ! i) \<and> set evsi \<subseteq> set evs
    \<and> (incoming e = None \<longrightarrow> served = (\<exists>j < i. pendingUsed (ss ! j) \<and> slotReady e (ss ! j)))"
proof -
  obtain ev1 s1 where a: "takeIncoming e ss = (ev1, s1)" by (metis prod.exhaust)
  obtain ev2 s2 where b: "serviceSlots e 0 False s1 = (ev2, s2)" by (metis prod.exhaust)
  have eq: "evs = ev1 @ ev2" "ss' = s2" using assms(1) a b by (simp_all add: processWebServer_def)
  have len: "length s1 = length ss" using takeIncoming_ok [OF a assms(4)] by simp
  have keep: "s1 ! i = ss ! i"
    using a placeIn_keeps [OF _ assms(2,3)] by (auto simp: takeIncoming_def split: option.splits prod.splits)
  have same: "incoming e = None \<Longrightarrow> s1 = ss" using a by (simp add: takeIncoming_def)
  obtain evsi sv where n: "serviceSlot e (0 + i) (False \<or> (\<exists>j < i. pendingUsed (s1 ! j) \<and> slotReady e (s1 ! j))) (s1 ! i)
      = (evsi, sv, ss' ! i)" "set evsi \<subseteq> set ev2"
    using serviceSlots_nth [OF b, of i] assms(2) by (auto simp: eq len)
  let ?served = "\<exists>j < i. pendingUsed (s1 ! j) \<and> slotReady e (s1 ! j)"
  have "serviceSlot e i ?served (ss ! i) = (evsi, sv, ss' ! i)" using n(1) by (simp add: keep)
  moreover have "set evsi \<subseteq> set evs" using n(2) by (auto simp: eq)
  moreover have "incoming e = None \<longrightarrow> ?served = (\<exists>j < i. pendingUsed (ss ! j) \<and> slotReady e (ss ! j))" using same by auto
  ultimately show ?thesis by (intro exI [of _ evsi] exI [of _ ?served] exI [of _ sv]) simp
qed

section \<open>A silent client\<close>

lemma silent_slot:
  assumes "serviceSlot e i served s = (evs, sv, s')" "pendingUsed s" "pendingClient s = Some c" "\<not> hasData e c"
  shows "if \<not> isOpen e c \<or> idleTooLong (slotAt e i) s then Stopped c \<in> set evs else s' = s"
  using assms by (auto simp: serviceSlot_def slotReady_def slotConnected_def releasePending_def split: if_splits)

text \<open>A silent connection is given up exactly when its time is over. While it sends nothing, a connection keeps its slot
  as long as it stays open and its five seconds have not passed, and it is
  stopped by the first pass that finds it closed or late, whatever the other connections do.\<close>

theorem web_silent_client_reaped:
  assumes "list_all slotOk ss" "i < length ss" "pendingClient (ss ! i) = Some c"
    "list_all (\<lambda>e. \<not> hasData e c) es" "webPasses es ss = (evs, ss')"
  shows "if list_ex (\<lambda>e. \<not> isOpen e c \<or> idleTooLong (slotAt e i) (ss ! i)) es then Stopped c \<in> set evs else ss' ! i = ss ! i"
  using assms
proof (induction es arbitrary: ss evs)
  case Nil
  then show ?case by simp
next
  case (Cons e es)
  obtain ev1 s1 where a: "processWebServer e ss = (ev1, s1)" by (metis prod.exhaust)
  obtain ev2 s2 where b: "webPasses es s1 = (ev2, s2)" by (metis prod.exhaust)
  have eq: "evs = ev1 @ ev2" "ss' = s2" using Cons.prems(5) a b by simp_all
  have u: "pendingUsed (ss ! i)" using Cons.prems(1-3) by (simp add: list_all_length slotOk_def)
  obtain evsi served sv where
    n: "serviceSlot e i served (ss ! i) = (evsi, sv, s1 ! i)" "set evsi \<subseteq> set ev1"
    using processWebServer_nth [OF a Cons.prems(2) u Cons.prems(1)] by blast
  have sil: "if \<not> isOpen e c \<or> idleTooLong (slotAt e i) (ss ! i) then Stopped c \<in> set ev1 else s1 ! i = ss ! i"
    using silent_slot [OF n(1) u Cons.prems(3)] Cons.prems(4) n(2) by auto
  show ?case
  proof (cases "\<not> isOpen e c \<or> idleTooLong (slotAt e i) (ss ! i)")
    case True
    then show ?thesis using sil by (auto simp: eq)
  next
    case False
    have "list_all slotOk s1" "length s1 = length ss" using processWebServer_ok [OF a Cons.prems(1)] by auto
    then show ?thesis
      using Cons.IH [OF _ _ _ _ b [folded eq(2)]] Cons.prems(2-4) False sil by (auto simp: eq(1))
  qed
qed

section \<open>A client that speaks\<close>

text \<open>Newcomers go first: while in every pass a connection arrives that already has its request, it takes the free slot
  0 and is answered, and a client in a later slot whose request is waiting is neither answered nor stopped,
  for as long as this goes on.\<close>

lemma newcomers_starve_waiting_client:
  assumes "list_all slotOk ss" "\<not> pendingUsed (ss ! 0)" "0 < i" "i < length ss" "pendingUsed (ss ! i)"
    "list_all (\<lambda>e. slotReady e (ss ! i) \<and> (\<exists>c. incoming e = Some c \<and> hasData e c)) es"
  shows "snd (webPasses es ss) ! i = ss ! i"
  using assms
proof (induction es arbitrary: ss)
  case Nil
  then show ?case by simp
next
  case (Cons e es)
  obtain evs s1 where a: "processWebServer e ss = (evs, s1)" by (metis prod.exhaust)
  obtain c where c: "incoming e = Some c" "hasData e c" using Cons.prems(6) by auto
  obtain s0 rest where ss: "ss = s0 # rest" using Cons.prems(4) by (cases ss) auto
  define t0 where "t0 = s0\<lparr>pendingClient := Some c, pendingSince := acceptAt e, pendingUsed := True\<rparr>"
  have t: "takeIncoming e ss = ([], t0 # rest)" using Cons.prems(2) c by (simp add: takeIncoming_def ss t0_def)
  obtain ev2 where b: "serviceSlots e 0 False (t0 # rest) = (ev2, s1)"
    using a t by (auto simp: processWebServer_def split: prod.splits)
  have ready: "pendingUsed t0 \<and> slotReady e t0" using c by (simp add: t0_def slotReady_def)
  have "s1 ! 0 = t0\<lparr>pendingClient := None, pendingUsed := False\<rparr>"
    using serviceSlots_nth [OF b, of 0] ready by (auto simp: serviceSlot_def releasePending_def)
  then have zero: "\<not> pendingUsed (s1 ! 0)" by simp
  have "\<exists>j < i. pendingUsed ((t0 # rest) ! j) \<and> slotReady e ((t0 # rest) ! j)"
    using ready Cons.prems(3) by (intro exI [of _ 0]) simp
  moreover have "(t0 # rest) ! i = ss ! i" using Cons.prems(3) by (simp add: ss)
  ultimately have keep: "s1 ! i = ss ! i"
    using serviceSlots_nth [OF b, of i] Cons.prems(4-6) by (auto simp: serviceSlot_def ss)
  have ok: "list_all slotOk s1" "length s1 = length ss" using processWebServer_ok [OF a Cons.prems(1)] by auto
  show ?case
    using Cons.IH [OF ok(1) zero Cons.prems(3)] ok(2) Cons.prems(4-6) keep a by (auto split: prod.splits)
qed

definition quietPass :: "nat option \<Rightarrow> u32 \<Rightarrow> nat Pass" where
  "quietPass c now = \<lparr>incoming = c, acceptAt = now, hasData = (\<lambda>_. False), isOpen = (\<lambda>_. True), slotAt = (\<lambda>_. now)\<rparr>"

definition holding :: "nat \<Rightarrow> u32 \<Rightarrow> nat Slot" where
  "holding c since = \<lparr>pendingClient = Some c, pendingSince = since, pendingUsed = True\<rparr>"

lemma web_silent_client_reaped_witness:
  "Stopped 7 \<in> set (fst (webPasses [quietPass None 4000, quietPass None 5100] [holding 7 100, freeSlot, freeSlot, freeSlot]))"
proof -
  let ?es = "[quietPass None 4000, quietPass None 5100]"
  have "if list_ex (\<lambda>e. \<not> isOpen e (7 :: nat) \<or> idleTooLong (slotAt e 0) (holding 7 100)) ?es
    then Stopped 7 \<in> set (fst (webPasses ?es [holding 7 100, freeSlot, freeSlot, freeSlot])) else True"
    using web_silent_client_reaped [of "[holding 7 100, freeSlot, freeSlot, freeSlot]" 0 7 ?es,
        OF _ _ _ _ prod.collapse [symmetric]]
    by (simp add: slotOk_def holding_def freeSlot_def quietPass_def split: if_splits)
  then show ?thesis by (simp add: quietPass_def holding_def idleTooLong_def const_defs)
qed

end
