(* ===== verification/Ntp.thy ===== *)
theory Ntp
  imports Event_Log
begin

unbundle bit_operations_syntax

text \<open>
  \<open>src/src/ntp_utils.h\<close> and \<open>ntpTask\<close> of \<open>src/src/utils.cpp\<close>: the clock from the network. A request carries a token
  in its transmit time stamp, which a server copies into the reply; only a reply that is from
  the server's address and port, whole, well-formed and carries the token of the last request sets the clock of
  \<open>Event_Log\<close>.

  What a pass of the loop finds is the record \<open>NtpEnv\<close>: the time, a received datagram, whether there is an address, what the
  resolver answers, whether the outputs are inhibited, and the counters the token is made of. What a pass
  does on the network is its list of events. Watchdog kicks are left out.
\<close>

section \<open>Packets\<close>

definition NtpPacketSize :: nat where [const_defs]: "NtpPacketSize = 48"
definition SecondsFrom1900To1970 :: u32 where [const_defs]: "SecondsFrom1900To1970 = 2208988800"

primrec ntpWriteBytes :: "nat \<Rightarrow> nat \<Rightarrow> u64 \<Rightarrow> byte list \<Rightarrow> byte list" where
  "ntpWriteBytes off 0 v p = p"
| "ntpWriteBytes off (Suc i) v p = ntpWriteBytes off i (drop_bit 8 v) (p[off + i := ucast v])"

definition ntpWriteU64 :: "byte list \<Rightarrow> nat \<Rightarrow> u64 \<Rightarrow> byte list" where
  "ntpWriteU64 p off v = ntpWriteBytes off 8 v p"

definition ntpReadU64 :: "byte list \<Rightarrow> nat \<Rightarrow> u64" where
  "ntpReadU64 p off = foldl (\<lambda>v i. push_bit 8 v OR ucast (p ! (off + i))) 0 [0..<8]"

definition buildNtpRequest :: "u64 \<Rightarrow> byte list" where
  "buildNtpRequest associationToken =
     ntpWriteU64 ((replicate NtpPacketSize 0)[0 := 0xE3, 1 := 0, 2 := 6, 3 := 0xEC, 12 := 49, 13 := 0x4E, 14 := 49, 15 := 52])
       40 associationToken"

definition parseNtpSeconds :: "byte list \<Rightarrow> u32" where
  "parseNtpSeconds p =
     ((push_bit 24 (ucast (p ! 40)) OR push_bit 16 (ucast (p ! 41))) OR push_bit 8 (ucast (p ! 42))) OR ucast (p ! 43)"

definition ntpToUnixEpoch :: "u32 \<Rightarrow> u32" where
  "ntpToUnixEpoch secsSince1900 = secsSince1900 - SecondsFrom1900To1970"

definition validateNtpResponse :: "byte list \<Rightarrow> u64 \<Rightarrow> u32 option" where
  "validateNtpResponse p associationToken =
     (let li = drop_bit 6 (p ! 0); version = drop_bit 3 (p ! 0) AND 7; mode = p ! 0 AND 7; stratum = p ! 1 in
      if li = 3 \<or> (version \<noteq> 3 \<and> version \<noteq> 4) \<or> mode \<noteq> 4 \<or> stratum = 0 \<or> stratum > 15
         \<or> ntpReadU64 p 24 \<noteq> associationToken then None
      else if parseNtpSeconds p < SecondsFrom1900To1970 then None
      else Some (parseNtpSeconds p))"

section \<open>The client\<close>

definition NtpResyncIntervalMs :: u32 where [const_defs]: "NtpResyncIntervalMs = 3600000"
definition NtpRetryIntervalMs :: u32 where [const_defs]: "NtpRetryIntervalMs = 60000"
definition NtpReplyTimeoutMs :: u32 where [const_defs]: "NtpReplyTimeoutMs = 2000"

record NtpClient =
  ntpAddr :: u32
  ntpAddrValid :: bool
  ntpAwaiting :: bool
  ntpAssociationToken :: u64
  ntpSentAt :: u32
  ntpLastAttempt :: u32
  ntpEverAttempted :: bool

definition ntpBoot :: NtpClient where
  "ntpBoot = \<lparr>ntpAddr = 0, ntpAddrValid = False, ntpAwaiting = False, ntpAssociationToken = 0, ntpSentAt = 0,
     ntpLastAttempt = 0, ntpEverAttempted = False\<rparr>"

record NtpEnv =
  nowMs :: u32
  datagram :: "(u32 \<times> u16 \<times> byte list) option"
  localIP :: u32
  serverLiteral :: "u32 option"
  dnsAnswer :: "u32 option"
  ntpInhibited :: bool
  cycleCount :: u32
  microsNow :: u32
  millisNow :: u32
  rtcNow :: u32

datatype NtpEvent = DnsLookup | NtpSent u32 u64 "byte list" | NtpRejected | NtpAdopted u32 u64 u32

type_synonym NtpState = "EventLog \<times> Clock \<times> NtpClient"

definition parsePacket :: "NtpEnv \<Rightarrow> (u32 \<times> u16 \<times> byte list) option" where
  "parsePacket e = (case datagram e of Some (src, port, d) \<Rightarrow> if d \<noteq> [] then Some (src, port, d) else None | None \<Rightarrow> None)"

definition associated :: "u32 \<Rightarrow> u16 \<Rightarrow> byte list \<Rightarrow> NtpClient \<Rightarrow> u32 option" where
  "associated src port d n =
     (if src = ntpAddr n \<and> port = 123 \<and> length (take NtpPacketSize d) = NtpPacketSize
      then validateNtpResponse (take NtpPacketSize d) (ntpAssociationToken n) else None)"

definition ntpReply :: "NtpEnv \<Rightarrow> u32 \<times> u16 \<times> byte list \<Rightarrow> NtpState \<Rightarrow> NtpEvent list \<times> NtpState" where
  "ntpReply e = (\<lambda>(src, port, d) (log, clk, n).
     case associated src port d n of
       None \<Rightarrow> ([NtpRejected], eventLogRecord log clk (millisNow e) EventWarn
                  (Some ''NTP reply rejected (source/association/header)''), clk, n)
     | Some secs \<Rightarrow>
         (let epoch = ntpToUnixEpoch secs; n = n\<lparr>ntpAwaiting := False\<rparr> in
          if epoch \<ge> MinPlausibleEpoch
          then let (log, clk, rtc) = eventClockSynced log clk epoch (rtcNow e) (millisNow e)
               in ([NtpAdopted (ntpAddr n) (ntpAssociationToken n) epoch], log, clk, n)
          else ([NtpRejected], eventLogRecord log clk (millisNow e) EventWarn
                  (Some ''NTP reply rejected (implausible time)''), clk, n)))"

definition ntpResolve :: "NtpEnv \<Rightarrow> NtpClient \<Rightarrow> NtpEvent list \<times> NtpClient" where
  "ntpResolve e n =
     (if ntpAddrValid n then ([], n)
      else case serverLiteral e of
        Some a \<Rightarrow> ([], n\<lparr>ntpAddr := a, ntpAddrValid := True\<rparr>)
      | None \<Rightarrow> if \<not> ntpInhibited e then ([], n)
               else ([DnsLookup], case dnsAnswer e of Some a \<Rightarrow> n\<lparr>ntpAddr := a, ntpAddrValid := True\<rparr> | None \<Rightarrow> n))"

definition ntpToken :: "NtpEnv \<Rightarrow> u64" where
  "ntpToken e =
     (let t = (push_bit 32 (ucast (cycleCount e)) XOR ucast (microsNow e)) XOR push_bit 11 (ucast (millisNow e))
      in if t = 0 then 1 else t)"

definition ntpDue :: "Clock \<Rightarrow> u32" where
  "ntpDue clk = (if ntpSynced clk then NtpResyncIntervalMs else NtpRetryIntervalMs)"

definition ntpTask :: "NtpEnv \<Rightarrow> NtpState \<Rightarrow> NtpEvent list \<times> NtpState" where
  "ntpTask e = (\<lambda>(log, clk, n).
     if ntpAwaiting n
     then (case parsePacket e of
             Some d \<Rightarrow> ntpReply e d (log, clk, n)
           | None \<Rightarrow> ([], log, clk, if nowMs e - ntpSentAt n > NtpReplyTimeoutMs then n\<lparr>ntpAwaiting := False\<rparr> else n))
     else if ntpEverAttempted n \<and> nowMs e - ntpLastAttempt n < ntpDue clk then ([], log, clk, n)
     else if localIP e = 0 then ([], log, clk, n)
     else let (evs, n) = ntpResolve e (n\<lparr>ntpLastAttempt := nowMs e, ntpEverAttempted := True\<rparr>) in
       if \<not> ntpAddrValid n then (evs, log, clk, n)
       else let n = n\<lparr>ntpAssociationToken := ntpToken e\<rparr> in
         (evs @ [NtpSent (ntpAddr n) (ntpToken e) (buildNtpRequest (ntpToken e))], log, clk,
          n\<lparr>ntpSentAt := millisNow e, ntpAwaiting := True\<rparr>))"

primrec ntpRun :: "NtpEnv list \<Rightarrow> NtpState \<Rightarrow> NtpEvent list \<times> NtpState" where
  "ntpRun [] s = ([], s)"
| "ntpRun (e # es) s = (let (evs, s) = ntpTask e s; (evs', s) = ntpRun es s in (evs @ evs', s))"

section \<open>Packets round trip\<close>

lemma length_ntpWriteBytes [simp]: "length (ntpWriteBytes off n v p) = length p"
  by (induction n arbitrary: v p) simp_all

lemma ntpWriteBytes_outside: "i < off \<or> off + n \<le> i \<Longrightarrow> ntpWriteBytes off n v p ! i = p ! i"
  by (induction n arbitrary: v p) auto

lemma read_bytes:
  assumes "off + n \<le> length p"
  shows "foldl (\<lambda>w i. push_bit 8 w OR ucast (ntpWriteBytes off n v p ! (off + i))) 0 [0..<n] = take_bit (8 * n) (v :: u64)"
  using assms
proof (induction n arbitrary: v p)
  case 0
  then show ?case by simp
next
  case (Suc n)
  let ?p = "p[off + n := ucast v]"
  have r: "foldl (\<lambda>w i. push_bit 8 w OR ucast (ntpWriteBytes off n (drop_bit 8 v) ?p ! (off + i))) 0 [0..<n]
      = take_bit (8 * n) (drop_bit 8 v)"
    using Suc.prems by (intro Suc.IH) simp
  have b: "ntpWriteBytes off n (drop_bit 8 v) ?p ! (off + n) = ucast v"
    using Suc.prems by (simp add: ntpWriteBytes_outside)
  have "push_bit 8 (take_bit (8 * n) (drop_bit 8 v)) OR ucast (ucast v :: byte) = take_bit (8 * Suc n) v"
    by (rule bit_word_eqI) (auto simp: bit_simps)
  then show ?case by (simp add: r b)
qed

lemma length_ntpWriteU64 [simp]: "length (ntpWriteU64 p off v) = length p"
  by (simp add: ntpWriteU64_def)

lemma ntpWriteU64_outside: "i < off \<or> off + 8 \<le> i \<Longrightarrow> ntpWriteU64 p off v ! i = p ! i"
  unfolding ntpWriteU64_def by (rule ntpWriteBytes_outside)

lemma ntp_u64_round_trip:
  assumes "off + 8 \<le> length p"
  shows "ntpReadU64 (ntpWriteU64 p off v) off = v"
  using read_bytes [OF assms] by (simp add: ntpReadU64_def ntpWriteU64_def take_bit_word_eq_self)

text \<open>A request is not taken for a reply, so a datagram sent back unchanged is rejected.\<close>

lemma request_is_no_reply: "validateNtpResponse (buildNtpRequest t) t' = None"
proof -
  have "buildNtpRequest t ! 0 = 0xE3" by (simp add: buildNtpRequest_def ntpWriteU64_outside NtpPacketSize_def)
  then show ?thesis by (simp add: validateNtpResponse_def Let_def)
qed

text \<open>What a server of version 4 answers: the token where the request had it, its stratum and the time.\<close>

definition serverReply :: "u64 \<Rightarrow> byte \<Rightarrow> u64 \<Rightarrow> byte list" where
  "serverReply originate stratum transmit =
     ntpWriteU64 (ntpWriteU64 ((replicate 48 0)[0 := 0x24, 1 := stratum]) 24 originate) 40 transmit"

lemma read_outside:
  assumes "off' + 8 \<le> off \<or> off + 8 \<le> off'"
  shows "ntpReadU64 (ntpWriteU64 p off v) off' = ntpReadU64 p off'"
proof -
  have "map (\<lambda>i. ntpWriteU64 p off v ! (off' + i)) [0..<8] = map (\<lambda>i. p ! (off' + i)) [0..<8]"
    using assms by (intro map_cong refl ntpWriteU64_outside) auto
  moreover have "ntpReadU64 q off' = foldl (\<lambda>w b. push_bit 8 w OR ucast b) 0 (map (\<lambda>i. q ! (off' + i)) [0..<8])" for q
    by (simp only: ntpReadU64_def foldl_map)
  ultimately show ?thesis by (simp only:)
qed

lemma written_byte:
  "k < n \<Longrightarrow> off + n \<le> length p \<Longrightarrow> ntpWriteBytes off n v p ! (off + k) = ucast (drop_bit (8 * (n - 1 - k)) v)"
proof (induction n arbitrary: v p)
  case 0
  then show ?case by simp
next
  case (Suc n)
  show ?case
  proof (cases "k = n")
    case True
    then show ?thesis using Suc.prems by (simp add: ntpWriteBytes_outside)
  next
    case False
    then have "8 + 8 * (n - Suc k) = 8 * (n - k)" using Suc.prems(1) by simp
    then show ?thesis using Suc.IH [of "p[off + n := ucast v]" "drop_bit 8 v"] Suc.prems False
      by (simp add: drop_bit_drop_bit add.commute)
  qed
qed

lemma reply_seconds: "parseNtpSeconds (serverReply t stratum tx) = ucast (drop_bit 32 tx)"
proof -
  have w: "serverReply t stratum tx ! (40 + k) = ucast (drop_bit (8 * (8 - 1 - k)) tx)" if "k < 8" for k
    unfolding serverReply_def ntpWriteU64_def [of _ 40] using that by (intro written_byte) simp_all
  have b: "serverReply t stratum tx ! 40 = ucast (drop_bit 56 tx)" "serverReply t stratum tx ! 41 = ucast (drop_bit 48 tx)"
    "serverReply t stratum tx ! 42 = ucast (drop_bit 40 tx)" "serverReply t stratum tx ! 43 = ucast (drop_bit 32 tx)"
    using w [of 0] w [of 1] w [of 2] w [of 3] by simp_all
  show ?thesis
  proof (rule bit_word_eqI)
    fix n assume "n < LENGTH(32)"
    then have "n < 8 \<or> (\<exists>m < 8. n = 8 + m) \<or> (\<exists>m < 8. n = 16 + m) \<or> (\<exists>m < 8. n = 24 + m)"
      by (simp, presburger)
    then show "bit (parseNtpSeconds (serverReply t stratum tx)) n = bit (ucast (drop_bit 32 tx) :: u32) n"
      unfolding parseNtpSeconds_def b by (elim disjE exE conjE) (auto simp: bit_simps)
  qed
qed

lemma reply_accepted:
  assumes "1 \<le> stratum" "stratum \<le> 15" "SecondsFrom1900To1970 \<le> ucast (drop_bit 32 tx)"
  shows "validateNtpResponse (serverReply t stratum tx) t = Some (ucast (drop_bit 32 tx))"
proof -
  have b: "serverReply t stratum tx ! 0 = 0x24" "serverReply t stratum tx ! 1 = stratum"
    by (simp_all add: serverReply_def ntpWriteU64_outside)
  have "ntpReadU64 (serverReply t stratum tx) 24 = t"
    unfolding serverReply_def by (simp add: read_outside ntp_u64_round_trip)
  moreover have "stratum \<noteq> 0" "\<not> stratum > 15" using assms(1,2) by auto
  ultimately show ?thesis
    using assms(3) unfolding validateNtpResponse_def Let_def b reply_seconds by simp
qed

section \<open>The clock is set by the server that was asked\<close>

text \<open>The events of a run, read with the request that is still unanswered: a time is adopted only from the
  address that was asked, for the token that was sent to it, once, and only a plausible one.\<close>

primrec agreed :: "(u32 \<times> u64) option \<Rightarrow> NtpEvent list \<Rightarrow> bool" where
  "agreed q [] = True"
| "agreed q (ev # evs) =
     (case ev of
        NtpSent a t p \<Rightarrow> p = buildNtpRequest t \<and> t \<noteq> 0 \<and> agreed (Some (a, t)) evs
      | NtpAdopted a t epoch \<Rightarrow> q = Some (a, t) \<and> MinPlausibleEpoch \<le> epoch \<and> agreed None evs
      | NtpRejected \<Rightarrow> agreed q evs
      | DnsLookup \<Rightarrow> agreed q evs)"

primrec pendingAfter :: "(u32 \<times> u64) option \<Rightarrow> NtpEvent list \<Rightarrow> (u32 \<times> u64) option" where
  "pendingAfter q [] = q"
| "pendingAfter q (ev # evs) =
     pendingAfter (case ev of NtpSent a t p \<Rightarrow> Some (a, t) | NtpAdopted a t epoch \<Rightarrow> None | _ \<Rightarrow> q) evs"

lemma agreed_append: "agreed q (xs @ ys) \<longleftrightarrow> agreed q xs \<and> agreed (pendingAfter q xs) ys"
  by (induction xs arbitrary: q) (auto split: NtpEvent.split)

lemma pendingAfter_append: "pendingAfter q (xs @ ys) = pendingAfter (pendingAfter q xs) ys"
  by (induction xs arbitrary: q) simp_all

definition ntpInv :: "(u32 \<times> u64) option \<Rightarrow> NtpClient \<Rightarrow> bool" where
  "ntpInv q n \<longleftrightarrow> (ntpAwaiting n \<longrightarrow> q = Some (ntpAddr n, ntpAssociationToken n))"

lemma resolve_events: "set (fst (ntpResolve e n)) \<subseteq> {DnsLookup} \<and> (fst (ntpResolve e n) \<noteq> [] \<longrightarrow> ntpInhibited e)"
  by (auto simp: ntpResolve_def split: option.splits)

lemma dns_neutral: "set evs \<subseteq> {DnsLookup} \<Longrightarrow> pendingAfter q evs = q \<and> agreed q evs"
  by (induction evs) auto

lemma ntpToken_nonzero: "ntpToken e \<noteq> 0"
  by (simp add: ntpToken_def Let_def)

lemma resolve_fields:
  "ntpAwaiting (snd (ntpResolve e n)) = ntpAwaiting n" "ntpLastAttempt (snd (ntpResolve e n)) = ntpLastAttempt n"
  by (simp_all add: ntpResolve_def split: option.split)

lemma ntpTask_inv:
  assumes "ntpTask e (log, clk, n) = (evs, log', clk', n')" "ntpInv q n"
  shows "agreed q evs \<and> ntpInv (pendingAfter q evs) n' \<and> (clk' = clk \<or> (\<exists>a t epoch. evs = [NtpAdopted a t epoch]
     \<and> clk' = \<lparr>clockValid = True, ntpSynced = True, baseEpoch = epoch, baseMillis = millisNow e\<rparr>))"
proof (cases "ntpAwaiting n")
  case True
  then have q: "q = Some (ntpAddr n, ntpAssociationToken n)" using assms(2) by (simp add: ntpInv_def)
  show ?thesis
  proof (cases "parsePacket e")
    case None
    then show ?thesis using True assms by (auto simp: ntpTask_def ntpInv_def split: if_splits)
  next
    case (Some d)
    obtain src port b where d: "d = (src, port, b)" by (cases d)
    have r: "ntpReply e (src, port, b) (log, clk, n) = (evs, log', clk', n')"
      using assms(1) True Some d by (simp add: ntpTask_def)
    show ?thesis
    proof (cases "associated src port b n")
      case None
      then show ?thesis using r assms(2) by (auto simp: ntpReply_def)
    next
      case (Some secs)
      then show ?thesis
        using r q by (auto simp: ntpReply_def Let_def ntpInv_def eventClockSynced_def not_less split: if_splits)
    qed
  qed
next
  case idle: False
  let ?m = "n\<lparr>ntpLastAttempt := nowMs e, ntpEverAttempted := True\<rparr>"
  obtain ev m where m: "ntpResolve e ?m = (ev, m)" by (metis prod.exhaust)
  have d: "pendingAfter q ev = q \<and> agreed q ev" using resolve_events [of e ?m] m dns_neutral by simp
  have w: "\<not> ntpAwaiting m" using resolve_fields(1) [of e ?m] m idle by simp
  show ?thesis
    using assms idle m d w ntpToken_nonzero [of e]
    by (auto simp: ntpTask_def ntpInv_def Let_def agreed_append pendingAfter_append split: if_splits)
qed

lemma ntp_clock_only_from_server_asked:
  assumes "ntpRun es (log, clk, n) = (evs, log', clk', n')" "ntpInv q n"
  shows "agreed q evs \<and> (clk' \<noteq> clk \<longrightarrow> (\<exists>a t epoch. NtpAdopted a t epoch \<in> set evs \<and> baseEpoch clk' = epoch))"
  using assms
proof (induction es arbitrary: log clk n evs q)
  case Nil
  then show ?case by simp
next
  case (Cons e es)
  obtain ev1 l1 c1 n1 where a: "ntpTask e (log, clk, n) = (ev1, l1, c1, n1)" by (metis prod.exhaust)
  obtain ev2 s2 where b: "ntpRun es (l1, c1, n1) = (ev2, s2)" by (metis prod.exhaust)
  have eq: "evs = ev1 @ ev2" "s2 = (log', clk', n')" using Cons.prems(1) a b by simp_all
  note i = ntpTask_inv [OF a Cons.prems(2)]
  have "agreed (pendingAfter q ev1) ev2 \<and> (clk' \<noteq> c1 \<longrightarrow> (\<exists>a t epoch. NtpAdopted a t epoch \<in> set ev2 \<and> baseEpoch clk' = epoch))"
    using Cons.IH [OF b [unfolded eq(2)]] i by blast
  moreover have "\<exists>a t epoch. NtpAdopted a t epoch \<in> set ev1 \<and> baseEpoch clk' = epoch" if "clk' = c1" "clk' \<noteq> clk"
    using i that by fastforce
  ultimately show ?case using i by (auto simp: eq(1) agreed_append)
qed

section \<open>Traffic\<close>

text \<open>A request goes out only when the last attempt is old enough, and the resolver, which blocks, is called
  only while the outputs are inhibited.\<close>

lemma ntp_traffic_bounded:
  assumes "ntpTask e (log, clk, n) = (evs, log', clk', n')"
  shows "(\<exists>a t p. NtpSent a t p \<in> set evs) \<or> DnsLookup \<in> set evs \<longrightarrow>
      \<not> ntpAwaiting n \<and> (ntpEverAttempted n \<longrightarrow> nowMs e - ntpLastAttempt n \<ge> ntpDue clk) \<and> ntpLastAttempt n' = nowMs e"
    "DnsLookup \<in> set evs \<longrightarrow> ntpInhibited e"
proof -
  have "((\<exists>a t p. NtpSent a t p \<in> set evs) \<or> DnsLookup \<in> set evs \<longrightarrow>
      \<not> ntpAwaiting n \<and> (ntpEverAttempted n \<longrightarrow> nowMs e - ntpLastAttempt n \<ge> ntpDue clk) \<and> ntpLastAttempt n' = nowMs e)
    \<and> (DnsLookup \<in> set evs \<longrightarrow> ntpInhibited e)"
  proof (cases "ntpAwaiting n")
    case True
    then show ?thesis
      using assms by (auto simp: ntpTask_def ntpReply_def Let_def split: option.splits if_splits prod.splits)
  next
    case False
    let ?m = "n\<lparr>ntpLastAttempt := nowMs e, ntpEverAttempted := True\<rparr>"
    obtain ev m where m: "ntpResolve e ?m = (ev, m)" by (metis prod.exhaust)
    have r: "set ev \<subseteq> {DnsLookup}" "ev \<noteq> [] \<longrightarrow> ntpInhibited e" "ntpLastAttempt m = nowMs e"
      using resolve_events [of e ?m] resolve_fields(2) [of e ?m] m by simp_all
    show ?thesis
      using assms False m r by (auto simp: ntpTask_def Let_def not_less split: if_splits)
  qed
  then show "(\<exists>a t p. NtpSent a t p \<in> set evs) \<or> DnsLookup \<in> set evs \<longrightarrow>
      \<not> ntpAwaiting n \<and> (ntpEverAttempted n \<longrightarrow> nowMs e - ntpLastAttempt n \<ge> ntpDue clk) \<and> ntpLastAttempt n' = nowMs e"
    "DnsLookup \<in> set evs \<longrightarrow> ntpInhibited e" by blast+
qed

text \<open>An exchange succeeds: after a request, the reply of the server it was sent to, in a later pass with nothing
  received in between, sets the clock to the time the reply carries.\<close>

lemma ntp_exchange_syncs:
  assumes "ntpTask e1 (log, clk, n) = (ev1, log1, clk1, n1)" "NtpSent a t p \<in> set ev1"
    and "datagram e2 = Some (a, 123, serverReply t stratum tx)" "1 \<le> stratum" "stratum \<le> 15"
    and "SecondsFrom1900To1970 \<le> ucast (drop_bit 32 tx)"
    and "MinPlausibleEpoch \<le> ntpToUnixEpoch (ucast (drop_bit 32 tx))"
    and "ntpTask e2 (log1, clk1, n1) = (ev2, log2, clk2, n2)"
  shows "ev2 = [NtpAdopted a t (ntpToUnixEpoch (ucast (drop_bit 32 tx)))] \<and> \<not> ntpAwaiting n2
    \<and> clk2 = \<lparr>clockValid = True, ntpSynced = True, baseEpoch = ntpToUnixEpoch (ucast (drop_bit 32 tx)), baseMillis = millisNow e2\<rparr>"
proof -
  have idle: "\<not> ntpAwaiting n" using ntp_traffic_bounded(1) [OF assms(1)] assms(2) by blast
  let ?m = "n\<lparr>ntpLastAttempt := nowMs e1, ntpEverAttempted := True\<rparr>"
  have n1: "ntpAwaiting n1" "ntpAddr n1 = a" "ntpAssociationToken n1 = t"
    using assms(1,2) idle resolve_events [of e1 ?m]
    by (auto simp: ntpTask_def Let_def split_def split: if_splits)
  have len: "length (serverReply t stratum tx) = 48" by (simp add: serverReply_def)
  then have ne: "serverReply t stratum tx \<noteq> []" by auto
  have "associated a 123 (serverReply t stratum tx) n1 = Some (ucast (drop_bit 32 tx))"
    using reply_accepted [OF assms(4-6)] n1 len by (simp add: associated_def NtpPacketSize_def)
  then show ?thesis
    using assms(8) n1 assms(3,7) ne
    by (auto simp: ntpTask_def parsePacket_def ntpReply_def Let_def eventClockSynced_def split: if_splits)
qed

text \<open>A rejected datagram returns before the timeout is looked at: as long as something arrives in every pass that is not
  the reply, the client keeps waiting and sends nothing, however long ago it asked.\<close>

lemma ntp_flood_postpones_timeout:
  assumes "ntpAwaiting n"
    and "list_all (\<lambda>e. \<exists>src port d. datagram e = Some (src, port, d) \<and> d \<noteq> [] \<and> associated src port d n = None) es"
  shows "\<exists>log'. ntpRun es (log, clk, n) = (replicate (length es) NtpRejected, log', clk, n)"
  using assms(2)
proof (induction es arbitrary: log)
  case (Cons e es)
  obtain src port d where d: "datagram e = Some (src, port, d)" "d \<noteq> []" "associated src port d n = None"
    using Cons.prems by auto
  obtain l1 where "ntpTask e (log, clk, n) = ([NtpRejected], l1, clk, n)"
    using assms(1) d by (simp add: ntpTask_def parsePacket_def ntpReply_def)
  moreover obtain l2 where "ntpRun es (l1, clk, n) = (replicate (length es) NtpRejected, l2, clk, n)"
    using Cons by auto
  ultimately show ?case by simp
qed simp

end
