(* ===== verification/Mtp_Service.thy ===== *)
theory Mtp_Service
  imports Config_Types
begin

text \<open>
  \<open>src/src/mtp_service.cpp\<close>: files over USB, a maintenance service. A transfer holds the loop and reads the card,
  and until the library's first \<open>MTP.loop()\<close> a timer started by \<open>MTP.begin()\<close> queries the file system from an interrupt;
  so the service runs only while the outputs are inhibited, and the release of the outputs waits for the first
  loop (\<open>mtpAllowsPwmRelease\<close>, which \<open>Pwm_Protection\<close> reads as \<open>mtpAllows\<close>).

  The module's variables are the record \<open>Mtp\<close>; what a pass finds is \<open>MtpEnv\<close>; the calls into the library are
  events. Log lines are left out.
\<close>

record MtpEnv =
  mtpWanted :: bool
  mtpInhibited :: bool
  mtpOta :: bool
  qspiAdded :: bool
  sdPresent :: bool

datatype MtpCall = AddQspi | UseQspiForIndex | AddSd | MtpBegin | MtpLoop

record Mtp =
  mtpStarted :: bool
  firstLoopDone :: bool
  mtpPausedNow :: bool
  pausedPasses :: u32

definition mtpBoot :: Mtp where
  "mtpBoot = \<lparr>mtpStarted = False, firstLoopDone = False, mtpPausedNow = False, pausedPasses = 0\<rparr>"

definition mtpFinishStartup :: "MtpEnv \<Rightarrow> Mtp \<Rightarrow> bool \<times> MtpCall list \<times> Mtp" where
  "mtpFinishStartup e m =
     (if firstLoopDone m \<or> \<not> mtpInhibited e \<or> mtpOta e then (False, [], m)
      else (True, [MtpLoop], m\<lparr>firstLoopDone := True\<rparr>))"

definition mtpBegin :: "MtpEnv \<Rightarrow> Mtp \<Rightarrow> MtpCall list \<times> Mtp" where
  "mtpBegin e m =
     (if \<not> mtpWanted e \<or> mtpStarted m then ([], m)
      else if \<not> mtpInhibited e then ([], m)
      else let stores = [AddQspi] @ (if qspiAdded e then [UseQspiForIndex] else []) @ (if sdPresent e then [AddSd] else []);
               (done1, calls, m) = mtpFinishStartup e (m\<lparr>mtpStarted := True\<rparr>)
           in (stores @ [MtpBegin] @ calls, m))"

definition mtpTask :: "MtpEnv \<Rightarrow> Mtp \<Rightarrow> MtpCall list \<times> Mtp" where
  "mtpTask e m =
     (if \<not> mtpStarted m then if mtpWanted e \<and> mtpInhibited e then mtpBegin e m else ([], m)
      else let (finished, calls, m) = mtpFinishStartup e m in
        if finished then (calls, m)
        else if mtpOta e \<or> \<not> mtpInhibited e then (calls, m\<lparr>mtpPausedNow := True, pausedPasses := pausedPasses m + 1\<rparr>)
        else (calls @ [MtpLoop], m\<lparr>mtpPausedNow := False\<rparr>))"

definition mtpAllowsPwmRelease :: "Mtp \<Rightarrow> bool" where
  "mtpAllowsPwmRelease m \<longleftrightarrow> \<not> mtpStarted m \<or> firstLoopDone m"

section \<open>The service and the outputs\<close>

text \<open>A pass of the service, or the outputs changing: they are released only when the service allows it.\<close>

datatype MtpStep = ServicePass MtpEnv | ReleaseOutputs | InhibitOutputs

text \<open>The state: the service, whether the outputs are inhibited, and all calls into the library so far.\<close>

definition mtpStep :: "MtpStep \<Rightarrow> Mtp \<times> bool \<times> MtpCall list \<Rightarrow> Mtp \<times> bool \<times> MtpCall list" where
  "mtpStep st = (\<lambda>(m, inhibited, calls). case st of
     ServicePass e \<Rightarrow> (let (cs, m) = mtpTask (e\<lparr>mtpInhibited := inhibited\<rparr>) m in (m, inhibited, calls @ cs))
   | ReleaseOutputs \<Rightarrow> (m, inhibited \<and> \<not> mtpAllowsPwmRelease m, calls)
   | InhibitOutputs \<Rightarrow> (m, True, calls))"

definition mtpRun :: "MtpStep list \<Rightarrow> Mtp \<times> bool \<times> MtpCall list \<Rightarrow> Mtp \<times> bool \<times> MtpCall list" where
  "mtpRun sts s = foldl (\<lambda>s st. mtpStep st s) s sts"

lemma mtp_calls_need_inhibit:
  assumes "mtpTask e m = (calls, m')" "calls \<noteq> []"
  shows "mtpInhibited e" "MtpLoop \<in> set calls \<Longrightarrow> \<not> mtpOta e"
  using assms
  by (auto simp: mtpTask_def mtpBegin_def mtpFinishStartup_def Let_def split: if_splits)

definition mtpInv :: "Mtp \<times> bool \<times> MtpCall list \<Rightarrow> bool" where
  "mtpInv = (\<lambda>(m, inhibited, calls). (\<not> inhibited \<longrightarrow> mtpAllowsPwmRelease m)
     \<and> count_list calls MtpBegin = of_bool (mtpStarted m) \<and> (firstLoopDone m \<longleftrightarrow> MtpLoop \<in> set calls)
     \<and> (firstLoopDone m \<longrightarrow> mtpStarted m))"

lemma mtpTask_inv:
  assumes "mtpInv (m, mtpInhibited e, calls)" "mtpTask e m = (cs, m')"
  shows "mtpInv (m', mtpInhibited e, calls @ cs)"
  using assms
  by (auto simp: mtpInv_def mtpTask_def mtpBegin_def mtpFinishStartup_def mtpAllowsPwmRelease_def Let_def split: if_splits)

lemma mtpStep_inv: "mtpInv s \<Longrightarrow> mtpInv (mtpStep st s)"
proof (cases st)
  case (ServicePass e)
  assume i: "mtpInv s"
  obtain m inhibited calls where s: "s = (m, inhibited, calls)" by (cases s)
  obtain cs m' where t: "mtpTask (e\<lparr>mtpInhibited := inhibited\<rparr>) m = (cs, m')" by (metis prod.exhaust)
  show ?thesis using mtpTask_inv [OF _ t, of calls] i by (simp add: s ServicePass mtpStep_def t)
qed (auto simp: mtpStep_def mtpInv_def split: prod.splits)

text \<open>Whatever the order of service passes, releases and trips after start-up: while the outputs are live, the timer that
  reads the file system from an interrupt is not running (the library was not started, or has had its first
  loop), and the library is started at most once and never called before it is.\<close>

lemma mtp_timer_never_with_live_outputs:
  assumes "mtpRun sts (mtpBoot, True, []) = (m, inhibited, calls)"
  shows "(\<not> inhibited \<longrightarrow> MtpBegin \<notin> set calls \<or> MtpLoop \<in> set calls) \<and> count_list calls MtpBegin \<le> 1
    \<and> (MtpLoop \<in> set calls \<longrightarrow> MtpBegin \<in> set calls)"
proof -
  have "mtpInv (foldl (\<lambda>s st. mtpStep st s) s sts)" if "mtpInv s" for s
    using that by (induction sts arbitrary: s) (simp_all add: mtpStep_inv)
  then have "mtpInv (mtpRun sts (mtpBoot, True, []))" by (simp add: mtpRun_def mtpInv_def mtpBoot_def)
  then have i: "mtpInv (m, inhibited, calls)" using assms by simp
  have "MtpBegin \<in> set calls \<longleftrightarrow> mtpStarted m"
    using i count_list_0_iff [of calls MtpBegin] by (auto simp: mtpInv_def split: if_splits)
  then show ?thesis using i by (auto simp: mtpInv_def mtpAllowsPwmRelease_def)
qed

text \<open>The start does not ask for an update in progress, as every later pass does: a service that waited for the outputs
  is started by the update that inhibits them, and the timer then runs until the update is over.\<close>

lemma mtp_starts_during_update:
  assumes "mtpWanted e" "mtpInhibited e" "mtpOta e" "\<not> mtpStarted m" "\<not> firstLoopDone m"
    "list_all mtpOta es"
  shows "MtpBegin \<in> set (fst (mtpTask e m)) \<and> \<not> firstLoopDone (foldl (\<lambda>m e. snd (mtpTask e m)) (snd (mtpTask e m)) es)"
proof -
  have f: "\<not> firstLoopDone (foldl (\<lambda>m e. snd (mtpTask e m)) m es)" if "mtpStarted m" "\<not> firstLoopDone m" for m
    using assms(6) that
    by (induction es arbitrary: m) (simp_all add: mtpTask_def mtpFinishStartup_def)
  show ?thesis using assms(1-5) f by (simp add: mtpTask_def mtpBegin_def mtpFinishStartup_def Let_def)
qed

end
