(* ===== verification/Spec2Isabelle.thy ===== *)
theory Spec2Isabelle
  imports Pwm_Pair Hex_Parse Ota_Crc Ota_Ingest Ota_Verify Flash_Ota Ota Event_Log Stream_Ring Scope Capture
    Config_Types Config_Validate Config_Json Pin_Ownership Config_Store Pwm_Protection Modulation Pwm_Setup
    Presets Web_Auth Web_Api Waveform_Parse Gzip_Crc Gzip_Stream Waveform_Upload Mppt Acmp Thermal_Derate
    Web_Pool Ntp Mtp_Service
begin

text \<open>
  A verification development for teg, the firmware of a Teensy 4.1 signal generator and inverter
  controller (\<open>src/src\<close>). The firmware drives the FlexPWM outputs of the chip with a modulated or fixed
  waveform, protects them against faults, captures feedback samples, keeps its configuration on an SD
  card, serves a web API, and updates itself over the network.

  \<^bold>\<open>Parts and theories.\<close> Each theory models one part; its opening text says how state and
  operations correspond to the code.

  \<^item> \<^bold>\<open>Prelude\<close>: names of the machine integers, C strings, facts on words and lists all theories share.
  \<^item> \<^bold>\<open>Output.\<close> \<open>Pwm_Pair\<close> (\<open>pwm_pair.h\<close>) says what the two outputs of a submodule mean and which dead
    time is programmed. \<open>Modulation\<close> (\<open>modulation.h\<close>, \<open>spwm_math.h\<close>, \<open>pwm_timing.h\<close>) turns a reference phase
    into the duty of every cell. \<open>Pwm_Setup\<close> (\<open>pwm_utils.cpp\<close>) programs the submodules, decides which cells are
    held off or inverted, and is the carrier interrupt. \<open>Pwm_Protection\<close> (\<open>pwm_utils.cpp\<close>, \<open>acmp.cpp\<close>,
    \<open>thermal.cpp\<close>, \<open>main.cpp\<close>) decides when the outputs may be connected to their pads, under every placement of the
    fault interrupts. \<open>Acmp\<close> (\<open>acmp_math.h\<close>, \<open>acmp.cpp\<close>) builds the hardware over-current trip register by
    register, \<open>Thermal_Derate\<close> (\<open>thermal_math.h\<close>, \<open>thermal.cpp\<close>) turns temperatures into the ceiling of the modulation
    index, \<open>Mppt\<close> (\<open>mppt_math.h\<close>, \<open>mppt.cpp\<close>) moves the index under that ceiling.
  \<^item> \<^bold>\<open>Waveforms.\<close> \<open>Waveform_Parse\<close> (\<open>waveform_parse.h\<close>) reads the text and binary formats, over the
    fields of \<open>Byte_Order\<close>; \<open>Gzip_Stream\<close> and \<open>Gzip_Crc\<close> (\<open>gzip_stream.h\<close>, the checksum of \<open>lib/miniz\<close>) unpack an
    upload; \<open>Waveform_Upload\<close> (\<open>waveform.cpp\<close>) takes it from the request to the stored file and activates it;
    \<open>Stream_Ring\<close> (\<open>stream_ring.h\<close>, \<open>waveform.cpp\<close>) plays a long one from the card.
  \<^item> \<^bold>\<open>Measurement.\<close> \<open>Scope\<close> (\<open>scope_math.h\<close>, \<open>capture_math.h\<close>) is the trigger and the decimation,
    \<open>Capture\<close> (\<open>capture.cpp\<close>) the rings the carrier interrupt fills, their cursor and the meter banks.
  \<^item> \<^bold>\<open>Configuration.\<close> \<open>Config_Types\<close> has the structures of \<open>config_json.h\<close>, \<open>Config_Validate\<close>,
    \<open>Config_Json\<close> (\<open>config_serde.h\<close>) the validation, the documents and the secrets, \<open>Pin_Ownership\<close> the claims on
    pins, \<open>Config_Store\<close> (\<open>config_json.cpp\<close>) saving and recovery, \<open>Presets\<close> (\<open>preset_name.h\<close>, \<open>presets.cpp\<close>) named
    configurations and settings import.
  \<^item> \<^bold>\<open>Update.\<close> \<open>Hex_Parse\<close>, \<open>Ota_Crc\<close>, \<open>Ota_Ingest\<close>, \<open>Ota_Verify\<close> (headers of the same names) take an
    uploaded hex file into a staging buffer and judge it, \<open>Flash_Ota\<close> (\<open>flash_ota.cpp\<close>) copies it over the
    running image, \<open>Ota\<close> (\<open>ota.cpp\<close>) is the state machine from upload to reset.
  \<^item> \<^bold>\<open>Network.\<close> \<open>Event_Log\<close> (\<open>event_log.h\<close>, \<open>event_log.cpp\<close>) is the log a client polls and its clock,
    \<open>Web_Pool\<close>, \<open>Web_Auth\<close> and \<open>Web_Api\<close> (\<open>web_handlers.cpp\<close>, \<open>write_pin.h\<close>) the connections that wait, the
    authorisation and the requests that change the device. \<open>Ntp\<close> (\<open>ntp_utils.h\<close>, \<open>utils.cpp\<close>) sets the clock from a time
    server, \<open>Mtp_Service\<close> (\<open>mtp_service.cpp\<close>) lets a host read the card while the outputs are off.

  \<^bold>\<open>How the parts interact.\<close> A configuration reaches the hardware in one way: a document is read
  (\<open>configFromJson\<close>), its secrets are kept or restored, it is validated (\<open>validateConfig\<close>), its pins are claimed
  (\<open>validatePinOwnership\<close>), and \<open>applyPwmConfig\<close> runs the set-up. \<open>Config_Store\<close> does this at boot,
  \<open>Presets\<close> and \<open>Web_Api\<close> on a request; \<open>Web_Api.api_keeps_device_safe\<close> carries the result of validation
  through every request, \<open>Pwm_Setup\<close> and \<open>Pwm_Protection\<close> start from it. An update is staged by \<open>Ota_Ingest\<close> on
  flash primitives whose contract \<open>Flash_Ota\<close> provides, and \<open>Ota\<close> composes both. The carrier interrupt of
  \<open>Pwm_Setup\<close> takes its samples from \<open>Stream_Ring\<close>, which \<open>Waveform_Upload\<close> fills, and feeds \<open>Capture\<close>. The index target
  of \<open>Pwm_Setup\<close> has several writers, the requests, the tracker of \<open>Mppt\<close> and the ceiling of \<open>Thermal_Derate\<close>; the
  theorems on each hold for every order of the writes of the others. \<open>Pwm_Protection\<close> takes what the
  comparator and the temperature sensors report as inputs of its steps; \<open>Acmp.acmp_refines_protection\<close> and
  \<open>Thermal_Derate.thermal_bus_only_while_inhibited\<close> show that the detailed code takes exactly those steps.

  \<^bold>\<open>What comes back from a card.\<close> Configurations are written and read as documents. Three conditions on a configuration
  matter: \<open>settledConfig\<close>, what validation guarantees; \<open>inBuffers\<close>, that its strings fit their buffers, which
  every reader and every request keeps (\<open>Web_Api.apiRun_inBuffers\<close>); and \<open>intSettings\<close>, that five unsigned settings
  no rule bounds are below \<open>2 ^ 31\<close>. The last is not guaranteed: these settings are read with a signed default,
  so a larger value, which a posted -1 gives, comes back as the default. \<open>reloaded\<close> is the configuration with
  these settings reset and the two sections they belong to validated again (\<open>Config_Json.reloaded_explicit\<close> lists
  every field that can change), and the round trips are stated with it, with the equivalence that it is the
  configuration itself exactly when \<open>intSettings\<close> holds (\<open>Config_Json.reloaded_iff\<close>).

  \<^bold>\<open>Conventions.\<close> Unsigned integers are words of the source's width and wrap as they do; signed ones
  are \<open>int\<close> where overflow is undefined, with lemmas that bound them (\<open>Modulation.signed_intermediates_fit\<close>).
  Interrupts that preempt the main loop are steps of a relation or a machine with a program counter
  (\<open>Stream_Ring\<close>, \<open>Capture\<close>, \<open>Pwm_Protection\<close>); code that a power cut may stop returns the card or the flash after each of
  its steps (\<open>Config_Store\<close>, \<open>Presets\<close>, \<open>Flash_Ota\<close>). Errors are values. No definition uses fuel: a loop of the
  source is a structural recursion, a recursion on a bounded counter or a fold over its index range, except
  for two, the refill of a stream buffer and the loop over the input of the gzip reader, which are partial functions
  whose value \<open>None\<close> is a loop that does not end, and which are proved to return; the requests, samples and
  interrupts of a run are a list, so a run is as long as its list.

  \<^bold>\<open>Libraries.\<close> Code that is not part of the repository is a record of functions with a locale that
  states what the firmware relies on, and an interpretation on a reference implementation that shows the laws can
  hold: ArduinoJson (\<open>json_library\<close>), the SD card (\<open>sd_card\<close>, and \<open>fat_card\<close> where the case of names
  matters; \<open>wave_card\<close> and \<open>working_card\<close> for the calls of the upload), the decompressor of miniz (\<open>inflate_library\<close>), the
  peripheral registers (\<open>register_file\<close>, \<open>working_registers\<close>), the Teensy core's flash primitives (\<open>flash_device\<close>, \<open>working_flash\<close>, \<open>mapped_flash\<close>), which satisfy the contract
  the ingest states for its callbacks (\<open>staging_flash\<close>).

  \<^bold>\<open>What the lemmas show.\<close> The properties numbered in the theories are the ones to read first: the update
  installs only a verified image, whatever the flash does; the outputs are connected only when nothing
  forbids it, a bridge leg the scheme gate denies never switches, a current limit reported ready is one whose whole path reads
  back, and the thermal ceiling holds in every cycle and falls to zero without a sample; a power cut during a save
  loses neither configuration; an accepted waveform is stored and played byte for byte; validation reaches a configuration the hardware can run and the API
  keeps it so; only the PIN changes the device, and guessing it is slow; playback, capture, metering and the event log
  lose nothing without saying so. The lemmas before them are the invariants of each operation. Some
  theorems state what the code does where its comments promise more: a fault edge that is lost, an
  interlock that a save releases, a pair refused for its register setting that the interrupt still writes, a
  setting that a save does not keep, a preset that a failed rename destroys, a guess limit that five
  addresses defeat, a block that returns after weeks, a waiting client that newcomers overtake.

  \<^bold>\<open>Not modelled.\<close> Floating-point code: the built-in reference shapes, the PI regulator, the PLL, the spectrum, the
  arc detectors, the conversions of meter and power monitor readings (the ranges their configurations may
  have are in \<open>Config_Validate\<close>); the conversion of numbers in waveform text is a parameter, the thermal curve is exact
  where the source computes it in single precision. Drivers and services that only move data between
  libraries: MQTT and its discovery documents, InfluxDB metrics, the display, the request handlers that only
  read. Third-party and host code: the rest of \<open>lib/miniz\<close>, the MTP library, \<open>scripts\<close>,
  \<open>arc_detector\<close>, the web pages, the tests.
\<close>

end
